(* ===== verification/AnyRpc_Prelude.thy ===== *)
theory AnyRpc_Prelude
  imports Main "HOL-Library.Word"
begin

unbundle bit_operations_syntax

text \<open>
  Shared ground of the development: bytes and string literals, the error codes of
  error.h, the result type of code that may throw, and the lemmas on words and lists
  that several components use.

  A C++ \<^verbatim>\<open>char\<close> or \<^verbatim>\<open>unsigned char\<close> is a \<open>byte\<close> (an 8-bit word); every comparison the
  modelled code makes on a \<^verbatim>\<open>char\<close> gives the same answer for the signed and for the
  unsigned reading of bytes above 0x7f.
\<close>

type_synonym byte = "8 word"
type_synonym bytes = "byte list"
type_synonym u32 = "32 word"
type_synonym u64 = "64 word"

text \<open>String literals: \<open>lit ''abc''\<close> is the byte sequence of the C literal "abc".\<close>

definition lit :: "string \<Rightarrow> bytes" where
  "lit s = map of_char s"

lemma lit_simps [simp]: "lit [] = []" "lit (c # cs) = of_char c # lit cs"
  by (simp_all add: lit_def)

lemma length_lit [simp]: "length (lit s) = length s"
  by (simp add: lit_def)

named_theorems flag_defs \<open>definitions of flag words and flag tests\<close>
named_theorems stream_simps \<open>characteristic equations of stream operations\<close>

section \<open>Error codes\<close>

text \<open>
  What a throw carries: the \<^verbatim>\<open>int\<close> code of an \<^verbatim>\<open>AnyRpcException\<close> (the message text and the
  offset are not modelled), or \<open>UndefinedBehaviour\<close> for what the language leaves undefined
  (reading through an empty vector, for instance); theorems about the code show where it
  cannot arise. \<open>OutOfFuel\<close> is the end of a recursion bounded by a counter; the counters the
  development uses are proved to be large enough. The codes of \<^verbatim>\<open>enum AnyRpcErrorCode\<close> follow.
\<close>

datatype err = AnyRpcException int | UndefinedBehaviour | OutOfFuel

abbreviation AnyRpcErrorServerError :: err where "AnyRpcErrorServerError \<equiv> AnyRpcException (-32000)"
abbreviation AnyRpcErrorResponseParseError :: err where "AnyRpcErrorResponseParseError \<equiv> AnyRpcException (-32001)"
abbreviation AnyRpcErrorInvalidResponse :: err where "AnyRpcErrorInvalidResponse \<equiv> AnyRpcException (-32002)"
abbreviation AnyRpcErrorTransportError :: err where "AnyRpcErrorTransportError \<equiv> AnyRpcException (-32300)"
abbreviation AnyRpcErrorSystemError :: err where "AnyRpcErrorSystemError \<equiv> AnyRpcException (-32400)"
abbreviation AnyRpcErrorValueAccess :: err where "AnyRpcErrorValueAccess \<equiv> AnyRpcException (-32401)"
abbreviation AnyRpcErrorStringNotTerminated :: err where "AnyRpcErrorStringNotTerminated \<equiv> AnyRpcException (-32402)"
abbreviation AnyRpcErrorIllegalAssignment :: err where "AnyRpcErrorIllegalAssignment \<equiv> AnyRpcException (-32403)"
abbreviation AnyRpcErrorIllegalArrayAccess :: err where "AnyRpcErrorIllegalArrayAccess \<equiv> AnyRpcException (-32404)"
abbreviation AnyRpcErrorMemoryAllocation :: err where "AnyRpcErrorMemoryAllocation \<equiv> AnyRpcException (-32405)"
abbreviation AnyRpcErrorAccessInvalidValue :: err where "AnyRpcErrorAccessInvalidValue \<equiv> AnyRpcException (-32406)"
abbreviation AnyRpcErrorIllegalCall :: err where "AnyRpcErrorIllegalCall \<equiv> AnyRpcException (-32407)"
abbreviation AnyRpcErrorBufferOverrun :: err where "AnyRpcErrorBufferOverrun \<equiv> AnyRpcException (-32408)"
abbreviation AnyRpcErrorAccessNotInvalidValue :: err where "AnyRpcErrorAccessNotInvalidValue \<equiv> AnyRpcException (-32409)"
abbreviation AnyRpcErrorMapCountWrong :: err where "AnyRpcErrorMapCountWrong \<equiv> AnyRpcException (-32410)"
abbreviation AnyRpcErrorArrayCountWrong :: err where "AnyRpcErrorArrayCountWrong \<equiv> AnyRpcException (-32411)"
abbreviation AnyRpcErrorShutdown :: err where "AnyRpcErrorShutdown \<equiv> AnyRpcException (-32412)"
abbreviation AnyRpcErrorPrettyPrintLevel :: err where "AnyRpcErrorPrettyPrintLevel \<equiv> AnyRpcException (-32413)"
abbreviation AnyRpcErrorUnicodeValue :: err where "AnyRpcErrorUnicodeValue \<equiv> AnyRpcException (-32414)"
abbreviation AnyRpcErrorSurrogatePair :: err where "AnyRpcErrorSurrogatePair \<equiv> AnyRpcException (-32415)"
abbreviation AnyRpcErrorUtf8Sequence :: err where "AnyRpcErrorUtf8Sequence \<equiv> AnyRpcException (-32416)"
abbreviation AnyRpcErrorHandlerNotDefined :: err where "AnyRpcErrorHandlerNotDefined \<equiv> AnyRpcException (-32417)"
abbreviation AnyRpcErrorNullInString :: err where "AnyRpcErrorNullInString \<equiv> AnyRpcException (-32418)"
abbreviation AnyRpcErrorApplicationError :: err where "AnyRpcErrorApplicationError \<equiv> AnyRpcException (-32500)"
abbreviation AnyRpcErrorInvalidRequest :: err where "AnyRpcErrorInvalidRequest \<equiv> AnyRpcException (-32600)"
abbreviation AnyRpcErrorMethodNotFound :: err where "AnyRpcErrorMethodNotFound \<equiv> AnyRpcException (-32601)"
abbreviation AnyRpcErrorInvalidParams :: err where "AnyRpcErrorInvalidParams \<equiv> AnyRpcException (-32602)"
abbreviation AnyRpcErrorInternalError :: err where "AnyRpcErrorInternalError \<equiv> AnyRpcException (-32603)"
abbreviation AnyRpcErrorMethodRedefine :: err where "AnyRpcErrorMethodRedefine \<equiv> AnyRpcException (-32604)"
abbreviation AnyRpcErrorFunctionRedefine :: err where "AnyRpcErrorFunctionRedefine \<equiv> AnyRpcException (-32605)"
abbreviation AnyRpcErrorParseError :: err where "AnyRpcErrorParseError \<equiv> AnyRpcException (-32700)"
abbreviation AnyRpcErrorUnsupportedEncoding :: err where "AnyRpcErrorUnsupportedEncoding \<equiv> AnyRpcException (-32701)"
abbreviation AnyRpcErrorInvalidEncoding :: err where "AnyRpcErrorInvalidEncoding \<equiv> AnyRpcException (-32702)"
abbreviation AnyRpcErrorDocumentEmpty :: err where "AnyRpcErrorDocumentEmpty \<equiv> AnyRpcException (-32703)"
abbreviation AnyRpcErrorDocumentRootNotSingular :: err where "AnyRpcErrorDocumentRootNotSingular \<equiv> AnyRpcException (-32704)"
abbreviation AnyRpcErrorValueInvalid :: err where "AnyRpcErrorValueInvalid \<equiv> AnyRpcException (-32705)"
abbreviation AnyRpcErrorObjectMissName :: err where "AnyRpcErrorObjectMissName \<equiv> AnyRpcException (-32706)"
abbreviation AnyRpcErrorObjectMissColon :: err where "AnyRpcErrorObjectMissColon \<equiv> AnyRpcException (-32707)"
abbreviation AnyRpcErrorObjectMissCommaOrCurlyBracket :: err where "AnyRpcErrorObjectMissCommaOrCurlyBracket \<equiv> AnyRpcException (-32708)"
abbreviation AnyRpcErrorArrayMissCommaOrSquareBracket :: err where "AnyRpcErrorArrayMissCommaOrSquareBracket \<equiv> AnyRpcException (-32709)"
abbreviation AnyRpcErrorStringUnicodeEscapeInvalid :: err where "AnyRpcErrorStringUnicodeEscapeInvalid \<equiv> AnyRpcException (-32710)"
abbreviation AnyRpcErrorStringUnicodeSurrogateInvalid :: err where "AnyRpcErrorStringUnicodeSurrogateInvalid \<equiv> AnyRpcException (-32711)"
abbreviation AnyRpcErrorStringEscapeInvalid :: err where "AnyRpcErrorStringEscapeInvalid \<equiv> AnyRpcException (-32712)"
abbreviation AnyRpcErrorStringMissingQuotationMark :: err where "AnyRpcErrorStringMissingQuotationMark \<equiv> AnyRpcException (-32713)"
abbreviation AnyRpcErrorStringInvalidEncoding :: err where "AnyRpcErrorStringInvalidEncoding \<equiv> AnyRpcException (-32714)"
abbreviation AnyRpcErrorNumberTooBig :: err where "AnyRpcErrorNumberTooBig \<equiv> AnyRpcException (-32715)"
abbreviation AnyRpcErrorNumberMissFraction :: err where "AnyRpcErrorNumberMissFraction \<equiv> AnyRpcException (-32716)"
abbreviation AnyRpcErrorNumberMissExponent :: err where "AnyRpcErrorNumberMissExponent \<equiv> AnyRpcException (-32717)"
abbreviation AnyRpcErrorTermination :: err where "AnyRpcErrorTermination \<equiv> AnyRpcException (-32718)"
abbreviation AnyRpcErrorNonspecificSyntaxError :: err where "AnyRpcErrorNonspecificSyntaxError \<equiv> AnyRpcException (-32719)"
abbreviation AnyRpcErrorTagInvalid :: err where "AnyRpcErrorTagInvalid \<equiv> AnyRpcException (-32720)"
abbreviation AnyRpcErrorDateTimeInvalid :: err where "AnyRpcErrorDateTimeInvalid \<equiv> AnyRpcException (-32721)"
abbreviation AnyRpcErrorNotImplemented :: err where "AnyRpcErrorNotImplemented \<equiv> AnyRpcException (-32722)"
abbreviation AnyRpcErrorHandler :: err where "AnyRpcErrorHandler \<equiv> AnyRpcException (-32723)"
abbreviation AnyRpcErrorBase64Invalid :: err where "AnyRpcErrorBase64Invalid \<equiv> AnyRpcException (-32724)"

section \<open>Results of code that may throw\<close>

text \<open>
  \<open>err + 'a\<close>: \<open>Inl\<close> is a thrown \<^verbatim>\<open>AnyRpcException\<close> with its code (the message text is not
  modelled), \<open>Inr\<close> a normal return. \<open>then_r\<close> is sequential composition and \<open>check_that\<close> is
  \<^verbatim>\<open>anyrpc_assert\<close> in its default configuration, which throws.
\<close>

type_synonym 'a result = "err + 'a"

fun then_r :: "'a result \<Rightarrow> ('a \<Rightarrow> 'b result) \<Rightarrow> 'b result" where
  "then_r (Inl e) k = Inl e"
| "then_r (Inr x) k = k x"

definition check_that :: "bool \<Rightarrow> err \<Rightarrow> 'a result \<Rightarrow> 'a result" where
  "check_that b e r = (if b then r else Inl e)"

lemma check_that_simps [simp]:
  "check_that True e r = r" "check_that False e r = Inl e"
  by (simp_all add: check_that_def)

lemma check_that_Inr [simp]: "check_that b e r = Inr x \<longleftrightarrow> b \<and> r = Inr x"
  by (simp add: check_that_def)

lemma then_r_Inr [simp]: "then_r r k = Inr y \<longleftrightarrow> (\<exists>x. r = Inr x \<and> k x = Inr y)"
  by (cases r) auto

lemma then_r_assoc: "then_r (then_r r f) g = then_r r (\<lambda>x. then_r (f x) g)"
  by (cases r) simp_all

section \<open>Lists and options\<close>

text \<open>Concatenation with a separator between the parts.\<close>

fun sep_concat :: "'a \<Rightarrow> 'a list list \<Rightarrow> 'a list" where
  "sep_concat sep [] = []"
| "sep_concat sep [xs] = xs"
| "sep_concat sep (xs # ys # zss) = xs @ sep # sep_concat sep (ys # zss)"

lemma sep_concat_Cons: "zss \<noteq> [] \<Longrightarrow> sep_concat sep (xs # zss) = xs @ sep # sep_concat sep zss"
  by (cases zss) simp_all

lemma map_option_append_Nil [simp]: "map_option ((@) []) r = r"
  by (cases r) simp_all

lemma map_option_append_append [simp]:
  "map_option ((@) xs) (map_option ((@) ys) r) = map_option ((@) (xs @ ys)) r"
  by (cases r) simp_all

lemma drop_splice:
  assumes "d + length ys \<le> k" "d + length ys \<le> length xs"
  shows "drop k (take d xs @ ys @ drop (d + length ys) xs) = drop k xs"
  using assms by simp

section \<open>Words\<close>

lemma unat_and_mask: "unat (w AND mask n) = unat w mod 2 ^ n" for w :: "'a::len word"
  unfolding take_bit_eq_mask [symmetric] by (simp only: unsigned_take_bit_eq, simp only: take_bit_eq_mod)

lemma unat_shift_right: "unat (drop_bit n w) = unat w div 2 ^ n" for w :: "'a::len word"
  by (simp only: unat_drop_bit_eq, simp only: drop_bit_eq_div)

lemma unat_shift_left: "unat (push_bit n w) = unat w * 2 ^ n mod 2 ^ LENGTH('a)"
  for w :: "'a::len word"
  by (simp only: unsigned_push_bit_eq, simp only: take_bit_eq_mod push_bit_eq_mult)

lemma unat_byte_lt [simp]: "unat (b :: byte) < 256"
  using unsigned_less [of b] by simp

lemma sint_uint_nonneg:
  fixes w :: "'a::len word"
  assumes "0 \<le> sint w"
  shows "uint w = sint w"
proof -
  have "sint w < 2 ^ (LENGTH('a) - 1)" by (rule sint_lt)
  also have "(2 :: int) ^ (LENGTH('a) - 1) \<le> 2 ^ LENGTH('a)" by (rule power_increasing) simp_all
  finally have "take_bit LENGTH('a) (sint w) = sint w" using assms by (simp add: take_bit_int_eq_self)
  then show ?thesis using uint_sint [of w] by simp
qed

end
