(* ===== verification/AnyRpc_Stream.thy ===== *)
theory AnyRpc_Stream
  imports AnyRpc_Prelude
begin

text \<open>
  stream.h and stream.cpp: the streams that write to memory (\<^verbatim>\<open>WriteStringStream\<close>,
  \<^verbatim>\<open>WriteSegmentedStream\<close>) or through a buffer to a file (\<^verbatim>\<open>WriteFileStream\<close>) and those that
  read from a null-terminated string (\<^verbatim>\<open>ReadStringStream\<close>), from a buffer that is modified in
  place (\<^verbatim>\<open>InSituStringStream\<close>) and through a buffer from a file (\<^verbatim>\<open>ReadFileStream\<close>).

  Two locales state what the rest of the library relies on: an output stream appends what is
  put to it, and an input stream delivers the bytes it has left one by one. Every stream
  class is an interpretation. \<^verbatim>\<open>size_t\<close> values are naturals; a subtraction that wraps is written out.
\<close>

section \<open>The interfaces\<close>

locale output_stream =
  fixes put_char :: "'s \<Rightarrow> byte \<Rightarrow> 's"
    and put_str :: "'s \<Rightarrow> bytes \<Rightarrow> 's option"
    and flush :: "'s \<Rightarrow> 's"
    and content :: "'s \<Rightarrow> bytes"
    and ok :: "'s \<Rightarrow> bool"
  assumes put_char_content: "ok s \<Longrightarrow> content (put_char s c) = content s @ [c]"
    and put_char_ok: "ok s \<Longrightarrow> ok (put_char s c)"
    and put_str_content: "ok s \<Longrightarrow> \<exists>s'. put_str s xs = Some s' \<and> ok s' \<and> content s' = content s @ xs"
    and flush_content: "ok s \<Longrightarrow> content (flush s) = content s"
    and flush_ok: "ok s \<Longrightarrow> ok (flush s)"

text \<open>What a writer does to a stream: a sequence of the three operations.\<close>

datatype put = PutChar byte | PutStr bytes | Flush

fun put_bytes :: "put \<Rightarrow> bytes" where
  "put_bytes (PutChar c) = [c]"
| "put_bytes (PutStr xs) = xs"
| "put_bytes Flush = []"

fun run_put ::
    "('s \<Rightarrow> byte \<Rightarrow> 's) \<Rightarrow> ('s \<Rightarrow> bytes \<Rightarrow> 's option) \<Rightarrow> ('s \<Rightarrow> 's) \<Rightarrow> put \<Rightarrow> 's \<Rightarrow> 's option" where
  "run_put pc ps fl (PutChar c) s = Some (pc s c)"
| "run_put pc ps fl (PutStr xs) s = ps s xs"
| "run_put pc ps fl Flush s = Some (fl s)"

fun run_puts ::
    "('s \<Rightarrow> byte \<Rightarrow> 's) \<Rightarrow> ('s \<Rightarrow> bytes \<Rightarrow> 's option) \<Rightarrow> ('s \<Rightarrow> 's) \<Rightarrow> put list \<Rightarrow> 's \<Rightarrow> 's option" where
  "run_puts pc ps fl [] s = Some s"
| "run_puts pc ps fl (p # ps') s = Option.bind (run_put pc ps fl p s) (run_puts pc ps fl ps')"

context output_stream
begin

lemma run_put_content:
  "ok s \<Longrightarrow> \<exists>s'. run_put put_char put_str flush p s = Some s' \<and> ok s' \<and> content s' = content s @ put_bytes p"
  by (cases p) (simp_all add: put_char_content put_char_ok put_str_content flush_content flush_ok)

lemma run_puts_content:
  "ok s \<Longrightarrow> \<exists>s'. run_puts put_char put_str flush ps s = Some s' \<and> ok s'
     \<and> content s' = content s @ concat (map put_bytes ps)"
proof (induction ps arbitrary: s)
  case (Cons p ps)
  from run_put_content [OF Cons.prems, of p] obtain s1
    where "run_put put_char put_str flush p s = Some s1" "ok s1" "content s1 = content s @ put_bytes p" by blast
  with Cons.IH [of s1] show ?case by auto
qed simp

end

locale input_stream =
  fixes eof :: "'s \<Rightarrow> bool"
    and peek :: "'s \<Rightarrow> byte"
    and get :: "'s \<Rightarrow> byte \<times> 's"
    and left :: "'s \<Rightarrow> bytes"
    and ok :: "'s \<Rightarrow> bool"
  assumes eof_left: "ok s \<Longrightarrow> eof s \<longleftrightarrow> left s = []"
    and peek_left: "ok s \<Longrightarrow> peek s = (case left s of [] \<Rightarrow> 0 | c # _ \<Rightarrow> c)"
    and get_char: "ok s \<Longrightarrow> fst (get s) = (case left s of [] \<Rightarrow> 0 | c # _ \<Rightarrow> c)"
    and get_left: "ok s \<Longrightarrow> left (snd (get s)) = tl (left s)"
    and get_ok: "ok s \<Longrightarrow> ok (snd (get s))"

text \<open>Reading a stream to its end with \<^verbatim>\<open>Get\<close>.\<close>

partial_function (option) drain ::
    "('s \<Rightarrow> bool) \<Rightarrow> ('s \<Rightarrow> byte \<times> 's) \<Rightarrow> 's \<Rightarrow> (bytes \<times> 's) option" where
  "drain eof get s =
     (if eof s then Some ([], s)
      else case get s of (c, s1) \<Rightarrow>
        Option.bind (drain eof get s1) (\<lambda>r. case r of (cs, s2) \<Rightarrow> Some (c # cs, s2)))"

context input_stream
begin

lemma get_Cons:
  assumes "ok s" "left s = c # cs"
  obtains s1 where "get s = (c, s1)" "left s1 = cs" "ok s1"
  using get_char [OF assms(1)] get_left [OF assms(1)] get_ok [OF assms(1)] assms(2)
  by (cases "get s") auto

lemma drain_left:
  "ok s \<Longrightarrow> \<exists>s'. drain eof get s = Some (left s, s') \<and> ok s' \<and> left s' = []"
proof (induction "left s" arbitrary: s)
  case Nil
  then show ?case using eof_left [of s] by (subst drain.simps) auto
next
  case (Cons c cs)
  from get_Cons [OF Cons.prems] Cons.hyps(2) obtain s1
    where s1: "get s = (c, s1)" "left s1 = cs" "ok s1" by metis
  have "\<not> eof s" using eof_left [OF Cons.prems] Cons.hyps(2) by auto
  with s1 Cons.hyps Cons.hyps(1) [of s1] show ?case by (subst drain.simps) auto
qed

end

section \<open>WriteStringStream\<close>

definition wstr_put_char :: "bytes \<Rightarrow> byte \<Rightarrow> bytes" where
  "wstr_put_char str c = str @ [c]"

definition wstr_put :: "bytes \<Rightarrow> bytes \<Rightarrow> bytes" where
  "wstr_put str xs = str @ xs"

text \<open>The bytes from the pointer returned up to its \<^verbatim>\<open>segmentLength\<close>; \<open>None\<close> is the null pointer.\<close>

definition wstr_GetBuffer :: "bytes \<Rightarrow> nat \<Rightarrow> bytes option" where
  "wstr_GetBuffer str offset = (if offset > length str then None else Some (drop offset str))"

interpretation wstr: output_stream wstr_put_char "\<lambda>s xs. Some (wstr_put s xs)" "\<lambda>s. s" "\<lambda>s. s" "\<lambda>s. True"
  by unfold_locales (simp_all add: wstr_put_char_def wstr_put_def)

section \<open>WriteSegmentedStream\<close>

text \<open>
  A segment keeps the bytes written to it (\<^verbatim>\<open>used_\<close> of them) and its capacity, one less than the
  bytes allocated for it.
\<close>

record segment =
  seg_buffer :: bytes
  seg_capacity :: nat
  seg_allocated :: bool

record wss =
  wss_buffers :: "segment list"
  wss_length :: nat
  wss_nextCapacity :: nat
  wss_maxBufferSize :: nat

definition StaticBufferSize :: nat where "StaticBufferSize = 1024"
definition MaxBufferSize :: nat where "MaxBufferSize = 64 * 1024"

abbreviation seg_used :: "segment \<Rightarrow> nat" where "seg_used b \<equiv> length (seg_buffer b)"

definition size_pred :: "nat \<Rightarrow> nat" where
  "size_pred n = (if n = 0 then 2 ^ 64 - 1 else n - 1)"

definition BufferSegment :: "nat \<Rightarrow> bool \<Rightarrow> segment" where
  "BufferSegment capacity allocated =
     \<lparr> seg_buffer = [], seg_capacity = size_pred capacity, seg_allocated = allocated \<rparr>"

definition wss_new :: "nat \<Rightarrow> wss" where
  "wss_new maxBufferSize =
     \<lparr> wss_buffers = [BufferSegment StaticBufferSize False], wss_length = 0,
       wss_nextCapacity = min (2 * StaticBufferSize) maxBufferSize, wss_maxBufferSize = maxBufferSize \<rparr>"

definition wss_Clear :: "wss \<Rightarrow> wss" where
  "wss_Clear s = s \<lparr> wss_buffers := [BufferSegment StaticBufferSize False],
     wss_nextCapacity := min (2 * StaticBufferSize) (wss_maxBufferSize s), wss_length := 0 \<rparr>"

definition wss_AddBuffer :: "wss \<Rightarrow> wss" where
  "wss_AddBuffer s = s \<lparr> wss_buffers := wss_buffers s @ [BufferSegment (wss_nextCapacity s) True],
     wss_nextCapacity := min (2 * wss_nextCapacity s) (wss_maxBufferSize s) \<rparr>"

text \<open>Appending to \<^verbatim>\<open>buffers_.back()\<close> and counting it in \<^verbatim>\<open>length_\<close>.\<close>

definition wss_append :: "wss \<Rightarrow> bytes \<Rightarrow> wss" where
  "wss_append s xs =
     (let b = last (wss_buffers s) in
      s \<lparr> wss_buffers := butlast (wss_buffers s) @ [b \<lparr> seg_buffer := seg_buffer b @ xs \<rparr>],
          wss_length := wss_length s + length xs \<rparr>)"

definition wss_put_char :: "wss \<Rightarrow> byte \<Rightarrow> wss" where
  "wss_put_char s c =
     (let back = last (wss_buffers s);
          s1 = (if seg_capacity back = seg_used back then wss_AddBuffer s else s)
      in wss_append s1 [c])"

text \<open>With segments of capacity 0 (a maximal size of 1) this loop would never end.\<close>

partial_function (option) wss_put :: "wss \<Rightarrow> bytes \<Rightarrow> wss option" where
  "wss_put s str =
     (if str = [] then Some s
      else let back = last (wss_buffers s);
               availableSpace = seg_capacity back - seg_used back
        in if availableSpace \<ge> length str then Some (wss_append s str)
           else wss_put (wss_AddBuffer (if availableSpace > 0 then wss_append s (take availableSpace str) else s))
                  (drop availableSpace str))"

fun wss_find :: "segment list \<Rightarrow> nat \<Rightarrow> bytes option" where
  "wss_find [] offset = None"
| "wss_find (it # bs) offset =
     (if offset < seg_used it then Some (drop offset (seg_buffer it))
      else wss_find bs (offset - seg_used it))"

definition wss_GetBuffer :: "wss \<Rightarrow> nat \<Rightarrow> bytes option" where
  "wss_GetBuffer s offset = (if offset \<ge> wss_length s then None else wss_find (wss_buffers s) offset)"

text \<open>
  The contract. \<open>wss_ok\<close>: no segment holds more than its capacity, so with the byte kept for the
  terminating null every write is inside the allocation; the last segment exists and there is
  room in the next one.
\<close>

definition wss_content :: "wss \<Rightarrow> bytes" where
  "wss_content s = concat (map seg_buffer (wss_buffers s))"

definition wss_ok :: "wss \<Rightarrow> bool" where
  "wss_ok s \<longleftrightarrow> wss_buffers s \<noteq> [] \<and> (\<forall>b \<in> set (wss_buffers s). seg_used b \<le> seg_capacity b)
     \<and> wss_length s = length (wss_content s) \<and> 2 \<le> wss_nextCapacity s \<and> 2 \<le> wss_maxBufferSize s"

lemma wss_new_ok: "2 \<le> m \<Longrightarrow> wss_ok (wss_new m) \<and> wss_content (wss_new m) = []"
  by (simp add: wss_ok_def wss_content_def wss_new_def BufferSegment_def StaticBufferSize_def)

lemma wss_Clear_ok: "wss_ok s \<Longrightarrow> wss_ok (wss_Clear s) \<and> wss_content (wss_Clear s) = []"
  by (simp add: wss_ok_def wss_content_def wss_Clear_def BufferSegment_def StaticBufferSize_def)

lemma wss_AddBuffer_ok:
  assumes "wss_ok s"
  shows "wss_ok (wss_AddBuffer s)" "wss_content (wss_AddBuffer s) = wss_content s"
    "seg_capacity (last (wss_buffers (wss_AddBuffer s))) > 0" "seg_used (last (wss_buffers (wss_AddBuffer s))) = 0"
  using assms
  by (auto simp: wss_ok_def wss_content_def wss_AddBuffer_def BufferSegment_def size_pred_def)

lemma wss_append_ok:
  assumes "wss_ok s" "seg_used (last (wss_buffers s)) + length xs \<le> seg_capacity (last (wss_buffers s))"
  shows "wss_ok (wss_append s xs)" "wss_content (wss_append s xs) = wss_content s @ xs"
proof -
  from assms(1) have ne: "wss_buffers s \<noteq> []" by (simp add: wss_ok_def)
  then obtain bs b where bs: "wss_buffers s = bs @ [b]" by (metis append_butlast_last_id)
  show "wss_content (wss_append s xs) = wss_content s @ xs"
    using bs by (simp add: wss_content_def wss_append_def Let_def)
  then show "wss_ok (wss_append s xs)"
    using assms bs by (auto simp: wss_ok_def wss_append_def Let_def)
qed

lemma wss_last_le: "wss_ok s \<Longrightarrow> seg_used (last (wss_buffers s)) \<le> seg_capacity (last (wss_buffers s))"
  by (auto simp: wss_ok_def)

lemma wss_put_char_ok:
  assumes "wss_ok s"
  shows "wss_ok (wss_put_char s c)" "wss_content (wss_put_char s c) = wss_content s @ [c]"
proof -
  have "wss_ok (wss_put_char s c) \<and> wss_content (wss_put_char s c) = wss_content s @ [c]"
  proof (cases "seg_capacity (last (wss_buffers s)) = seg_used (last (wss_buffers s))")
    case True
    then show ?thesis using wss_AddBuffer_ok [OF assms] wss_append_ok [of "wss_AddBuffer s" "[c]"]
      by (simp add: wss_put_char_def Let_def)
  next
    case False
    with wss_last_le [OF assms] show ?thesis using wss_append_ok [OF assms, of "[c]"]
      by (simp add: wss_put_char_def Let_def)
  qed
  then show "wss_ok (wss_put_char s c)" "wss_content (wss_put_char s c) = wss_content s @ [c]" by auto
qed

definition wss_room :: "wss \<Rightarrow> nat" where
  "wss_room s = seg_capacity (last (wss_buffers s)) - seg_used (last (wss_buffers s))"

lemma wss_put_ok:
  "wss_ok s \<Longrightarrow> \<exists>s'. wss_put s str = Some s' \<and> wss_ok s' \<and> wss_content s' = wss_content s @ str"
proof (induction "2 * length str + (if wss_room s = 0 then 1 else 0)" arbitrary: s str rule: less_induct)
  case less
  let ?a = "wss_room s"
  consider "str = []" | "str \<noteq> []" "?a \<ge> length str" | "str \<noteq> []" "?a < length str" by linarith
  then show ?case
  proof cases
    case 1
    then show ?thesis using less.prems by (subst wss_put.simps) simp
  next
    case 2
    then show ?thesis
      using less.prems wss_append_ok [OF less.prems, of str] wss_last_le [OF less.prems]
      by (subst wss_put.simps) (simp add: wss_room_def Let_def)
  next
    case 3
    define s1 where "s1 = (if ?a > 0 then wss_append s (take ?a str) else s)"
    have s1: "wss_ok s1" "wss_content s1 = wss_content s @ take ?a str"
      using wss_append_ok [OF less.prems, of "take ?a str"] wss_last_le [OF less.prems] 3 less.prems
      by (auto simp: s1_def wss_room_def)
    have "wss_room (wss_AddBuffer s1) > 0"
      using wss_AddBuffer_ok [OF s1(1)] by (simp add: wss_room_def)
    moreover have "length (drop ?a str) < length str \<or> ?a = 0" using 3 by auto
    ultimately have m: "2 * length (drop ?a str) + (if wss_room (wss_AddBuffer s1) = 0 then 1 else 0)
        < 2 * length str + (if ?a = 0 then 1 else 0)" by auto
    from less.hyps [OF m wss_AddBuffer_ok(1) [OF s1(1)]] obtain s' where
      "wss_put (wss_AddBuffer s1) (drop ?a str) = Some s'" "wss_ok s'"
      "wss_content s' = wss_content (wss_AddBuffer s1) @ drop ?a str" by blast
    with 3 s1 wss_AddBuffer_ok(2) [OF s1(1)] show ?thesis
      by (subst wss_put.simps) (auto simp: Let_def s1_def wss_room_def)
  qed
qed

interpretation wss: output_stream wss_put_char wss_put "\<lambda>s. s" wss_content wss_ok
  by unfold_locales (simp_all add: wss_put_char_ok wss_put_ok)

text \<open>
  A segment returned by \<^verbatim>\<open>GetBuffer\<close> is not empty and starts at the offset asked for, so the
  callers' loop, which advances by the length of the segment, sends the whole content.
\<close>

lemma wss_find_content:
  "offset < length (concat (map seg_buffer bs)) \<Longrightarrow>
   \<exists>seg rest. wss_find bs offset = Some seg \<and> seg \<noteq> [] \<and> drop offset (concat (map seg_buffer bs)) = seg @ rest"
proof (induction bs arbitrary: offset)
  case (Cons b bs)
  show ?case
  proof (cases "offset < seg_used b")
    case False
    with Cons.prems Cons.IH [of "offset - seg_used b"] show ?thesis by auto
  qed auto
qed simp

partial_function (option) wss_read_all :: "wss \<Rightarrow> nat \<Rightarrow> bytes option" where
  "wss_read_all s offset =
     (if offset \<ge> wss_length s then Some []
      else case wss_GetBuffer s offset of
             None \<Rightarrow> None
           | Some seg \<Rightarrow> Option.bind (wss_read_all s (offset + length seg)) (\<lambda>r. Some (seg @ r)))"

lemma wss_read_all_content:
  "wss_ok s \<Longrightarrow> wss_read_all s offset = Some (drop offset (wss_content s))"
proof (induction "wss_length s - offset" arbitrary: offset rule: less_induct)
  case less
  then have len: "wss_length s = length (wss_content s)" by (simp add: wss_ok_def)
  show ?case
  proof (cases "offset < wss_length s")
    case True
    with len obtain seg rest where seg: "wss_find (wss_buffers s) offset = Some seg" "seg \<noteq> []"
      "drop offset (wss_content s) = seg @ rest"
      using wss_find_content [of offset "wss_buffers s"] by (auto simp: wss_content_def)
    then have "rest = drop (offset + length seg) (wss_content s)"
      by (metis add.commute append_eq_conv_conj drop_drop)
    moreover have "wss_length s - (offset + length seg) < wss_length s - offset"
      using True seg(2) by (simp add: diff_less_mono2)
    ultimately show ?thesis
      using True seg less.hyps [of "offset + length seg"] less.prems
      by (subst wss_read_all.simps) (simp add: wss_GetBuffer_def)
  qed (subst wss_read_all.simps, simp add: len)
qed

section \<open>WriteFileStream\<close>

text \<open>
  \<open>wfs_file\<close>: the bytes handed to \<^verbatim>\<open>fwrite\<close> so far, which is taken to write them all;
  \<open>wfs_buffer\<close> the bytes between \<^verbatim>\<open>buffer_\<close> and \<^verbatim>\<open>current_\<close>. The stream has a file.
\<close>

record wfs =
  wfs_buffer :: bytes
  wfs_bufferSize :: nat
  wfs_file :: bytes

definition wfs_new :: "nat \<Rightarrow> wfs" where
  "wfs_new bufferSize = \<lparr> wfs_buffer = [], wfs_bufferSize = bufferSize, wfs_file = [] \<rparr>"

definition wfs_Flush :: "wfs \<Rightarrow> wfs" where
  "wfs_Flush s =
     (if length (wfs_buffer s) > 0
      then s \<lparr> wfs_file := wfs_file s @ wfs_buffer s, wfs_buffer := [] \<rparr> else s)"

definition wfs_put_char :: "wfs \<Rightarrow> byte \<Rightarrow> wfs" where
  "wfs_put_char s c =
     (let s1 = s \<lparr> wfs_buffer := wfs_buffer s @ [c] \<rparr>
      in if length (wfs_buffer s1) = wfs_bufferSize s then wfs_Flush s1 else s1)"

definition wfs_put :: "wfs \<Rightarrow> bytes \<Rightarrow> wfs" where
  "wfs_put s str =
     (let availableSpace = wfs_bufferSize s - length (wfs_buffer s)
      in if availableSpace \<le> length str
         then (let s1 = wfs_Flush s in s1 \<lparr> wfs_file := wfs_file s1 @ str \<rparr>)
         else s \<lparr> wfs_buffer := wfs_buffer s @ str \<rparr>)"

definition wfs_content :: "wfs \<Rightarrow> bytes" where
  "wfs_content s = wfs_file s @ wfs_buffer s"

definition wfs_ok :: "wfs \<Rightarrow> bool" where
  "wfs_ok s \<longleftrightarrow> length (wfs_buffer s) < wfs_bufferSize s"

lemmas wfs_defs = wfs_content_def wfs_ok_def wfs_Flush_def wfs_put_char_def wfs_put_def Let_def

interpretation wfs: output_stream wfs_put_char "\<lambda>s xs. Some (wfs_put s xs)" wfs_Flush wfs_content wfs_ok
  by unfold_locales (auto simp: wfs_defs)

lemma wfs_new_ok: "0 < n \<Longrightarrow> wfs_ok (wfs_new n) \<and> wfs_content (wfs_new n) = []"
  by (simp add: wfs_defs wfs_new_def)

lemma wfs_Flush_file: "wfs_file (wfs_Flush s) = wfs_content s \<and> wfs_buffer (wfs_Flush s) = []"
  by (simp add: wfs_defs)

section \<open>ReadStringStream\<close>

text \<open>
  \<open>rstr_mem\<close> is the memory from \<^verbatim>\<open>head_\<close> on and \<open>rstr_src\<close> the offset of \<^verbatim>\<open>src_\<close>. The source
  has to be null-terminated (\<open>rstr_ok\<close>); otherwise the accesses leave the string.
\<close>

record rstr =
  rstr_mem :: bytes
  rstr_src :: nat

definition rstr_new :: "bytes \<Rightarrow> rstr" where
  "rstr_new src = \<lparr> rstr_mem = src, rstr_src = 0 \<rparr>"

definition rstr_Peek :: "rstr \<Rightarrow> byte" where
  "rstr_Peek s = rstr_mem s ! rstr_src s"

definition rstr_Eof :: "rstr \<Rightarrow> bool" where
  "rstr_Eof s \<longleftrightarrow> rstr_Peek s = 0"

definition rstr_Get :: "rstr \<Rightarrow> byte \<times> rstr" where
  "rstr_Get s =
     (if rstr_Peek s = 0 then (rstr_Peek s, s)
      else (rstr_Peek s, s \<lparr> rstr_src := rstr_src s + 1 \<rparr>))"

fun rstr_Read :: "rstr \<Rightarrow> nat \<Rightarrow> bytes \<times> rstr" where
  "rstr_Read s 0 = ([], s)"
| "rstr_Read s (Suc n) =
     (if rstr_Peek s = 0 then ([], s)
      else case rstr_Read (s \<lparr> rstr_src := rstr_src s + 1 \<rparr>) n of
             (cs, s') \<Rightarrow> (rstr_Peek s # cs, s'))"

definition rstr_Tell :: "rstr \<Rightarrow> nat" where "rstr_Tell s = rstr_src s"

definition rstr_left :: "rstr \<Rightarrow> bytes" where
  "rstr_left s = takeWhile (\<lambda>c. c \<noteq> 0) (drop (rstr_src s) (rstr_mem s))"

definition rstr_ok :: "rstr \<Rightarrow> bool" where
  "rstr_ok s \<longleftrightarrow> 0 \<in> set (drop (rstr_src s) (rstr_mem s))"

lemma rstr_cases:
  assumes "rstr_ok s"
  obtains (End) "rstr_Peek s = 0" "rstr_left s = []"
    | (Char) "rstr_Peek s \<noteq> 0" "rstr_left s = rstr_Peek s # rstr_left (s \<lparr> rstr_src := rstr_src s + 1 \<rparr>)"
        "rstr_ok (s \<lparr> rstr_src := rstr_src s + 1 \<rparr>)"
proof -
  obtain c cs where d: "drop (rstr_src s) (rstr_mem s) = c # cs"
    using assms by (cases "drop (rstr_src s) (rstr_mem s)") (auto simp: rstr_ok_def)
  then have "rstr_src s < length (rstr_mem s)" by (metis drop_eq_Nil2 list.distinct(1) not_le_imp_less)
  then have c: "rstr_Peek s = c" "drop (rstr_src s + 1) (rstr_mem s) = cs"
    using d by (simp_all add: rstr_Peek_def Cons_nth_drop_Suc [symmetric])
  show thesis
    using assms d c by (cases "c = 0") (auto simp: rstr_left_def rstr_ok_def intro: that)
qed

interpretation rstr: input_stream rstr_Eof rstr_Peek rstr_Get rstr_left rstr_ok
proof unfold_locales
  fix s assume "rstr_ok s"
  then show "rstr_Eof s \<longleftrightarrow> rstr_left s = []"
    "rstr_Peek s = (case rstr_left s of [] \<Rightarrow> 0 | c # _ \<Rightarrow> c)"
    "fst (rstr_Get s) = (case rstr_left s of [] \<Rightarrow> 0 | c # _ \<Rightarrow> c)"
    "rstr_left (snd (rstr_Get s)) = tl (rstr_left s)" "rstr_ok (snd (rstr_Get s))"
    by (cases rule: rstr_cases; simp add: rstr_Eof_def rstr_Get_def)+
qed

lemma rstr_Read_left:
  "rstr_ok s \<Longrightarrow> rstr_Read s n = (cs, s') \<Longrightarrow>
   cs = take n (rstr_left s) \<and> rstr_left s' = drop n (rstr_left s) \<and> rstr_ok s'"
proof (induction n arbitrary: s cs)
  case (Suc n)
  from Suc.prems(1) show ?case
  proof (cases rule: rstr_cases)
    case End
    with Suc.prems show ?thesis by simp
  next
    case Char
    with Suc.prems(2) obtain cs1 where
      "rstr_Read (s \<lparr> rstr_src := rstr_src s + 1 \<rparr>) n = (cs1, s')" "cs = rstr_Peek s # cs1"
      by (auto split: prod.splits)
    with Suc.IH [OF Char(3)] Char(2) show ?thesis by auto
  qed
qed simp

lemma rstr_new_ok: "0 \<notin> set xs \<Longrightarrow> rstr_ok (rstr_new (xs @ [0])) \<and> rstr_left (rstr_new (xs @ [0])) = xs"
  by (simp add: rstr_new_def rstr_ok_def rstr_left_def) (subst takeWhile_append2; auto)

section \<open>InSituStringStream\<close>

text \<open>
  Pointers are offsets into the memory that starts at \<^verbatim>\<open>head_\<close>; \<open>iss_mem\<close> may reach beyond
  \<^verbatim>\<open>eof_\<close>. A null pointer is \<open>None\<close>. \<open>dst_\<close> may come to equal \<open>src_\<close>, and one byte is
  written there before the assertion of \<^verbatim>\<open>Put\<close> throws; outside the memory that is undefined.
\<close>

record iss =
  iss_mem :: bytes
  iss_src :: nat
  iss_dst :: "nat option"
  iss_begin :: "nat option"
  iss_eof :: nat
  iss_insitu :: bool
  iss_copy :: bool

definition iss_new :: "bytes \<Rightarrow> nat \<Rightarrow> bool \<Rightarrow> bool \<Rightarrow> iss" where
  "iss_new mem len insitu copy =
     \<lparr> iss_mem = mem, iss_src = 0, iss_dst = None, iss_begin = None, iss_eof = len,
       iss_insitu = insitu, iss_copy = (copy \<or> \<not> insitu) \<rparr>"

definition iss_InSitu :: "iss \<Rightarrow> bool" where "iss_InSitu s = iss_insitu s"
definition iss_UseStringCopy :: "iss \<Rightarrow> bool" where "iss_UseStringCopy s = iss_copy s"

definition iss_SetInSitu :: "bool \<Rightarrow> iss \<Rightarrow> iss" where
  "iss_SetInSitu insitu s =
     s \<lparr> iss_insitu := insitu, iss_copy := (if \<not> insitu then True else iss_copy s) \<rparr>"

definition iss_SetStringCopy :: "bool \<Rightarrow> iss \<Rightarrow> iss" where
  "iss_SetStringCopy copy s = s \<lparr> iss_copy := (if \<not> iss_insitu s then True else copy) \<rparr>"

definition iss_Eof :: "iss \<Rightarrow> bool" where
  "iss_Eof s \<longleftrightarrow> iss_src s \<ge> iss_eof s"

definition iss_Peek :: "iss \<Rightarrow> byte" where
  "iss_Peek s = (if iss_Eof s then 0 else iss_mem s ! iss_src s)"

definition iss_Get :: "iss \<Rightarrow> byte \<times> iss" where
  "iss_Get s = (if iss_Eof s then (0, s)
     else (iss_mem s ! iss_src s, s \<lparr> iss_src := iss_src s + 1 \<rparr>))"

definition iss_GetClear :: "iss \<Rightarrow> byte \<times> iss" where
  "iss_GetClear s = (if iss_Eof s then (0, s)
     else (iss_mem s ! iss_src s,
           s \<lparr> iss_mem := (iss_mem s)[iss_src s := 0], iss_src := iss_src s + 1 \<rparr>))"

definition iss_Read :: "iss \<Rightarrow> nat \<Rightarrow> bytes \<times> iss" where
  "iss_Read s len =
     (let n = min (iss_eof s - iss_src s) len
      in (take n (drop (iss_src s) (iss_mem s)), s \<lparr> iss_src := iss_src s + n \<rparr>))"

definition iss_Skip :: "iss \<Rightarrow> nat \<Rightarrow> (nat \<times> iss) result" where
  "iss_Skip s len =
     (case iss_dst s of
        None \<Rightarrow> Inl AnyRpcErrorIllegalCall
      | Some d \<Rightarrow>
          let n = min (iss_eof s - iss_src s) len
          in Inr (n, s \<lparr> iss_src := iss_src s + n, iss_dst := Some (d + n) \<rparr>))"

definition iss_PutBegin :: "iss \<Rightarrow> nat \<times> iss" where
  "iss_PutBegin s = (iss_src s, s \<lparr> iss_dst := Some (iss_src s), iss_begin := Some (iss_src s) \<rparr>)"

definition iss_put_char :: "iss \<Rightarrow> byte \<Rightarrow> iss result" where
  "iss_put_char s c =
     (case iss_dst s of
        None \<Rightarrow> Inl AnyRpcErrorIllegalCall
      | Some d \<Rightarrow>
          if d \<ge> length (iss_mem s) then Inl UndefinedBehaviour
          else if d < iss_src s
          then Inr (s \<lparr> iss_mem := (iss_mem s)[d := c], iss_dst := Some (d + 1) \<rparr>)
          else Inl AnyRpcErrorBufferOverrun)"

definition iss_put :: "iss \<Rightarrow> bytes \<Rightarrow> iss result" where
  "iss_put s str =
     (case iss_dst s of
        None \<Rightarrow> Inl AnyRpcErrorIllegalCall
      | Some d \<Rightarrow>
          if iss_src s \<ge> d + length str
          then (let n = min (iss_src s - d) (length str) in
            Inr (s \<lparr> iss_mem := take d (iss_mem s) @ take n str @ drop (d + n) (iss_mem s),
                     iss_dst := Some (d + n) \<rparr>))
          else Inl AnyRpcErrorBufferOverrun)"

text \<open>Both null: the difference of two null pointers is 0.\<close>

definition iss_PutEnd :: "iss \<Rightarrow> nat \<times> iss" where
  "iss_PutEnd s =
     (case (iss_dst s, iss_begin s) of (Some d, Some b) \<Rightarrow> d - b | _ \<Rightarrow> 0,
      s \<lparr> iss_dst := None, iss_begin := None \<rparr>)"

definition iss_Tell :: "iss \<Rightarrow> nat" where "iss_Tell s = iss_src s"

text \<open>
  What is left to read, what has been written since \<^verbatim>\<open>PutBegin\<close>, and the order the pointers keep.
\<close>

definition iss_left :: "iss \<Rightarrow> bytes" where
  "iss_left s = drop (iss_src s) (take (iss_eof s) (iss_mem s))"

definition iss_written :: "iss \<Rightarrow> bytes" where
  "iss_written s = (case (iss_begin s, iss_dst s) of
     (Some b, Some d) \<Rightarrow> take (d - b) (drop b (iss_mem s)) | _ \<Rightarrow> [])"

definition iss_ok :: "iss \<Rightarrow> bool" where
  "iss_ok s \<longleftrightarrow> iss_eof s \<le> length (iss_mem s) \<and> iss_src s \<le> iss_eof s"

definition iss_writing :: "iss \<Rightarrow> bool" where
  "iss_writing s \<longleftrightarrow> iss_ok s \<and>
     (\<exists>b d. iss_begin s = Some b \<and> iss_dst s = Some d \<and> b \<le> d \<and> d \<le> iss_src s)"

lemma iss_left_Cons:
  assumes "iss_ok s" "\<not> iss_Eof s"
  shows "iss_left s = iss_mem s ! iss_src s # drop (iss_src s + 1) (take (iss_eof s) (iss_mem s))"
  using assms by (simp add: iss_left_def iss_ok_def iss_Eof_def Cons_nth_drop_Suc [symmetric])

lemma iss_left_Nil: "iss_ok s \<Longrightarrow> iss_Eof s \<longleftrightarrow> iss_left s = []"
  by (auto simp: iss_left_def iss_ok_def iss_Eof_def)

interpretation iss: input_stream iss_Eof iss_Peek iss_Get iss_left iss_ok
proof unfold_locales
  fix s assume ok: "iss_ok s"
  show "iss_Eof s \<longleftrightarrow> iss_left s = []" by (rule iss_left_Nil [OF ok])
  show "iss_Peek s = (case iss_left s of [] \<Rightarrow> 0 | c # _ \<Rightarrow> c)"
    "fst (iss_Get s) = (case iss_left s of [] \<Rightarrow> 0 | c # _ \<Rightarrow> c)"
    "iss_left (snd (iss_Get s)) = tl (iss_left s)" "iss_ok (snd (iss_Get s))"
    using ok iss_left_Nil [OF ok] iss_left_Cons [OF ok]
    by (auto simp: iss_Peek_def iss_Get_def split: list.splits)
       (auto simp: iss_left_def iss_ok_def iss_Eof_def)
qed

text \<open>\<^verbatim>\<open>GetClear\<close> delivers the same bytes and clears them behind the read position.\<close>

interpretation iss_clear: input_stream iss_Eof iss_Peek iss_GetClear iss_left iss_ok
proof unfold_locales
  fix s assume ok: "iss_ok s"
  show "iss_Eof s \<longleftrightarrow> iss_left s = []" by (rule iss_left_Nil [OF ok])
  show "iss_Peek s = (case iss_left s of [] \<Rightarrow> 0 | c # _ \<Rightarrow> c)"
    "fst (iss_GetClear s) = (case iss_left s of [] \<Rightarrow> 0 | c # _ \<Rightarrow> c)"
    "iss_left (snd (iss_GetClear s)) = tl (iss_left s)" "iss_ok (snd (iss_GetClear s))"
    using ok iss_left_Nil [OF ok] iss_left_Cons [OF ok]
    by (auto simp: iss_Peek_def iss_GetClear_def split: list.splits)
       (auto simp: iss_left_def iss_ok_def iss_Eof_def drop_update_cancel take_update_swap)
qed

lemma iss_Read_left:
  assumes "iss_ok s"
  shows "fst (iss_Read s n) = take n (iss_left s)" "iss_left (snd (iss_Read s n)) = drop n (iss_left s)"
    "iss_ok (snd (iss_Read s n))"
proof -
  show "fst (iss_Read s n) = take n (iss_left s)"
    by (simp add: iss_Read_def iss_left_def Let_def drop_take min.commute)
  show "iss_left (snd (iss_Read s n)) = drop n (iss_left s)"
    using assms by (cases "n \<le> iss_eof s - iss_src s")
      (simp_all add: iss_Read_def iss_left_def iss_ok_def Let_def add.commute)
  show "iss_ok (snd (iss_Read s n))"
    using assms by (auto simp: iss_Read_def iss_ok_def Let_def)
qed

text \<open>
  Writing in place never touches what is still to be read, and the region from
  \<^verbatim>\<open>begin_\<close> to \<^verbatim>\<open>dst_\<close> is exactly what was put.
\<close>

lemma iss_PutBegin_writing:
  "iss_ok s \<Longrightarrow> iss_writing (snd (iss_PutBegin s)) \<and> iss_written (snd (iss_PutBegin s)) = []
     \<and> iss_left (snd (iss_PutBegin s)) = iss_left s"
  by (simp add: iss_PutBegin_def iss_writing_def iss_written_def iss_left_def iss_ok_def)

lemma iss_put_char_safe:
  assumes "iss_writing s"
  shows "(\<exists>s'. iss_put_char s c = Inr s' \<and> iss_writing s' \<and> iss_left s' = iss_left s
      \<and> iss_written s' = iss_written s @ [c] \<and> iss_src s' = iss_src s)
    \<or> iss_dst s = Some (iss_src s)"
proof -
  from assms obtain b d where bd: "iss_begin s = Some b" "iss_dst s = Some d" "b \<le> d" "d \<le> iss_src s"
    "iss_ok s" by (auto simp: iss_writing_def)
  show ?thesis
  proof (cases "d = iss_src s")
    case False
    then have d: "d < iss_src s" "d < length (iss_mem s)" using bd by (auto simp: iss_ok_def)
    then have "take (Suc d - b) (drop b ((iss_mem s)[d := c])) = take (d - b) (drop b (iss_mem s)) @ [c]"
      using bd(3) by (simp add: Suc_diff_le take_Suc_conv_app_nth drop_update_swap)
    with d bd show ?thesis
      by (auto simp: iss_put_char_def iss_writing_def iss_written_def iss_left_def iss_ok_def
          take_update_swap drop_update_cancel)
  qed (simp add: bd)
qed

lemma iss_put_safe:
  assumes "iss_writing s" "iss_put s str = Inr s'"
  shows "iss_writing s'" "iss_left s' = iss_left s" "iss_written s' = iss_written s @ str"
proof -
  from assms(1) obtain b d where bd: "iss_begin s = Some b" "iss_dst s = Some d" "b \<le> d" "d \<le> iss_src s"
    "iss_ok s" by (auto simp: iss_writing_def)
  with assms(2) have n: "d + length str \<le> iss_src s"
    by (auto simp: iss_put_def split: if_splits)
  with assms(2) bd have s': "s' = s \<lparr> iss_mem := take d (iss_mem s) @ str @ drop (d + length str) (iss_mem s),
      iss_dst := Some (d + length str) \<rparr>"
    by (auto simp: iss_put_def Let_def)
  have len: "d + length str \<le> length (iss_mem s)" using n bd by (simp add: iss_ok_def)
  show "iss_writing s'" using bd n len by (auto simp: s' iss_writing_def iss_ok_def)
  show "iss_left s' = iss_left s"
    using drop_splice [OF n len] by (simp add: s' iss_left_def drop_take del: drop_append take_append)
  show "iss_written s' = iss_written s @ str"
    using bd(1-3) n len by (simp add: s' iss_written_def drop_take)
qed

text \<open>A \<^verbatim>\<open>Get\<close> makes room for one \<^verbatim>\<open>Put\<close>: after it, \<^verbatim>\<open>dst_\<close> is strictly behind \<^verbatim>\<open>src_\<close>.\<close>

lemma iss_Get_writing:
  assumes "iss_writing s" "\<not> iss_Eof s"
  shows "iss_writing (snd (iss_Get s))" "iss_written (snd (iss_Get s)) = iss_written s"
    "iss_dst (snd (iss_Get s)) \<noteq> Some (iss_src (snd (iss_Get s)))"
  using assms by (auto simp: iss_writing_def iss_Get_def iss_Eof_def iss_ok_def iss_written_def)

section \<open>ReadFileStream\<close>

text \<open>
  \<open>rfs_fp\<close>: the unread part of the file, or \<open>None\<close> for the null pointer; \<open>rfs_buffer\<close> the bytes
  from \<^verbatim>\<open>current_\<close> to \<^verbatim>\<open>bufferLast_\<close>. \<^verbatim>\<open>fread\<close> returns as many bytes as there are, up to the
  number asked for. \<^verbatim>\<open>*current_\<close> on an empty buffer is the terminator written with \<^verbatim>\<open>eof_\<close>
  (and indeterminate before any read, a state \<open>rfs_ok\<close> excludes).
\<close>

record rfs =
  rfs_fp :: "bytes option"
  rfs_buffer :: bytes
  rfs_bufferSize :: nat
  rfs_eof :: bool
  rfs_count :: nat

definition rfs_refill :: "rfs \<Rightarrow> rfs" where
  "rfs_refill s =
     (if \<not> rfs_eof s \<and> rfs_buffer s = [] then
        (case rfs_fp s of
           None \<Rightarrow> s
         | Some f \<Rightarrow>
             let s1 = s \<lparr> rfs_buffer := take (rfs_bufferSize s) f, rfs_fp := Some (drop (rfs_bufferSize s) f) \<rparr>
             in if length (rfs_buffer s1) < rfs_bufferSize s then s1 \<lparr> rfs_eof := True \<rparr> else s1)
      else s)"

definition rfs_new :: "bytes option \<Rightarrow> nat \<Rightarrow> rfs" where
  "rfs_new fp bufferSize =
     (let s = \<lparr> rfs_fp = fp, rfs_buffer = [], rfs_bufferSize = bufferSize, rfs_eof = False, rfs_count = 0 \<rparr>
      in case fp of None \<Rightarrow> s | Some _ \<Rightarrow> rfs_refill s)"

definition rfs_SetFilePointer :: "bytes option \<Rightarrow> rfs \<Rightarrow> rfs" where
  "rfs_SetFilePointer fp s = rfs_refill (s \<lparr> rfs_fp := fp \<rparr>)"

definition rfs_Eof :: "rfs \<Rightarrow> bool" where
  "rfs_Eof s \<longleftrightarrow> rfs_eof s \<and> rfs_buffer s = []"

definition rfs_Peek :: "rfs \<Rightarrow> byte" where
  "rfs_Peek s = (case rfs_buffer s of [] \<Rightarrow> 0 | c # _ \<Rightarrow> c)"

definition rfs_Get :: "rfs \<Rightarrow> byte \<times> rfs" where
  "rfs_Get s =
     (rfs_Peek s,
      if \<not> rfs_Eof s
      then rfs_refill (s \<lparr> rfs_buffer := tl (rfs_buffer s), rfs_count := rfs_count s + 1 \<rparr>) else s)"

text \<open>Without a file, and with nothing buffered, this loop would not end.\<close>

partial_function (option) rfs_Read_loop :: "rfs \<Rightarrow> nat \<Rightarrow> (bytes \<times> rfs) option" where
  "rfs_Read_loop s len =
     (if len > 0 \<and> \<not> rfs_Eof s then
        (let availBytes = min (length (rfs_buffer s)) len;
             s1 = rfs_refill (s \<lparr> rfs_buffer := drop availBytes (rfs_buffer s) \<rparr>)
         in Option.bind (rfs_Read_loop s1 (len - availBytes))
              (\<lambda>r. case r of (cs, s2) \<Rightarrow> Some (take availBytes (rfs_buffer s) @ cs, s2)))
      else Some ([], s))"

declare rfs_Read_loop.simps [code]

definition rfs_Read :: "rfs \<Rightarrow> nat \<Rightarrow> (bytes \<times> rfs) option" where
  "rfs_Read s len = map_option (\<lambda>r. (fst r, snd r \<lparr> rfs_count := rfs_count (snd r) + length (fst r) \<rparr>))
     (rfs_Read_loop s len)"

definition rfs_Tell :: "rfs \<Rightarrow> nat" where "rfs_Tell s = rfs_count s"

definition rfs_left :: "rfs \<Rightarrow> bytes" where
  "rfs_left s = rfs_buffer s @ (if rfs_eof s then [] else case rfs_fp s of None \<Rightarrow> [] | Some f \<Rightarrow> f)"

text \<open>After every public operation the buffer holds the next byte unless the file is at its end.\<close>

definition rfs_ok :: "rfs \<Rightarrow> bool" where
  "rfs_ok s \<longleftrightarrow> rfs_bufferSize s > 0 \<and> (rfs_eof s \<or> rfs_buffer s \<noteq> [] \<and> rfs_fp s \<noteq> None)"

lemma rfs_refill_ok:
  assumes "rfs_bufferSize s > 0" "rfs_eof s \<or> rfs_fp s \<noteq> None"
  shows "rfs_ok (rfs_refill s) \<and> rfs_left (rfs_refill s) = rfs_left s"
proof (cases "\<not> rfs_eof s \<and> rfs_buffer s = []")
  case True
  with assms obtain f where f: "rfs_fp s = Some f" by auto
  show ?thesis
  proof (cases "length f < rfs_bufferSize s")
    case True
    with \<open>\<not> rfs_eof s \<and> rfs_buffer s = []\<close> f assms(1) show ?thesis
      by (simp add: rfs_refill_def rfs_ok_def rfs_left_def Let_def)
  next
    case False
    with \<open>\<not> rfs_eof s \<and> rfs_buffer s = []\<close> f assms(1) show ?thesis
      by (auto simp: rfs_refill_def rfs_ok_def rfs_left_def Let_def min_def)
  qed
next
  case False
  then have "rfs_refill s = s" by (auto simp: rfs_refill_def)
  with False assms show ?thesis by (auto simp: rfs_ok_def)
qed

lemma rfs_new_ok: "0 < n \<Longrightarrow> rfs_ok (rfs_new (Some f) n) \<and> rfs_left (rfs_new (Some f) n) = f"
  using rfs_refill_ok [of "\<lparr> rfs_fp = Some f, rfs_buffer = [], rfs_bufferSize = n, rfs_eof = False, rfs_count = 0 \<rparr>"]
  by (simp add: rfs_new_def Let_def rfs_left_def)

lemma rfs_Eof_left: "rfs_ok s \<Longrightarrow> rfs_Eof s \<longleftrightarrow> rfs_left s = []"
  by (auto simp: rfs_ok_def rfs_Eof_def rfs_left_def)

text \<open>Taking bytes out of the buffer and refilling it.\<close>

lemma rfs_take_ok:
  assumes "rfs_ok s" "n \<le> length (rfs_buffer s)"
    and "s1 = rfs_refill (s \<lparr> rfs_buffer := drop n (rfs_buffer s), rfs_count := k \<rparr>)"
  shows "rfs_ok s1" "rfs_left s1 = drop n (rfs_left s)"
proof -
  let ?s = "s \<lparr> rfs_buffer := drop n (rfs_buffer s), rfs_count := k \<rparr>"
  have "rfs_bufferSize ?s > 0" "rfs_eof ?s \<or> rfs_fp ?s \<noteq> None"
    using assms(1) by (auto simp: rfs_ok_def)
  from rfs_refill_ok [OF this] assms(2,3) show "rfs_ok s1" "rfs_left s1 = drop n (rfs_left s)"
    by (auto simp: rfs_left_def)
qed

lemma rfs_buffer_nonempty: "rfs_ok s \<Longrightarrow> rfs_left s \<noteq> [] \<Longrightarrow> rfs_buffer s \<noteq> []"
  by (auto simp: rfs_ok_def rfs_left_def)

interpretation rfs: input_stream rfs_Eof rfs_Peek rfs_Get rfs_left rfs_ok
proof unfold_locales
  fix s assume ok: "rfs_ok s"
  show "rfs_Eof s \<longleftrightarrow> rfs_left s = []" by (rule rfs_Eof_left [OF ok])
  have peek: "rfs_Peek s = (case rfs_left s of [] \<Rightarrow> 0 | c # _ \<Rightarrow> c)"
  proof (cases "rfs_buffer s")
    case Nil
    then have "rfs_left s = []" using rfs_buffer_nonempty [OF ok] by blast
    with Nil show ?thesis by (simp add: rfs_Peek_def)
  qed (simp add: rfs_Peek_def rfs_left_def)
  then show "rfs_Peek s = (case rfs_left s of [] \<Rightarrow> 0 | c # _ \<Rightarrow> c)"
    "fst (rfs_Get s) = (case rfs_left s of [] \<Rightarrow> 0 | c # _ \<Rightarrow> c)"
    by (simp_all add: rfs_Get_def)
  show "rfs_left (snd (rfs_Get s)) = tl (rfs_left s)" "rfs_ok (snd (rfs_Get s))"
  proof -
    have "Suc 0 \<le> length (rfs_buffer s)" if "rfs_left s \<noteq> []"
      using rfs_buffer_nonempty [OF ok that] by (cases "rfs_buffer s") auto
    then show "rfs_left (snd (rfs_Get s)) = tl (rfs_left s)" "rfs_ok (snd (rfs_Get s))"
      using rfs_take_ok [OF ok _ refl, of "Suc 0" "rfs_count s + 1"] rfs_Eof_left [OF ok] ok
      by (auto simp: rfs_Get_def drop_Suc)
  qed
qed

lemma rfs_Read_loop_left:
  "rfs_ok s \<Longrightarrow> \<exists>s'. rfs_Read_loop s n = Some (take n (rfs_left s), s') \<and> rfs_ok s'
     \<and> rfs_left s' = drop n (rfs_left s)"
proof (induction n arbitrary: s rule: less_induct)
  case (less n)
  show ?case
  proof (cases "n > 0 \<and> \<not> rfs_Eof s")
    case True
    let ?a = "min (length (rfs_buffer s)) n"
    define s1 where "s1 = rfs_refill (s \<lparr> rfs_buffer := drop ?a (rfs_buffer s) \<rparr>)"
    have b: "rfs_buffer s \<noteq> []"
      using rfs_buffer_nonempty [OF less.prems] True rfs_Eof_left [OF less.prems] by simp
    have s1: "rfs_ok s1" "rfs_left s1 = drop ?a (rfs_left s)"
      using rfs_take_ok [OF less.prems, of ?a s1 "rfs_count s"] by (simp_all add: s1_def)
    have "n - ?a < n" using True b by (simp add: min_def)
    from less.IH [OF this s1(1)] obtain s2 where s2:
      "rfs_Read_loop s1 (n - ?a) = Some (take (n - ?a) (rfs_left s1), s2)" "rfs_ok s2"
      "rfs_left s2 = drop (n - ?a) (rfs_left s1)" by blast
    have "take ?a (rfs_buffer s) = take ?a (rfs_left s)" by (simp add: rfs_left_def)
    moreover have "take ?a (rfs_left s) @ take (n - ?a) (drop ?a (rfs_left s)) = take n (rfs_left s)"
      using take_add [of ?a "n - ?a" "rfs_left s"] by simp
    ultimately show ?thesis using True s1(2) s2
      by (subst rfs_Read_loop.simps) (simp add: Let_def flip: s1_def)
  next
    case False
    then show ?thesis using less.prems rfs_Eof_left [OF less.prems]
      by (subst rfs_Read_loop.simps) auto
  qed
qed

lemma rfs_Read_left:
  assumes "rfs_ok s"
  shows "\<exists>s'. rfs_Read s n = Some (take n (rfs_left s), s') \<and> rfs_ok s' \<and> rfs_left s' = drop n (rfs_left s)"
  using rfs_Read_loop_left [OF assms, of n] by (auto simp: rfs_Read_def rfs_ok_def rfs_left_def)

end
