(* ===== verification/AnyRpc_Base64.thy ===== *)
theory AnyRpc_Base64
  imports AnyRpc_Prelude AnyRpc_Stream
begin

text \<open>
  src/internal/base64.cpp: the encoder, the decoder that reads a stream up to a
  terminating character, and the decoder from one memory buffer to another. Bytes written
  to the output stream are returned as a list; the input stream of the second decoder is
  the list of the bytes it has left, on which \<^verbatim>\<open>Peek\<close> and \<^verbatim>\<open>Get\<close> give 0 at the end.
  Main results: both decoders invert the encoder.
\<close>

section \<open>Tables\<close>

definition base64Chars :: bytes where
  "base64Chars = lit ''ABCDEFGHIJKLMNOPQRSTUVWXYZabcdefghijklmnopqrstuvwxyz0123456789+/''"

definition base64Pad :: byte where "base64Pad = 64"
definition base64Ignore :: byte where "base64Ignore = 65"

definition base64Decode :: bytes where
  "base64Decode =
    [65,65,65,65, 65,65,65,65, 65,65,65,65, 65,65,65,65,
     65,65,65,65, 65,65,65,65, 65,65,65,65, 65,65,65,65,
     65,65,65,65, 65,65,65,65, 65,65,65,62, 65,65,65,63,
     52,53,54,55, 56,57,58,59, 60,61,65,65, 65,64,65,65,
     65, 0, 1, 2,  3, 4, 5, 6,  7, 8, 9,10, 11,12,13,14,
     15,16,17,18, 19,20,21,22, 23,24,25,65, 65,65,65,65,
     65,26,27,28, 29,30,31,32, 33,34,35,36, 37,38,39,40,
     41,42,43,44, 45,46,47,48, 49,50,51,65, 65,65,65,65,
     65,65,65,65, 65,65,65,65, 65,65,65,65, 65,65,65,65,
     65,65,65,65, 65,65,65,65, 65,65,65,65, 65,65,65,65,
     65,65,65,65, 65,65,65,65, 65,65,65,65, 65,65,65,65,
     65,65,65,65, 65,65,65,65, 65,65,65,65, 65,65,65,65,
     65,65,65,65, 65,65,65,65, 65,65,65,65, 65,65,65,65,
     65,65,65,65, 65,65,65,65, 65,65,65,65, 65,65,65,65,
     65,65,65,65, 65,65,65,65, 65,65,65,65, 65,65,65,65,
     65,65,65,65, 65,65,65,65, 65,65,65,65, 65,65,65,65]"

definition b64_char :: "byte \<Rightarrow> byte" where
  "b64_char i = base64Chars ! unat i"

definition b64_val :: "byte \<Rightarrow> byte" where
  "b64_val c = base64Decode ! unat c"

section \<open>Encoder\<close>

definition maxQuadLength :: nat where "maxQuadLength = 16"

text \<open>The indices into the table, and one quad from three bytes.\<close>

definition b64_i0 :: "byte \<Rightarrow> byte" where
  "b64_i0 data0 = drop_bit 2 data0"
definition b64_i1 :: "byte \<Rightarrow> byte \<Rightarrow> byte" where
  "b64_i1 data0 data1 = push_bit 4 (data0 AND 0x03) + drop_bit 4 data1"
definition b64_i2 :: "byte \<Rightarrow> byte \<Rightarrow> byte" where
  "b64_i2 data1 data2 = push_bit 2 (data1 AND 0x0f) + drop_bit 6 data2"
definition b64_i3 :: "byte \<Rightarrow> byte" where
  "b64_i3 data2 = data2 AND 0x3f"

definition b64_quad :: "byte \<Rightarrow> byte \<Rightarrow> byte \<Rightarrow> bytes" where
  "b64_quad data0 data1 data2 =
     [b64_char (b64_i0 data0), b64_char (b64_i1 data0 data1),
      b64_char (b64_i2 data1 data2), b64_char (b64_i3 data2)]"

text \<open>The inner \<^verbatim>\<open>for\<close> loop: output, final value of \<^verbatim>\<open>quad\<close>, bytes left.\<close>

fun b64_line :: "nat \<Rightarrow> bytes \<Rightarrow> bytes \<times> nat \<times> bytes" where
  "b64_line quad (a # b # c # xs) =
     (if quad < maxQuadLength
      then (case b64_line (Suc quad) xs of (out, q, rest) \<Rightarrow> (b64_quad a b c @ out, q, rest))
      else ([], quad, a # b # c # xs))"
| "b64_line quad xs = ([], quad, xs)"

lemma b64_line_length: "b64_line q xs = (out, q', rest) \<Longrightarrow> length rest \<le> length xs"
  by (induction q xs arbitrary: out q' rest rule: b64_line.induct)
     (fastforce split: prod.splits if_splits)+

lemma b64_line_less:
  assumes "b64_line 0 xs = (out, q', rest)" "length xs > 2"
  shows "length rest < length xs"
proof -
  obtain a b c ys where xs: "xs = a # b # c # ys"
    using assms(2) by (metis Suc_le_length_iff Suc_leI numeral_2_eq_2)
  then obtain o' q'' where "b64_line (Suc 0) ys = (o', q'', rest)"
    using assms(1) by (auto simp: maxQuadLength_def split: prod.splits)
  from b64_line_length [OF this] xs show ?thesis by simp
qed

text \<open>The tail: two bytes left, one byte left, or none.\<close>

fun b64_tail :: "bytes \<Rightarrow> bytes" where
  "b64_tail [a, b] =
     (let data2 = 9 :: byte in
      [b64_char (b64_i0 a), b64_char (b64_i1 a b), b64_char (b64_i2 b data2), 0x3D])"
| "b64_tail [a] =
     (let data1 = 0 :: byte in
      [b64_char (b64_i0 a), b64_char (b64_i1 a data1), 0x3D, 0x3D])"
| "b64_tail _ = []"

function Base64Encode :: "bytes \<Rightarrow> bytes" where
  "Base64Encode xs =
     (if length xs > 2 then
        (case b64_line 0 xs of (out, quad, rest) \<Rightarrow>
           out @ (if quad = maxQuadLength \<and> length rest > 0 then [0x0A] else [])
               @ Base64Encode rest)
      else b64_tail xs)"
  by pat_completeness auto
termination
  by (relation "measure length") (auto dest: b64_line_less [OF sym])

declare Base64Encode.simps [simp del]

section \<open>Decoder from a stream\<close>

definition b64_peek :: "bytes \<Rightarrow> byte" where
  "b64_peek is = (case is of [] \<Rightarrow> 0 | c # _ \<Rightarrow> c)"

definition b64_get :: "bytes \<Rightarrow> byte \<times> bytes" where
  "b64_get is = (case is of [] \<Rightarrow> (0, []) | c # cs \<Rightarrow> (c, cs))"

text \<open>The bytes made of two, three and four decoded sextets.\<close>

definition b64_out1 :: "byte \<Rightarrow> byte \<Rightarrow> byte" where
  "b64_out1 d0 d1 = push_bit 2 d0 + drop_bit 4 d1"
definition b64_out2 :: "byte \<Rightarrow> byte \<Rightarrow> byte" where
  "b64_out2 d1 d2 = push_bit 4 (d1 AND 0x0f) + drop_bit 2 d2"
definition b64_out3 :: "byte \<Rightarrow> byte \<Rightarrow> byte" where
  "b64_out3 d2 d3 = push_bit 6 (d2 AND 0x03) + d3"

text \<open>
  \<open>data\<close> holds \<^verbatim>\<open>data[0..avail)\<close>. The result is the return value, the bytes put to the
  output stream and what is left of the input stream.
\<close>

fun Base64DecodeStream :: "byte \<Rightarrow> bytes \<Rightarrow> bytes \<Rightarrow> bool \<times> bytes \<times> bytes" where
  "Base64DecodeStream termChar data [] = (False, [], [])"
| "Base64DecodeStream termChar data (c # is) =
     (if c = termChar then (data = [], [], c # is)
      else let d = b64_val c in
        if d = base64Ignore then Base64DecodeStream termChar data is
        else if d = base64Pad then
          (if length data < 2 then (False, [], is)
           else if length data = 2 then
             (case b64_get is of (c', is') \<Rightarrow>
                if b64_val c' \<noteq> base64Pad then (False, [], is')
                else (b64_peek is' = termChar, [b64_out1 (data ! 0) (data ! 1)], is'))
           else (b64_peek is = termChar,
                 [b64_out1 (data ! 0) (data ! 1), b64_out2 (data ! 1) (data ! 2)], is))
        else if length data = 3 then
          (case Base64DecodeStream termChar [] is of (ok, out, rest) \<Rightarrow>
             (ok, [b64_out1 (data ! 0) (data ! 1), b64_out2 (data ! 1) (data ! 2),
                   b64_out3 (data ! 2) d] @ out, rest))
        else Base64DecodeStream termChar (data @ [d]) is)"

section \<open>Decoder from a buffer\<close>

text \<open>
  \<open>None\<close> is the return value 0 of the error exits; \<open>Some out\<close> the bytes written to
  \<^verbatim>\<open>dest\<close>, whose number is returned.
\<close>

fun Base64DecodeBuffer :: "bytes \<Rightarrow> bytes \<Rightarrow> bytes option" where
  "Base64DecodeBuffer data [] = Some []"
| "Base64DecodeBuffer data (c # src) =
     (let d = b64_val c in
      if d = base64Ignore then Base64DecodeBuffer data src
      else if d = base64Pad then
        (if length data < 2 then None
         else if length data = 2 then
           (case src of
              [] \<Rightarrow> Some [b64_out1 (data ! 0) (data ! 1)]
            | c' # src' \<Rightarrow>
                if b64_val c' \<noteq> base64Pad then None
                else if src' \<noteq> [] then None
                else Some [b64_out1 (data ! 0) (data ! 1)])
         else if src \<noteq> [] then None
         else Some [b64_out1 (data ! 0) (data ! 1), b64_out2 (data ! 1) (data ! 2)])
      else if length data = 3 then
        map_option (\<lambda>out. [b64_out1 (data ! 0) (data ! 1), b64_out2 (data ! 1) (data ! 2),
                            b64_out3 (data ! 2) d] @ out)
          (Base64DecodeBuffer [] src)
      else Base64DecodeBuffer (data @ [d]) src)"

text \<open>The \<^verbatim>\<open>size_t\<close> the buffer decoder returns.\<close>

definition Base64DecodeLength :: "bytes \<Rightarrow> nat" where
  "Base64DecodeLength src = (case Base64DecodeBuffer [] src of None \<Rightarrow> 0 | Some out \<Rightarrow> length out)"

section \<open>The tables are inverse to each other\<close>

lemma b64_val_char_all: "\<forall>i \<in> set [0..<64]. base64Decode ! unat (base64Chars ! i) = word_of_nat i"
  by code_simp

lemma b64_val_char:
  assumes "unat i < 64"
  shows "b64_val (b64_char i) = i"
  using b64_val_char_all assms unfolding b64_val_def b64_char_def by force

lemma b64_char_sextet:
  assumes "unat i < 64"
  shows "b64_val (b64_char i) \<noteq> base64Ignore" "b64_val (b64_char i) \<noteq> base64Pad"
  using assms by (auto simp: b64_val_char base64Ignore_def base64Pad_def)


section \<open>Sextets\<close>

text \<open>The sextets the encoder indexes with and the bytes the decoders put together, on naturals.\<close>

lemma sextet1_lt: "x mod 4 * 16 + y div 16 < 64" if "y < 256" for x y :: nat
proof -
  have "y div 16 < 16" "x mod 4 < 4" using that by (simp_all add: less_mult_imp_div_less)
  then show ?thesis by linarith
qed

lemma sextet2_lt: "x mod 16 * 4 + y div 64 < 64" if "y < 256" for x y :: nat
proof -
  have "y div 64 < 4" "x mod 16 < 16" using that by (simp_all add: less_mult_imp_div_less)
  then show ?thesis by linarith
qed

lemma join_out1:
  "(x div 4 * 4 mod 256 + (x mod 4 * 16 + y div 16) div 16) mod 256 = x"
  if "x < 256" "y < 256" for x y :: nat
proof -
  have "y div 16 < 16" using that by (simp add: less_mult_imp_div_less)
  then have "(x mod 4 * 16 + y div 16) div 16 = x mod 4" by simp
  moreover have "x div 4 * 4 < 256" using that by (meson div_times_less_eq_dividend le_less_trans)
  ultimately show ?thesis using that by simp
qed

lemma join_out2:
  "((x mod 4 * 16 + y div 16) mod 16 * 16 + (y mod 16 * 4 + z div 64) div 4) mod 256 = y"
  if "y < 256" "z < 256" for x y z :: nat
proof -
  have "y div 16 < 16" "z div 64 < 4" using that by (simp_all add: less_mult_imp_div_less)
  then have "(x mod 4 * 16 + y div 16) mod 16 = y div 16" "(y mod 16 * 4 + z div 64) div 4 = y mod 16"
    by simp_all
  then show ?thesis using that by simp
qed

lemma join_out3: "((y mod 16 * 4 + z div 64) mod 4 * 64 + z mod 64) mod 256 = z"
  if "z < 256" for y z :: nat
proof -
  have "z div 64 < 4" using that by (simp add: less_mult_imp_div_less)
  then have "(y mod 16 * 4 + z div 64) mod 4 = z div 64" by simp
  then show ?thesis using that by simp
qed

lemma unat_and_3: "unat (a AND 3) = unat a mod 4" for a :: byte
  using unat_and_mask [of a 2] by (simp add: mask_eq_exp_minus_1)

lemma unat_and_15: "unat (a AND 15) = unat a mod 16" for a :: byte
  using unat_and_mask [of a 4] by (simp add: mask_eq_exp_minus_1)

lemma unat_and_63: "unat (a AND 63) = unat a mod 64" for a :: byte
  using unat_and_mask [of a 6] by (simp add: mask_eq_exp_minus_1)

lemma unat_byte_plus: "unat (a + b) = (unat a + unat b) mod 256" for a b :: byte
  by (simp add: unat_word_ariths)

lemmas unat_b64 = unat_and_3 unat_and_15 unat_and_63 unat_byte_plus
  unat_shift_right unat_shift_left

lemma sextet0: "unat (b64_i0 a) = unat a div 4"
  by (simp add: b64_i0_def unat_shift_right)

lemma sextet1: "unat (b64_i1 a b) = unat a mod 4 * 16 + unat b div 16"
proof -
  have "unat a mod 4 * 16 + unat b div 16 < 64"
    by (rule sextet1_lt) simp
  then show ?thesis unfolding b64_i1_def by (simp only: unat_b64) simp
qed

lemma sextet2: "unat (b64_i2 b c) = unat b mod 16 * 4 + unat c div 64"
proof -
  have "unat b mod 16 * 4 + unat c div 64 < 64"
    by (rule sextet2_lt) simp
  then show ?thesis unfolding b64_i2_def by (simp only: unat_b64) simp
qed

lemma sextet3: "unat (b64_i3 c) = unat c mod 64"
  by (simp only: b64_i3_def unat_and_63)

lemmas sextets = sextet0 sextet1 sextet2 sextet3

lemma sextet_bounds [simp]:
  "unat (b64_i0 a) < 64" "unat (b64_i1 a b) < 64" "unat (b64_i2 b c) < 64" "unat (b64_i3 c) < 64"
  unfolding sextets
  by (simp_all add: sextet1_lt sextet2_lt less_mult_imp_div_less)

lemma b64_out1_eq: "unat (b64_out1 d0 d1) = (unat d0 * 4 mod 256 + unat d1 div 16) mod 256"
  unfolding b64_out1_def by (simp only: unat_b64) simp

lemma b64_out2_eq: "unat (b64_out2 d1 d2) = (unat d1 mod 16 * 16 + unat d2 div 4) mod 256"
proof -
  have "unat d1 mod 16 < 16" by simp
  then have "unat d1 mod 16 * 16 < 256" by linarith
  then show ?thesis unfolding b64_out2_def by (simp only: unat_b64) simp
qed

lemma b64_out3_eq: "unat (b64_out3 d2 d3) = (unat d2 mod 4 * 64 + unat d3) mod 256"
proof -
  have "unat d2 mod 4 < 4" by simp
  then have "unat d2 mod 4 * 64 < 256" by linarith
  then show ?thesis unfolding b64_out3_def by (simp only: unat_b64) simp
qed

lemma b64_out_sextets [simp]:
  "b64_out1 (b64_i0 a) (b64_i1 a b) = a"
  "b64_out2 (b64_i1 a b) (b64_i2 b c) = b"
  "b64_out3 (b64_i2 b c) (b64_i3 c) = c"
  unfolding word_unat_eq_iff b64_out1_eq b64_out2_eq b64_out3_eq sextets
  by (rule join_out1 join_out2 join_out3; simp)+

section \<open>Round trips\<close>

text \<open>
  A terminating character must not be one the decoder would take as data: the callers use
  \<^verbatim>\<open>'"'\<close> and \<^verbatim>\<open>'<'\<close>.
\<close>

definition b64_terminator :: "byte \<Rightarrow> bool" where
  "b64_terminator t \<longleftrightarrow> b64_val t = base64Ignore \<and> t \<noteq> 0x0A"

definition b64_prepend :: "bytes \<Rightarrow> bool \<times> bytes \<times> bytes \<Rightarrow> bool \<times> bytes \<times> bytes" where
  "b64_prepend xs r = (case r of (ok, out, rest) \<Rightarrow> (ok, xs @ out, rest))"

lemma b64_prepend_simps [simp]:
  "b64_prepend xs (ok, out, rest) = (ok, xs @ out, rest)"
  "b64_prepend xs (b64_prepend ys r) = b64_prepend (xs @ ys) r"
  "b64_prepend [] r = r"
  by (simp_all add: b64_prepend_def split: prod.splits)

lemma b64_char_neq_terminator:
  assumes "b64_terminator t" "unat i < 64"
  shows "b64_char i \<noteq> t"
  using assms b64_char_sextet by (auto simp: b64_terminator_def)

lemma b64_val_specials [simp]:
  "b64_val 0x0A = base64Ignore" "b64_val 0x3D = base64Pad" "base64Pad \<noteq> base64Ignore"
  by code_simp+

lemma b64_terminator_neq: "b64_terminator t \<Longrightarrow> t \<noteq> 0x0A \<and> t \<noteq> 0x3D"
  by (auto simp: b64_terminator_def)

text \<open>A data character is stored, and with the fourth the three bytes come out.\<close>

lemma decode_stream_char:
  assumes "b64_terminator t" "unat i < 64" "length data < 3"
  shows "Base64DecodeStream t data (b64_char i # is) = Base64DecodeStream t (data @ [i]) is"
  using assms b64_char_neq_terminator [OF assms(1,2)] b64_char_sextet [OF assms(2)]
  by (auto simp: b64_val_char Let_def)

lemma decode_stream_char3:
  assumes "b64_terminator t" "unat i < 64"
  shows "Base64DecodeStream t [d0, d1, d2] (b64_char i # is)
    = b64_prepend [b64_out1 d0 d1, b64_out2 d1 d2, b64_out3 d2 i] (Base64DecodeStream t [] is)"
  using assms b64_char_neq_terminator [OF assms] b64_char_sextet [OF assms(2)]
  by (auto simp: b64_val_char Let_def b64_prepend_def)

lemma decode_stream_newline:
  "b64_terminator t \<Longrightarrow> Base64DecodeStream t data (0x0A # is) = Base64DecodeStream t data is"
  using b64_terminator_neq by fastforce

lemma decode_stream_term:
  "Base64DecodeStream t data (t # is) = (data = [], [], t # is)"
  by simp

lemma decode_stream_quad:
  assumes "b64_terminator t"
  shows "Base64DecodeStream t [] (b64_quad a b c @ is)
    = b64_prepend [a, b, c] (Base64DecodeStream t [] is)"
  unfolding b64_quad_def
  by (simp add: decode_stream_char decode_stream_char3 assms del: Base64DecodeStream.simps)

lemma decode_stream_line:
  assumes "b64_terminator t" "b64_line q xs = (out, q', rest)"
  shows "\<exists>pre. xs = pre @ rest \<and>
    (\<forall>is. Base64DecodeStream t [] (out @ is) = b64_prepend pre (Base64DecodeStream t [] is))"
  using assms(2)
proof (induction q xs arbitrary: out rest rule: b64_line.induct)
  case (1 q a b c xs)
  show ?case
  proof (cases "q < maxQuadLength")
    case True
    with "1.prems" obtain out' where l: "b64_line (Suc q) xs = (out', q', rest)"
      and out: "out = b64_quad a b c @ out'" by (auto split: prod.splits)
    from "1.IH" [OF True l] obtain pre where "xs = pre @ rest"
      "\<forall>is. Base64DecodeStream t [] (out' @ is) = b64_prepend pre (Base64DecodeStream t [] is)"
      by blast
    then show ?thesis
      by (intro exI [of _ "a # b # c # pre"]) (simp add: out decode_stream_quad [OF assms(1)])
  next
    case False
    with "1.prems" show ?thesis by auto
  qed
qed auto

lemma decode_stream_tail:
  assumes "b64_terminator t" "length xs \<le> 2"
  shows "Base64DecodeStream t [] (b64_tail xs @ t # rest) = (True, xs, t # rest)"
proof -
  have neq: "0x3D \<noteq> t" using b64_terminator_neq [OF assms(1)] by auto
  have pad: "Base64DecodeStream t [d0, d1] (0x3D # 0x3D # t # rest)
      = (True, [b64_out1 d0 d1], t # rest)" for d0 d1
    using neq by (simp add: b64_get_def b64_peek_def)
  have pad2: "Base64DecodeStream t [d0, d1, d2] (0x3D # t # rest)
      = (True, [b64_out1 d0 d1, b64_out2 d1 d2], t # rest)" for d0 d1 d2
    using neq by (simp add: b64_get_def b64_peek_def)
  consider "xs = []" | a where "xs = [a]" | a b where "xs = [a, b]"
    using assms(2) by (cases xs rule: b64_tail.cases) auto
  then show ?thesis
    by cases (simp_all add: decode_stream_term decode_stream_char assms pad pad2 Let_def
        del: Base64DecodeStream.simps)
qed

lemma decode_stream_encode:
  assumes "b64_terminator t"
  shows "Base64DecodeStream t [] (Base64Encode xs @ t # rest) = (True, xs, t # rest)"
proof (induction xs rule: Base64Encode.induct)
  case (1 xs)
  show ?case
  proof (cases "length xs > 2")
    case True
    obtain out q left where l: "b64_line 0 xs = (out, q, left)" by (metis prod_cases3)
    from decode_stream_line [OF assms l] obtain pre where "xs = pre @ left"
      "\<forall>is. Base64DecodeStream t [] (out @ is) = b64_prepend pre (Base64DecodeStream t [] is)"
      by blast
    with True l "1.IH" [OF True l [symmetric]] show ?thesis
      by (subst Base64Encode.simps) (auto simp: decode_stream_newline [OF assms] simp del: Base64DecodeStream.simps)
  next
    case False
    then show ?thesis
      by (subst Base64Encode.simps) (simp add: decode_stream_tail [OF assms])
  qed
qed


text \<open>The same for the buffer decoder.\<close>

lemma decode_buffer_char:
  assumes "unat i < 64" "length data < 3"
  shows "Base64DecodeBuffer data (b64_char i # is) = Base64DecodeBuffer (data @ [i]) is"
  using assms b64_char_sextet [OF assms(1)] by (auto simp: b64_val_char Let_def)

lemma decode_buffer_quad:
  "Base64DecodeBuffer [] (b64_quad a b c @ is) = map_option ((@) [a, b, c]) (Base64DecodeBuffer [] is)"
proof -
  have "Base64DecodeBuffer [d0, d1, d2] (b64_char i # is)
      = map_option ((@) [b64_out1 d0 d1, b64_out2 d1 d2, b64_out3 d2 i]) (Base64DecodeBuffer [] is)"
    if "unat i < 64" for d0 d1 d2 i
    using b64_char_sextet [OF that] that
    by (auto simp: b64_val_char Let_def intro!: option.map_cong)
  then show ?thesis
    unfolding b64_quad_def by (simp add: decode_buffer_char del: Base64DecodeBuffer.simps)
qed

lemma decode_buffer_line:
  assumes "b64_line q xs = (out, q', rest)"
  shows "\<exists>pre. xs = pre @ rest \<and>
    (\<forall>is. Base64DecodeBuffer [] (out @ is) = map_option ((@) pre) (Base64DecodeBuffer [] is))"
  using assms
proof (induction q xs arbitrary: out rest rule: b64_line.induct)
  case (1 q a b c xs)
  show ?case
  proof (cases "q < maxQuadLength")
    case True
    with "1.prems" obtain out' where l: "b64_line (Suc q) xs = (out', q', rest)"
      and out: "out = b64_quad a b c @ out'" by (auto split: prod.splits)
    from "1.IH" [OF True l] obtain pre where "xs = pre @ rest"
      "\<forall>is. Base64DecodeBuffer [] (out' @ is) = map_option ((@) pre) (Base64DecodeBuffer [] is)"
      by blast
    then show ?thesis
      by (intro exI [of _ "a # b # c # pre"])
         (simp add: out decode_buffer_quad option.map_comp comp_def)
  next
    case False
    with "1.prems" show ?thesis by (auto simp: option.map_id0 id_def [symmetric])
  qed
qed (auto simp: option.map_id0 id_def [symmetric])

lemma decode_buffer_tail:
  assumes "length xs \<le> 2"
  shows "Base64DecodeBuffer [] (b64_tail xs) = Some xs"
proof -
  have pad: "Base64DecodeBuffer [d0, d1] [0x3D, 0x3D] = Some [b64_out1 d0 d1]" for d0 d1
    by simp
  have pad2: "Base64DecodeBuffer [d0, d1, d2] [0x3D] = Some [b64_out1 d0 d1, b64_out2 d1 d2]"
    for d0 d1 d2 by simp
  consider "xs = []" | a where "xs = [a]" | a b where "xs = [a, b]"
    using assms by (cases xs rule: b64_tail.cases) auto
  then show ?thesis
    by cases (simp_all add: decode_buffer_char pad pad2 Let_def
        del: Base64DecodeBuffer.simps(2))
qed

lemma decode_buffer_encode: "Base64DecodeBuffer [] (Base64Encode xs) = Some xs"
proof (induction xs rule: Base64Encode.induct)
  case (1 xs)
  show ?case
  proof (cases "length xs > 2")
    case True
    obtain out q left where l: "b64_line 0 xs = (out, q, left)" by (metis prod_cases3)
    from decode_buffer_line [OF l] obtain pre where "xs = pre @ left"
      "\<forall>is. Base64DecodeBuffer [] (out @ is) = map_option ((@) pre) (Base64DecodeBuffer [] is)"
      by blast
    moreover have "Base64DecodeBuffer [] (0x0A # is) = Base64DecodeBuffer [] is" for "is"
      by simp
    ultimately show ?thesis using True l "1.IH" [OF True l [symmetric]]
      by (subst Base64Encode.simps) (auto simp del: Base64DecodeBuffer.simps(2))
  next
    case False
    then show ?thesis by (subst Base64Encode.simps) (simp add: decode_buffer_tail)
  qed
qed


section \<open>Line breaks\<close>

text \<open>
  A line break is written after every sixteenth quad that more bytes follow, so the output
  of more than 48 bytes contains one and shorter output does not.
\<close>

lemma b64_char_not_newline: "unat i < 64 \<Longrightarrow> b64_char i \<noteq> 0x0A"
  using b64_char_sextet by fastforce

lemma b64_char_not_newline' [simp]:
  "b64_char (b64_i0 a) \<noteq> 0x0A" "b64_char (b64_i1 a b) \<noteq> 0x0A"
  "b64_char (b64_i2 b c) \<noteq> 0x0A" "b64_char (b64_i3 c) \<noteq> 0x0A"
  by (simp_all add: b64_char_not_newline)

lemma b64_line_newline: "b64_line q xs = (out, q', rest) \<Longrightarrow> 0x0A \<notin> set out"
  by (induction q xs arbitrary: out q' rest rule: b64_line.induct)
     (auto simp: b64_quad_def split: prod.splits if_splits)

lemma b64_tail_newline: "0x0A \<notin> set (b64_tail xs)"
  by (cases xs rule: b64_tail.cases) (auto simp: Let_def)

lemma b64_line_quads:
  assumes "b64_line q xs = (out, q', rest)" "q \<le> maxQuadLength"
  shows "q' = min maxQuadLength (q + length xs div 3) \<and> length rest = length xs - 3 * (q' - q)"
  using assms
proof (induction q xs arbitrary: out rest rule: b64_line.induct)
  case (1 q a b c xs)
  show ?case
  proof (cases "q < maxQuadLength")
    case True
    with "1.prems" obtain out' where "b64_line (Suc q) xs = (out', q', rest)"
      by (auto split: prod.splits)
    from "1.IH" [OF True this] True
    have q': "q' = min maxQuadLength (Suc q + length xs div 3)"
      and r: "length rest = length xs - 3 * (q' - Suc q)" by simp_all
    have "(3 + length xs) div 3 = Suc (length xs div 3)" by simp
    moreover obtain k where "q' = Suc q + k"
      using q' True le_Suc_ex [of "Suc q" q'] by auto
    ultimately show ?thesis using q' r by auto
  next
    case False
    with "1.prems" show ?thesis by auto
  qed
qed auto

lemma encode_newline: "0x0A \<in> set (Base64Encode xs) \<longleftrightarrow> length xs > 48"
proof (induction xs rule: Base64Encode.induct)
  case (1 xs)
  show ?case
  proof (cases "length xs > 2")
    case True
    obtain out q left where l: "b64_line 0 xs = (out, q, left)" by (metis prod_cases3)
    from b64_line_quads [OF l] have "q = min 16 (length xs div 3)" "length left = length xs - 3 * q"
      by (simp_all add: maxQuadLength_def)
    moreover from this have "q = 16 \<longleftrightarrow> length xs \<ge> 48" by auto
    moreover from calculation have "q = 16 \<Longrightarrow> left = [] \<longleftrightarrow> length xs = 48"
      by (simp flip: length_0_conv)
    ultimately show ?thesis
      using True "1.IH" [OF True l [symmetric]] b64_line_newline [OF l] l
      by (subst Base64Encode.simps) (auto simp: maxQuadLength_def)
  next
    case False
    then show ?thesis by (subst Base64Encode.simps) (simp add: b64_tail_newline)
  qed
qed

lemma decode_buffer_length:
  "Base64DecodeBuffer data src = Some out \<Longrightarrow> length out \<le> length data + length src"
proof (induction data src arbitrary: out rule: Base64DecodeBuffer.induct)
  case (2 data c src)
  consider "b64_val c = base64Ignore" | "b64_val c \<noteq> base64Ignore" "b64_val c = base64Pad"
    | "b64_val c \<noteq> base64Ignore" "b64_val c \<noteq> base64Pad" "length data = 3"
    | "b64_val c \<noteq> base64Ignore" "b64_val c \<noteq> base64Pad" "length data \<noteq> 3" by blast
  then show ?case
  proof cases
    case 1
    then show ?thesis using "2.IH"(1) [OF refl, of out] "2.prems" by simp
  next
    case 2
    then show ?thesis using "2.prems" by (auto simp: Let_def split: if_splits list.splits)
  next
    case 3
    then show ?thesis using "2.IH"(2) [OF refl] "2.prems" by fastforce
  next
    case 4
    then show ?thesis using "2.IH"(3) [OF refl, of out] "2.prems" by simp
  qed
qed simp

lemma b64_tail_length: "length xs \<le> length (b64_tail xs)" if "length xs \<le> 2"
  using that by (cases xs rule: b64_tail.cases) (auto simp: Let_def)

lemma b64_line_out: "b64_line q xs = (out, q', rest) \<Longrightarrow> length xs \<le> length out + length rest"
  by (induction q xs arbitrary: out q' rest rule: b64_line.induct)
     (fastforce simp: b64_quad_def split: prod.splits if_splits)+

lemma Base64Encode_length: "length xs \<le> length (Base64Encode xs)"
proof (induction xs rule: Base64Encode.induct)
  case (1 xs)
  show ?case
  proof (cases "length xs > 2")
    case True
    obtain out q left where l: "b64_line 0 xs = (out, q, left)" by (metis prod_cases3)
    from b64_line_out [OF l] True "1.IH" [OF True l [symmetric]] l show ?thesis
      by (subst Base64Encode.simps) auto
  next
    case False
    then show ?thesis by (subst Base64Encode.simps) (simp add: b64_tail_length)
  qed
qed

section \<open>The stream decoder on any input stream\<close>

text \<open>
  The decoder with the calls it makes on its input stream; \<open>out\<close> collects what it puts. On a
  stream that keeps the contract of \<open>input_stream\<close> it does what the decoder on lists does.
\<close>

partial_function (option) Base64DecodeOn ::
  "('s \<Rightarrow> bool) \<Rightarrow> ('s \<Rightarrow> byte) \<Rightarrow> ('s \<Rightarrow> byte \<times> 's) \<Rightarrow> byte \<Rightarrow> bytes \<Rightarrow> bytes \<Rightarrow> 's
     \<Rightarrow> (bool \<times> bytes \<times> 's) option" where
  "Base64DecodeOn eof peek get termChar data out s =
     (if eof s then Some (False, out, s)
      else if peek s = termChar then Some (data = [], out, s)
      else case get s of (c, s1) \<Rightarrow>
        (if b64_val c = base64Ignore then Base64DecodeOn eof peek get termChar data out s1
         else if b64_val c = base64Pad then
           (if length data < 2 then Some (False, out, s1)
            else if length data = 2 then
              (case get s1 of (c', s2) \<Rightarrow>
                 if b64_val c' \<noteq> base64Pad then Some (False, out, s2)
                 else Some (peek s2 = termChar, out @ [b64_out1 (data ! 0) (data ! 1)], s2))
            else Some (peek s1 = termChar,
                   out @ [b64_out1 (data ! 0) (data ! 1), b64_out2 (data ! 1) (data ! 2)], s1))
         else if length data = 3 then
           Base64DecodeOn eof peek get termChar []
             (out @ [b64_out1 (data ! 0) (data ! 1), b64_out2 (data ! 1) (data ! 2),
                     b64_out3 (data ! 2) (b64_val c)]) s1
         else Base64DecodeOn eof peek get termChar (data @ [b64_val c]) out s1))"

context input_stream
begin

lemma peek_b64: "ok s \<Longrightarrow> peek s = b64_peek (left s)"
  by (simp add: peek_left b64_peek_def)

lemma get_b64:
  assumes "ok s"
  obtains c s1 where "get s = (c, s1)" "b64_get (left s) = (c, left s1)" "ok s1"
  using get_char [OF assms] get_left [OF assms] get_ok [OF assms]
  by (cases "get s") (auto simp: b64_get_def split: list.splits)

lemma decode_on:
  assumes "ok s"
  shows "\<exists>s'. Base64DecodeOn eof peek get t data out s
      = Some (fst (Base64DecodeStream t data (left s)), out @ fst (snd (Base64DecodeStream t data (left s))), s')
    \<and> left s' = snd (snd (Base64DecodeStream t data (left s))) \<and> ok s'"
  using assms
proof (induction t data "left s" arbitrary: s out rule: Base64DecodeStream.induct)
  case (1 t data)
  then show ?case using eof_left [of s] by (subst Base64DecodeOn.simps) simp
next
  case (2 t data c "is")
  from get_Cons [OF "2.prems"] "2.hyps"(4) obtain s1
    where s1: "get s = (c, s1)" "left s1 = is" "ok s1" by metis
  have ne: "\<not> eof s" "peek s = c"
    using eof_left [OF "2.prems"] peek_left [OF "2.prems"] "2.hyps"(4) [symmetric] by auto
  obtain c' s2 where s2: "get s1 = (c', s2)" "b64_get is = (c', left s2)" "ok s2"
    using get_b64 [OF s1(3)] s1(2) by metis
  consider "c = t" | "c \<noteq> t" "b64_val c = base64Ignore"
    | "c \<noteq> t" "b64_val c \<noteq> base64Ignore" "b64_val c = base64Pad"
    | "c \<noteq> t" "b64_val c \<noteq> base64Ignore" "b64_val c \<noteq> base64Pad" "length data = 3"
    | "c \<noteq> t" "b64_val c \<noteq> base64Ignore" "b64_val c \<noteq> base64Pad" "length data \<noteq> 3" by blast
  then show ?case
  proof cases
    case 1
    then show ?thesis using ne "2.prems" "2.hyps"(4) [symmetric] by (subst Base64DecodeOn.simps) simp
  next
    case 2
    then show ?thesis using ne s1 "2.hyps"(1) [OF _ refl _ s1(2) [symmetric] s1(3)] "2.hyps"(4) [symmetric]
      by (subst Base64DecodeOn.simps) (simp add: Let_def)
  next
    case 3
    then show ?thesis
      using ne s1 s2 peek_b64 [OF s1(3)] peek_b64 [OF s2(3)] "2.hyps"(4) [symmetric]
      by (subst Base64DecodeOn.simps) (simp add: Let_def)
  next
    case 4
    obtain r1 r2 r3 where "Base64DecodeStream t [] is = (r1, r2, r3)" by (metis prod_cases3)
    with 4 show ?thesis
      using ne s1 "2.hyps"(2) [OF _ refl _ _ _ s1(2) [symmetric] s1(3), of "out @
        [b64_out1 (data ! 0) (data ! 1), b64_out2 (data ! 1) (data ! 2), b64_out3 (data ! 2) (b64_val c)]"]
        "2.hyps"(4) [symmetric]
      by (subst Base64DecodeOn.simps) (simp add: Let_def)
  next
    case 5
    then show ?thesis using ne s1 "2.hyps"(3) [OF _ refl _ _ _ s1(2) [symmetric] s1(3)] "2.hyps"(4) [symmetric]
      by (subst Base64DecodeOn.simps) (simp add: Let_def)
  qed
qed

end

text \<open>
  Decoding what the encoder wrote, from any position of the in-place stream and of the file
  stream: the return value, the bytes, and the stream left at the terminating character.
\<close>

lemma decode_on_encode_iss:
  assumes "iss_ok s" "iss_left s = Base64Encode xs @ t # rest" "b64_terminator t"
  shows "\<exists>s'. Base64DecodeOn iss_Eof iss_Peek iss_Get t [] [] s = Some (True, xs, s')
    \<and> iss_left s' = t # rest"
  using iss.decode_on [OF assms(1), of t "[]" "[]"] assms(2) decode_stream_encode [OF assms(3)] by auto

lemma decode_on_encode_rfs:
  assumes "rfs_ok s" "rfs_left s = Base64Encode xs @ t # rest" "b64_terminator t"
  shows "\<exists>s'. Base64DecodeOn rfs_Eof rfs_Peek rfs_Get t [] [] s = Some (True, xs, s')
    \<and> rfs_left s' = t # rest"
  using rfs.decode_on [OF assms(1), of t "[]" "[]"] assms(2) decode_stream_encode [OF assms(3)] by auto

end
