(* ===== verification/AnyRpc_Unicode.thy ===== *)
theory AnyRpc_Unicode
  imports AnyRpc_Prelude
begin

text \<open>
  src/internal/unicode.cpp on a platform whose \<^verbatim>\<open>wchar_t\<close> is a signed 32-bit integer (the
  branch without \<^verbatim>\<open>WIN32\<close>): conversion of wide strings to UTF-8 and back. Main results: the
  decoder inverts the encoder on every wide string the encoder accepts from non-negative
  characters, and the encoder accepts exactly the characters up to 0x1FFFF.
\<close>

type_synonym wchar = "32 word"

section \<open>Operations\<close>

text \<open>The comparisons are signed ones; \<open>>>\<close> is applied to non-negative values only.\<close>

definition wc_byte :: "wchar \<Rightarrow> byte" where
  "wc_byte w = ucast w"

text \<open>One iteration of the loop: what is pushed for one character.\<close>

definition utf8_char :: "wchar \<Rightarrow> bytes result" where
  "utf8_char wc =
     (if sint wc \<le> 0x7F then Inr [wc_byte wc]
      else if sint wc \<le> 0x7FF then
        Inr [wc_byte (0xC0 OR (drop_bit 6 wc AND 0xFF)),
             wc_byte (0x80 OR (wc AND 0x3F))]
      else if sint wc \<le> 0xFFFF then
        Inr [wc_byte (0xE0 OR (drop_bit 12 wc AND 0xFF)),
             wc_byte (0x80 OR (drop_bit 6 wc AND 0x3F)),
             wc_byte (0x80 OR (wc AND 0x3F))]
      else if sint wc \<le> 0x1FFFF then
        Inr [wc_byte (0xF0 OR (drop_bit 18 wc AND 0xFF)),
             wc_byte (0x80 OR (drop_bit 12 wc AND 0x3F)),
             wc_byte (0x80 OR (drop_bit 6 wc AND 0x3F)),
             wc_byte (0x80 OR (wc AND 0x3F))]
      else Inl AnyRpcErrorUnicodeValue)"

primrec ConvertToUtf8 :: "wchar list \<Rightarrow> bytes result" where
  "ConvertToUtf8 [] = Inr []"
| "ConvertToUtf8 (wc # ws) =
     then_r (utf8_char wc) (\<lambda>b. then_r (ConvertToUtf8 ws) (\<lambda>s. Inr (b @ s)))"

text \<open>
  \<^verbatim>\<open>c1\<close> is initialised from an \<^verbatim>\<open>unsigned char\<close>, the later ones from a \<^verbatim>\<open>char\<close>, which is
  sign-extended.
\<close>

definition utf8_lead :: "byte \<Rightarrow> wchar" where "utf8_lead c = ucast c"
definition utf8_next :: "byte \<Rightarrow> wchar" where "utf8_next c = scast c"

definition utf8_cont :: "byte \<Rightarrow> bool" where
  "utf8_cont c \<longleftrightarrow> utf8_next c AND 0xC0 = 0x80"

definition utf8_join2 :: "byte \<Rightarrow> byte \<Rightarrow> wchar" where
  "utf8_join2 c1 c2 = push_bit 6 (utf8_lead c1 AND 0x1F) + (utf8_next c2 AND 0x3F)"

definition utf8_join3 :: "byte \<Rightarrow> byte \<Rightarrow> byte \<Rightarrow> wchar" where
  "utf8_join3 c1 c2 c3 =
     push_bit 12 (utf8_lead c1 AND 0x0F) + push_bit 6 (utf8_next c2 AND 0x3F) + (utf8_next c3 AND 0x3F)"

definition utf8_join4 :: "byte \<Rightarrow> byte \<Rightarrow> byte \<Rightarrow> byte \<Rightarrow> wchar" where
  "utf8_join4 c1 c2 c3 c4 =
     push_bit 18 (utf8_lead c1 AND 0x07) + push_bit 12 (utf8_next c2 AND 0x3F) +
     push_bit 6 (utf8_next c3 AND 0x3F) + (utf8_next c4 AND 0x3F)"

fun ConvertFromUtf8 :: "bytes \<Rightarrow> wchar list result" where
  "ConvertFromUtf8 [] = Inr []"
| "ConvertFromUtf8 (c # s) =
     (if c < 0x80 then then_r (ConvertFromUtf8 s) (\<lambda>ws. Inr (utf8_lead c # ws))
      else if c < 0xC0 \<or> c \<ge> 0xF8 then Inl AnyRpcErrorUtf8Sequence
      else if c < 0xE0 then
        (case s of
           c2 # s' \<Rightarrow>
             if \<not> utf8_cont c2 then Inl AnyRpcErrorUtf8Sequence
             else then_r (ConvertFromUtf8 s') (\<lambda>ws. Inr (utf8_join2 c c2 # ws))
         | _ \<Rightarrow> Inl AnyRpcErrorUtf8Sequence)
      else if c < 0xF0 then
        (case s of
           c2 # c3 # s' \<Rightarrow>
             if \<not> utf8_cont c2 \<or> \<not> utf8_cont c3 then Inl AnyRpcErrorUtf8Sequence
             else then_r (ConvertFromUtf8 s') (\<lambda>ws. Inr (utf8_join3 c c2 c3 # ws))
         | _ \<Rightarrow> Inl AnyRpcErrorUtf8Sequence)
      else
        (case s of
           c2 # c3 # c4 # s' \<Rightarrow>
             if \<not> utf8_cont c2 \<or> \<not> utf8_cont c3 \<or> \<not> utf8_cont c4
             then Inl AnyRpcErrorUtf8Sequence
             else then_r (ConvertFromUtf8 s') (\<lambda>ws. Inr (utf8_join4 c c2 c3 c4 # ws))
         | _ \<Rightarrow> Inl AnyRpcErrorUtf8Sequence))"

declare ConvertFromUtf8.simps(2) [simp del]

section \<open>Bytes of a sequence\<close>

text \<open>A continuation byte carries six bits, a lead byte the bits above its marker.\<close>

lemma bit_utf8_masks [simp]:
  "bit (0x80 :: int) n \<longleftrightarrow> n = 7"
  "bit (0xC0 :: int) n \<longleftrightarrow> n = 6 \<or> n = 7"
  "bit (0x3F :: int) n \<longleftrightarrow> n < 6"
proof -
  have "(0x80 :: int) = 2 ^ 7" "(0xC0 :: int) = push_bit 6 (mask 2)" "(0x3F :: int) = mask 6"
    by (simp_all add: push_bit_eq_mult mask_eq_exp_minus_1)
  then show "bit (0x80 :: int) n \<longleftrightarrow> n = 7" "bit (0xC0 :: int) n \<longleftrightarrow> n = 6 \<or> n = 7"
    "bit (0x3F :: int) n \<longleftrightarrow> n < 6"
    by (simp_all only: bit_exp_iff bit_push_bit_iff bit_mask_iff) auto
qed

lemma utf8_next_low: "utf8_next (wc_byte (0x80 OR (w AND 0x3F))) AND 0x3F = w AND 0x3F"
  unfolding utf8_next_def wc_byte_def
  by (rule bit_word_eqI) (auto simp: bit_simps min_def)

lemma utf8_cont_byte: "utf8_cont (wc_byte (0x80 OR (w AND 0x3F)))"
  unfolding utf8_cont_def utf8_next_def wc_byte_def
  by (rule bit_word_eqI) (auto simp: bit_simps min_def)

lemma lead_table:
  "\<forall>i \<in> set [0..<32]. unat (wc_byte (0xC0 OR word_of_nat i)) = 0xC0 + i
     \<and> unat (utf8_lead (wc_byte (0xC0 OR word_of_nat i)) AND 0x1F) = i"
  "\<forall>i \<in> set [0..<16]. unat (wc_byte (0xE0 OR word_of_nat i)) = 0xE0 + i
     \<and> unat (utf8_lead (wc_byte (0xE0 OR word_of_nat i)) AND 0x0F) = i"
  "\<forall>i \<in> set [0..<8]. unat (wc_byte (0xF0 OR word_of_nat i)) = 0xF0 + i
     \<and> unat (utf8_lead (wc_byte (0xF0 OR word_of_nat i)) AND 0x07) = i"
  by code_simp+

lemma lead_C0:
  assumes "unat v < 32"
  shows "unat (wc_byte (0xC0 OR v)) = 0xC0 + unat v"
    "unat (utf8_lead (wc_byte (0xC0 OR v)) AND 0x1F) = unat v"
  using lead_table(1) [THEN bspec, of "unat v"] assms by simp_all

lemma lead_E0:
  assumes "unat v < 16"
  shows "unat (wc_byte (0xE0 OR v)) = 0xE0 + unat v"
    "unat (utf8_lead (wc_byte (0xE0 OR v)) AND 0x0F) = unat v"
  using lead_table(2) [THEN bspec, of "unat v"] assms by simp_all

lemma lead_F0:
  assumes "unat v < 8"
  shows "unat (wc_byte (0xF0 OR v)) = 0xF0 + unat v"
    "unat (utf8_lead (wc_byte (0xF0 OR v)) AND 0x07) = unat v"
  using lead_table(3) [THEN bspec, of "unat v"] assms by simp_all

lemma unat_and_3F: "unat (w AND 0x3F) = unat w mod 64" for w :: wchar
  using unat_and_mask [of w 6] by (simp add: mask_eq_exp_minus_1)

lemma unat_and_FF: "unat (w AND 0xFF) = unat w mod 256" for w :: wchar
  using unat_and_mask [of w 8] by (simp add: mask_eq_exp_minus_1)

section \<open>Joining what was split\<close>

lemma sextets_eq:
  "(n :: nat) div 64 * 64 + n mod 64 = n"
  "n div 4096 * 4096 + n div 64 mod 64 * 64 + n mod 64 = n"
  "n div 262144 * 262144 + n div 4096 mod 64 * 4096 + n div 64 mod 64 * 64 + n mod 64 = n"
proof -
  have 1: "n div 64 * 64 + n mod 64 = n" by simp
  have 2: "n div 4096 * 64 + n div 64 mod 64 = n div 64"
    using div_mult_mod_eq [of "n div 64" 64] by (simp add: div_mult2_eq [symmetric])
  have 3: "n div 262144 * 64 + n div 4096 mod 64 = n div 4096"
    using div_mult_mod_eq [of "n div 4096" 64] by (simp add: div_mult2_eq [symmetric])
  show "n div 64 * 64 + n mod 64 = n"
    "n div 4096 * 4096 + n div 64 mod 64 * 64 + n mod 64 = n"
    "n div 262144 * 262144 + n div 4096 mod 64 * 4096 + n div 64 mod 64 * 64 + n mod 64 = n"
    using 1 2 3 by linarith+
qed

lemma unat_sint:
  fixes w :: wchar
  assumes "0 \<le> sint w"
  shows "int (unat w) = sint w"
proof -
  have "sint w < 2 ^ 32" using sint_lt [of w] by simp
  then have "take_bit 32 (sint w) = sint w" using assms by (simp add: take_bit_int_eq_self)
  then have "uint w = sint w" using uint_sint [of w] by simp
  then show ?thesis by simp
qed

lemma utf8_join_split2:
  assumes "unat wc < 0x800"
  shows "utf8_join2 (wc_byte (0xC0 OR (drop_bit 6 wc AND 0xFF))) (wc_byte (0x80 OR (wc AND 0x3F))) = wc"
proof -
  have "unat (drop_bit 6 wc AND 0xFF) = unat wc div 64" "unat wc div 64 < 32"
    using assms by (simp_all add: unat_and_FF unat_shift_right)
  with lead_C0 [of "drop_bit 6 wc AND 0xFF"]
  have l: "unat (utf8_lead (wc_byte (0xC0 OR (drop_bit 6 wc AND 0xFF))) AND 0x1F) = unat wc div 64"
    by simp
  show ?thesis unfolding word_unat_eq_iff utf8_join2_def utf8_next_low unat_word_ariths unat_shift_left l unat_and_3F
    using sextets_eq(1) [of "unat wc"] assms by simp
qed

lemma utf8_join_split3:
  assumes "unat wc < 0x10000"
  shows "utf8_join3 (wc_byte (0xE0 OR (drop_bit 12 wc AND 0xFF)))
    (wc_byte (0x80 OR (drop_bit 6 wc AND 0x3F))) (wc_byte (0x80 OR (wc AND 0x3F))) = wc"
proof -
  have "unat (drop_bit 12 wc AND 0xFF) = unat wc div 4096" "unat wc div 4096 < 16"
    using assms by (simp_all add: unat_and_FF unat_shift_right)
  with lead_E0 [of "drop_bit 12 wc AND 0xFF"]
  have l: "unat (utf8_lead (wc_byte (0xE0 OR (drop_bit 12 wc AND 0xFF))) AND 0x0F) = unat wc div 4096"
    by simp
  show ?thesis unfolding word_unat_eq_iff utf8_join3_def utf8_next_low unat_word_ariths unat_shift_left
      l unat_and_3F unat_shift_right
    using sextets_eq(2) [of "unat wc"] assms by simp
qed

lemma utf8_join_split4:
  assumes "unat wc < 0x200000"
  shows "utf8_join4 (wc_byte (0xF0 OR (drop_bit 18 wc AND 0xFF)))
    (wc_byte (0x80 OR (drop_bit 12 wc AND 0x3F))) (wc_byte (0x80 OR (drop_bit 6 wc AND 0x3F)))
    (wc_byte (0x80 OR (wc AND 0x3F))) = wc"
proof -
  have "unat (drop_bit 18 wc AND 0xFF) = unat wc div 262144" "unat wc div 262144 < 8"
    using assms by (simp_all add: unat_and_FF unat_shift_right)
  with lead_F0 [of "drop_bit 18 wc AND 0xFF"]
  have l: "unat (utf8_lead (wc_byte (0xF0 OR (drop_bit 18 wc AND 0xFF))) AND 0x07) = unat wc div 262144"
    by simp
  show ?thesis unfolding word_unat_eq_iff utf8_join4_def utf8_next_low unat_word_ariths unat_shift_left
      l unat_and_3F unat_shift_right
    using sextets_eq(3) [of "unat wc"] assms by simp
qed

section \<open>Round trip\<close>

text \<open>
  The characters the encoder turns into a UTF-8 sequence. Negative ones are also accepted, as
  single bytes (the first comparison is a signed one), and are not in \<open>utf8_encodable\<close>.
\<close>

definition utf8_encodable :: "wchar \<Rightarrow> bool" where
  "utf8_encodable wc \<longleftrightarrow> 0 \<le> sint wc \<and> sint wc \<le> 0x1FFFF"

lemma utf8_byte_class:
  fixes c :: byte
  shows "unat c = 0xC0 + k \<Longrightarrow> k < 0x20 \<Longrightarrow> \<not> c < 0x80 \<and> \<not> c < 0xC0 \<and> \<not> c \<ge> 0xF8 \<and> c < 0xE0"
    "unat c = 0xE0 + k \<Longrightarrow> k < 0x10 \<Longrightarrow> \<not> c < 0x80 \<and> \<not> c < 0xC0 \<and> \<not> c \<ge> 0xF8 \<and> \<not> c < 0xE0 \<and> c < 0xF0"
    "unat c = 0xF0 + k \<Longrightarrow> k < 0x08 \<Longrightarrow> \<not> c < 0x80 \<and> \<not> c < 0xC0 \<and> \<not> c \<ge> 0xF8 \<and> \<not> c < 0xE0 \<and> \<not> c < 0xF0"
  by (simp_all add: word_less_nat_alt word_le_nat_alt)

lemma ConvertFromUtf8_char:
  assumes "utf8_encodable wc" "utf8_char wc = Inr b"
  shows "ConvertFromUtf8 (b @ s) = then_r (ConvertFromUtf8 s) (\<lambda>ws. Inr (wc # ws))"
proof -
  have n: "int (unat wc) = sint wc" "sint wc \<le> 0x1FFFF"
    using assms(1) unat_sint by (simp_all add: utf8_encodable_def)
  consider "sint wc \<le> 0x7F" | "0x7F < sint wc" "sint wc \<le> 0x7FF"
    | "0x7FF < sint wc" "sint wc \<le> 0xFFFF" | "0xFFFF < sint wc" by linarith
  then show ?thesis
  proof cases
    case 1
    then have "unat wc < 128" using n by linarith
    then have "unat (wc_byte wc) = unat wc"
      by (simp add: wc_byte_def unsigned_ucast_eq take_bit_nat_eq_self)
    then have "wc_byte wc < 0x80" "utf8_lead (wc_byte wc) = wc"
      using \<open>unat wc < 128\<close> by (simp_all add: word_less_nat_alt word_unat_eq_iff utf8_lead_def unsigned_ucast_eq take_bit_nat_eq_self)
    then show ?thesis using 1 assms(2) by (auto simp: utf8_char_def ConvertFromUtf8.simps)
  next
    case 2
    then have "unat wc < 0x800" using n by linarith
    moreover have "unat (drop_bit 6 wc AND 0xFF) < 32"
      using calculation by (simp add: unat_and_FF unat_shift_right)
    note utf8_byte_class(1) [OF lead_C0(1) [OF this] this]
    ultimately show ?thesis using 2 assms(2)
      by (auto simp: utf8_char_def ConvertFromUtf8.simps utf8_cont_byte utf8_join_split2)
  next
    case 3
    then have "unat wc < 0x10000" using n by linarith
    moreover have "unat (drop_bit 12 wc AND 0xFF) < 16"
      using calculation by (simp add: unat_and_FF unat_shift_right)
    note utf8_byte_class(2) [OF lead_E0(1) [OF this] this]
    ultimately show ?thesis using 3 assms(2)
      by (auto simp: utf8_char_def ConvertFromUtf8.simps utf8_cont_byte utf8_join_split3)
  next
    case 4
    then have "unat wc < 0x200000" using n by linarith
    moreover have "unat (drop_bit 18 wc AND 0xFF) < 8"
      using calculation by (simp add: unat_and_FF unat_shift_right)
    note utf8_byte_class(3) [OF lead_F0(1) [OF this] this]
    ultimately show ?thesis using 4 n(2) assms(2)
      by (auto simp: utf8_char_def ConvertFromUtf8.simps utf8_cont_byte utf8_join_split4)
  qed
qed

lemma utf8_char_total: "(\<exists>b. utf8_char wc = Inr b) \<longleftrightarrow> sint wc \<le> 0x1FFFF"
  by (auto simp: utf8_char_def)

lemma ConvertToUtf8_total: "(\<exists>s. ConvertToUtf8 ws = Inr s) \<longleftrightarrow> (\<forall>wc \<in> set ws. sint wc \<le> 0x1FFFF)"
  by (induction ws) (auto simp flip: utf8_char_total)

lemma utf8_roundtrip:
  assumes "\<forall>wc \<in> set ws. utf8_encodable wc"
  shows "then_r (ConvertToUtf8 ws) ConvertFromUtf8 = Inr ws"
proof -
  have "ConvertToUtf8 ws = Inr s \<Longrightarrow> ConvertFromUtf8 s = Inr ws" for s
    using assms
  proof (induction ws arbitrary: s)
    case (Cons wc ws)
    then obtain b s' where "utf8_char wc = Inr b" "ConvertToUtf8 ws = Inr s'" "s = b @ s'" by auto
    with Cons ConvertFromUtf8_char [of wc b s'] show ?case by simp
  qed simp
  moreover obtain s where "ConvertToUtf8 ws = Inr s"
    using assms ConvertToUtf8_total [of ws] by (auto simp: utf8_encodable_def)
  ultimately show ?thesis by simp
qed

text \<open>
  The decoder produces characters the encoder refuses: U+20000, the first character of plane 2.
\<close>

lemma utf8_plane2:
  "ConvertFromUtf8 [0xF0, 0xA0, 0x80, 0x80] = Inr [0x20000]"
  "ConvertToUtf8 [0x20000] = Inl AnyRpcErrorUnicodeValue"
  by code_simp+

end
