(* ===== verification/AnyRpc_Value.thy ===== *)
theory AnyRpc_Value
  imports AnyRpc_Prelude AnyRpc_Base64 AnyRpc_Unicode
begin

text \<open>
  value.h and value.cpp: the variant type of the library. A value is a flag word and a union;
  here each constructor of \<open>value\<close> carries the flag word and stands for the member of the union
  that was last written. Member functions that throw return an error; those that return a
  reference to an element return its index.

  Main results: the flag word decides the range tests exactly and does not depend on the
  constructor used; strings up to 15 bytes fit the inline array together with their length;
  map and array operations against lists; deep copies.
\<close>

section \<open>Types and flags\<close>

abbreviation InvalidType :: u32 where "InvalidType \<equiv> 0"
abbreviation NullType :: u32 where "NullType \<equiv> 1"
abbreviation FalseType :: u32 where "FalseType \<equiv> 2"
abbreviation TrueType :: u32 where "TrueType \<equiv> 3"
abbreviation MapType :: u32 where "MapType \<equiv> 4"
abbreviation ArrayType :: u32 where "ArrayType \<equiv> 5"
abbreviation StringType :: u32 where "StringType \<equiv> 6"
abbreviation NumberType :: u32 where "NumberType \<equiv> 7"
abbreviation DateTimeType :: u32 where "DateTimeType \<equiv> 8"
abbreviation BinaryType :: u32 where "BinaryType \<equiv> 9"
abbreviation ValueTypeSize :: u32 where "ValueTypeSize \<equiv> 10"

abbreviation BoolFlag :: u32 where "BoolFlag \<equiv> 0x00000100"
abbreviation NumberFlag :: u32 where "NumberFlag \<equiv> 0x00000200"
abbreviation IntFlag :: u32 where "IntFlag \<equiv> 0x00000400"
abbreviation UintFlag :: u32 where "UintFlag \<equiv> 0x00000800"
abbreviation Int64Flag :: u32 where "Int64Flag \<equiv> 0x00001000"
abbreviation Uint64Flag :: u32 where "Uint64Flag \<equiv> 0x00002000"
abbreviation FloatFlag :: u32 where "FloatFlag \<equiv> 0x00004000"
abbreviation DoubleFlag :: u32 where "DoubleFlag \<equiv> 0x00008000"
abbreviation StringFlag :: u32 where "StringFlag \<equiv> 0x00100000"
abbreviation CopyFlag :: u32 where "CopyFlag \<equiv> 0x00200000"
abbreviation InlineStrFlag :: u32 where "InlineStrFlag \<equiv> 0x00400000"
abbreviation BinaryFlag :: u32 where "BinaryFlag \<equiv> 0x00800000"

definition InvalidFlag :: u32 where "InvalidFlag = InvalidType"
definition NullFlag :: u32 where "NullFlag = NullType"
definition TrueFlag :: u32 where "TrueFlag = TrueType OR BoolFlag"
definition FalseFlag :: u32 where "FalseFlag = FalseType OR BoolFlag"
definition NumberIntFlag :: u32 where
  "NumberIntFlag = NumberType OR NumberFlag OR IntFlag OR Int64Flag"
definition NumberUintFlag :: u32 where
  "NumberUintFlag = NumberType OR NumberFlag OR UintFlag OR Uint64Flag OR Int64Flag"
definition NumberInt64Flag :: u32 where
  "NumberInt64Flag = NumberType OR NumberFlag OR Int64Flag"
definition NumberUint64Flag :: u32 where
  "NumberUint64Flag = NumberType OR NumberFlag OR Uint64Flag"
definition NumberFloatFlag :: u32 where
  "NumberFloatFlag = NumberType OR NumberFlag OR FloatFlag"
definition NumberDoubleFlag :: u32 where
  "NumberDoubleFlag = NumberType OR NumberFlag OR FloatFlag OR DoubleFlag"
definition NumberAnyFlag :: u32 where
  "NumberAnyFlag = NumberType OR NumberFlag OR IntFlag OR Int64Flag OR UintFlag OR Uint64Flag
     OR FloatFlag OR DoubleFlag"
definition ConstStringFlag :: u32 where "ConstStringFlag = StringType OR StringFlag"
definition CopyStringFlag :: u32 where "CopyStringFlag = StringType OR StringFlag OR CopyFlag"
definition ShortStringFlag :: u32 where
  "ShortStringFlag = StringType OR StringFlag OR CopyFlag OR InlineStrFlag"
definition ConstBinaryFlag :: u32 where "ConstBinaryFlag = BinaryType OR BinaryFlag"
definition CopyBinaryFlag :: u32 where "CopyBinaryFlag = BinaryType OR BinaryFlag OR CopyFlag"
definition ShortBinaryFlag :: u32 where
  "ShortBinaryFlag = BinaryType OR BinaryFlag OR CopyFlag OR InlineStrFlag"
definition MapFlag :: u32 where "MapFlag = MapType"
definition ArrayFlag :: u32 where "ArrayFlag = ArrayType"
definition TypeMask :: u32 where "TypeMask = 0xFF"

lemma flag_values [flag_defs, simp]:
  "InvalidFlag = 0" "NullFlag = 1" "TrueFlag = 0x103" "FalseFlag = 0x102"
  "NumberIntFlag = 0x1607" "NumberUintFlag = 0x3A07" "NumberInt64Flag = 0x1207"
  "NumberUint64Flag = 0x2207" "NumberFloatFlag = 0x4207" "NumberDoubleFlag = 0xC207"
  "NumberAnyFlag = 0xFE07" "ConstStringFlag = 0x100006" "CopyStringFlag = 0x300006"
  "ShortStringFlag = 0x700006" "ConstBinaryFlag = 0x800009" "CopyBinaryFlag = 0xA00009"
  "ShortBinaryFlag = 0xE00009" "MapFlag = 4" "ArrayFlag = 5" "TypeMask = 0xFF"
  by code_simp+

section \<open>The value\<close>

text \<open>
  \<open>PlainValue\<close>: no member of the union is read. \<open>StrValue\<close>: \<^verbatim>\<open>data_.s\<close> with the bytes it points
  to. \<open>ShortValue\<close>: the 16 bytes of \<^verbatim>\<open>data_.ss.str\<close>. \<open>ArrValue\<close>, \<open>MapValue\<close>: the capacity and
  the active elements; a capacity of 0 goes with the null pointer.
\<close>

datatype Value =
    PlainValue u32
  | NumValue u32 u64
  | TimeValue u32 u64
  | StrValue u32 bytes
  | ShortValue u32 bytes
  | ArrValue u32 nat "Value list"
  | MapValue u32 nat "(Value \<times> Value) list"

primrec vflags :: "Value \<Rightarrow> u32" where
  "vflags (PlainValue f) = f"
| "vflags (NumValue f _) = f"
| "vflags (TimeValue f _) = f"
| "vflags (StrValue f _) = f"
| "vflags (ShortValue f _) = f"
| "vflags (ArrValue f _ _) = f"
| "vflags (MapValue f _ _) = f"

definition has_flag :: "Value \<Rightarrow> u32 \<Rightarrow> bool" where
  "has_flag v f \<longleftrightarrow> vflags v AND f \<noteq> 0"

definition GetType :: "Value \<Rightarrow> u32" where "GetType v = vflags v AND TypeMask"
definition IsValid :: "Value \<Rightarrow> bool" where "IsValid v \<longleftrightarrow> vflags v \<noteq> InvalidFlag"
definition IsInvalid :: "Value \<Rightarrow> bool" where "IsInvalid v \<longleftrightarrow> vflags v = InvalidFlag"
definition IsNull :: "Value \<Rightarrow> bool" where "IsNull v \<longleftrightarrow> vflags v = NullFlag"
definition IsFalse :: "Value \<Rightarrow> bool" where "IsFalse v \<longleftrightarrow> vflags v = FalseFlag"
definition IsTrue :: "Value \<Rightarrow> bool" where "IsTrue v \<longleftrightarrow> vflags v = TrueFlag"
definition IsBool :: "Value \<Rightarrow> bool" where "IsBool v \<longleftrightarrow> has_flag v BoolFlag"
definition IsMap :: "Value \<Rightarrow> bool" where "IsMap v \<longleftrightarrow> GetType v = MapType"
definition IsArray :: "Value \<Rightarrow> bool" where "IsArray v \<longleftrightarrow> GetType v = ArrayType"
definition IsNumber :: "Value \<Rightarrow> bool" where "IsNumber v \<longleftrightarrow> has_flag v NumberFlag"
definition IsInt :: "Value \<Rightarrow> bool" where "IsInt v \<longleftrightarrow> has_flag v IntFlag"
definition IsUint :: "Value \<Rightarrow> bool" where "IsUint v \<longleftrightarrow> has_flag v UintFlag"
definition IsInt64 :: "Value \<Rightarrow> bool" where "IsInt64 v \<longleftrightarrow> has_flag v Int64Flag"
definition IsUint64 :: "Value \<Rightarrow> bool" where "IsUint64 v \<longleftrightarrow> has_flag v Uint64Flag"
definition IsFloat :: "Value \<Rightarrow> bool" where "IsFloat v \<longleftrightarrow> has_flag v FloatFlag"
definition IsDouble :: "Value \<Rightarrow> bool" where "IsDouble v \<longleftrightarrow> has_flag v DoubleFlag"
definition IsString :: "Value \<Rightarrow> bool" where "IsString v \<longleftrightarrow> has_flag v StringFlag"
definition IsDateTime :: "Value \<Rightarrow> bool" where "IsDateTime v \<longleftrightarrow> vflags v = DateTimeType"
definition IsBinary :: "Value \<Rightarrow> bool" where "IsBinary v \<longleftrightarrow> has_flag v BinaryFlag"

lemmas type_tests = has_flag_def GetType_def IsValid_def IsInvalid_def IsNull_def IsFalse_def IsTrue_def
  IsBool_def IsMap_def IsArray_def IsNumber_def IsInt_def IsUint_def IsInt64_def IsUint64_def
  IsFloat_def IsDouble_def IsString_def IsDateTime_def IsBinary_def

section \<open>Construction\<close>

text \<open>Every constructor starts from raw storage; \<^verbatim>\<open>Destroy\<close> leaves an invalid value.\<close>

definition Value_new :: "Value" where "Value_new = PlainValue 0"

definition Destroy :: "Value \<Rightarrow> Value" where "Destroy v = PlainValue InvalidFlag"

definition Value_bool :: "bool \<Rightarrow> Value" where
  "Value_bool b = PlainValue (if b then TrueFlag else FalseFlag)"

definition Value_int :: "32 word \<Rightarrow> Value" where
  "Value_int i = NumValue (NumberIntFlag OR (if 0 <=s i then UintFlag OR Uint64Flag else 0)) (scast i)"

definition Value_uint :: "u32 \<Rightarrow> Value" where
  "Value_uint u =
     NumValue (NumberUintFlag OR (if u AND 0x80000000 = 0 then IntFlag OR Int64Flag else 0)) (ucast u)"

definition Value_int64 :: "64 word \<Rightarrow> Value" where
  "Value_int64 i64 =
     NumValue (NumberInt64Flag OR
       (if 0 <=s i64 then
          NumberUint64Flag OR
          (if i64 AND 0xFFFFFFFF00000000 = 0 then UintFlag else 0) OR
          (if i64 AND 0xFFFFFFFF80000000 = 0 then IntFlag else 0)
        else if 0xFFFFFFFF80000000 <=s i64 then IntFlag else 0)) i64"

definition Value_uint64 :: "u64 \<Rightarrow> Value" where
  "Value_uint64 u64 =
     NumValue (NumberUint64Flag OR
       (if u64 AND 0x8000000000000000 = 0 then Int64Flag else 0) OR
       (if u64 AND 0xFFFFFFFF00000000 = 0 then UintFlag else 0) OR
       (if u64 AND 0xFFFFFFFF80000000 = 0 then IntFlag else 0)) u64"

text \<open>
  Floats and doubles are kept by their bits. A float occupies the low half of the union; the
  upper half, which the constructor leaves as it was, is not read under these flags.
\<close>

definition Value_float :: "u32 \<Rightarrow> Value" where
  "Value_float f = NumValue NumberFloatFlag (ucast f)"

definition Value_double :: "u64 \<Rightarrow> Value" where
  "Value_double d = NumValue NumberDoubleFlag d"

subsection \<open>Strings\<close>

definition MaxChars :: nat where "MaxChars = 16"
definition MaxSize :: nat where "MaxSize = MaxChars - 1"
definition LenPos :: nat where "LenPos = MaxSize"

definition ss_Usable :: "nat \<Rightarrow> bool" where "ss_Usable len \<longleftrightarrow> MaxSize \<ge> len"

definition ss_SetLength :: "nat \<Rightarrow> bytes \<Rightarrow> bytes" where
  "ss_SetLength len str = str[LenPos := word_of_int (int MaxSize - int len)]"

definition ss_GetLength :: "bytes \<Rightarrow> nat" where
  "ss_GetLength str = nat (int MaxSize - sint (str ! LenPos))"

text \<open>The bytes of the union that are never written are 0 here; no operation reads them.\<close>

definition ss_raw :: bytes where "ss_raw = replicate MaxChars 0"

definition CopyString :: "bytes \<Rightarrow> Value" where
  "CopyString s =
     (if ss_Usable (length s)
      then ShortValue ShortStringFlag
             ((s @ drop (length s) (ss_SetLength (length s) ss_raw))[length s := 0])
      else StrValue CopyStringFlag s)"

definition CopyBinary :: "bytes \<Rightarrow> Value" where
  "CopyBinary s =
     (if ss_Usable (length s)
      then ShortValue ShortBinaryFlag (s @ drop (length s) (ss_SetLength (length s) ss_raw))
      else StrValue CopyBinaryFlag s)"

text \<open>\<^verbatim>\<open>strlen\<close> and the string up to the first null.\<close>

definition c_str :: "bytes \<Rightarrow> bytes" where
  "c_str mem = takeWhile (\<lambda>c. c \<noteq> 0) mem"

text \<open>
  Construction from a pointer: \<open>mem\<close> is the memory it points to. Without a copy the length form
  insists on the terminating null.
\<close>

definition Value_cstr :: "bytes \<Rightarrow> bool \<Rightarrow> Value" where
  "Value_cstr mem copy = (if copy then CopyString (c_str mem) else StrValue ConstStringFlag (c_str mem))"

definition Value_str :: "bytes \<Rightarrow> nat \<Rightarrow> bool \<Rightarrow> Value result" where
  "Value_str mem len copy =
     (if copy then (if len > length mem then Inl UndefinedBehaviour else Inr (CopyString (take len mem)))
      else if len \<ge> length mem then Inl UndefinedBehaviour
      else check_that (mem ! len = 0) AnyRpcErrorStringNotTerminated
             (Inr (StrValue ConstStringFlag (take len mem))))"

definition Value_string :: "bytes \<Rightarrow> Value" where
  "Value_string s = CopyString s"

definition Value_binary :: "bytes \<Rightarrow> bool \<Rightarrow> Value" where
  "Value_binary s copy = (if copy then CopyBinary s else StrValue ConstBinaryFlag s)"

definition Value_wstr :: "wchar list \<Rightarrow> Value result" where
  "Value_wstr ws = then_r (ConvertToUtf8 ws) (\<lambda>s. Inr (CopyString s))"

definition Value_type :: "u32 \<Rightarrow> Value result" where
  "Value_type type = check_that (type < ValueTypeSize) AnyRpcErrorValueAccess
     (Inr (if type = MapType then MapValue MapFlag 0 []
       else if type = ArrayType then ArrValue ArrayFlag 0 []
       else if type = StringType then ShortValue ShortStringFlag (ss_SetLength 0 ss_raw)
       else if type = BinaryType then ShortValue ShortBinaryFlag (ss_SetLength 0 ss_raw)
       else if type = NumberType then NumValue NumberAnyFlag 0
       else if type = DateTimeType then TimeValue DateTimeType 0
       else PlainValue (if type = NullType then NullFlag else if type = FalseType then FalseFlag
         else if type = TrueType then TrueFlag else InvalidFlag)))"

section \<open>Assignment and access\<close>

text \<open>The setters destroy the old value and construct a new one in its place.\<close>

definition SetInvalid :: "Value \<Rightarrow> Value" where "SetInvalid v = Destroy v"
definition SetNull :: "Value \<Rightarrow> Value" where "SetNull v = PlainValue NullFlag"
definition SetBool :: "bool \<Rightarrow> Value \<Rightarrow> Value" where
  "SetBool b v = PlainValue (if b then TrueFlag else FalseFlag)"
definition SetInt :: "32 word \<Rightarrow> Value \<Rightarrow> Value" where "SetInt i v = Value_int i"
definition SetUint :: "u32 \<Rightarrow> Value \<Rightarrow> Value" where "SetUint u v = Value_uint u"
definition SetInt64 :: "64 word \<Rightarrow> Value \<Rightarrow> Value" where "SetInt64 i64 v = Value_int64 i64"
definition SetUint64 :: "u64 \<Rightarrow> Value \<Rightarrow> Value" where "SetUint64 u64 v = Value_uint64 u64"
definition SetFloat :: "u32 \<Rightarrow> Value \<Rightarrow> Value" where "SetFloat f v = Value_float f"
definition SetDouble :: "u64 \<Rightarrow> Value \<Rightarrow> Value" where "SetDouble d v = Value_double d"
definition SetDateTime :: "u64 \<Rightarrow> Value \<Rightarrow> Value" where "SetDateTime dt v = TimeValue DateTimeType dt"
definition SetCString :: "bytes \<Rightarrow> bool \<Rightarrow> Value \<Rightarrow> Value" where
  "SetCString mem copy v = Value_cstr mem copy"
definition SetString :: "bytes \<Rightarrow> nat \<Rightarrow> bool \<Rightarrow> Value \<Rightarrow> Value result" where
  "SetString mem len copy v = Value_str mem len copy"
definition SetWString :: "wchar list \<Rightarrow> Value \<Rightarrow> Value result" where
  "SetWString ws v = Value_wstr ws"
definition SetBinary :: "bytes \<Rightarrow> bool \<Rightarrow> Value \<Rightarrow> Value" where
  "SetBinary s copy v = Value_binary s copy"
definition SetMap :: "Value \<Rightarrow> Value" where "SetMap v = MapValue MapFlag 0 []"
definition SetArray :: "Value \<Rightarrow> Value" where "SetArray v = ArrValue ArrayFlag 0 []"

text \<open>The union read under its flags; reading another member than the one written is undefined.\<close>

fun num_bits :: "Value \<Rightarrow> u64 result" where
  "num_bits (NumValue _ n) = Inr n"
| "num_bits _ = Inl UndefinedBehaviour"

definition string_data :: "Value \<Rightarrow> bytes result" where
  "string_data v =
     (if has_flag v InlineStrFlag
      then (case v of ShortValue _ str \<Rightarrow> Inr (take (ss_GetLength str) str) | _ \<Rightarrow> Inl UndefinedBehaviour)
      else (case v of StrValue _ str \<Rightarrow> Inr str | _ \<Rightarrow> Inl UndefinedBehaviour))"

definition GetBool :: "Value \<Rightarrow> bool result" where
  "GetBool v = check_that (IsBool v) AnyRpcErrorValueAccess (Inr (vflags v = TrueFlag))"

definition GetInt :: "Value \<Rightarrow> 32 word result" where
  "GetInt v = check_that (IsInt v) AnyRpcErrorValueAccess (then_r (num_bits v) (\<lambda>n. Inr (ucast n)))"
definition GetUint :: "Value \<Rightarrow> u32 result" where
  "GetUint v = check_that (IsUint v) AnyRpcErrorValueAccess (then_r (num_bits v) (\<lambda>n. Inr (ucast n)))"
definition GetInt64 :: "Value \<Rightarrow> 64 word result" where
  "GetInt64 v = check_that (IsInt64 v) AnyRpcErrorValueAccess (num_bits v)"
definition GetUint64 :: "Value \<Rightarrow> u64 result" where
  "GetUint64 v = check_that (IsUint64 v) AnyRpcErrorValueAccess (num_bits v)"

definition GetDateTime :: "Value \<Rightarrow> u64 result" where
  "GetDateTime v = check_that (IsDateTime v) AnyRpcErrorValueAccess
     (case v of TimeValue _ t \<Rightarrow> Inr t | _ \<Rightarrow> Inl UndefinedBehaviour)"

text \<open>\<^verbatim>\<open>GetString\<close> with the \<^verbatim>\<open>GetStringLength\<close> bytes at the pointer it returns.\<close>

definition GetString :: "Value \<Rightarrow> bytes result" where
  "GetString v = check_that (IsString v) AnyRpcErrorValueAccess (string_data v)"
definition GetStringLength :: "Value \<Rightarrow> nat result" where
  "GetStringLength v = then_r (GetString v) (\<lambda>s. Inr (length s))"
definition GetWString :: "Value \<Rightarrow> wchar list result" where
  "GetWString v = then_r (GetString v) ConvertFromUtf8"
definition GetBinary :: "Value \<Rightarrow> bytes result" where
  "GetBinary v = check_that (IsBinary v) AnyRpcErrorValueAccess (string_data v)"
definition GetBinaryLength :: "Value \<Rightarrow> nat result" where
  "GetBinaryLength v = then_r (GetBinary v) (\<lambda>s. Inr (length s))"

text \<open>Moves: the source becomes null. \<open>Assign\<close> between different objects.\<close>

definition RawAssign :: "Value \<Rightarrow> Value \<times> Value" where
  "RawAssign rhs = (rhs, PlainValue NullFlag)"

definition Assign :: "Value \<Rightarrow> Value \<Rightarrow> Value \<times> Value" where
  "Assign this v = RawAssign v"

section \<open>Maps\<close>

definition DefaultMapCapacity :: nat where "DefaultMapCapacity = 16"
definition MaxMapCapacity :: nat where "MaxMapCapacity = 16 * 1024 * 1024"

definition map_grow :: "nat \<Rightarrow> nat" where
  "map_grow capacity =
     (if capacity = 0 then DefaultMapCapacity
      else min (capacity + (capacity + 3) div 4) MaxMapCapacity)"

text \<open>Room for one more member; the result has the capacity and the members.\<close>

definition AddMemberCheckCapacity :: "Value \<Rightarrow> (nat \<times> (Value \<times> Value) list) result" where
  "AddMemberCheckCapacity v =
     (let v1 = (if IsInvalid v then SetMap v else v) in
      check_that (IsMap v1) AnyRpcErrorValueAccess
        (case v1 of
           MapValue _ capacity members \<Rightarrow>
             let capacity' = (if length members \<ge> capacity then map_grow capacity else capacity)
             in check_that (length members < capacity') AnyRpcErrorMemoryAllocation
                  (Inr (capacity', members))
         | _ \<Rightarrow> Inl UndefinedBehaviour))"

text \<open>
  \<^verbatim>\<open>AddMember\<close>: the new member is the last one. With a value, \<open>copied\<close> is what \<^verbatim>\<open>Set\<close> stores.
\<close>

definition AddMember_key :: "Value \<Rightarrow> bytes \<Rightarrow> nat \<Rightarrow> bool \<Rightarrow> Value result" where
  "AddMember_key v str len copy =
     then_r (AddMemberCheckCapacity v) (\<lambda>(capacity, members).
       then_r (SetString str len copy (PlainValue InvalidFlag)) (\<lambda>key.
         Inr (MapValue MapFlag capacity (members @ [(key, SetInvalid (PlainValue InvalidFlag))]))))"

definition AddMember_cstr :: "Value \<Rightarrow> bytes \<Rightarrow> bool \<Rightarrow> Value result" where
  "AddMember_cstr v str copy = AddMember_key v str (length (c_str str)) copy"

definition StringEqual :: "Value \<Rightarrow> Value \<Rightarrow> bool result" where
  "StringEqual v rhs =
     then_r (GetString v) (\<lambda>s1. then_r (GetString rhs) (\<lambda>s2. Inr (s1 = s2)))"

definition map_members :: "Value \<Rightarrow> (Value \<times> Value) list result" where
  "map_members v = (case v of MapValue _ _ ms \<Rightarrow> Inr ms | _ \<Rightarrow> Inl UndefinedBehaviour)"

definition MemberCount :: "Value \<Rightarrow> nat result" where
  "MemberCount v = check_that (IsMap v) AnyRpcErrorValueAccess
     (then_r (map_members v) (\<lambda>ms. Inr (length ms)))"

definition IsMapEmpty :: "Value \<Rightarrow> bool result" where
  "IsMapEmpty v = check_that (IsMap v) AnyRpcErrorValueAccess
     (then_r (map_members v) (\<lambda>ms. Inr (length ms = 0)))"

text \<open>
  Iterators: \<open>Some i\<close> points to member i, \<open>None\<close> is the null pointer (of a map with no
  allocation, or returned for an invalid value).
\<close>

type_synonym member_iterator = "nat option"

definition member_ptr :: "Value \<Rightarrow> nat \<Rightarrow> member_iterator" where
  "member_ptr v i = (case v of MapValue _ capacity _ \<Rightarrow> if capacity = 0 then None else Some i | _ \<Rightarrow> None)"

definition MemberBegin :: "Value \<Rightarrow> member_iterator result" where
  "MemberBegin v = check_that (IsMap v) AnyRpcErrorValueAccess (Inr (member_ptr v 0))"

definition MemberEnd :: "Value \<Rightarrow> member_iterator result" where
  "MemberEnd v = check_that (IsMap v) AnyRpcErrorValueAccess
     (then_r (map_members v) (\<lambda>ms. Inr (member_ptr v (length ms))))"

fun find_key :: "Value \<Rightarrow> (Value \<times> Value) list \<Rightarrow> nat \<Rightarrow> nat result" where
  "find_key key [] i = Inr i"
| "find_key key (m # ms) i =
     then_r (StringEqual key (fst m)) (\<lambda>eq. if eq then Inr i else find_key key ms (i + 1))"

definition FindMember :: "Value \<Rightarrow> Value \<Rightarrow> member_iterator result" where
  "FindMember v key =
     check_that (IsString key) AnyRpcErrorValueAccess
       (check_that (IsMap v \<or> IsInvalid v) AnyRpcErrorValueAccess
          (if \<not> IsMap v then Inr None
           else then_r (map_members v) (\<lambda>ms.
             then_r (find_key key ms 0) (\<lambda>i. Inr (member_ptr v i)))))"

definition FindMember_cstr :: "Value \<Rightarrow> bytes \<Rightarrow> member_iterator result" where
  "FindMember_cstr v str = FindMember v (Value_cstr str False)"

definition HasMember :: "Value \<Rightarrow> bytes \<Rightarrow> bool result" where
  "HasMember v str =
     then_r (FindMember_cstr v str) (\<lambda>it. then_r (MemberEnd v) (\<lambda>e. Inr (it \<noteq> e)))"

text \<open>\<^verbatim>\<open>operator[]\<close> on a key: the value afterwards and the index of the member referred to.\<close>

definition member_at :: "Value \<Rightarrow> bytes \<Rightarrow> (Value \<times> nat) result" where
  "member_at v str =
     (let add = then_r (AddMember_cstr v str True) (\<lambda>v'.
                  then_r (MemberCount v') (\<lambda>n. Inr (v', n - 1)))
      in if IsInvalid v then add
         else then_r (FindMember_cstr v str) (\<lambda>it. then_r (MemberEnd v) (\<lambda>e.
                if it \<noteq> e then (case it of Some i \<Rightarrow> Inr (v, i) | None \<Rightarrow> Inl UndefinedBehaviour)
                else add)))"

section \<open>Arrays\<close>

definition DefaultArrayCapacity :: nat where "DefaultArrayCapacity = 16"
definition MaxArrayCapacity :: nat where "MaxArrayCapacity = 16 * 1024 * 1024"

definition array_parts :: "Value \<Rightarrow> (nat \<times> Value list) result" where
  "array_parts v = check_that (IsArray v) AnyRpcErrorValueAccess
     (case v of ArrValue _ capacity xs \<Rightarrow> Inr (capacity, xs) | _ \<Rightarrow> Inl UndefinedBehaviour)"

definition Size :: "Value \<Rightarrow> nat result" where
  "Size v = then_r (array_parts v) (\<lambda>(capacity, xs). Inr (length xs))"
definition Capacity :: "Value \<Rightarrow> nat result" where
  "Capacity v = then_r (array_parts v) (\<lambda>(capacity, xs). Inr capacity)"
definition IsArrayEmpty :: "Value \<Rightarrow> bool result" where
  "IsArrayEmpty v = then_r (array_parts v) (\<lambda>(capacity, xs). Inr (length xs = 0))"

definition SetArray_n :: "nat \<Rightarrow> Value \<Rightarrow> Value result" where
  "SetArray_n capacity v = check_that (capacity < MaxArrayCapacity) AnyRpcErrorMemoryAllocation
     (Inr (ArrValue ArrayFlag capacity (replicate capacity (PlainValue 0))))"

definition Clear :: "Value \<Rightarrow> Value result" where
  "Clear v = then_r (array_parts v) (\<lambda>(capacity, xs). Inr (ArrValue ArrayFlag capacity []))"

definition Reserve :: "nat \<Rightarrow> Value \<Rightarrow> Value result" where
  "Reserve newCapacity v = then_r (array_parts v) (\<lambda>(capacity, xs).
     check_that (newCapacity < MaxArrayCapacity) AnyRpcErrorMemoryAllocation
       (Inr (ArrValue ArrayFlag (if newCapacity > capacity then newCapacity else capacity) xs)))"

definition SetSize :: "nat \<Rightarrow> Value \<Rightarrow> Value result" where
  "SetSize newSize v =
     (let v1 = (if IsInvalid v then SetArray v else v) in
      then_r (array_parts v1) (\<lambda>(capacity, xs).
        check_that (newSize < MaxArrayCapacity) AnyRpcErrorMemoryAllocation
          (Inr (ArrValue ArrayFlag (if newSize > capacity then newSize else capacity)
             (if newSize > length xs
              then xs @ replicate (newSize - length xs) (PlainValue InvalidFlag)
              else take newSize xs)))))"

text \<open>\<^verbatim>\<open>PushBack\<close> moves the argument: the array and what becomes of the argument.\<close>

definition PushBack :: "Value \<Rightarrow> Value \<Rightarrow> (Value \<times> Value) result" where
  "PushBack x v = then_r (array_parts v) (\<lambda>(capacity, xs).
     then_r (if length xs \<ge> capacity
             then Reserve (if capacity = 0 then DefaultArrayCapacity else capacity + (capacity + 1) div 2) v
             else Inr v) (\<lambda>v1.
       then_r (array_parts v1) (\<lambda>(capacity1, xs1).
         Inr (ArrValue ArrayFlag capacity1 (xs1 @ [fst (RawAssign x)]), snd (RawAssign x)))))"

text \<open>
  \<^verbatim>\<open>operator[]\<close> on an index, a \<^verbatim>\<open>size_t\<close>, so \<^verbatim>\<open>index+1\<close> wraps: the array afterwards, which
  has the element.
\<close>

definition index_at :: "Value \<Rightarrow> nat \<Rightarrow> Value result" where
  "index_at v index =
     (let v1 = (if IsInvalid v then SetArray v else v) in
      then_r (array_parts v1) (\<lambda>(capacity, xs).
        then_r (if index \<ge> length xs then SetSize ((index + 1) mod 2 ^ 64) v1 else Inr v1) (\<lambda>v2.
          then_r (array_parts v2) (\<lambda>(capacity2, xs2).
            check_that (index < length xs2) AnyRpcErrorIllegalArrayAccess (Inr v2)))))"

section \<open>Deep copy\<close>

text \<open>
  \<open>CopyInternal this v\<close>: what \<^verbatim>\<open>this\<close> becomes. Array elements are copied into the invalid values
  \<^verbatim>\<open>SetArray\<close> made, members are added one by one, their keys as null-terminated strings.
\<close>

fun CopyInternal :: "Value \<Rightarrow> Value \<Rightarrow> Value result"
and copy_elements :: "Value list \<Rightarrow> Value list result"
and copy_members :: "(Value \<times> Value) list \<Rightarrow> Value \<Rightarrow> Value result" where
  "CopyInternal this v =
     (let t = GetType v in
      if t = InvalidType \<or> t = NullType \<or> t = FalseType \<or> t = TrueType \<or> t = NumberType \<or> t = DateTimeType
      then Inr v
      else if t = StringType then then_r (string_data v) (\<lambda>s. Inr (CopyString s))
      else if t = BinaryType then then_r (string_data v) (\<lambda>s. Inr (CopyBinary s))
      else if t = ArrayType then
        (case v of
           ArrValue _ _ xs \<Rightarrow>
             then_r (SetArray_n (length xs) this) (\<lambda>_.
               then_r (copy_elements xs) (\<lambda>ys. Inr (ArrValue ArrayFlag (length xs) ys)))
         | _ \<Rightarrow> Inl UndefinedBehaviour)
      else if t = MapType then
        (case v of
           MapValue _ _ ms \<Rightarrow> copy_members ms (SetMap this)
         | _ \<Rightarrow> Inl UndefinedBehaviour)
      else Inr this)"
| "copy_elements [] = Inr []"
| "copy_elements (x # xs) =
     then_r (CopyInternal (PlainValue 0) x) (\<lambda>y. then_r (copy_elements xs) (\<lambda>ys. Inr (y # ys)))"
| "copy_members [] this = Inr this"
| "copy_members ((key, x) # ms) this =
     then_r (GetString key) (\<lambda>str.
       then_r (AddMemberCheckCapacity this) (\<lambda>(capacity, members).
         then_r (CopyInternal (PlainValue InvalidFlag) x) (\<lambda>y.
           copy_members ms (MapValue MapFlag capacity (members @ [(CopyString (c_str str), y)])))))"

definition Copy :: "Value \<Rightarrow> Value \<Rightarrow> Value result" where
  "Copy this v = CopyInternal this v"

text \<open>\<^verbatim>\<open>Set\<close> by copy or by move: the new \<^verbatim>\<open>this\<close> and what becomes of the argument.\<close>

definition Set_value :: "Value \<Rightarrow> Value \<Rightarrow> bool \<Rightarrow> (Value \<times> Value) result" where
  "Set_value this v copy =
     (if copy then then_r (CopyInternal this v) (\<lambda>t. Inr (t, v)) else Inr (RawAssign v))"

definition AddMember :: "Value \<Rightarrow> bytes \<Rightarrow> nat \<Rightarrow> Value \<Rightarrow> bool \<Rightarrow> (Value \<times> Value) result" where
  "AddMember v str len x copy =
     then_r (AddMemberCheckCapacity v) (\<lambda>(capacity, members).
       then_r (SetString str len copy (PlainValue InvalidFlag)) (\<lambda>key.
         then_r (Set_value (PlainValue InvalidFlag) x copy) (\<lambda>(y, x').
           Inr (MapValue MapFlag capacity (members @ [(key, y)]), x'))))"

definition AddMember_value :: "Value \<Rightarrow> Value \<Rightarrow> Value \<Rightarrow> bool \<Rightarrow> (Value \<times> Value \<times> Value) result" where
  "AddMember_value v key x copy =
     check_that (IsString key) AnyRpcErrorValueAccess
       (then_r (AddMemberCheckCapacity v) (\<lambda>(capacity, members).
         then_r (Set_value (PlainValue InvalidFlag) key copy) (\<lambda>(k, key').
           then_r (Set_value (PlainValue InvalidFlag) x copy) (\<lambda>(y, x').
             Inr (MapValue MapFlag capacity (members @ [(k, y)]), key', x')))))"

section \<open>Conversion from Base64\<close>

text \<open>
  Decoding is done in place. \<open>None\<close> is the return value \<^verbatim>\<open>false\<close>; the bytes of the string may
  then have been overwritten. A decoded length of 0 counts as a failure.
\<close>

definition ConvertBase64 :: "Value \<Rightarrow> Value option result" where
  "ConvertBase64 v =
     then_r (GetString v) (\<lambda>str.
       (case Base64DecodeBuffer [] str of
          None \<Rightarrow> Inr None
        | Some out \<Rightarrow>
            if length out = 0 then Inr None
            else (let f = (vflags v AND (CopyFlag OR InlineStrFlag)) OR BinaryType OR BinaryFlag in
              Inr (Some (if f = ShortBinaryFlag
                then (case v of
                  ShortValue _ a \<Rightarrow> ShortValue f (ss_SetLength (length out) (out @ drop (length out) a))
                | _ \<Rightarrow> StrValue f out)
                else StrValue f out)))))"

section \<open>Numbers\<close>

text \<open>
  The value that represents the integer z: its flags are the ranges z lies in. All integer
  constructors build this value, whatever type they are called with.
\<close>

definition int_flags :: "int \<Rightarrow> u32" where
  "int_flags z = NumberType OR NumberFlag
     OR (if - (2 ^ 31) \<le> z \<and> z < 2 ^ 31 then IntFlag else 0)
     OR (if 0 \<le> z \<and> z < 2 ^ 32 then UintFlag else 0)
     OR (if - (2 ^ 63) \<le> z \<and> z < 2 ^ 63 then Int64Flag else 0)
     OR (if 0 \<le> z \<and> z < 2 ^ 64 then Uint64Flag else 0)"

definition mk_int :: "int \<Rightarrow> Value" where
  "mk_int z = NumValue (int_flags z) (word_of_int z)"

lemma and_high_mask: "w AND NOT (mask n) = 0 \<longleftrightarrow> uint w < 2 ^ n" for w :: "'a::len word"
proof -
  have "w AND NOT (mask n) = 0 \<longleftrightarrow> (\<forall>k < LENGTH('a). bit w k \<longrightarrow> k < n)"
    by (auto simp: bit_eq_iff bit_simps possible_bit_word)
  also have "\<dots> \<longleftrightarrow> take_bit n w = w"
    by (auto simp: bit_eq_iff bit_simps possible_bit_word)
  also have "\<dots> \<longleftrightarrow> take_bit n (uint w) = uint w"
    by (simp add: word_uint_eq_iff unsigned_take_bit_eq)
  also have "\<dots> \<longleftrightarrow> uint w < 2 ^ n"
    by (simp add: take_bit_int_eq_self_iff)
  finally show ?thesis .
qed

lemma high_masks:
  "u AND 0x80000000 = 0 \<longleftrightarrow> uint u < 2 ^ 31"
  "w AND 0xFFFFFFFF00000000 = 0 \<longleftrightarrow> uint w < 2 ^ 32"
  "w AND 0xFFFFFFFF80000000 = 0 \<longleftrightarrow> uint w < 2 ^ 31"
  "w AND 0x8000000000000000 = 0 \<longleftrightarrow> uint w < 2 ^ 63"
  for u :: u32 and w :: u64
proof -
  have m: "(0x80000000 :: u32) = NOT (mask 31)" "(0xFFFFFFFF00000000 :: u64) = NOT (mask 32)"
    "(0xFFFFFFFF80000000 :: u64) = NOT (mask 31)" "(0x8000000000000000 :: u64) = NOT (mask 63)"
    by code_simp+
  show "u AND 0x80000000 = 0 \<longleftrightarrow> uint u < 2 ^ 31"
    "w AND 0xFFFFFFFF00000000 = 0 \<longleftrightarrow> uint w < 2 ^ 32"
    "w AND 0xFFFFFFFF80000000 = 0 \<longleftrightarrow> uint w < 2 ^ 31"
    "w AND 0x8000000000000000 = 0 \<longleftrightarrow> uint w < 2 ^ 63"
    unfolding m by (rule and_high_mask)+
qed

lemma sint_range32: "- (2 ^ 31) \<le> sint i" "sint i < 2 ^ 31" for i :: "32 word"
  using sint_ge [of i] sint_lt [of i] by simp_all

lemma sint_range64: "- (2 ^ 63) \<le> sint i" "sint i < 2 ^ 63" for i :: "64 word"
  using sint_ge [of i] sint_lt [of i] by simp_all

lemma uint_range: "uint u < 2 ^ 32" "uint w < 2 ^ 64" for u :: u32 and w :: u64
  using unsigned_less [of u] unsigned_less [of w] by simp_all

lemma uint_of_int: "0 \<le> z \<Longrightarrow> z < 2 ^ LENGTH('a) \<Longrightarrow> uint (word_of_int z :: 'a::len word) = z"
  by (simp add: unsigned_of_int take_bit_int_eq_self)

lemma sint_of_int:
  "- (2 ^ (LENGTH('a) - 1)) \<le> z \<Longrightarrow> z < 2 ^ (LENGTH('a) - 1) \<Longrightarrow> sint (word_of_int z :: 'a::len word) = z"
  by (simp add: signed_of_int signed_take_bit_int_eq_self)

lemma uint_lower: "- 2147483648 \<le> uint w" "- 9223372036854775808 \<le> uint w" for w :: "'a::len word"
  using uint_ge_0 [of w] by linarith+

text \<open>The four integer constructors build the canonical value.\<close>

lemma Value_int_canonical: "Value_int i = mk_int (sint i)"
  using sint_range32 [of i]
  by (simp add: Value_int_def mk_int_def int_flags_def flag_values word_sle_eq)

lemma Value_uint_canonical: "Value_uint u = mk_int (uint u)"
  using uint_range(1) [of u] uint_lower [of u]
  by (simp add: Value_uint_def mk_int_def int_flags_def flag_values high_masks)

lemma Value_int64_canonical: "Value_int64 w = mk_int (sint w)"
  using sint_range64 [of w] sint_uint_nonneg [of w]
  by (simp add: Value_int64_def mk_int_def int_flags_def flag_values high_masks word_sle_eq)

lemma Value_uint64_canonical: "Value_uint64 w = mk_int (uint w)"
  using uint_range(2) [of w] uint_lower [of w]
  by (simp add: Value_uint64_def mk_int_def int_flags_def flag_values high_masks)

lemma mk_int_tests:
  "IsInt (mk_int z) \<longleftrightarrow> - (2 ^ 31) \<le> z \<and> z < 2 ^ 31"
  "IsUint (mk_int z) \<longleftrightarrow> 0 \<le> z \<and> z < 2 ^ 32"
  "IsInt64 (mk_int z) \<longleftrightarrow> - (2 ^ 63) \<le> z \<and> z < 2 ^ 63"
  "IsUint64 (mk_int z) \<longleftrightarrow> 0 \<le> z \<and> z < 2 ^ 64"
  "IsNumber (mk_int z)" "\<not> IsFloat (mk_int z)" "\<not> IsDouble (mk_int z)" "GetType (mk_int z) = NumberType"
  by (simp_all add: mk_int_def int_flags_def type_tests flag_values)

text \<open>Reading an integer back with any getter whose test succeeds gives the integer.\<close>

lemma ucast_word_of_int: "(ucast (word_of_int z :: 'a::len word) :: 'b::len word) = word_of_int z"
  if "LENGTH('b) \<le> LENGTH('a)"
  using that by (simp add: word_uint_eq_iff unsigned_ucast_eq unsigned_of_int min_def)

lemma mk_int_get:
  "- (2 ^ 31) \<le> z \<Longrightarrow> z < 2 ^ 31 \<Longrightarrow> \<exists>i. GetInt (mk_int z) = Inr i \<and> sint i = z"
  "0 \<le> z \<Longrightarrow> z < 2 ^ 32 \<Longrightarrow> \<exists>u. GetUint (mk_int z) = Inr u \<and> uint u = z"
  "- (2 ^ 63) \<le> z \<Longrightarrow> z < 2 ^ 63 \<Longrightarrow> \<exists>w. GetInt64 (mk_int z) = Inr w \<and> sint w = z"
  "0 \<le> z \<Longrightarrow> z < 2 ^ 64 \<Longrightarrow> \<exists>w. GetUint64 (mk_int z) = Inr w \<and> uint w = z"
  unfolding GetInt_def GetUint_def GetInt64_def GetUint64_def
  by (simp_all add: mk_int_tests, simp_all add: mk_int_def ucast_word_of_int sint_of_int uint_of_int)

section \<open>Short strings\<close>

lemma ss_length_table: "\<forall>n \<in> set [0..<16]. ss_GetLength (ss_SetLength n ss_raw) = n"
  by code_simp

lemma CopyString_short:
  assumes "length s \<le> 15"
  shows "\<exists>a. CopyString s = ShortValue ShortStringFlag a \<and> length a = 16 \<and> ss_GetLength a = length s
    \<and> take (length s) a = s \<and> a ! length s = 0"
proof -
  define a where "a = (s @ drop (length s) (ss_SetLength (length s) ss_raw))[length s := 0]"
  have len: "length a = 16"
    using assms by (simp add: a_def ss_SetLength_def ss_raw_def MaxChars_def)
  have last: "a ! 15 = ss_SetLength (length s) ss_raw ! 15"
  proof (cases "length s = 15")
    case True
    then show ?thesis by (simp add: a_def ss_SetLength_def ss_raw_def MaxChars_def MaxSize_def LenPos_def
      nth_append)
  next
    case False
    with assms show ?thesis by (simp add: a_def nth_append ss_SetLength_def ss_raw_def MaxChars_def)
  qed
  have "ss_GetLength (ss_SetLength (length s) ss_raw) = length s"
    using ss_length_table assms by simp
  with last have "ss_GetLength a = length s"
    by (simp add: ss_GetLength_def LenPos_def MaxSize_def MaxChars_def)
  moreover have "CopyString s = ShortValue ShortStringFlag a"
    using assms by (simp add: CopyString_def ss_Usable_def MaxSize_def MaxChars_def a_def)
  moreover have "take (length s) a = s" "a ! length s = 0"
    using len assms by (simp_all add: a_def)
  ultimately show ?thesis using len by blast
qed

lemma CopyBinary_short:
  assumes "length s \<le> 15"
  shows "\<exists>a. CopyBinary s = ShortValue ShortBinaryFlag a \<and> length a = 16 \<and> ss_GetLength a = length s
    \<and> take (length s) a = s"
proof -
  define a where "a = s @ drop (length s) (ss_SetLength (length s) ss_raw)"
  have len: "length a = 16"
    using assms by (simp add: a_def ss_SetLength_def ss_raw_def MaxChars_def)
  have "a ! 15 = ss_SetLength (length s) ss_raw ! 15"
    using assms by (simp add: a_def nth_append ss_SetLength_def ss_raw_def MaxChars_def)
  moreover have "ss_GetLength (ss_SetLength (length s) ss_raw) = length s"
    using ss_length_table assms by simp
  ultimately have "ss_GetLength a = length s"
    by (simp add: ss_GetLength_def LenPos_def MaxSize_def MaxChars_def)
  moreover have "CopyBinary s = ShortValue ShortBinaryFlag a"
    using assms by (simp add: CopyBinary_def ss_Usable_def MaxSize_def MaxChars_def a_def)
  moreover have "take (length s) a = s" by (simp add: a_def)
  ultimately show ?thesis using len by blast
qed

lemma CopyString_long: "length s > 15 \<Longrightarrow> CopyString s = StrValue CopyStringFlag s"
  by (simp add: CopyString_def ss_Usable_def MaxSize_def MaxChars_def)

lemma CopyBinary_long: "length s > 15 \<Longrightarrow> CopyBinary s = StrValue CopyBinaryFlag s"
  by (simp add: CopyBinary_def ss_Usable_def MaxSize_def MaxChars_def)

section \<open>Well-formed values and what they stand for\<close>

text \<open>
  \<open>value_ok\<close>: the union member agrees with the flags, a short string keeps its length and its
  terminator, elements and members are within their capacity and keys are strings.
\<close>

fun value_ok :: "Value \<Rightarrow> bool" where
  "value_ok (PlainValue f) \<longleftrightarrow> f = InvalidFlag \<or> f = NullFlag \<or> f = TrueFlag \<or> f = FalseFlag"
| "value_ok (NumValue f n) \<longleftrightarrow> f = int_flags (sint n) \<or> f = int_flags (uint n)
     \<or> f = NumberFloatFlag \<or> f = NumberDoubleFlag \<or> f = NumberAnyFlag \<and> n = 0"
| "value_ok (TimeValue f _) \<longleftrightarrow> f = DateTimeType"
| "value_ok (StrValue f _) \<longleftrightarrow> f = ConstStringFlag \<or> f = CopyStringFlag \<or> f = ConstBinaryFlag \<or> f = CopyBinaryFlag"
| "value_ok (ShortValue f a) \<longleftrightarrow> (f = ShortStringFlag \<or> f = ShortBinaryFlag) \<and> length a = 16
     \<and> ss_GetLength a \<le> 15 \<and> (f = ShortStringFlag \<longrightarrow> a ! ss_GetLength a = 0)"
| "value_ok (ArrValue f capacity xs) \<longleftrightarrow> f = ArrayFlag \<and> length xs \<le> capacity
     \<and> capacity < MaxArrayCapacity \<and> (\<forall>x \<in> set xs. value_ok x)"
| "value_ok (MapValue f capacity ms) \<longleftrightarrow> f = MapFlag \<and> length ms \<le> capacity
     \<and> capacity \<le> MaxMapCapacity \<and> (\<forall>m \<in> set ms. IsString (fst m) \<and> value_ok (fst m) \<and> value_ok (snd m))"

datatype aval =
    AInvalid | ANull | ABool bool | AInt int | AFloat u32 | ADouble u64 | ATime u64
  | AStr bytes | ABin bytes | AArr "aval list" | AMap "(bytes \<times> aval) list"

fun str_bytes :: "Value \<Rightarrow> bytes" where
  "str_bytes (StrValue _ s) = s"
| "str_bytes (ShortValue _ a) = take (ss_GetLength a) a"
| "str_bytes _ = []"

fun abs_value :: "Value \<Rightarrow> aval" where
  "abs_value (PlainValue f) =
     (if f = NullFlag then ANull else if f = TrueFlag then ABool True
      else if f = FalseFlag then ABool False else AInvalid)"
| "abs_value (NumValue f n) =
     (if f AND IntFlag \<noteq> 0 then AInt (sint (ucast n :: 32 word))
      else if f AND UintFlag \<noteq> 0 then AInt (uint (ucast n :: u32))
      else if f AND Int64Flag \<noteq> 0 then AInt (sint n)
      else if f AND Uint64Flag \<noteq> 0 then AInt (uint n)
      else if f AND DoubleFlag \<noteq> 0 then ADouble n
      else AFloat (ucast n))"
| "abs_value (TimeValue _ t) = ATime t"
| "abs_value (StrValue f s) = (if f AND StringFlag \<noteq> 0 then AStr s else ABin s)"
| "abs_value (ShortValue f a) =
     (if f AND StringFlag \<noteq> 0 then AStr (take (ss_GetLength a) a) else ABin (take (ss_GetLength a) a))"
| "abs_value (ArrValue _ _ xs) = AArr (map abs_value xs)"
| "abs_value (MapValue _ _ ms) = AMap (map (\<lambda>m. (str_bytes (fst m), abs_value (snd m))) ms)"

lemma CopyString_spec:
  "value_ok (CopyString s) \<and> IsString (CopyString s) \<and> abs_value (CopyString s) = AStr s
     \<and> str_bytes (CopyString s) = s"
proof (cases "length s \<le> 15")
  case True
  then show ?thesis using CopyString_short [OF True] by (auto simp: type_tests flag_values)
next
  case False
  then show ?thesis by (simp add: CopyString_long type_tests flag_values)
qed

lemma CopyBinary_spec: "value_ok (CopyBinary s) \<and> IsBinary (CopyBinary s) \<and> abs_value (CopyBinary s) = ABin s"
proof (cases "length s \<le> 15")
  case True
  then show ?thesis using CopyBinary_short [OF True] by (auto simp: type_tests flag_values)
next
  case False
  then show ?thesis by (simp add: CopyBinary_long type_tests flag_values)
qed

lemma int_flags_cases [simp]:
  "int_flags z AND 0xFF = NumberType" "int_flags z \<noteq> InvalidType" "int_flags z AND StringFlag = 0"
  "int_flags z AND BinaryFlag = 0"
  by (simp_all add: int_flags_def flag_values)

lemma mk_int_spec:
  assumes "- (2 ^ 63) \<le> z" "z < 2 ^ 64"
  shows "value_ok (mk_int z) \<and> abs_value (mk_int z) = AInt z"
proof -
  consider "z < 2 ^ 63" | "2 ^ 63 \<le> z" by linarith
  then have "sint (word_of_int z :: u64) = z \<or> uint (word_of_int z :: u64) = z"
    using assms by cases (simp_all add: sint_of_int uint_of_int)
  moreover have "abs_value (mk_int z) = AInt z"
    using assms
    by (auto simp: mk_int_def int_flags_def ucast_word_of_int sint_of_int uint_of_int)
  ultimately show ?thesis by (auto simp: mk_int_def)
qed

text \<open>The constructor behind a successful type test.\<close>

lemma value_ok_shapes:
  assumes "value_ok v"
  shows "IsMap v \<longleftrightarrow> (\<exists>c ms. v = MapValue MapType c ms)"
    "IsArray v \<longleftrightarrow> (\<exists>c xs. v = ArrValue ArrayType c xs)"
    "IsInvalid v \<longleftrightarrow> v = PlainValue 0"
proof -
  show "IsMap v \<longleftrightarrow> (\<exists>c ms. v = MapValue MapType c ms)"
    "IsArray v \<longleftrightarrow> (\<exists>c xs. v = ArrValue ArrayType c xs)"
    "IsInvalid v \<longleftrightarrow> v = PlainValue 0"
    using assms by (cases v; auto simp: IsMap_def IsArray_def IsInvalid_def GetType_def)+
qed

lemma value_ok_bytes:
  assumes "value_ok v"
  shows "IsString v \<Longrightarrow> GetString v = Inr (str_bytes v) \<and> abs_value v = AStr (str_bytes v)"
    "IsBinary v \<Longrightarrow> GetBinary v = Inr (str_bytes v) \<and> abs_value v = ABin (str_bytes v)"
proof -
  have "has_flag v StringFlag \<Longrightarrow> string_data v = Inr (str_bytes v) \<and> abs_value v = AStr (str_bytes v)"
    "has_flag v BinaryFlag \<Longrightarrow> string_data v = Inr (str_bytes v) \<and> abs_value v = ABin (str_bytes v)"
    using assms by (cases v; auto simp: has_flag_def string_data_def)+
  then show "IsString v \<Longrightarrow> GetString v = Inr (str_bytes v) \<and> abs_value v = AStr (str_bytes v)"
    "IsBinary v \<Longrightarrow> GetBinary v = Inr (str_bytes v) \<and> abs_value v = ABin (str_bytes v)"
    by (simp_all add: GetString_def GetBinary_def IsString_def IsBinary_def)
qed

lemma MapValue_tests [simp]:
  "IsMap (MapValue MapType c ms)" "\<not> IsInvalid (MapValue MapType c ms)" "\<not> IsString (MapValue MapType c ms)"
  "\<not> IsArray (MapValue MapType c ms)" "map_members (MapValue MapType c ms) = Inr ms"
  by (simp_all add: type_tests flag_values map_members_def)

lemma ArrValue_tests [simp]:
  "IsArray (ArrValue ArrayType c xs)" "\<not> IsInvalid (ArrValue ArrayType c xs)" "\<not> IsString (ArrValue ArrayType c xs)"
  "\<not> IsMap (ArrValue ArrayType c xs)" "array_parts (ArrValue ArrayType c xs) = Inr (c, xs)"
  by (simp_all add: type_tests flag_values array_parts_def)

lemma Invalid_tests [simp]:
  "IsInvalid (PlainValue 0)" "\<not> IsMap (PlainValue 0)" "\<not> IsArray (PlainValue 0)" "\<not> IsString (PlainValue 0)"
  "value_ok (PlainValue 0)" "abs_value (PlainValue 0) = AInvalid"
  by (simp_all add: type_tests flag_values)

section \<open>Map operations on lists of members\<close>

definition members_of :: "Value \<Rightarrow> (Value \<times> Value) list" where
  "members_of v = (case v of MapValue _ _ ms \<Rightarrow> ms | _ \<Rightarrow> [])"

lemma members_of_simps [simp]:
  "members_of (MapValue f c ms) = ms" "members_of (PlainValue f) = []" "members_of (NumValue f n) = []"
  "members_of (TimeValue f n) = []" "members_of (StrValue f s) = []" "members_of (ShortValue f s) = []"
  "members_of (ArrValue f c xs) = []"
  by (simp_all add: members_of_def)

lemma map_grow_bounds: "c < MaxMapCapacity \<Longrightarrow> c < map_grow c \<and> map_grow c \<le> MaxMapCapacity"
  by (auto simp: map_grow_def DefaultMapCapacity_def MaxMapCapacity_def min_def)

lemma AddMemberCheckCapacity_ok:
  assumes "value_ok v" "IsMap v \<or> IsInvalid v" "length (members_of v) < MaxMapCapacity"
  shows "\<exists>c. AddMemberCheckCapacity v = Inr (c, members_of v) \<and> length (members_of v) < c \<and> c \<le> MaxMapCapacity"
proof -
  have *: "\<exists>c'. AddMemberCheckCapacity (MapValue MapType c ms) = Inr (c', ms) \<and> length ms < c' \<and> c' \<le> MaxMapCapacity"
    if "length ms \<le> c" "c \<le> MaxMapCapacity" "length ms < MaxMapCapacity" for c ms
    using that map_grow_bounds [of c] by (auto simp: AddMemberCheckCapacity_def Let_def)
  show ?thesis
  proof (cases "IsMap v")
    case True
    then show ?thesis using assms value_ok_shapes(1) [OF assms(1)] * by auto
  next
    case False
    then have "v = PlainValue 0" using assms value_ok_shapes(3) [OF assms(1)] by auto
    then show ?thesis using * [of "[]" 0]
      by (simp add: AddMemberCheckCapacity_def SetMap_def MaxMapCapacity_def)
  qed
qed

lemma AddMemberCheckCapacity_full:
  "value_ok v \<Longrightarrow> length (members_of v) = MaxMapCapacity \<Longrightarrow> IsMap v \<Longrightarrow>
   AddMemberCheckCapacity v = Inl AnyRpcErrorMemoryAllocation"
  using value_ok_shapes(1) [of v]
  by (auto simp: AddMemberCheckCapacity_def Let_def map_grow_def MaxMapCapacity_def min_def)

lemma take_c_str: "take (length (c_str m)) m = c_str m"
  by (simp add: c_str_def takeWhile_eq_take [symmetric])

lemma length_c_str: "length (c_str m) \<le> length m"
  by (simp add: c_str_def length_takeWhile_le)

lemma AddMember_cstr_ok:
  assumes "value_ok v" "IsMap v \<or> IsInvalid v" "length (members_of v) < MaxMapCapacity"
  shows "\<exists>v'. AddMember_cstr v m True = Inr v' \<and> value_ok v' \<and> IsMap v'
    \<and> members_of v' = members_of v @ [(CopyString (c_str m), PlainValue 0)]"
proof -
  obtain c where c: "AddMemberCheckCapacity v = Inr (c, members_of v)" "length (members_of v) < c"
    "c \<le> MaxMapCapacity" using AddMemberCheckCapacity_ok [OF assms] by blast
  have "\<forall>x \<in> set (members_of v). IsString (fst x) \<and> value_ok (fst x) \<and> value_ok (snd x)"
    using assms(1) by (cases v) simp_all
  with c CopyString_spec [of "c_str m"] show ?thesis
    by (auto simp: AddMember_cstr_def AddMember_key_def SetString_def Value_str_def take_c_str
      length_c_str SetInvalid_def Destroy_def not_less)
qed

lemma find_key_first:
  assumes "GetString key = Inr k" "\<forall>m \<in> set ms. IsString (fst m) \<and> value_ok (fst m)"
  shows "find_key key ms n = Inr (n + length (takeWhile (\<lambda>m. str_bytes (fst m) \<noteq> k) ms))"
  using assms(2)
proof (induction ms arbitrary: n)
  case (Cons m ms)
  then have "GetString (fst m) = Inr (str_bytes (fst m))" using value_ok_bytes(1) by auto
  with Cons assms(1) show ?case by (auto simp: StringEqual_def)
qed simp

definition member_index :: "bytes \<Rightarrow> (Value \<times> Value) list \<Rightarrow> nat" where
  "member_index k ms = length (takeWhile (\<lambda>m. str_bytes (fst m) \<noteq> k) ms)"

lemma member_index_le: "member_index k ms \<le> length ms"
  by (simp add: member_index_def length_takeWhile_le)

lemma member_index_found:
  "member_index k ms < length ms \<longleftrightarrow> k \<in> str_bytes ` fst ` set ms"
proof -
  have "member_index k ms = length ms \<longleftrightarrow> k \<notin> str_bytes ` fst ` set ms"
    unfolding member_index_def by (induction ms) auto
  then show ?thesis using member_index_le [of k ms] by linarith
qed

lemma member_index_key:
  "member_index k ms < length ms \<Longrightarrow> str_bytes (fst (ms ! member_index k ms)) = k"
  unfolding member_index_def using nth_length_takeWhile [of "\<lambda>m. str_bytes (fst m) \<noteq> k" ms] by simp

lemma cstr_key: "GetString (Value_cstr m False) = Inr (c_str m) \<and> IsString (Value_cstr m False)"
  by (simp add: Value_cstr_def GetString_def string_data_def type_tests flag_values)

lemma FindMember_map:
  assumes "value_ok (MapValue MapType c ms)"
  shows "FindMember_cstr (MapValue MapType c ms) m
    = Inr (if c = 0 then None else Some (member_index (c_str m) ms))"
  using assms cstr_key [of m] find_key_first [of "Value_cstr m False" "c_str m" ms 0]
  by (simp add: FindMember_cstr_def FindMember_def member_index_def member_ptr_def)

lemma HasMember_map:
  assumes "value_ok v" "IsMap v"
  shows "HasMember v m = Inr (c_str m \<in> str_bytes ` fst ` set (members_of v))"
proof -
  obtain c ms where v: "v = MapValue MapType c ms" using assms value_ok_shapes(1) by blast
  with assms have "c = 0 \<Longrightarrow> ms = []" by simp
  with assms(1) show ?thesis
    using member_index_found [of "c_str m" ms] member_index_le [of "c_str m" ms]
    by (auto simp: v HasMember_def FindMember_map MemberEnd_def member_ptr_def)
qed

text \<open>
  \<^verbatim>\<open>v[str]\<close> on a map (or an invalid value, which becomes one): the first member with the key, or
  a new invalid member at the end.
\<close>

lemma member_at_spec:
  assumes "value_ok v" "IsMap v \<or> IsInvalid v" "length (members_of v) < MaxMapCapacity"
  shows "\<exists>v'. member_at v m = Inr (v', member_index (c_str m) (members_of v)) \<and> value_ok v' \<and> IsMap v'
    \<and> members_of v' = (if c_str m \<in> str_bytes ` fst ` set (members_of v) then members_of v
        else members_of v @ [(CopyString (c_str m), PlainValue 0)])"
proof -
  let ?k = "c_str m" and ?ms = "members_of v"
  obtain v' where v': "AddMember_cstr v m True = Inr v'" "value_ok v'" "IsMap v'"
    "members_of v' = ?ms @ [(CopyString ?k, PlainValue 0)]"
    using AddMember_cstr_ok [OF assms] by blast
  then have count: "MemberCount v' = Inr (Suc (length ?ms))"
    using value_ok_shapes(1) [OF v'(2)] by (auto simp: MemberCount_def)
  have new: "member_index ?k ?ms = length ?ms" if "?k \<notin> str_bytes ` fst ` set ?ms"
    using that member_index_found [of ?k ?ms] member_index_le [of ?k ?ms] by linarith
  show ?thesis
  proof (cases "IsInvalid v")
    case True
    then have "?ms = []" using value_ok_shapes(3) [OF assms(1)] by auto
    with True v' count new show ?thesis by (simp add: member_at_def)
  next
    case False
    with assms(2) obtain c where v: "v = MapValue MapType c ?ms"
      using value_ok_shapes(1) [OF assms(1)] by auto
    with assms(1) have ok: "value_ok (MapValue MapType c ?ms)" by simp
    then have c0: "c = 0 \<Longrightarrow> ?ms = []" by simp
    have find: "FindMember_cstr v m = Inr (if c = 0 then None else Some (member_index ?k ?ms))"
      using FindMember_map [OF ok] v by simp
    have last: "MemberEnd v = Inr (if c = 0 then None else Some (length ?ms))"
      by (subst v, subst MemberEnd_def) (simp add: member_ptr_def)
    show ?thesis
    proof (cases "?k \<in> str_bytes ` fst ` set ?ms")
      case True
      then have "member_index ?k ?ms < length ?ms" by (simp add: member_index_found)
      with True False find last assms(1,2) c0 show ?thesis by (auto simp: member_at_def)
    next
      case notin: False
      with False find last v' count new show ?thesis by (auto simp: member_at_def)
    qed
  qed
qed

section \<open>Array operations on lists of elements\<close>

definition elements_of :: "Value \<Rightarrow> Value list" where
  "elements_of v = (case v of ArrValue _ _ xs \<Rightarrow> xs | _ \<Rightarrow> [])"

lemma elements_of_simps [simp]:
  "elements_of (ArrValue f c xs) = xs" "elements_of (PlainValue f) = []"
  by (simp_all add: elements_of_def)

lemma SetSize_spec:
  assumes "value_ok v" "IsArray v \<or> IsInvalid v" "n < MaxArrayCapacity"
  shows "\<exists>v'. SetSize n v = Inr v' \<and> value_ok v' \<and> IsArray v'
    \<and> elements_of v' = take n (elements_of v) @ replicate (n - length (elements_of v)) (PlainValue 0)"
proof -
  have *: "\<exists>v'. SetSize n (ArrValue ArrayType c xs) = Inr v' \<and> value_ok v' \<and> IsArray v'
      \<and> elements_of v' = take n xs @ replicate (n - length xs) (PlainValue 0)"
    if "value_ok (ArrValue ArrayType c xs)" for c xs
    using that assms(3) by (auto simp: SetSize_def Let_def dest: in_set_takeD)
  show ?thesis
  proof (cases "IsArray v")
    case True
    then show ?thesis using * assms(1) value_ok_shapes(2) [OF assms(1)] by auto
  next
    case False
    then have "v = PlainValue 0" using assms value_ok_shapes(3) by auto
    then show ?thesis using * [of 0 "[]"] by (simp add: SetSize_def SetArray_def MaxArrayCapacity_def)
  qed
qed

text \<open>
  \<^verbatim>\<open>PushBack\<close> appends the argument and leaves it null. It needs room in a capacity that grows by
  half, so the last growth that stays below the limit bounds the number of elements.
\<close>

lemma PushBack_spec:
  assumes "value_ok (ArrValue ArrayType c xs)" "value_ok x"
    and "length xs < c \<or> c + (c + 1) div 2 < MaxArrayCapacity"
  shows "\<exists>v'. PushBack x (ArrValue ArrayType c xs) = Inr (v', PlainValue 1) \<and> value_ok v' \<and> IsArray v'
    \<and> elements_of v' = xs @ [x]"
proof (cases "length xs < c")
  case True
  then show ?thesis using assms(1,2) by (auto simp: PushBack_def RawAssign_def)
next
  case False
  let ?n = "if c = 0 then DefaultArrayCapacity else c + (c + 1) div 2"
  have "length xs < ?n" "?n < MaxArrayCapacity" "c < ?n"
    using False assms(1,3) by (auto simp: DefaultArrayCapacity_def MaxArrayCapacity_def)
  then show ?thesis using assms(1,2) False
    by (auto simp: PushBack_def RawAssign_def Reserve_def)
qed

text \<open>
  \<^verbatim>\<open>v[index]\<close> grows the array to hold the index. An index of \<open>2 ^ 64 - 1\<close> (\<^verbatim>\<open>v[-1]\<close>) wraps to a
  size of 0: the array is emptied before the call throws.
\<close>

lemma index_at_spec:
  assumes "value_ok v" "IsArray v \<or> IsInvalid v" "n < MaxArrayCapacity - 1"
  shows "\<exists>v'. index_at v n = Inr v' \<and> value_ok v' \<and> n < length (elements_of v')
    \<and> elements_of v' = elements_of v @ replicate (Suc n - length (elements_of v)) (PlainValue 0)"
proof -
  have *: "\<exists>v'. index_at (ArrValue ArrayType c xs) n = Inr v' \<and> value_ok v' \<and> n < length (elements_of v')
      \<and> elements_of v' = xs @ replicate (Suc n - length xs) (PlainValue 0)"
    if ok: "value_ok (ArrValue ArrayType c xs)" for c xs
  proof (cases "n < length xs")
    case True
    then show ?thesis using ok by (simp add: index_at_def)
  next
    case False
    obtain v' where v': "SetSize (Suc n) (ArrValue ArrayType c xs) = Inr v'" "value_ok v'" "IsArray v'"
      "elements_of v' = xs @ replicate (Suc n - length xs) (PlainValue 0)"
      using SetSize_spec [OF ok, of "Suc n"] assms(3) False by (auto simp: less_diff_conv)
    then obtain c' where "v' = ArrValue ArrayType c' (elements_of v')"
      using value_ok_shapes(2) [OF v'(2)] by auto
    then have "array_parts v' = Inr (c', elements_of v')" by (metis ArrValue_tests(5))
    moreover have "Suc n mod 2 ^ 64 = Suc n" using assms(3) by (simp add: MaxArrayCapacity_def)
    ultimately show ?thesis using v' False by (simp add: index_at_def)
  qed
  show ?thesis
  proof (cases "IsArray v")
    case True
    then show ?thesis using * assms(1) value_ok_shapes(2) [OF assms(1)] by auto
  next
    case False
    then have "v = PlainValue 0" using assms value_ok_shapes(3) by auto
    then show ?thesis using * [of 0 "[]"] by (simp add: index_at_def SetArray_def MaxArrayCapacity_def)
  qed
qed

section \<open>Copies\<close>

text \<open>A copy stands for the same value, with every map key cut at its first null byte.\<close>

fun cut_keys :: "aval \<Rightarrow> aval" where
  "cut_keys (AArr xs) = AArr (map cut_keys xs)"
| "cut_keys (AMap ms) = AMap (map (\<lambda>m. (c_str (fst m), cut_keys (snd m))) ms)"
| "cut_keys a = a"

definition abs_member :: "Value \<times> Value \<Rightarrow> bytes \<times> aval" where
  "abs_member m = (str_bytes (fst m), abs_value (snd m))"

definition cut_member :: "bytes \<times> aval \<Rightarrow> bytes \<times> aval" where
  "cut_member m = (c_str (fst m), cut_keys (snd m))"

lemma abs_MapValue: "abs_value (MapValue f c ms) = AMap (map abs_member ms)"
  by (simp add: abs_member_def [abs_def])

lemma cut_AMap: "cut_keys (AMap ms) = AMap (map cut_member ms)"
  by (simp add: cut_member_def [abs_def])

lemma GetType_cases:
  assumes "value_ok v"
  shows "GetType v = (case v of NumValue _ _ \<Rightarrow> NumberType | TimeValue _ _ \<Rightarrow> DateTimeType
    | ArrValue _ _ _ \<Rightarrow> ArrayType | MapValue _ _ _ \<Rightarrow> MapType
    | StrValue _ _ \<Rightarrow> if IsString v then StringType else BinaryType
    | ShortValue _ _ \<Rightarrow> if IsString v then StringType else BinaryType
    | PlainValue f \<Rightarrow> f AND 0xFF)"
  using assms by (cases v) (auto simp: GetType_def IsString_def has_flag_def)

lemma string_data_ok:
  "value_ok v \<Longrightarrow> (case v of StrValue _ _ \<Rightarrow> True | ShortValue _ _ \<Rightarrow> True | _ \<Rightarrow> False) \<Longrightarrow>
   string_data v = Inr (str_bytes v) \<and> abs_value v = (if IsString v then AStr else ABin) (str_bytes v)"
  by (cases v) (auto simp: string_data_def has_flag_def IsString_def)

lemma CopyInternal_bytes:
  assumes "value_ok v" "case v of StrValue _ _ \<Rightarrow> True | ShortValue _ _ \<Rightarrow> True | _ \<Rightarrow> False"
  shows "\<exists>w. CopyInternal this v = Inr w \<and> value_ok w \<and> abs_value w = cut_keys (abs_value v)"
proof -
  have t: "GetType v = (if IsString v then StringType else BinaryType)"
    using assms GetType_cases [OF assms(1)] by (cases v) simp_all
  show ?thesis
    using string_data_ok [OF assms] CopyString_spec [of "str_bytes v"] CopyBinary_spec [of "str_bytes v"]
    by (cases "IsString v") (simp_all add: t)
qed

declare CopyInternal.simps [simp del]

definition copies_to :: "Value \<Rightarrow> Value \<Rightarrow> bool" where
  "copies_to v w \<longleftrightarrow> value_ok w \<and> abs_value w = cut_keys (abs_value v)"

lemma copy_elements_spec:
  assumes "\<forall>x \<in> set xs. \<exists>w. CopyInternal (PlainValue 0) x = Inr w \<and> copies_to x w"
  shows "\<exists>ys. copy_elements xs = Inr ys \<and> length ys = length xs \<and> (\<forall>y \<in> set ys. value_ok y)
    \<and> map abs_value ys = map (\<lambda>x. cut_keys (abs_value x)) xs"
  using assms by (induction xs) (auto simp: copies_to_def)

lemma copy_members_spec:
  assumes "\<forall>m \<in> set ms. IsString (fst m) \<and> value_ok (fst m)
      \<and> (\<exists>w. CopyInternal (PlainValue 0) (snd m) = Inr w \<and> copies_to (snd m) w)"
    and "value_ok acc" "IsMap acc" "length (members_of acc) + length ms \<le> MaxMapCapacity"
  shows "\<exists>w. copy_members ms acc = Inr w \<and> value_ok w
    \<and> abs_value w = AMap (map abs_member (members_of acc) @ map (\<lambda>m. cut_member (abs_member m)) ms)"
  using assms
proof (induction ms arbitrary: acc)
  case Nil
  then show ?case using value_ok_shapes(1) [of acc] by (auto simp: abs_MapValue simp del: abs_value.simps)
next
  case (Cons m ms)
  obtain key x where m: "m = (key, x)" by (cases m)
  have key: "GetString key = Inr (str_bytes key)" using Cons.prems(1) m value_ok_bytes(1) [of key] by simp
  obtain c where c: "AddMemberCheckCapacity acc = Inr (c, members_of acc)"
    "length (members_of acc) < c" "c \<le> MaxMapCapacity"
    using AddMemberCheckCapacity_ok [of acc] Cons.prems by auto
  obtain y where y: "CopyInternal (PlainValue 0) x = Inr y" "value_ok y" "abs_value y = cut_keys (abs_value x)"
    using Cons.prems(1) m by (auto simp: copies_to_def)
  let ?acc = "MapValue MapType c (members_of acc @ [(CopyString (c_str (str_bytes key)), y)])"
  have "\<forall>m \<in> set (members_of acc). IsString (fst m) \<and> value_ok (fst m) \<and> value_ok (snd m)"
    using Cons.prems(2) by (cases acc) simp_all
  with c y CopyString_spec [of "c_str (str_bytes key)"] have "value_ok ?acc" by auto
  with Cons.prems Cons.IH [of ?acc] obtain w where "copy_members ms ?acc = Inr w" "value_ok w"
    "abs_value w = AMap (map abs_member (members_of ?acc) @ map (\<lambda>m. cut_member (abs_member m)) ms)"
    by auto
  with m key c y CopyString_spec [of "c_str (str_bytes key)"] show ?case
    by (auto simp: abs_member_def cut_member_def)
qed

lemma CopyInternal_spec:
  "value_ok v \<Longrightarrow> \<exists>w. CopyInternal this v = Inr w \<and> copies_to v w"
proof (induction v arbitrary: this)
  case (PlainValue f)
  then show ?case by (auto simp: GetType_def CopyInternal.simps copies_to_def)
next
  case (NumValue f n)
  have "GetType (NumValue f n) = NumberType" using GetType_cases [OF NumValue.prems] by simp
  moreover have "cut_keys (abs_value (NumValue f n)) = abs_value (NumValue f n)" by simp
  ultimately show ?case using NumValue.prems by (simp add: CopyInternal.simps copies_to_def)
next
  case (TimeValue f n)
  then show ?case by (simp add: GetType_def CopyInternal.simps copies_to_def)
next
  case (StrValue f s)
  then show ?case using CopyInternal_bytes [OF StrValue.prems] by (simp add: copies_to_def)
next
  case (ShortValue f s)
  then show ?case using CopyInternal_bytes [OF ShortValue.prems] by (simp add: copies_to_def)
next
  case (ArrValue f c xs)
  have t: "GetType (ArrValue f c xs) = ArrayType" using ArrValue.prems by (simp add: GetType_def)
  have "\<forall>x \<in> set xs. \<exists>w. CopyInternal (PlainValue 0) x = Inr w \<and> copies_to x w"
    using ArrValue by simp
  from copy_elements_spec [OF this] t ArrValue.prems show ?case
    by (auto simp: CopyInternal.simps copies_to_def SetArray_n_def comp_def)
next
  case (MapValue f c ms)
  have t: "GetType (MapValue f c ms) = MapType" using MapValue.prems by (simp add: GetType_def)
  have "\<exists>w. CopyInternal (PlainValue 0) (snd m) = Inr w \<and> copies_to (snd m) w" if "m \<in> set ms" for m
    using MapValue.IH(2) [OF that snds.intros] that MapValue.prems by simp
  with MapValue.prems have "\<forall>m \<in> set ms. IsString (fst m) \<and> value_ok (fst m)
      \<and> (\<exists>w. CopyInternal (PlainValue 0) (snd m) = Inr w \<and> copies_to (snd m) w)" by simp
  moreover have "value_ok (SetMap this)" "IsMap (SetMap this)" "members_of (SetMap this) = []"
    by (simp_all add: SetMap_def)
  ultimately obtain w where "copy_members ms (SetMap this) = Inr w" "value_ok w"
      "abs_value w = AMap (map (\<lambda>m. cut_member (abs_member m)) ms)"
    using copy_members_spec [of ms "SetMap this"] MapValue.prems by auto
  with t show ?case
    by (simp add: CopyInternal.simps copies_to_def abs_MapValue cut_AMap comp_def del: abs_value.simps cut_keys.simps)
qed

text \<open>Without null bytes in keys a copy stands for the same value.\<close>

fun keys_terminated :: "aval \<Rightarrow> bool" where
  "keys_terminated (AArr xs) \<longleftrightarrow> (\<forall>x \<in> set xs. keys_terminated x)"
| "keys_terminated (AMap ms) \<longleftrightarrow> (\<forall>m \<in> set ms. 0 \<notin> set (fst m) \<and> keys_terminated (snd m))"
| "keys_terminated a \<longleftrightarrow> True"

lemma c_str_id: "0 \<notin> set s \<Longrightarrow> c_str s = s"
  unfolding c_str_def by (rule takeWhile_eq_all_conv [THEN iffD2]) auto

lemma cut_keys_id: "keys_terminated a \<Longrightarrow> cut_keys a = a"
proof (induction a)
  case (AMap ms)
  then have "m \<in> set ms \<Longrightarrow> cut_member m = m" for m
    by (cases m) (auto simp: cut_member_def c_str_id)
  then show ?case unfolding cut_AMap by (simp add: map_idI)
qed (simp_all add: map_idI)

lemma Copy_same:
  "value_ok v \<Longrightarrow> keys_terminated (abs_value v) \<Longrightarrow>
   \<exists>w. Copy this v = Inr w \<and> value_ok w \<and> abs_value w = abs_value v"
  using CopyInternal_spec [of v this] by (auto simp: Copy_def copies_to_def cut_keys_id)

section \<open>Base64 text to binary\<close>

lemma ss_SetLength_get:
  "n \<le> 15 \<Longrightarrow> length a = 16 \<Longrightarrow> ss_GetLength (ss_SetLength n a) = n"
  using ss_length_table by (simp add: ss_GetLength_def ss_SetLength_def LenPos_def MaxSize_def MaxChars_def ss_raw_def)

lemma ConvertBase64_spec:
  assumes "value_ok v" "IsString v" "Base64DecodeBuffer [] (str_bytes v) = Some out" "out \<noteq> []"
  shows "\<exists>w. ConvertBase64 v = Inr (Some w) \<and> value_ok w \<and> IsBinary w \<and> abs_value w = ABin out"
proof -
  have get: "GetString v = Inr (str_bytes v)" using value_ok_bytes(1) [OF assms(1,2)] by simp
  have len: "length out \<le> length (str_bytes v)" using decode_buffer_length [OF assms(3)] by simp
  show ?thesis
  proof (cases v)
    case (ShortValue f a)
    then have a: "f = ShortStringFlag" "length a = 16" "ss_GetLength a \<le> 15"
      using assms(1,2) by (auto simp: IsString_def has_flag_def)
    then have "length out \<le> 15" using len ShortValue by simp
    with a have "ss_GetLength (ss_SetLength (length out) (out @ drop (length out) a)) = length out"
      by (simp add: ss_SetLength_get)
    then show ?thesis using get assms(3,4) ShortValue a \<open>length out \<le> 15\<close>
      by (auto simp: ConvertBase64_def Let_def IsBinary_def has_flag_def ss_SetLength_def LenPos_def
        MaxSize_def MaxChars_def)
  next
    case (StrValue f s)
    then show ?thesis using get assms
      by (auto simp: ConvertBase64_def Let_def IsBinary_def IsString_def has_flag_def)
  qed (use assms(1,2) int_flags_cases in \<open>auto simp: IsString_def has_flag_def\<close>)
qed

lemma ConvertBase64_empty: "ConvertBase64 (CopyString (Base64Encode [])) = Inr None"
  by code_simp

end
