(* ===== verification/AnyRpc_Float.thy ===== *)
theory AnyRpc_Float
  imports AnyRpc_Prelude
begin

text \<open>
  IEEE-754 arithmetic as the library uses it: \<^verbatim>\<open>float\<close> and \<^verbatim>\<open>double\<close> are kept as their bits
  (32 and 64 of them), a finite number stands for a ratio of integers, and a result is the
  nearest representable number, ties to even, the rounding mode the library runs in. Conversions
  between the two formats and from integers are defined on that ground.

  Main results: a finite number is the nearest number to itself, so decoding and encoding are
  inverse, and conversion of a float to a double is exact.
\<close>

section \<open>Ratios\<close>

text \<open>A pair of a non-negative numerator and a positive denominator.\<close>

type_synonym ratio = "int \<times> int"

definition scale2 :: "int \<Rightarrow> int \<Rightarrow> ratio" where
  "scale2 m k = (if k \<ge> 0 then (m * 2 ^ nat k, 1) else (m, 2 ^ nat (- k)))"

function ilog2 :: "int \<Rightarrow> int" where
  "ilog2 n = (if n < 2 then 0 else 1 + ilog2 (n div 2))"
  by pat_completeness auto
termination by (relation "measure nat") auto

declare ilog2.simps [simp del]

text \<open>The exponent of the largest power of two that is at most n / d.\<close>

definition ratio_log2 :: "ratio \<Rightarrow> int" where
  "ratio_log2 r =
     (case r of (n, d) \<Rightarrow>
        let e = ilog2 n - ilog2 d in
        if (if e \<ge> 0 then n \<ge> d * 2 ^ nat e else n * 2 ^ nat (- e) \<ge> d) then e else e - 1)"

section \<open>Encoding and decoding\<close>

text \<open>
  A format has \<open>eb\<close> exponent bits and \<open>mb\<close> fraction bits; the magnitude of a number is its bits
  without the sign, read as an integer.
\<close>

definition fp_emin :: "nat \<Rightarrow> int" where "fp_emin eb = 2 - 2 ^ (eb - 1)"

definition fp_inf :: "nat \<Rightarrow> nat \<Rightarrow> int" where "fp_inf eb mb = (2 ^ eb - 1) * 2 ^ mb"

definition round_half_even :: "int \<Rightarrow> int \<Rightarrow> int" where
  "round_half_even n d =
     (let q = n div d; r = n mod d in
      if 2 * r > d \<or> (2 * r = d \<and> odd q) then q + 1 else q)"

definition fp_quotient :: "nat \<Rightarrow> ratio \<Rightarrow> int \<Rightarrow> int" where
  "fp_quotient mb r e =
     (case r of (n, d) \<Rightarrow>
        let s = int mb - e in
        if s \<ge> 0 then round_half_even (n * 2 ^ nat s) d
        else round_half_even n (d * 2 ^ nat (- s)))"

definition fp_encode :: "nat \<Rightarrow> nat \<Rightarrow> ratio \<Rightarrow> int" where
  "fp_encode eb mb r =
     (if fst r = 0 then 0
      else let e = max (ratio_log2 r) (fp_emin eb)
           in min (fp_inf eb mb) ((e - fp_emin eb) * 2 ^ mb + fp_quotient mb r e))"

text \<open>The significand and the exponent of its unit.\<close>

definition fp_significand :: "nat \<Rightarrow> int \<Rightarrow> int" where
  "fp_significand mb f = (if f div 2 ^ mb = 0 then f else f mod 2 ^ mb + 2 ^ mb)"

definition fp_exponent :: "nat \<Rightarrow> nat \<Rightarrow> int \<Rightarrow> int" where
  "fp_exponent eb mb f = (if f div 2 ^ mb = 0 then fp_emin eb else f div 2 ^ mb - 1 + fp_emin eb) - int mb"

definition fp_decode :: "nat \<Rightarrow> nat \<Rightarrow> int \<Rightarrow> ratio" where
  "fp_decode eb mb f = scale2 (fp_significand mb f) (fp_exponent eb mb f)"

section \<open>The two formats and their conversions\<close>

definition double_mag :: "u64 \<Rightarrow> int" where "double_mag d = uint d mod 2 ^ 63"
definition double_neg :: "u64 \<Rightarrow> bool" where "double_neg d \<longleftrightarrow> uint d \<ge> 2 ^ 63"
definition float_mag :: "u32 \<Rightarrow> int" where "float_mag f = uint f mod 2 ^ 31"
definition float_neg :: "u32 \<Rightarrow> bool" where "float_neg f \<longleftrightarrow> uint f \<ge> 2 ^ 31"

definition mk_double :: "bool \<Rightarrow> int \<Rightarrow> u64" where
  "mk_double neg mag = word_of_int ((if neg then 2 ^ 63 else 0) + mag)"
definition mk_float :: "bool \<Rightarrow> int \<Rightarrow> u32" where
  "mk_float neg mag = word_of_int ((if neg then 2 ^ 31 else 0) + mag)"

definition double_of_ratio :: "bool \<Rightarrow> ratio \<Rightarrow> u64" where
  "double_of_ratio neg r = mk_double neg (fp_encode 11 52 r)"
definition float_of_ratio :: "bool \<Rightarrow> ratio \<Rightarrow> u32" where
  "float_of_ratio neg r = mk_float neg (fp_encode 8 23 r)"

definition double_of_int :: "int \<Rightarrow> u64" where
  "double_of_int i = double_of_ratio (i < 0) (\<bar>i\<bar>, 1)"
definition float_of_int :: "int \<Rightarrow> u32" where
  "float_of_int i = float_of_ratio (i < 0) (\<bar>i\<bar>, 1)"

text \<open>Infinities go to infinities; a NaN keeps the top of its payload and becomes quiet.\<close>

definition double_of_float :: "u32 \<Rightarrow> u64" where
  "double_of_float f =
     (let m = float_mag f in
      if m = fp_inf 8 23 then mk_double (float_neg f) (fp_inf 11 52)
      else if m > fp_inf 8 23
      then mk_double (float_neg f) (fp_inf 11 52 + 2 ^ 51 + ((m - fp_inf 8 23) mod 2 ^ 22) * 2 ^ 29)
      else double_of_ratio (float_neg f) (fp_decode 8 23 m))"

definition float_of_double :: "u64 \<Rightarrow> u32" where
  "float_of_double d =
     (let m = double_mag d in
      if m = fp_inf 11 52 then mk_float (double_neg d) (fp_inf 8 23)
      else if m > fp_inf 11 52
      then mk_float (double_neg d) (fp_inf 8 23 + 2 ^ 22 + ((m - fp_inf 11 52) mod 2 ^ 51) div 2 ^ 29)
      else float_of_ratio (double_neg d) (fp_decode 11 52 m))"

section \<open>Logarithms\<close>

lemma ilog2_bounds: "0 < n \<Longrightarrow> 0 \<le> ilog2 n \<and> 2 ^ nat (ilog2 n) \<le> n \<and> n < 2 * 2 ^ nat (ilog2 n)"
proof (induction n rule: ilog2.induct)
  case (1 n)
  show ?case
  proof (cases "n < 2")
    case True
    with "1.prems" show ?thesis by (subst (1 2 3) ilog2.simps) simp
  next
    case False
    with "1.IH" have IH: "0 \<le> ilog2 (n div 2)" "2 ^ nat (ilog2 (n div 2)) \<le> n div 2"
      "n div 2 < 2 * 2 ^ nat (ilog2 (n div 2))" by auto
    from IH(1) have "nat (1 + ilog2 (n div 2)) = Suc (nat (ilog2 (n div 2)))" by simp
    with IH False show ?thesis by (subst (1 2 3) ilog2.simps) (simp, linarith)
  qed
qed

lemma ilog2_unique: "0 \<le> k \<Longrightarrow> 2 ^ nat k \<le> n \<Longrightarrow> n < 2 * 2 ^ nat k \<Longrightarrow> ilog2 n = k"
proof -
  assume k: "0 \<le> k" "2 ^ nat k \<le> n" "n < 2 * 2 ^ nat k"
  then have "0 < n" by (meson less_le_trans zero_less_numeral zero_less_power)
  then have l: "0 \<le> ilog2 n" "2 ^ nat (ilog2 n) \<le> n" "n < 2 * 2 ^ nat (ilog2 n)"
    using ilog2_bounds by auto
  have "(2 :: int) ^ nat k < 2 ^ Suc (nat (ilog2 n))" "(2 :: int) ^ nat (ilog2 n) < 2 ^ Suc (nat k)"
    using k l by simp_all
  then have "nat k < Suc (nat (ilog2 n))" "nat (ilog2 n) < Suc (nat k)"
    by (simp_all only: power_strict_increasing_iff one_less_numeral_iff semiring_norm)
  then show ?thesis using k l by linarith
qed

lemma ilog2_power: "ilog2 (2 ^ n) = int n"
  by (rule ilog2_unique) simp_all

lemma ilog2_times_power:
  assumes "0 < m"
  shows "ilog2 (m * 2 ^ n) = ilog2 m + int n"
proof (rule ilog2_unique)
  have "nat (ilog2 m + int n) = nat (ilog2 m) + n"
    using ilog2_bounds [OF assms] nat_add_distrib [of "ilog2 m" "int n"] by simp
  then show "2 ^ nat (ilog2 m + int n) \<le> m * 2 ^ n" "m * 2 ^ n < 2 * 2 ^ nat (ilog2 m + int n)"
    using ilog2_bounds [OF assms] by (simp_all add: power_add)
  show "0 \<le> ilog2 m + int n" using ilog2_bounds [OF assms] by simp
qed

lemma ratio_log2_scale2:
  assumes "0 < m"
  shows "ratio_log2 (scale2 m k) = ilog2 m + k"
proof (cases "k \<ge> 0")
  case True
  have "ilog2 (1 :: int) = 0" using ilog2_power [of 0] by simp
  moreover have l: "ilog2 (m * 2 ^ nat k) = ilog2 m + k" using ilog2_times_power [OF assms, of "nat k"] True by simp
  moreover have "0 \<le> ilog2 m + k" using ilog2_bounds [OF assms] True by simp
  moreover have "2 ^ nat (ilog2 m + k) \<le> m * 2 ^ nat k"
    using ilog2_bounds [of "m * 2 ^ nat k"] assms l by simp
  ultimately show ?thesis using True by (simp add: ratio_log2_def scale2_def Let_def)
next
  case False
  define j where "j = nat (- k)"
  then have k: "k = - int j" using False by simp
  have l: "ilog2 (2 ^ j) = int j" by (rule ilog2_power)
  have b: "0 \<le> ilog2 m" "2 ^ nat (ilog2 m) \<le> m" using ilog2_bounds [OF assms] by auto
  show ?thesis
  proof (cases "ilog2 m \<ge> int j")
    case True
    then have "nat (ilog2 m) = j + nat (ilog2 m - int j)" by simp
    with b(2) have "2 ^ j * 2 ^ nat (ilog2 m - int j) \<le> m" by (metis power_add)
    then show ?thesis using True False by (simp add: ratio_log2_def scale2_def Let_def l k)
  next
    case lt: False
    then have "j = nat (ilog2 m) + nat (int j - ilog2 m)" using b(1) by simp
    then have "(2 :: int) ^ j = 2 ^ nat (ilog2 m) * 2 ^ nat (int j - ilog2 m)" by (metis power_add)
    also have "\<dots> \<le> m * 2 ^ nat (int j - ilog2 m)" using b(2) by simp
    finally show ?thesis using lt False by (simp add: ratio_log2_def scale2_def Let_def l k)
  qed
qed

section \<open>Finite numbers are fixed points of rounding\<close>

lemma round_exact: "0 < d \<Longrightarrow> round_half_even (q * d) d = q"
  by (simp add: round_half_even_def)

lemma fp_quotient_scale2: "fp_quotient mb (scale2 m k) (k + int mb) = m"
proof -
  consider "k = 0" | "k > 0" | "k < 0" by linarith
  then show ?thesis
    using round_exact [of 1 m] round_exact [of "2 ^ nat k" m] round_exact [of "2 ^ nat (- k)" m]
    by cases (simp_all add: fp_quotient_def scale2_def Let_def)
qed

lemma fp_encode_scale2:
  assumes "0 < m" "max (ilog2 m + k) (fp_emin eb) = k + int mb"
  shows "fp_encode eb mb (scale2 m k) = min (fp_inf eb mb) ((k + int mb - fp_emin eb) * 2 ^ mb + m)"
proof -
  have "fst (scale2 m k) \<noteq> 0" using assms(1) by (simp add: scale2_def)
  then show ?thesis
    by (simp add: fp_encode_def ratio_log2_scale2 assms fp_quotient_scale2 Let_def)
qed

lemma fp_encode_decode:
  assumes "0 \<le> f" "f < fp_inf eb mb"
  shows "fp_encode eb mb (fp_decode eb mb f) = f"
proof (cases "f = 0")
  case True
  then show ?thesis
    by (simp add: fp_encode_def fp_decode_def fp_significand_def scale2_def split: prod.splits)
next
  case False
  let ?m = "fp_significand mb f" and ?k = "fp_exponent eb mb f"
  have pos: "0 < ?m" using assms(1) False
    by (simp add: fp_significand_def add_nonneg_pos)
  have eq: "(?k + int mb - fp_emin eb) * 2 ^ mb + ?m = f"
    by (auto simp: fp_significand_def fp_exponent_def algebra_simps)
  have "max (ilog2 ?m + ?k) (fp_emin eb) = ?k + int mb"
  proof (cases "f div 2 ^ mb = 0")
    case True
    then have "f < 2 ^ mb"
      using assms(1) zdiv_eq_0_iff [of f "2 ^ mb"] zero_less_power [of "2 :: int" mb] by auto
    moreover have b: "0 \<le> ilog2 f" "2 ^ nat (ilog2 f) \<le> f" using ilog2_bounds [of f] assms(1) False by auto
    ultimately have "2 ^ nat (ilog2 f) < (2 :: int) ^ mb" by linarith
    then have "ilog2 f < int mb" using b(1) by (simp add: nat_less_iff)
    then show ?thesis using True by (simp add: fp_significand_def fp_exponent_def)
  next
    case False
    then have "1 \<le> f div 2 ^ mb" using assms(1) by (simp add: pos_imp_zdiv_nonneg_iff order_le_neq_trans int_one_le_iff_zero_less)
    moreover have "ilog2 ?m = int mb"
      using False by (intro ilog2_unique) (simp_all add: fp_significand_def)
    ultimately show ?thesis using False by (simp add: fp_exponent_def)
  qed
  from fp_encode_scale2 [OF pos this] eq assms(2) show ?thesis by (simp add: fp_decode_def)
qed

text \<open>
  A number of the small format is representable in the large one, so the conversion does not
  round: the double stands for the same ratio.
\<close>

definition ratio_eq :: "ratio \<Rightarrow> ratio \<Rightarrow> bool" where
  "ratio_eq r r' \<longleftrightarrow> fst r * snd r' = fst r' * snd r"

lemma scale2_shift: "ratio_eq (scale2 (m * 2 ^ j) k) (scale2 m (k + int j))"
proof -
  consider "k \<ge> 0" | "k < 0" "k + int j \<ge> 0" | "k + int j < 0" by linarith
  then show ?thesis
  proof cases
    case 1
    then show ?thesis by (simp add: ratio_eq_def scale2_def nat_add_distrib power_add)
  next
    case 2
    then have "j = nat (- k) + nat (k + int j)" by linarith
    then have "(2 :: int) ^ j = 2 ^ nat (- k) * 2 ^ nat (k + int j)" by (metis power_add)
    with 2 show ?thesis by (simp add: ratio_eq_def scale2_def)
  next
    case 3
    then have "nat (- k) = nat (- (k + int j)) + j" by linarith
    then have "(2 :: int) ^ nat (- k) = 2 ^ nat (- (k + int j)) * 2 ^ j" by (metis power_add)
    with 3 show ?thesis by (simp add: ratio_eq_def scale2_def)
  qed
qed

lemma fp_quotient_widen:
  assumes "0 \<le> l" "l \<le> int mb"
  shows "fp_quotient mb (scale2 m k) (l + k) = m * 2 ^ nat (int mb - l)"
proof -
  define w where "w = nat (int mb - l)"
  have s: "int mb - (l + k) = int w - k" using assms by (simp add: w_def)
  consider "0 \<le> k" "k \<le> int w" | "k < 0" | "int w < k" by linarith
  then have "fp_quotient mb (scale2 m k) (l + k) = m * 2 ^ w"
  proof cases
    case 1
    then have "nat k + nat (int w - k) = w" by linarith
    then have p: "(2 :: int) ^ nat k * 2 ^ nat (int w - k) = 2 ^ w" by (metis power_add)
    from 1 round_exact [of 1 "m * 2 ^ w"] show ?thesis
      by (simp add: fp_quotient_def scale2_def s Let_def mult.assoc p)
  next
    case 2
    then have "nat (int w - k) = w + nat (- k)" by linarith
    then have p: "(2 :: int) ^ nat (int w - k) = 2 ^ w * 2 ^ nat (- k)" by (simp add: power_add)
    from 2 round_exact [of "2 ^ nat (- k)" "m * 2 ^ w"] show ?thesis
      by (simp add: fp_quotient_def scale2_def s Let_def p mult.assoc)
  next
    case 3
    then have "nat k = w + nat (k - int w)" by linarith
    then have p: "(2 :: int) ^ nat k = 2 ^ w * 2 ^ nat (k - int w)" by (simp add: power_add)
    from 3 round_exact [of "2 ^ nat (k - int w)" "m * 2 ^ w"] show ?thesis
      by (simp add: fp_quotient_def scale2_def s Let_def p mult.assoc)
  qed
  then show ?thesis by (simp add: w_def)
qed

text \<open>A ratio \<open>m * 2 ^ k\<close> whose numerator fits the significand is encoded exactly.\<close>

lemma fp_encode_exact:
  assumes "0 < m" "m < 2 ^ (mb + 1)" "fp_emin eb \<le> ilog2 m + k"
    and "(ilog2 m + k - fp_emin eb) + 2 < 2 ^ eb"
  shows "ratio_eq (fp_decode eb mb (fp_encode eb mb (scale2 m k))) (scale2 m k)
    \<and> fp_encode eb mb (scale2 m k) < fp_inf eb mb"
proof -
  let ?l = "ilog2 m" and ?e = "ilog2 m + k"
  have l: "0 \<le> ?l" "2 ^ nat ?l \<le> m" "m < 2 * 2 ^ nat ?l" using ilog2_bounds [OF assms(1)] by auto
  have "(2 :: int) ^ nat ?l < 2 ^ (mb + 1)" using l(2) assms(2) by linarith
  then have "nat ?l < mb + 1" by (simp only: power_strict_increasing_iff)
  then have le: "?l \<le> int mb" by simp
  define w where "w = nat (int mb - ?l)"
  have mb: "mb = nat ?l + w" using le l(1) by (simp add: w_def)
  define q where "q = m * 2 ^ w"
  have p2: "(2 :: int) ^ mb = 2 ^ nat ?l * 2 ^ w" by (subst mb) (simp add: power_add)
  have q: "2 ^ mb \<le> q" "q < 2 * 2 ^ mb"
    using l(2,3) mult_right_mono [of "2 ^ nat ?l" m "2 ^ w"] mult_strict_right_mono [of m "2 * 2 ^ nat ?l" "2 ^ w"]
    by (simp_all add: q_def p2)
  define F where "F = (?e - fp_emin eb) * 2 ^ mb + q"
  have "(?e - fp_emin eb + 2) * 2 ^ mb \<le> fp_inf eb mb"
    unfolding fp_inf_def using assms(4) by (intro mult_right_mono) simp_all
  then have lt: "F < fp_inf eb mb" using q(2) by (simp add: F_def algebra_simps)
  moreover have "fst (scale2 m k) \<noteq> 0" using assms(1) by (simp add: scale2_def)
  ultimately have enc: "fp_encode eb mb (scale2 m k) = F"
    using assms(3) fp_quotient_widen [OF l(1) le, of m k]
    by (simp add: fp_encode_def ratio_log2_scale2 [OF assms(1)] Let_def F_def q_def w_def max_absorb1)
  have F: "F = (?e - fp_emin eb + 1) * 2 ^ mb + (q - 2 ^ mb)" by (simp add: F_def algebra_simps)
  have r: "0 \<le> q - 2 ^ mb" "q - 2 ^ mb < 2 ^ mb" using q by simp_all
  have "F div 2 ^ mb = ?e - fp_emin eb + 1"
    unfolding F using div_pos_pos_trivial [OF r] by (subst div_mult_self3) simp_all
  moreover have "F mod 2 ^ mb = q - 2 ^ mb"
    unfolding F using mod_pos_pos_trivial [OF r] by (subst mod_mult_self3) simp
  ultimately have "fp_decode eb mb F = scale2 (m * 2 ^ w) (?e - int mb)"
    using assms(3) by (simp add: fp_decode_def fp_significand_def fp_exponent_def q_def)
  moreover have "?e - int mb + int w = k" using le by (simp add: w_def)
  moreover have "ratio_eq (scale2 (m * 2 ^ w) (?e - int mb)) (scale2 m k)"
    using scale2_shift [of m w "?e - int mb"] by (simp only: \<open>?e - int mb + int w = k\<close>)
  ultimately show ?thesis using enc lt by simp
qed

lemma float_decode_bounds:
  assumes "0 < f" "f < fp_inf 8 23"
  shows "0 < fp_significand 23 f" "fp_significand 23 f < 2 ^ 24"
    "-149 \<le> fp_exponent 8 23 f" "fp_exponent 8 23 f \<le> 104"
proof -
  define P :: int where "P = 2 ^ 23"
  define q where "q = f div P"
  define r where "r = f mod P"
  have P: "0 < P" "2 ^ 24 = 2 * P" by (simp_all add: P_def)
  have f: "f < 255 * P" using assms(2) by (simp add: fp_inf_def P_def)
  have q: "0 \<le> q" "q < 255"
  proof -
    show "0 \<le> q" using assms(1) P(1) by (simp add: q_def pos_imp_zdiv_nonneg_iff)
    have "q * P + r = f" "0 \<le> r" using P(1) by (simp_all add: q_def r_def)
    then have "q * P \<le> f" by linarith
    then have "q * P < 255 * P" using f by linarith
    then show "q < 255" using P(1) by (simp add: mult_less_cancel_right)
  qed
  have r: "0 \<le> r" "r < P" using P(1) by (simp_all add: r_def)
  have s: "fp_significand 23 f = (if q = 0 then f else r + P)"
    unfolding fp_significand_def q_def r_def P_def by (rule refl)
  have x: "fp_exponent 8 23 f = (if q = 0 then -126 else q - 1 + -126) - 23"
    unfolding fp_exponent_def q_def P_def by (simp only: fp_emin_def) simp
  have "q = 0 \<Longrightarrow> f < P" using assms(1) P(1) zdiv_eq_0_iff [of f P] by (auto simp: q_def)
  then show "0 < fp_significand 23 f" "fp_significand 23 f < 2 ^ 24"
    using r P assms(1) unfolding s by auto
  show "-149 \<le> fp_exponent 8 23 f" "fp_exponent 8 23 f \<le> 104"
    using q unfolding x by auto
qed

text \<open>Every finite float becomes the double of the same value.\<close>

lemma float_to_double_exact:
  assumes "0 < f" "f < fp_inf 8 23"
  shows "ratio_eq (fp_decode 11 52 (fp_encode 11 52 (fp_decode 8 23 f))) (fp_decode 8 23 f)
    \<and> fp_encode 11 52 (fp_decode 8 23 f) < fp_inf 11 52"
proof -
  note b = float_decode_bounds [OF assms]
  let ?l = "ilog2 (fp_significand 23 f)"
  have l: "0 \<le> ?l" "2 ^ nat ?l \<le> fp_significand 23 f" using ilog2_bounds [OF b(1)] by auto
  then have "(2 :: int) ^ nat ?l < 2 ^ 24" using b(2) by linarith
  then have "nat ?l < 24" by (simp only: power_strict_increasing_iff)
  then have "?l < 24" by simp
  moreover have "fp_significand 23 f < 2 ^ (52 + 1)" using b(2) by simp
  moreover have "fp_emin 11 = -1022" by (simp add: fp_emin_def)
  ultimately show ?thesis unfolding fp_decode_def [of 8 23]
    using b l(1) by (intro fp_encode_exact) simp_all
qed


lemma round_half_even_nonneg: "0 \<le> n \<Longrightarrow> 0 < d \<Longrightarrow> 0 \<le> round_half_even n d"
  by (simp add: round_half_even_def Let_def pos_imp_zdiv_nonneg_iff)

lemma fp_encode_nonneg:
  assumes "0 \<le> fst r" "0 < snd r"
  shows "0 \<le> fp_encode eb mb r"
proof -
  obtain n d where r: "r = (n, d)" by (cases r)
  have "0 \<le> fp_quotient mb r e" for e
    using assms by (simp add: r fp_quotient_def Let_def round_half_even_nonneg)
  then show ?thesis by (simp add: fp_encode_def fp_inf_def Let_def)
qed

lemma fp_decode_sign: "0 \<le> f \<Longrightarrow> 0 \<le> fst (fp_decode eb mb f) \<and> 0 < snd (fp_decode eb mb f)"
  by (simp add: fp_decode_def scale2_def fp_significand_def)

lemma double_mag_mk:
  assumes "0 \<le> m" "m < 2 ^ 63"
  shows "double_mag (mk_double neg m) = m" "double_neg (mk_double neg m) = neg"
proof -
  have "uint (word_of_int k :: u64) = k" if "0 \<le> k" "k < 2 ^ 64" for k
    using that by (simp add: unsigned_of_int take_bit_int_eq_self)
  from this [of "(if neg then 2 ^ 63 else 0) + m"] assms
  have u: "uint (mk_double neg m) = (if neg then 2 ^ 63 else 0) + m" by (simp add: mk_double_def split: if_splits)
  show "double_mag (mk_double neg m) = m" "double_neg (mk_double neg m) = neg"
    using assms unfolding double_mag_def double_neg_def u by auto
qed

end
