(* ===== verification/AnyRpc_Handler.thy ===== *)
theory AnyRpc_Handler
  imports AnyRpc_Value AnyRpc_Float
begin

text \<open>
  handler.h, the interface between readers, values and writers, with the two member functions
  of \<^verbatim>\<open>Value\<close> that use more than the value: \<^verbatim>\<open>Traverse\<close>, which calls a handler, and the
  floating-point getters.

  A call of a virtual function of \<^verbatim>\<open>Handler\<close> is an event. A producer of events yields the list of
  the calls it makes before it returns or throws; a consumer is a function that takes a state
  and an event and returns the next state or throws, and then the producer is abandoned.

  The relation \<open>represents\<close> says which event sequences stand for a value; \<^verbatim>\<open>Traverse\<close> produces
  such a sequence, and the locale \<open>sink\<close> states what a consumer does with any of them.
\<close>

section \<open>Events\<close>

text \<open>
  A string comes with the memory from its pointer on, the length and the \<^verbatim>\<open>copy\<close> argument.
  \<open>None\<close> in \<open>EvStartMap\<close> and \<open>EvStartArray\<close> is the overload without a count.
\<close>

datatype event =
    EvStartDocument | EvEndDocument
  | EvNull | EvBoolTrue | EvBoolFalse
  | EvDateTime u64
  | EvString bytes nat bool
  | EvBinary bytes bool
  | EvInt "32 word" | EvUint u32 | EvInt64 "64 word" | EvUint64 u64
  | EvFloat u32 | EvDouble u64
  | EvStartMap "nat option" | EvKey bytes nat bool | EvMapSeparator | EvEndMap nat
  | EvStartArray "nat option" | EvArraySeparator | EvEndArray nat

fun run_events :: "('h \<Rightarrow> event \<Rightarrow> 'h result) \<Rightarrow> event list \<Rightarrow> 'h \<Rightarrow> 'h result" where
  "run_events step [] h = Inr h"
| "run_events step (e # es) h = then_r (step h e) (run_events step es)"

lemma run_events_append:
  "run_events step (xs @ ys) h = then_r (run_events step xs h) (run_events step ys)"
proof (induction xs arbitrary: h)
  case (Cons x xs)
  then show ?case by (cases "step h x") simp_all
qed simp

text \<open>Producers: the events so far, and the state afterwards or what was thrown.\<close>

type_synonym 's producer = "event list \<times> 's result"

definition emit :: "event list \<Rightarrow> 's \<Rightarrow> 's producer" where "emit es s = (es, Inr s)"
definition throw :: "err \<Rightarrow> 's producer" where "throw e = ([], Inl e)"

definition then_p :: "'s producer \<Rightarrow> ('s \<Rightarrow> 't producer) \<Rightarrow> 't producer" where
  "then_p m k = (case m of (es, Inl e) \<Rightarrow> (es, Inl e) | (es, Inr s) \<Rightarrow> (es @ fst (k s), snd (k s)))"

definition lift_r :: "'s result \<Rightarrow> 's producer" where "lift_r r = ([], r)"

lemma then_p_simps [simp]:
  "then_p (emit es s) k = (es @ fst (k s), snd (k s))"
  "then_p (throw e) k = throw e"
  "then_p (es, Inr s) k = (es @ fst (k s), snd (k s))"
  "then_p (es, Inl e) k' = (es, Inl e)"
  "then_p (lift_r (Inr s)) k = k s"
  "then_p (lift_r (Inl e)) k = throw e"
  by (simp_all add: then_p_def emit_def throw_def lift_r_def)

lemma emit_simps [simp]: "fst (emit es s) = es" "snd (emit es s) = Inr s"
  "fst (throw e) = []" "snd (throw e) = Inl e"
  by (simp_all add: emit_def throw_def)

text \<open>A producer calling a consumer: the consumer's state, or the first throw of either.\<close>

definition feed :: "('h \<Rightarrow> event \<Rightarrow> 'h result) \<Rightarrow> 's producer \<Rightarrow> 'h \<Rightarrow> ('h \<times> 's) result" where
  "feed step p h = then_r (run_events step (fst p) h) (\<lambda>h'. then_r (snd p) (\<lambda>s. Inr (h', s)))"

section \<open>Traversal of a value\<close>

fun TraverseInternal :: "Value \<Rightarrow> unit producer"
and traverse_elements :: "Value list \<Rightarrow> unit producer"
and traverse_members :: "(Value \<times> Value) list \<Rightarrow> unit producer" where
  "TraverseInternal v =
     (let t = GetType v in
      if t = InvalidType then throw AnyRpcErrorAccessInvalidValue
      else if t = NullType then emit [EvNull] ()
      else if t = FalseType then emit [EvBoolFalse] ()
      else if t = TrueType then emit [EvBoolTrue] ()
      else if t = NumberType then
        then_p (lift_r (num_bits v)) (\<lambda>n. emit
          [if IsInt v then EvInt (ucast n)
           else if IsUint v then EvUint (ucast n)
           else if IsInt64 v then EvInt64 n
           else if IsUint64 v then EvUint64 n
           else if IsDouble v then EvDouble n
           else EvFloat (ucast n)] ())
      else if t = DateTimeType then
        then_p (lift_r (case v of TimeValue _ dt \<Rightarrow> Inr dt | _ \<Rightarrow> Inl UndefinedBehaviour))
          (\<lambda>dt. emit [EvDateTime dt] ())
      else if t = StringType then
        then_p (lift_r (GetString v)) (\<lambda>s. emit [EvString (s @ [0]) (length s) True] ())
      else if t = BinaryType then
        then_p (lift_r (GetBinary v)) (\<lambda>s. emit [EvBinary s True] ())
      else if t = ArrayType then
        (case v of
           ArrValue _ _ xs \<Rightarrow>
             then_p (emit [EvStartArray (Some (length xs))] ()) (\<lambda>_.
               then_p (traverse_elements xs) (\<lambda>_. emit [EvEndArray (length xs)] ()))
         | _ \<Rightarrow> throw UndefinedBehaviour)
      else if t = MapType then
        (case v of
           MapValue _ _ ms \<Rightarrow>
             then_p (emit [EvStartMap (Some (length ms))] ()) (\<lambda>_.
               then_p (traverse_members ms) (\<lambda>_. emit [EvEndMap (length ms)] ()))
         | _ \<Rightarrow> throw UndefinedBehaviour)
      else emit [] ())"
| "traverse_elements [] = emit [] ()"
| "traverse_elements (x # xs) =
     then_p (TraverseInternal x) (\<lambda>_.
       then_p (emit (if xs \<noteq> [] then [EvArraySeparator] else []) ()) (\<lambda>_. traverse_elements xs))"
| "traverse_members [] = emit [] ()"
| "traverse_members ((key, x) # ms) =
     then_p (lift_r (check_that (IsString key) AnyRpcErrorValueAccess (GetString key))) (\<lambda>s.
       then_p (emit [EvKey (s @ [0]) (length s) True] ()) (\<lambda>_.
         then_p (TraverseInternal x) (\<lambda>_.
           then_p (emit (if ms \<noteq> [] then [EvMapSeparator] else []) ()) (\<lambda>_. traverse_members ms))))"

declare TraverseInternal.simps [simp del]

definition Traverse :: "Value \<Rightarrow> unit producer" where "Traverse v = TraverseInternal v"

section \<open>Floating-point getters\<close>

text \<open>
  \<^verbatim>\<open>GetFloat\<close> tests \<^verbatim>\<open>FloatFlag\<close> first, which a double has as well, and then reads the
  \<^verbatim>\<open>float\<close> member of the union: the low half of the double's bits.
\<close>

definition GetFloat :: "Value \<Rightarrow> u32 result" where
  "GetFloat v = check_that (IsNumber v) AnyRpcErrorValueAccess
     (then_r (num_bits v) (\<lambda>n.
       if has_flag v FloatFlag then Inr (ucast n)
       else if has_flag v DoubleFlag then Inr (float_of_double n)
       else if has_flag v IntFlag then Inr (float_of_int (sint (ucast n :: 32 word)))
       else if has_flag v UintFlag then Inr (float_of_int (uint (ucast n :: u32)))
       else if has_flag v Int64Flag then Inr (float_of_int (sint n))
       else check_that (has_flag v Uint64Flag) AnyRpcErrorValueAccess (Inr (float_of_int (uint n)))))"

definition GetDouble :: "Value \<Rightarrow> u64 result" where
  "GetDouble v = check_that (IsNumber v) AnyRpcErrorValueAccess
     (then_r (num_bits v) (\<lambda>n.
       if has_flag v DoubleFlag then Inr n
       else if has_flag v FloatFlag then Inr (double_of_float (ucast n))
       else if has_flag v IntFlag then Inr (double_of_int (sint (ucast n :: 32 word)))
       else if has_flag v UintFlag then Inr (double_of_int (uint (ucast n :: u32)))
       else if has_flag v Int64Flag then Inr (double_of_int (sint n))
       else check_that (has_flag v Uint64Flag) AnyRpcErrorValueAccess (Inr (double_of_int (uint n)))))"

lemma GetFloat_of_double: "GetFloat (Value_double d) = Inr (ucast d)"
  by (simp add: GetFloat_def Value_double_def IsNumber_def has_flag_def)

lemma GetDouble_of_double: "GetDouble (Value_double d) = Inr d"
  by (simp add: GetDouble_def Value_double_def IsNumber_def has_flag_def)

section \<open>Event sequences that stand for a value\<close>

text \<open>
  An integer may come as any of the four integer events that can carry it, a string by copy or,
  null-terminated, by reference, and a container with or without its count at the start.
\<close>

definition string_event :: "bytes \<Rightarrow> bytes \<Rightarrow> nat \<Rightarrow> bool \<Rightarrow> bool" where
  "string_event s mem len copy \<longleftrightarrow> len = length s \<and> len \<le> length mem \<and> take len mem = s
     \<and> (copy \<or> len < length mem \<and> mem ! len = 0)"

text \<open>What a handler reads through a pointer and a length.\<close>

definition str_arg :: "bytes \<Rightarrow> nat \<Rightarrow> bytes result" where
  "str_arg mem len = (if len \<le> length mem then Inr (take len mem) else Inl UndefinedBehaviour)"

lemma string_event_arg: "string_event s mem len copy \<Longrightarrow> str_arg mem len = Inr s"
  by (auto simp: string_event_def str_arg_def)

inductive represents :: "aval \<Rightarrow> event list \<Rightarrow> bool"
and represents_members :: "(bytes \<times> aval) list \<Rightarrow> event list \<Rightarrow> bool"
and represents_elements :: "aval list \<Rightarrow> event list \<Rightarrow> bool" where
  rep_null: "represents ANull [EvNull]"
| rep_true: "represents (ABool True) [EvBoolTrue]"
| rep_false: "represents (ABool False) [EvBoolFalse]"
| rep_int: "represents (AInt (sint i)) [EvInt i]"
| rep_uint: "represents (AInt (uint u)) [EvUint u]"
| rep_int64: "represents (AInt (sint i64)) [EvInt64 i64]"
| rep_uint64: "represents (AInt (uint u64)) [EvUint64 u64]"
| rep_float: "represents (AFloat f) [EvFloat f]"
| rep_double: "represents (ADouble d) [EvDouble d]"
| rep_time: "represents (ATime t) [EvDateTime t]"
| rep_str: "string_event s mem len copy \<Longrightarrow> represents (AStr s) [EvString mem len copy]"
| rep_bin: "represents (ABin s) [EvBinary s copy]"
| rep_arr: "represents_elements xs es \<Longrightarrow> c = None \<or> c = Some (length xs) \<Longrightarrow>
     represents (AArr xs) (EvStartArray c # es @ [EvEndArray (length xs)])"
| rep_map: "represents_members ms es \<Longrightarrow> c = None \<or> c = Some (length ms) \<Longrightarrow>
     represents (AMap ms) (EvStartMap c # es @ [EvEndMap (length ms)])"
| rep_elements_Nil: "represents_elements [] []"
| rep_elements_one: "represents x es \<Longrightarrow> represents_elements [x] es"
| rep_elements_Cons: "represents x es \<Longrightarrow> represents_elements xs fs \<Longrightarrow> xs \<noteq> [] \<Longrightarrow>
     represents_elements (x # xs) (es @ EvArraySeparator # fs)"
| rep_members_Nil: "represents_members [] []"
| rep_members_one: "represents x es \<Longrightarrow> string_event k mem len copy \<Longrightarrow>
     represents_members [(k, x)] (EvKey mem len copy # es)"
| rep_members_Cons: "represents x es \<Longrightarrow> string_event k mem len copy \<Longrightarrow> represents_members ms fs \<Longrightarrow> ms \<noteq> [] \<Longrightarrow>
     represents_members ((k, x) # ms) (EvKey mem len copy # es @ EvMapSeparator # fs)"

lemmas rep_intros = represents_represents_members_represents_elements.intros
lemmas rep_induct = represents_represents_members_represents_elements.inducts

inductive_cases represents_ArrE: "represents (AArr xs) es"
inductive_cases represents_MapE: "represents (AMap ms) es"
inductive_simps represents_Invalid [simp]: "represents AInvalid es"
inductive_simps represents_elements_Nil_iff [simp]: "represents_elements [] es"
inductive_simps represents_members_Nil_iff [simp]: "represents_members [] es"

lemma string_event_copy [simp]: "string_event s (s @ [0]) (length s) True"
  by (simp add: string_event_def)

lemma represents_nonempty: "represents a es \<Longrightarrow> es \<noteq> []"
  by (cases rule: represents.cases) auto

text \<open>A value that contains no invalid one.\<close>

fun complete :: "aval \<Rightarrow> bool" where
  "complete AInvalid \<longleftrightarrow> False"
| "complete (AArr xs) \<longleftrightarrow> (\<forall>x \<in> set xs. complete x)"
| "complete (AMap ms) \<longleftrightarrow> (\<forall>m \<in> set ms. complete (snd m))"
| "complete _ \<longleftrightarrow> True"

section \<open>Traverse produces the events of the value\<close>

definition traverses :: "Value \<Rightarrow> bool" where
  "traverses v \<longleftrightarrow> (\<exists>es. TraverseInternal v = (es, Inr ()) \<and> represents (abs_value v) es)"

lemma traverse_elements_spec:
  assumes "\<forall>x \<in> set xs. traverses x"
  shows "\<exists>es. traverse_elements xs = (es, Inr ()) \<and> represents_elements (map abs_value xs) es"
  using assms
proof (induction xs)
  case Nil
  then show ?case by (simp add: emit_def)
next
  case (Cons x xs)
  then obtain es fs where x: "TraverseInternal x = (es, Inr ())" "represents (abs_value x) es"
    and xs: "traverse_elements xs = (fs, Inr ())" "represents_elements (map abs_value xs) fs"
    by (auto simp: traverses_def)
  show ?case
  proof (cases "xs = []")
    case True
    then show ?thesis using x xs by (auto intro: rep_intros)
  next
    case False
    then show ?thesis using x xs rep_elements_Cons [OF x(2) xs(2)] by auto
  qed
qed

lemma traverse_members_spec:
  assumes "\<forall>m \<in> set ms. IsString (fst m) \<and> value_ok (fst m) \<and> traverses (snd m)"
  shows "\<exists>es. traverse_members ms = (es, Inr ()) \<and> represents_members (map abs_member ms) es"
  using assms
proof (induction ms)
  case Nil
  then show ?case by (simp add: emit_def)
next
  case (Cons m ms)
  obtain key x where m: "m = (key, x)" by (cases m)
  let ?k = "str_bytes key"
  from Cons m obtain es fs where x: "TraverseInternal x = (es, Inr ())" "represents (abs_value x) es"
    and ms: "traverse_members ms = (fs, Inr ())" "represents_members (map abs_member ms) fs"
    by (auto simp: traverses_def)
  have key: "IsString key" "GetString key = Inr ?k" using Cons.prems m value_ok_bytes(1) [of key] by auto
  show ?case
  proof (cases "ms = []")
    case True
    then show ?thesis using m x ms key rep_members_one [OF x(2) string_event_copy, of ?k]
      by (auto simp: abs_member_def [of "(key, x)"])
  next
    case False
    then show ?thesis using m x ms key rep_members_Cons [OF x(2) string_event_copy ms(2), of ?k]
      by (auto simp: abs_member_def [of "(key, x)"])
  qed
qed

lemma represents_mk_number:
  assumes "value_ok (NumValue f n)"
  shows "traverses (NumValue f n)"
proof -
  have t: "GetType (NumValue f n) = NumberType" using GetType_cases [OF assms] by simp
  show ?thesis using assms
    by (auto simp: traverses_def TraverseInternal.simps t emit_def IsInt_def IsUint_def IsInt64_def
      IsUint64_def IsDouble_def has_flag_def intro: rep_intros)
qed

lemma traverse_spec: "value_ok v \<Longrightarrow> complete (abs_value v) \<Longrightarrow> traverses v"
proof (induction v)
  case (PlainValue f)
  then show ?case by (auto simp: traverses_def TraverseInternal.simps GetType_def emit_def intro: rep_intros)
next
  case (NumValue f n)
  then show ?case using represents_mk_number by blast
next
  case (TimeValue f t)
  then show ?case by (auto simp: traverses_def TraverseInternal.simps GetType_def emit_def intro: rep_intros)
next
  case (StrValue f s)
  then show ?case using rep_str [OF string_event_copy, of s]
    by (auto simp: traverses_def TraverseInternal.simps GetType_def emit_def GetString_def GetBinary_def
      IsString_def IsBinary_def has_flag_def string_data_def intro: rep_intros)
next
  case (ShortValue f a)
  then show ?case using rep_str [OF string_event_copy, of "take (ss_GetLength a) a"]
    by (auto simp: traverses_def TraverseInternal.simps GetType_def emit_def GetString_def GetBinary_def
      IsString_def IsBinary_def has_flag_def string_data_def intro: rep_intros)
next
  case (ArrValue f c xs)
  then have "\<forall>x \<in> set xs. traverses x" by simp
  from traverse_elements_spec [OF this] ArrValue.prems rep_arr [of "map abs_value xs" _ "Some (length xs)"]
  show ?case by (auto simp: traverses_def TraverseInternal.simps GetType_def emit_def)
next
  case (MapValue f c ms)
  have "traverses (snd m)" if "m \<in> set ms" for m
    using MapValue.IH(2) [OF that snds.intros] MapValue.prems that by simp
  with MapValue.prems have "\<forall>m \<in> set ms. IsString (fst m) \<and> value_ok (fst m) \<and> traverses (snd m)" by simp
  from traverse_members_spec [OF this] MapValue.prems rep_map [of "map abs_member ms" _ "Some (length ms)"]
  show ?case
    by (auto simp: traverses_def TraverseInternal.simps GetType_def emit_def abs_MapValue simp del: abs_value.simps)
qed

text \<open>\<^verbatim>\<open>Traverse\<close> always passes the count when it starts a container.\<close>

fun counted :: "event \<Rightarrow> bool" where
  "counted (EvStartMap c) \<longleftrightarrow> c \<noteq> None"
| "counted (EvStartArray c) \<longleftrightarrow> c \<noteq> None"
| "counted _ \<longleftrightarrow> True"

definition all_events :: "(event \<Rightarrow> bool) \<Rightarrow> 's producer \<Rightarrow> bool" where
  "all_events P p \<longleftrightarrow> (\<forall>e \<in> set (fst p). P e)"

lemma all_events_simps [simp]:
  "all_events P (throw e)" "all_events P (lift_r r)" "all_events P (emit es s) \<longleftrightarrow> (\<forall>e \<in> set es. P e)"
  by (simp_all add: all_events_def lift_r_def)

lemma all_events_pairs [simp]:
  "all_events P ([], r)" "all_events P (e # fst p, snd p) \<longleftrightarrow> P e \<and> all_events P p"
  by (simp_all add: all_events_def)

lemma all_events_then_p: "all_events P m \<Longrightarrow> (\<And>s. all_events P (k s)) \<Longrightarrow> all_events P (then_p m k)"
  by (cases m; cases "snd m") (auto simp: all_events_def)

lemma all_events_if: "(b \<Longrightarrow> all_events P p) \<Longrightarrow> (\<not> b \<Longrightarrow> all_events P q) \<Longrightarrow> all_events P (if b then p else q)"
  by simp

lemma traverse_counted:
  "all_events counted (TraverseInternal v)"
  "all_events counted (traverse_elements xs)"
  "all_events counted (traverse_members ms)"
proof (induction v and xs and ms rule: TraverseInternal_traverse_elements_traverse_members.induct)
  case (1 v)
  show ?case
  proof (cases "\<exists>f c xs ms. v = ArrValue f c xs \<or> v = MapValue f c ms")
    case True
    then show ?thesis using 1 unfolding TraverseInternal.simps [of v] Let_def
      by (intro all_events_if) (auto intro!: all_events_then_p)
  next
    case False
    then show ?thesis unfolding TraverseInternal.simps [of v] Let_def
      by (cases v) (auto intro!: all_events_then_p all_events_if)
  qed
next
  case (3 x xs)
  then show ?case by (auto intro!: all_events_then_p)
next
  case (5 key x ms)
  then show ?case by (auto intro!: all_events_then_p)
qed simp_all

section \<open>The interface of a consumer\<close>

text \<open>
  A consumer that is ready for a value takes any event sequence that represents an acceptable
  one and consists of events it supports, without throwing; \<open>took h a h'\<close> says how its state
  changed.
\<close>

locale sink =
  fixes step :: "'h \<Rightarrow> event \<Rightarrow> 'h result"
    and supports :: "event \<Rightarrow> bool"
    and ready :: "'h \<Rightarrow> bool"
    and accepts :: "aval \<Rightarrow> bool"
    and took :: "'h \<Rightarrow> aval \<Rightarrow> 'h \<Rightarrow> bool"
  assumes takes: "ready h \<Longrightarrow> accepts a \<Longrightarrow> represents a es \<Longrightarrow> \<forall>e \<in> set es. supports e \<Longrightarrow>
      \<exists>h'. run_events step es h = Inr h' \<and> took h a h'"
    and supports_counted: "counted e \<Longrightarrow> supports e"

context sink
begin

lemma feed_represents:
  assumes "ready h" "accepts a" "represents a es" "\<forall>e \<in> set es. supports e" "p = (es, Inr s)"
  shows "\<exists>h'. feed step p h = Inr (h', s) \<and> took h a h'"
  using takes [OF assms(1-4)] by (auto simp: feed_def assms(5))

lemma feed_traverse:
  assumes "ready h" "value_ok v" "complete (abs_value v)" "accepts (abs_value v)"
  shows "\<exists>h'. feed step (Traverse v) h = Inr (h', ()) \<and> took h (abs_value v) h'"
proof -
  from traverse_spec [OF assms(2,3)] obtain es where es: "Traverse v = (es, Inr ())" "represents (abs_value v) es"
    by (auto simp: traverses_def Traverse_def)
  with traverse_counted(1) [of v] have "\<forall>e \<in> set es. supports e"
    by (auto simp: Traverse_def all_events_def supports_counted)
  from feed_represents [OF assms(1,4) es(2) this es(1)] show ?thesis .
qed

end

end
