(* ===== verification/AnyRpc_Text.thy ===== *)
theory AnyRpc_Text
  imports AnyRpc_Prelude
begin

text \<open>
  What the library uses of the C formatting functions: decimal conversion (\<^verbatim>\<open>std::to_string\<close>,
  \<^verbatim>\<open>%d\<close>), the date format of \<^verbatim>\<open>snprintf\<close> and its counterpart for \<^verbatim>\<open>sscanf\<close>, and \<^verbatim>\<open>strncmp\<close>. Main
  result: scanning a printed date gives the date back.
\<close>

section \<open>Digits\<close>

definition digit :: "nat \<Rightarrow> byte" where "digit n = 0x30 + word_of_nat n"

definition is_digit :: "byte \<Rightarrow> bool" where "is_digit c \<longleftrightarrow> 0x30 \<le> c \<and> c \<le> 0x39"

definition digit_val :: "byte \<Rightarrow> nat" where "digit_val c = unat (c - 0x30)"

definition is_space :: "byte \<Rightarrow> bool" where "is_space c \<longleftrightarrow> c = 0x20 \<or> 0x09 \<le> c \<and> c \<le> 0x0D"

lemma digit_table: "\<forall>n \<in> set [0..<10]. is_digit (digit n) \<and> digit_val (digit n) = n \<and> \<not> is_space (digit n)
    \<and> digit n \<noteq> 0x2D \<and> digit n \<noteq> 0x2B"
  by code_simp

lemma digit_simps [simp]:
  assumes "n < 10"
  shows "is_digit (digit n)" "digit_val (digit n) = n" "\<not> is_space (digit n)" "digit n \<noteq> 0x2D" "digit n \<noteq> 0x2B"
  using digit_table assms by simp_all

section \<open>Decimal numbers\<close>

fun dec_nat :: "nat \<Rightarrow> bytes" where
  "dec_nat n = (if n < 10 then [digit n] else dec_nat (n div 10) @ [digit (n mod 10)])"

declare dec_nat.simps [simp del]

definition dec_int :: "int \<Rightarrow> bytes" where
  "dec_int i = (if i < 0 then 0x2D # dec_nat (nat (- i)) else dec_nat (nat i))"

fun digits_val :: "nat \<Rightarrow> bytes \<Rightarrow> nat" where
  "digits_val acc [] = acc"
| "digits_val acc (c # cs) = digits_val (acc * 10 + digit_val c) cs"

lemma digits_val_append: "digits_val acc (xs @ ys) = digits_val (digits_val acc xs) ys"
  by (induction acc xs rule: digits_val.induct) simp_all

lemma dec_nat_val: "digits_val 0 (dec_nat n) = n"
proof (induction n rule: dec_nat.induct)
  case (1 n)
  then show ?case by (subst dec_nat.simps) (auto simp: digits_val_append)
qed

lemma dec_nat_digits: "\<forall>c \<in> set (dec_nat n). is_digit c"
proof (induction n rule: dec_nat.induct)
  case (1 n)
  then show ?case by (subst dec_nat.simps) auto
qed

lemma dec_nat_not_Nil [simp]: "dec_nat n \<noteq> []"
  by (subst dec_nat.simps) simp

lemma dec_nat_length: "n < 10 ^ k \<Longrightarrow> 0 < k \<Longrightarrow> length (dec_nat n) \<le> k"
proof (induction n arbitrary: k rule: dec_nat.induct)
  case (1 n)
  show ?case
  proof (cases "n < 10")
    case True
    with "1.prems" show ?thesis by (subst dec_nat.simps) simp
  next
    case False
    with "1.prems" obtain j where j: "k = Suc j" "0 < j"
      by (cases k; cases "k - 1") auto
    then have "n div 10 < 10 ^ j" using "1.prems"(1) by (simp add: less_mult_imp_div_less mult.commute)
    with "1.IH" [OF False, of j] j False show ?thesis by (subst dec_nat.simps) simp
  qed
qed

text \<open>No leading zero.\<close>

lemma dec_nat_hd: "0 < n \<Longrightarrow> hd (dec_nat n) \<noteq> 0x30"
proof (induction n rule: dec_nat.induct)
  case (1 n)
  have "\<forall>n \<in> set [1..<10]. digit n \<noteq> 0x30" by code_simp
  with 1 show ?case by (subst dec_nat.simps) (auto simp: hd_append)
qed

section \<open>Dates\<close>

text \<open>The fields of \<^verbatim>\<open>struct tm\<close> that are used.\<close>

record tm =
  tm_year :: int
  tm_mon :: int
  tm_mday :: int
  tm_hour :: int
  tm_min :: int
  tm_sec :: int

definition pad :: "byte \<Rightarrow> nat \<Rightarrow> bytes \<Rightarrow> bytes" where
  "pad c k xs = replicate (k - length xs) c @ xs"

definition fmt_4d :: "int \<Rightarrow> bytes" where "fmt_4d i = pad 0x20 4 (dec_int i)"

definition fmt_02d :: "int \<Rightarrow> bytes" where
  "fmt_02d i = (if i < 0 then 0x2D # pad 0x30 1 (dec_nat (nat (- i))) else pad 0x30 2 (dec_nat (nat i)))"

text \<open>\<^verbatim>\<open>"%4d%02d%02dT%02d:%02d:%02d"\<close> of 1900+tm_year, 1+tm_mon and the rest.\<close>

definition fmt_tm :: "tm \<Rightarrow> bytes" where
  "fmt_tm t = fmt_4d (1900 + tm_year t) @ fmt_02d (1 + tm_mon t) @ fmt_02d (tm_mday t) @ [0x54]
     @ fmt_02d (tm_hour t) @ [0x3A] @ fmt_02d (tm_min t) @ [0x3A] @ fmt_02d (tm_sec t)"

text \<open>
  \<^verbatim>\<open>%wd\<close> of \<^verbatim>\<open>sscanf\<close>: white space, then at most w characters of sign and digits, at least one
  digit. A character of the format must match the next one.
\<close>

fun scan_digits :: "nat \<Rightarrow> bytes \<Rightarrow> bytes \<times> bytes" where
  "scan_digits 0 cs = ([], cs)"
| "scan_digits (Suc w) [] = ([], [])"
| "scan_digits (Suc w) (c # cs) =
     (if is_digit c then (case scan_digits w cs of (ds, rest) \<Rightarrow> (c # ds, rest)) else ([], c # cs))"

definition scan_d :: "nat \<Rightarrow> bytes \<Rightarrow> (int \<times> bytes) option" where
  "scan_d w s =
     (let cs = dropWhile is_space s;
          neg = (cs \<noteq> [] \<and> hd cs = 0x2D);
          sign = (cs \<noteq> [] \<and> (hd cs = 0x2D \<or> hd cs = 0x2B))
      in case scan_digits (if sign then w - 1 else w) (if sign then tl cs else cs) of
           (ds, rest) \<Rightarrow>
             if ds = [] then None
             else Some ((if neg then - 1 else 1) * int (digits_val 0 ds), rest))"

definition scan_char :: "byte \<Rightarrow> bytes \<Rightarrow> bytes option" where
  "scan_char c s = (case s of [] \<Rightarrow> None | x # xs \<Rightarrow> if x = c then Some xs else None)"

text \<open>\<^verbatim>\<open>sscanf(str, "%4d%2d%2dT%2d:%2d:%2d", ...) == 6\<close>, and the fields it stores.\<close>

definition scan_tm :: "bytes \<Rightarrow> tm option" where
  "scan_tm s =
     Option.bind (scan_d 4 s) (\<lambda>(year, s).
     Option.bind (scan_d 2 s) (\<lambda>(mon, s).
     Option.bind (scan_d 2 s) (\<lambda>(mday, s).
     Option.bind (scan_char 0x54 s) (\<lambda>s.
     Option.bind (scan_d 2 s) (\<lambda>(hour, s).
     Option.bind (scan_char 0x3A s) (\<lambda>s.
     Option.bind (scan_d 2 s) (\<lambda>(minute, s).
     Option.bind (scan_char 0x3A s) (\<lambda>s.
     Option.bind (scan_d 2 s) (\<lambda>(sec, s).
       Some \<lparr> tm_year = year, tm_mon = mon, tm_mday = mday, tm_hour = hour, tm_min = minute, tm_sec = sec \<rparr>)))))))))"

section \<open>strncmp\<close>

text \<open>\<^verbatim>\<open>strncmp(s1, s2, n) == 0\<close> on null-terminated strings.\<close>

fun strncmp_eq :: "bytes \<Rightarrow> bytes \<Rightarrow> nat \<Rightarrow> bool" where
  "strncmp_eq s1 s2 0 \<longleftrightarrow> True"
| "strncmp_eq (a # s1) (b # s2) (Suc n) \<longleftrightarrow> a = b \<and> (a = 0 \<or> strncmp_eq s1 s2 n)"
| "strncmp_eq [] s2 (Suc n) \<longleftrightarrow> s2 = [] \<or> hd s2 = 0"
| "strncmp_eq (a # s1) [] (Suc n) \<longleftrightarrow> a = 0"

section \<open>A printed date scans back\<close>

text \<open>Years of four digits; the other fields have at most two.\<close>

definition tm_printable :: "tm \<Rightarrow> bool" where
  "tm_printable t \<longleftrightarrow> - 900 \<le> tm_year t \<and> tm_year t < 8100 \<and> - 1 \<le> tm_mon t \<and> tm_mon t < 99
     \<and> 0 \<le> tm_mday t \<and> tm_mday t < 100 \<and> 0 \<le> tm_hour t \<and> tm_hour t < 100
     \<and> 0 \<le> tm_min t \<and> tm_min t < 100 \<and> 0 \<le> tm_sec t \<and> tm_sec t < 100"

lemma scan_digits_all:
  "\<forall>c \<in> set ds. is_digit c \<Longrightarrow> length ds = w \<Longrightarrow> scan_digits w (ds @ rest) = (ds, rest)"
  by (induction ds arbitrary: w) (auto split: prod.splits)

lemma is_digit_first: "is_digit c \<Longrightarrow> \<not> is_space c \<and> c \<noteq> 0x2D \<and> c \<noteq> 0x2B"
  by (auto simp: is_digit_def is_space_def word_le_nat_alt)

lemma scan_d_digits:
  assumes "\<forall>c \<in> set ds. is_digit c" "length ds = w" "0 < w"
  shows "scan_d w (ds @ rest) = Some (int (digits_val 0 ds), rest)"
proof -
  obtain c cs where ds: "ds = c # cs" using assms(2,3) by (cases ds) auto
  with assms(1) is_digit_first [of c] have "\<not> is_space c" "c \<noteq> 0x2D" "c \<noteq> 0x2B" by auto
  then show ?thesis using scan_digits_all [OF assms(1,2), of rest] ds by (simp add: scan_d_def Let_def)
qed

lemma digits_val_less: "\<forall>c \<in> set cs. is_digit c \<Longrightarrow> digits_val 0 cs < 10 ^ length cs"
proof (induction cs rule: rev_induct)
  case (snoc c cs)
  then have "48 \<le> unat c" "unat c \<le> 57" "digit_val c = unat c - 48"
    by (simp_all add: is_digit_def digit_val_def word_le_nat_alt unat_sub)
  then have "digit_val c < 10" by linarith
  with snoc show ?case by (simp add: digits_val_append)
qed simp

lemma digits_val_zeros: "digits_val 0 (replicate k 0x30 @ ds) = digits_val 0 ds"
  by (induction k) (simp_all add: digit_val_def)

lemma fmt_02d_scan:
  assumes "0 \<le> i" "i < 100"
  shows "scan_d 2 (fmt_02d i @ rest) = Some (i, rest)" "length (fmt_02d i) = 2"
proof -
  have l: "length (dec_nat (nat i)) \<le> 2" using assms by (intro dec_nat_length) auto
  then show len: "length (fmt_02d i) = 2" using assms by (simp add: fmt_02d_def pad_def)
  have "\<forall>c \<in> set (fmt_02d i). is_digit c"
    using assms dec_nat_digits [of "nat i"] by (auto simp: fmt_02d_def pad_def is_digit_def)
  from scan_d_digits [OF this len] show "scan_d 2 (fmt_02d i @ rest) = Some (i, rest)"
    using assms by (simp add: fmt_02d_def pad_def digits_val_zeros dec_nat_val)
qed

lemma fmt_4d_scan:
  assumes "1000 \<le> i" "i < 10000"
  shows "scan_d 4 (fmt_4d i @ rest) = Some (i, rest)" "length (fmt_4d i) = 4"
proof -
  have "length (dec_nat (nat i)) \<le> 4" using assms by (intro dec_nat_length) auto
  moreover have "\<not> length (dec_nat (nat i)) \<le> 3"
  proof
    assume "length (dec_nat (nat i)) \<le> 3"
    then have "(10 :: nat) ^ length (dec_nat (nat i)) \<le> 10 ^ 3" by (intro power_increasing) simp_all
    also have "\<dots> = 1000" by simp
    finally have "nat i < 1000" using digits_val_less [OF dec_nat_digits [of "nat i"]] unfolding dec_nat_val
      by (rule less_le_trans [rotated])
    with assms show False by simp
  qed
  ultimately have l: "length (dec_nat (nat i)) = 4" by linarith
  then show "length (fmt_4d i) = 4" using assms by (simp add: fmt_4d_def dec_int_def pad_def)
  show "scan_d 4 (fmt_4d i @ rest) = Some (i, rest)"
    using scan_d_digits [OF dec_nat_digits l, of rest] assms l
    by (simp add: fmt_4d_def dec_int_def pad_def dec_nat_val)
qed

lemma scan_fmt_tm:
  assumes "tm_printable t"
  shows "scan_tm (fmt_tm t) = Some (t \<lparr> tm_year := 1900 + tm_year t, tm_mon := 1 + tm_mon t \<rparr>)"
    "length (fmt_tm t) = 17"
proof -
  have 4: "1000 \<le> 1900 + tm_year t" "1900 + tm_year t < 10000" using assms by (simp_all add: tm_printable_def)
  have 2: "0 \<le> 1 + tm_mon t" "1 + tm_mon t < 100" using assms by (simp_all add: tm_printable_def)
  note f = fmt_4d_scan [OF 4] fmt_02d_scan [OF 2] fmt_02d_scan [of "tm_mday t"] fmt_02d_scan [of "tm_hour t"]
    fmt_02d_scan [of "tm_min t"] fmt_02d_scan [of "tm_sec t"]
  show "length (fmt_tm t) = 17" using f assms by (simp add: fmt_tm_def tm_printable_def)
  show "scan_tm (fmt_tm t) = Some (t \<lparr> tm_year := 1900 + tm_year t, tm_mon := 1 + tm_mon t \<rparr>)"
    using f(1,3,5,7,9) f(11) [of "[]"] assms
    by (simp add: fmt_tm_def scan_tm_def scan_char_def tm_printable_def)
qed

end
