(* ===== verification/AnyRpc_Document.thy ===== *)
theory AnyRpc_Document
  imports AnyRpc_Handler AnyRpc_Text
begin

text \<open>
  document.h and document.cpp: the handler that builds a value from events. \<^verbatim>\<open>stack_\<close> holds
  pointers into the value under construction; here a pointer is the path of indices that leads
  to its target from the root. The two agree because an element is only appended to a container
  when no pointer to one of its elements is on the stack, so that a reallocation of the
  container never leaves a pointer dangling.

  \<^verbatim>\<open>mktime\<close> depends on the time zone and is a parameter. Main result: the document takes any
  event sequence that represents a value and then holds that value, with floats widened and the
  two array extensions converted; \<open>Document\<close> is a \<open>sink\<close>.
\<close>

section \<open>Paths\<close>

fun child :: "Value \<Rightarrow> nat \<Rightarrow> Value option" where
  "child (ArrValue f c xs) i = (if i < length xs then Some (xs ! i) else None)"
| "child (MapValue f c ms) i = (if i < length ms then Some (snd (ms ! i)) else None)"
| "child _ i = None"

fun set_child :: "Value \<Rightarrow> nat \<Rightarrow> Value \<Rightarrow> Value" where
  "set_child (ArrValue f c xs) i x = ArrValue f c (xs[i := x])"
| "set_child (MapValue f c ms) i x = MapValue f c (ms[i := (fst (ms ! i), x)])"
| "set_child v i x = v"

fun get_at :: "nat list \<Rightarrow> Value \<Rightarrow> Value option" where
  "get_at [] v = Some v"
| "get_at (i # p) v = (case child v i of None \<Rightarrow> None | Some x \<Rightarrow> get_at p x)"

fun put_at :: "nat list \<Rightarrow> Value \<Rightarrow> Value \<Rightarrow> Value" where
  "put_at [] w v = w"
| "put_at (i # p) w v = (case child v i of None \<Rightarrow> v | Some x \<Rightarrow> set_child v i (put_at p w x))"

section \<open>The document\<close>

record document =
  doc_value :: "Value"
  doc_stack :: "nat list list"
  doc_convert :: bool

definition doc_new :: document where
  "doc_new = \<lparr> doc_value = Value_new, doc_stack = [], doc_convert = True \<rparr>"

text \<open>\<^verbatim>\<open>stack_.back()\<close>, its target, and changes of both; the last path is the head of the list.\<close>

definition doc_back :: "document \<Rightarrow> Value result" where
  "doc_back d = (case doc_stack d of
     [] \<Rightarrow> Inl UndefinedBehaviour
   | p # _ \<Rightarrow> (case get_at p (doc_value d) of None \<Rightarrow> Inl UndefinedBehaviour | Some v \<Rightarrow> Inr v))"

definition doc_set :: "Value \<Rightarrow> document \<Rightarrow> document" where
  "doc_set w d = (case doc_stack d of [] \<Rightarrow> d | p # _ \<Rightarrow> d \<lparr> doc_value := put_at p w (doc_value d) \<rparr>)"

definition doc_pop :: "document \<Rightarrow> document result" where
  "doc_pop d = (case doc_stack d of [] \<Rightarrow> Inl UndefinedBehaviour | _ # ps \<Rightarrow> Inr (d \<lparr> doc_stack := ps \<rparr>))"

definition doc_push :: "nat \<Rightarrow> document \<Rightarrow> document" where
  "doc_push i d = (case doc_stack d of [] \<Rightarrow> d | p # ps \<Rightarrow> d \<lparr> doc_stack := (p @ [i]) # p # ps \<rparr>)"

definition doc_invalid :: "document \<Rightarrow> (Value \<Rightarrow> document result) \<Rightarrow> document result" where
  "doc_invalid d k =
     then_r (doc_back d) (\<lambda>v. check_that (IsInvalid v) AnyRpcErrorAccessNotInvalidValue (k v))"

definition StartDocument :: "document \<Rightarrow> document" where
  "StartDocument d = d \<lparr> doc_value := SetInvalid (doc_value d), doc_stack := [[]] \<rparr>"

definition EndDocument :: "document \<Rightarrow> document" where
  "EndDocument d = d \<lparr> doc_stack := [] \<rparr>"

definition ConvertExtensions :: "bool \<Rightarrow> document \<Rightarrow> document" where
  "ConvertExtensions convert d = d \<lparr> doc_convert := convert \<rparr>"

definition doc_Null :: "document \<Rightarrow> document result" where
  "doc_Null d = doc_invalid d (\<lambda>v. Inr (doc_set (SetNull v) d))"
definition doc_BoolTrue :: "document \<Rightarrow> document result" where
  "doc_BoolTrue d = doc_invalid d (\<lambda>v. Inr (doc_set (SetBool True v) d))"
definition doc_BoolFalse :: "document \<Rightarrow> document result" where
  "doc_BoolFalse d = doc_invalid d (\<lambda>v. Inr (doc_set (SetBool False v) d))"
definition doc_Int :: "32 word \<Rightarrow> document \<Rightarrow> document result" where
  "doc_Int i d = doc_invalid d (\<lambda>v. Inr (doc_set (SetInt i v) d))"
definition doc_Uint :: "u32 \<Rightarrow> document \<Rightarrow> document result" where
  "doc_Uint u d = doc_invalid d (\<lambda>v. Inr (doc_set (SetUint u v) d))"
definition doc_Int64 :: "64 word \<Rightarrow> document \<Rightarrow> document result" where
  "doc_Int64 i64 d = doc_invalid d (\<lambda>v. Inr (doc_set (SetInt64 i64 v) d))"
definition doc_Uint64 :: "u64 \<Rightarrow> document \<Rightarrow> document result" where
  "doc_Uint64 u64 d = doc_invalid d (\<lambda>v. Inr (doc_set (SetUint64 u64 v) d))"
definition doc_Double :: "u64 \<Rightarrow> document \<Rightarrow> document result" where
  "doc_Double x d = doc_invalid d (\<lambda>v. Inr (doc_set (SetDouble x v) d))"
definition doc_DateTime :: "u64 \<Rightarrow> document \<Rightarrow> document result" where
  "doc_DateTime dt d = doc_invalid d (\<lambda>v. Inr (doc_set (SetDateTime dt v) d))"
definition doc_String :: "bytes \<Rightarrow> nat \<Rightarrow> bool \<Rightarrow> document \<Rightarrow> document result" where
  "doc_String mem len copy d = doc_invalid d (\<lambda>v.
     then_r (SetString mem len copy v) (\<lambda>w. Inr (doc_set w d)))"
definition doc_Binary :: "bytes \<Rightarrow> bool \<Rightarrow> document \<Rightarrow> document result" where
  "doc_Binary s copy d = doc_invalid d (\<lambda>v. Inr (doc_set (SetBinary s copy v) d))"

text \<open>\<^verbatim>\<open>Float\<close> is not overridden: the default of the base class calls \<^verbatim>\<open>Double\<close>.\<close>

definition doc_Float :: "u32 \<Rightarrow> document \<Rightarrow> document result" where
  "doc_Float f d = doc_Double (double_of_float f) d"

subsection \<open>Maps\<close>

definition doc_StartMap :: "document \<Rightarrow> document result" where
  "doc_StartMap d = doc_invalid d (\<lambda>v. Inr (doc_set (SetMap v) d))"

definition doc_Key :: "bytes \<Rightarrow> nat \<Rightarrow> bool \<Rightarrow> document \<Rightarrow> document result" where
  "doc_Key mem len copy d =
     then_r (doc_back d) (\<lambda>v.
       check_that (IsMap v) AnyRpcErrorValueAccess
         (then_r (AddMember_key v mem len copy) (\<lambda>v'.
           then_r (MemberCount v') (\<lambda>n. Inr (doc_push (n - 1) (doc_set v' d))))))"

definition doc_MapSeparator :: "document \<Rightarrow> document result" where
  "doc_MapSeparator d =
     then_r (doc_pop d) (\<lambda>d1. then_r (doc_back d1) (\<lambda>v.
       check_that (IsMap v) AnyRpcErrorValueAccess (Inr d1)))"

definition doc_EndMap :: "nat \<Rightarrow> document \<Rightarrow> document result" where
  "doc_EndMap memberCount d =
     then_r (if memberCount \<noteq> 0 then doc_pop d else Inr d) (\<lambda>d1.
       then_r (doc_back d1) (\<lambda>v. then_r (MemberCount v) (\<lambda>n.
         check_that (n = memberCount) AnyRpcErrorMapCountWrong (Inr d1))))"

subsection \<open>Arrays\<close>

definition doc_StartArray :: "document \<Rightarrow> document result" where
  "doc_StartArray d = doc_invalid d (\<lambda>v.
     then_r (PushBack Value_new (SetArray v)) (\<lambda>(v1, _).
       then_r (index_at v1 0) (\<lambda>v2. Inr (doc_push 0 (doc_set v2 d)))))"

definition doc_ArraySeparator :: "document \<Rightarrow> document result" where
  "doc_ArraySeparator d =
     then_r (doc_back d) (\<lambda>x. check_that (IsValid x) AnyRpcErrorAccessInvalidValue
       (then_r (doc_pop d) (\<lambda>d1. then_r (doc_back d1) (\<lambda>v. then_r (Size v) (\<lambda>size.
         then_r (PushBack Value_new v) (\<lambda>(v1, _).
           then_r (index_at v1 size) (\<lambda>v2. Inr (doc_push size (doc_set v2 d1)))))))))"

definition ANYRPC_DATETIME_STRING :: bytes where "ANYRPC_DATETIME_STRING = lit ''AnyRpcDateTime''"
definition ANYRPC_BASE64_STRING :: bytes where "ANYRPC_BASE64_STRING = lit ''AnyRpcBase64''"

text \<open>\<^verbatim>\<open>at(i)\<close> on an element that exists.\<close>

definition value_at_index :: "Value \<Rightarrow> nat \<Rightarrow> Value result" where
  "value_at_index v i = then_r (index_at v i) (\<lambda>v'.
     then_r (array_parts v') (\<lambda>(c, xs). if i < length xs then Inr (xs ! i) else Inl UndefinedBehaviour))"

definition doc_ConvertDateTime :: "(tm \<Rightarrow> u64) \<Rightarrow> Value \<Rightarrow> Value result" where
  "doc_ConvertDateTime mktime v =
     then_r (value_at_index v 1) (\<lambda>x. then_r (GetString x) (\<lambda>str.
       (case (if length str \<noteq> 17 then None else scan_tm (c_str str)) of
          None \<Rightarrow> Inl AnyRpcErrorTermination
        | Some t \<Rightarrow>
            Inr (SetDateTime (mktime (t \<lparr> tm_year := tm_year t - 1900, tm_mon := tm_mon t - 1 \<rparr>)) v))))"

definition doc_ConvertBase64 :: "Value \<Rightarrow> Value result" where
  "doc_ConvertBase64 v =
     then_r (value_at_index v 1) (\<lambda>x.
       let newValue = fst (Assign Value_new x); v1 = fst (Assign v newValue)
       in then_r (ConvertBase64 v1) (\<lambda>r.
            case r of None \<Rightarrow> Inl AnyRpcErrorBase64Invalid | Some w \<Rightarrow> Inr w))"

text \<open>
  \<^verbatim>\<open>strncmp\<close> is given the length of the first element, so that any prefix of the extension's
  name is taken for it, the empty string included. The \<^verbatim>\<open>else\<close> belongs to the outer \<^verbatim>\<open>if\<close>: the
  count is not compared when the first element is a string.
\<close>

definition ext_name :: "Value \<Rightarrow> bytes \<Rightarrow> bool result" where
  "ext_name x name = then_r (GetString x) (\<lambda>str. Inr (strncmp_eq (str @ [0]) (name @ [0]) (length str)))"

definition doc_convert_ext :: "(tm \<Rightarrow> u64) \<Rightarrow> Value \<Rightarrow> Value result" where
  "doc_convert_ext mktime v =
     then_r (value_at_index v 0) (\<lambda>x0. then_r (value_at_index v 1) (\<lambda>x1.
       then_r (ext_name x0 ANYRPC_DATETIME_STRING) (\<lambda>dt.
         if dt \<and> IsString x1 then doc_ConvertDateTime mktime v
         else then_r (ext_name x0 ANYRPC_BASE64_STRING) (\<lambda>b64.
           if b64 \<and> IsString x1 then doc_ConvertBase64 v else Inr v))))"

definition doc_EndArray :: "(tm \<Rightarrow> u64) \<Rightarrow> nat \<Rightarrow> document \<Rightarrow> document result" where
  "doc_EndArray mktime elementCount d =
     then_r (doc_back d) (\<lambda>x. then_r (doc_pop d) (\<lambda>d1. then_r (doc_back d1) (\<lambda>v.
       if IsInvalid x then
         then_r (Size v) (\<lambda>n. check_that (n = 1) AnyRpcErrorArrayCountWrong
           (then_r (SetSize 0 v) (\<lambda>v'. Inr (doc_set v' d1))))
       else
         then_r (if doc_convert d1
                 then then_r (Size v) (\<lambda>n. if n \<ge> 2 then then_r (value_at_index v 0) (\<lambda>x0. Inr (IsString x0))
                                        else Inr False)
                 else Inr False) (\<lambda>ext.
           if ext then then_r (doc_convert_ext mktime v) (\<lambda>v'. Inr (doc_set v' d1))
           else then_r (Size v) (\<lambda>n.
             check_that (n = elementCount) AnyRpcErrorArrayCountWrong (Inr d1))))))"

text \<open>Virtual dispatch.\<close>

fun doc_step :: "(tm \<Rightarrow> u64) \<Rightarrow> document \<Rightarrow> event \<Rightarrow> document result" where
  "doc_step mktime d EvStartDocument = Inr (StartDocument d)"
| "doc_step mktime d EvEndDocument = Inr (EndDocument d)"
| "doc_step mktime d EvNull = doc_Null d"
| "doc_step mktime d EvBoolTrue = doc_BoolTrue d"
| "doc_step mktime d EvBoolFalse = doc_BoolFalse d"
| "doc_step mktime d (EvDateTime dt) = doc_DateTime dt d"
| "doc_step mktime d (EvString mem len copy) = doc_String mem len copy d"
| "doc_step mktime d (EvBinary s copy) = doc_Binary s copy d"
| "doc_step mktime d (EvInt i) = doc_Int i d"
| "doc_step mktime d (EvUint u) = doc_Uint u d"
| "doc_step mktime d (EvInt64 i64) = doc_Int64 i64 d"
| "doc_step mktime d (EvUint64 u64) = doc_Uint64 u64 d"
| "doc_step mktime d (EvFloat f) = doc_Float f d"
| "doc_step mktime d (EvDouble x) = doc_Double x d"
| "doc_step mktime d (EvStartMap _) = doc_StartMap d"
| "doc_step mktime d (EvKey mem len copy) = doc_Key mem len copy d"
| "doc_step mktime d EvMapSeparator = doc_MapSeparator d"
| "doc_step mktime d (EvEndMap n) = doc_EndMap n d"
| "doc_step mktime d (EvStartArray _) = doc_StartArray d"
| "doc_step mktime d EvArraySeparator = doc_ArraySeparator d"
| "doc_step mktime d (EvEndArray n) = doc_EndArray mktime n d"

section \<open>Laws of paths\<close>

lemma get_at_append: "get_at (p @ q) v = (case get_at p v of None \<Rightarrow> None | Some x \<Rightarrow> get_at q x)"
  by (induction p arbitrary: v) (auto split: option.splits)

lemma child_set_child: "child v i = Some x \<Longrightarrow> child (set_child v i y) i = Some y"
  by (cases v) (auto split: if_splits)

lemma set_child_twice: "set_child (set_child v i x) i y = set_child v i y"
  by (cases v; cases "i < length (members_of v)") (auto simp: list_update_beyond)

lemma get_put_at: "get_at p v = Some x \<Longrightarrow> get_at p (put_at p w v) = Some w"
  by (induction p arbitrary: v) (auto simp: child_set_child split: option.splits)

lemma put_put_at: "get_at p v = Some x \<Longrightarrow> put_at p w (put_at p w' v) = put_at p w v"
  by (induction p arbitrary: v) (auto simp: child_set_child set_child_twice split: option.splits)

lemma put_at_append:
  "get_at p v = Some x \<Longrightarrow> put_at (p @ q) w v = put_at p (put_at q w x) v"
  by (induction p arbitrary: v) (auto split: option.splits)

lemma get_at_element: "get_at p V = Some x \<Longrightarrow> get_at (p @ [k]) (put_at p X V) = child X k"
  by (simp add: get_at_append get_put_at split: option.splits)

lemma put_at_element:
  assumes "get_at p V = Some x" "child X k = Some y"
  shows "put_at (p @ [k]) w (put_at p X V) = put_at p (set_child X k w) V"
  using put_at_append [OF get_put_at [OF assms(1)], of "[k]" w X] put_put_at [OF assms(1)] assms(2) by simp

section \<open>What a document holds after a value\<close>

text \<open>
  Floats are widened; an array whose first two elements are strings may be an extension.
  \<open>None\<close>: the document throws.
\<close>

definition names_ext :: "bytes \<Rightarrow> bytes \<Rightarrow> bool" where
  "names_ext s name \<longleftrightarrow> strncmp_eq (s @ [0]) (name @ [0]) (length s)"

definition ext_norm :: "bool \<Rightarrow> (tm \<Rightarrow> u64) \<Rightarrow> aval list \<Rightarrow> aval option" where
  "ext_norm cv mktime xs =
     (if cv then
        (case xs of
           AStr s # AStr t # _ \<Rightarrow>
             if names_ext s ANYRPC_DATETIME_STRING then
               (if length t \<noteq> 17 then None
                else map_option (\<lambda>t. ATime (mktime (t \<lparr> tm_year := tm_year t - 1900, tm_mon := tm_mon t - 1 \<rparr>)))
                       (scan_tm (c_str t)))
             else if names_ext s ANYRPC_BASE64_STRING then
               (case Base64DecodeBuffer [] t of
                  None \<Rightarrow> None | Some out \<Rightarrow> if out = [] then None else Some (ABin out))
             else Some (AArr xs)
         | _ \<Rightarrow> Some (AArr xs))
      else Some (AArr xs))"

fun doc_norm :: "bool \<Rightarrow> (tm \<Rightarrow> u64) \<Rightarrow> aval \<Rightarrow> aval option" where
  "doc_norm cv mktime AInvalid = None"
| "doc_norm cv mktime (AFloat f) = Some (ADouble (double_of_float f))"
| "doc_norm cv mktime (AArr xs) = Option.bind (those (map (doc_norm cv mktime) xs)) (ext_norm cv mktime)"
| "doc_norm cv mktime (AMap ms) =
     map_option AMap (those (map (\<lambda>m. map_option (Pair (fst m)) (doc_norm cv mktime (snd m))) ms))"
| "doc_norm cv mktime a = Some a"

text \<open>The sizes for which the containers never reach their limits.\<close>

fun doc_fits :: "aval \<Rightarrow> bool" where
  "doc_fits (AArr xs) \<longleftrightarrow> length xs \<le> 10000000 \<and> (\<forall>x \<in> set xs. doc_fits x)"
| "doc_fits (AMap ms) \<longleftrightarrow> length ms \<le> MaxMapCapacity \<and> (\<forall>m \<in> set ms. doc_fits (snd m))"
| "doc_fits a \<longleftrightarrow> True"

section \<open>Steps on a document in focus\<close>

definition mkdoc :: "Value \<Rightarrow> nat list list \<Rightarrow> bool \<Rightarrow> document" where
  "mkdoc V stk cv = \<lparr> doc_value = V, doc_stack = stk, doc_convert = cv \<rparr>"

lemma mkdoc_simps [simp]:
  "get_at p V = Some x \<Longrightarrow> doc_back (mkdoc V (p # ps) cv) = Inr x"
  "doc_set w (mkdoc V (p # ps) cv) = mkdoc (put_at p w V) (p # ps) cv"
  "doc_pop (mkdoc V (p # ps) cv) = Inr (mkdoc V ps cv)"
  "doc_push i (mkdoc V (p # ps) cv) = mkdoc V ((p @ [i]) # p # ps) cv"
  "doc_convert (mkdoc V stk cv) = cv"
  by (simp_all add: mkdoc_def doc_back_def doc_set_def doc_pop_def doc_push_def)

lemma doc_invalid_mk [simp]:
  "get_at p V = Some (PlainValue 0) \<Longrightarrow> doc_invalid (mkdoc V (p # ps) cv) k = k (PlainValue 0)"
  by (simp add: doc_invalid_def)

lemma doc_StartArray_mk:
  "get_at p V = Some (PlainValue 0) \<Longrightarrow>
   doc_StartArray (mkdoc V (p # ps) cv)
     = Inr (mkdoc (put_at p (ArrValue ArrayType 16 [PlainValue 0]) V) ((p @ [0]) # p # ps) cv)"
  by (simp add: doc_StartArray_def SetArray_def PushBack_def RawAssign_def Reserve_def Value_new_def
    DefaultArrayCapacity_def MaxArrayCapacity_def index_at_def)

lemma doc_ArraySeparator_mk:
  assumes "get_at p V = Some z" "value_ok (ArrValue ArrayType c xs)" "length xs \<le> 9999999"
    and "k < length xs" "IsValid (xs ! k)"
  shows "\<exists>c'. doc_ArraySeparator (mkdoc (put_at p (ArrValue ArrayType c xs) V) ((p @ [k]) # p # ps) cv)
      = Inr (mkdoc (put_at p (ArrValue ArrayType c' (xs @ [PlainValue 0])) V) ((p @ [length xs]) # p # ps) cv)
    \<and> value_ok (ArrValue ArrayType c' (xs @ [PlainValue 0]))"
proof -
  have "length xs < c \<or> c + (c + 1) div 2 < MaxArrayCapacity"
    using assms(2,3) by (auto simp: MaxArrayCapacity_def)
  from PushBack_spec [OF assms(2) _ this, of "PlainValue 0"] obtain v' where
    v': "PushBack (PlainValue 0) (ArrValue ArrayType c xs) = Inr (v', PlainValue 1)" "value_ok v'" "IsArray v'"
    "elements_of v' = xs @ [PlainValue 0]" by auto
  then obtain c' where c': "v' = ArrValue ArrayType c' (xs @ [PlainValue 0])"
    using value_ok_shapes(2) [OF v'(2)] by auto
  have "get_at (p @ [k]) (put_at p (ArrValue ArrayType c xs) V) = Some (xs ! k)"
    using get_at_element [OF assms(1)] assms(4) by simp
  moreover have "get_at p (put_at p (ArrValue ArrayType c xs) V) = Some (ArrValue ArrayType c xs)"
    by (rule get_put_at [OF assms(1)])
  ultimately show ?thesis
    using v'(1,2) assms(5) put_put_at [OF assms(1)]
    by (intro exI [of _ c']) (simp add: doc_ArraySeparator_def Size_def Value_new_def c' index_at_def)
qed

lemma value_at_index_mk: "i < length xs \<Longrightarrow> value_at_index (ArrValue ArrayType c xs) i = Inr (xs ! i)"
  by (simp add: value_at_index_def index_at_def)

lemma doc_EndArray_empty:
  assumes "get_at p V = Some z"
  shows "doc_EndArray mktime 0 (mkdoc (put_at p (ArrValue ArrayType 16 [PlainValue 0]) V) ((p @ [0]) # p # ps) cv)
    = Inr (mkdoc (put_at p (ArrValue ArrayType 16 []) V) (p # ps) cv)"
  using get_at_element [OF assms] get_put_at [OF assms] put_put_at [OF assms]
  by (simp add: doc_EndArray_def Size_def SetSize_def MaxArrayCapacity_def)

lemma abs_string: "value_ok x \<Longrightarrow> abs_value x = AStr s \<Longrightarrow> IsString x \<and> GetString x = Inr s"
  by (cases x) (auto simp: IsString_def GetString_def has_flag_def string_data_def split: if_splits)

lemma abs_not_string: "value_ok x \<Longrightarrow> (\<forall>s. abs_value x \<noteq> AStr s) \<Longrightarrow> \<not> IsString x"
  using value_ok_bytes(1) by blast

text \<open>The extension test on the elements and on what they stand for.\<close>

lemma doc_convert_ext_spec:
  assumes "value_ok (ArrValue ArrayType c ws)" "length ws \<ge> 2" "IsString (ws ! 0)"
    and "ext_norm True mktime (map abs_value ws) = Some b"
  shows "\<exists>w. doc_convert_ext mktime (ArrValue ArrayType c ws) = Inr w \<and> value_ok w \<and> IsValid w \<and> abs_value w = b"
proof -
  obtain x0 x1 xs where ws: "ws = x0 # x1 # xs"
    using assms(2) by (cases ws; cases "tl ws") auto
  with assms(1) have ok: "value_ok x0" "value_ok x1" by auto
  have at: "value_at_index (ArrValue ArrayType c ws) 0 = Inr x0"
    "value_at_index (ArrValue ArrayType c ws) (Suc 0) = Inr x1"
    using ws value_at_index_mk [of 0 ws c] value_at_index_mk [of 1 ws c] by auto
  obtain s where s: "abs_value x0 = AStr s" "GetString x0 = Inr s"
    using value_ok_bytes(1) [OF ok(1)] assms(3) ws by auto
  have name: "ext_name x0 n = Inr (names_ext s n)" for n
    by (simp add: ext_name_def s(2) names_ext_def)
  note d = doc_convert_ext_def at name
  show ?thesis
  proof (cases "IsString x1")
    case False
    with value_ok_shapes assms(4) have "b = AArr (map abs_value ws)"
      using ok(2) abs_string [OF ok(2)] by (auto simp: ws s ext_norm_def split: aval.splits)
    then show ?thesis using False assms(1) by (simp add: d) (simp add: IsValid_def)
  next
    case True
    then obtain t where t: "abs_value x1 = AStr t" "GetString x1 = Inr t" "str_bytes x1 = t"
      using value_ok_bytes(1) [OF ok(2)] by auto
    consider "names_ext s ANYRPC_DATETIME_STRING"
      | "\<not> names_ext s ANYRPC_DATETIME_STRING" "names_ext s ANYRPC_BASE64_STRING"
      | "\<not> names_ext s ANYRPC_DATETIME_STRING" "\<not> names_ext s ANYRPC_BASE64_STRING" by blast
    then show ?thesis
    proof cases
      case 1
      with assms(4) show ?thesis
        by (auto simp: d True s t doc_ConvertDateTime_def SetDateTime_def IsValid_def)
           (auto simp: ws s t ext_norm_def SetDateTime_def split: if_splits)
    next
      case 2
      with assms(4) obtain out where out: "Base64DecodeBuffer [] t = Some out" "out \<noteq> []" "b = ABin out"
        by (auto simp: ws s t ext_norm_def split: option.splits if_splits)
      then obtain w where "ConvertBase64 x1 = Inr (Some w)" "value_ok w" "IsBinary w" "abs_value w = ABin out"
        using ConvertBase64_spec [OF ok(2) True] t by auto
      moreover from this have "IsValid w" by (auto simp: IsValid_def IsBinary_def has_flag_def)
      ultimately show ?thesis using 2 out
        by (simp add: d True doc_ConvertBase64_def at Assign_def RawAssign_def)
    next
      case 3
      with assms(4) have "b = AArr (map abs_value ws)" by (simp add: ws s t ext_norm_def)
      then show ?thesis using 3 assms(1) by (simp add: d True) (simp add: IsValid_def)
    qed
  qed
qed

lemma doc_EndArray_mk:
  assumes "get_at p V = Some z" "value_ok (ArrValue ArrayType c ws)" "ws \<noteq> []" "IsValid (last ws)"
    and "ext_norm cv mktime (map abs_value ws) = Some b"
  shows "\<exists>w. doc_EndArray mktime (length ws)
        (mkdoc (put_at p (ArrValue ArrayType c ws) V) ((p @ [length ws - 1]) # p # ps) cv)
      = Inr (mkdoc (put_at p w V) (p # ps) cv) \<and> value_ok w \<and> IsValid w \<and> abs_value w = b"
proof -
  let ?a = "ArrValue ArrayType c ws"
  have top: "get_at (p @ [length ws - 1]) (put_at p ?a V) = Some (last ws)"
    using get_at_element [OF assms(1)] assms(3) by (simp add: last_conv_nth)
  note under = get_put_at [OF assms(1), of ?a]
  have valid: "\<not> IsInvalid (last ws)" using assms(4) by (simp add: IsValid_def IsInvalid_def)
  show ?thesis
  proof (cases "cv \<and> length ws \<ge> 2 \<and> IsString (ws ! 0)")
    case True
    then obtain w where "doc_convert_ext mktime ?a = Inr w" "value_ok w" "IsValid w" "abs_value w = b"
      using doc_convert_ext_spec [OF assms(2)] assms(5) by (auto simp: ext_norm_def)
    then show ?thesis
      using True top under valid put_put_at [OF assms(1)] value_at_index_mk [of 0 ws c] assms(3)
      by (intro exI [of _ w]) (simp add: doc_EndArray_def Size_def)
  next
    case False
    have "ext_norm cv mktime (map abs_value ws) = Some (AArr (map abs_value ws))"
    proof (cases "cv \<and> length ws \<ge> 2")
      case True
      with False have "\<not> IsString (ws ! 0)" by simp
      moreover have "value_ok (ws ! 0)" using assms(2,3) by simp
      ultimately have "abs_value (ws ! 0) \<noteq> AStr s" for s using abs_string by blast
      with assms(3) show ?thesis by (cases ws) (auto simp: ext_norm_def split: aval.splits)
    next
      case False
      then show ?thesis by (auto simp: ext_norm_def split: list.splits aval.splits)
    qed
    with assms(5) have "b = abs_value ?a" by simp
    then show ?thesis
      using False top under valid value_at_index_mk [of 0 ws c] assms(2,3)
      by (intro exI [of _ ?a]) (auto simp: doc_EndArray_def Size_def IsValid_def)
  qed
qed

lemma doc_Key_mk:
  assumes "get_at p V = Some z" "value_ok (MapValue MapType c ms)" "length ms < MaxMapCapacity"
    and "string_event k mem len copy"
  shows "\<exists>c' key. doc_Key mem len copy (mkdoc (put_at p (MapValue MapType c ms) V) (p # ps) cv)
      = Inr (mkdoc (put_at p (MapValue MapType c' (ms @ [(key, PlainValue 0)])) V) ((p @ [length ms]) # p # ps) cv)
    \<and> value_ok (MapValue MapType c' (ms @ [(key, PlainValue 0)])) \<and> str_bytes key = k"
proof -
  let ?m = "MapValue MapType c ms"
  obtain c' where c': "AddMemberCheckCapacity ?m = Inr (c', ms)" "length ms < c'" "c' \<le> MaxMapCapacity"
    using AddMemberCheckCapacity_ok [OF assms(2)] assms(3) by auto
  obtain key where key: "SetString mem len copy (PlainValue 0) = Inr key" "IsString key" "value_ok key" "str_bytes key = k"
    using assms(4) CopyString_spec [of k]
    by (cases copy) (auto simp: string_event_def SetString_def Value_str_def IsString_def has_flag_def)
  have "AddMember_key ?m mem len copy = Inr (MapValue MapType c' (ms @ [(key, PlainValue 0)]))"
    using c'(1) key(1) by (simp add: AddMember_key_def SetInvalid_def Destroy_def)
  moreover have "value_ok (MapValue MapType c' (ms @ [(key, PlainValue 0)]))"
    using assms(2) c' key by auto
  ultimately show ?thesis
    using get_put_at [OF assms(1), of ?m] put_put_at [OF assms(1)] key(4)
    by (intro exI [of _ c'] exI [of _ key] conjI) (simp_all add: doc_Key_def MemberCount_def del: value_ok.simps)
qed

lemma doc_MapSeparator_mk:
  "get_at p V = Some z \<Longrightarrow>
   doc_MapSeparator (mkdoc (put_at p (MapValue MapType c ms) V) ((p @ [k]) # p # ps) cv)
     = Inr (mkdoc (put_at p (MapValue MapType c ms) V) (p # ps) cv)"
  using get_put_at [of p V z "MapValue MapType c ms"] by (simp add: doc_MapSeparator_def)

lemma doc_EndMap_mk:
  assumes "get_at p V = Some z"
  shows "ms \<noteq> [] \<Longrightarrow> doc_EndMap (length ms) (mkdoc (put_at p (MapValue MapType c ms) V) ((p @ [k]) # p # ps) cv)
     = Inr (mkdoc (put_at p (MapValue MapType c ms) V) (p # ps) cv)"
    "doc_EndMap 0 (mkdoc (put_at p (MapValue MapType c []) V) (p # ps) cv)
     = Inr (mkdoc (put_at p (MapValue MapType c []) V) (p # ps) cv)"
  using get_put_at [OF assms, of "MapValue MapType c ms"] get_put_at [OF assms, of "MapValue MapType c []"]
  by (simp_all add: doc_EndMap_def MemberCount_def)

section \<open>The document takes a value\<close>

text \<open>
  What the events of a value, of the elements of an array and of the members of a map do to a
  document whose top pointer (path \<open>p\<close>) is the invalid value, the array, or the map.
\<close>

definition takes_value :: "(tm \<Rightarrow> u64) \<Rightarrow> aval \<Rightarrow> event list \<Rightarrow> bool" where
  "takes_value mktime a es \<longleftrightarrow>
     (\<forall>V p ps cv b. get_at p V = Some (PlainValue 0) \<longrightarrow> doc_fits a \<longrightarrow> doc_norm cv mktime a = Some b \<longrightarrow>
       (\<exists>w. value_ok w \<and> IsValid w \<and> abs_value w = b \<and>
         run_events (doc_step mktime) es (mkdoc V (p # ps) cv) = Inr (mkdoc (put_at p w V) (p # ps) cv)))"

definition takes_elements :: "(tm \<Rightarrow> u64) \<Rightarrow> aval list \<Rightarrow> event list \<Rightarrow> bool" where
  "takes_elements mktime xs es \<longleftrightarrow>
     (\<forall>V z p ps cv c pre bs. get_at p V = Some z \<longrightarrow> xs \<noteq> [] \<longrightarrow> (\<forall>x \<in> set xs. doc_fits x) \<longrightarrow>
       length pre + length xs \<le> 10000000 \<longrightarrow> value_ok (ArrValue ArrayType c (pre @ [PlainValue 0])) \<longrightarrow>
       those (map (doc_norm cv mktime) xs) = Some bs \<longrightarrow>
       (\<exists>c' ws. length ws = length xs \<and> value_ok (ArrValue ArrayType c' (pre @ ws)) \<and> IsValid (last ws)
         \<and> map abs_value ws = bs \<and>
         run_events (doc_step mktime) es
           (mkdoc (put_at p (ArrValue ArrayType c (pre @ [PlainValue 0])) V) ((p @ [length pre]) # p # ps) cv)
         = Inr (mkdoc (put_at p (ArrValue ArrayType c' (pre @ ws)) V)
             ((p @ [length pre + length xs - 1]) # p # ps) cv)))"

definition norm_member :: "bool \<Rightarrow> (tm \<Rightarrow> u64) \<Rightarrow> bytes \<times> aval \<Rightarrow> (bytes \<times> aval) option" where
  "norm_member cv mktime m = map_option (Pair (fst m)) (doc_norm cv mktime (snd m))"

definition takes_members :: "(tm \<Rightarrow> u64) \<Rightarrow> (bytes \<times> aval) list \<Rightarrow> event list \<Rightarrow> bool" where
  "takes_members mktime ms es \<longleftrightarrow>
     (\<forall>V z p ps cv c pre bs. get_at p V = Some z \<longrightarrow> ms \<noteq> [] \<longrightarrow> (\<forall>m \<in> set ms. doc_fits (snd m)) \<longrightarrow>
       length pre + length ms \<le> MaxMapCapacity \<longrightarrow> value_ok (MapValue MapType c pre) \<longrightarrow>
       those (map (norm_member cv mktime) ms) = Some bs \<longrightarrow>
       (\<exists>c' new. length new = length ms \<and> value_ok (MapValue MapType c' (pre @ new))
         \<and> map abs_member new = bs \<and>
         run_events (doc_step mktime) es (mkdoc (put_at p (MapValue MapType c pre) V) (p # ps) cv)
         = Inr (mkdoc (put_at p (MapValue MapType c' (pre @ new)) V)
             ((p @ [length pre + length ms - 1]) # p # ps) cv)))"

lemma those_Cons [simp]:
  "those (x # xs) = Some ys \<longleftrightarrow> (\<exists>y zs. x = Some y \<and> those xs = Some zs \<and> ys = y # zs)"
  by (cases x) auto

lemma takes_scalar:
  assumes "\<And>V p ps cv. get_at p V = Some (PlainValue 0) \<Longrightarrow>
      doc_step mktime (mkdoc V (p # ps) cv) e = Inr (mkdoc (put_at p w V) (p # ps) cv)"
    and "value_ok w" "IsValid w" "\<And>cv b. doc_norm cv mktime a = Some b \<Longrightarrow> abs_value w = b"
  shows "takes_value mktime a [e]"
  using assms by (auto simp: takes_value_def)

lemma mk_int_valid: "IsValid (mk_int z)"
  by (simp add: IsValid_def mk_int_def)

lemma takes_one_element:
  assumes "takes_value mktime x es" "get_at p V = Some z" "doc_fits x" "doc_norm cv mktime x = Some b"
    and "value_ok (ArrValue ArrayType c (pre @ [PlainValue 0]))"
  shows "\<exists>w. value_ok (ArrValue ArrayType c (pre @ [w])) \<and> IsValid w \<and> abs_value w = b \<and>
    run_events (doc_step mktime) es
      (mkdoc (put_at p (ArrValue ArrayType c (pre @ [PlainValue 0])) V) ((p @ [length pre]) # p # ps) cv)
    = Inr (mkdoc (put_at p (ArrValue ArrayType c (pre @ [w])) V) ((p @ [length pre]) # p # ps) cv)"
proof -
  let ?X = "ArrValue ArrayType c (pre @ [PlainValue 0])"
  have child: "child ?X (length pre) = Some (PlainValue 0)" by simp
  have "get_at (p @ [length pre]) (put_at p ?X V) = Some (PlainValue 0)"
    using get_at_element [OF assms(2)] child by metis
  from assms(1) [unfolded takes_value_def, rule_format, OF this assms(3,4)] obtain w where
    w: "value_ok w" "IsValid w" "abs_value w = b" "run_events (doc_step mktime) es
      (mkdoc (put_at p ?X V) ((p @ [length pre]) # p # ps) cv)
      = Inr (mkdoc (put_at (p @ [length pre]) w (put_at p ?X V)) ((p @ [length pre]) # p # ps) cv)" by blast
  moreover have "put_at (p @ [length pre]) w (put_at p ?X V) = put_at p (ArrValue ArrayType c (pre @ [w])) V"
    using put_at_element [OF assms(2) child] by simp
  ultimately show ?thesis using assms(5) by auto
qed

lemma takes_one_member:
  assumes "takes_value mktime x es" "get_at p V = Some z" "doc_fits x" "doc_norm cv mktime x = Some b"
    and "value_ok (MapValue MapType c pre)" "length pre < MaxMapCapacity" "string_event k mem len copy"
  shows "\<exists>c' m. value_ok (MapValue MapType c' (pre @ [m])) \<and> abs_member m = (k, b) \<and>
    run_events (doc_step mktime) (EvKey mem len copy # es) (mkdoc (put_at p (MapValue MapType c pre) V) (p # ps) cv)
    = Inr (mkdoc (put_at p (MapValue MapType c' (pre @ [m])) V) ((p @ [length pre]) # p # ps) cv)"
proof -
  from doc_Key_mk [OF assms(2,5,6,7), of ps cv] obtain c' key where
    k: "doc_Key mem len copy (mkdoc (put_at p (MapValue MapType c pre) V) (p # ps) cv)
      = Inr (mkdoc (put_at p (MapValue MapType c' (pre @ [(key, PlainValue 0)])) V) ((p @ [length pre]) # p # ps) cv)"
      "value_ok (MapValue MapType c' (pre @ [(key, PlainValue 0)]))" "str_bytes key = k" by blast
  let ?X = "MapValue MapType c' (pre @ [(key, PlainValue 0)])"
  have child: "child ?X (length pre) = Some (PlainValue 0)" by simp
  have "get_at (p @ [length pre]) (put_at p ?X V) = Some (PlainValue 0)"
    using get_at_element [OF assms(2)] child by metis
  from assms(1) [unfolded takes_value_def, rule_format, OF this assms(3,4)] obtain w where
    w: "value_ok w" "abs_value w = b" "run_events (doc_step mktime) es
      (mkdoc (put_at p ?X V) ((p @ [length pre]) # p # ps) cv)
      = Inr (mkdoc (put_at (p @ [length pre]) w (put_at p ?X V)) ((p @ [length pre]) # p # ps) cv)" by blast
  moreover have "put_at (p @ [length pre]) w (put_at p ?X V) = put_at p (MapValue MapType c' (pre @ [(key, w)])) V"
    using put_at_element [OF assms(2) child] by simp
  ultimately show ?thesis using k by (intro exI [of _ c'] exI [of _ "(key, w)"]) (auto simp: abs_member_def)
qed


lemma takes_elements_Cons:
  assumes "takes_value mktime x es" "takes_elements mktime xs fs" "xs \<noteq> []"
  shows "takes_elements mktime (x # xs) (es @ EvArraySeparator # fs)"
  unfolding takes_elements_def
proof (intro allI impI)
  fix V z p ps cv c pre bs
  assume a: "get_at p V = Some z" "x # xs \<noteq> []" "\<forall>x \<in> set (x # xs). doc_fits x"
    "length pre + length (x # xs) \<le> 10000000" "value_ok (ArrValue ArrayType c (pre @ [PlainValue 0]))"
    "those (map (doc_norm cv mktime) (x # xs)) = Some bs"
  from a(6) obtain b bs' where bs: "doc_norm cv mktime x = Some b" "those (map (doc_norm cv mktime) xs) = Some bs'"
    "bs = b # bs'" by (auto split: option.splits)
  have fit: "doc_fits x" "\<forall>x \<in> set xs. doc_fits x" using a(3) by auto
  from takes_one_element [OF assms(1) a(1) fit(1) bs(1) a(5), of ps] obtain w where
    w: "value_ok (ArrValue ArrayType c (pre @ [w]))" "IsValid w" "abs_value w = b"
      "run_events (doc_step mktime) es
        (mkdoc (put_at p (ArrValue ArrayType c (pre @ [PlainValue 0])) V) ((p @ [length pre]) # p # ps) cv)
      = Inr (mkdoc (put_at p (ArrValue ArrayType c (pre @ [w])) V) ((p @ [length pre]) # p # ps) cv)" by blast
  have "length (pre @ [w]) \<le> 9999999" using a(4) assms(3) by (cases xs) auto
  from doc_ArraySeparator_mk [OF a(1) w(1) this, of "length pre" ps cv] w(2) obtain c' where
    c': "doc_ArraySeparator (mkdoc (put_at p (ArrValue ArrayType c (pre @ [w])) V) ((p @ [length pre]) # p # ps) cv)
      = Inr (mkdoc (put_at p (ArrValue ArrayType c' ((pre @ [w]) @ [PlainValue 0])) V) ((p @ [length (pre @ [w])]) # p # ps) cv)"
      "value_ok (ArrValue ArrayType c' ((pre @ [w]) @ [PlainValue 0]))" by auto
  have len: "length (pre @ [w]) + length xs \<le> 10000000" using a(4) by simp
  from assms(2) [unfolded takes_elements_def, rule_format, OF a(1) assms(3) _ len c'(2) bs(2), of ps] fit(2)
  obtain c'' ws where ws: "length ws = length xs" "value_ok (ArrValue ArrayType c'' ((pre @ [w]) @ ws))"
    "IsValid (last ws)" "map abs_value ws = bs'"
    "run_events (doc_step mktime) fs
      (mkdoc (put_at p (ArrValue ArrayType c' ((pre @ [w]) @ [PlainValue 0])) V) ((p @ [length (pre @ [w])]) # p # ps) cv)
    = Inr (mkdoc (put_at p (ArrValue ArrayType c'' ((pre @ [w]) @ ws)) V)
        ((p @ [length (pre @ [w]) + length xs - 1]) # p # ps) cv)" by blast
  show "\<exists>c' ws. length ws = length (x # xs) \<and> value_ok (ArrValue ArrayType c' (pre @ ws)) \<and> IsValid (last ws)
         \<and> map abs_value ws = bs \<and>
         run_events (doc_step mktime) (es @ EvArraySeparator # fs)
           (mkdoc (put_at p (ArrValue ArrayType c (pre @ [PlainValue 0])) V) ((p @ [length pre]) # p # ps) cv)
         = Inr (mkdoc (put_at p (ArrValue ArrayType c' (pre @ ws)) V)
             ((p @ [length pre + length (x # xs) - 1]) # p # ps) cv)"
  proof (intro exI conjI)
    show "length (w # ws) = length (x # xs)" using ws(1) by simp
    show "value_ok (ArrValue ArrayType c'' (pre @ w # ws))" using ws(2) by simp
    show "IsValid (last (w # ws))" using ws(1,3) assms(3) by auto
    show "map abs_value (w # ws) = bs" using ws(4) w(3) bs(3) by simp
    show "run_events (doc_step mktime) (es @ EvArraySeparator # fs)
           (mkdoc (put_at p (ArrValue ArrayType c (pre @ [PlainValue 0])) V) ((p @ [length pre]) # p # ps) cv)
         = Inr (mkdoc (put_at p (ArrValue ArrayType c'' (pre @ w # ws)) V)
             ((p @ [length pre + length (x # xs) - 1]) # p # ps) cv)"
      using w(4) c'(1) ws(5) by (simp add: run_events_append)
  qed
qed

lemma takes_elements_one:
  assumes "takes_value mktime x es"
  shows "takes_elements mktime [x] es"
  unfolding takes_elements_def
proof (intro allI impI)
  fix V z p ps cv c pre bs
  assume a: "get_at p V = Some z" "[x] \<noteq> []" "\<forall>x \<in> set [x]. doc_fits x"
    "length pre + length [x] \<le> 10000000" "value_ok (ArrValue ArrayType c (pre @ [PlainValue 0]))"
    "those (map (doc_norm cv mktime) [x]) = Some bs"
  from a(6) obtain b where bs: "doc_norm cv mktime x = Some b" "bs = [b]" by (auto split: option.splits)
  from takes_one_element [OF assms a(1) _ bs(1) a(5), of ps] a(3) obtain w where
    "value_ok (ArrValue ArrayType c (pre @ [w]))" "IsValid w" "abs_value w = b"
      "run_events (doc_step mktime) es
        (mkdoc (put_at p (ArrValue ArrayType c (pre @ [PlainValue 0])) V) ((p @ [length pre]) # p # ps) cv)
      = Inr (mkdoc (put_at p (ArrValue ArrayType c (pre @ [w])) V) ((p @ [length pre]) # p # ps) cv)" by auto
  then show "\<exists>c' ws. length ws = length [x] \<and> value_ok (ArrValue ArrayType c' (pre @ ws)) \<and> IsValid (last ws)
         \<and> map abs_value ws = bs \<and>
         run_events (doc_step mktime) es
           (mkdoc (put_at p (ArrValue ArrayType c (pre @ [PlainValue 0])) V) ((p @ [length pre]) # p # ps) cv)
         = Inr (mkdoc (put_at p (ArrValue ArrayType c' (pre @ ws)) V)
             ((p @ [length pre + length [x] - 1]) # p # ps) cv)"
    using bs(2) by (intro exI [of _ c] exI [of _ "[w]"]) simp
qed

lemma takes_members_one:
  assumes "takes_value mktime x es" "string_event k mem len copy"
  shows "takes_members mktime [(k, x)] (EvKey mem len copy # es)"
  unfolding takes_members_def
proof (intro allI impI)
  fix V z p ps cv c pre bs
  assume a: "get_at p V = Some z" "[(k, x)] \<noteq> []" "\<forall>m \<in> set [(k, x)]. doc_fits (snd m)"
    "length pre + length [(k, x)] \<le> MaxMapCapacity" "value_ok (MapValue MapType c pre)"
    "those (map (norm_member cv mktime) [(k, x)]) = Some bs"
  from a(6) obtain b where bs: "doc_norm cv mktime x = Some b" "bs = [(k, b)]" by (auto simp: norm_member_def split: option.splits)
  from takes_one_member [OF assms(1) a(1) _ bs(1) a(5) _ assms(2), of ps] a(3,4) obtain c' m where
    "value_ok (MapValue MapType c' (pre @ [m]))" "abs_member m = (k, b)"
    "run_events (doc_step mktime) (EvKey mem len copy # es) (mkdoc (put_at p (MapValue MapType c pre) V) (p # ps) cv)
    = Inr (mkdoc (put_at p (MapValue MapType c' (pre @ [m])) V) ((p @ [length pre]) # p # ps) cv)" by auto
  then show "\<exists>c' new. length new = length [(k, x)] \<and> value_ok (MapValue MapType c' (pre @ new))
         \<and> map abs_member new = bs \<and>
         run_events (doc_step mktime) (EvKey mem len copy # es) (mkdoc (put_at p (MapValue MapType c pre) V) (p # ps) cv)
         = Inr (mkdoc (put_at p (MapValue MapType c' (pre @ new)) V)
             ((p @ [length pre + length [(k, x)] - 1]) # p # ps) cv)"
    using bs(2) by (intro exI [of _ c'] exI [of _ "[m]"]) (simp del: value_ok.simps)
qed

lemma takes_members_Cons:
  assumes "takes_value mktime x es" "string_event k mem len copy" "takes_members mktime ms fs" "ms \<noteq> []"
  shows "takes_members mktime ((k, x) # ms) (EvKey mem len copy # es @ EvMapSeparator # fs)"
  unfolding takes_members_def
proof (intro allI impI)
  fix V z p ps cv c pre bs
  assume a: "get_at p V = Some z" "(k, x) # ms \<noteq> []" "\<forall>m \<in> set ((k, x) # ms). doc_fits (snd m)"
    "length pre + length ((k, x) # ms) \<le> MaxMapCapacity" "value_ok (MapValue MapType c pre)"
    "those (map (norm_member cv mktime) ((k, x) # ms)) = Some bs"
  from a(6) obtain b bs' where bs: "doc_norm cv mktime x = Some b" "those (map (norm_member cv mktime) ms) = Some bs'"
    "bs = (k, b) # bs'" by (auto simp: norm_member_def split: option.splits)
  from takes_one_member [OF assms(1) a(1) _ bs(1) a(5) _ assms(2), of ps] a(3,4) obtain c' m where
    m: "value_ok (MapValue MapType c' (pre @ [m]))" "abs_member m = (k, b)"
    "run_events (doc_step mktime) (EvKey mem len copy # es) (mkdoc (put_at p (MapValue MapType c pre) V) (p # ps) cv)
    = Inr (mkdoc (put_at p (MapValue MapType c' (pre @ [m])) V) ((p @ [length pre]) # p # ps) cv)" by auto
  have len: "length (pre @ [m]) + length ms \<le> MaxMapCapacity" using a(4) by simp
  from assms(3) [unfolded takes_members_def, rule_format, OF a(1) assms(4) _ len m(1) bs(2), of ps] a(3)
  obtain c'' new where n: "length new = length ms" "value_ok (MapValue MapType c'' ((pre @ [m]) @ new))"
    "map abs_member new = bs'"
    "run_events (doc_step mktime) fs (mkdoc (put_at p (MapValue MapType c' (pre @ [m])) V) (p # ps) cv)
    = Inr (mkdoc (put_at p (MapValue MapType c'' ((pre @ [m]) @ new)) V)
        ((p @ [length (pre @ [m]) + length ms - 1]) # p # ps) cv)" by auto
  have "run_events (doc_step mktime) (EvKey mem len copy # es @ EvMapSeparator # fs)
        (mkdoc (put_at p (MapValue MapType c pre) V) (p # ps) cv)
      = then_r (run_events (doc_step mktime) (EvKey mem len copy # es) (mkdoc (put_at p (MapValue MapType c pre) V) (p # ps) cv))
          (run_events (doc_step mktime) (EvMapSeparator # fs))"
    by (simp only: run_events_append [symmetric] append_Cons)
  also have "\<dots> = Inr (mkdoc (put_at p (MapValue MapType c'' (pre @ m # new)) V)
        ((p @ [length pre + length ((k, x) # ms) - 1]) # p # ps) cv)"
    unfolding m(3) using n(4) by (simp add: doc_MapSeparator_mk [OF a(1)])
  finally show "\<exists>c' new. length new = length ((k, x) # ms) \<and> value_ok (MapValue MapType c' (pre @ new))
         \<and> map abs_member new = bs \<and>
         run_events (doc_step mktime) (EvKey mem len copy # es @ EvMapSeparator # fs)
           (mkdoc (put_at p (MapValue MapType c pre) V) (p # ps) cv)
         = Inr (mkdoc (put_at p (MapValue MapType c' (pre @ new)) V)
             ((p @ [length pre + length ((k, x) # ms) - 1]) # p # ps) cv)"
    using n(1-3) m(2) bs(3) by (intro exI [of _ c''] exI [of _ "m # new"]) (simp del: value_ok.simps)
qed


lemma takes_array:
  assumes "takes_elements mktime xs es" "represents_elements xs es"
  shows "takes_value mktime (AArr xs) (EvStartArray c # es @ [EvEndArray (length xs)])"
  unfolding takes_value_def
proof (intro allI impI)
  fix V p ps cv b
  assume a: "get_at p V = Some (PlainValue 0)" "doc_fits (AArr xs)" "doc_norm cv mktime (AArr xs) = Some b"
  let ?start = "mkdoc (put_at p (ArrValue ArrayType 16 [PlainValue 0]) V) ((p @ [0]) # p # ps) cv"
  show "\<exists>w. value_ok w \<and> IsValid w \<and> abs_value w = b \<and>
    run_events (doc_step mktime) (EvStartArray c # es @ [EvEndArray (length xs)]) (mkdoc V (p # ps) cv)
      = Inr (mkdoc (put_at p w V) (p # ps) cv)"
  proof (cases "xs = []")
    case True
    with assms(2) have "es = []" by simp
    then show ?thesis using True a doc_StartArray_mk [OF a(1)] doc_EndArray_empty [OF a(1)]
      by (intro exI [of _ "ArrValue ArrayType 16 []"])
         (auto simp: IsValid_def ext_norm_def MaxArrayCapacity_def split: if_splits)
  next
    case False
    from a(3) obtain bs where bs: "those (map (doc_norm cv mktime) xs) = Some bs" "ext_norm cv mktime bs = Some b"
      by (auto simp: bind_eq_Some_conv)
    have ok: "value_ok (ArrValue ArrayType 16 ([] @ [PlainValue 0]))" by (simp add: MaxArrayCapacity_def)
    have fits: "\<forall>x \<in> set xs. doc_fits x" "length ([] :: Value list) + length xs \<le> 10000000" using a(2) by simp_all
    from assms(1) [unfolded takes_elements_def, rule_format, OF a(1) False _ fits(2) ok bs(1), of ps] fits(1)
    obtain c' ws where ws: "length ws = length xs" "value_ok (ArrValue ArrayType c' ws)" "IsValid (last ws)"
      "map abs_value ws = bs"
      "run_events (doc_step mktime) es ?start
        = Inr (mkdoc (put_at p (ArrValue ArrayType c' ws) V) ((p @ [length xs - 1]) # p # ps) cv)"
      by auto
    have "ws \<noteq> []" using ws(1) False by auto
    from doc_EndArray_mk [OF a(1) ws(2) this ws(3), of cv mktime b ps] bs(2) ws(1,4) obtain w where
      "doc_EndArray mktime (length xs) (mkdoc (put_at p (ArrValue ArrayType c' ws) V) ((p @ [length xs - 1]) # p # ps) cv)
        = Inr (mkdoc (put_at p w V) (p # ps) cv)" "value_ok w" "IsValid w" "abs_value w = b" by auto
    then show ?thesis using ws(5) doc_StartArray_mk [OF a(1)]
      by (intro exI [of _ w]) (simp add: run_events_append)
  qed
qed

lemma takes_map:
  assumes "takes_members mktime ms es" "represents_members ms es"
  shows "takes_value mktime (AMap ms) (EvStartMap c # es @ [EvEndMap (length ms)])"
  unfolding takes_value_def
proof (intro allI impI)
  fix V p ps cv b
  assume a: "get_at p V = Some (PlainValue 0)" "doc_fits (AMap ms)" "doc_norm cv mktime (AMap ms) = Some b"
  obtain c0 where start: "SetMap (PlainValue 0) = MapValue MapType c0 []" "value_ok (MapValue MapType c0 [])"
    by (simp add: SetMap_def Destroy_def MaxMapCapacity_def)
  have s: "doc_StartMap (mkdoc V (p # ps) cv) = Inr (mkdoc (put_at p (MapValue MapType c0 []) V) (p # ps) cv)"
    using a(1) start by (simp add: doc_StartMap_def)
  show "\<exists>w. value_ok w \<and> IsValid w \<and> abs_value w = b \<and>
    run_events (doc_step mktime) (EvStartMap c # es @ [EvEndMap (length ms)]) (mkdoc V (p # ps) cv)
      = Inr (mkdoc (put_at p w V) (p # ps) cv)"
  proof (cases "ms = []")
    case True
    with assms(2) have "es = []" by simp
    then show ?thesis using True a start(2) s doc_EndMap_mk(2) [OF a(1)]
      by (intro exI [of _ "MapValue MapType c0 []"]) (auto simp: IsValid_def)
  next
    case False
    from a(3) obtain bs where bs: "those (map (norm_member cv mktime) ms) = Some bs" "b = AMap bs"
      by (auto simp: norm_member_def [abs_def])
    have fits: "\<forall>m \<in> set ms. doc_fits (snd m)" "length ([] :: (Value \<times> Value) list) + length ms \<le> MaxMapCapacity"
      using a(2) by simp_all
    from assms(1) [unfolded takes_members_def, rule_format, OF a(1) False _ fits(2) start(2) bs(1), of ps] fits(1)
    obtain c' new where n: "length new = length ms" "value_ok (MapValue MapType c' new)" "map abs_member new = bs"
      "run_events (doc_step mktime) es (mkdoc (put_at p (MapValue MapType c0 []) V) (p # ps) cv)
        = Inr (mkdoc (put_at p (MapValue MapType c' new) V) ((p @ [length ms - 1]) # p # ps) cv)"
      by auto
    have "new \<noteq> []" using n(1) False by auto
    from doc_EndMap_mk(1) [OF a(1) this] n(1) have
      "doc_EndMap (length ms) (mkdoc (put_at p (MapValue MapType c' new) V) ((p @ [length ms - 1]) # p # ps) cv)
        = Inr (mkdoc (put_at p (MapValue MapType c' new) V) (p # ps) cv)" by simp
    then show ?thesis using n bs(2) s
      by (intro exI [of _ "MapValue MapType c' new"]) (simp add: run_events_append abs_MapValue IsValid_def del: value_ok.simps abs_value.simps)
  qed
qed


lemma sint_uint_bounds:
  "- (2 ^ 63) \<le> sint (i :: 32 word)" "sint i < 2 ^ 64" "- (2 ^ 63) \<le> uint (u :: u32)" "uint u < 2 ^ 64"
  "- (2 ^ 63) \<le> sint (i64 :: 64 word)" "sint i64 < 2 ^ 64" "- (2 ^ 63) \<le> uint (u64 :: u64)" "uint u64 < 2 ^ 64"
  using sint_range32 [of i] uint_range(1) [of u] uint_lower [of u] sint_range64 [of i64] uint_range(2) [of u64]
    uint_lower [of u64] by simp_all

lemma takes_int:
  assumes "- (2 ^ 63) \<le> z" "z < 2 ^ 64"
    and "\<And>V p ps cv. get_at p V = Some (PlainValue 0) \<Longrightarrow>
      doc_step mktime (mkdoc V (p # ps) cv) e = Inr (mkdoc (put_at p (mk_int z) V) (p # ps) cv)"
  shows "takes_value mktime (AInt z) [e]"
  using assms(3) mk_int_spec [OF assms(1,2)] mk_int_valid by (intro takes_scalar [where w = "mk_int z"]) auto

lemmas takes_ints =
  takes_int [where e = "EvInt i" and z = "sint i" for i, OF sint_uint_bounds(1,2)]
  takes_int [where e = "EvUint u" and z = "uint u" for u, OF sint_uint_bounds(3,4)]
  takes_int [where e = "EvInt64 w" and z = "sint w" for w, OF sint_uint_bounds(5,6)]
  takes_int [where e = "EvUint64 w" and z = "uint w" for w, OF sint_uint_bounds(7,8)]

lemma takes_string:
  assumes "string_event s mem len copy"
  shows "takes_value mktime (AStr s) [EvString mem len copy]"
proof -
  obtain w where w: "SetString mem len copy (PlainValue 0) = Inr w" "IsString w" "value_ok w" "str_bytes w = s"
    using assms CopyString_spec [of s]
    by (cases copy) (auto simp: string_event_def SetString_def Value_str_def IsString_def has_flag_def)
  then have "abs_value w = AStr s" using value_ok_bytes(1) by auto
  with w show ?thesis
    by (intro takes_scalar [where w = w])
       (auto simp: doc_String_def IsValid_def IsString_def has_flag_def)
qed

lemma takes_binary: "takes_value mktime (ABin s) [EvBinary s copy]"
proof -
  obtain w where w: "SetBinary s copy (PlainValue 0) = w" "IsBinary w" "value_ok w" "abs_value w = ABin s"
    using CopyBinary_spec [of s]
    by (cases copy) (auto simp: SetBinary_def Value_binary_def IsBinary_def has_flag_def)
  then show ?thesis
    by (intro takes_scalar [where w = w])
       (auto simp: doc_Binary_def IsValid_def IsBinary_def has_flag_def)
qed

lemma takes_plain:
  "takes_value mktime ANull [EvNull]" "takes_value mktime (ABool True) [EvBoolTrue]"
  "takes_value mktime (ABool False) [EvBoolFalse]" "takes_value mktime (AFloat f) [EvFloat f]"
  "takes_value mktime (ADouble d) [EvDouble d]" "takes_value mktime (ATime t) [EvDateTime t]"
proof -
  show "takes_value mktime ANull [EvNull]"
    by (rule takes_scalar [where w = "PlainValue NullFlag"]) (auto simp: doc_Null_def SetNull_def IsValid_def)
  show "takes_value mktime (ABool True) [EvBoolTrue]"
    by (rule takes_scalar [where w = "PlainValue TrueFlag"]) (auto simp: doc_BoolTrue_def SetBool_def IsValid_def)
  show "takes_value mktime (ABool False) [EvBoolFalse]"
    by (rule takes_scalar [where w = "PlainValue FalseFlag"]) (auto simp: doc_BoolFalse_def SetBool_def IsValid_def)
  show "takes_value mktime (AFloat f) [EvFloat f]"
    by (rule takes_scalar [where w = "Value_double (double_of_float f)"])
       (auto simp: doc_Float_def doc_Double_def SetDouble_def Value_double_def IsValid_def)
  show "takes_value mktime (ADouble d) [EvDouble d]"
    by (rule takes_scalar [where w = "Value_double d"])
       (auto simp: doc_Double_def SetDouble_def Value_double_def IsValid_def)
  show "takes_value mktime (ATime t) [EvDateTime t]"
    by (rule takes_scalar [where w = "TimeValue DateTimeType t"])
       (auto simp: doc_DateTime_def SetDateTime_def IsValid_def)
qed

lemma document_takes:
  "represents a es \<Longrightarrow> takes_value mktime a es"
  "represents_members ms es' \<Longrightarrow> represents_members ms es' \<and> takes_members mktime ms es'"
  "represents_elements xs es'' \<Longrightarrow> represents_elements xs es'' \<and> takes_elements mktime xs es''"
proof (induction rule: rep_induct)
  case (rep_int i)
  show ?case by (rule takes_ints) (simp add: doc_Int_def SetInt_def Value_int_canonical)
next
  case (rep_uint i)
  show ?case by (rule takes_ints) (simp add: doc_Uint_def SetUint_def Value_uint_canonical)
next
  case (rep_int64 i)
  show ?case by (rule takes_ints) (simp add: doc_Int64_def SetInt64_def Value_int64_canonical)
next
  case (rep_uint64 i)
  show ?case by (rule takes_ints) (simp add: doc_Uint64_def SetUint64_def Value_uint64_canonical)
next
  case rep_elements_Nil
  show ?case by (simp add: takes_elements_def)
next
  case rep_members_Nil
  show ?case by (simp add: takes_members_def)
qed (auto intro: takes_plain takes_string takes_binary takes_array takes_map takes_elements_Cons takes_elements_one
      takes_members_one takes_members_Cons rep_intros)

section \<open>The document as a sink\<close>

text \<open>Ready: the value the top pointer leads to is the invalid one.\<close>

definition doc_ready :: "bool \<Rightarrow> document \<Rightarrow> bool" where
  "doc_ready cv d \<longleftrightarrow> doc_convert d = cv \<and> doc_stack d \<noteq> [] \<and> doc_back d = Inr (PlainValue 0)"

definition doc_accepts :: "bool \<Rightarrow> (tm \<Rightarrow> u64) \<Rightarrow> aval \<Rightarrow> bool" where
  "doc_accepts cv mktime a \<longleftrightarrow> doc_fits a \<and> doc_norm cv mktime a \<noteq> None"

definition doc_took :: "(tm \<Rightarrow> u64) \<Rightarrow> document \<Rightarrow> aval \<Rightarrow> document \<Rightarrow> bool" where
  "doc_took mktime d a d' \<longleftrightarrow> (\<exists>w. value_ok w \<and> IsValid w \<and>
     doc_norm (doc_convert d) mktime a = Some (abs_value w) \<and> d' = doc_set w d)"

interpretation doc: sink "doc_step mktime" "\<lambda>_. True" "doc_ready cv" "doc_accepts cv mktime" "doc_took mktime" for cv mktime
proof unfold_locales
  fix h a es
  assume a: "doc_ready cv h" "doc_accepts cv mktime a" "represents a es"
  then obtain p ps where p: "doc_stack h = p # ps" by (auto simp: doc_ready_def neq_Nil_conv)
  then have h: "h = mkdoc (doc_value h) (p # ps) cv" using a(1) by (simp add: doc_ready_def mkdoc_def)
  have at: "get_at p (doc_value h) = Some (PlainValue 0)"
    using a(1) p by (auto simp: doc_ready_def doc_back_def split: option.splits)
  from a(2) obtain b where b: "doc_fits a" "doc_norm cv mktime a = Some b" by (auto simp: doc_accepts_def)
  from document_takes(1) [OF a(3), of mktime, unfolded takes_value_def, rule_format, OF at b, of ps] obtain w where
    "value_ok w" "IsValid w" "abs_value w = b"
    "run_events (doc_step mktime) es h = Inr (mkdoc (put_at p w (doc_value h)) (p # ps) cv)" using h by auto
  moreover have "mkdoc (put_at p w (doc_value h)) (p # ps) cv = doc_set w h" by (subst (2) h) simp
  ultimately show "\<exists>h'. run_events (doc_step mktime) es h = Inr h' \<and> doc_took mktime h a h'"
    using b(2) a(1) by (auto simp: doc_took_def doc_ready_def)
qed simp

lemma doc_started: "doc_ready (doc_convert d) (StartDocument d)"
  by (simp add: doc_ready_def StartDocument_def doc_back_def SetInvalid_def Destroy_def)

text \<open>A whole document: the value of a run from \<^verbatim>\<open>StartDocument\<close> to \<^verbatim>\<open>EndDocument\<close>.\<close>

lemma document_builds:
  assumes "represents a es" "doc_fits a" "doc_norm (doc_convert d) mktime a = Some b"
  shows "\<exists>d'. run_events (doc_step mktime) (EvStartDocument # es @ [EvEndDocument]) d = Inr d' \<and>
    value_ok (doc_value d') \<and> abs_value (doc_value d') = b \<and> doc_stack d' = [] \<and> doc_convert d' = doc_convert d"
proof -
  from doc.takes [OF doc_started _ assms(1), of d mktime] assms(2,3) obtain d1 where
    "run_events (doc_step mktime) es (StartDocument d) = Inr d1" "doc_took mktime (StartDocument d) a d1"
    by (auto simp: doc_accepts_def)
  with assms(3) show ?thesis
    by (auto simp: run_events_append doc_took_def EndDocument_def StartDocument_def doc_set_def)
qed

end
