(* ===== verification/AnyRpc_Reader.thy ===== *)
theory AnyRpc_Reader
  imports AnyRpc_Stream AnyRpc_Handler AnyRpc_Text
begin

text \<open>
  reader.h and reader.cpp, the base class of the three readers, with the virtual calls a reader
  makes on its \<^verbatim>\<open>Stream\<close>: a \<open>stream\<close> is one of the three input streams, and an operation
  the class does not override is the one of the base class.

  A reader produces events. \<^verbatim>\<open>ParseStream(handler)\<close> of every reader calls the handler until
  something throws, catches an \<^verbatim>\<open>AnyRpcException\<close> as the parse error, and ends the document.
\<close>

section \<open>Streams by dynamic dispatch\<close>

datatype stream = StringStream rstr | InSituStream iss | FileStream rfs

fun st_InSitu :: "stream \<Rightarrow> bool" where
  "st_InSitu (InSituStream s) = iss_InSitu s"
| "st_InSitu _ = False"

fun st_UseStringCopy :: "stream \<Rightarrow> bool" where
  "st_UseStringCopy (InSituStream s) = iss_UseStringCopy s"
| "st_UseStringCopy _ = True"

fun st_Eof :: "stream \<Rightarrow> bool" where
  "st_Eof (StringStream s) = rstr_Eof s"
| "st_Eof (InSituStream s) = iss_Eof s"
| "st_Eof (FileStream s) = rfs_Eof s"

fun st_Peek :: "stream \<Rightarrow> byte" where
  "st_Peek (StringStream s) = rstr_Peek s"
| "st_Peek (InSituStream s) = iss_Peek s"
| "st_Peek (FileStream s) = rfs_Peek s"

fun st_Get :: "stream \<Rightarrow> byte \<times> stream" where
  "st_Get (StringStream s) = map_prod id StringStream (rstr_Get s)"
| "st_Get (InSituStream s) = map_prod id InSituStream (iss_Get s)"
| "st_Get (FileStream s) = map_prod id FileStream (rfs_Get s)"

fun st_GetClear :: "stream \<Rightarrow> byte \<times> stream" where
  "st_GetClear (InSituStream s) = map_prod id InSituStream (iss_GetClear s)"
| "st_GetClear s = st_Get s"

text \<open>A file stream without a file does not return from \<^verbatim>\<open>Read\<close>: \<open>OutOfFuel\<close>.\<close>

fun st_Read :: "stream \<Rightarrow> nat \<Rightarrow> (bytes \<times> stream) result" where
  "st_Read (StringStream s) n = Inr (map_prod id StringStream (rstr_Read s n))"
| "st_Read (InSituStream s) n = Inr (map_prod id InSituStream (iss_Read s n))"
| "st_Read (FileStream s) n =
     (case rfs_Read s n of None \<Rightarrow> Inl OutOfFuel | Some (cs, s') \<Rightarrow> Inr (cs, FileStream s'))"

fun st_Skip :: "stream \<Rightarrow> nat \<Rightarrow> (nat \<times> stream) result" where
  "st_Skip (InSituStream s) n = then_r (iss_Skip s n) (\<lambda>(k, s'). Inr (k, InSituStream s'))"
| "st_Skip _ n = Inl AnyRpcErrorIllegalCall"

text \<open>The pointer \<^verbatim>\<open>PutBegin\<close> returns is an offset; \<open>st_memory\<close> is what lies from there on.\<close>

fun st_PutBegin :: "stream \<Rightarrow> (nat \<times> stream) result" where
  "st_PutBegin (InSituStream s) = Inr (map_prod id InSituStream (iss_PutBegin s))"
| "st_PutBegin _ = Inl AnyRpcErrorIllegalCall"

fun st_put_char :: "stream \<Rightarrow> byte \<Rightarrow> stream result" where
  "st_put_char (InSituStream s) c = then_r (iss_put_char s c) (\<lambda>s'. Inr (InSituStream s'))"
| "st_put_char s c = Inr s"

fun st_PutEnd :: "stream \<Rightarrow> (nat \<times> stream) result" where
  "st_PutEnd (InSituStream s) = Inr (map_prod id InSituStream (iss_PutEnd s))"
| "st_PutEnd _ = Inl AnyRpcErrorIllegalCall"

fun st_Tell :: "stream \<Rightarrow> nat" where
  "st_Tell (StringStream s) = rstr_Tell s"
| "st_Tell (InSituStream s) = iss_Tell s"
| "st_Tell (FileStream s) = rfs_Tell s"

fun st_memory :: "stream \<Rightarrow> nat \<Rightarrow> bytes" where
  "st_memory (InSituStream s) b = drop b (iss_mem s)"
| "st_memory _ b = []"

fun st_left :: "stream \<Rightarrow> bytes" where
  "st_left (StringStream s) = rstr_left s"
| "st_left (InSituStream s) = iss_left s"
| "st_left (FileStream s) = rfs_left s"

fun st_ok :: "stream \<Rightarrow> bool" where
  "st_ok (StringStream s) = rstr_ok s"
| "st_ok (InSituStream s) = iss_ok s"
| "st_ok (FileStream s) = rfs_ok s"

text \<open>What a stream is does not change: its class and, in place, the memory's extent.\<close>

fun st_kind :: "stream \<Rightarrow> bool \<times> bool" where
  "st_kind s = (st_InSitu s, case s of InSituStream _ \<Rightarrow> True | _ \<Rightarrow> False)"

lemma st_kind_InSitu: "st_kind s = st_kind s' \<Longrightarrow> st_InSitu s = st_InSitu s'"
  by simp

declare st_kind.simps [simp del]

interpretation st: input_stream st_Eof st_Peek st_Get st_left st_ok
proof unfold_locales
  fix s assume ok: "st_ok s"
  show "st_Eof s \<longleftrightarrow> st_left s = []" "st_Peek s = (case st_left s of [] \<Rightarrow> 0 | c # _ \<Rightarrow> c)"
    "fst (st_Get s) = (case st_left s of [] \<Rightarrow> 0 | c # _ \<Rightarrow> c)" "st_left (snd (st_Get s)) = tl (st_left s)"
    "st_ok (snd (st_Get s))"
    using ok rstr.eof_left rstr.peek_left rstr.get_char rstr.get_left rstr.get_ok
      iss.eof_left iss.peek_left iss.get_char iss.get_left iss.get_ok
      rfs.eof_left rfs.peek_left rfs.get_char rfs.get_left rfs.get_ok
    by (cases s; auto)+
qed

interpretation st_clear: input_stream st_Eof st_Peek st_GetClear st_left st_ok
proof unfold_locales
  fix s assume ok: "st_ok s"
  show "st_Eof s \<longleftrightarrow> st_left s = []" "st_Peek s = (case st_left s of [] \<Rightarrow> 0 | c # _ \<Rightarrow> c)"
    "fst (st_GetClear s) = (case st_left s of [] \<Rightarrow> 0 | c # _ \<Rightarrow> c)"
    "st_left (snd (st_GetClear s)) = tl (st_left s)" "st_ok (snd (st_GetClear s))"
    using st.eof_left [OF ok] st.peek_left [OF ok] st.get_char [OF ok] st.get_left [OF ok] st.get_ok [OF ok]
      ok iss_clear.get_char iss_clear.get_left iss_clear.get_ok
    by (cases s; auto)+
qed

lemma iss_Get_kind: "iss_insitu (snd (iss_Get s)) = iss_insitu s" "iss_insitu (snd (iss_GetClear s)) = iss_insitu s"
  by (simp_all add: iss_Get_def iss_GetClear_def)

lemma st_Get_kind [simp]: "st_kind (snd (st_Get s)) = st_kind s" "st_kind (snd (st_GetClear s)) = st_kind s"
  by (cases s; simp add: st_kind.simps iss_InSitu_def iss_Get_kind)+

lemma st_Read_left:
  assumes "st_ok s"
  shows "\<exists>s'. st_Read s n = Inr (take n (st_left s), s') \<and> st_ok s' \<and> st_left s' = drop n (st_left s)
    \<and> st_kind s' = st_kind s"
proof (cases s)
  case (StringStream r)
  then show ?thesis using assms rstr_Read_left [of r n] by (cases "rstr_Read r n") (auto simp: st_kind.simps)
next
  case (InSituStream r)
  then show ?thesis using assms iss_Read_left [of r n]
    by (cases "iss_Read r n") (auto simp: st_kind.simps iss_InSitu_def iss_Read_def Let_def)
next
  case (FileStream r)
  then show ?thesis using assms rfs_Read_left [of r n] by (auto simp: st_kind.simps)
qed

lemma st_kind_InSitu_stream:
  "st_kind s' = st_kind s \<Longrightarrow> (\<exists>r. s = InSituStream r) \<Longrightarrow> \<exists>r'. s' = InSituStream r'"
  by (cases s') (auto simp: st_kind.simps)

lemma st_Get_cases:
  assumes "st_ok s"
  obtains c s' where "st_Get s = (c, s')" "st_ok s'" "st_kind s' = st_kind s" "st_left s' = tl (st_left s)"
    "c = (case st_left s of [] \<Rightarrow> 0 | c # _ \<Rightarrow> c)"
  using st.get_char [OF assms] st.get_left [OF assms] st.get_ok [OF assms] st_Get_kind(1) [of s]
  by (cases "st_Get s") auto

text \<open>
  A string skipped in place: \<^verbatim>\<open>PutBegin\<close>, \<^verbatim>\<open>Skip\<close> over its bytes and \<^verbatim>\<open>GetClear\<close> on the
  byte behind it, which terminates the string unless the stream is at its end.
\<close>

lemma insitu_string:
  assumes "iss_ok s" "iss_left s = k @ rest"
  shows "\<exists>b s1 s2 s3. iss_PutBegin s = (b, s1) \<and> iss_Skip s1 (length k) = Inr (length k, s2)
    \<and> iss_Eof s2 = (rest = []) \<and> iss_GetClear s2 = (case rest of [] \<Rightarrow> 0 | c # _ \<Rightarrow> c, s3)
    \<and> iss_ok s2 \<and> iss_left s2 = rest \<and> iss_ok s3 \<and> iss_left s3 = tl rest
    \<and> iss_insitu s2 = iss_insitu s \<and> iss_insitu s3 = iss_insitu s
    \<and> take (length k) (drop b (iss_mem s2)) = k \<and> length k \<le> length (drop b (iss_mem s2))
    \<and> take (length k) (drop b (iss_mem s3)) = k \<and> length k \<le> length (drop b (iss_mem s3))
    \<and> (rest \<noteq> [] \<longrightarrow> length k < length (drop b (iss_mem s3)) \<and> drop b (iss_mem s3) ! length k = 0)"
proof -
  let ?b = "iss_src s"
  have len: "length k + length rest = iss_eof s - ?b" "?b \<le> iss_eof s" "iss_eof s \<le> length (iss_mem s)"
  proof -
    show b: "?b \<le> iss_eof s" "iss_eof s \<le> length (iss_mem s)" using assms(1) by (simp_all add: iss_ok_def)
    then have "length (iss_left s) = iss_eof s - ?b" by (simp add: iss_left_def)
    then show "length k + length rest = iss_eof s - ?b" by (simp add: assms(2))
  qed
  define s2 where "s2 = s \<lparr> iss_src := ?b + length k, iss_dst := Some (?b + length k), iss_begin := Some ?b \<rparr>"
  obtain c s3 where s3: "iss_GetClear s2 = (c, s3)" by (cases "iss_GetClear s2")
  have skip: "iss_Skip (snd (iss_PutBegin s)) (length k) = Inr (length k, s2)"
    using len by (simp add: iss_PutBegin_def iss_Skip_def s2_def Let_def min_def)
  have ok2: "iss_ok s2" using len by (simp add: iss_ok_def s2_def)
  have l2: "iss_left s2 = rest"
    using arg_cong [OF assms(2), of "drop (length k)"] by (simp add: iss_left_def s2_def add.commute)
  have mem: "take (length k) (drop ?b (iss_mem s)) = k"
  proof -
    have "length k + ?b \<le> iss_eof s" using len by linarith
    then show ?thesis
      using arg_cong [OF assms(2), of "take (length k)"] by (simp add: iss_left_def take_drop min_absorb1)
  qed
  have m3: "iss_mem s3 = (if rest = [] then iss_mem s else (iss_mem s)[?b + length k := 0])"
    using s3 iss_left_Nil [OF ok2] l2 by (auto simp: iss_GetClear_def s2_def split: if_splits)
  have "take (length k) (drop ?b (iss_mem s3)) = k"
    using mem by (simp add: m3 drop_update_swap)
  moreover have "rest \<noteq> [] \<longrightarrow> length k < length (drop ?b (iss_mem s3)) \<and> drop ?b (iss_mem s3) ! length k = 0"
    using len by (cases rest) (auto simp: m3)
  moreover have "iss_Eof s2 = (rest = [])" using iss_left_Nil [OF ok2] l2 by simp
  moreover have "c = (case rest of [] \<Rightarrow> 0 | c # _ \<Rightarrow> c)" "iss_ok s3" "iss_left s3 = tl rest"
    using iss_clear.get_char [OF ok2] iss_clear.get_ok [OF ok2] iss_clear.get_left [OF ok2] l2 s3 by auto
  moreover have "iss_insitu s3 = iss_insitu s" using iss_Get_kind(2) [of s2] s3 by (simp add: s2_def)
  ultimately show ?thesis using skip s3 ok2 l2 mem len
    by (intro exI [of _ ?b] exI [of _ "snd (iss_PutBegin s)"] exI [of _ s2] exI [of _ s3])
       (simp add: iss_PutBegin_def, simp add: s2_def m3)
qed

section \<open>Exceptions only\<close>

text \<open>A computation that throws nothing but an \<^verbatim>\<open>AnyRpcException\<close>, and whose result satisfies \<open>P\<close>.\<close>

definition safe :: "('s \<Rightarrow> bool) \<Rightarrow> 's result \<Rightarrow> bool" where
  "safe P r \<longleftrightarrow> (case r of Inr x \<Rightarrow> P x | Inl e \<Rightarrow> \<exists>c. e = AnyRpcException c)"

lemma safe_simps [simp]: "safe P (Inr x) \<longleftrightarrow> P x" "safe P (Inl (AnyRpcException c))"
  by (simp_all add: safe_def)

lemma safe_then_r: "safe P m \<Longrightarrow> (\<And>x. P x \<Longrightarrow> safe Q (k x)) \<Longrightarrow> safe Q (then_r m k)"
  by (cases m) (auto simp: safe_def)

lemma safe_then_p: "safe P (snd m) \<Longrightarrow> (\<And>x. P x \<Longrightarrow> safe Q (snd (k x))) \<Longrightarrow> safe Q (snd (then_p m k))"
  by (cases m; cases "snd m") (auto simp: safe_def)

lemma safe_mono: "safe P r \<Longrightarrow> (\<And>x. P x \<Longrightarrow> Q x) \<Longrightarrow> safe Q r"
  by (auto simp: safe_def split: sum.splits)

lemma safe_check: "(b \<Longrightarrow> safe P r) \<Longrightarrow> safe P (check_that b (AnyRpcException c) r)"
  by (cases b) auto

lemma snd_lift_r [simp]: "snd (lift_r r) = r"
  by (simp add: lift_r_def)

section \<open>The base class\<close>

text \<open>The two members that are set from the stream at construction.\<close>

definition reader_inSitu :: "stream \<Rightarrow> bool" where "reader_inSitu s = st_InSitu s"
definition reader_copy :: "stream \<Rightarrow> bool" where "reader_copy s = st_UseStringCopy s"

text \<open>\<^verbatim>\<open>std::isspace\<close> in the "C" locale.\<close>

definition IsWhiteSpace :: "byte \<Rightarrow> bool" where "IsWhiteSpace c = is_space c"

partial_function (option) SkipWhiteSpace :: "stream \<Rightarrow> stream option" where
  "SkipWhiteSpace s =
     (if st_Eof s then Some s
      else if \<not> IsWhiteSpace (st_Peek s) then Some s
      else SkipWhiteSpace (snd (st_Get s)))"

declare SkipWhiteSpace.simps [code]

lemma SkipWhiteSpace_left:
  "st_ok s \<Longrightarrow> \<exists>s'. SkipWhiteSpace s = Some s' \<and> st_ok s' \<and> st_left s' = dropWhile IsWhiteSpace (st_left s)
     \<and> st_kind s' = st_kind s"
proof (induction "st_left s" arbitrary: s)
  case Nil
  then show ?case using st.eof_left [of s] by (subst SkipWhiteSpace.simps) auto
next
  case (Cons c cs)
  from st.get_left [OF Cons.prems] Cons.hyps(2) have l: "st_left (snd (st_Get s)) = cs" by (metis list.sel(3))
  have p: "\<not> st_Eof s" "st_Peek s = c" using st.eof_left [OF Cons.prems] st.peek_left [OF Cons.prems] Cons.hyps(2)
    by (auto split: list.splits)
  from Cons.hyps(1) [of "snd (st_Get s)"] l st.get_ok [OF Cons.prems] obtain s' where
    "SkipWhiteSpace (snd (st_Get s)) = Some s'" "st_ok s'" "st_left s' = dropWhile IsWhiteSpace cs"
    "st_kind s' = st_kind s" by auto
  then show ?case using p Cons.prems Cons.hyps(2) [symmetric] by (subst SkipWhiteSpace.simps) auto
qed

text \<open>
  \<^verbatim>\<open>ParseStream(handler)\<close>, common to the readers: the state of the handler and the parse error, if
  any. Calling the handler stops at the first throw, of the reader or of the handler; the
  handler is then as it was before the call that threw. Undefined behaviour is not caught.
\<close>

fun run_until :: "('h \<Rightarrow> event \<Rightarrow> 'h result) \<Rightarrow> event list \<Rightarrow> 'h \<Rightarrow> 'h \<times> err option" where
  "run_until step [] h = (h, None)"
| "run_until step (e # es) h = (case step h e of Inl x \<Rightarrow> (h, Some x) | Inr h' \<Rightarrow> run_until step es h')"

definition parse_document :: "('h \<Rightarrow> event \<Rightarrow> 'h result) \<Rightarrow> 's producer \<Rightarrow> 'h \<Rightarrow> ('h \<times> err option) result" where
  "parse_document step p h =
     then_r (step h EvStartDocument) (\<lambda>h1.
       let (h2, thrown) = run_until step (fst p) h1;
           fault = (case thrown of None \<Rightarrow> (case snd p of Inl e \<Rightarrow> Some e | Inr _ \<Rightarrow> None) | _ \<Rightarrow> thrown)
       in (case fault of
             Some UndefinedBehaviour \<Rightarrow> Inl UndefinedBehaviour
           | Some OutOfFuel \<Rightarrow> Inl OutOfFuel
           | _ \<Rightarrow> then_r (step h2 EvEndDocument) (\<lambda>h3. Inr (h3, fault))))"

lemma run_until_events: "run_events step es h = Inr h' \<Longrightarrow> run_until step es h = (h', None)"
  by (induction es arbitrary: h) auto

lemma parse_document_ok:
  assumes "step h EvStartDocument = Inr h1" "run_events step es h1 = Inr h2" "step h2 EvEndDocument = Inr h3"
  shows "parse_document step (es, Inr s) h = Inr (h3, None)"
  using assms run_until_events [OF assms(2)] by (simp add: parse_document_def)

end
