(* ===== verification/AnyRpc_MessagePack.thy ===== *)
theory AnyRpc_MessagePack
  imports AnyRpc_Document
begin

text \<open>
  messagepackformat.h, the store macros of sysdep.h and messagepackwriter.cpp. The writer is a
  handler that puts bytes to an output stream; here its state is the sequence of what it has
  put, which \<open>run_puts\<close> applies to any of the output streams.

  The bytes written for a value depend on the value alone, not on the integer type of the event
  that carried it, and every integer takes its shortest form.
\<close>

section \<open>Format\<close>

definition MessagePackPosFixInt :: byte where "MessagePackPosFixInt = 0x00"
definition MessagePackFixMap :: byte where "MessagePackFixMap = 0x80"
definition MessagePackFixArray :: byte where "MessagePackFixArray = 0x90"
definition MessagePackFixStr :: byte where "MessagePackFixStr = 0xa0"
definition MessagePackNil :: byte where "MessagePackNil = 0xc0"
definition MessagePackFalse :: byte where "MessagePackFalse = 0xc2"
definition MessagePackTrue :: byte where "MessagePackTrue = 0xc3"
definition MessagePackBin8 :: byte where "MessagePackBin8 = 0xc4"
definition MessagePackBin16 :: byte where "MessagePackBin16 = 0xc5"
definition MessagePackBin32 :: byte where "MessagePackBin32 = 0xc6"
definition MessagePackFloat32 :: byte where "MessagePackFloat32 = 0xca"
definition MessagePackFloat64 :: byte where "MessagePackFloat64 = 0xcb"
definition MessagePackUint8 :: byte where "MessagePackUint8 = 0xcc"
definition MessagePackUint16 :: byte where "MessagePackUint16 = 0xcd"
definition MessagePackUint32 :: byte where "MessagePackUint32 = 0xce"
definition MessagePackUint64 :: byte where "MessagePackUint64 = 0xcf"
definition MessagePackInt8 :: byte where "MessagePackInt8 = 0xd0"
definition MessagePackInt16 :: byte where "MessagePackInt16 = 0xd1"
definition MessagePackInt32 :: byte where "MessagePackInt32 = 0xd2"
definition MessagePackInt64 :: byte where "MessagePackInt64 = 0xd3"
definition MessagePackStr8 :: byte where "MessagePackStr8 = 0xd9"
definition MessagePackStr16 :: byte where "MessagePackStr16 = 0xda"
definition MessagePackStr32 :: byte where "MessagePackStr32 = 0xdb"
definition MessagePackArray16 :: byte where "MessagePackArray16 = 0xdc"
definition MessagePackArray32 :: byte where "MessagePackArray32 = 0xdd"
definition MessagePackMap16 :: byte where "MessagePackMap16 = 0xde"
definition MessagePackMap32 :: byte where "MessagePackMap32 = 0xdf"

lemmas mp_codes [simp] = MessagePackPosFixInt_def MessagePackFixMap_def MessagePackFixArray_def
  MessagePackFixStr_def MessagePackNil_def MessagePackFalse_def MessagePackTrue_def MessagePackBin8_def
  MessagePackBin16_def MessagePackBin32_def MessagePackFloat32_def MessagePackFloat64_def
  MessagePackUint8_def MessagePackUint16_def MessagePackUint32_def MessagePackUint64_def
  MessagePackInt8_def MessagePackInt16_def MessagePackInt32_def MessagePackInt64_def
  MessagePackStr8_def MessagePackStr16_def MessagePackStr32_def MessagePackArray16_def
  MessagePackArray32_def MessagePackMap16_def MessagePackMap32_def

text \<open>
  The memory written by \<^verbatim>\<open>_msgpack_store16/32/64\<close> (2, 4 or 8 bytes), most significant byte
  first, and the number read back from such bytes with \<^verbatim>\<open>_msgpack_be16/32/64\<close>.
\<close>

fun msgpack_store :: "nat \<Rightarrow> 'a::len word \<Rightarrow> bytes" where
  "msgpack_store 0 num = []"
| "msgpack_store (Suc k) num = ucast (drop_bit (8 * k) num) # msgpack_store k num"

fun be_value :: "int \<Rightarrow> bytes \<Rightarrow> int" where
  "be_value acc [] = acc"
| "be_value acc (b # bs) = be_value (acc * 256 + uint b) bs"

definition msgpack_be :: "bytes \<Rightarrow> 'a::len word" where
  "msgpack_be bs = word_of_int (be_value 0 bs)"

section \<open>The writer\<close>

definition take8 :: "'a::len word \<Rightarrow> byte" where "take8 d = ucast d"

definition mpw_Null :: "put list" where "mpw_Null = [PutChar MessagePackNil]"
definition mpw_BoolTrue :: "put list" where "mpw_BoolTrue = [PutChar MessagePackTrue]"
definition mpw_BoolFalse :: "put list" where "mpw_BoolFalse = [PutChar MessagePackFalse]"

definition mpw_WriteUint :: "u32 \<Rightarrow> put list" where
  "mpw_WriteUint u =
     (if u < 2 ^ 8 then
        (if u < 2 ^ 7 then [PutChar (take8 u)] else [PutChar MessagePackUint8, PutChar (take8 u)])
      else
        (if u < 2 ^ 16 then [PutChar MessagePackUint16, PutStr (msgpack_store 2 (ucast u :: 16 word))]
         else [PutChar MessagePackUint32, PutStr (msgpack_store 4 u)]))"

definition mpw_WriteUint64 :: "u64 \<Rightarrow> put list" where
  "mpw_WriteUint64 u64 =
     (if u64 < 2 ^ 8 then
        (if u64 < 2 ^ 7 then [PutChar (take8 u64)] else [PutChar MessagePackUint8, PutChar (take8 u64)])
      else
        (if u64 < 2 ^ 16 then [PutChar MessagePackUint16, PutStr (msgpack_store 2 (ucast u64 :: 16 word))]
         else if u64 < 2 ^ 32 then [PutChar MessagePackUint32, PutStr (msgpack_store 4 (ucast u64 :: u32))]
         else [PutChar MessagePackUint64, PutStr (msgpack_store 8 u64)]))"

definition mpw_Int :: "32 word \<Rightarrow> put list" where
  "mpw_Int i =
     (if sint i < - (2 ^ 5) then
        (if sint i < - (2 ^ 15) then [PutChar MessagePackInt32, PutStr (msgpack_store 4 i)]
         else if sint i < - (2 ^ 7) then [PutChar MessagePackInt16, PutStr (msgpack_store 2 (ucast i :: 16 word))]
         else [PutChar MessagePackInt8, PutChar (take8 i)])
      else if sint i < 2 ^ 7 then [PutChar (take8 i)]
      else mpw_WriteUint i)"

definition mpw_Uint :: "u32 \<Rightarrow> put list" where "mpw_Uint u = mpw_WriteUint u"

definition mpw_Int64 :: "64 word \<Rightarrow> put list" where
  "mpw_Int64 i64 =
     (if sint i64 < - (2 ^ 5) then
        (if sint i64 < - (2 ^ 15) then
           (if sint i64 < - (2 ^ 31) then [PutChar MessagePackInt64, PutStr (msgpack_store 8 i64)]
            else [PutChar MessagePackInt32, PutStr (msgpack_store 4 (ucast i64 :: 32 word))])
         else if sint i64 < - (2 ^ 7) then [PutChar MessagePackInt16, PutStr (msgpack_store 2 (ucast i64 :: 16 word))]
         else [PutChar MessagePackInt8, PutChar (take8 i64)])
      else if sint i64 < 2 ^ 7 then [PutChar (take8 i64)]
      else mpw_WriteUint64 i64)"

definition mpw_Uint64 :: "u64 \<Rightarrow> put list" where "mpw_Uint64 u64 = mpw_WriteUint64 u64"

definition mpw_Float :: "u32 \<Rightarrow> put list" where
  "mpw_Float f = [PutChar MessagePackFloat32, PutStr (msgpack_store 4 f)]"

definition mpw_Double :: "u64 \<Rightarrow> put list" where
  "mpw_Double d = [PutChar MessagePackFloat64, PutStr (msgpack_store 8 d)]"

text \<open>A \<^verbatim>\<open>size_t\<close> length is cast to the width of its field.\<close>

definition mpw_String :: "bytes \<Rightarrow> put list" where
  "mpw_String str =
     (let len = length str in
      (if len < 32 then [PutChar (MessagePackFixStr OR word_of_nat len)]
       else if len < 256 then [PutChar MessagePackStr8, PutChar (word_of_nat len)]
       else if len < 65536 then [PutChar MessagePackStr16, PutStr (msgpack_store 2 (word_of_nat len :: 16 word))]
       else [PutChar MessagePackStr32, PutStr (msgpack_store 4 (word_of_nat len :: u32))])
      @ [PutStr str])"

definition mpw_Binary :: "bytes \<Rightarrow> put list" where
  "mpw_Binary str =
     (let len = length str in
      (if len < 256 then [PutChar MessagePackBin8, PutChar (word_of_nat len)]
       else if len < 65536 then [PutChar MessagePackBin16, PutStr (msgpack_store 2 (word_of_nat len :: 16 word))]
       else [PutChar MessagePackBin32, PutStr (msgpack_store 4 (word_of_nat len :: u32))])
      @ [PutStr str])"

definition mpw_StartMap :: "nat \<Rightarrow> put list" where
  "mpw_StartMap memberCount =
     (if memberCount < 16 then [PutChar (MessagePackFixMap OR word_of_nat memberCount)]
      else if memberCount < 65536
      then [PutChar MessagePackMap16, PutStr (msgpack_store 2 (word_of_nat memberCount :: 16 word))]
      else [PutChar MessagePackMap32, PutStr (msgpack_store 4 (word_of_nat memberCount :: u32))])"

definition mpw_Key :: "bytes \<Rightarrow> put list" where "mpw_Key str = mpw_String str"

definition mpw_EndMap :: "put list" where "mpw_EndMap = [Flush]"

definition mpw_StartArray :: "nat \<Rightarrow> put list" where
  "mpw_StartArray elementCount =
     (if elementCount < 16 then [PutChar (MessagePackFixArray OR word_of_nat elementCount)]
      else if elementCount < 65536
      then [PutChar MessagePackArray16, PutStr (msgpack_store 2 (word_of_nat elementCount :: 16 word))]
      else [PutChar MessagePackArray32, PutStr (msgpack_store 4 (word_of_nat elementCount :: u32))])"

definition mpw_EndArray :: "put list" where "mpw_EndArray = [Flush]"

text \<open>\<^verbatim>\<open>localtime_r\<close> depends on the time zone and is a parameter.\<close>

definition mpw_DateTime :: "(u64 \<Rightarrow> tm) \<Rightarrow> u64 \<Rightarrow> put list" where
  "mpw_DateTime localtime dt =
     mpw_StartArray 2 @ mpw_String ANYRPC_DATETIME_STRING @ mpw_String (fmt_tm (localtime dt)) @ mpw_EndArray"

text \<open>
  Virtual dispatch. The overloads of
  \<^verbatim>\<open>StartMap\<close> and \<^verbatim>\<open>StartArray\<close> without a count are those of the base class, which throw, and
  the separators do nothing.
\<close>

fun mpw_event :: "(u64 \<Rightarrow> tm) \<Rightarrow> event \<Rightarrow> put list result" where
  "mpw_event localtime EvStartDocument = Inr []"
| "mpw_event localtime EvEndDocument = Inr []"
| "mpw_event localtime EvNull = Inr mpw_Null"
| "mpw_event localtime EvBoolTrue = Inr mpw_BoolTrue"
| "mpw_event localtime EvBoolFalse = Inr mpw_BoolFalse"
| "mpw_event localtime (EvDateTime dt) = Inr (mpw_DateTime localtime dt)"
| "mpw_event localtime (EvString mem len copy) = then_r (str_arg mem len) (\<lambda>str. Inr (mpw_String str))"
| "mpw_event localtime (EvBinary str copy) = Inr (mpw_Binary str)"
| "mpw_event localtime (EvInt i) = Inr (mpw_Int i)"
| "mpw_event localtime (EvUint u) = Inr (mpw_Uint u)"
| "mpw_event localtime (EvInt64 i64) = Inr (mpw_Int64 i64)"
| "mpw_event localtime (EvUint64 u64) = Inr (mpw_Uint64 u64)"
| "mpw_event localtime (EvFloat f) = Inr (mpw_Float f)"
| "mpw_event localtime (EvDouble d) = Inr (mpw_Double d)"
| "mpw_event localtime (EvStartMap (Some n)) = Inr (mpw_StartMap n)"
| "mpw_event localtime (EvStartMap None) = Inl AnyRpcErrorIllegalCall"
| "mpw_event localtime (EvKey mem len copy) = then_r (str_arg mem len) (\<lambda>str. Inr (mpw_Key str))"
| "mpw_event localtime EvMapSeparator = Inr []"
| "mpw_event localtime (EvEndMap n) = Inr mpw_EndMap"
| "mpw_event localtime (EvStartArray (Some n)) = Inr (mpw_StartArray n)"
| "mpw_event localtime (EvStartArray None) = Inl AnyRpcErrorIllegalCall"
| "mpw_event localtime EvArraySeparator = Inr []"
| "mpw_event localtime (EvEndArray n) = Inr mpw_EndArray"

definition mpw_step :: "(u64 \<Rightarrow> tm) \<Rightarrow> put list \<Rightarrow> event \<Rightarrow> put list result" where
  "mpw_step localtime os e = then_r (mpw_event localtime e) (\<lambda>ps. Inr (os @ ps))"

section \<open>What is written\<close>

abbreviation written :: "put list \<Rightarrow> bytes" where "written ps \<equiv> concat (map put_bytes ps)"

text \<open>The \<open>k\<close> low bytes of an integer, and the bytes of an integer by its range.\<close>

fun be_bytes :: "nat \<Rightarrow> int \<Rightarrow> bytes" where
  "be_bytes 0 z = []"
| "be_bytes (Suc k) z = word_of_int (z div 256 ^ k) # be_bytes k z"

definition mp_int :: "int \<Rightarrow> bytes" where
  "mp_int z =
     (if 0 \<le> z then
        (if z < 2 ^ 7 then [word_of_int z]
         else if z < 2 ^ 8 then [MessagePackUint8, word_of_int z]
         else if z < 2 ^ 16 then MessagePackUint16 # be_bytes 2 z
         else if z < 2 ^ 32 then MessagePackUint32 # be_bytes 4 z
         else MessagePackUint64 # be_bytes 8 z)
      else
        (if - (2 ^ 5) \<le> z then [word_of_int z]
         else if - (2 ^ 7) \<le> z then [MessagePackInt8, word_of_int z]
         else if - (2 ^ 15) \<le> z then MessagePackInt16 # be_bytes 2 z
         else if - (2 ^ 31) \<le> z then MessagePackInt32 # be_bytes 4 z
         else MessagePackInt64 # be_bytes 8 z))"

fun mp_bytes :: "(u64 \<Rightarrow> tm) \<Rightarrow> aval \<Rightarrow> bytes" where
  "mp_bytes localtime AInvalid = []"
| "mp_bytes localtime ANull = [MessagePackNil]"
| "mp_bytes localtime (ABool b) = [if b then MessagePackTrue else MessagePackFalse]"
| "mp_bytes localtime (AInt z) = mp_int z"
| "mp_bytes localtime (AFloat f) = MessagePackFloat32 # msgpack_store 4 f"
| "mp_bytes localtime (ADouble d) = MessagePackFloat64 # msgpack_store 8 d"
| "mp_bytes localtime (ATime t) = written (mpw_DateTime localtime t)"
| "mp_bytes localtime (AStr s) = written (mpw_String s)"
| "mp_bytes localtime (ABin s) = written (mpw_Binary s)"
| "mp_bytes localtime (AArr xs) = written (mpw_StartArray (length xs)) @ concat (map (mp_bytes localtime) xs)"
| "mp_bytes localtime (AMap ms) = written (mpw_StartMap (length ms))
     @ concat (map (\<lambda>m. written (mpw_String (fst m)) @ mp_bytes localtime (snd m)) ms)"

text \<open>Truncating casts keep the low bytes, so the stored bytes do not depend on the width.\<close>

lemma length_msgpack_store [simp]: "length (msgpack_store k w) = k"
  by (induction k) simp_all

lemma be_value_append: "be_value acc (xs @ ys) = be_value (be_value acc xs) ys"
  by (induction xs arbitrary: acc) simp_all

lemma be_value_acc: "be_value acc bs = acc * 256 ^ length bs + be_value 0 bs"
proof (induction bs arbitrary: acc)
  case (Cons b bs)
  from Cons.IH [of "acc * 256 + uint b"] Cons.IH [of "uint b"] show ?case by (simp add: algebra_simps)
qed simp

lemma byte_of_word: "uint (ucast (drop_bit k w) :: byte) = uint w div 2 ^ k mod 256"
  unfolding unsigned_ucast_eq unsigned_drop_bit_eq by (simp add: take_bit_eq_mod drop_bit_eq_div)

lemma be_value_store: "be_value 0 (msgpack_store k w) = uint w mod 256 ^ k"
proof (induction k)
  case (Suc k)
  have "uint w mod (256 ^ k * 256) = 256 ^ k * (uint w div 256 ^ k mod 256) + uint w mod 256 ^ k"
    by (rule zmod_zmult2_eq) simp
  moreover have "(256 :: int) ^ k = 2 ^ (8 * k)" by (simp add: power_mult)
  ultimately have "uint w mod 256 ^ Suc k = (uint w div 2 ^ (8 * k) mod 256) * 256 ^ k + uint w mod 256 ^ k"
    by (simp add: mult.commute)
  with Suc show ?case
    using be_value_acc [of "uint w div 2 ^ (8 * k) mod 256" "msgpack_store k w"] by (simp add: byte_of_word)
qed simp


lemma length_be_bytes [simp]: "length (be_bytes k z) = k"
  by (induction k) simp_all

lemma be_bytes_value: "be_value 0 (be_bytes k z) = z mod 256 ^ k"
proof (induction k)
  case (Suc k)
  have "uint (word_of_int (z div 256 ^ k) :: byte) = z div 256 ^ k mod 256"
    by (simp add: unsigned_of_int take_bit_eq_mod)
  moreover have "z mod (256 ^ k * 256) = 256 ^ k * (z div 256 ^ k mod 256) + z mod 256 ^ k"
    by (rule zmod_zmult2_eq) simp
  ultimately show ?case using Suc be_value_acc [of "z div 256 ^ k mod 256" "be_bytes k z"]
    by (simp add: mult.commute)
qed simp

lemma be_bytes_cong: "z mod 256 ^ k = z' mod 256 ^ k \<Longrightarrow> be_bytes k z = be_bytes k z'"
proof (induction k)
  case (Suc k)
  have m: "z mod 256 ^ Suc k = 256 ^ k * (z div 256 ^ k mod 256) + z mod 256 ^ k" for z :: int
    using zmod_zmult2_eq [of 256 z "256 ^ k"] by (simp add: mult.commute)
  have "z mod 256 ^ k = z mod 256 ^ Suc k mod 256 ^ k" for z :: int
    by (simp add: mod_mod_cancel)
  with Suc.prems have k: "z mod 256 ^ k = z' mod 256 ^ k" by metis
  with Suc.prems m [of z] m [of z'] have "z div 256 ^ k mod 256 = z' div 256 ^ k mod 256" by simp
  then have "(word_of_int (z div 256 ^ k) :: byte) = word_of_int (z' div 256 ^ k)"
    by (simp add: word_uint_eq_iff unsigned_of_int take_bit_eq_mod)
  with Suc.IH [OF k] show ?case by simp
qed simp

lemma msgpack_store_be: "msgpack_store k w = be_bytes k (uint w)"
proof (induction k)
  case (Suc k)
  have "(ucast (drop_bit (8 * k) w) :: byte) = word_of_int (uint w div 256 ^ k)"
    by (simp only: word_uint_eq_iff byte_of_word) (simp add: unsigned_of_int take_bit_eq_mod power_mult)
  with Suc show ?case by simp
qed simp

text \<open>Casts and signs do not change the low bytes.\<close>

lemma low_bytes:
  assumes "8 * k \<le> LENGTH('a)"
  shows "sint w mod 256 ^ k = uint (w :: 'a::len word) mod 256 ^ k"
    "8 * k \<le> LENGTH('b) \<Longrightarrow> uint (ucast w :: 'b::len word) mod 256 ^ k = uint w mod 256 ^ k"
proof -
  have p: "(256 :: int) ^ k = 2 ^ (8 * k)" by (simp add: power_mult)
  show "sint w mod 256 ^ k = uint w mod 256 ^ k"
    using assms by (simp add: p uint_sint [of w] flip: take_bit_eq_mod)
  show "8 * k \<le> LENGTH('b) \<Longrightarrow> uint (ucast w :: 'b word) mod 256 ^ k = uint w mod 256 ^ k"
    by (simp add: p unsigned_ucast_eq flip: take_bit_eq_mod)
qed

lemma be_casts:
  assumes "8 * k \<le> LENGTH('a)"
  shows "be_bytes k (sint w) = be_bytes k (uint (w :: 'a::len word))"
    "8 * k \<le> LENGTH('b) \<Longrightarrow> be_bytes k (uint (ucast w :: 'b::len word)) = be_bytes k (uint w)"
  using low_bytes [OF assms, of w] by (auto intro: be_bytes_cong)

lemma scast_byte: "8 \<le> LENGTH('a) \<Longrightarrow> (scast w :: byte) = ucast w" for w :: "'a::len word"
proof -
  assume "8 \<le> LENGTH('a)"
  then have "sint w mod 256 = uint w mod 256" using low_bytes(1) [of 1 w] by simp
  then have "(word_of_int (sint w) :: byte) = word_of_int (uint w)"
    by (simp only: word_uint_eq_iff unsigned_of_int) (simp add: take_bit_eq_mod)
  then show ?thesis by simp
qed

lemmas int_bytes = take8_def scast_byte msgpack_store_be be_casts

lemma written_WriteUint: "written (mpw_WriteUint u) = mp_int (uint u)"
  using uint_lower [of u] uint_range(1) [of u] by (simp add: mpw_WriteUint_def mp_int_def word_less_def int_bytes)

lemma written_WriteUint64: "written (mpw_WriteUint64 w) = mp_int (uint w)"
  using uint_lower [of w] uint_range(2) [of w] by (simp add: mpw_WriteUint64_def mp_int_def word_less_def int_bytes)

lemma written_Int: "written (mpw_Int i) = mp_int (sint i)"
proof (cases "sint i < 0")
  case True
  then show ?thesis using sint_range32 [of i] by (simp add: mpw_Int_def mp_int_def int_bytes)
next
  case False
  then show ?thesis using sint_uint_nonneg [of i]
    by (auto simp: mpw_Int_def written_WriteUint) (simp add: mp_int_def int_bytes)
qed

lemma written_Int64: "written (mpw_Int64 i) = mp_int (sint i)"
proof (cases "sint i < 0")
  case True
  then show ?thesis by (simp add: mpw_Int64_def mp_int_def int_bytes)
next
  case False
  then show ?thesis using sint_uint_nonneg [of i]
    by (auto simp: mpw_Int64_def written_WriteUint64) (simp add: mp_int_def int_bytes)
qed

section \<open>Events of a value\<close>

definition writes :: "(u64 \<Rightarrow> tm) \<Rightarrow> event list \<Rightarrow> bytes \<Rightarrow> bool" where
  "writes localtime es bs \<longleftrightarrow>
     (\<forall>os. \<exists>ps. run_events (mpw_step localtime) es os = Inr (os @ ps) \<and> written ps = bs)"

lemma writes_Nil: "writes localtime [] []"
  by (simp add: writes_def)

lemma writes_one: "mpw_event localtime e = Inr ps \<Longrightarrow> writes localtime [e] (written ps)"
  by (simp add: writes_def mpw_step_def)

lemma writes_append:
  assumes "writes localtime es bs" "writes localtime fs cs"
  shows "writes localtime (es @ fs) (bs @ cs)"
  unfolding writes_def
proof
  fix os
  from assms(1) obtain ps where "run_events (mpw_step localtime) es os = Inr (os @ ps)" "written ps = bs"
    unfolding writes_def by blast
  moreover from assms(2) obtain qs where "run_events (mpw_step localtime) fs (os @ ps) = Inr ((os @ ps) @ qs)"
    "written qs = cs" unfolding writes_def by blast
  ultimately show "\<exists>ps. run_events (mpw_step localtime) (es @ fs) os = Inr (os @ ps) \<and> written ps = bs @ cs"
    by (intro exI [of _ "ps @ qs"]) (simp add: run_events_append)
qed

lemma writes_Cons:
  "mpw_event localtime e = Inr ps \<Longrightarrow> writes localtime fs cs \<Longrightarrow> writes localtime (e # fs) (written ps @ cs)"
  using writes_append [OF writes_one] by fastforce

lemma writes_representation:
  "represents a es \<Longrightarrow> \<forall>e \<in> set es. counted e \<Longrightarrow> writes localtime es (mp_bytes localtime a)"
  "represents_members ms es' \<Longrightarrow> \<forall>e \<in> set es'. counted e \<Longrightarrow> writes localtime es'
     (concat (map (\<lambda>m. written (mpw_String (fst m)) @ mp_bytes localtime (snd m)) ms))"
  "represents_elements xs es'' \<Longrightarrow> \<forall>e \<in> set es''. counted e \<Longrightarrow>
     writes localtime es'' (concat (map (mp_bytes localtime) xs))"
proof (induction rule: rep_induct)
  case (rep_arr xs es c)
  then have "c = Some (length xs)" by auto
  with rep_arr show ?case
    using writes_Cons [OF _ writes_append [OF rep_arr.IH writes_one], of "EvStartArray c" "mpw_StartArray (length xs)"
      "EvEndArray (length xs)" mpw_EndArray] by (simp add: mpw_EndArray_def)
next
  case (rep_map ms es c)
  then have "c = Some (length ms)" by auto
  with rep_map show ?case
    using writes_Cons [OF _ writes_append [OF rep_map.IH writes_one], of "EvStartMap c" "mpw_StartMap (length ms)"
      "EvEndMap (length ms)" mpw_EndMap] by (simp add: mpw_EndMap_def)
next
  case (rep_elements_Cons x es xs fs)
  then show ?case
    using writes_append [OF rep_elements_Cons.IH(1) writes_Cons [OF _ rep_elements_Cons.IH(2)], of EvArraySeparator "[]"]
    by simp
next
  case (rep_members_one x es k mem len copy)
  then show ?case
    using writes_Cons [OF _ rep_members_one.IH, of "EvKey mem len copy" "mpw_Key k"] string_event_arg
    by (simp add: mpw_Key_def)
next
  case (rep_members_Cons x es k mem len copy ms fs)
  then show ?case
    using writes_Cons [OF _ writes_append [OF rep_members_Cons.IH(1) writes_Cons [OF _ rep_members_Cons.IH(2)]],
      of "EvKey mem len copy" "mpw_Key k" EvMapSeparator "[]"] string_event_arg
    by (simp add: mpw_Key_def)
next
  case (rep_str s mem len copy)
  then show ?case using writes_one [of localtime "EvString mem len copy" "mpw_String s"] string_event_arg by simp
next
  case (rep_int i)
  show ?case using writes_one [of localtime "EvInt i"] written_Int by fastforce
next
  case (rep_uint u)
  show ?case using writes_one [of localtime "EvUint u"] written_WriteUint by (fastforce simp: mpw_Uint_def)
next
  case (rep_int64 i)
  show ?case using writes_one [of localtime "EvInt64 i"] written_Int64 by fastforce
next
  case (rep_uint64 u)
  show ?case using writes_one [of localtime "EvUint64 u"] written_WriteUint64 by (fastforce simp: mpw_Uint64_def)
next
  case (rep_bin s copy)
  show ?case using writes_one [of localtime "EvBinary s copy"] by fastforce
next
  case (rep_float f)
  show ?case using writes_one [of localtime "EvFloat f"] by (fastforce simp: mpw_Float_def)
next
  case (rep_double f)
  show ?case using writes_one [of localtime "EvDouble f"] by (fastforce simp: mpw_Double_def)
next
  case (rep_time t)
  show ?case using writes_one [of localtime "EvDateTime t"] by fastforce
next
  case rep_null
  show ?case using writes_one [of localtime EvNull] by (fastforce simp: mpw_Null_def)
next
  case rep_true
  show ?case using writes_one [of localtime EvBoolTrue] by (fastforce simp: mpw_BoolTrue_def)
next
  case rep_false
  show ?case using writes_one [of localtime EvBoolFalse] by (fastforce simp: mpw_BoolFalse_def)
qed (auto simp: writes_Nil)

text \<open>The writer is a sink for the events that carry their counts.\<close>

interpretation mpw: sink "mpw_step localtime" counted "\<lambda>os. True" "\<lambda>a. True"
  "\<lambda>os a os'. \<exists>ps. os' = os @ ps \<and> written ps = mp_bytes localtime a" for localtime
proof unfold_locales
  fix h a es
  assume "represents a es" "\<forall>e \<in> set es. counted e"
  from writes_representation(1) [OF this, of localtime]
  show "\<exists>h'. run_events (mpw_step localtime) es h = Inr h'
    \<and> (\<exists>ps. h' = h @ ps \<and> written ps = mp_bytes localtime a)" unfolding writes_def by metis
qed simp

end
