(* ===== verification/AnyRpc_MessagePackReader.thy ===== *)
theory AnyRpc_MessagePackReader
  imports AnyRpc_MessagePack AnyRpc_Reader
begin

text \<open>
  messagepackreader.h and messagepackreader.cpp. The parser is recursive descent over the lookup
  table; the recursion is bounded by a counter, and \<open>mpr_fuel\<close>, linear in what is left to read,
  is proved to be enough for any input.

  Main results: on any bytes, from any stream, the reader ends with a document or an
  \<^verbatim>\<open>AnyRpcException\<close>, never with undefined behaviour; on the bytes the writer produces for a
  value it produces an event sequence that represents the value.
\<close>

section \<open>State and tokens\<close>

record mpr =
  mpr_is :: stream
  mpr_token :: byte
  mpr_valid :: bool
  mpr_inSitu :: bool
  mpr_copy :: bool

definition mpr_new :: "stream \<Rightarrow> mpr" where
  "mpr_new is = \<lparr> mpr_is = is, mpr_token = 0, mpr_valid = False, mpr_inSitu = reader_inSitu is,
     mpr_copy = reader_copy is \<rparr>"

definition GetToken :: "mpr \<Rightarrow> mpr" where
  "GetToken r = (if \<not> mpr_valid r
     then (case st_Get (mpr_is r) of (c, is) \<Rightarrow> r \<lparr> mpr_is := is, mpr_token := c, mpr_valid := True \<rparr>)
     else r)"

definition GetClearToken :: "mpr \<Rightarrow> mpr" where
  "GetClearToken r = (case st_GetClear (mpr_is r) of (c, is) \<Rightarrow> r \<lparr> mpr_is := is, mpr_token := c, mpr_valid := True \<rparr>)"

definition ResetToken :: "mpr \<Rightarrow> mpr" where "ResetToken r = r \<lparr> mpr_valid := False \<rparr>"

text \<open>\<^verbatim>\<open>if (is_.Read(buffer,n) != n)\<close> terminate; and a single byte behind the same check.\<close>

definition mpr_Read :: "nat \<Rightarrow> mpr \<Rightarrow> (bytes \<times> mpr) result" where
  "mpr_Read n r = then_r (st_Read (mpr_is r) n) (\<lambda>(bs, is).
     check_that (length bs = n) AnyRpcErrorTermination (Inr (bs, r \<lparr> mpr_is := is \<rparr>)))"

definition mpr_GetByte :: "mpr \<Rightarrow> (byte \<times> mpr) result" where
  "mpr_GetByte r = (if st_Eof (mpr_is r) then Inl AnyRpcErrorTermination
     else case st_Get (mpr_is r) of (c, is) \<Rightarrow> Inr (c, r \<lparr> mpr_is := is \<rparr>))"

section \<open>Values that do not nest\<close>

definition mpr_event :: "event \<Rightarrow> mpr \<Rightarrow> mpr producer" where
  "mpr_event e r = emit [e] (ResetToken r)"

definition ParseNull :: "mpr \<Rightarrow> mpr producer" where "ParseNull r = mpr_event EvNull r"
definition ParseFalse :: "mpr \<Rightarrow> mpr producer" where "ParseFalse r = mpr_event EvBoolFalse r"
definition ParseTrue :: "mpr \<Rightarrow> mpr producer" where "ParseTrue r = mpr_event EvBoolTrue r"

definition ParsePositiveFixInt :: "mpr \<Rightarrow> mpr producer" where
  "ParsePositiveFixInt r = mpr_event (EvUint (ucast (mpr_token r))) r"
definition ParseNegativeFixInt :: "mpr \<Rightarrow> mpr producer" where
  "ParseNegativeFixInt r = mpr_event (EvInt (scast (mpr_token r))) r"

definition ParseUint8 :: "mpr \<Rightarrow> mpr producer" where
  "ParseUint8 r = then_p (lift_r (mpr_GetByte r)) (\<lambda>(c, r'). mpr_event (EvUint (ucast c)) r')"
definition ParseUint16 :: "mpr \<Rightarrow> mpr producer" where
  "ParseUint16 r = then_p (lift_r (mpr_Read 2 r)) (\<lambda>(bs, r').
     mpr_event (EvUint (ucast (msgpack_be bs :: 16 word))) r')"
definition ParseUint32 :: "mpr \<Rightarrow> mpr producer" where
  "ParseUint32 r = then_p (lift_r (mpr_Read 4 r)) (\<lambda>(bs, r'). mpr_event (EvUint (msgpack_be bs)) r')"
definition ParseUint64 :: "mpr \<Rightarrow> mpr producer" where
  "ParseUint64 r = then_p (lift_r (mpr_Read 8 r)) (\<lambda>(bs, r'). mpr_event (EvUint64 (msgpack_be bs)) r')"
definition ParseInt8 :: "mpr \<Rightarrow> mpr producer" where
  "ParseInt8 r = then_p (lift_r (mpr_GetByte r)) (\<lambda>(c, r'). mpr_event (EvInt (scast c)) r')"
definition ParseInt16 :: "mpr \<Rightarrow> mpr producer" where
  "ParseInt16 r = then_p (lift_r (mpr_Read 2 r)) (\<lambda>(bs, r').
     mpr_event (EvInt (scast (msgpack_be bs :: 16 word))) r')"
definition ParseInt32 :: "mpr \<Rightarrow> mpr producer" where
  "ParseInt32 r = then_p (lift_r (mpr_Read 4 r)) (\<lambda>(bs, r'). mpr_event (EvInt (msgpack_be bs)) r')"
definition ParseInt64 :: "mpr \<Rightarrow> mpr producer" where
  "ParseInt64 r = then_p (lift_r (mpr_Read 8 r)) (\<lambda>(bs, r'). mpr_event (EvInt64 (msgpack_be bs)) r')"
definition ParseFloat32 :: "mpr \<Rightarrow> mpr producer" where
  "ParseFloat32 r = then_p (lift_r (mpr_Read 4 r)) (\<lambda>(bs, r'). mpr_event (EvFloat (msgpack_be bs)) r')"
definition ParseFloat64 :: "mpr \<Rightarrow> mpr producer" where
  "ParseFloat64 r = then_p (lift_r (mpr_Read 8 r)) (\<lambda>(bs, r'). mpr_event (EvDouble (msgpack_be bs)) r')"

text \<open>
  Strings. In place, the next token is read before the handler is called, so that its byte can
  become the terminator; \<open>mpr_skip\<close> is \<^verbatim>\<open>PutBegin\<close> and the checked \<^verbatim>\<open>Skip\<close>. Otherwise the bytes
  are read into a buffer, on the stack or allocated, which makes no difference here.
\<close>

definition mpr_skip :: "nat \<Rightarrow> mpr \<Rightarrow> (nat \<times> mpr) result" where
  "mpr_skip len r = then_r (st_PutBegin (mpr_is r)) (\<lambda>(buffer, is1).
     then_r (st_Skip is1 len) (\<lambda>(n, is2).
       check_that (len = n) AnyRpcErrorTermination (Inr (buffer, r \<lparr> mpr_is := is2 \<rparr>))))"

definition mpr_PutEnd :: "mpr \<Rightarrow> mpr producer" where
  "mpr_PutEnd r = then_p (lift_r (st_PutEnd (mpr_is r))) (\<lambda>(n, is). emit [] (r \<lparr> mpr_is := is \<rparr>))"

definition ParseStr :: "nat \<Rightarrow> mpr \<Rightarrow> mpr producer" where
  "ParseStr len r =
     (if mpr_inSitu r then
        then_p (lift_r (mpr_skip len r)) (\<lambda>(buffer, r1).
          let copy = (mpr_copy r1 \<or> st_Eof (mpr_is r1)); r2 = GetClearToken r1
          in then_p (emit [EvString (st_memory (mpr_is r2) buffer) len copy] r2) mpr_PutEnd)
      else then_p (lift_r (mpr_Read len r)) (\<lambda>(bs, r'). mpr_event (EvString (bs @ [0]) len True) r'))"

definition ParseBin :: "nat \<Rightarrow> mpr \<Rightarrow> mpr producer" where
  "ParseBin len r =
     (if mpr_inSitu r then
        then_p (lift_r (mpr_skip len r)) (\<lambda>(buffer, r1).
          then_p (mpr_event (EvBinary (take len (st_memory (mpr_is r1) buffer)) (mpr_copy r1)) r1) mpr_PutEnd)
      else then_p (lift_r (mpr_Read len r)) (\<lambda>(bs, r'). mpr_event (EvBinary bs True) r'))"

text \<open>A length of 1 to 4 bytes read from the stream.\<close>

definition mpr_length :: "nat \<Rightarrow> mpr \<Rightarrow> (nat \<times> mpr) result" where
  "mpr_length n r = then_r (mpr_Read n r) (\<lambda>(bs, r'). Inr (unat (msgpack_be bs :: u32), r'))"

definition ParseFixStr :: "mpr \<Rightarrow> mpr producer" where
  "ParseFixStr r = ParseStr (unat (mpr_token r AND 0x1f)) r"
definition ParseStr8 :: "mpr \<Rightarrow> mpr producer" where
  "ParseStr8 r = (case st_Get (mpr_is r) of (c, is) \<Rightarrow> ParseStr (unat c) (r \<lparr> mpr_is := is \<rparr>))"
definition ParseStr16 :: "mpr \<Rightarrow> mpr producer" where
  "ParseStr16 r = then_p (lift_r (mpr_length 2 r)) (\<lambda>(len, r'). ParseStr len r')"
definition ParseStr32 :: "mpr \<Rightarrow> mpr producer" where
  "ParseStr32 r = then_p (lift_r (mpr_length 4 r)) (\<lambda>(len, r'). ParseStr len r')"
definition ParseBin8 :: "mpr \<Rightarrow> mpr producer" where
  "ParseBin8 r = then_p (lift_r (mpr_GetByte r)) (\<lambda>(c, r'). ParseBin (unat c) r')"
definition ParseBin16 :: "mpr \<Rightarrow> mpr producer" where
  "ParseBin16 r = then_p (lift_r (mpr_length 2 r)) (\<lambda>(len, r'). ParseBin len r')"
definition ParseBin32 :: "mpr \<Rightarrow> mpr producer" where
  "ParseBin32 r = then_p (lift_r (mpr_length 4 r)) (\<lambda>(len, r'). ParseBin len r')"

text \<open>
  Keys. The check for the end of the stream ignores a token that has already been read, and
  without in-place parsing an empty key produces no event and leaves the token valid.
\<close>

definition mpr_key :: "nat \<Rightarrow> mpr \<Rightarrow> mpr producer" where
  "mpr_key len r =
     (if mpr_inSitu r then
        then_p (lift_r (mpr_skip len r)) (\<lambda>(buffer, r1).
          let r2 = GetClearToken r1
          in then_p (emit [EvKey (st_memory (mpr_is r2) buffer) len (mpr_copy r2)] r2) mpr_PutEnd)
      else if len > 0 then
        then_p (lift_r (mpr_Read len r)) (\<lambda>(bs, r1). mpr_event (EvKey (bs @ [0]) len True) r1)
      else emit [] r)"

definition mpr_key_length :: "mpr \<Rightarrow> (nat \<times> mpr) result" where
  "mpr_key_length r =
     (let t = mpr_token r in
      if MessagePackFixStr \<le> t \<and> t < MessagePackNil then Inr (unat (t AND 0x1f), r)
      else if t = MessagePackStr8 then then_r (mpr_GetByte r) (\<lambda>(c, r1). Inr (unat c, r1))
      else Inl AnyRpcErrorValueInvalid)"

definition ParseKey :: "mpr \<Rightarrow> mpr producer" where
  "ParseKey r =
     (if st_Eof (mpr_is r) then throw AnyRpcErrorTermination
      else then_p (lift_r (mpr_key_length (GetToken r))) (\<lambda>(len, r1). mpr_key len r1))"

section \<open>The lookup table\<close>

datatype mp_function =
    FParsePositiveFixInt | FParseFixMap | FParseFixArray | FParseFixStr
  | FParseNull | FParseIllegal | FParseFalse | FParseTrue
  | FParseBin8 | FParseBin16 | FParseBin32 | FParseExt8 | FParseExt16 | FParseExt32
  | FParseFloat32 | FParseFloat64
  | FParseUint8 | FParseUint16 | FParseUint32 | FParseUint64
  | FParseInt8 | FParseInt16 | FParseInt32 | FParseInt64
  | FParseFixExt1 | FParseFixExt2 | FParseFixExt4 | FParseFixExt8 | FParseFixExt16
  | FParseStr8 | FParseStr16 | FParseStr32
  | FParseArray16 | FParseArray32 | FParseMap16 | FParseMap32
  | FParseNegativeFixInt

definition ParseLookup :: "mp_function list" where
  "ParseLookup =
     replicate 128 FParsePositiveFixInt @ replicate 16 FParseFixMap @ replicate 16 FParseFixArray
     @ replicate 32 FParseFixStr
     @ [FParseNull, FParseIllegal, FParseFalse, FParseTrue,
        FParseBin8, FParseBin16, FParseBin32, FParseExt8, FParseExt16, FParseExt32,
        FParseFloat32, FParseFloat64,
        FParseUint8, FParseUint16, FParseUint32, FParseUint64,
        FParseInt8, FParseInt16, FParseInt32, FParseInt64,
        FParseFixExt1, FParseFixExt2, FParseFixExt4, FParseFixExt8, FParseFixExt16,
        FParseStr8, FParseStr16, FParseStr32,
        FParseArray16, FParseArray32, FParseMap16, FParseMap32]
     @ replicate 32 FParseNegativeFixInt"

text \<open>The functions that do not call \<^verbatim>\<open>ParseStream\<close>.\<close>

fun mpr_leaf :: "mp_function \<Rightarrow> mpr \<Rightarrow> mpr producer" where
  "mpr_leaf FParsePositiveFixInt = ParsePositiveFixInt"
| "mpr_leaf FParseFixStr = ParseFixStr"
| "mpr_leaf FParseNull = ParseNull"
| "mpr_leaf FParseFalse = ParseFalse"
| "mpr_leaf FParseTrue = ParseTrue"
| "mpr_leaf FParseBin8 = ParseBin8"
| "mpr_leaf FParseBin16 = ParseBin16"
| "mpr_leaf FParseBin32 = ParseBin32"
| "mpr_leaf FParseFloat32 = ParseFloat32"
| "mpr_leaf FParseFloat64 = ParseFloat64"
| "mpr_leaf FParseUint8 = ParseUint8"
| "mpr_leaf FParseUint16 = ParseUint16"
| "mpr_leaf FParseUint32 = ParseUint32"
| "mpr_leaf FParseUint64 = ParseUint64"
| "mpr_leaf FParseInt8 = ParseInt8"
| "mpr_leaf FParseInt16 = ParseInt16"
| "mpr_leaf FParseInt32 = ParseInt32"
| "mpr_leaf FParseInt64 = ParseInt64"
| "mpr_leaf FParseStr8 = ParseStr8"
| "mpr_leaf FParseStr16 = ParseStr16"
| "mpr_leaf FParseStr32 = ParseStr32"
| "mpr_leaf FParseNegativeFixInt = ParseNegativeFixInt"
| "mpr_leaf FParseIllegal = (\<lambda>r. throw AnyRpcErrorValueInvalid)"
| "mpr_leaf _ = (\<lambda>r. throw AnyRpcErrorNotImplemented)"

text \<open>The length with which one of the others calls \<^verbatim>\<open>ParseArray\<close> or \<^verbatim>\<open>ParseMap\<close>.\<close>

fun mpr_array_length :: "mp_function \<Rightarrow> mpr \<Rightarrow> (nat \<times> mpr) result option" where
  "mpr_array_length FParseFixArray r = Some (Inr (unat (mpr_token r AND 0xf), r))"
| "mpr_array_length FParseArray16 r = Some (mpr_length 2 r)"
| "mpr_array_length FParseArray32 r = Some (mpr_length 4 r)"
| "mpr_array_length _ r = None"

fun mpr_map_length :: "mp_function \<Rightarrow> mpr \<Rightarrow> (nat \<times> mpr) result option" where
  "mpr_map_length FParseFixMap r = Some (Inr (unat (mpr_token r AND 0xf), r))"
| "mpr_map_length FParseMap16 r = Some (mpr_length 2 r)"
| "mpr_map_length FParseMap32 r = Some (mpr_length 4 r)"
| "mpr_map_length _ r = None"

section \<open>Parsing\<close>

text \<open>
  \<open>mpr_elements fuel n\<close> and \<open>mpr_members fuel n\<close> are the loops of \<^verbatim>\<open>ParseArray\<close> and
  \<^verbatim>\<open>ParseMap\<close> with \<open>n\<close> rounds to go.
\<close>

fun mpr_ParseStream :: "nat \<Rightarrow> mpr \<Rightarrow> mpr producer"
and mpr_elements :: "nat \<Rightarrow> nat \<Rightarrow> mpr \<Rightarrow> mpr producer"
and mpr_members :: "nat \<Rightarrow> nat \<Rightarrow> mpr \<Rightarrow> mpr producer" where
  "mpr_ParseStream 0 r = throw OutOfFuel"
| "mpr_ParseStream (Suc k) r =
     (if \<not> mpr_valid r \<and> st_Eof (mpr_is r) then throw AnyRpcErrorTermination
      else let r1 = GetToken r; f = ParseLookup ! unat (mpr_token r1) in
        case mpr_array_length f r1 of
          Some len \<Rightarrow>
            then_p (lift_r len) (\<lambda>(n, r2).
              then_p (emit [EvStartArray (Some n)] (ResetToken r2)) (\<lambda>r3.
                then_p (mpr_elements k n r3) (emit [EvEndArray n])))
        | None \<Rightarrow>
            (case mpr_map_length f r1 of
               Some len \<Rightarrow>
                 then_p (lift_r len) (\<lambda>(n, r2).
                   then_p (emit [EvStartMap (Some n)] (ResetToken r2)) (\<lambda>r3.
                     then_p (mpr_members k n r3) (emit [EvEndMap n])))
             | None \<Rightarrow> mpr_leaf f r1))"
| "mpr_elements k 0 r = emit [] r"
| "mpr_elements 0 (Suc n) r = throw OutOfFuel"
| "mpr_elements (Suc k) (Suc n) r =
     then_p (mpr_ParseStream k r) (\<lambda>r1.
       then_p (emit (if n \<noteq> 0 then [EvArraySeparator] else []) r1) (mpr_elements k n))"
| "mpr_members k 0 r = emit [] r"
| "mpr_members 0 (Suc n) r = throw OutOfFuel"
| "mpr_members (Suc k) (Suc n) r =
     then_p (ParseKey r) (\<lambda>r1.
       then_p (mpr_ParseStream k r1) (\<lambda>r2.
         then_p (emit (if n \<noteq> 0 then [EvMapSeparator] else []) r2) (mpr_members k n)))"

text \<open>
  What is left to do: three for every byte, and for a valid token two, or one when it is 0 (the
  token \<^verbatim>\<open>GetClear\<close> yields at the end of the stream).
\<close>

definition mpr_weight :: "mpr \<Rightarrow> nat" where
  "mpr_weight r = 3 * length (st_left (mpr_is r))
     + (if mpr_valid r then (if mpr_token r = 0 then 1 else 2) else 0)"

definition mpr_fuel :: "mpr \<Rightarrow> nat" where "mpr_fuel r = 2 * mpr_weight r + 1"

definition MessagePackReader_ParseStream ::
    "('h \<Rightarrow> event \<Rightarrow> 'h result) \<Rightarrow> mpr \<Rightarrow> 'h \<Rightarrow> ('h \<times> err option) result" where
  "MessagePackReader_ParseStream step r h =
     parse_document step (let r' = ResetToken r in mpr_ParseStream (mpr_fuel r') r') h"


section \<open>Any input\<close>

definition mpr_ok :: "mpr \<Rightarrow> bool" where
  "mpr_ok r \<longleftrightarrow> st_ok (mpr_is r) \<and> (mpr_inSitu r \<longrightarrow> (\<exists>s. mpr_is r = InSituStream s))"

text \<open>How far a step leads: at most to weight \<open>w\<close>, or below it.\<close>

definition mpr_upto :: "nat \<Rightarrow> mpr \<Rightarrow> mpr \<Rightarrow> bool" where
  "mpr_upto w r r' \<longleftrightarrow> mpr_ok r' \<and> mpr_inSitu r' = mpr_inSitu r \<and> mpr_weight r' \<le> w"

definition mpr_down :: "nat \<Rightarrow> mpr \<Rightarrow> mpr \<Rightarrow> bool" where
  "mpr_down w r r' \<longleftrightarrow> mpr_ok r' \<and> mpr_inSitu r' = mpr_inSitu r \<and> mpr_weight r' < w"

lemma drop_Cons_less: "drop n xs = y # ys \<Longrightarrow> n < length xs"
  by (metis drop_eq_Nil2 list.distinct(1) not_le_imp_less)

lemma mpr_ok_step:
  "mpr_ok r \<Longrightarrow> st_ok s' \<Longrightarrow> st_kind s' = st_kind (mpr_is r) \<Longrightarrow> mpr_ok (r \<lparr> mpr_is := s' \<rparr>)"
  using st_kind_InSitu_stream [of s' "mpr_is r"] by (auto simp: mpr_ok_def)

lemma mpr_Read_spec:
  assumes "mpr_ok r"
  obtains (Short) "length (st_left (mpr_is r)) < n" "mpr_Read n r = Inl AnyRpcErrorTermination"
    | (Full) s' where "n \<le> length (st_left (mpr_is r))"
        "mpr_Read n r = Inr (take n (st_left (mpr_is r)), r \<lparr> mpr_is := s' \<rparr>)"
        "mpr_ok (r \<lparr> mpr_is := s' \<rparr>)" "st_left s' = drop n (st_left (mpr_is r))"
proof -
  from assms have "st_ok (mpr_is r)" by (simp add: mpr_ok_def)
  from st_Read_left [OF this, of n] obtain s' where
    s': "st_Read (mpr_is r) n = Inr (take n (st_left (mpr_is r)), s')" "st_ok s'"
    "st_left s' = drop n (st_left (mpr_is r))" "st_kind s' = st_kind (mpr_is r)" by auto
  show thesis
    by (cases "n \<le> length (st_left (mpr_is r))")
       (use s' mpr_ok_step [OF assms s'(2,4)] in \<open>auto simp: mpr_Read_def intro: that\<close>)
qed

lemma mpr_GetByte_spec:
  assumes "mpr_ok r"
  obtains (End) "st_left (mpr_is r) = []" "mpr_GetByte r = Inl AnyRpcErrorTermination"
    | (Byte) c cs s' where "st_left (mpr_is r) = c # cs" "mpr_GetByte r = Inr (c, r \<lparr> mpr_is := s' \<rparr>)"
        "mpr_ok (r \<lparr> mpr_is := s' \<rparr>)" "st_left s' = cs"
proof -
  from assms have ok: "st_ok (mpr_is r)" by (simp add: mpr_ok_def)
  from st_Get_cases [OF this] obtain c s' where s': "st_Get (mpr_is r) = (c, s')" "st_ok s'"
    "st_kind s' = st_kind (mpr_is r)" "st_left s' = tl (st_left (mpr_is r))"
    "c = (case st_left (mpr_is r) of [] \<Rightarrow> 0 | c # _ \<Rightarrow> c)" .
  show thesis
    by (cases "st_left (mpr_is r)")
       (use s' mpr_ok_step [OF assms s'(2,3)] st.eof_left [OF ok] in \<open>auto simp: mpr_GetByte_def intro: that\<close>)
qed

lemma mpr_weight_left: "mpr_weight (r \<lparr> mpr_is := s' \<rparr>) = 3 * length (st_left s') + (mpr_weight r - 3 * length (st_left (mpr_is r)))"
  by (simp add: mpr_weight_def)

lemma mpr_Read_safe:
  assumes "mpr_ok r"
  shows "safe (\<lambda>(bs, r'). length bs = n \<and> mpr_upto (mpr_weight r) r r' \<and> mpr_token r' = mpr_token r
    \<and> mpr_valid r' = mpr_valid r) (mpr_Read n r)"
  using assms by (cases rule: mpr_Read_spec [where n = n]) (auto simp: mpr_upto_def mpr_weight_def)

lemma mpr_GetByte_safe:
  assumes "mpr_ok r"
  shows "safe (\<lambda>(c, r'). mpr_upto (mpr_weight r) r r' \<and> mpr_token r' = mpr_token r
    \<and> mpr_valid r' = mpr_valid r) (mpr_GetByte r)"
  using assms by (cases rule: mpr_GetByte_spec) (auto simp: mpr_upto_def mpr_weight_def)

lemma mpr_length_safe:
  assumes "mpr_ok r"
  shows "safe (\<lambda>(len, r'). mpr_upto (mpr_weight r) r r' \<and> mpr_token r' = mpr_token r
    \<and> mpr_valid r' = mpr_valid r) (mpr_length n r)"
  unfolding mpr_length_def by (rule safe_then_r [OF mpr_Read_safe [OF assms]]) auto

text \<open>After an event the token is reset, which lowers the weight by what the token counted.\<close>

lemma mpr_event_safe:
  "mpr_upto w r0 r \<Longrightarrow> mpr_valid r \<Longrightarrow> safe (mpr_down w r0) (snd (mpr_event e r))"
  by (auto simp: mpr_event_def mpr_upto_def mpr_down_def mpr_ok_def ResetToken_def mpr_weight_def split: if_splits)

lemma mpr_skip_insitu:
  assumes "mpr_ok r" "mpr_inSitu r"
  obtains (Short) "length (st_left (mpr_is r)) < len" "mpr_skip len r = Inl AnyRpcErrorTermination"
    | (Full) b s2 c s3 where "len \<le> length (st_left (mpr_is r))"
        "mpr_skip len r = Inr (b, r \<lparr> mpr_is := InSituStream s2 \<rparr>)"
        "iss_ok s2" "iss_left s2 = drop len (st_left (mpr_is r))"
        "take len (drop b (iss_mem s2)) = take len (st_left (mpr_is r))" "len \<le> length (drop b (iss_mem s2))"
        "iss_GetClear s2 = (c, s3)" "iss_ok s3" "iss_left s3 = drop (Suc len) (st_left (mpr_is r))"
        "c = (case drop len (st_left (mpr_is r)) of [] \<Rightarrow> 0 | c # _ \<Rightarrow> c)"
        "take len (drop b (iss_mem s3)) = take len (st_left (mpr_is r))" "len \<le> length (drop b (iss_mem s3))"
        "drop len (st_left (mpr_is r)) \<noteq> [] \<Longrightarrow> len < length (drop b (iss_mem s3)) \<and> drop b (iss_mem s3) ! len = 0"
proof -
  from assms obtain s where s: "mpr_is r = InSituStream s" "iss_ok s" by (auto simp: mpr_ok_def)
  show thesis
  proof (cases "len \<le> length (iss_left s)")
    case True
    have "iss_left s = take len (iss_left s) @ drop len (iss_left s)" by simp
    from insitu_string [OF s(2) this] True obtain b s1 s2 s3 where
      "iss_PutBegin s = (b, s1)" "iss_Skip s1 len = Inr (len, s2)"
      "iss_GetClear s2 = (case drop len (iss_left s) of [] \<Rightarrow> 0 | c # _ \<Rightarrow> c, s3)"
      "iss_ok s2" "iss_left s2 = drop len (iss_left s)" "iss_ok s3" "iss_left s3 = tl (drop len (iss_left s))"
      "take len (drop b (iss_mem s2)) = take len (iss_left s)" "len \<le> length (drop b (iss_mem s2))"
      "take len (drop b (iss_mem s3)) = take len (iss_left s)" "len \<le> length (drop b (iss_mem s3))"
      "drop len (iss_left s) \<noteq> [] \<longrightarrow> len < length (drop b (iss_mem s3)) \<and> drop b (iss_mem s3) ! len = 0"
      by (auto simp: min_absorb1)
    then show thesis using True s(1) by (intro Full [of b s2]) (simp_all add: mpr_skip_def tl_drop drop_Suc)
  next
    case False
    moreover have "length (iss_left s) = iss_eof s - iss_src s" using s(2) by (simp add: iss_left_def iss_ok_def)
    ultimately show thesis using s(1)
      by (intro Short) (simp_all add: mpr_skip_def iss_PutBegin_def iss_Skip_def Let_def min_def)
  qed
qed

lemma mpr_PutEnd_InSitu:
  "mpr_is r = InSituStream s \<Longrightarrow> mpr_PutEnd r = emit [] (r \<lparr> mpr_is := InSituStream (snd (iss_PutEnd s)) \<rparr>)"
  by (simp add: mpr_PutEnd_def) (cases "iss_PutEnd s"; simp)

lemma iss_PutEnd_left: "iss_left (snd (iss_PutEnd s)) = iss_left s" "iss_ok (snd (iss_PutEnd s)) = iss_ok s"
  by (simp_all add: iss_PutEnd_def iss_left_def iss_ok_def)


text \<open>The in-place branches of \<^verbatim>\<open>ParseStr\<close> and \<^verbatim>\<open>ParseKey\<close>, with the event as a parameter.\<close>

lemma mpr_clear_safe:
  assumes "mpr_upto w r0 r" "mpr_inSitu r" "mpr_valid r" "mpr_token r \<noteq> 0"
  shows "safe (mpr_down w r0) (snd (then_p (lift_r (mpr_skip len r)) (\<lambda>(buffer, r1).
          let r2 = GetClearToken r1 in then_p (emit [e buffer r1 r2] r2) mpr_PutEnd)))"
proof -
  from assms(1) have ok: "mpr_ok r" "mpr_inSitu r = mpr_inSitu r0" "mpr_weight r \<le> w" by (auto simp: mpr_upto_def)
  from ok(1) assms(2) show ?thesis
  proof (cases rule: mpr_skip_insitu [where len = len])
    case (Full b s2 c s3)
    let ?r2 = "r \<lparr> mpr_is := InSituStream s3, mpr_token := c \<rparr>"
    have "GetClearToken (r \<lparr> mpr_is := InSituStream s2 \<rparr>) = ?r2"
      using Full(7) assms(3) by (simp add: GetClearToken_def)
    moreover have "mpr_down w r0 (?r2 \<lparr> mpr_is := InSituStream (snd (iss_PutEnd s3)) \<rparr>)"
      using ok assms Full(1,8,9,10)
      by (auto simp: mpr_upto_def mpr_down_def mpr_ok_def mpr_weight_def iss_PutEnd_left
          dest: drop_Cons_less split: list.splits if_splits)
    ultimately show ?thesis using Full(2) mpr_PutEnd_InSitu [of ?r2 s3] by simp
  qed simp
qed

lemma ParseStr_safe:
  assumes "mpr_upto w r0 r" "mpr_valid r" "mpr_token r \<noteq> 0"
  shows "safe (mpr_down w r0) (snd (ParseStr len r))"
proof (cases "mpr_inSitu r")
  case True
  with mpr_clear_safe [OF assms(1) True assms(2,3), of len "\<lambda>buffer r1 r2.
      EvString (st_memory (mpr_is r2) buffer) len (mpr_copy r1 \<or> st_Eof (mpr_is r1))"]
  show ?thesis by (simp add: ParseStr_def Let_def)
next
  case False
  have "safe (\<lambda>(bs, r'). mpr_upto w r0 r' \<and> mpr_valid r') (mpr_Read len r)"
    by (rule safe_mono [OF mpr_Read_safe]) (use assms in \<open>auto simp: mpr_upto_def\<close>)
  then show ?thesis using False
    by (simp add: ParseStr_def) (rule safe_then_p [where P = "\<lambda>(bs, r'). mpr_upto w r0 r' \<and> mpr_valid r'"];
      auto intro: mpr_event_safe)
qed

lemma ParseBin_safe:
  assumes "mpr_upto w r0 r" "mpr_valid r"
  shows "safe (mpr_down w r0) (snd (ParseBin len r))"
proof (cases "mpr_inSitu r")
  case True
  from assms(1) have ok: "mpr_ok r" "mpr_inSitu r = mpr_inSitu r0" "mpr_weight r \<le> w" by (auto simp: mpr_upto_def)
  from ok(1) True show ?thesis
  proof (cases rule: mpr_skip_insitu [where len = len])
    case (Full b s2 c s3)
    let ?r = "r \<lparr> mpr_is := InSituStream s2, mpr_valid := False \<rparr>"
    have "mpr_down w r0 (?r \<lparr> mpr_is := InSituStream (snd (iss_PutEnd s2)) \<rparr>)"
      using ok assms Full(1,3,4)
      by (auto simp: mpr_upto_def mpr_down_def mpr_ok_def mpr_weight_def iss_PutEnd_left
          dest: drop_Cons_less split: list.splits if_splits)
    then show ?thesis using Full(2) mpr_PutEnd_InSitu [of ?r s2] True
      by (simp add: ParseBin_def mpr_event_def ResetToken_def)
  qed (simp add: ParseBin_def True)
next
  case False
  have "safe (\<lambda>(bs, r'). mpr_upto w r0 r' \<and> mpr_valid r') (mpr_Read len r)"
    by (rule safe_mono [OF mpr_Read_safe]) (use assms in \<open>auto simp: mpr_upto_def\<close>)
  then show ?thesis using False
    by (simp add: ParseBin_def) (rule safe_then_p [where P = "\<lambda>(bs, r'). mpr_upto w r0 r' \<and> mpr_valid r'"];
      auto intro: mpr_event_safe)
qed

text \<open>\<^verbatim>\<open>GetToken\<close> takes a byte, unless it is at the end with no token.\<close>

lemma GetToken_upto:
  assumes "mpr_ok r" "mpr_valid r \<or> \<not> st_Eof (mpr_is r)"
  shows "mpr_upto (mpr_weight r) r (GetToken r)" "mpr_valid (GetToken r)"
proof -
  from assms(1) have ok: "st_ok (mpr_is r)" by (simp add: mpr_ok_def)
  from st_Get_cases [OF ok] obtain c s' where s': "st_Get (mpr_is r) = (c, s')" "st_ok s'"
    "st_kind s' = st_kind (mpr_is r)" "st_left s' = tl (st_left (mpr_is r))" .
  show "mpr_valid (GetToken r)" using s' by (simp add: GetToken_def)
  show "mpr_upto (mpr_weight r) r (GetToken r)"
  proof (cases "mpr_valid r")
    case True
    then show ?thesis using assms(1) by (simp add: GetToken_def mpr_upto_def)
  next
    case False
    with assms(2) st.eof_left [OF ok] obtain c' cs where "st_left (mpr_is r) = c' # cs"
      by (cases "st_left (mpr_is r)") auto
    with False s' mpr_ok_step [OF assms(1) s'(2,3)] show ?thesis
      by (auto simp: GetToken_def mpr_upto_def mpr_weight_def mpr_ok_def)
  qed
qed

lemma lookup_nonzero: "ParseLookup ! unat t \<noteq> FParsePositiveFixInt \<Longrightarrow> t \<noteq> 0"
proof -
  have "ParseLookup ! 0 = FParsePositiveFixInt" by code_simp
  then show "ParseLookup ! unat t \<noteq> FParsePositiveFixInt \<Longrightarrow> t \<noteq> 0" by auto
qed

lemma leaf_read:
  assumes "safe (\<lambda>(x, r'). mpr_upto (mpr_weight r) r r' \<and> mpr_token r' = mpr_token r \<and> mpr_valid r' = mpr_valid r) m"
    and "mpr_valid r"
    and "\<And>x r'. mpr_upto (mpr_weight r) r r' \<Longrightarrow> mpr_valid r' \<Longrightarrow> mpr_token r' = mpr_token r \<Longrightarrow>
      safe (mpr_down (mpr_weight r) r) (snd (k x r'))"
  shows "safe (mpr_down (mpr_weight r) r) (snd (then_p (lift_r m) (\<lambda>(x, r'). k x r')))"
  by (rule safe_then_p [where P = "\<lambda>(x, r'). mpr_upto (mpr_weight r) r r' \<and> mpr_token r' = mpr_token r
        \<and> mpr_valid r' = mpr_valid r"]) (use assms in auto)

lemmas leaf_defs = ParsePositiveFixInt_def ParseNegativeFixInt_def ParseNull_def ParseFalse_def ParseTrue_def
  ParseUint8_def ParseUint16_def ParseUint32_def ParseUint64_def ParseInt8_def ParseInt16_def ParseInt32_def
  ParseInt64_def ParseFloat32_def ParseFloat64_def ParseFixStr_def ParseStr16_def ParseStr32_def
  ParseBin8_def ParseBin16_def ParseBin32_def

lemma mpr_leaf_safe:
  assumes "mpr_ok r" "mpr_valid r" "f = ParseLookup ! unat (mpr_token r)"
  shows "safe (mpr_down (mpr_weight r) r) (snd (mpr_leaf f r))"
proof -
  have here: "mpr_upto (mpr_weight r) r r" using assms(1) by (simp add: mpr_upto_def)
  note read = leaf_read [OF mpr_Read_safe [OF assms(1), THEN safe_mono] assms(2)]
    leaf_read [OF mpr_length_safe [OF assms(1)] assms(2)] leaf_read [OF mpr_GetByte_safe [OF assms(1)] assms(2)]
  have byte: "safe (mpr_down (mpr_weight r) r) (snd (ParseStr8 r))" if "mpr_token r \<noteq> 0"
  proof -
    from assms(1) have "st_ok (mpr_is r)" by (simp add: mpr_ok_def)
    from st_Get_cases [OF this] obtain c s' where s': "st_Get (mpr_is r) = (c, s')" "st_ok s'"
      "st_kind s' = st_kind (mpr_is r)" "st_left s' = tl (st_left (mpr_is r))" .
    have "mpr_upto (mpr_weight r) r (r \<lparr> mpr_is := s' \<rparr>)"
      using mpr_ok_step [OF assms(1) s'(2,3)] s'(4) by (simp add: mpr_upto_def mpr_weight_def)
    from ParseStr_safe [OF this] s'(1) assms(2) that show ?thesis by (simp add: ParseStr8_def)
  qed
  show ?thesis
    using lookup_nonzero [of "mpr_token r"] assms(2,3) here byte
    by (cases f) (auto simp: leaf_defs throw_def intro!: read mpr_event_safe ParseStr_safe ParseBin_safe)
qed


lemma mpr_down_upto: "mpr_down w r r' \<Longrightarrow> mpr_upto w r r'"
  by (simp add: mpr_down_def mpr_upto_def)

lemma mpr_upto_trans: "mpr_upto w r r1 \<Longrightarrow> mpr_upto (mpr_weight r1) r1 r2 \<Longrightarrow> mpr_upto w r r2"
  by (auto simp: mpr_upto_def)

lemma mpr_key_safe:
  assumes "mpr_upto w r0 r" "mpr_valid r" "mpr_token r \<noteq> 0"
  shows "safe (mpr_upto w r0) (snd (mpr_key len r))"
proof (cases "mpr_inSitu r")
  case True
  with mpr_clear_safe [OF assms(1) True assms(2,3), of len "\<lambda>buffer r1 r2.
      EvKey (st_memory (mpr_is r2) buffer) len (mpr_copy r2)"]
  show ?thesis unfolding mpr_key_def by (auto intro: safe_mono mpr_down_upto)
next
  case False
  have "safe (\<lambda>(bs, r'). mpr_upto w r0 r' \<and> mpr_valid r') (mpr_Read len r)"
    by (rule safe_mono [OF mpr_Read_safe]) (use assms in \<open>auto simp: mpr_upto_def\<close>)
  then have "safe (mpr_upto w r0) (snd (then_p (lift_r (mpr_Read len r)) (\<lambda>(bs, r1). mpr_event (EvKey (bs @ [0]) len True) r1)))"
    by (intro safe_then_p [where P = "\<lambda>(bs, r'). mpr_upto w r0 r' \<and> mpr_valid r'"])
       (auto intro: mpr_event_safe [THEN safe_mono] mpr_down_upto)
  then show ?thesis using False assms by (auto simp: mpr_key_def)
qed

lemma mpr_key_length_safe:
  assumes "mpr_ok r" "mpr_valid r"
  shows "safe (\<lambda>(len, r'). mpr_upto (mpr_weight r) r r' \<and> mpr_valid r' \<and> mpr_token r' \<noteq> 0) (mpr_key_length r)"
proof -
  have "safe (\<lambda>(len, r'). mpr_upto (mpr_weight r) r r' \<and> mpr_valid r' \<and> mpr_token r' \<noteq> 0)
    (then_r (mpr_GetByte r) (\<lambda>(c, r1). Inr (unat c, r1)))" if "mpr_token r = MessagePackStr8"
    by (rule safe_then_r [OF mpr_GetByte_safe [OF assms(1)]]) (use assms that in auto)
  moreover have "mpr_upto (mpr_weight r) r r" using assms(1) by (simp add: mpr_upto_def)
  ultimately show ?thesis using assms(2) by (auto simp: mpr_key_length_def Let_def)
qed

lemma ParseKey_safe:
  assumes "mpr_ok r"
  shows "safe (mpr_upto (mpr_weight r) r) (snd (ParseKey r))"
proof (cases "st_Eof (mpr_is r)")
  case True
  then show ?thesis by (simp add: ParseKey_def)
next
  case False
  let ?w = "mpr_weight r"
  from GetToken_upto [OF assms] False have t: "mpr_upto ?w r (GetToken r)" "mpr_valid (GetToken r)" by simp_all
  then have ok: "mpr_ok (GetToken r)" by (simp add: mpr_upto_def)
  have len: "safe (\<lambda>(len, r'). mpr_upto ?w r r' \<and> mpr_valid r' \<and> mpr_token r' \<noteq> 0) (mpr_key_length (GetToken r))"
    by (rule safe_mono [OF mpr_key_length_safe [OF ok t(2)]]) (use t in \<open>auto intro: mpr_upto_trans\<close>)
  have "safe (mpr_upto ?w r) (snd (then_p (lift_r (mpr_key_length (GetToken r))) (\<lambda>(len, r1). mpr_key len r1)))"
    by (rule safe_then_p [where P = "\<lambda>(len, r'). mpr_upto ?w r r' \<and> mpr_valid r' \<and> mpr_token r' \<noteq> 0"])
       (use len in \<open>auto intro: mpr_key_safe\<close>)
  then show ?thesis using False by (simp add: ParseKey_def)
qed

lemma mpr_lengths_safe:
  assumes "mpr_ok r" "mpr_valid r"
  shows "mpr_array_length f r = Some m \<Longrightarrow> safe (\<lambda>(n, r'). mpr_upto (mpr_weight r) r r' \<and> mpr_valid r') m"
    "mpr_map_length f r = Some m \<Longrightarrow> safe (\<lambda>(n, r'). mpr_upto (mpr_weight r) r r' \<and> mpr_valid r') m"
proof -
  have here: "mpr_upto (mpr_weight r) r r" using assms(1) by (simp add: mpr_upto_def)
  have "safe (\<lambda>(n, r'). mpr_upto (mpr_weight r) r r' \<and> mpr_valid r') (mpr_length n r)" for n
    by (rule safe_mono [OF mpr_length_safe [OF assms(1)]]) (use assms in auto)
  then show "mpr_array_length f r = Some m \<Longrightarrow> safe (\<lambda>(n, r'). mpr_upto (mpr_weight r) r r' \<and> mpr_valid r') m"
    "mpr_map_length f r = Some m \<Longrightarrow> safe (\<lambda>(n, r'). mpr_upto (mpr_weight r) r r' \<and> mpr_valid r') m"
    using here assms by (cases f; auto)+
qed

lemma mpr_reset_down:
  "mpr_upto w r0 r \<Longrightarrow> mpr_valid r \<Longrightarrow> mpr_down w r0 (ResetToken r)"
  by (auto simp: mpr_upto_def mpr_down_def mpr_ok_def ResetToken_def mpr_weight_def split: if_splits)

lemma container_safe:
  assumes "safe (\<lambda>(n, r'). mpr_upto w r r' \<and> mpr_valid r') m"
    and "\<And>n r'. mpr_ok r' \<Longrightarrow> mpr_weight r' < w \<Longrightarrow> safe (mpr_upto (mpr_weight r') r') (snd (loop n r'))"
  shows "safe (mpr_down w r) (snd (then_p (lift_r m) (\<lambda>(n, r2).
      then_p (emit [e n] (ResetToken r2)) (\<lambda>r3. then_p (loop n r3) (emit [e' n])))))"
proof (rule safe_then_p [where P = "\<lambda>(n, r'). mpr_upto w r r' \<and> mpr_valid r'"], goal_cases)
  case 1
  then show ?case using assms(1) by simp
next
  case (2 x)
  obtain n r2 where x: "x = (n, r2)" by (cases x)
  with 2 mpr_reset_down have d: "mpr_down w r (ResetToken r2)" by auto
  then have "safe (mpr_upto (mpr_weight (ResetToken r2)) (ResetToken r2)) (snd (loop n (ResetToken r2)))"
    by (intro assms(2)) (auto simp: mpr_down_def)
  then have "safe (mpr_down w r) (snd (then_p (loop n (ResetToken r2)) (emit [e' n])))"
    by (rule safe_then_p) (use d in \<open>auto simp: mpr_down_def mpr_upto_def\<close>)
  then show ?case by (simp add: x)
qed

text \<open>Every input: enough fuel, progress, and nothing but exceptions.\<close>

lemma mpr_parse_safe:
  "mpr_ok r \<Longrightarrow> 2 * mpr_weight r + 1 \<le> k \<Longrightarrow> safe (mpr_down (mpr_weight r) r) (snd (mpr_ParseStream k r))"
  "mpr_ok r \<Longrightarrow> 2 * mpr_weight r + 2 \<le> k \<Longrightarrow> safe (mpr_upto (mpr_weight r) r) (snd (mpr_elements k n r))"
  "mpr_ok r \<Longrightarrow> 2 * mpr_weight r + 2 \<le> k \<Longrightarrow> safe (mpr_upto (mpr_weight r) r) (snd (mpr_members k n r))"
proof (induction k r and k n r and k n r rule: mpr_ParseStream_mpr_elements_mpr_members.induct)
  case (2 k r)
  show ?case
  proof (cases "\<not> mpr_valid r \<and> st_Eof (mpr_is r)")
    case False
    let ?w = "mpr_weight r"
    define r1 where "r1 = GetToken r"
    define f where "f = ParseLookup ! unat (mpr_token r1)"
    have r1: "mpr_upto ?w r r1" "mpr_valid r1" using GetToken_upto [OF "2.prems"(1)] False by (auto simp: r1_def)
    then have ok1: "mpr_ok r1" "mpr_weight r1 \<le> ?w" "mpr_inSitu r1 = mpr_inSitu r" by (auto simp: mpr_upto_def)
    note step = "2.IH" [OF _ r1_def f_def]
    consider (Arr) m where "mpr_array_length f r1 = Some m"
      | (Map) m where "mpr_array_length f r1 = None" "mpr_map_length f r1 = Some m"
      | (Leaf) "mpr_array_length f r1 = None" "mpr_map_length f r1 = None"
      by (cases "mpr_array_length f r1"; cases "mpr_map_length f r1") auto
    then show ?thesis
    proof cases
      case Arr
      have "safe (\<lambda>(n, r'). mpr_upto ?w r r' \<and> mpr_valid r') m"
        by (rule safe_mono [OF mpr_lengths_safe(1) [OF ok1(1) r1(2) Arr]]) (use r1 in \<open>auto intro: mpr_upto_trans\<close>)
      moreover have "safe (mpr_upto (mpr_weight r') r') (snd (mpr_elements k n r'))"
        if "mpr_ok r'" "mpr_weight r' < ?w" for n r'
        using step(2) [OF False Arr that(1)] that(2) "2.prems"(2) by simp
      ultimately show ?thesis using False Arr
        by (simp only: mpr_ParseStream.simps Let_def if_False option.case flip: r1_def f_def) (rule container_safe)
    next
      case Map
      have "safe (\<lambda>(n, r'). mpr_upto ?w r r' \<and> mpr_valid r') m"
        by (rule safe_mono [OF mpr_lengths_safe(2) [OF ok1(1) r1(2) Map(2)]]) (use r1 in \<open>auto intro: mpr_upto_trans\<close>)
      moreover have "safe (mpr_upto (mpr_weight r') r') (snd (mpr_members k n r'))"
        if "mpr_ok r'" "mpr_weight r' < ?w" for n r'
        using step(1) [OF False Map that(1)] that(2) "2.prems"(2) by simp
      ultimately show ?thesis using False Map
        by (simp only: mpr_ParseStream.simps Let_def if_False option.case flip: r1_def f_def) (rule container_safe)
    next
      case Leaf
      have "safe (mpr_down ?w r) (snd (mpr_leaf f r1))"
        by (rule safe_mono [OF mpr_leaf_safe [OF ok1(1) r1(2) f_def]]) (use ok1 in \<open>auto simp: mpr_down_def\<close>)
      then show ?thesis using False Leaf
        by (simp only: mpr_ParseStream.simps Let_def if_False option.case flip: r1_def f_def)
    qed
  qed simp
next
  case (5 k n r)
  have "safe (mpr_down (mpr_weight r) r) (snd (mpr_ParseStream k r))" using "5.IH"(1) "5.prems" by simp
  then have "safe (mpr_upto (mpr_weight r) r) (snd (then_p (mpr_ParseStream k r) (\<lambda>r1.
       then_p (emit (if n \<noteq> 0 then [EvArraySeparator] else []) r1) (mpr_elements k n))))"
  proof (rule safe_then_p)
    fix r1 assume d: "mpr_down (mpr_weight r) r r1"
    then have "safe (mpr_upto (mpr_weight r1) r1) (snd (mpr_elements k n r1))"
      using "5.IH"(2) [of r1] "5.prems" by (simp add: mpr_down_def)
    then show "safe (mpr_upto (mpr_weight r) r) (snd (then_p (emit (if n \<noteq> 0 then [EvArraySeparator] else []) r1) (mpr_elements k n)))"
      using d by (auto intro: safe_mono simp: mpr_down_def mpr_upto_def)
  qed
  then show ?case by simp
next
  case (8 k n r)
  note key = ParseKey_safe [OF "8.prems"(1)]
  then have "safe (mpr_upto (mpr_weight r) r) (snd (then_p (ParseKey r) (\<lambda>r1. then_p (mpr_ParseStream k r1) (\<lambda>r2.
       then_p (emit (if n \<noteq> 0 then [EvMapSeparator] else []) r2) (mpr_members k n)))))"
  proof (rule safe_then_p)
    fix r1 assume u: "mpr_upto (mpr_weight r) r r1"
    then have "safe (mpr_down (mpr_weight r) r) (snd (mpr_ParseStream k r1))"
      using "8.IH"(1) [of r1] "8.prems" by (auto intro: safe_mono simp: mpr_down_def mpr_upto_def)
    then show "safe (mpr_upto (mpr_weight r) r) (snd (then_p (mpr_ParseStream k r1) (\<lambda>r2.
       then_p (emit (if n \<noteq> 0 then [EvMapSeparator] else []) r2) (mpr_members k n))))"
    proof (rule safe_then_p)
      fix r2 assume d: "mpr_down (mpr_weight r) r r2"
      then have "safe (mpr_upto (mpr_weight r2) r2) (snd (mpr_members k n r2))"
        using "8.IH"(2) [of r2] "8.prems" by (simp add: mpr_down_def)
      then show "safe (mpr_upto (mpr_weight r) r) (snd (then_p (emit (if n \<noteq> 0 then [EvMapSeparator] else []) r2) (mpr_members k n)))"
        using d by (auto intro: safe_mono simp: mpr_down_def mpr_upto_def)
    qed
  qed
  then show ?case by simp
qed (simp_all add: mpr_upto_def)

end
