(* ===== verification/AnyRpc_MessagePackRoundTrip.thy ===== *)
theory AnyRpc_MessagePackRoundTrip
  imports AnyRpc_MessagePackReader
begin

text \<open>
  The reader on the output of the writer: from a stream that continues with the bytes written
  for a value, it produces events that represent the value and leaves the stream behind them.
  In place, the reader may already hold the next byte as its token, and at the end of the stream
  the token 0 that \<^verbatim>\<open>GetClear\<close> yields there.
\<close>

section \<open>What is pending\<close>

definition pending :: "mpr \<Rightarrow> bytes" where
  "pending r = (if mpr_valid r then [mpr_token r] else []) @ st_left (mpr_is r)"

definition mpr_at :: "bool \<Rightarrow> mpr \<Rightarrow> bytes \<Rightarrow> bool" where
  "mpr_at i r bs \<longleftrightarrow> mpr_ok r \<and> mpr_inSitu r = i \<and> (pending r = bs \<or> bs = [] \<and> i \<and> pending r = [0])"

definition parses :: "bool \<Rightarrow> aval \<Rightarrow> bytes \<Rightarrow> bool" where
  "parses i a bs \<longleftrightarrow>
     (\<forall>r rest k. mpr_ok r \<longrightarrow> mpr_inSitu r = i \<longrightarrow> pending r = bs @ rest \<longrightarrow> mpr_fuel r \<le> k \<longrightarrow>
       (\<exists>es r'. mpr_ParseStream k r = (es, Inr r') \<and> represents a es \<and> mpr_at i r' rest))"

lemma token_ready:
  assumes "mpr_ok r" "pending r = b # bs"
  shows "mpr_valid r \<or> \<not> st_Eof (mpr_is r)"
    "mpr_ok (GetToken r)" "mpr_valid (GetToken r)" "mpr_token (GetToken r) = b"
    "st_left (mpr_is (GetToken r)) = bs" "mpr_inSitu (GetToken r) = mpr_inSitu r"
    "mpr_weight (GetToken r) \<le> mpr_weight r"
proof -
  from assms(1) have ok: "st_ok (mpr_is r)" by (simp add: mpr_ok_def)
  show c: "mpr_valid r \<or> \<not> st_Eof (mpr_is r)" using assms(2) st.eof_left [OF ok] by (auto simp: pending_def)
  from GetToken_upto [OF assms(1) c]
  show "mpr_ok (GetToken r)" "mpr_valid (GetToken r)" "mpr_inSitu (GetToken r) = mpr_inSitu r"
    "mpr_weight (GetToken r) \<le> mpr_weight r" by (simp_all add: mpr_upto_def)
  from st_Get_cases [OF ok] obtain c s' where "st_Get (mpr_is r) = (c, s')" "st_left s' = tl (st_left (mpr_is r))"
    "c = (case st_left (mpr_is r) of [] \<Rightarrow> 0 | c # _ \<Rightarrow> c)" by metis
  then show "mpr_token (GetToken r) = b" "st_left (mpr_is (GetToken r)) = bs"
    using assms(2) by (auto simp: GetToken_def pending_def split: if_splits)
qed

text \<open>A parsing function on its own: what it does behind a given token.\<close>

definition leaf_reads :: "bool \<Rightarrow> (mpr \<Rightarrow> mpr producer) \<Rightarrow> byte \<Rightarrow> bytes \<Rightarrow> aval \<Rightarrow> bool" where
  "leaf_reads i p b cs a \<longleftrightarrow>
     (\<forall>r rest. mpr_ok r \<longrightarrow> mpr_inSitu r = i \<longrightarrow> mpr_valid r \<longrightarrow> mpr_token r = b \<longrightarrow> st_left (mpr_is r) = cs @ rest \<longrightarrow>
       (\<exists>e r'. p r = ([e], Inr r') \<and> represents a [e] \<and> mpr_at i r' rest))"

lemma parses_leaf:
  assumes "leaf_reads i (mpr_leaf (ParseLookup ! unat b)) b cs a"
    and "\<And>r. mpr_array_length (ParseLookup ! unat b) r = None" "\<And>r. mpr_map_length (ParseLookup ! unat b) r = None"
  shows "parses i a (b # cs)"
  unfolding parses_def
proof (intro allI impI)
  fix r rest k
  assume r: "mpr_ok r" "mpr_inSitu r = i" "pending r = (b # cs) @ rest" "mpr_fuel r \<le> k"
  then obtain k' where k: "k = Suc k'" by (cases k) (auto simp: mpr_fuel_def)
  from r(3) have "pending r = b # (cs @ rest)" by simp
  note t = token_ready [OF r(1) this]
  from assms(1) t r(2) obtain e r' where "mpr_leaf (ParseLookup ! unat b) (GetToken r) = ([e], Inr r')"
    "represents a [e]" "mpr_at i r' rest" unfolding leaf_reads_def by metis
  then show "\<exists>es r'. mpr_ParseStream k r = (es, Inr r') \<and> represents a es \<and> mpr_at i r' rest"
    using t(1,4) assms(2,3) by (auto simp: k)
qed

section \<open>Fixed lengths\<close>

lemma mpr_at_event: "mpr_ok r \<Longrightarrow> mpr_inSitu r = i \<Longrightarrow> mpr_at i (ResetToken r) (st_left (mpr_is r))"
  by (simp add: mpr_at_def mpr_ok_def ResetToken_def pending_def)

lemma mpr_Read_exact:
  assumes "mpr_ok r" "st_left (mpr_is r) = cs @ rest"
  shows "\<exists>s'. mpr_Read (length cs) r = Inr (cs, r \<lparr> mpr_is := s' \<rparr>) \<and> mpr_ok (r \<lparr> mpr_is := s' \<rparr>) \<and> st_left s' = rest"
  using assms(1) by (cases rule: mpr_Read_spec [where n = "length cs"]) (use assms(2) in auto)

lemma mpr_GetByte_exact:
  assumes "mpr_ok r" "st_left (mpr_is r) = c # rest"
  shows "\<exists>s'. mpr_GetByte r = Inr (c, r \<lparr> mpr_is := s' \<rparr>) \<and> mpr_ok (r \<lparr> mpr_is := s' \<rparr>) \<and> st_left s' = rest"
  using assms(1) by (cases rule: mpr_GetByte_spec) (use assms(2) in auto)

lemma leaf_reads_now:
  assumes "\<And>r. p r = mpr_event (E (mpr_token r)) r" "represents a [E b]"
  shows "leaf_reads i p b [] a"
  using assms(2) mpr_at_event by (auto simp: leaf_reads_def assms(1) mpr_event_def emit_def)

lemma leaf_reads_bytes:
  assumes "\<And>r. p r = then_p (lift_r (mpr_Read n r)) (\<lambda>(bs, r'). mpr_event (E bs) r')"
    and "length cs = n" "represents a [E cs]"
  shows "leaf_reads i p b cs a"
  unfolding leaf_reads_def
proof (intro allI impI)
  fix r rest
  assume r: "mpr_ok r" "mpr_inSitu r = i" "mpr_valid r" "mpr_token r = b" "st_left (mpr_is r) = cs @ rest"
  from mpr_Read_exact [OF r(1,5)] assms(2) obtain s' where
    s': "mpr_Read n r = Inr (cs, r \<lparr> mpr_is := s' \<rparr>)" "mpr_ok (r \<lparr> mpr_is := s' \<rparr>)" "st_left s' = rest" by auto
  then show "\<exists>e r'. p r = ([e], Inr r') \<and> represents a [e] \<and> mpr_at i r' rest"
    using mpr_at_event [OF s'(2)] r(2) assms(3) by (simp add: assms(1) mpr_event_def emit_def)
qed

lemma leaf_reads_byte:
  assumes "\<And>r. p r = then_p (lift_r (mpr_GetByte r)) (\<lambda>(c, r'). mpr_event (E c) r')" "represents a [E c]"
  shows "leaf_reads i p b [c] a"
  unfolding leaf_reads_def
proof (intro allI impI)
  fix r rest
  assume r: "mpr_ok r" "mpr_inSitu r = i" "mpr_valid r" "mpr_token r = b" "st_left (mpr_is r) = [c] @ rest"
  from mpr_GetByte_exact [OF r(1), of c rest] r(5) obtain s' where
    s': "mpr_GetByte r = Inr (c, r \<lparr> mpr_is := s' \<rparr>)" "mpr_ok (r \<lparr> mpr_is := s' \<rparr>)" "st_left s' = rest" by auto
  then show "\<exists>e r'. p r = ([e], Inr r') \<and> represents a [e] \<and> mpr_at i r' rest"
    using mpr_at_event [OF s'(2)] r(2) assms(2) by (simp add: assms(1) mpr_event_def emit_def)
qed

lemma lookup_ranges:
  "n < 128 \<Longrightarrow> ParseLookup ! n = FParsePositiveFixInt"
  "128 \<le> n \<Longrightarrow> n < 144 \<Longrightarrow> ParseLookup ! n = FParseFixMap"
  "144 \<le> n \<Longrightarrow> n < 160 \<Longrightarrow> ParseLookup ! n = FParseFixArray"
  "160 \<le> n \<Longrightarrow> n < 192 \<Longrightarrow> ParseLookup ! n = FParseFixStr"
  "224 \<le> n \<Longrightarrow> n < 256 \<Longrightarrow> ParseLookup ! n = FParseNegativeFixInt"
  by (auto simp: ParseLookup_def nth_append)

lemma lookup_codes:
  "ParseLookup ! 0xc0 = FParseNull" "ParseLookup ! 0xc2 = FParseFalse" "ParseLookup ! 0xc3 = FParseTrue"
  "ParseLookup ! 0xc4 = FParseBin8" "ParseLookup ! 0xc5 = FParseBin16" "ParseLookup ! 0xc6 = FParseBin32"
  "ParseLookup ! 0xca = FParseFloat32" "ParseLookup ! 0xcb = FParseFloat64"
  "ParseLookup ! 0xcc = FParseUint8" "ParseLookup ! 0xcd = FParseUint16" "ParseLookup ! 0xce = FParseUint32"
  "ParseLookup ! 0xcf = FParseUint64"
  "ParseLookup ! 0xd0 = FParseInt8" "ParseLookup ! 0xd1 = FParseInt16" "ParseLookup ! 0xd2 = FParseInt32"
  "ParseLookup ! 0xd3 = FParseInt64"
  "ParseLookup ! 0xd9 = FParseStr8" "ParseLookup ! 0xda = FParseStr16" "ParseLookup ! 0xdb = FParseStr32"
  "ParseLookup ! 0xdc = FParseArray16" "ParseLookup ! 0xdd = FParseArray32"
  "ParseLookup ! 0xde = FParseMap16" "ParseLookup ! 0xdf = FParseMap32"
  by code_simp+

lemma represents_int:
  "sint i = z \<Longrightarrow> represents (AInt z) [EvInt i]" "uint u = z \<Longrightarrow> represents (AInt z) [EvUint u]"
  "sint i64 = z \<Longrightarrow> represents (AInt z) [EvInt64 i64]" "uint u64 = z \<Longrightarrow> represents (AInt z) [EvUint64 u64]"
  by (auto intro: rep_intros)

lemma msgpack_be_bytes: "(msgpack_be (be_bytes k z) :: 'a::len word) = word_of_int (z mod 256 ^ k)"
  by (simp add: msgpack_be_def be_bytes_value)

lemma parses_codes:
  "parses i ANull [0xc0]" "parses i (ABool True) [0xc3]" "parses i (ABool False) [0xc2]"
  by (rule parses_leaf; simp add: lookup_codes leaf_reads_now [where E = "\<lambda>_. EvNull"]
      leaf_reads_now [where E = "\<lambda>_. EvBoolTrue"] leaf_reads_now [where E = "\<lambda>_. EvBoolFalse"]
      ParseNull_def ParseTrue_def ParseFalse_def rep_intros)+


lemma byte_value: "0 \<le> z \<Longrightarrow> z < 256 \<Longrightarrow> uint (word_of_int z :: byte) = z"
  by (simp add: unsigned_of_int take_bit_int_eq_self)

lemma byte_signed: "- 128 \<le> z \<Longrightarrow> z < 128 \<Longrightarrow> sint (word_of_int z :: byte) = z"
  by (simp add: signed_of_int signed_take_bit_int_eq_self)

lemma byte_negative: "- 32 \<le> z \<Longrightarrow> z < 0 \<Longrightarrow> 224 \<le> unat (word_of_int z :: byte)"
proof -
  assume z: "- 32 \<le> z" "z < 0"
  have "uint (word_of_int z :: byte) = z mod 256" by (simp add: unsigned_of_int take_bit_eq_mod)
  also have "\<dots> = (z + 256) mod 256" by simp
  also have "\<dots> = z + 256" using z by (intro mod_pos_pos_trivial) simp_all
  finally show ?thesis using z by (simp add: unat_eq_nat_uint)
qed

lemma msgpack_be_full: "8 * k = LENGTH('a) \<Longrightarrow> (msgpack_be (be_bytes k z) :: 'a::len word) = word_of_int z"
proof -
  assume "8 * k = LENGTH('a)"
  then have "(2 :: int) ^ LENGTH('a) = (2 ^ 8) ^ k" by (simp only: power_mult [symmetric])
  then have "(256 :: int) ^ k = 2 ^ LENGTH('a)" by simp
  then show ?thesis by (simp add: msgpack_be_bytes word_uint_eq_iff unsigned_of_int take_bit_eq_mod)
qed

lemma parses_int:
  assumes "- (2 ^ 63) \<le> z" "z < 2 ^ 64"
  shows "parses i (AInt z) (mp_int z)"
proof -
  note u = unsigned_ucast_eq unsigned_of_int take_bit_int_eq_self
  note s = signed_scast_eq signed_of_int signed_take_bit_int_eq_self
  let ?b = "word_of_int z :: byte"
  consider "0 \<le> z" "z < 2 ^ 7" | "2 ^ 7 \<le> z" "z < 2 ^ 8" | "2 ^ 8 \<le> z" "z < 2 ^ 16"
    | "2 ^ 16 \<le> z" "z < 2 ^ 32" | "2 ^ 32 \<le> z" | "- (2 ^ 5) \<le> z" "z < 0" | "- (2 ^ 7) \<le> z" "z < - (2 ^ 5)"
    | "- (2 ^ 15) \<le> z" "z < - (2 ^ 7)" | "- (2 ^ 31) \<le> z" "z < - (2 ^ 15)" | "z < - (2 ^ 31)"
    by linarith
  then show ?thesis
  proof cases
    case 1
    then have "ParseLookup ! unat ?b = FParsePositiveFixInt"
      using byte_value [of z] by (intro lookup_ranges) (simp add: unat_eq_nat_uint)
    moreover have "represents (AInt z) [EvUint (ucast ?b)]"
      using 1 by (intro represents_int) (simp add: u)
    ultimately show ?thesis using 1
      by (auto simp: mp_int_def ParsePositiveFixInt_def intro!: parses_leaf leaf_reads_now [where E = "\<lambda>b. EvUint (ucast b)"])
  next
    case 2
    then have "represents (AInt z) [EvUint (ucast ?b)]" by (intro represents_int) (simp add: u)
    with 2 show ?thesis
      by (auto simp: mp_int_def lookup_codes ParseUint8_def
          intro!: parses_leaf leaf_reads_byte [where E = "\<lambda>b. EvUint (ucast b)"])
  next
    case 3
    then have "represents (AInt z) [EvUint (ucast (msgpack_be (be_bytes 2 z) :: 16 word))]"
      by (intro represents_int) (simp add: msgpack_be_full u)
    with 3 show ?thesis
      by (auto simp: mp_int_def lookup_codes ParseUint16_def simp del: be_bytes.simps
          intro!: parses_leaf leaf_reads_bytes [where E = "\<lambda>bs. EvUint (ucast (msgpack_be bs :: 16 word))"])
  next
    case 4
    then have "represents (AInt z) [EvUint (msgpack_be (be_bytes 4 z))]"
      by (intro represents_int) (simp add: msgpack_be_full u)
    with 4 show ?thesis
      by (auto simp: mp_int_def lookup_codes ParseUint32_def simp del: be_bytes.simps
          intro!: parses_leaf leaf_reads_bytes [where E = "\<lambda>bs. EvUint (msgpack_be bs)"])
  next
    case 5
    then have "represents (AInt z) [EvUint64 (msgpack_be (be_bytes 8 z))]"
      using assms by (intro represents_int) (simp add: msgpack_be_full u)
    with 5 show ?thesis
      by (auto simp: mp_int_def lookup_codes ParseUint64_def simp del: be_bytes.simps
          intro!: parses_leaf leaf_reads_bytes [where E = "\<lambda>bs. EvUint64 (msgpack_be bs)"])
  next
    case 6
    then have "ParseLookup ! unat ?b = FParseNegativeFixInt"
      using byte_negative [of z] by (intro lookup_ranges) simp_all
    moreover have "represents (AInt z) [EvInt (scast ?b)]"
      using 6 by (intro represents_int) (simp add: s)
    ultimately show ?thesis using 6
      by (auto simp: mp_int_def ParseNegativeFixInt_def intro!: parses_leaf leaf_reads_now [where E = "\<lambda>b. EvInt (scast b)"])
  next
    case 7
    then have "represents (AInt z) [EvInt (scast ?b)]" by (intro represents_int) (simp add: s)
    with 7 show ?thesis
      by (auto simp: mp_int_def lookup_codes ParseInt8_def
          intro!: parses_leaf leaf_reads_byte [where E = "\<lambda>b. EvInt (scast b)"])
  next
    case 8
    then have "represents (AInt z) [EvInt (scast (msgpack_be (be_bytes 2 z) :: 16 word))]"
      by (intro represents_int) (simp add: msgpack_be_full s)
    with 8 show ?thesis
      by (auto simp: mp_int_def lookup_codes ParseInt16_def simp del: be_bytes.simps
          intro!: parses_leaf leaf_reads_bytes [where E = "\<lambda>bs. EvInt (scast (msgpack_be bs :: 16 word))"])
  next
    case 9
    then have "represents (AInt z) [EvInt (msgpack_be (be_bytes 4 z))]"
      by (intro represents_int) (simp add: msgpack_be_full s)
    with 9 show ?thesis
      by (auto simp: mp_int_def lookup_codes ParseInt32_def simp del: be_bytes.simps
          intro!: parses_leaf leaf_reads_bytes [where E = "\<lambda>bs. EvInt (msgpack_be bs)"])
  next
    case 10
    then have "represents (AInt z) [EvInt64 (msgpack_be (be_bytes 8 z))]"
      using assms by (intro represents_int) (simp add: msgpack_be_full s)
    with 10 show ?thesis
      by (auto simp: mp_int_def lookup_codes ParseInt64_def simp del: be_bytes.simps
          intro!: parses_leaf leaf_reads_bytes [where E = "\<lambda>bs. EvInt64 (msgpack_be bs)"])
  qed
qed


section \<open>Strings\<close>

text \<open>In place: after \<^verbatim>\<open>GetClear\<close> the bytes behind the string are pending.\<close>

lemma clear_reads:
  assumes "mpr_ok r" "mpr_inSitu r" "st_left (mpr_is r) = s @ rest"
  shows "\<exists>b s2 s3 c. mpr_skip (length s) r = Inr (b, r \<lparr> mpr_is := InSituStream s2 \<rparr>)
    \<and> GetClearToken (r \<lparr> mpr_is := InSituStream s2 \<rparr>) = r \<lparr> mpr_is := InSituStream s3, mpr_token := c, mpr_valid := True \<rparr>
    \<and> (st_Eof (InSituStream s2) \<longleftrightarrow> rest = [])
    \<and> take (length s) (drop b (iss_mem s3)) = s \<and> length s \<le> length (drop b (iss_mem s3))
    \<and> (rest \<noteq> [] \<longrightarrow> length s < length (drop b (iss_mem s3)) \<and> drop b (iss_mem s3) ! length s = 0)
    \<and> mpr_at True (r \<lparr> mpr_token := c, mpr_valid := True, mpr_is := InSituStream (snd (iss_PutEnd s3)) \<rparr>) rest"
  using assms(1,2)
proof (cases rule: mpr_skip_insitu [where len = "length s"])
  case Short
  then show ?thesis using assms(3) by simp
next
  case (Full b s2 c s3)
  have "st_Eof (InSituStream s2) \<longleftrightarrow> rest = []" using iss.eof_left [OF Full(3)] Full(4) assms(3) by simp
  moreover have "mpr_at True (r \<lparr> mpr_token := c, mpr_valid := True, mpr_is := InSituStream (snd (iss_PutEnd s3)) \<rparr>) rest"
    using assms Full(8,9,10)
    by (cases rest) (auto simp: mpr_at_def mpr_ok_def pending_def iss_PutEnd_left)
  ultimately show ?thesis using Full assms(3)
    by (intro exI [of _ b] exI [of _ s2] exI [of _ s3] exI [of _ c]) (simp add: GetClearToken_def)
qed

lemma ParseStr_reads:
  assumes "mpr_ok r" "mpr_inSitu r = i" "st_left (mpr_is r) = s @ rest"
  shows "\<exists>e r'. ParseStr (length s) r = ([e], Inr r') \<and> represents (AStr s) [e] \<and> mpr_at i r' rest"
proof (cases i)
  case True
  with assms(2) have "mpr_inSitu r" by simp
  from clear_reads [OF assms(1) this assms(3)] obtain b s2 s3 c where
    c: "mpr_skip (length s) r = Inr (b, r \<lparr> mpr_is := InSituStream s2 \<rparr>)"
      "GetClearToken (r \<lparr> mpr_is := InSituStream s2 \<rparr>) = r \<lparr> mpr_is := InSituStream s3, mpr_token := c, mpr_valid := True \<rparr>"
      "st_Eof (InSituStream s2) \<longleftrightarrow> rest = []"
      "take (length s) (drop b (iss_mem s3)) = s" "length s \<le> length (drop b (iss_mem s3))"
      "rest \<noteq> [] \<longrightarrow> length s < length (drop b (iss_mem s3)) \<and> drop b (iss_mem s3) ! length s = 0"
      "mpr_at True (r \<lparr> mpr_token := c, mpr_valid := True, mpr_is := InSituStream (snd (iss_PutEnd s3)) \<rparr>) rest"
    by blast
  have "string_event s (drop b (iss_mem s3)) (length s) (mpr_copy r \<or> rest = [])"
    using c(4,5,6) by (auto simp: string_event_def)
  from rep_str [OF this] c(1,2,3,7) True \<open>mpr_inSitu r\<close> show ?thesis
    by (auto simp: ParseStr_def Let_def mpr_PutEnd_InSitu emit_def)
next
  case False
  from mpr_Read_exact [OF assms(1,3)] obtain s' where
    s': "mpr_Read (length s) r = Inr (s, r \<lparr> mpr_is := s' \<rparr>)" "mpr_ok (r \<lparr> mpr_is := s' \<rparr>)" "st_left s' = rest" by auto
  with False assms(2) mpr_at_event [OF s'(2)] rep_str [OF string_event_copy] show ?thesis
    by (auto simp: ParseStr_def mpr_event_def emit_def)
qed

lemma ParseBin_reads:
  assumes "mpr_ok r" "mpr_inSitu r = i" "st_left (mpr_is r) = s @ rest"
  shows "\<exists>e r'. ParseBin (length s) r = ([e], Inr r') \<and> represents (ABin s) [e] \<and> mpr_at i r' rest"
proof (cases i)
  case True
  with assms(2) have "mpr_inSitu r" by simp
  with assms(1) show ?thesis
  proof (cases rule: mpr_skip_insitu [where len = "length s"])
    case Short
    then show ?thesis using assms(3) by simp
  next
    case (Full b s2 c s3)
    let ?r = "r \<lparr> mpr_is := InSituStream s2, mpr_valid := False \<rparr>"
    have "mpr_at i (?r \<lparr> mpr_is := InSituStream (snd (iss_PutEnd s2)) \<rparr>) rest"
      using assms Full(3,4) by (auto simp: mpr_at_def mpr_ok_def pending_def iss_PutEnd_left)
    then show ?thesis using Full(2,5) assms(3) \<open>mpr_inSitu r\<close> mpr_PutEnd_InSitu [of ?r s2]
      by (auto simp: ParseBin_def mpr_event_def ResetToken_def emit_def intro: rep_intros)
  qed
next
  case False
  from mpr_Read_exact [OF assms(1,3)] obtain s' where
    s': "mpr_Read (length s) r = Inr (s, r \<lparr> mpr_is := s' \<rparr>)" "mpr_ok (r \<lparr> mpr_is := s' \<rparr>)" "st_left s' = rest" by auto
  with False assms(2) mpr_at_event [OF s'(2)] rep_bin show ?thesis
    by (auto simp: ParseBin_def mpr_event_def emit_def)
qed

text \<open>Lengths in the stream.\<close>

lemma mpr_length_exact:
  assumes "mpr_ok r" "st_left (mpr_is r) = be_bytes n (int len) @ rest" "int len < 256 ^ n" "n \<le> 4"
  shows "\<exists>s'. mpr_length n r = Inr (len, r \<lparr> mpr_is := s' \<rparr>) \<and> mpr_ok (r \<lparr> mpr_is := s' \<rparr>) \<and> st_left s' = rest"
proof -
  from mpr_Read_exact [OF assms(1,2)] obtain s' where
    s': "mpr_Read n r = Inr (be_bytes n (int len), r \<lparr> mpr_is := s' \<rparr>)" "mpr_ok (r \<lparr> mpr_is := s' \<rparr>)" "st_left s' = rest"
    by auto
  have "int len < 256 ^ 4" using assms(3,4) power_increasing [of n 4 "256 :: int"] by linarith
  then have "unat (msgpack_be (be_bytes n (int len)) :: u32) = len"
    using assms(3) by (simp add: msgpack_be_bytes mod_pos_pos_trivial unat_eq_nat_uint unsigned_of_nat
      take_bit_nat_eq_self)
  then show ?thesis using s' by (intro exI [of _ s']) (simp add: mpr_length_def)
qed

lemma leaf_reads_counted:
  assumes "\<And>r. p r = then_p (lift_r (mpr_length n r)) (\<lambda>(len, r'). q len r')"
    and "\<And>r rest. mpr_ok r \<Longrightarrow> mpr_inSitu r = i \<Longrightarrow> st_left (mpr_is r) = s @ rest \<Longrightarrow>
      \<exists>e r'. q (length s) r = ([e], Inr r') \<and> represents a [e] \<and> mpr_at i r' rest"
    and "int (length s) < 256 ^ n" "n \<le> 4"
  shows "leaf_reads i p b (be_bytes n (int (length s)) @ s) a"
  unfolding leaf_reads_def
proof (intro allI impI)
  fix r rest
  assume r: "mpr_ok r" "mpr_inSitu r = i" "st_left (mpr_is r) = (be_bytes n (int (length s)) @ s) @ rest"
  from mpr_length_exact [OF r(1) _ assms(3,4), of "s @ rest"] r(3) obtain s' where
    s': "mpr_length n r = Inr (length s, r \<lparr> mpr_is := s' \<rparr>)" "mpr_ok (r \<lparr> mpr_is := s' \<rparr>)" "st_left s' = s @ rest" by auto
  with assms(2) [OF s'(2), of rest] r(2) show "\<exists>e r'. p r = ([e], Inr r') \<and> represents a [e] \<and> mpr_at i r' rest"
    by (simp add: assms(1))
qed

lemma store_length: "n < 256 ^ k \<Longrightarrow> 8 * k \<le> LENGTH('a) \<Longrightarrow>
    msgpack_store k (word_of_nat n :: 'a::len word) = be_bytes k (int n)"
  unfolding msgpack_store_be
proof (rule be_bytes_cong)
  assume "n < 256 ^ k" "8 * k \<le> LENGTH('a)"
  then have "(256 :: nat) ^ k \<le> 2 ^ LENGTH('a)" using power_increasing [of "8 * k" "LENGTH('a)" "2 :: nat"]
    by (simp add: power_mult)
  with \<open>n < 256 ^ k\<close> have "n < 2 ^ LENGTH('a)" by linarith
  then show "uint (word_of_nat n :: 'a word) mod 256 ^ k = int n mod 256 ^ k"
    by (simp add: unsigned_of_nat take_bit_nat_eq_self)
qed


text \<open>The four string headers and the three binary headers.\<close>

lemma code_or:
  "n < 32 \<Longrightarrow> unat ((0xa0 :: byte) OR word_of_nat n) = 160 + n \<and> unat ((0xa0 OR word_of_nat n) AND (0x1f :: byte)) = n"
  "n < 16 \<Longrightarrow> unat ((0x90 :: byte) OR word_of_nat n) = 144 + n \<and> unat ((0x90 OR word_of_nat n) AND (0x0f :: byte)) = n"
  "n < 16 \<Longrightarrow> unat ((0x80 :: byte) OR word_of_nat n) = 128 + n \<and> unat ((0x80 OR word_of_nat n) AND (0x0f :: byte)) = n"
proof -
  have "\<forall>n \<in> set [0..<32]. unat ((0xa0 :: byte) OR word_of_nat n) = 160 + n \<and> unat ((0xa0 OR word_of_nat n) AND (0x1f :: byte)) = n"
    "\<forall>n \<in> set [0..<16]. unat ((0x90 :: byte) OR word_of_nat n) = 144 + n \<and> unat ((0x90 OR word_of_nat n) AND (0x0f :: byte)) = n"
    "\<forall>n \<in> set [0..<16]. unat ((0x80 :: byte) OR word_of_nat n) = 128 + n \<and> unat ((0x80 OR word_of_nat n) AND (0x0f :: byte)) = n"
    by code_simp+
  then show "n < 32 \<Longrightarrow> unat ((0xa0 :: byte) OR word_of_nat n) = 160 + n \<and> unat ((0xa0 OR word_of_nat n) AND (0x1f :: byte)) = n"
    "n < 16 \<Longrightarrow> unat ((0x90 :: byte) OR word_of_nat n) = 144 + n \<and> unat ((0x90 OR word_of_nat n) AND (0x0f :: byte)) = n"
    "n < 16 \<Longrightarrow> unat ((0x80 :: byte) OR word_of_nat n) = 128 + n \<and> unat ((0x80 OR word_of_nat n) AND (0x0f :: byte)) = n"
    by simp_all
qed

lemma byte_of_length: "n < 256 \<Longrightarrow> unat (word_of_nat n :: byte) = n"
  by (simp add: unsigned_of_nat take_bit_nat_eq_self)

lemma parses_string:
  assumes "length s < 2 ^ 32"
  shows "parses i (AStr s) (written (mpw_String s))"
proof -
  let ?n = "length s"
  consider "?n < 32" | "32 \<le> ?n" "?n < 256" | "256 \<le> ?n" "?n < 65536" | "65536 \<le> ?n" by linarith
  then show ?thesis
  proof cases
    case 1
    let ?b = "MessagePackFixStr OR word_of_nat ?n"
    have f: "ParseLookup ! unat ?b = FParseFixStr" "unat (?b AND 0x1f) = ?n"
      using code_or(1) [OF 1] 1 by (auto intro: lookup_ranges)
    then have "leaf_reads i (mpr_leaf (ParseLookup ! unat ?b)) ?b s (AStr s)"
      using ParseStr_reads by (auto simp: leaf_reads_def ParseFixStr_def)
    from parses_leaf [OF this] f(1) 1 show ?thesis by (simp add: mpw_String_def Let_def)
  next
    case 2
    have "leaf_reads i ParseStr8 0xd9 (word_of_nat ?n # s) (AStr s)"
      unfolding leaf_reads_def
    proof (intro allI impI)
      fix r rest
      assume r: "mpr_ok r" "mpr_inSitu r = i" "st_left (mpr_is r) = (word_of_nat ?n # s) @ rest"
      from r(1) have "st_ok (mpr_is r)" by (simp add: mpr_ok_def)
      from st_Get_cases [OF this] r(3) obtain s' where s': "st_Get (mpr_is r) = (word_of_nat ?n, s')" "st_ok s'"
        "st_kind s' = st_kind (mpr_is r)" "st_left s' = s @ rest" by auto
      from ParseStr_reads [OF mpr_ok_step [OF r(1) s'(2,3)], of i s rest] s' r(2) byte_of_length [of ?n] 2
      show "\<exists>e r'. ParseStr8 r = ([e], Inr r') \<and> represents (AStr s) [e] \<and> mpr_at i r' rest"
        by (simp add: ParseStr8_def)
    qed
    then show ?thesis using parses_leaf [where i = i and b = "0xd9" and cs = "word_of_nat ?n # s" and a = "AStr s"] 2
      by (simp add: mpw_String_def Let_def lookup_codes)
  next
    case 3
    have "leaf_reads i ParseStr16 0xda (be_bytes 2 (int ?n) @ s) (AStr s)"
      using 3 by (intro leaf_reads_counted [where q = ParseStr] ParseStr_reads) (auto simp: ParseStr16_def)
    then show ?thesis using parses_leaf [where i = i and b = "0xda" and cs = "be_bytes 2 (int ?n) @ s" and a = "AStr s"] 3
        store_length [of ?n 2, where 'a = 16] by (simp add: mpw_String_def Let_def lookup_codes)
  next
    case 4
    have "leaf_reads i ParseStr32 0xdb (be_bytes 4 (int ?n) @ s) (AStr s)"
      using assms by (intro leaf_reads_counted [where q = ParseStr] ParseStr_reads) (auto simp: ParseStr32_def)
    then show ?thesis using parses_leaf [where i = i and b = "0xdb" and cs = "be_bytes 4 (int ?n) @ s" and a = "AStr s"] 4 assms
        store_length [of ?n 4, where 'a = 32] by (simp add: mpw_String_def Let_def lookup_codes)
  qed
qed

lemma parses_binary:
  assumes "length s < 2 ^ 32"
  shows "parses i (ABin s) (written (mpw_Binary s))"
proof -
  let ?n = "length s"
  consider "?n < 256" | "256 \<le> ?n" "?n < 65536" | "65536 \<le> ?n" by linarith
  then show ?thesis
  proof cases
    case 1
    have "leaf_reads i ParseBin8 0xc4 (word_of_nat ?n # s) (ABin s)"
      unfolding leaf_reads_def
    proof (intro allI impI)
      fix r rest
      assume r: "mpr_ok r" "mpr_inSitu r = i" "st_left (mpr_is r) = (word_of_nat ?n # s) @ rest"
      from mpr_GetByte_exact [OF r(1), of "word_of_nat ?n" "s @ rest"] r(3) obtain s' where s':
        "mpr_GetByte r = Inr (word_of_nat ?n, r \<lparr> mpr_is := s' \<rparr>)" "mpr_ok (r \<lparr> mpr_is := s' \<rparr>)" "st_left s' = s @ rest"
        by auto
      from ParseBin_reads [OF s'(2), of i s rest] s' r(2) byte_of_length [OF 1]
      show "\<exists>e r'. ParseBin8 r = ([e], Inr r') \<and> represents (ABin s) [e] \<and> mpr_at i r' rest"
        by (simp add: ParseBin8_def)
    qed
    then show ?thesis using parses_leaf [where i = i and b = "0xc4" and cs = "word_of_nat ?n # s" and a = "ABin s"] 1
      by (simp add: mpw_Binary_def Let_def lookup_codes)
  next
    case 2
    have "leaf_reads i ParseBin16 0xc5 (be_bytes 2 (int ?n) @ s) (ABin s)"
      using 2 by (intro leaf_reads_counted [where q = ParseBin] ParseBin_reads) (auto simp: ParseBin16_def)
    then show ?thesis using parses_leaf [where i = i and b = "0xc5" and cs = "be_bytes 2 (int ?n) @ s" and a = "ABin s"] 2
        store_length [of ?n 2, where 'a = 16] by (simp add: mpw_Binary_def Let_def lookup_codes)
  next
    case 3
    have "leaf_reads i ParseBin32 0xc6 (be_bytes 4 (int ?n) @ s) (ABin s)"
      using assms by (intro leaf_reads_counted [where q = ParseBin] ParseBin_reads) (auto simp: ParseBin32_def)
    then show ?thesis using parses_leaf [where i = i and b = "0xc6" and cs = "be_bytes 4 (int ?n) @ s" and a = "ABin s"] 3 assms
        store_length [of ?n 4, where 'a = 32] by (simp add: mpw_Binary_def Let_def lookup_codes)
  qed
qed

lemma parses_float:
  "parses i (AFloat f) (MessagePackFloat32 # msgpack_store 4 f)"
  "parses i (ADouble d) (MessagePackFloat64 # msgpack_store 8 d)"
proof -
  have e: "(msgpack_be (be_bytes 4 (uint f)) :: u32) = f" "(msgpack_be (be_bytes 8 (uint d)) :: u64) = d"
    by (simp_all add: msgpack_be_full)
  have "leaf_reads i ParseFloat32 MessagePackFloat32 (be_bytes 4 (uint f)) (AFloat f)"
    by (rule leaf_reads_bytes [where E = "\<lambda>bs. EvFloat (msgpack_be bs)"]) (simp_all add: ParseFloat32_def e rep_intros)
  then show "parses i (AFloat f) (MessagePackFloat32 # msgpack_store 4 f)"
    unfolding msgpack_store_be by (intro parses_leaf) (simp_all add: lookup_codes)
  have "leaf_reads i ParseFloat64 MessagePackFloat64 (be_bytes 8 (uint d)) (ADouble d)"
    by (rule leaf_reads_bytes [where E = "\<lambda>bs. EvDouble (msgpack_be bs)"]) (simp_all add: ParseFloat64_def e rep_intros)
  then show "parses i (ADouble d) (MessagePackFloat64 # msgpack_store 8 d)"
    unfolding msgpack_store_be by (intro parses_leaf) (simp_all add: lookup_codes)
qed

section \<open>Keys\<close>

text \<open>
  A key has at most 255 bytes, something follows it, and unless the parsing is in place it is not
  empty.
\<close>

definition key_fits :: "bool \<Rightarrow> bytes \<Rightarrow> bool" where
  "key_fits i s \<longleftrightarrow> length s < 256 \<and> (i \<or> s \<noteq> [])"

definition key_read :: "bool \<Rightarrow> bytes \<Rightarrow> bytes \<Rightarrow> mpr producer \<Rightarrow> bool" where
  "key_read i s rest p \<longleftrightarrow> (\<exists>mem len copy r'. p = ([EvKey mem len copy], Inr r') \<and> string_event s mem len copy
     \<and> mpr_at i r' rest)"

lemma mpr_key_reads:
  assumes "mpr_ok r" "mpr_inSitu r = i" "st_left (mpr_is r) = s @ rest" "rest \<noteq> []" "i \<or> s \<noteq> []"
  shows "key_read i s rest (mpr_key (length s) r)"
proof (cases i)
  case True
  with assms(2) have "mpr_inSitu r" by simp
  from clear_reads [OF assms(1) this assms(3)] obtain b s2 s3 c where
    c: "mpr_skip (length s) r = Inr (b, r \<lparr> mpr_is := InSituStream s2 \<rparr>)"
      "GetClearToken (r \<lparr> mpr_is := InSituStream s2 \<rparr>) = r \<lparr> mpr_is := InSituStream s3, mpr_token := c, mpr_valid := True \<rparr>"
      "st_Eof (InSituStream s2) \<longleftrightarrow> rest = []"
      "take (length s) (drop b (iss_mem s3)) = s" "length s \<le> length (drop b (iss_mem s3))"
      "rest \<noteq> [] \<longrightarrow> length s < length (drop b (iss_mem s3)) \<and> drop b (iss_mem s3) ! length s = 0"
      "mpr_at True (r \<lparr> mpr_token := c, mpr_valid := True, mpr_is := InSituStream (snd (iss_PutEnd s3)) \<rparr>) rest"
    by blast
  have "string_event s (drop b (iss_mem s3)) (length s) (mpr_copy r)"
    using c(4,5,6) assms(4) by (auto simp: string_event_def)
  moreover have "mpr_key (length s) r = ([EvKey (drop b (iss_mem s3)) (length s) (mpr_copy r)],
      Inr (r \<lparr> mpr_token := c, mpr_valid := True, mpr_is := InSituStream (snd (iss_PutEnd s3)) \<rparr>))"
    using c(1,2) \<open>mpr_inSitu r\<close> by (simp add: mpr_key_def Let_def mpr_PutEnd_InSitu emit_def)
  ultimately show ?thesis using c(7) True unfolding key_read_def by simp
next
  case False
  from mpr_Read_exact [OF assms(1,3)] obtain s' where
    s': "mpr_Read (length s) r = Inr (s, r \<lparr> mpr_is := s' \<rparr>)" "mpr_ok (r \<lparr> mpr_is := s' \<rparr>)" "st_left s' = rest" by auto
  let ?r = "r \<lparr> mpr_is := s' \<rparr>"
  have "mpr_key (length s) r = ([EvKey (s @ [0]) (length s) True], Inr (ResetToken ?r))"
    using s'(1) False assms(2,5) by (simp add: mpr_key_def mpr_event_def emit_def)
  moreover have "mpr_at i (ResetToken ?r) rest" using mpr_at_event [OF s'(2)] s'(3) assms(2) by simp
  ultimately show ?thesis using string_event_copy unfolding key_read_def by blast
qed

lemma ParseKey_reads:
  assumes "mpr_ok r" "mpr_inSitu r = i" "pending r = written (mpw_String s) @ rest" "rest \<noteq> []" "key_fits i s"
  shows "key_read i s rest (ParseKey r)"
proof -
  have len: "length s < 256" "i \<or> s \<noteq> []" using assms(5) by (simp_all add: key_fits_def)
  define b where "b = (if length s < 32 then MessagePackFixStr OR word_of_nat (length s) else MessagePackStr8)"
  define hs where "hs = (if length s < 32 then [] else [word_of_nat (length s) :: byte])"
  have p: "pending r = b # (hs @ s @ rest)" using assms(3) len by (simp add: mpw_String_def Let_def b_def hs_def)
  note t = token_ready [OF assms(1) p]
  have "st_ok (mpr_is r)" using assms(1) by (simp add: mpr_ok_def)
  then have "\<not> st_Eof (mpr_is r)" using st.eof_left [of "mpr_is r"] p assms(4)
    by (auto simp: pending_def split: if_splits)
  moreover have "\<exists>s'. mpr_key_length (GetToken r) = Inr (length s, GetToken r \<lparr> mpr_is := s' \<rparr>)
      \<and> mpr_ok (GetToken r \<lparr> mpr_is := s' \<rparr>) \<and> st_left s' = s @ rest"
  proof (cases "length s < 32")
    case True
    have "MessagePackFixStr \<le> b \<and> b < MessagePackNil"
      using code_or(1) [OF True] True by (simp add: b_def word_le_nat_alt word_less_nat_alt)
    then show ?thesis using t(2,4,5) code_or(1) [OF True] True
      by (intro exI [of _ "mpr_is (GetToken r)"]) (simp add: mpr_key_length_def Let_def hs_def b_def)
  next
    case False
    with t(5) have "st_left (mpr_is (GetToken r)) = word_of_nat (length s) # s @ rest" by (simp add: hs_def)
    from mpr_GetByte_exact [OF t(2) this] obtain s' where s': "mpr_GetByte (GetToken r) = Inr (word_of_nat (length s), GetToken r \<lparr> mpr_is := s' \<rparr>)"
      "mpr_ok (GetToken r \<lparr> mpr_is := s' \<rparr>)" "st_left s' = s @ rest" by blast
    have "mpr_token (GetToken r) = MessagePackStr8" using t(4) False by (simp add: b_def)
    with s' byte_of_length [OF len(1)] show ?thesis
      by (intro exI [of _ s']) (simp add: mpr_key_length_def)
  qed
  ultimately obtain s' where s': "\<not> st_Eof (mpr_is r)"
    "mpr_key_length (GetToken r) = Inr (length s, GetToken r \<lparr> mpr_is := s' \<rparr>)"
    "mpr_ok (GetToken r \<lparr> mpr_is := s' \<rparr>)" "st_left s' = s @ rest" by blast
  have "key_read i s rest (mpr_key (length s) (GetToken r \<lparr> mpr_is := s' \<rparr>))"
    by (rule mpr_key_reads) (use s' t(6) assms len in simp_all)
  with s'(1,2) show ?thesis by (simp add: ParseKey_def)
qed

section \<open>Containers\<close>

lemma mpr_at_pending: "mpr_at i r bs \<Longrightarrow> bs \<noteq> [] \<Longrightarrow> pending r = bs"
  by (auto simp: mpr_at_def)

lemma parsesE:
  assumes "parses i a bs" "mpr_ok r" "mpr_inSitu r = i" "pending r = bs @ rest" "mpr_fuel r \<le> k"
  obtains es r' where "mpr_ParseStream k r = (es, Inr r')" "represents a es" "mpr_at i r' rest"
  using assms unfolding parses_def by blast

lemma parsed_down:
  assumes "mpr_ok r" "mpr_fuel r \<le> k" "mpr_ParseStream k r = (es, Inr r')"
  shows "mpr_weight r' < mpr_weight r"
  using mpr_parse_safe(1) [OF assms(1), of k] assms(2,3) by (simp add: mpr_fuel_def mpr_down_def)

lemma mpr_elements_reads:
  assumes "\<forall>x \<in> set xs. parses i x (B x) \<and> B x \<noteq> []"
    and "mpr_at i r (concat (map B xs) @ rest)" "2 * mpr_weight r + 2 \<le> k"
  shows "\<exists>es r'. mpr_elements k (length xs) r = (es, Inr r') \<and> represents_elements xs es \<and> mpr_at i r' rest"
  using assms
proof (induction xs arbitrary: r k)
  case Nil
  then show ?case by (simp add: emit_def)
next
  case (Cons x xs)
  from Cons.prems(3) obtain k' where k: "k = Suc k'" "mpr_fuel r \<le> k'" by (cases k) (auto simp: mpr_fuel_def)
  from Cons.prems(1,2) have r: "mpr_ok r" "mpr_inSitu r = i" "pending r = B x @ (concat (map B xs) @ rest)"
    using mpr_at_pending [OF Cons.prems(2)] by (auto simp: mpr_at_def)
  from Cons.prems(1) have "parses i x (B x)" by simp
  from this r k(2) obtain es r1 where x: "mpr_ParseStream k' r = (es, Inr r1)" "represents x es"
    "mpr_at i r1 (concat (map B xs) @ rest)" by (rule parsesE)
  have "2 * mpr_weight r1 + 2 \<le> k'" using parsed_down [OF r(1) k(2) x(1)] Cons.prems(3) k(1) by simp
  with Cons.IH [OF _ x(3)] Cons.prems(1)
  obtain fs r' where xs: "mpr_elements k' (length xs) r1 = (fs, Inr r')" "represents_elements xs fs" "mpr_at i r' rest"
    by (meson list.set_intros(2))
  show ?case
  proof (cases "xs = []")
    case True
    then show ?thesis using x(1) xs rep_elements_one [OF x(2)] by (simp add: k(1) emit_def)
  next
    case False
    then show ?thesis using x(1) xs(1,3) rep_elements_Cons [OF x(2) xs(2)] by (simp add: k(1))
  qed
qed

lemma mpr_members_reads:
  assumes "\<forall>m \<in> set ms. parses i (snd m) (B (snd m)) \<and> B (snd m) \<noteq> [] \<and> key_fits i (fst m)"
    and "mpr_at i r (concat (map (\<lambda>m. written (mpw_String (fst m)) @ B (snd m)) ms) @ rest)" "2 * mpr_weight r + 2 \<le> k"
  shows "\<exists>es r'. mpr_members k (length ms) r = (es, Inr r') \<and> represents_members ms es \<and> mpr_at i r' rest"
  using assms
proof (induction ms arbitrary: r k)
  case Nil
  then show ?case by (simp add: emit_def)
next
  case (Cons m ms)
  obtain s x where m: "m = (s, x)" by (cases m)
  let ?bs = "concat (map (\<lambda>m. written (mpw_String (fst m)) @ B (snd m)) ms) @ rest"
  from Cons.prems(3) obtain k' where k: "k = Suc k'" "mpr_fuel r \<le> k'" by (cases k) (auto simp: mpr_fuel_def)
  have ne: "B x @ ?bs \<noteq> []" using Cons.prems(1) m by simp
  then have "pending r = written (mpw_String s) @ (B x @ ?bs)"
    using mpr_at_pending [OF Cons.prems(2)] m by simp
  with Cons.prems(1,2) m ne have r: "mpr_ok r" "mpr_inSitu r = i" "pending r = written (mpw_String s) @ (B x @ ?bs)"
    "B x @ ?bs \<noteq> []" "key_fits i s" "parses i x (B x)"
    by (simp_all add: mpr_at_def)
  from ParseKey_reads [OF r(1-5)] obtain mem len copy r1 where
    key: "ParseKey r = ([EvKey mem len copy], Inr r1)" "string_event s mem len copy" "mpr_at i r1 (B x @ ?bs)"
    by (auto simp: key_read_def)
  from ParseKey_safe [OF r(1)] key(1) have w1: "mpr_weight r1 \<le> mpr_weight r" by (simp add: mpr_upto_def)
  from mpr_at_pending [OF key(3) r(4)] key(3) have r1: "mpr_ok r1" "mpr_inSitu r1 = i" "pending r1 = B x @ ?bs"
    by (simp_all add: mpr_at_def)
  from k(2) w1 have f1: "mpr_fuel r1 \<le> k'" by (simp add: mpr_fuel_def)
  with r(6) r1 obtain es r2 where x: "mpr_ParseStream k' r1 = (es, Inr r2)" "represents x es" "mpr_at i r2 ?bs"
    by (rule parsesE)
  have "2 * mpr_weight r2 + 2 \<le> k'" using parsed_down [OF r1(1) f1 x(1)] w1 Cons.prems(3) k(1) by simp
  with Cons.IH [OF _ x(3)] Cons.prems(1)
  obtain fs r' where ms: "mpr_members k' (length ms) r2 = (fs, Inr r')" "represents_members ms fs" "mpr_at i r' rest"
    by (meson list.set_intros(2))
  show ?case
  proof (cases "ms = []")
    case True
    then show ?thesis using x(1) ms key(1) rep_members_one [OF x(2) key(2)] by (simp add: k(1) m emit_def)
  next
    case False
    then show ?thesis using x(1) ms(1,3) key(1) rep_members_Cons [OF x(2) key(2) ms(2)] by (simp add: k(1) m)
  qed
qed

lemma pending_weight: "pending r = b # bs \<Longrightarrow> 3 * length bs + 1 \<le> mpr_weight r"
  by (auto simp: pending_def mpr_weight_def split: if_splits)

definition header_read :: "nat \<Rightarrow> bytes \<Rightarrow> mpr \<Rightarrow> (nat \<times> mpr) result \<Rightarrow> bool" where
  "header_read n rest r1 m \<longleftrightarrow> (\<exists>s'. m = Inr (n, r1 \<lparr> mpr_is := s' \<rparr>) \<and> mpr_ok (r1 \<lparr> mpr_is := s' \<rparr>) \<and> st_left s' = rest)"

lemma header_read_now: "mpr_ok r1 \<Longrightarrow> st_left (mpr_is r1) = rest \<Longrightarrow> header_read n rest r1 (Inr (n, r1))"
  by (simp add: header_read_def) (rule exI [of _ "mpr_is r1"], simp)

lemma header_read_length:
  assumes "mpr_ok r1" "st_left (mpr_is r1) = be_bytes k (int n) @ rest" "int n < 256 ^ k" "k \<le> 4"
  shows "header_read n rest r1 (mpr_length k r1)"
  using mpr_length_exact [OF assms] by (simp add: header_read_def)

lemma StartArray_read:
  assumes "n < 2 ^ 32" "mpr_ok r" "pending r = written (mpw_StartArray n) @ rest"
  shows "\<exists>m. mpr_array_length (ParseLookup ! unat (mpr_token (GetToken r))) (GetToken r) = Some m
    \<and> header_read n rest (GetToken r) m"
proof -
  consider "n < 16" | "16 \<le> n" "n < 65536" | "65536 \<le> n" by linarith
  then show ?thesis
  proof cases
    case 1
    with assms(3) have "pending r = (MessagePackFixArray OR word_of_nat n) # rest" by (simp add: mpw_StartArray_def)
    note t = token_ready [OF assms(2) this]
    have "ParseLookup ! unat (mpr_token (GetToken r)) = FParseFixArray"
      using t(4) code_or(2) [OF 1] 1 by (intro lookup_ranges) simp_all
    with t code_or(2) [OF 1] header_read_now [OF t(2,5)] show ?thesis by simp
  next
    case 2
    with assms(3) store_length [of n 2, where 'a = 16] have "pending r = 0xdc # be_bytes 2 (int n) @ rest"
      by (simp add: mpw_StartArray_def)
    note t = token_ready [OF assms(2) this]
    from t(4) header_read_length [OF t(2,5)] 2 show ?thesis by (simp add: lookup_codes)
  next
    case 3
    with assms store_length [of n 4, where 'a = 32] have "pending r = 0xdd # be_bytes 4 (int n) @ rest"
      by (simp add: mpw_StartArray_def)
    note t = token_ready [OF assms(2) this]
    from t(4) header_read_length [OF t(2,5)] assms(1) show ?thesis by (simp add: lookup_codes)
  qed
qed

lemma StartMap_read:
  assumes "n < 2 ^ 32" "mpr_ok r" "pending r = written (mpw_StartMap n) @ rest"
  shows "mpr_array_length (ParseLookup ! unat (mpr_token (GetToken r))) (GetToken r) = None
    \<and> (\<exists>m. mpr_map_length (ParseLookup ! unat (mpr_token (GetToken r))) (GetToken r) = Some m
      \<and> header_read n rest (GetToken r) m)"
proof -
  consider "n < 16" | "16 \<le> n" "n < 65536" | "65536 \<le> n" by linarith
  then show ?thesis
  proof cases
    case 1
    with assms(3) have "pending r = (MessagePackFixMap OR word_of_nat n) # rest" by (simp add: mpw_StartMap_def)
    note t = token_ready [OF assms(2) this]
    have "ParseLookup ! unat (mpr_token (GetToken r)) = FParseFixMap"
      using t(4) code_or(3) [OF 1] 1 by (intro lookup_ranges) simp_all
    with t code_or(3) [OF 1] header_read_now [OF t(2,5)] show ?thesis by simp
  next
    case 2
    with assms(3) store_length [of n 2, where 'a = 16] have "pending r = 0xde # be_bytes 2 (int n) @ rest"
      by (simp add: mpw_StartMap_def)
    note t = token_ready [OF assms(2) this]
    from t(4) header_read_length [OF t(2,5)] 2 show ?thesis by (simp add: lookup_codes)
  next
    case 3
    with assms store_length [of n 4, where 'a = 32] have "pending r = 0xdf # be_bytes 4 (int n) @ rest"
      by (simp add: mpw_StartMap_def)
    note t = token_ready [OF assms(2) this]
    from t(4) header_read_length [OF t(2,5)] assms(1) show ?thesis by (simp add: lookup_codes)
  qed
qed

lemma written_starts: "\<exists>b cs. written (mpw_StartArray n) = b # cs" "\<exists>b cs. written (mpw_StartMap n) = b # cs"
  "\<exists>b cs. written (mpw_String s) = b # cs" "\<exists>b cs. written (mpw_Binary s) = b # cs"
  by (auto simp: mpw_StartArray_def mpw_StartMap_def mpw_String_def mpw_Binary_def Let_def)

text \<open>The state in which the loop of a container starts.\<close>

lemma container_start:
  assumes "mpr_ok r" "mpr_inSitu r = i" "pending r = (b # cs) @ rest" "mpr_fuel r \<le> Suc k"
    and "header_read n rest (GetToken r) m"
  obtains r2 where "m = Inr (n, r2)" "mpr_at i (ResetToken r2) rest" "2 * mpr_weight (ResetToken r2) + 2 \<le> k"
proof -
  from assms(5) obtain s' where s': "m = Inr (n, GetToken r \<lparr> mpr_is := s' \<rparr>)" "mpr_ok (GetToken r \<lparr> mpr_is := s' \<rparr>)"
    "st_left s' = rest" by (auto simp: header_read_def)
  from assms(3) have "pending r = b # (cs @ rest)" by simp
  note t = token_ready [OF assms(1) this] and w = pending_weight [OF this]
  show thesis
  proof (rule that [OF s'(1)])
    show "mpr_at i (ResetToken (GetToken r \<lparr> mpr_is := s' \<rparr>)) rest"
      using mpr_at_event [OF s'(2)] s'(3) t(6) assms(2) by simp
    show "2 * mpr_weight (ResetToken (GetToken r \<lparr> mpr_is := s' \<rparr>)) + 2 \<le> k"
      using w assms(4) s'(3) by (simp add: ResetToken_def mpr_weight_def mpr_fuel_def)
  qed
qed

lemma parses_array:
  assumes "length xs < 2 ^ 32" "\<forall>x \<in> set xs. parses i x (B x) \<and> B x \<noteq> []"
  shows "parses i (AArr xs) (written (mpw_StartArray (length xs)) @ concat (map B xs))"
  unfolding parses_def
proof (intro allI impI)
  let ?bs = "concat (map B xs)"
  fix r rest k
  assume r: "mpr_ok r" "mpr_inSitu r = i" "pending r = (written (mpw_StartArray (length xs)) @ ?bs) @ rest" "mpr_fuel r \<le> k"
  then obtain k' where k: "k = Suc k'" by (cases k) (auto simp: mpr_fuel_def)
  obtain b cs where h: "written (mpw_StartArray (length xs)) = b # cs" using written_starts(1) by blast
  with r(3) have p: "pending r = (b # cs) @ (?bs @ rest)" by simp
  from StartArray_read [OF assms(1) r(1), of "?bs @ rest"] r(3) obtain m where
    m: "mpr_array_length (ParseLookup ! unat (mpr_token (GetToken r))) (GetToken r) = Some m"
      "header_read (length xs) (?bs @ rest) (GetToken r) m" by auto
  from r(4) k have "mpr_fuel r \<le> Suc k'" by simp
  from container_start [OF r(1,2) p this m(2)] obtain r2 where
    r2: "m = Inr (length xs, r2)" "mpr_at i (ResetToken r2) (?bs @ rest)" "2 * mpr_weight (ResetToken r2) + 2 \<le> k'" .
  from mpr_elements_reads [OF assms(2) r2(2,3)] obtain es r' where
    es: "mpr_elements k' (length xs) (ResetToken r2) = (es, Inr r')" "represents_elements xs es" "mpr_at i r' rest"
    by blast
  from p have "pending r = b # (cs @ ?bs @ rest)" by simp
  from token_ready(1) [OF r(1) this] have t: "(\<not> mpr_valid r \<and> st_Eof (mpr_is r)) = False" by blast
  have "mpr_ParseStream k r = (EvStartArray (Some (length xs)) # es @ [EvEndArray (length xs)], Inr r')"
    using m(1) r2(1) es(1) by (simp add: k t Let_def emit_def)
  with rep_arr [OF es(2), of "Some (length xs)"] es(3)
  show "\<exists>es r'. mpr_ParseStream k r = (es, Inr r') \<and> represents (AArr xs) es \<and> mpr_at i r' rest" by blast
qed

lemma parses_map:
  assumes "length ms < 2 ^ 32" "\<forall>m \<in> set ms. parses i (snd m) (B (snd m)) \<and> B (snd m) \<noteq> [] \<and> key_fits i (fst m)"
  shows "parses i (AMap ms) (written (mpw_StartMap (length ms))
    @ concat (map (\<lambda>m. written (mpw_String (fst m)) @ B (snd m)) ms))"
  unfolding parses_def
proof (intro allI impI)
  let ?bs = "concat (map (\<lambda>m. written (mpw_String (fst m)) @ B (snd m)) ms)"
  fix r rest k
  assume r: "mpr_ok r" "mpr_inSitu r = i" "pending r = (written (mpw_StartMap (length ms)) @ ?bs) @ rest" "mpr_fuel r \<le> k"
  then obtain k' where k: "k = Suc k'" by (cases k) (auto simp: mpr_fuel_def)
  obtain b cs where h: "written (mpw_StartMap (length ms)) = b # cs" using written_starts(2) by blast
  with r(3) have p: "pending r = (b # cs) @ (?bs @ rest)" by simp
  from StartMap_read [OF assms(1) r(1), of "?bs @ rest"] r(3) obtain m where
    m: "mpr_array_length (ParseLookup ! unat (mpr_token (GetToken r))) (GetToken r) = None"
      "mpr_map_length (ParseLookup ! unat (mpr_token (GetToken r))) (GetToken r) = Some m"
      "header_read (length ms) (?bs @ rest) (GetToken r) m" by auto
  from r(4) k have "mpr_fuel r \<le> Suc k'" by simp
  from container_start [OF r(1,2) p this m(3)] obtain r2 where
    r2: "m = Inr (length ms, r2)" "mpr_at i (ResetToken r2) (?bs @ rest)" "2 * mpr_weight (ResetToken r2) + 2 \<le> k'" .
  from mpr_members_reads [OF assms(2) r2(2,3)] obtain es r' where
    es: "mpr_members k' (length ms) (ResetToken r2) = (es, Inr r')" "represents_members ms es" "mpr_at i r' rest"
    by blast
  from p have "pending r = b # (cs @ ?bs @ rest)" by simp
  from token_ready(1) [OF r(1) this] have t: "(\<not> mpr_valid r \<and> st_Eof (mpr_is r)) = False" by blast
  have "mpr_ParseStream k r = (EvStartMap (Some (length ms)) # es @ [EvEndMap (length ms)], Inr r')"
    using m(1,2) r2(1) es(1) by (simp add: k t Let_def emit_def)
  with rep_map [OF es(2), of "Some (length ms)"] es(3)
  show "\<exists>es r'. mpr_ParseStream k r = (es, Inr r') \<and> represents (AMap ms) es \<and> mpr_at i r' rest" by blast
qed

section \<open>The round trip\<close>

text \<open>A date is written as the array extension; everything else comes back as it was.\<close>

fun mp_norm :: "(u64 \<Rightarrow> tm) \<Rightarrow> aval \<Rightarrow> aval" where
  "mp_norm localtime (ATime t) = AArr [AStr ANYRPC_DATETIME_STRING, AStr (fmt_tm (localtime t))]"
| "mp_norm localtime (AArr xs) = AArr (map (mp_norm localtime) xs)"
| "mp_norm localtime (AMap ms) = AMap (map (\<lambda>m. (fst m, mp_norm localtime (snd m))) ms)"
| "mp_norm localtime a = a"

fun mp_fits :: "(u64 \<Rightarrow> tm) \<Rightarrow> bool \<Rightarrow> aval \<Rightarrow> bool" where
  "mp_fits localtime i AInvalid \<longleftrightarrow> False"
| "mp_fits localtime i (AInt z) \<longleftrightarrow> - (2 ^ 63) \<le> z \<and> z < 2 ^ 64"
| "mp_fits localtime i (ATime t) \<longleftrightarrow> length (fmt_tm (localtime t)) < 2 ^ 32"
| "mp_fits localtime i (AStr s) \<longleftrightarrow> length s < 2 ^ 32"
| "mp_fits localtime i (ABin s) \<longleftrightarrow> length s < 2 ^ 32"
| "mp_fits localtime i (AArr xs) \<longleftrightarrow> length xs < 2 ^ 32 \<and> (\<forall>x \<in> set xs. mp_fits localtime i x)"
| "mp_fits localtime i (AMap ms) \<longleftrightarrow> length ms < 2 ^ 32
     \<and> (\<forall>m \<in> set ms. key_fits i (fst m) \<and> mp_fits localtime i (snd m))"
| "mp_fits localtime i a \<longleftrightarrow> True"

lemma written_nonempty: "written (mpw_StartArray n) \<noteq> []" "written (mpw_StartMap n) \<noteq> []"
  "written (mpw_String s) \<noteq> []" "written (mpw_Binary s) \<noteq> []"
  using written_starts(1,2) [of n] written_starts(3,4) [of s] by (metis list.distinct(1))+

lemma mp_int_nonempty: "mp_int z \<noteq> []"
  by (simp add: mp_int_def)

lemma mp_bytes_nonempty: "mp_fits localtime i a \<Longrightarrow> mp_bytes localtime a \<noteq> []"
  by (cases a) (simp_all add: mp_int_nonempty mpw_DateTime_def written_nonempty del: concat_eq_Nil_conv)

fun untimed :: "aval \<Rightarrow> bool" where
  "untimed (ATime t) \<longleftrightarrow> False"
| "untimed (AArr xs) \<longleftrightarrow> (\<forall>x \<in> set xs. untimed x)"
| "untimed (AMap ms) \<longleftrightarrow> (\<forall>m \<in> set ms. untimed (snd m))"
| "untimed _ \<longleftrightarrow> True"

lemma parses_untimed: "mp_fits localtime i a \<Longrightarrow> untimed a \<Longrightarrow> parses i a (mp_bytes localtime a)"
proof (induction a)
  case (ABool b)
  then show ?case using parses_codes by (cases b) simp_all
next
  case (AArr xs)
  then show ?case using parses_array [of xs i "mp_bytes localtime"] mp_bytes_nonempty [of localtime i] by simp
next
  case (AMap ms)
  have "parses i (snd m) (mp_bytes localtime (snd m)) \<and> mp_bytes localtime (snd m) \<noteq> [] \<and> key_fits i (fst m)"
    if "m \<in> set ms" for m
    using AMap.IH [OF that snds.intros] AMap.prems that mp_bytes_nonempty [of localtime i "snd m"] by simp
  then show ?case using parses_map [of ms i "mp_bytes localtime"] AMap.prems(1) by simp
next
  case (AFloat f)
  show ?case using parses_float(1) by simp
next
  case (ADouble d)
  show ?case using parses_float(2) by simp
qed (simp_all add: parses_codes parses_int parses_string parses_binary)

lemma mp_norm_untimed: "untimed (mp_norm localtime a)"
proof (induction a)
  case (AMap ms)
  have "untimed (mp_norm localtime (snd m))" if "m \<in> set ms" for m
    using AMap.IH [OF that snds.intros] .
  then show ?case by auto
qed simp_all

lemma mp_norm_fits: "mp_fits localtime i a \<Longrightarrow> mp_fits localtime i (mp_norm localtime a)"
proof (induction a)
  case (AMap ms)
  have "mp_fits localtime i (mp_norm localtime (snd m))" if "m \<in> set ms" for m
    using AMap.IH [OF that snds.intros] AMap.prems that by simp
  then show ?case using AMap.prems by auto
qed (simp_all add: ANYRPC_DATETIME_STRING_def)

lemma mp_norm_bytes: "mp_bytes localtime (mp_norm localtime a) = mp_bytes localtime a"
proof (induction a)
  case (ATime t)
  show ?case by (simp add: mpw_DateTime_def mpw_EndArray_def numeral_2_eq_2)
next
  case (AArr xs)
  then have "map (mp_bytes localtime) (map (mp_norm localtime) xs) = map (mp_bytes localtime) xs" by simp
  then show ?case by (simp only: mp_norm.simps mp_bytes.simps length_map)
next
  case (AMap ms)
  have "mp_bytes localtime (mp_norm localtime (snd m)) = mp_bytes localtime (snd m)" if "m \<in> set ms" for m
    using AMap.IH [OF that snds.intros] .
  then have "map (\<lambda>m. written (mpw_String (fst m)) @ mp_bytes localtime (snd m)) (map (\<lambda>m. (fst m, mp_norm localtime (snd m))) ms)
    = map (\<lambda>m. written (mpw_String (fst m)) @ mp_bytes localtime (snd m)) ms" by simp
  then show ?case by (simp only: mp_norm.simps mp_bytes.simps length_map)
qed simp_all

lemma parses_written: "mp_fits localtime i a \<Longrightarrow> parses i (mp_norm localtime a) (mp_bytes localtime a)"
  using parses_untimed [OF mp_norm_fits mp_norm_untimed] by (simp add: mp_norm_bytes)

text \<open>From a fresh reader.\<close>

lemma mpr_new_start:
  assumes "st_ok s"
  shows "mpr_ok (ResetToken (mpr_new s))" "mpr_inSitu (ResetToken (mpr_new s)) = reader_inSitu s"
    "pending (ResetToken (mpr_new s)) = st_left s"
  using assms by (auto simp: mpr_ok_def mpr_new_def ResetToken_def pending_def reader_inSitu_def)
    (cases s; simp)

lemma reads_written:
  assumes "mp_fits localtime (reader_inSitu s) a" "st_ok s" "st_left s = mp_bytes localtime a @ rest"
  obtains es r' where "mpr_ParseStream (mpr_fuel (ResetToken (mpr_new s))) (ResetToken (mpr_new s)) = (es, Inr r')"
    "represents (mp_norm localtime a) es" "mpr_at (reader_inSitu s) r' rest"
  using parsesE [OF parses_written [OF assms(1)] mpr_new_start(1,2) [OF assms(2)] _ order_refl, of rest]
    mpr_new_start(3) [OF assms(2)] assms(3) by metis

text \<open>Into a document.\<close>

lemma document_of_written:
  assumes "mp_fits localtime (reader_inSitu s) a" "st_ok s" "st_left s = mp_bytes localtime a @ rest"
    and "doc_fits (mp_norm localtime a)" "doc_norm (doc_convert d) mktime (mp_norm localtime a) = Some b"
  shows "\<exists>d'. MessagePackReader_ParseStream (doc_step mktime) (mpr_new s) d = Inr (d', None)
    \<and> value_ok (doc_value d') \<and> abs_value (doc_value d') = b"
proof -
  from reads_written [OF assms(1-3)] obtain es r' where
    es: "mpr_ParseStream (mpr_fuel (ResetToken (mpr_new s))) (ResetToken (mpr_new s)) = (es, Inr r')"
      "represents (mp_norm localtime a) es" .
  from document_builds [OF es(2) assms(4,5)] obtain d' where
    d': "run_events (doc_step mktime) (EvStartDocument # es @ [EvEndDocument]) d = Inr d'"
      "value_ok (doc_value d')" "abs_value (doc_value d') = b" by blast
  from d'(1) obtain d1 d2 where "doc_step mktime d EvStartDocument = Inr d1" "run_events (doc_step mktime) es d1 = Inr d2"
    "doc_step mktime d2 EvEndDocument = Inr d'"
    by (auto simp: run_events_append)
  from parse_document_ok [OF this, of r'] es(1) d'(2,3) show ?thesis
    by (simp add: MessagePackReader_ParseStream_def Let_def)
qed

end
