(* ===== verification/AnyRpc_Strtod.thy ===== *)
theory AnyRpc_Strtod
  imports AnyRpc_Float AnyRpc_Text
begin

text \<open>
  internal/strtod.h, and what the library uses of the language's \<^verbatim>\<open>double\<close> arithmetic: sum,
  product and quotient rounded to nearest, and the \<^verbatim>\<open>%g\<close> conversion of \<^verbatim>\<open>printf\<close>.
\<close>

section \<open>Arithmetic on doubles\<close>

definition double_is_nan :: "u64 \<Rightarrow> bool" where "double_is_nan d \<longleftrightarrow> double_mag d > fp_inf 11 52"
definition double_is_inf :: "u64 \<Rightarrow> bool" where "double_is_inf d \<longleftrightarrow> double_mag d = fp_inf 11 52"
definition double_is_zero :: "u64 \<Rightarrow> bool" where "double_is_zero d \<longleftrightarrow> double_mag d = 0"
definition double_nan :: u64 where "double_nan = mk_double False (fp_inf 11 52 + 2 ^ 51)"
definition double_inf :: "bool \<Rightarrow> u64" where "double_inf neg = mk_double neg (fp_inf 11 52)"
definition double_ratio :: "u64 \<Rightarrow> ratio" where "double_ratio d = fp_decode 11 52 (double_mag d)"

definition double_times :: "u64 \<Rightarrow> u64 \<Rightarrow> u64" where
  "double_times a b =
     (let neg = (double_neg a \<noteq> double_neg b) in
      if double_is_nan a \<or> double_is_nan b then double_nan
      else if double_is_inf a \<or> double_is_inf b
      then (if double_is_zero a \<or> double_is_zero b then double_nan else double_inf neg)
      else case (double_ratio a, double_ratio b) of
        ((n1, d1), (n2, d2)) \<Rightarrow> double_of_ratio neg (n1 * n2, d1 * d2))"

definition double_divide :: "u64 \<Rightarrow> u64 \<Rightarrow> u64" where
  "double_divide a b =
     (let neg = (double_neg a \<noteq> double_neg b) in
      if double_is_nan a \<or> double_is_nan b then double_nan
      else if double_is_inf a then (if double_is_inf b then double_nan else double_inf neg)
      else if double_is_inf b then mk_double neg 0
      else if double_is_zero b then (if double_is_zero a then double_nan else double_inf neg)
      else case (double_ratio a, double_ratio b) of
        ((n1, d1), (n2, d2)) \<Rightarrow> double_of_ratio neg (n1 * d2, d1 * n2))"

definition double_plus :: "u64 \<Rightarrow> u64 \<Rightarrow> u64" where
  "double_plus a b =
     (if double_is_nan a \<or> double_is_nan b then double_nan
      else if double_is_inf a
      then (if double_is_inf b \<and> double_neg a \<noteq> double_neg b then double_nan else a)
      else if double_is_inf b then b
      else case (double_ratio a, double_ratio b) of
        ((n1, d1), (n2, d2)) \<Rightarrow>
          let n = (if double_neg a then - n1 else n1) * d2 + (if double_neg b then - n2 else n2) * d1
          in if n = 0 then mk_double (double_neg a \<and> double_neg b) 0
             else double_of_ratio (n < 0) (\<bar>n\<bar>, d1 * d2))"

definition double_uminus :: "u64 \<Rightarrow> u64" where "double_uminus d = d XOR (2 ^ 63)"

text \<open>\<open>a >= b\<close>, for numbers that are not negative.\<close>

definition double_ge :: "u64 \<Rightarrow> u64 \<Rightarrow> bool" where
  "double_ge a b \<longleftrightarrow> \<not> double_is_nan a \<and> \<not> double_is_nan b \<and> double_mag a \<ge> double_mag b"

section \<open>Powers of ten\<close>

text \<open>The table holds the literals 1e0 to 1e308; outside it, the assertion (or the access) fails.\<close>

definition Pow10 :: "int \<Rightarrow> u64 result" where
  "Pow10 n = (if 0 \<le> n \<and> n \<le> 308 then Inr (double_of_int (10 ^ nat n)) else Inl UndefinedBehaviour)"

definition FastPath :: "u64 \<Rightarrow> int \<Rightarrow> u64 result" where
  "FastPath significand exp =
     (if exp < - 308 then Inr 0
      else if exp \<ge> 0 then then_r (Pow10 exp) (\<lambda>p. Inr (double_times significand p))
      else then_r (Pow10 (- exp)) (\<lambda>p. Inr (double_divide significand p)))"

definition StrtodNormalPrecision :: "u64 \<Rightarrow> int \<Rightarrow> u64 result" where
  "StrtodNormalPrecision d p =
     (if p < - 308 then then_r (FastPath d (- 308)) (\<lambda>d. FastPath d (p + 308))
      else FastPath d p)"

lemma StrtodNormalPrecision_total: "p \<le> 308 \<Longrightarrow> \<exists>d'. StrtodNormalPrecision d p = Inr d'"
  by (simp add: StrtodNormalPrecision_def FastPath_def Pow10_def)

section \<open>The conversion %g\<close>

text \<open>The exponent of the first decimal digit of a positive ratio.\<close>

definition ratio_log10 :: "ratio \<Rightarrow> int" where
  "ratio_log10 r =
     (case r of (n, d) \<Rightarrow>
        if d \<le> n then int (length (dec_nat (nat (n div d)))) - 1
        else - int (length (dec_nat (nat ((d + n - 1) div n - 1)))))"

text \<open>The first \<open>p\<close> decimal digits, rounded, as a number, and the exponent of the first.\<close>

definition decimal_digits :: "nat \<Rightarrow> ratio \<Rightarrow> nat \<times> int" where
  "decimal_digits p r =
     (case r of (n, d) \<Rightarrow>
        let x = ratio_log10 r; s = int p - 1 - x;
            m = (if s \<ge> 0 then round_half_even (n * 10 ^ nat s) d else round_half_even n (d * 10 ^ nat (- s)))
        in if m = 10 ^ p then (10 ^ (p - 1), x + 1) else (nat m, x))"

definition strip_zeros :: "bytes \<Rightarrow> bytes" where
  "strip_zeros ds = rev (dropWhile (\<lambda>c. c = 0x30) (rev ds))"

definition with_point :: "bytes \<Rightarrow> bytes \<Rightarrow> bytes" where
  "with_point ds frac = (case strip_zeros frac of [] \<Rightarrow> ds | fs \<Rightarrow> ds @ 0x2E # fs)"

definition fmt_exp :: "int \<Rightarrow> bytes" where
  "fmt_exp x = 0x65 # (if x < 0 then 0x2D else 0x2B) # pad 0x30 2 (dec_nat (nat \<bar>x\<bar>))"

definition fmt_g :: "nat \<Rightarrow> u64 \<Rightarrow> bytes" where
  "fmt_g precision d =
     (if double_neg d then [0x2D] else []) @
     (if double_is_nan d then lit ''nan''
      else if double_is_inf d then lit ''inf''
      else if double_is_zero d then lit ''0''
      else let p = max 1 precision in
        case decimal_digits p (double_ratio d) of (m, x) \<Rightarrow>
          let ds = dec_nat m in
          if x < - 4 \<or> x \<ge> int p then with_point (take 1 ds) (drop 1 ds) @ fmt_exp x
          else if x \<ge> 0 then with_point (take (nat x + 1) ds) (drop (nat x + 1) ds)
          else with_point (lit ''0'') (replicate (nat (- x) - 1) 0x30 @ ds))"

end
