(* ===== verification/AnyRpc_JsonWriter.thy ===== *)
theory AnyRpc_JsonWriter
  imports AnyRpc_Stream AnyRpc_Handler AnyRpc_Base64 AnyRpc_Strtod AnyRpc_Document
begin

text \<open>
  jsonwriter.h and jsonwriter.cpp: the handler that writes JSON text, in both encodings and with or
  without pretty printing. Its state is the list of calls made on the output stream and the
  indentation level; the three settings are a record of their own.

  Main result: \<open>json_text\<close> says what the text of a value is, and the writer is a consumer
  (\<open>sink\<close>) that writes it for every event sequence that represents the value.
\<close>

section \<open>Strings\<close>

datatype EncodingEnum = ASCII | UTF8 | UTF16LE | UTF16BE | UTF32LE | UTF32BE

definition hexDigits :: bytes where "hexDigits = lit ''0123456789ABCDEF''"

definition hex_digit :: "'a::len word \<Rightarrow> nat \<Rightarrow> byte" where
  "hex_digit c s = hexDigits ! unat (drop_bit s c AND 0xF)"

text \<open>The table \<^verbatim>\<open>escape\<close>: 0, or the character that follows the backslash.\<close>

definition json_escape :: "byte \<Rightarrow> byte" where
  "json_escape c =
     (if c < 0x20
      then (if c = 0x08 then 0x62 else if c = 0x09 then 0x74 else if c = 0x0A then 0x6E
            else if c = 0x0C then 0x66 else if c = 0x0D then 0x72 else 0x75)
      else if c = 0x22 then 0x22 else if c = 0x5C then 0x5C else 0)"

text \<open>
  \<^verbatim>\<open>DecodeUtf8\<close> on the bytes from the current position on: the codepoint and the number of bytes
  behind the first that belong to it.
\<close>

definition is_cont :: "byte \<Rightarrow> bool" where "is_cont c \<longleftrightarrow> c AND 0xC0 = 0x80"

definition cont_bits :: "byte \<Rightarrow> u32" where "cont_bits c = ucast (c AND 0x3F)"

definition DecodeUtf8 :: "byte \<Rightarrow> bytes \<Rightarrow> (u32 \<times> nat) result" where
  "DecodeUtf8 c cs =
     (if c < 0xC0 then Inl AnyRpcErrorUtf8Sequence
      else if c < 0xE0 then
        (case cs of
           c2 # _ \<Rightarrow>
             if \<not> is_cont c2 then Inl AnyRpcErrorUtf8Sequence
             else let codepoint = push_bit 6 (ucast (c AND 0x1F)) + cont_bits c2
               in if codepoint < 0x80 then Inl AnyRpcErrorUtf8Sequence else Inr (codepoint, 1)
         | _ \<Rightarrow> Inl AnyRpcErrorUtf8Sequence)
      else if c < 0xF0 then
        (case cs of
           c2 # c3 # _ \<Rightarrow>
             if \<not> is_cont c2 \<or> \<not> is_cont c3 then Inl AnyRpcErrorUtf8Sequence
             else let codepoint = push_bit 12 (ucast (c AND 0x0F)) + push_bit 6 (cont_bits c2) + cont_bits c3
               in if codepoint < 0x800 then Inl AnyRpcErrorUtf8Sequence else Inr (codepoint, 2)
         | _ \<Rightarrow> Inl AnyRpcErrorUtf8Sequence)
      else if c < 0xF8 then
        (case cs of
           c2 # c3 # c4 # _ \<Rightarrow>
             if \<not> is_cont c2 \<or> \<not> is_cont c3 \<or> \<not> is_cont c4 then Inl AnyRpcErrorUtf8Sequence
             else let codepoint = push_bit 18 (ucast (c AND 0x07)) + push_bit 12 (cont_bits c2)
                 + push_bit 6 (cont_bits c3) + cont_bits c4
               in if codepoint < 0x10000 then Inl AnyRpcErrorUtf8Sequence else Inr (codepoint, 3)
         | _ \<Rightarrow> Inl AnyRpcErrorUtf8Sequence)
      else Inl AnyRpcErrorUtf8Sequence)"

definition put_hex4 :: "u32 \<Rightarrow> put list" where
  "put_hex4 u = [PutChar (hex_digit u 12), PutChar (hex_digit u 8), PutChar (hex_digit u 4), PutChar (hex_digit u 0)]"

definition put_codepoint :: "u32 \<Rightarrow> put list result" where
  "put_codepoint codepoint =
     (if codepoint \<le> 0xD7FF \<or> 0xE000 \<le> codepoint \<and> codepoint \<le> 0xFFFF
      then Inr (PutStr (lit [CHR 0x5C, CHR ''u'']) # put_hex4 codepoint)
      else check_that (0x10000 \<le> codepoint \<and> codepoint \<le> 0x10FFFF) AnyRpcErrorUnicodeValue
        (let s = codepoint - 0x10000; lead = drop_bit 10 s + 0xD800; trail = (s AND 0x3FF) + 0xDC00
         in Inr (PutStr (lit [CHR 0x5C, CHR ''u'']) # put_hex4 lead @ [PutChar 0x5C, PutChar 0x75] @ put_hex4 trail)))"

text \<open>The loop of \<^verbatim>\<open>JsonWriter::String\<close> over what remains of the string.\<close>

function jw_chars :: "EncodingEnum \<Rightarrow> bytes \<Rightarrow> put list result" where
  "jw_chars enc [] = Inr []"
| "jw_chars enc (c # cs) =
     (let e = json_escape c in
      if e \<noteq> 0 then
        then_r (jw_chars enc cs) (\<lambda>ps. Inr (PutChar 0x5C # PutChar e #
          (if e = 0x75 then [PutChar 0x30, PutChar 0x30, PutChar (hex_digit c 4), PutChar (hex_digit c 0)] else []) @ ps))
      else if enc = ASCII \<and> c \<ge> 0x80 then
        then_r (DecodeUtf8 c cs) (\<lambda>(codepoint, k).
          then_r (put_codepoint codepoint) (\<lambda>qs.
            then_r (jw_chars enc (drop k cs)) (\<lambda>ps. Inr (qs @ ps))))
      else then_r (jw_chars enc cs) (\<lambda>ps. Inr (PutChar c # ps)))"
  by pat_completeness auto
termination by (relation "measure (\<lambda>(enc, cs). length cs)") auto

definition jw_String :: "EncodingEnum \<Rightarrow> bytes \<Rightarrow> put list result" where
  "jw_String enc str = then_r (jw_chars enc str) (\<lambda>ps. Inr (PutChar 0x22 # ps @ [PutChar 0x22]))"

section \<open>Scalars\<close>

definition jw_Null :: "put list" where "jw_Null = [PutStr (lit ''null'')]"
definition jw_BoolTrue :: "put list" where "jw_BoolTrue = [PutStr (lit ''true'')]"
definition jw_BoolFalse :: "put list" where "jw_BoolFalse = [PutStr (lit ''false'')]"
definition jw_Int :: "32 word \<Rightarrow> put list" where "jw_Int i = [PutStr (dec_int (sint i))]"
definition jw_Uint :: "u32 \<Rightarrow> put list" where "jw_Uint u = [PutStr (dec_int (uint u))]"
definition jw_Int64 :: "64 word \<Rightarrow> put list" where "jw_Int64 i64 = [PutStr (dec_int (sint i64))]"
definition jw_Uint64 :: "u64 \<Rightarrow> put list" where "jw_Uint64 u64 = [PutStr (dec_int (uint u64))]"

text \<open>
  \<^verbatim>\<open>snprintf\<close> into 100 bytes stores at most 99 and a null and returns the full length; a longer
  conversion makes \<^verbatim>\<open>Put\<close> read behind the buffer.
\<close>

definition jw_Double :: "nat \<Rightarrow> u64 \<Rightarrow> put list result" where
  "jw_Double precision d =
     (let text = fmt_g (if precision > 0 then precision else 6) d; len = length text
      in if len < 100 then Inr [PutStr text]
         else if len = 100 then Inr [PutStr (take 99 text @ [0])]
         else Inl UndefinedBehaviour)"

definition jw_DateTime :: "(u64 \<Rightarrow> tm) \<Rightarrow> u64 \<Rightarrow> put list" where
  "jw_DateTime localtime dt =
     [PutStr (lit ''['' @ [0x22] @ ANYRPC_DATETIME_STRING @ [0x22, 0x2C, 0x22] @ fmt_tm (localtime dt) @ [0x22, 0x5D])]"

definition jw_Binary :: "bytes \<Rightarrow> put list" where
  "jw_Binary str =
     [PutStr (lit ''['' @ [0x22] @ ANYRPC_BASE64_STRING @ [0x22, 0x2C, 0x22]), PutStr (Base64Encode str), PutStr [0x22, 0x5D]]"

section \<open>Containers and pretty printing\<close>

record json_settings =
  js_encoding :: EncodingEnum
  js_pretty :: bool
  js_precision :: nat

record jw =
  jw_out :: "put list"
  jw_level :: int

definition jw_new :: jw where "jw_new = \<lparr> jw_out = [], jw_level = 0 \<rparr>"

definition SetScientificPrecision :: "nat \<Rightarrow> json_settings \<Rightarrow> json_settings" where
  "SetScientificPrecision precision c = c \<lparr> js_precision := min 32 precision \<rparr>"
definition SetPretty :: "bool \<Rightarrow> json_settings \<Rightarrow> json_settings" where
  "SetPretty pretty c = c \<lparr> js_pretty := pretty \<rparr>"

definition jw_put :: "put list \<Rightarrow> jw \<Rightarrow> jw" where "jw_put ps w = w \<lparr> jw_out := jw_out w @ ps \<rparr>"

definition NewLine :: "bool \<Rightarrow> jw \<Rightarrow> jw" where
  "NewLine pretty w =
     (if pretty then jw_put (PutChar 0x0A # replicate (nat (jw_level w)) (PutStr [0x09])) w else w)"

definition IncLevel :: "bool \<Rightarrow> jw \<Rightarrow> jw" where
  "IncLevel pretty w = (if pretty then w \<lparr> jw_level := jw_level w + 1 \<rparr> else w)"

definition DecLevel :: "bool \<Rightarrow> jw \<Rightarrow> jw result" where
  "DecLevel pretty w =
     (if pretty
      then let w' = w \<lparr> jw_level := jw_level w - 1 \<rparr>
        in check_that (jw_level w' \<ge> 0) AnyRpcErrorPrettyPrintLevel (Inr w')
      else Inr w)"

definition jw_StartMap :: "bool \<Rightarrow> jw \<Rightarrow> jw" where
  "jw_StartMap pretty w = NewLine pretty (IncLevel pretty (jw_put [PutChar 0x7B] (NewLine pretty w)))"
definition jw_MapSeparator :: "bool \<Rightarrow> jw \<Rightarrow> jw" where
  "jw_MapSeparator pretty w = NewLine pretty (jw_put [PutChar 0x2C] w)"
definition jw_EndMap :: "bool \<Rightarrow> jw \<Rightarrow> jw result" where
  "jw_EndMap pretty w = then_r (DecLevel pretty w) (\<lambda>w.
     Inr (jw_put [PutChar 0x7D, Flush] (NewLine pretty w)))"
definition jw_StartArray :: "bool \<Rightarrow> jw \<Rightarrow> jw" where
  "jw_StartArray pretty w = NewLine pretty (IncLevel pretty (jw_put [PutChar 0x5B] (NewLine pretty w)))"
definition jw_ArraySeparator :: "bool \<Rightarrow> jw \<Rightarrow> jw" where
  "jw_ArraySeparator pretty w = NewLine pretty (jw_put [PutChar 0x2C] w)"
definition jw_EndArray :: "bool \<Rightarrow> jw \<Rightarrow> jw result" where
  "jw_EndArray pretty w = then_r (DecLevel pretty w) (\<lambda>w.
     Inr (jw_put [PutChar 0x5D, Flush] (NewLine pretty w)))"

definition jw_Key :: "EncodingEnum \<Rightarrow> bytes \<Rightarrow> put list result" where
  "jw_Key enc str = then_r (jw_String enc str) (\<lambda>ps. Inr (ps @ [PutChar 0x3A]))"

text \<open>
  Virtual dispatch. \<^verbatim>\<open>StartMap(size_t)\<close> and \<^verbatim>\<open>Float\<close> are the functions of the base class; the
  class overrides only the overload of \<^verbatim>\<open>StartArray\<close> with a count, so the other one throws.
\<close>

fun jw_event :: "json_settings \<Rightarrow> (u64 \<Rightarrow> tm) \<Rightarrow> event \<Rightarrow> jw \<Rightarrow> jw result" where
  "jw_event c localtime EvStartDocument w = Inr w"
| "jw_event c localtime EvEndDocument w = Inr w"
| "jw_event c localtime EvNull w = Inr (jw_put jw_Null w)"
| "jw_event c localtime EvBoolTrue w = Inr (jw_put jw_BoolTrue w)"
| "jw_event c localtime EvBoolFalse w = Inr (jw_put jw_BoolFalse w)"
| "jw_event c localtime (EvDateTime dt) w = Inr (jw_put (jw_DateTime localtime dt) w)"
| "jw_event c localtime (EvString mem len copy) w =
     then_r (str_arg mem len) (\<lambda>str. then_r (jw_String (js_encoding c) str) (\<lambda>ps. Inr (jw_put ps w)))"
| "jw_event c localtime (EvBinary str copy) w = Inr (jw_put (jw_Binary str) w)"
| "jw_event c localtime (EvInt i) w = Inr (jw_put (jw_Int i) w)"
| "jw_event c localtime (EvUint u) w = Inr (jw_put (jw_Uint u) w)"
| "jw_event c localtime (EvInt64 i64) w = Inr (jw_put (jw_Int64 i64) w)"
| "jw_event c localtime (EvUint64 u64) w = Inr (jw_put (jw_Uint64 u64) w)"
| "jw_event c localtime (EvFloat f) w =
     then_r (jw_Double (js_precision c) (double_of_float f)) (\<lambda>ps. Inr (jw_put ps w))"
| "jw_event c localtime (EvDouble d) w = then_r (jw_Double (js_precision c) d) (\<lambda>ps. Inr (jw_put ps w))"
| "jw_event c localtime (EvStartMap n) w = Inr (jw_StartMap (js_pretty c) w)"
| "jw_event c localtime (EvKey mem len copy) w =
     then_r (str_arg mem len) (\<lambda>str. then_r (jw_Key (js_encoding c) str) (\<lambda>ps. Inr (jw_put ps w)))"
| "jw_event c localtime EvMapSeparator w = Inr (jw_MapSeparator (js_pretty c) w)"
| "jw_event c localtime (EvEndMap n) w = jw_EndMap (js_pretty c) w"
| "jw_event c localtime (EvStartArray (Some n)) w = Inr (jw_StartArray (js_pretty c) w)"
| "jw_event c localtime (EvStartArray None) w = Inl AnyRpcErrorIllegalCall"
| "jw_event c localtime EvArraySeparator w = Inr (jw_ArraySeparator (js_pretty c) w)"
| "jw_event c localtime (EvEndArray n) w = jw_EndArray (js_pretty c) w"

definition jw_step :: "json_settings \<Rightarrow> (u64 \<Rightarrow> tm) \<Rightarrow> jw \<Rightarrow> event \<Rightarrow> jw result" where
  "jw_step c localtime w e = jw_event c localtime e w"

text \<open>\<^verbatim>\<open>ToJsonString\<close>: the value traversed into a writer over a string stream.\<close>

definition ToJsonString :: "(u64 \<Rightarrow> tm) \<Rightarrow> Value \<Rightarrow> EncodingEnum \<Rightarrow> nat \<Rightarrow> bool \<Rightarrow> bytes result" where
  "ToJsonString localtime v enc precision pretty =
     then_r (feed (jw_step \<lparr> js_encoding = enc, js_pretty = pretty, js_precision = precision \<rparr> localtime)
       (Traverse v) jw_new) (\<lambda>(w, _). Inr (concat (map put_bytes (jw_out w))))"

section \<open>The text of a value\<close>

fun join :: "'a list \<Rightarrow> 'a list list \<Rightarrow> 'a list" where
  "join sep [] = []"
| "join sep [xs] = xs"
| "join sep (xs # ys # zss) = xs @ sep @ join sep (ys # zss)"

lemma join_Cons: "zss \<noteq> [] \<Longrightarrow> join sep (xs # zss) = xs @ sep @ join sep zss"
  by (cases zss) simp_all

definition text_of :: "put list result \<Rightarrow> bytes" where
  "text_of r = (case r of Inr ps \<Rightarrow> concat (map put_bytes ps) | Inl _ \<Rightarrow> [])"

lemma text_of_Inr [simp]: "text_of (Inr ps) = concat (map put_bytes ps)"
  by (simp add: text_of_def)

definition line_text :: "json_settings \<Rightarrow> nat \<Rightarrow> bytes" where
  "line_text c lvl = (if js_pretty c then 0x0A # replicate lvl 0x09 else [])"

definition inner :: "json_settings \<Rightarrow> nat \<Rightarrow> nat" where
  "inner c lvl = (if js_pretty c then lvl + 1 else lvl)"

fun json_text :: "json_settings \<Rightarrow> (u64 \<Rightarrow> tm) \<Rightarrow> nat \<Rightarrow> aval \<Rightarrow> bytes" where
  "json_text c localtime lvl AInvalid = []"
| "json_text c localtime lvl ANull = lit ''null''"
| "json_text c localtime lvl (ABool b) = (if b then lit ''true'' else lit ''false'')"
| "json_text c localtime lvl (AInt z) = dec_int z"
| "json_text c localtime lvl (AFloat f) = text_of (jw_Double (js_precision c) (double_of_float f))"
| "json_text c localtime lvl (ADouble d) = text_of (jw_Double (js_precision c) d)"
| "json_text c localtime lvl (ATime t) = text_of (Inr (jw_DateTime localtime t))"
| "json_text c localtime lvl (AStr s) = text_of (jw_String (js_encoding c) s)"
| "json_text c localtime lvl (ABin s) = text_of (Inr (jw_Binary s))"
| "json_text c localtime lvl (AArr xs) =
     line_text c lvl @ 0x5B # line_text c (inner c lvl)
     @ join (0x2C # line_text c (inner c lvl)) (map (json_text c localtime (inner c lvl)) xs)
     @ line_text c lvl @ [0x5D]"
| "json_text c localtime lvl (AMap ms) =
     line_text c lvl @ 0x7B # line_text c (inner c lvl)
     @ join (0x2C # line_text c (inner c lvl))
         (map (\<lambda>m. text_of (jw_Key (js_encoding c) (fst m)) @ json_text c localtime (inner c lvl) (snd m)) ms)
     @ line_text c lvl @ [0x7D]"

text \<open>The values the writer takes: in ASCII, every string must be UTF-8, and the digits of a double must fit.\<close>

definition writable :: "put list result \<Rightarrow> bool" where "writable r \<longleftrightarrow> (\<exists>ps. r = Inr ps)"

fun json_writable :: "json_settings \<Rightarrow> aval \<Rightarrow> bool" where
  "json_writable c (AStr s) \<longleftrightarrow> writable (jw_String (js_encoding c) s)"
| "json_writable c (AFloat f) \<longleftrightarrow> writable (jw_Double (js_precision c) (double_of_float f))"
| "json_writable c (ADouble d) \<longleftrightarrow> writable (jw_Double (js_precision c) d)"
| "json_writable c (AArr xs) \<longleftrightarrow> (\<forall>x \<in> set xs. json_writable c x)"
| "json_writable c (AMap ms) \<longleftrightarrow> (\<forall>m \<in> set ms. writable (jw_String (js_encoding c) (fst m)) \<and> json_writable c (snd m))"
| "json_writable c _ \<longleftrightarrow> True"

section \<open>Events of a value\<close>

definition jw_at :: "put list \<Rightarrow> nat \<Rightarrow> jw" where "jw_at ps lvl = \<lparr> jw_out = ps, jw_level = int lvl \<rparr>"

definition jw_writes :: "json_settings \<Rightarrow> (u64 \<Rightarrow> tm) \<Rightarrow> nat \<Rightarrow> event list \<Rightarrow> nat \<Rightarrow> bytes \<Rightarrow> bool" where
  "jw_writes c localtime lvl es lvl' bs \<longleftrightarrow>
     (\<forall>out. \<exists>ps. run_events (jw_step c localtime) es (jw_at out lvl) = Inr (jw_at (out @ ps) lvl')
       \<and> concat (map put_bytes ps) = bs)"

lemma jw_writes_Nil: "jw_writes c localtime lvl [] lvl []"
  unfolding jw_writes_def by (intro allI exI [of _ "[]"]) simp

lemma jw_writes_append:
  assumes "jw_writes c localtime l1 es l2 bs" "jw_writes c localtime l2 fs l3 cs"
  shows "jw_writes c localtime l1 (es @ fs) l3 (bs @ cs)"
  unfolding jw_writes_def
proof
  fix out
  from assms(1) obtain ps where ps: "run_events (jw_step c localtime) es (jw_at out l1) = Inr (jw_at (out @ ps) l2)"
    "concat (map put_bytes ps) = bs" unfolding jw_writes_def by blast
  from assms(2) obtain qs where "run_events (jw_step c localtime) fs (jw_at (out @ ps) l2) = Inr (jw_at ((out @ ps) @ qs) l3)"
    "concat (map put_bytes qs) = cs" unfolding jw_writes_def by blast
  with ps show "\<exists>ps. run_events (jw_step c localtime) (es @ fs) (jw_at out l1) = Inr (jw_at (out @ ps) l3)
      \<and> concat (map put_bytes ps) = bs @ cs"
    by (intro exI [of _ "ps @ qs"]) (simp add: run_events_append)
qed

lemma jw_writes_one:
  assumes "\<And>out. jw_event c localtime e (jw_at out l1) = Inr (jw_at (out @ ps) l2)"
  shows "jw_writes c localtime l1 [e] l2 (concat (map put_bytes ps))"
  using assms by (auto simp: jw_writes_def jw_step_def)

lemma jw_writes_Cons:
  assumes "\<And>out. jw_event c localtime e (jw_at out l1) = Inr (jw_at (out @ ps) l2)" "jw_writes c localtime l2 fs l3 cs"
  shows "jw_writes c localtime l1 (e # fs) l3 (concat (map put_bytes ps) @ cs)"
  using jw_writes_append [OF jw_writes_one [OF assms(1)] assms(2)] by simp

lemma jw_put_at [simp]: "jw_put ps (jw_at out lvl) = jw_at (out @ ps) lvl"
  by (simp add: jw_put_def jw_at_def)

definition line_puts :: "json_settings \<Rightarrow> nat \<Rightarrow> put list" where
  "line_puts c lvl = (if js_pretty c then PutChar 0x0A # replicate lvl (PutStr [0x09]) else [])"

lemma line_puts_text [simp]: "concat (map put_bytes (line_puts c lvl)) = line_text c lvl"
proof -
  have "concat (replicate n [0x09 :: byte]) = replicate n 0x09" for n by (induction n) simp_all
  then show ?thesis by (simp add: line_puts_def line_text_def)
qed

lemma pretty_steps [simp]:
  "NewLine (js_pretty c) (jw_at out lvl) = jw_at (out @ line_puts c lvl) lvl"
  "IncLevel (js_pretty c) (jw_at out lvl) = jw_at out (inner c lvl)"
  "DecLevel (js_pretty c) (jw_at out (inner c lvl)) = Inr (jw_at out lvl)"
  by (auto simp: NewLine_def IncLevel_def DecLevel_def line_puts_def inner_def jw_put_def jw_at_def)

lemma jw_writes_scalar:
  assumes "\<And>w. jw_event c localtime e w = then_r r (\<lambda>ps. Inr (jw_put ps w))" "writable r"
  shows "jw_writes c localtime lvl [e] lvl (text_of r)"
proof -
  from assms(2) obtain ps where "r = Inr ps" by (auto simp: writable_def)
  with jw_writes_one [of c localtime e lvl ps lvl] assms(1) show ?thesis by simp
qed

lemma jw_writes_container:
  assumes "\<And>out. jw_event c localtime e (jw_at out lvl) = Inr (jw_at (out @ ps) (inner c lvl))"
    and "\<And>out. jw_event c localtime e' (jw_at out (inner c lvl)) = Inr (jw_at (out @ qs) lvl)"
    and "jw_writes c localtime (inner c lvl) es (inner c lvl) bs"
  shows "jw_writes c localtime lvl (e # es @ [e']) lvl (concat (map put_bytes ps) @ bs @ concat (map put_bytes qs))"
  by (rule jw_writes_Cons [OF assms(1) jw_writes_append [OF assms(3) jw_writes_one [OF assms(2)]]])

lemma jw_writes_separated:
  assumes "jw_writes c localtime lvl es lvl bs" "jw_writes c localtime lvl fs lvl cs"
    and "\<And>out. jw_event c localtime e (jw_at out lvl) = Inr (jw_at (out @ PutChar 0x2C # line_puts c lvl) lvl)"
  shows "jw_writes c localtime lvl (es @ e # fs) lvl (bs @ (0x2C # line_text c lvl) @ cs)"
  using jw_writes_append [OF assms(1) jw_writes_Cons [OF assms(3,2)]] by simp

lemma jw_Key_text: "writable (jw_String enc k) \<Longrightarrow> writable (jw_Key enc k)"
  by (auto simp: writable_def jw_Key_def)

lemma json_writes:
  "represents a es \<Longrightarrow> \<forall>e \<in> set es. e \<noteq> EvStartArray None \<Longrightarrow> json_writable c a \<Longrightarrow>
     jw_writes c localtime lvl es lvl (json_text c localtime lvl a)"
  "represents_members ms es' \<Longrightarrow> \<forall>e \<in> set es'. e \<noteq> EvStartArray None \<Longrightarrow> json_writable c (AMap ms) \<Longrightarrow>
     jw_writes c localtime lvl es' lvl (join (0x2C # line_text c lvl)
       (map (\<lambda>m. text_of (jw_Key (js_encoding c) (fst m)) @ json_text c localtime lvl (snd m)) ms))"
  "represents_elements xs es'' \<Longrightarrow> \<forall>e \<in> set es''. e \<noteq> EvStartArray None \<Longrightarrow> json_writable c (AArr xs) \<Longrightarrow>
     jw_writes c localtime lvl es'' lvl (join (0x2C # line_text c lvl) (map (json_text c localtime lvl) xs))"
proof (induction arbitrary: lvl and lvl and lvl rule: rep_induct)
  case (rep_arr xs es n)
  then obtain k where n: "n = Some k" by (cases n) auto
  have "jw_event c localtime (EvStartArray n) (jw_at out lvl)
    = Inr (jw_at (out @ (line_puts c lvl @ [PutChar 0x5B] @ line_puts c (inner c lvl))) (inner c lvl))" for out
    by (simp add: n jw_StartArray_def)
  moreover have "jw_event c localtime (EvEndArray (length xs)) (jw_at out (inner c lvl))
    = Inr (jw_at (out @ (line_puts c lvl @ [PutChar 0x5D, Flush])) lvl)" for out by (simp add: jw_EndArray_def)
  ultimately have "jw_writes c localtime lvl (EvStartArray n # es @ [EvEndArray (length xs)]) lvl
    (concat (map put_bytes (line_puts c lvl @ [PutChar 0x5B] @ line_puts c (inner c lvl)))
      @ join (0x2C # line_text c (inner c lvl)) (map (json_text c localtime (inner c lvl)) xs)
      @ concat (map put_bytes (line_puts c lvl @ [PutChar 0x5D, Flush])))"
    using rep_arr.prems by (intro jw_writes_container rep_arr.IH) simp_all
  then show ?case by simp
next
  case (rep_map ms es n)
  have "jw_event c localtime (EvStartMap n) (jw_at out lvl)
    = Inr (jw_at (out @ (line_puts c lvl @ [PutChar 0x7B] @ line_puts c (inner c lvl))) (inner c lvl))" for out
    by (simp add: jw_StartMap_def)
  moreover have "jw_event c localtime (EvEndMap (length ms)) (jw_at out (inner c lvl))
    = Inr (jw_at (out @ (line_puts c lvl @ [PutChar 0x7D, Flush])) lvl)" for out by (simp add: jw_EndMap_def)
  ultimately have "jw_writes c localtime lvl (EvStartMap n # es @ [EvEndMap (length ms)]) lvl
    (concat (map put_bytes (line_puts c lvl @ [PutChar 0x7B] @ line_puts c (inner c lvl)))
      @ join (0x2C # line_text c (inner c lvl))
          (map (\<lambda>m. text_of (jw_Key (js_encoding c) (fst m)) @ json_text c localtime (inner c lvl) (snd m)) ms)
      @ concat (map put_bytes (line_puts c lvl @ [PutChar 0x7D, Flush])))"
    using rep_map.prems by (intro jw_writes_container rep_map.IH) simp_all
  then show ?case by simp
next
  case (rep_elements_Cons x es xs fs)
  then have "jw_writes c localtime lvl (es @ EvArraySeparator # fs) lvl (json_text c localtime lvl x @ (0x2C # line_text c lvl)
      @ join (0x2C # line_text c lvl) (map (json_text c localtime lvl) xs))"
    by (intro jw_writes_separated rep_elements_Cons.IH) (auto simp: jw_ArraySeparator_def)
  with rep_elements_Cons.hyps(3) show ?case by (simp add: join_Cons)
next
  case (rep_members_one x es k mem len copy)
  then have "jw_writes c localtime lvl ([EvKey mem len copy] @ es) lvl (text_of (jw_Key (js_encoding c) k) @ json_text c localtime lvl x)"
    by (intro jw_writes_append [OF jw_writes_scalar] rep_members_one.IH) (auto simp: string_event_arg intro: jw_Key_text)
  then show ?case by simp
next
  case (rep_members_Cons x es k mem len copy ms fs)
  then have "jw_writes c localtime lvl ([EvKey mem len copy] @ es) lvl (text_of (jw_Key (js_encoding c) k) @ json_text c localtime lvl x)"
    by (intro jw_writes_append [OF jw_writes_scalar] rep_members_Cons.IH) (auto simp: string_event_arg intro: jw_Key_text)
  then have "jw_writes c localtime lvl (([EvKey mem len copy] @ es) @ EvMapSeparator # fs) lvl
      ((text_of (jw_Key (js_encoding c) k) @ json_text c localtime lvl x) @ (0x2C # line_text c lvl)
      @ join (0x2C # line_text c lvl) (map (\<lambda>m. text_of (jw_Key (js_encoding c) (fst m)) @ json_text c localtime lvl (snd m)) ms))"
    by (rule jw_writes_separated) (use rep_members_Cons in \<open>auto simp: jw_MapSeparator_def\<close>)
  with rep_members_Cons.hyps(4) show ?case by (simp add: join_Cons)
next
  case (rep_str s mem len copy)
  then show ?case using jw_writes_scalar [of c localtime "EvString mem len copy"] string_event_arg by simp
next
  case (rep_float f)
  then show ?case using jw_writes_scalar [of c localtime "EvFloat f"] by simp
next
  case (rep_double f)
  then show ?case using jw_writes_scalar [of c localtime "EvDouble f"] by simp
next
  case rep_null
  show ?case using jw_writes_one [of c localtime EvNull lvl jw_Null lvl] by (simp add: jw_Null_def)
next
  case rep_true
  show ?case using jw_writes_one [of c localtime EvBoolTrue lvl jw_BoolTrue lvl] by (simp add: jw_BoolTrue_def)
next
  case rep_false
  show ?case using jw_writes_one [of c localtime EvBoolFalse lvl jw_BoolFalse lvl] by (simp add: jw_BoolFalse_def)
next
  case (rep_int i)
  show ?case using jw_writes_one [of c localtime "EvInt i" lvl "jw_Int i" lvl] by (simp add: jw_Int_def)
next
  case (rep_uint u)
  show ?case using jw_writes_one [of c localtime "EvUint u" lvl "jw_Uint u" lvl] by (simp add: jw_Uint_def)
next
  case (rep_int64 i)
  show ?case using jw_writes_one [of c localtime "EvInt64 i" lvl "jw_Int64 i" lvl] by (simp add: jw_Int64_def)
next
  case (rep_uint64 u)
  show ?case using jw_writes_one [of c localtime "EvUint64 u" lvl "jw_Uint64 u" lvl] by (simp add: jw_Uint64_def)
next
  case (rep_time t)
  show ?case using jw_writes_one [of c localtime "EvDateTime t" lvl "jw_DateTime localtime t" lvl] by simp
next
  case (rep_bin s copy)
  show ?case using jw_writes_one [of c localtime "EvBinary s copy" lvl "jw_Binary s" lvl] by simp
qed (simp_all add: jw_writes_Nil)

text \<open>The writer is a sink; only \<^verbatim>\<open>StartArray\<close> without a count is not supported.\<close>

definition jw_took :: "json_settings \<Rightarrow> (u64 \<Rightarrow> tm) \<Rightarrow> jw \<Rightarrow> aval \<Rightarrow> jw \<Rightarrow> bool" where
  "jw_took c localtime w a w' \<longleftrightarrow> jw_level w' = jw_level w
     \<and> (\<exists>ps. jw_out w' = jw_out w @ ps \<and> concat (map put_bytes ps) = json_text c localtime (nat (jw_level w)) a)"

interpretation jw: sink "jw_step c localtime" "\<lambda>e. e \<noteq> EvStartArray None" "\<lambda>w. jw_level w \<ge> 0" "json_writable c"
  "jw_took c localtime" for c localtime
proof unfold_locales
  fix w :: jw and a es
  assume w: "jw_level w \<ge> 0" "json_writable c a" "represents a es" "\<forall>e \<in> set es. e \<noteq> EvStartArray None"
  then have "w = jw_at (jw_out w) (nat (jw_level w))" by (simp add: jw_at_def)
  with json_writes(1) [OF w(3,4,2), of localtime "nat (jw_level w)"] obtain ps where
    "run_events (jw_step c localtime) es w = Inr (jw_at (jw_out w @ ps) (nat (jw_level w)))"
    "concat (map put_bytes ps) = json_text c localtime (nat (jw_level w)) a" unfolding jw_writes_def by metis
  then show "\<exists>w'. run_events (jw_step c localtime) es w = Inr w' \<and> jw_took c localtime w a w'"
    using w(1) by (auto simp: jw_took_def jw_at_def)
qed auto

lemma ToJsonString_text:
  assumes "value_ok v" "complete (abs_value v)"
    and "json_writable \<lparr> js_encoding = enc, js_pretty = pretty, js_precision = precision \<rparr> (abs_value v)"
  shows "ToJsonString localtime v enc precision pretty
    = Inr (json_text \<lparr> js_encoding = enc, js_pretty = pretty, js_precision = precision \<rparr> localtime 0 (abs_value v))"
  using jw.feed_traverse [OF _ assms, of jw_new localtime] by (auto simp: jw_new_def ToJsonString_def jw_took_def)

end
