(* ===== verification/AnyRpc_JsonReader.thy ===== *)
theory AnyRpc_JsonReader
  imports AnyRpc_Reader AnyRpc_Strtod
begin

text \<open>
  jsonreader.h and jsonreader.cpp: the recursive-descent parser for JSON text, over any input
  stream. A string is decoded into a string stream, or, in place, over the text it is decoded
  from. Loops and recursion are bounded by counters that are linear in what is left to read.
\<close>

section \<open>State\<close>

record jr =
  jr_is :: stream
  jr_inSitu :: bool
  jr_copy :: bool

definition jr_new :: "stream \<Rightarrow> jr" where
  "jr_new is = \<lparr> jr_is = is, jr_inSitu = reader_inSitu is, jr_copy = reader_copy is \<rparr>"

definition jr_Peek :: "jr \<Rightarrow> byte" where "jr_Peek r = st_Peek (jr_is r)"

definition jr_Get :: "jr \<Rightarrow> byte \<times> jr" where
  "jr_Get r = (case st_Get (jr_is r) of (c, is) \<Rightarrow> (c, r \<lparr> jr_is := is \<rparr>))"

definition jr_SkipWhiteSpace :: "jr \<Rightarrow> jr result" where
  "jr_SkipWhiteSpace r =
     (case SkipWhiteSpace (jr_is r) of None \<Rightarrow> Inl OutOfFuel | Some is \<Rightarrow> Inr (r \<lparr> jr_is := is \<rparr>))"

definition jr_left :: "jr \<Rightarrow> bytes" where "jr_left r = st_left (jr_is r)"

section \<open>Literals\<close>

fun jr_expect :: "bytes \<Rightarrow> jr \<Rightarrow> jr result" where
  "jr_expect [] r = Inr r"
| "jr_expect (c # cs) r =
     (case jr_Get r of (d, r') \<Rightarrow> if d \<noteq> c then Inl AnyRpcErrorValueInvalid else jr_expect cs r')"

definition json_ParseNull :: "jr \<Rightarrow> jr producer" where
  "json_ParseNull r = then_p (lift_r (jr_expect (lit ''null'') r)) (emit [EvNull])"
definition json_ParseTrue :: "jr \<Rightarrow> jr producer" where
  "json_ParseTrue r = then_p (lift_r (jr_expect (lit ''true'') r)) (emit [EvBoolTrue])"
definition json_ParseFalse :: "jr \<Rightarrow> jr producer" where
  "json_ParseFalse r = then_p (lift_r (jr_expect (lit ''false'') r)) (emit [EvBoolFalse])"

section \<open>Strings\<close>

text \<open>The table \<^verbatim>\<open>escape\<close> of the reader: 0, or the character an escape stands for.\<close>

definition json_unescape_char :: "byte \<Rightarrow> byte" where
  "json_unescape_char e =
     (if e = 0x22 then 0x22 else if e = 0x2F then 0x2F else if e = 0x5C then 0x5C
      else if e = 0x62 then 0x08 else if e = 0x66 then 0x0C else if e = 0x6E then 0x0A
      else if e = 0x72 then 0x0D else if e = 0x74 then 0x09 else 0)"

definition hex_value :: "byte \<Rightarrow> u32 option" where
  "hex_value c =
     (if 0x30 \<le> c \<and> c \<le> 0x39 then Some (ucast (c - 0x30))
      else if 0x41 \<le> c \<and> c \<le> 0x46 then Some (ucast (c - 0x41) + 10)
      else if 0x61 \<le> c \<and> c \<le> 0x66 then Some (ucast (c - 0x61) + 10)
      else None)"

fun hex_loop :: "nat \<Rightarrow> u32 \<Rightarrow> jr \<Rightarrow> (u32 \<times> jr) result" where
  "hex_loop 0 codepoint r = Inr (codepoint, r)"
| "hex_loop (Suc i) codepoint r =
     (case jr_Get r of (c, r') \<Rightarrow>
        (case hex_value c of
           Some v \<Rightarrow> hex_loop i (push_bit 4 codepoint + v) r'
         | None \<Rightarrow> Inl AnyRpcErrorStringUnicodeEscapeInvalid))"

definition ParseHex4 :: "jr \<Rightarrow> (u32 \<times> jr) result" where "ParseHex4 r = hex_loop 4 0 r"

definition put_byte :: "u32 \<Rightarrow> byte" where "put_byte u = ucast u"

definition EncodeUtf8 :: "u32 \<Rightarrow> bytes" where
  "EncodeUtf8 codepoint =
     (if codepoint \<le> 0x7F then [put_byte codepoint]
      else if codepoint \<le> 0x7FF then
        [put_byte (0xC0 OR (drop_bit 6 codepoint AND 0xFF)), put_byte (0x80 OR (codepoint AND 0x3F))]
      else if codepoint \<le> 0xFFFF then
        [put_byte (0xE0 OR (drop_bit 12 codepoint AND 0xFF)), put_byte (0x80 OR (drop_bit 6 codepoint AND 0x3F)),
         put_byte (0x80 OR (codepoint AND 0x3F))]
      else
        [put_byte (0xF0 OR (drop_bit 18 codepoint AND 0xFF)), put_byte (0x80 OR (drop_bit 12 codepoint AND 0x3F)),
         put_byte (0x80 OR (drop_bit 6 codepoint AND 0x3F)), put_byte (0x80 OR (codepoint AND 0x3F))])"

text \<open>What follows a backslash and a \<^verbatim>\<open>u\<close>: a code point, or a pair of surrogates.\<close>

definition ParseTrail :: "u32 \<Rightarrow> jr \<Rightarrow> (u32 \<times> jr) result" where
  "ParseTrail codepoint r1 =
     (case jr_Get r1 of (c1, r2) \<Rightarrow>
        if c1 \<noteq> 0x5C then Inl AnyRpcErrorStringUnicodeSurrogateInvalid
        else case jr_Get r2 of (c2, r3) \<Rightarrow>
          if c2 \<noteq> 0x75 then Inl AnyRpcErrorStringUnicodeSurrogateInvalid
          else then_r (ParseHex4 r3) (\<lambda>(codepoint2, r4).
            if codepoint2 < 0xDC00 \<or> codepoint2 > 0xDFFF then Inl AnyRpcErrorStringUnicodeSurrogateInvalid
            else Inr ((push_bit 10 (codepoint - 0xD800) OR (codepoint2 - 0xDC00)) + 0x10000, r4)))"

definition ParseCodepoint :: "jr \<Rightarrow> (u32 \<times> jr) result" where
  "ParseCodepoint r =
     then_r (ParseHex4 r) (\<lambda>(codepoint, r1).
       if 0xD800 \<le> codepoint \<and> codepoint \<le> 0xDBFF then ParseTrail codepoint r1 else Inr (codepoint, r1))"

text \<open>The output: the input stream itself, or a \<^verbatim>\<open>WriteStringStream\<close> with its string.\<close>

type_synonym jr_os = "jr \<times> bytes"

definition os_put :: "byte \<Rightarrow> jr_os \<Rightarrow> jr_os result" where
  "os_put c os =
     (case os of (r, str) \<Rightarrow>
        if jr_inSitu r then then_r (st_put_char (jr_is r) c) (\<lambda>is. Inr (r \<lparr> jr_is := is \<rparr>, str))
        else Inr (r, wstr_put_char str c))"

fun os_puts :: "bytes \<Rightarrow> jr_os \<Rightarrow> jr_os result" where
  "os_puts [] os = Inr os"
| "os_puts (c # cs) os = then_r (os_put c os) (os_puts cs)"

fun ParseStringToStream :: "nat \<Rightarrow> jr_os \<Rightarrow> jr_os result" where
  "ParseStringToStream 0 os = Inl OutOfFuel"
| "ParseStringToStream (Suc k) (r, str) =
     (let c = jr_Peek r in
      if c = 0x5C then
        (case jr_Get r of (_, r1) \<Rightarrow> case jr_Get r1 of (e, r2) \<Rightarrow>
           if json_unescape_char e \<noteq> 0
           then then_r (os_put (json_unescape_char e) (r2, str)) (ParseStringToStream k)
           else if e = 0x75
           then then_r (ParseCodepoint r2) (\<lambda>(codepoint, r3).
             then_r (os_puts (EncodeUtf8 codepoint) (r3, str)) (ParseStringToStream k))
           else Inl AnyRpcErrorStringEscapeInvalid)
      else if c = 0x22 then (case jr_Get r of (_, r1) \<Rightarrow> os_put 0 (r1, str))
      else if c = 0 then Inl AnyRpcErrorStringMissingQuotationMark
      else if c < 0x20 then Inl AnyRpcErrorStringEscapeInvalid
      else (case jr_Get r of (c', r1) \<Rightarrow> then_r (os_put c' (r1, str)) (ParseStringToStream k)))"

text \<open>\<^verbatim>\<open>ParseString\<close> and \<^verbatim>\<open>ParseKey\<close> differ in the function of the handler they call.\<close>

definition json_string :: "(bytes \<Rightarrow> nat \<Rightarrow> bool \<Rightarrow> event) \<Rightarrow> jr \<Rightarrow> jr producer" where
  "json_string ev r =
     then_p (lift_r (check_that (jr_Peek r = 0x22) AnyRpcErrorParseError (Inr (snd (jr_Get r))))) (\<lambda>r1.
       if jr_inSitu r1 then
         then_p (lift_r (then_r (st_PutBegin (jr_is r1)) (\<lambda>(str, is).
           then_r (ParseStringToStream (Suc (length (jr_left r1))) (r1 \<lparr> jr_is := is \<rparr>, [])) (\<lambda>(r2, _).
             then_r (st_PutEnd (jr_is r2)) (\<lambda>(n, is2). Inr (str, n - 1, r2 \<lparr> jr_is := is2 \<rparr>))))))
           (\<lambda>(str, len, r3). emit [ev (st_memory (jr_is r3) str) len (jr_copy r3)] r3)
       else
         then_p (lift_r (ParseStringToStream (Suc (length (jr_left r1))) (r1, [])))
           (\<lambda>(r2, str). emit [ev str (length str - 1) True] r2))"

definition json_ParseString :: "jr \<Rightarrow> jr producer" where "json_ParseString r = json_string EvString r"
definition json_ParseKey :: "jr \<Rightarrow> jr producer" where "json_ParseKey r = json_string EvKey r"

section \<open>Numbers\<close>

record jnum =
  n_i :: u32
  n_i64 :: u64
  n_use64bit :: bool
  n_significandDigit :: int
  n_useDouble :: bool
  n_d :: u64
  n_expFrac :: int
  n_exp :: int

definition jnum_new :: jnum where
  "jnum_new = \<lparr> n_i = 0, n_i64 = 0, n_use64bit = False, n_significandDigit = 0, n_useDouble = False, n_d = 0,
     n_expFrac = 0, n_exp = 0 \<rparr>"

text \<open>
  \<^verbatim>\<open>while (isdigit(is_.Peek()))\<close> with a test that breaks out and a body that takes the digit; the
  flag says whether it broke out.
\<close>

fun digit_loop :: "nat \<Rightarrow> (jnum \<Rightarrow> byte \<Rightarrow> bool) \<Rightarrow> (jnum \<Rightarrow> byte \<Rightarrow> jnum result) \<Rightarrow> jnum \<Rightarrow> jr \<Rightarrow>
    ((jnum \<times> bool) \<times> jr) result" where
  "digit_loop 0 stop body n r = Inl OutOfFuel"
| "digit_loop (Suc k) stop body n r =
     (if \<not> is_digit (jr_Peek r) then Inr ((n, False), r)
      else if stop n (jr_Peek r) then Inr ((n, True), r)
      else case jr_Get r of (c, r') \<Rightarrow> then_r (body n c) (\<lambda>n'. digit_loop k stop body n' r'))"

definition digits :: "(jnum \<Rightarrow> byte \<Rightarrow> bool) \<Rightarrow> (jnum \<Rightarrow> byte \<Rightarrow> jnum result) \<Rightarrow> jnum \<Rightarrow> jr \<Rightarrow>
    ((jnum \<times> bool) \<times> jr) result" where
  "digits stop body n r = digit_loop (Suc (length (jr_left r))) stop body n r"

definition stop32 :: "bool \<Rightarrow> jnum \<Rightarrow> byte \<Rightarrow> bool" where
  "stop32 neg n c =
     (if neg then n_i n \<ge> 214748364 \<and> (n_i n \<noteq> 214748364 \<or> c > 0x38)
      else n_i n \<ge> 429496729 \<and> (n_i n \<noteq> 429496729 \<or> c > 0x35))"

definition add32 :: "jnum \<Rightarrow> byte \<Rightarrow> jnum" where
  "add32 n c = n \<lparr> n_i := n_i n * 10 + ucast (c - 0x30), n_significandDigit := n_significandDigit n + 1 \<rparr>"

definition stop64 :: "bool \<Rightarrow> jnum \<Rightarrow> byte \<Rightarrow> bool" where
  "stop64 neg n c =
     (if neg then n_i64 n \<ge> 0x0CCCCCCCCCCCCCCC \<and> (n_i64 n \<noteq> 0x0CCCCCCCCCCCCCCC \<or> c > 0x38)
      else n_i64 n \<ge> 0x1999999999999999 \<and> (n_i64 n \<noteq> 0x1999999999999999 \<or> c > 0x35))"

definition add64 :: "jnum \<Rightarrow> byte \<Rightarrow> jnum" where
  "add64 n c = n \<lparr> n_i64 := n_i64 n * 10 + ucast (c - 0x30), n_significandDigit := n_significandDigit n + 1 \<rparr>"

definition addDouble :: "jnum \<Rightarrow> byte \<Rightarrow> jnum" where
  "addDouble n c = n \<lparr> n_d := double_plus (double_times (n_d n) (double_of_int 10)) (double_of_int (uint (c - 0x30))) \<rparr>"

text \<open>The stages of \<^verbatim>\<open>ParseNumber\<close>: 32 bits, 64 bits, a big integer, the fraction and the exponent.\<close>

definition json_int32 :: "bool \<Rightarrow> jr \<Rightarrow> (jnum \<times> jr) result" where
  "json_int32 neg r =
     (if jr_Peek r = 0x30 then Inr (jnum_new, snd (jr_Get r))
      else if is_digit (jr_Peek r) then
        (case jr_Get r of (c, r1) \<Rightarrow>
           then_r (digits (stop32 neg) (\<lambda>n c. Inr (add32 n c)) (jnum_new \<lparr> n_i := ucast (c - 0x30) \<rparr>) r1)
             (\<lambda>((n, broke), r2). Inr (if broke then n \<lparr> n_i64 := ucast (n_i n), n_use64bit := True \<rparr> else n, r2)))
      else Inl AnyRpcErrorValueInvalid)"

definition json_int64 :: "bool \<Rightarrow> jnum \<Rightarrow> jr \<Rightarrow> (jnum \<times> jr) result" where
  "json_int64 neg n r =
     (if n_use64bit n then
        then_r (digits (stop64 neg) (\<lambda>n c. Inr (add64 n c)) n r)
          (\<lambda>((n, broke), r). Inr (if broke then n \<lparr> n_d := double_of_int (uint (n_i64 n)), n_useDouble := True \<rparr> else n, r))
      else Inr (n, r))"

definition json_bigint :: "jnum \<Rightarrow> jr \<Rightarrow> (jnum \<times> jr) result" where
  "json_bigint n r =
     (if n_useDouble n then
        then_r (digits (\<lambda>n c. False) (\<lambda>n c.
          if double_ge (n_d n) (double_of_ratio False (17976931348623157 * 10 ^ 291, 1)) then Inl AnyRpcErrorNumberTooBig
          else Inr (addDouble n c)) n r) (\<lambda>((n, _), r). Inr (n, r))
      else Inr (n, r))"

definition frac_body :: "jnum \<Rightarrow> byte \<Rightarrow> jnum" where
  "frac_body n c =
     (let n' = n \<lparr> n_i64 := n_i64 n * 10 + ucast (c - 0x30), n_expFrac := n_expFrac n - 1 \<rparr>
      in if n_i64 n' \<noteq> 0 then n' \<lparr> n_significandDigit := n_significandDigit n' + 1 \<rparr> else n')"

definition fracDouble_body :: "jnum \<Rightarrow> byte \<Rightarrow> jnum" where
  "fracDouble_body n c =
     (if n_significandDigit n < 17 then
        (let n' = (addDouble n c) \<lparr> n_expFrac := n_expFrac n - 1 \<rparr>
         in if \<not> double_is_zero (n_d n') then n' \<lparr> n_significandDigit := n_significandDigit n' + 1 \<rparr> else n')
      else n)"

definition json_frac :: "jnum \<Rightarrow> jr \<Rightarrow> (jnum \<times> jr) result" where
  "json_frac n r =
     (if jr_Peek r = 0x2E then
        (case jr_Get r of (_, r1) \<Rightarrow>
           check_that (is_digit (jr_Peek r1)) AnyRpcErrorNumberMissFraction
             (then_r
               (if \<not> n_useDouble n then
                  then_r (digits (\<lambda>n c. n_i64 n > 0x1FFFFFFFFFFFFF) (\<lambda>n c. Inr (frac_body n c))
                      (if \<not> n_use64bit n then n \<lparr> n_i64 := ucast (n_i n) \<rparr> else n) r1)
                    (\<lambda>((n, _), r). Inr (n \<lparr> n_d := double_of_int (uint (n_i64 n)), n_useDouble := True \<rparr>, r))
                else Inr (n, r1))
               (\<lambda>(n, r). then_r (digits (\<lambda>n c. False) (\<lambda>n c. Inr (fracDouble_body n c)) n r)
                  (\<lambda>((n, _), r). Inr (n, r)))))
      else Inr (n, r))"

text \<open>The exponent is an \<^verbatim>\<open>int\<close>; with a minus sign its size is not checked, and it may overflow.\<close>

definition exp_body :: "bool \<Rightarrow> jnum \<Rightarrow> byte \<Rightarrow> jnum result" where
  "exp_body expMinus n c =
     (let e = n_exp n * 10 + int (digit_val c) in
      if e \<ge> 2 ^ 31 then Inl UndefinedBehaviour
      else if e > 308 \<and> \<not> expMinus then Inl AnyRpcErrorNumberTooBig
      else Inr (n \<lparr> n_exp := e \<rparr>))"

definition json_exp :: "jnum \<Rightarrow> jr \<Rightarrow> (jnum \<times> jr) result" where
  "json_exp n r =
     (if jr_Peek r = 0x65 \<or> jr_Peek r = 0x45 then
        (let n1 = (if \<not> n_useDouble n
               then n \<lparr> n_d := double_of_int (if n_use64bit n then uint (n_i64 n) else uint (n_i n)), n_useDouble := True \<rparr>
               else n);
             r1 = snd (jr_Get r);
             expMinus = (jr_Peek r1 \<noteq> 0x2B \<and> jr_Peek r1 = 0x2D);
             r2 = (if jr_Peek r1 = 0x2B \<or> jr_Peek r1 = 0x2D then snd (jr_Get r1) else r1)
         in if is_digit (jr_Peek r2) then
              (case jr_Get r2 of (c, r3) \<Rightarrow>
                 then_r (digits (\<lambda>n c. False) (exp_body expMinus) (n1 \<lparr> n_exp := int (digit_val c) \<rparr>) r3)
                   (\<lambda>((n, _), r). Inr (if expMinus then n \<lparr> n_exp := - n_exp n \<rparr> else n, r)))
            else Inl AnyRpcErrorNumberMissExponent)
      else Inr (n, r))"

text \<open>The event; the negation of the smallest \<^verbatim>\<open>int\<close> or \<^verbatim>\<open>int64_t\<close> overflows.\<close>

definition json_number_event :: "bool \<Rightarrow> jnum \<Rightarrow> event result" where
  "json_number_event neg n =
     (if n_useDouble n then
        then_r (StrtodNormalPrecision (n_d n) (n_exp n + n_expFrac n)) (\<lambda>d.
          Inr (EvDouble (if neg then double_uminus d else d)))
      else if n_use64bit n then
        (if neg then (if n_i64 n = 2 ^ 63 then Inl UndefinedBehaviour else Inr (EvInt64 (- n_i64 n)))
         else Inr (EvUint64 (n_i64 n)))
      else
        (if neg then (if n_i n = 2 ^ 31 then Inl UndefinedBehaviour else Inr (EvInt (- n_i n)))
         else Inr (EvUint (n_i n))))"

definition json_ParseNumber :: "jr \<Rightarrow> jr producer" where
  "json_ParseNumber r =
     (let neg = (jr_Peek r = 0x2D); r1 = (if neg then snd (jr_Get r) else r) in
      then_p (lift_r
        (then_r (json_int32 neg r1) (\<lambda>(n, r).
         then_r (json_int64 neg n r) (\<lambda>(n, r).
         then_r (json_bigint n r) (\<lambda>(n, r).
         then_r (json_frac n r) (\<lambda>(n, r).
         then_r (json_exp n r) (\<lambda>(n, r).
         then_r (json_number_event neg n) (\<lambda>e. Inr (e, r)))))))))
        (\<lambda>(e, r). emit [e] r))"

section \<open>Values\<close>

text \<open>\<open>json_members\<close> and \<open>json_elements\<close> are the loops of \<^verbatim>\<open>ParseMap\<close> and \<^verbatim>\<open>ParseArray\<close>.\<close>

definition jr_Skip :: "jr \<Rightarrow> jr producer" where "jr_Skip r = lift_r (jr_SkipWhiteSpace r)"

fun json_ParseValue :: "nat \<Rightarrow> jr \<Rightarrow> jr producer"
and json_members :: "nat \<Rightarrow> nat \<Rightarrow> jr \<Rightarrow> jr producer"
and json_elements :: "nat \<Rightarrow> nat \<Rightarrow> jr \<Rightarrow> jr producer" where
  "json_ParseValue 0 r = throw OutOfFuel"
| "json_ParseValue (Suc k) r =
     (let c = jr_Peek r in
      if c = 0x6E then json_ParseNull r
      else if c = 0x74 then json_ParseTrue r
      else if c = 0x66 then json_ParseFalse r
      else if c = 0x22 then json_ParseString r
      else if c = 0x7B then
        then_p (emit [EvStartMap None] (snd (jr_Get r))) (\<lambda>r1.
          then_p (jr_Skip r1) (\<lambda>r2.
            if jr_Peek r2 = 0x7D then emit [EvEndMap 0] (snd (jr_Get r2)) else json_members k 0 r2))
      else if c = 0x5B then
        then_p (emit [EvStartArray None] (snd (jr_Get r))) (\<lambda>r1.
          then_p (jr_Skip r1) (\<lambda>r2.
            if jr_Peek r2 = 0x5D then emit [EvEndArray 0] (snd (jr_Get r2)) else json_elements k 0 r2))
      else json_ParseNumber r)"
| "json_members 0 memberCount r = throw OutOfFuel"
| "json_members (Suc k) memberCount r =
     (if jr_Peek r \<noteq> 0x22 then throw AnyRpcErrorObjectMissName
      else then_p (json_ParseKey r) (\<lambda>r1.
        then_p (jr_Skip r1) (\<lambda>r2.
          case jr_Get r2 of (c, r3) \<Rightarrow>
            if c \<noteq> 0x3A then throw AnyRpcErrorObjectMissColon
            else then_p (jr_Skip r3) (\<lambda>r4.
              then_p (json_ParseValue k r4) (\<lambda>r5.
                then_p (jr_Skip r5) (\<lambda>r6.
                  case jr_Get r6 of (c, r7) \<Rightarrow>
                    if c = 0x2C then
                      then_p (jr_Skip r7) (\<lambda>r8. then_p (emit [EvMapSeparator] r8) (json_members k (Suc memberCount)))
                    else if c = 0x7D then emit [EvEndMap (Suc memberCount)] r7
                    else throw AnyRpcErrorObjectMissCommaOrCurlyBracket))))))"
| "json_elements 0 elementCount r = throw OutOfFuel"
| "json_elements (Suc k) elementCount r =
     then_p (json_ParseValue k r) (\<lambda>r1.
       then_p (jr_Skip r1) (\<lambda>r2.
         case jr_Get r2 of (c, r3) \<Rightarrow>
           if c = 0x2C then
             then_p (jr_Skip r3) (\<lambda>r4. then_p (emit [EvArraySeparator] r4) (json_elements k (Suc elementCount)))
           else if c = 0x5D then emit [EvEndArray (Suc elementCount)] r3
           else throw AnyRpcErrorArrayMissCommaOrSquareBracket))"

definition json_fuel :: "jr \<Rightarrow> nat" where "json_fuel r = 2 * length (jr_left r) + 1"

definition json_ParseStream :: "jr \<Rightarrow> jr producer" where
  "json_ParseStream r =
     then_p (jr_Skip r) (\<lambda>r1. if \<not> st_Eof (jr_is r1) then json_ParseValue (json_fuel r1) r1 else emit [] r1)"

definition JsonReader_ParseStream ::
    "('h \<Rightarrow> event \<Rightarrow> 'h result) \<Rightarrow> jr \<Rightarrow> 'h \<Rightarrow> ('h \<times> err option) result" where
  "JsonReader_ParseStream step r h = parse_document step (json_ParseStream r) h"

section \<open>Decoding strings, as a function of the text\<close>

text \<open>
  What the string parser computes, on the bytes that are left, without streams: the decoded string
  and what follows the closing quotation mark, or the error. Behind the end there are nulls.
\<close>

definition next_byte :: "bytes \<Rightarrow> byte" where "next_byte xs = (case xs of [] \<Rightarrow> 0 | c # _ \<Rightarrow> c)"

fun decode_hex :: "nat \<Rightarrow> u32 \<Rightarrow> bytes \<Rightarrow> (u32 \<times> bytes) result" where
  "decode_hex 0 codepoint xs = Inr (codepoint, xs)"
| "decode_hex (Suc i) codepoint xs =
     (case hex_value (next_byte xs) of
        Some v \<Rightarrow> decode_hex i (push_bit 4 codepoint + v) (tl xs)
      | None \<Rightarrow> Inl AnyRpcErrorStringUnicodeEscapeInvalid)"

definition decode_trail :: "u32 \<Rightarrow> bytes \<Rightarrow> (u32 \<times> bytes) result" where
  "decode_trail codepoint ys =
     (if next_byte ys = 0x5C \<and> next_byte (tl ys) = 0x75 then
        then_r (decode_hex 4 0 (tl (tl ys))) (\<lambda>(codepoint2, zs).
          if codepoint2 < 0xDC00 \<or> codepoint2 > 0xDFFF then Inl AnyRpcErrorStringUnicodeSurrogateInvalid
          else Inr ((push_bit 10 (codepoint - 0xD800) OR (codepoint2 - 0xDC00)) + 0x10000, zs))
      else Inl AnyRpcErrorStringUnicodeSurrogateInvalid)"

definition decode_codepoint :: "bytes \<Rightarrow> (u32 \<times> bytes) result" where
  "decode_codepoint xs =
     then_r (decode_hex 4 0 xs) (\<lambda>(codepoint, ys).
       if 0xD800 \<le> codepoint \<and> codepoint \<le> 0xDBFF then decode_trail codepoint ys else Inr (codepoint, ys))"

lemma hex_value_0 [simp]: "hex_value 0 = None"
  by (simp add: hex_value_def)

lemma next_byte_simps [simp]: "next_byte [] = 0" "next_byte (c # cs) = c"
  by (simp_all add: next_byte_def)

lemma decode_hex_length: "decode_hex n u xs = Inr (v, ys) \<Longrightarrow> length xs = n + length ys"
proof (induction n arbitrary: u xs)
  case (Suc n)
  then show ?case by (cases xs) (auto split: option.splits)
qed simp

lemma decode_trail_length: "decode_trail u xs = Inr (v, ys) \<Longrightarrow> length ys \<le> length xs"
  by (auto simp: decode_trail_def split: if_splits dest: decode_hex_length)

lemma decode_codepoint_length:
  assumes "decode_codepoint xs = Inr (v, ys)"
  shows "length ys + 4 \<le> length xs"
proof -
  from assms obtain u zs where u: "decode_hex 4 0 xs = Inr (u, zs)"
    "(if 0xD800 \<le> u \<and> u \<le> 0xDBFF then decode_trail u zs else Inr (u, zs)) = Inr (v, ys)"
    unfolding decode_codepoint_def then_r_Inr by auto
  with decode_hex_length [OF u(1)] decode_trail_length [of u zs v ys] show ?thesis
    by (cases "0xD800 \<le> u \<and> u \<le> 0xDBFF") simp_all
qed

function json_decode :: "bytes \<Rightarrow> (bytes \<times> bytes) result" where
  "json_decode xs =
     (case xs of
        [] \<Rightarrow> Inl AnyRpcErrorStringMissingQuotationMark
      | c # cs \<Rightarrow>
          if c = 0x5C then
            (if json_unescape_char (next_byte cs) \<noteq> 0
             then then_r (json_decode (tl cs)) (\<lambda>(s, rest). Inr (json_unescape_char (next_byte cs) # s, rest))
             else if next_byte cs = 0x75
             then (case decode_codepoint (tl cs) of
                 Inl e \<Rightarrow> Inl e
               | Inr (codepoint, ys) \<Rightarrow> then_r (json_decode ys) (\<lambda>(s, rest). Inr (EncodeUtf8 codepoint @ s, rest)))
             else Inl AnyRpcErrorStringEscapeInvalid)
          else if c = 0x22 then Inr ([], cs)
          else if c = 0 then Inl AnyRpcErrorStringMissingQuotationMark
          else if c < 0x20 then Inl AnyRpcErrorStringEscapeInvalid
          else then_r (json_decode cs) (\<lambda>(s, rest). Inr (c # s, rest)))"
  by pat_completeness auto
termination by (relation "measure length") (auto dest: decode_codepoint_length)

declare json_decode.simps [simp del]

lemma json_decode_Nil [simp]: "json_decode [] = Inl AnyRpcErrorStringMissingQuotationMark"
  by (simp add: json_decode.simps)

lemma json_decode_Cons:
  "json_decode (c # cs) =
     (if c = 0x5C then
        (if json_unescape_char (next_byte cs) \<noteq> 0
         then then_r (json_decode (tl cs)) (\<lambda>(s, rest). Inr (json_unescape_char (next_byte cs) # s, rest))
         else if next_byte cs = 0x75
         then (case decode_codepoint (tl cs) of
             Inl e \<Rightarrow> Inl e
           | Inr (codepoint, ys) \<Rightarrow> then_r (json_decode ys) (\<lambda>(s, rest). Inr (EncodeUtf8 codepoint @ s, rest)))
         else Inl AnyRpcErrorStringEscapeInvalid)
      else if c = 0x22 then Inr ([], cs)
      else if c = 0 then Inl AnyRpcErrorStringMissingQuotationMark
      else if c < 0x20 then Inl AnyRpcErrorStringEscapeInvalid
      else then_r (json_decode cs) (\<lambda>(s, rest). Inr (c # s, rest)))"
  by (subst json_decode.simps) simp

section \<open>The string parser computes that function, in place or not\<close>

definition jr_ok :: "jr \<Rightarrow> bool" where
  "jr_ok r \<longleftrightarrow> st_ok (jr_is r) \<and> (jr_inSitu r \<longrightarrow> (\<exists>s. jr_is r = InSituStream s))"

definition jr_same :: "jr \<Rightarrow> jr \<Rightarrow> bool" where
  "jr_same r r' \<longleftrightarrow> jr_ok r' \<and> jr_inSitu r' = jr_inSitu r \<and> jr_copy r' = jr_copy r"

text \<open>
  In place, \<open>os_room n\<close>: the write position is at least \<open>n\<close> behind the read position.
\<close>

fun os_room :: "nat \<Rightarrow> jr_os \<Rightarrow> bool" where
  "os_room n (r, str) \<longleftrightarrow> st_ok (jr_is r) \<and> (jr_inSitu r \<longrightarrow>
     (\<exists>s d. jr_is r = InSituStream s \<and> iss_writing s \<and> iss_dst s = Some d \<and> d + n \<le> iss_src s))"

fun os_text :: "jr_os \<Rightarrow> bytes" where
  "os_text (r, str) = (if jr_inSitu r then (case jr_is r of InSituStream s \<Rightarrow> iss_written s | _ \<Rightarrow> []) else str)"

fun os_begin :: "jr_os \<Rightarrow> nat option" where
  "os_begin (r, str) = (case jr_is r of InSituStream s \<Rightarrow> iss_begin s | _ \<Rightarrow> None)"

definition os_same :: "jr_os \<Rightarrow> jr_os \<Rightarrow> bool" where
  "os_same a b \<longleftrightarrow> jr_inSitu (fst b) = jr_inSitu (fst a) \<and> jr_copy (fst b) = jr_copy (fst a) \<and> os_begin b = os_begin a"

lemma os_same_trans: "os_same a b \<Longrightarrow> os_same b c \<Longrightarrow> os_same a c"
  by (simp add: os_same_def)

lemma os_same_refl [simp]: "os_same a a"
  by (simp add: os_same_def)

lemma jr_Peek_left: "st_ok (jr_is r) \<Longrightarrow> jr_Peek r = next_byte (jr_left r)"
  using st.peek_left by (simp add: jr_Peek_def jr_left_def next_byte_def)

lemma os_begin_get: "os_begin (r \<lparr> jr_is := snd (st_Get (jr_is r)) \<rparr>, str) = os_begin (r, str)"
  by (cases "jr_is r") (auto simp: iss_Get_def)

lemma os_get:
  assumes "os_room n (r, str)"
  shows "\<exists>r'. jr_Get r = (next_byte (jr_left r), r') \<and> jr_left r' = tl (jr_left r)
    \<and> os_room (if jr_left r = [] then n else Suc n) (r', str) \<and> os_text (r', str) = os_text (r, str)
    \<and> os_same (r, str) (r', str)"
proof -
  let ?r = "r \<lparr> jr_is := snd (st_Get (jr_is r)) \<rparr>"
  from assms have ok: "st_ok (jr_is r)" by simp
  have g: "jr_Get r = (next_byte (jr_left r), ?r)" "jr_left ?r = tl (jr_left r)" "st_ok (jr_is ?r)"
    using st.get_char [OF ok] st.get_left [OF ok] st.get_ok [OF ok]
    by (auto simp: jr_Get_def jr_left_def next_byte_def split: prod.splits)
  have same: "os_same (r, str) (?r, str)" using os_begin_get [of r str] by (simp add: os_same_def)
  have "os_room (if jr_left r = [] then n else Suc n) (?r, str) \<and> os_text (?r, str) = os_text (r, str)"
  proof (cases "jr_inSitu r")
    case True
    with assms obtain s d where s: "jr_is r = InSituStream s" "iss_writing s" "iss_dst s = Some d" "d + n \<le> iss_src s"
      by auto
    then have e: "iss_Eof s \<longleftrightarrow> jr_left r = []" using iss_left_Nil [of s] by (simp add: jr_left_def iss_writing_def)
    show ?thesis
    proof (cases "iss_Eof s")
      case True
      then have "?r = r" using s(1) by (simp add: iss_Get_def)
      then show ?thesis using assms e True by (simp del: os_room.simps)
    next
      case False
      then have "iss_dst (snd (iss_Get s)) = Some d" "iss_src (snd (iss_Get s)) = Suc (iss_src s)"
        using s(3) by (simp_all add: iss_Get_def)
      with iss_Get_writing [OF s(2) False] False e s(1,4) g(3) show ?thesis by simp
    qed
  qed (use g(3) in simp)
  with g same show ?thesis by blast
qed

lemma os_put_room:
  assumes "os_room (Suc n) os"
  shows "\<exists>os'. os_put c os = Inr os' \<and> jr_left (fst os') = jr_left (fst os) \<and> os_room n os'
    \<and> os_text os' = os_text os @ [c] \<and> os_same os os'"
proof -
  obtain r str where os: "os = (r, str)" by (cases os)
  show ?thesis
  proof (cases "jr_inSitu r")
    case True
    with assms os obtain s d where s: "jr_is r = InSituStream s" "iss_writing s" "iss_dst s = Some d" "d + Suc n \<le> iss_src s"
      by auto
    from iss_put_char_safe [OF s(2), of c] s(3,4) obtain s' where
      s': "iss_put_char s c = Inr s'" "iss_writing s'" "iss_left s' = iss_left s" "iss_written s' = iss_written s @ [c]"
        "iss_src s' = iss_src s" by auto
    from s'(1) s(3,4) have "iss_dst s' = Some (Suc d)" "iss_begin s' = iss_begin s"
      by (auto simp: iss_put_char_def split: if_splits)
    moreover have "iss_ok s'" using s'(2) by (simp add: iss_writing_def)
    ultimately show ?thesis using s s' True
      by (intro exI [of _ "(r \<lparr> jr_is := InSituStream s' \<rparr>, str)"]) (simp add: os os_put_def jr_left_def os_same_def)
  next
    case False
    with assms show ?thesis by (auto simp: os os_put_def wstr_put_char_def os_same_def)
  qed
qed

lemma os_puts_room:
  "os_room (length cs + n) os \<Longrightarrow> \<exists>os'. os_puts cs os = Inr os' \<and> jr_left (fst os') = jr_left (fst os) \<and> os_room n os'
    \<and> os_text os' = os_text os @ cs \<and> os_same os os'"
proof (induction cs arbitrary: os)
  case (Cons c cs)
  then have "os_room (Suc (length cs + n)) os" by simp
  from os_put_room [OF this, of c] obtain os1 where os1: "os_put c os = Inr os1" "jr_left (fst os1) = jr_left (fst os)"
    "os_room (length cs + n) os1" "os_text os1 = os_text os @ [c]" "os_same os os1" by blast
  from Cons.IH [OF os1(3)] obtain os' where "os_puts cs os1 = Inr os'" "jr_left (fst os') = jr_left (fst os1)"
    "os_room n os'" "os_text os' = os_text os1 @ cs" "os_same os1 os'" by blast
  with os1 os_same_trans [OF os1(5)] show ?case by simp
qed simp

declare os_room.simps [simp del] os_text.simps [simp del] os_begin.simps [simp del]

text \<open>Reading, with room for as many bytes as are taken.\<close>

definition os_reads :: "nat \<Rightarrow> jr_os \<Rightarrow> bytes \<Rightarrow> jr_os \<Rightarrow> bool" where
  "os_reads n os rest os' \<longleftrightarrow> jr_left (fst os') = rest \<and> os_room n os' \<and> os_text os' = os_text os \<and> os_same os os'"

lemma os_reads_trans: "os_reads m a xs b \<Longrightarrow> os_reads n b ys c \<Longrightarrow> os_reads n a ys c"
  by (auto simp: os_reads_def intro: os_same_trans)

lemma os_get_Cons:
  assumes "os_room n (r, str)" "jr_left r = c # cs"
  obtains r' where "jr_Get r = (c, r')" "os_reads (Suc n) (r, str) cs (r', str)"
  using os_get [OF assms(1)] assms(2) by (auto simp: os_reads_def)

lemma os_get_Nil:
  assumes "os_room n (r, str)" "jr_left r = []"
  obtains r' where "jr_Get r = (0, r')" "os_reads n (r, str) [] (r', str)"
  using os_get [OF assms(1)] assms(2) by (auto simp: os_reads_def)

lemma os_reads_room: "os_reads n os xs os' \<Longrightarrow> os_room n os'" "os_reads n os xs (r, str) \<Longrightarrow> jr_left r = xs"
  by (auto simp: os_reads_def)

lemma hex_loop_decode:
  "os_room n (r, str) \<Longrightarrow>
     (case decode_hex k u (jr_left r) of
        Inl e \<Rightarrow> hex_loop k u r = Inl e
      | Inr (v, ys) \<Rightarrow> \<exists>r'. hex_loop k u r = Inr (v, r') \<and> os_reads (n + k) (r, str) ys (r', str))"
proof (induction k arbitrary: n u r)
  case 0
  then show ?case by (auto simp: os_reads_def)
next
  case (Suc k)
  show ?case
  proof (cases "jr_left r")
    case Nil
    from os_get_Nil [OF Suc.prems this] obtain r1 where "jr_Get r = (0, r1)" .
    with Nil show ?thesis by simp
  next
    case (Cons c cs)
    from os_get_Cons [OF Suc.prems Cons] obtain r1 where r1: "jr_Get r = (c, r1)" "os_reads (Suc n) (r, str) cs (r1, str)" .
    show ?thesis
    proof (cases "hex_value c")
      case None
      then show ?thesis using r1(1) Cons by simp
    next
      case (Some v)
      let ?u = "push_bit 4 u + v"
      have e: "decode_hex (Suc k) u (jr_left r) = decode_hex k ?u cs" "hex_loop (Suc k) u r = hex_loop k ?u r1"
        using Some Cons r1(1) by simp_all
      from Suc.IH [OF os_reads_room(1) [OF r1(2)], of ?u] os_reads_room(2) [OF r1(2)]
      have IH: "case decode_hex k ?u cs of
          Inl e \<Rightarrow> hex_loop k ?u r1 = Inl e
        | Inr (v, ys) \<Rightarrow> \<exists>r'. hex_loop k ?u r1 = Inr (v, r') \<and> os_reads (Suc n + k) (r1, str) ys (r', str)" by simp
      show ?thesis
      proof (cases "decode_hex k ?u cs")
        case (Inl a)
        then show ?thesis using IH unfolding e by simp
      next
        case (Inr p)
        obtain w ys where p: "p = (w, ys)" by (cases p)
        with IH Inr obtain r' where "hex_loop k ?u r1 = Inr (w, r')" "os_reads (Suc n + k) (r1, str) ys (r', str)" by auto
        with os_reads_trans [OF r1(2) this(2)] show ?thesis unfolding e by (simp add: Inr p)
      qed
    qed
  qed
qed

lemma os_room_mono: "os_room n os \<Longrightarrow> m \<le> n \<Longrightarrow> os_room m os"
  by (cases os) (fastforce simp: os_room.simps)

lemma os_reads_mono: "os_reads n a xs b \<Longrightarrow> m \<le> n \<Longrightarrow> os_reads m a xs b"
  by (auto simp: os_reads_def intro: os_room_mono)

lemma os_get_next:
  assumes "os_room n (r, str)"
  obtains r' where "jr_Get r = (next_byte (jr_left r), r')" "os_reads n (r, str) (tl (jr_left r)) (r', str)"
proof -
  from os_get [OF assms] obtain r' where r': "jr_Get r = (next_byte (jr_left r), r')" "jr_left r' = tl (jr_left r)"
    "os_room (if jr_left r = [] then n else Suc n) (r', str)" "os_text (r', str) = os_text (r, str)"
    "os_same (r, str) (r', str)" by blast
  from os_room_mono [OF r'(3), of n] have "os_room n (r', str)" by (simp split: if_splits)
  with r' show thesis by (intro that) (auto simp: os_reads_def)
qed

lemma ParseTrail_decode:
  assumes "os_room n (r, str)"
  shows "case decode_trail u (jr_left r) of
      Inl e \<Rightarrow> ParseTrail u r = Inl e
    | Inr (v, ys) \<Rightarrow> \<exists>r'. ParseTrail u r = Inr (v, r') \<and> os_reads n (r, str) ys (r', str)"
proof -
  from os_get_next [OF assms] obtain r1 where
    r1: "jr_Get r = (next_byte (jr_left r), r1)" "os_reads n (r, str) (tl (jr_left r)) (r1, str)" .
  from os_get_next [OF os_reads_room(1) [OF r1(2)]] os_reads_room(2) [OF r1(2)] obtain r2 where
    r2: "jr_Get r1 = (next_byte (tl (jr_left r)), r2)" "os_reads n (r1, str) (tl (tl (jr_left r))) (r2, str)" by metis
  have r02: "os_reads n (r, str) (tl (tl (jr_left r))) (r2, str)" using os_reads_trans [OF r1(2) r2(2)] .
  show ?thesis
  proof (cases "next_byte (jr_left r) = 0x5C \<and> next_byte (tl (jr_left r)) = 0x75")
    case False
    then show ?thesis using r1(1) r2(1) by (auto simp: ParseTrail_def decode_trail_def)
  next
    case True
    note h = hex_loop_decode [OF os_reads_room(1) [OF r2(2)], of 4 0, unfolded os_reads_room(2) [OF r2(2)]]
    show ?thesis
    proof (cases "decode_hex 4 0 (tl (tl (jr_left r)))")
      case (Inl e)
      then show ?thesis using h True r1(1) r2(1) by (simp add: ParseTrail_def decode_trail_def ParseHex4_def)
    next
      case (Inr p)
      obtain v ys where p: "p = (v, ys)" by (cases p)
      with Inr h obtain r3 where r3: "hex_loop 4 0 r2 = Inr (v, r3)" "os_reads (n + 4) (r2, str) ys (r3, str)" by auto
      have "os_reads n (r, str) ys (r3, str)" using os_reads_mono [OF os_reads_trans [OF r02 r3(2)]] by simp
      then show ?thesis using Inr p r3(1) True r1(1) r2(1) by (simp add: ParseTrail_def decode_trail_def ParseHex4_def)
    qed
  qed
qed

lemma ParseCodepoint_decode:
  assumes "os_room n (r, str)"
  shows "case decode_codepoint (jr_left r) of
      Inl e \<Rightarrow> ParseCodepoint r = Inl e
    | Inr (v, ys) \<Rightarrow> \<exists>r'. ParseCodepoint r = Inr (v, r') \<and> os_reads (n + 4) (r, str) ys (r', str)"
proof (cases "decode_hex 4 0 (jr_left r)")
  case (Inl e)
  with hex_loop_decode [OF assms, of 4 0] show ?thesis by (simp add: ParseCodepoint_def ParseHex4_def decode_codepoint_def)
next
  case (Inr p)
  obtain u zs where p: "p = (u, zs)" by (cases p)
  with Inr hex_loop_decode [OF assms, of 4 0] obtain r1 where
    r1: "hex_loop 4 0 r = Inr (u, r1)" "os_reads (n + 4) (r, str) zs (r1, str)" by auto
  have t: "case decode_trail u zs of
      Inl e \<Rightarrow> ParseTrail u r1 = Inl e
    | Inr (v, ys) \<Rightarrow> \<exists>r'. ParseTrail u r1 = Inr (v, r') \<and> os_reads (n + 4) (r, str) ys (r', str)"
    using ParseTrail_decode [OF os_reads_room(1) [OF r1(2)], of u, unfolded os_reads_room(2) [OF r1(2)]]
    by (auto split: sum.splits intro: os_reads_trans [OF r1(2)])
  show ?thesis
  proof (cases "0xD800 \<le> u \<and> u \<le> 0xDBFF")
    case True
    then have "decode_codepoint (jr_left r) = decode_trail u zs" "ParseCodepoint r = ParseTrail u r1"
      using Inr p r1(1) by (simp_all add: ParseCodepoint_def ParseHex4_def decode_codepoint_def)
    then show ?thesis using t by (auto split: sum.splits)
  next
    case False
    then have "decode_codepoint (jr_left r) = Inr (u, zs)" "ParseCodepoint r = Inr (u, r1)"
      using Inr p r1(1) unfolding ParseCodepoint_def ParseHex4_def decode_codepoint_def
      by (simp_all only: then_r.simps prod.case if_False)
    then show ?thesis using r1(2) by simp
  qed
qed

lemma EncodeUtf8_length: "length (EncodeUtf8 u) \<le> 4"
  by (simp add: EncodeUtf8_def)

definition decodes :: "nat \<Rightarrow> jr_os \<Rightarrow> (bytes \<times> bytes) result \<Rightarrow> bool" where
  "decodes k os d \<longleftrightarrow>
     (case d of
        Inl e \<Rightarrow> ParseStringToStream k os = Inl e
      | Inr (s, rest) \<Rightarrow> \<exists>os'. ParseStringToStream k os = Inr os' \<and> jr_left (fst os') = rest \<and> os_room 0 os'
          \<and> os_text os' = os_text os @ s @ [0] \<and> os_same os os')"

lemma decodes_step:
  assumes "ParseStringToStream (Suc k) os = ParseStringToStream k os1" "decodes k os1 d"
    and "os_text os1 = os_text os @ pre" "os_same os os1"
  shows "decodes (Suc k) os (then_r d (\<lambda>(s, rest). Inr (pre @ s, rest)))"
  using assms(2)
proof (cases d)
  case (Inr p)
  obtain s rest where p: "p = (s, rest)" by (cases p)
  with Inr assms(2) obtain os' where "ParseStringToStream k os1 = Inr os'" "jr_left (fst os') = rest" "os_room 0 os'"
    "os_text os' = os_text os1 @ s @ [0]" "os_same os1 os'" by (auto simp: decodes_def)
  with assms(1,3) os_same_trans [OF assms(4)] show ?thesis by (simp add: decodes_def Inr p del: ParseStringToStream.simps)
qed (simp add: decodes_def assms(1) del: ParseStringToStream.simps)

lemma ParseStringToStream_decode:
  "os_room 0 (r, str) \<Longrightarrow> length (jr_left r) < k \<Longrightarrow> decodes k (r, str) (json_decode (jr_left r))"
proof (induction k arbitrary: r str)
  case (Suc k)
  have peek: "jr_Peek r = next_byte (jr_left r)" using Suc.prems(1) jr_Peek_left by (simp add: os_room.simps)
  show ?case
  proof (cases "jr_left r")
    case Nil
    then show ?thesis using peek by (simp add: decodes_def)
  next
    case (Cons c cs)
    note d = json_decode_Cons
    from os_get_Cons [OF Suc.prems(1) Cons] obtain r1 where
      r1: "jr_Get r = (c, r1)" "os_reads (Suc 0) (r, str) cs (r1, str)" .
    from r1(2) have g1: "os_room (Suc 0) (r1, str)" "jr_left r1 = cs" "os_text (r1, str) = os_text (r, str)"
      "os_same (r, str) (r1, str)" by (simp_all add: os_reads_def)
    have len: "length cs < k" using Suc.prems(2) Cons by simp
    have put: "\<exists>os1. os_put b os = Inr os1 \<and> jr_left (fst os1) = jr_left (fst os) \<and> os_room 0 os1
        \<and> os_text os1 = os_text os @ [b] \<and> os_same os os1" if "os_room (Suc 0) os" for b os
      using os_put_room [OF that] .
    consider (Esc) "c = 0x5C" | (End) "c = 0x22" | (Null) "c = 0" | (Control) "c < 0x20" "c \<noteq> 0"
      | (Plain) "c \<noteq> 0x5C" "c \<noteq> 0x22" "c \<noteq> 0" "\<not> c < 0x20" by blast
    then show ?thesis
    proof cases
      case End
      from put [OF g1(1), of 0] obtain os1 where os1: "os_put 0 (r1, str) = Inr os1" "jr_left (fst os1) = cs"
        "os_room 0 os1" "os_text os1 = os_text (r, str) @ [0]" "os_same (r1, str) os1" using g1 by auto
      then show ?thesis using peek Cons r1(1) End os_same_trans [OF g1(4) os1(5)] by (simp add: decodes_def d)
    next
      case Null
      then show ?thesis using peek Cons by (simp add: decodes_def d)
    next
      case Control
      then have "c \<noteq> 0x5C" "c \<noteq> 0x22" by auto
      then show ?thesis using peek Cons Control by (simp add: decodes_def d)
    next
      case Plain
      from put [OF g1(1), of c] obtain r2 str2 where os1: "os_put c (r1, str) = Inr (r2, str2)" "jr_left r2 = cs"
        "os_room 0 (r2, str2)" "os_text (r2, str2) = os_text (r, str) @ [c]" "os_same (r1, str) (r2, str2)" using g1 by auto
      have "ParseStringToStream (Suc k) (r, str) = ParseStringToStream k (r2, str2)"
        using peek Cons Plain r1(1) os1(1) by simp
      from decodes_step [OF this Suc.IH [OF os1(3)] os1(4) os_same_trans [OF g1(4) os1(5)]] os1(2) len
      show ?thesis using Plain Cons by (simp add: d)
    next
      case Esc
      from os_get_next [OF g1(1)] g1(2) obtain r2 where
        r2: "jr_Get r1 = (next_byte cs, r2)" "os_reads (Suc 0) (r1, str) (tl cs) (r2, str)" by metis
      from r2(2) have g2: "os_room (Suc 0) (r2, str)" "jr_left r2 = tl cs" "os_text (r2, str) = os_text (r, str)"
        "os_same (r, str) (r2, str)" using g1 os_same_trans [OF g1(4)] by (simp_all add: os_reads_def)
      have len2: "length (tl cs) < k" using len by simp
      consider (Char) "json_unescape_char (next_byte cs) \<noteq> 0"
        | (Uni) "json_unescape_char (next_byte cs) = 0" "next_byte cs = 0x75"
        | (Bad) "json_unescape_char (next_byte cs) = 0" "next_byte cs \<noteq> 0x75" by blast
      then show ?thesis
      proof cases
        case Bad
        then show ?thesis using peek Cons Esc r1(1) r2(1) by (simp add: decodes_def d)
      next
        case Char
        let ?b = "json_unescape_char (next_byte cs)"
        from put [OF g2(1), of ?b] obtain r3 str3 where os1: "os_put ?b (r2, str) = Inr (r3, str3)" "jr_left r3 = tl cs"
          "os_room 0 (r3, str3)" "os_text (r3, str3) = os_text (r, str) @ [?b]" "os_same (r2, str) (r3, str3)" using g2 by auto
        have "ParseStringToStream (Suc k) (r, str) = ParseStringToStream k (r3, str3)"
          using peek Cons Esc Char r1(1) r2(1) os1(1) by simp
        from decodes_step [OF this Suc.IH [OF os1(3)] os1(4) os_same_trans [OF g2(4) os1(5)]] os1(2) len2
        show ?thesis using Esc Char Cons by (simp add: d)
      next
        case Uni
        show ?thesis
        proof (cases "decode_codepoint (tl cs)")
          case (Inl e)
          with ParseCodepoint_decode [OF g2(1)] g2(2) have "ParseCodepoint r2 = Inl e" by simp
          then show ?thesis using peek Cons Esc Uni r1(1) r2(1) Inl by (simp add: decodes_def d)
        next
          case (Inr p)
          obtain u ys where p: "p = (u, ys)" by (cases p)
          with Inr ParseCodepoint_decode [OF g2(1)] g2(2) obtain r3 where
            r3: "ParseCodepoint r2 = Inr (u, r3)" "os_reads (Suc 0 + 4) (r2, str) ys (r3, str)" by auto
          have "os_room (length (EncodeUtf8 u) + 0) (r3, str)"
            by (rule os_room_mono [OF os_reads_room(1) [OF r3(2)]]) (use EncodeUtf8_length [of u] in simp)
          from os_puts_room [OF this] os_reads_room(2) [OF r3(2)] obtain r4 str4 where
            os1: "os_puts (EncodeUtf8 u) (r3, str) = Inr (r4, str4)" "jr_left r4 = ys" "os_room 0 (r4, str4)"
              "os_text (r4, str4) = os_text (r3, str) @ EncodeUtf8 u" "os_same (r3, str) (r4, str4)" by auto
          have t: "os_text (r4, str4) = os_text (r, str) @ EncodeUtf8 u" "os_same (r, str) (r4, str4)"
            using os1(4) r3(2) g2(3) os_same_trans [OF os_same_trans [OF g2(4)] os1(5)] by (simp_all add: os_reads_def)
          have "length ys < k" using decode_codepoint_length Inr p len2 by fastforce
          have "ParseStringToStream (Suc k) (r, str) = ParseStringToStream k (r4, str4)"
            using peek Cons Esc Uni r1(1) r2(1) r3(1) os1(1) by simp
          note step = this decodes_step [OF _ Suc.IH [OF os1(3)] t]
          have "decodes (Suc k) (r, str) (then_r (json_decode ys) (\<lambda>(s, rest). Inr (EncodeUtf8 u @ s, rest)))"
            using step(2) [OF step(1)] os1(2) \<open>length ys < k\<close> by (simp del: ParseStringToStream.simps)
          then show ?thesis using Esc Uni Cons Inr p by (simp add: d)
        qed
      qed
    qed
  qed
qed simp

declare ParseStringToStream.simps [simp del]

lemma iss_PutEnd_region:
  assumes "iss_writing s" "iss_begin s = Some b" "iss_written s = w"
  shows "fst (iss_PutEnd s) = length w" "take (length w) (drop b (iss_mem (snd (iss_PutEnd s)))) = w"
    "length w \<le> length (drop b (iss_mem (snd (iss_PutEnd s))))"
    "iss_left (snd (iss_PutEnd s)) = iss_left s" "iss_ok (snd (iss_PutEnd s))"
proof -
  from assms(1,2) obtain d where d: "iss_dst s = Some d" "b \<le> d" "d \<le> iss_src s" "iss_ok s" by (auto simp: iss_writing_def)
  then have "d \<le> length (iss_mem s)" by (simp add: iss_ok_def)
  moreover from assms(2,3) d(1) have w: "take (d - b) (drop b (iss_mem s)) = w" by (simp add: iss_written_def)
  ultimately have "length w = d - b" using d(2) by (auto simp: min_def)
  with w d assms(2) show "fst (iss_PutEnd s) = length w" "take (length w) (drop b (iss_mem (snd (iss_PutEnd s)))) = w"
    "length w \<le> length (drop b (iss_mem (snd (iss_PutEnd s))))"
    "iss_left (snd (iss_PutEnd s)) = iss_left s" "iss_ok (snd (iss_PutEnd s))"
    using diff_le_mono [OF \<open>d \<le> length (iss_mem s)\<close>, of b] by (simp_all add: iss_PutEnd_def iss_left_def iss_ok_def)
qed

lemma jr_get_Cons:
  assumes "jr_ok r" "jr_left r = c # cs"
  obtains r' where "jr_Get r = (c, r')" "jr_left r' = cs" "jr_same r r'"
proof -
  from assms(1) have ok: "st_ok (jr_is r)" by (simp add: jr_ok_def)
  from st_Get_cases [OF ok] obtain d s' where s': "st_Get (jr_is r) = (d, s')" "st_ok s'"
    "st_kind s' = st_kind (jr_is r)" "st_left s' = tl (st_left (jr_is r))"
    "d = (case st_left (jr_is r) of [] \<Rightarrow> 0 | c # _ \<Rightarrow> c)" .
  with assms st_kind_InSitu_stream [OF s'(3)] show thesis
    by (intro that [of "r \<lparr> jr_is := s' \<rparr>"]) (auto simp: jr_Get_def jr_left_def jr_same_def jr_ok_def)
qed

lemma json_string_decode:
  assumes "jr_ok r" "jr_left r = 0x22 # xs"
  shows "case json_decode xs of
      Inl e \<Rightarrow> json_string ev r = ([], Inl e)
    | Inr (s, rest) \<Rightarrow> \<exists>mem copy r'. json_string ev r = ([ev mem (length s) copy], Inr r')
        \<and> string_event s mem (length s) copy \<and> jr_left r' = rest \<and> jr_same r r'"
proof -
  from jr_get_Cons [OF assms] obtain r1 where r1: "jr_Get r = (0x22, r1)" "jr_left r1 = xs" "jr_same r r1" .
  have peek: "jr_Peek r = 0x22" using assms jr_Peek_left by (simp add: jr_ok_def)
  have ok1: "jr_ok r1" "jr_inSitu r1 = jr_inSitu r" "jr_copy r1 = jr_copy r" using r1(3) by (simp_all add: jr_same_def)
  let ?k = "Suc (length xs)"
  show ?thesis
  proof (cases "jr_inSitu r")
    case True
    with ok1 obtain s where s: "jr_is r1 = InSituStream s" "iss_ok s" by (auto simp: jr_ok_def)
    let ?b = "iss_src s"
    obtain s1 where p: "iss_PutBegin s = (?b, s1)" "iss_dst s1 = Some ?b" "iss_src s1 = ?b" "iss_begin s1 = Some ?b"
      by (simp add: iss_PutBegin_def)
    let ?r = "r1 \<lparr> jr_is := InSituStream s1 \<rparr>"
    from iss_PutBegin_writing [OF s(2)] p(1) have w: "iss_writing s1" "iss_written s1 = []" "iss_left s1 = iss_left s"
      by simp_all
    have "os_room 0 (?r, [])" using w p by (simp add: os_room.simps iss_writing_def)
    moreover have left: "jr_left ?r = xs" using w(3) s(1) r1(2) by (simp add: jr_left_def)
    ultimately have d: "decodes ?k (?r, []) (json_decode xs)" using ParseStringToStream_decode [of ?r "[]" ?k] by simp
    show ?thesis
    proof (cases "json_decode xs")
      case (Inl e)
      then show ?thesis using d peek r1 s(1) p(1) True ok1 by (simp add: decodes_def json_string_def throw_def)
    next
      case (Inr q)
      obtain t rest where q: "q = (t, rest)" by (cases q)
      with Inr d obtain r2 str2 where r2: "ParseStringToStream ?k (?r, []) = Inr (r2, str2)" "jr_left r2 = rest"
        "os_room 0 (r2, str2)" "os_text (r2, str2) = os_text (?r, []) @ t @ [0]" "os_same (?r, []) (r2, str2)"
        by (auto simp: decodes_def)
      from r2(5) True ok1 have f2: "jr_inSitu r2" "jr_copy r2 = jr_copy r" "os_begin (r2, str2) = Some ?b"
        using p(4) by (simp_all add: os_same_def os_begin.simps)
      with r2(3) obtain s2 where s2: "jr_is r2 = InSituStream s2" "iss_writing s2" "iss_begin s2 = Some ?b"
        by (auto simp: os_room.simps os_begin.simps)
      have "iss_written s2 = t @ [0]" using r2(4) f2(1) s2(1) w(2) True ok1(2) by (simp add: os_text.simps)
      note e = iss_PutEnd_region [OF s2(2,3) this]
      let ?mem = "drop ?b (iss_mem (snd (iss_PutEnd s2)))"
      let ?r3 = "r2 \<lparr> jr_is := InSituStream (snd (iss_PutEnd s2)) \<rparr>"
      obtain zs where mem: "?mem = (t @ [0]) @ zs" using e(2) append_take_drop_id [of "length (t @ [0])" ?mem] by metis
      have "string_event t ?mem (length t) (jr_copy r2)" unfolding mem by (simp add: string_event_def)
      moreover have "json_string ev r = ([ev ?mem (length t) (jr_copy r2)], Inr ?r3)"
        using peek r1 s(1) p(1) True ok1 r2(1) s2(1) e(1)
        by (cases "iss_PutEnd s2") (simp add: json_string_def emit_def)
      moreover have "jr_left ?r3 = rest" using e(4) r2(2) s2(1) by (simp add: jr_left_def)
      moreover have "jr_same r ?r3" using e(5) f2 True by (simp add: jr_same_def jr_ok_def)
      ultimately show ?thesis using Inr q by auto
    qed
  next
    case False
    have "os_room 0 (r1, [])" using ok1 False by (simp add: os_room.simps jr_ok_def)
    then have d: "decodes ?k (r1, []) (json_decode xs)" using ParseStringToStream_decode [of r1 "[]" ?k] r1(2) by simp
    show ?thesis
    proof (cases "json_decode xs")
      case (Inl e)
      then show ?thesis using d peek r1 False ok1 by (simp add: decodes_def json_string_def throw_def)
    next
      case (Inr q)
      obtain t rest where q: "q = (t, rest)" by (cases q)
      with Inr d obtain r2 str2 where r2: "ParseStringToStream ?k (r1, []) = Inr (r2, str2)" "jr_left r2 = rest"
        "os_room 0 (r2, str2)" "os_text (r2, str2) = os_text (r1, []) @ t @ [0]" "os_same (r1, []) (r2, str2)"
        by (auto simp: decodes_def)
      from r2(5) False ok1 have f2: "\<not> jr_inSitu r2" "jr_copy r2 = jr_copy r" by (simp_all add: os_same_def)
      then have "str2 = t @ [0]" using r2(4) False ok1(2) by (simp add: os_text.simps)
      moreover have "jr_same r r2" using r2(3) f2 False by (simp add: jr_same_def jr_ok_def os_room.simps)
      moreover have "json_string ev r = ([ev str2 (length str2 - 1) True], Inr r2)"
        using peek r1 False ok1 r2(1) by (simp add: json_string_def emit_def)
      ultimately show ?thesis using Inr q r2(2) string_event_copy [of t] by fastforce
    qed
  qed
qed

end
