(* ===== verification/AnyRpc_JsonRoundTrip.thy ===== *)
theory AnyRpc_JsonRoundTrip
  imports AnyRpc_JsonWriter AnyRpc_JsonReader AnyRpc_Unicode
begin

text \<open>
  The JSON reader on the output of the JSON writer: strings in both encodings, numbers, and whole
  values in any layout.
\<close>

section \<open>UTF-8 the other way round\<close>

lemma cont_table: "\<forall>n \<in> set [0..<256]. is_cont (word_of_nat n) \<longrightarrow>
    128 \<le> n \<and> n < 192 \<and> unat (cont_bits (word_of_nat n)) = n - 128"
  by code_simp

lemma lead_tables:
  "\<forall>n \<in> set [192..<224]. unat (ucast (word_of_nat n AND (0x1F :: byte)) :: u32) = n - 192"
  "\<forall>n \<in> set [224..<240]. unat (ucast (word_of_nat n AND (0x0F :: byte)) :: u32) = n - 224"
  "\<forall>n \<in> set [240..<248]. unat (ucast (word_of_nat n AND (0x07 :: byte)) :: u32) = n - 240"
  by code_simp+

lemma cont_nat:
  assumes "is_cont c"
  shows "\<exists>t < 64. unat c = 128 + t \<and> unat (cont_bits c) = t"
proof -
  have w: "word_of_nat (unat c) = c" by simp
  have "unat c \<in> set [0..<256]" unfolding set_upt atLeastLessThan_iff by simp
  from bspec [OF cont_table this] assms show ?thesis unfolding w by (intro exI [of _ "unat c - 128"]) linarith
qed

lemma lead_nat:
  "\<not> c < 0xC0 \<Longrightarrow> c < 0xE0 \<Longrightarrow> \<exists>h < 32. unat c = 192 + h \<and> unat (ucast (c AND 0x1F) :: u32) = h"
  "\<not> c < 0xE0 \<Longrightarrow> c < 0xF0 \<Longrightarrow> \<exists>h < 16. unat c = 224 + h \<and> unat (ucast (c AND 0x0F) :: u32) = h"
  "\<not> c < 0xF0 \<Longrightarrow> c < 0xF8 \<Longrightarrow> \<exists>h < 8. unat c = 240 + h \<and> unat (ucast (c AND 0x07) :: u32) = h"
  for c :: byte
proof -
  have w: "word_of_nat (unat c) = c" by simp
  note t = lead_tables [THEN bspec, of "unat c", unfolded w set_upt atLeastLessThan_iff]
  show "\<not> c < 0xC0 \<Longrightarrow> c < 0xE0 \<Longrightarrow> \<exists>h < 32. unat c = 192 + h \<and> unat (ucast (c AND 0x1F) :: u32) = h"
    using t(1) unfolding word_less_nat_alt by (intro exI [of _ "unat c - 192"]) simp
  show "\<not> c < 0xE0 \<Longrightarrow> c < 0xF0 \<Longrightarrow> \<exists>h < 16. unat c = 224 + h \<and> unat (ucast (c AND 0x0F) :: u32) = h"
    using t(2) unfolding word_less_nat_alt by (intro exI [of _ "unat c - 224"]) simp
  show "\<not> c < 0xF0 \<Longrightarrow> c < 0xF8 \<Longrightarrow> \<exists>h < 8. unat c = 240 + h \<and> unat (ucast (c AND 0x07) :: u32) = h"
    using t(3) unfolding word_less_nat_alt by (intro exI [of _ "unat c - 240"]) simp
qed

lemma low_table: "\<forall>i \<in> set [0..<64]. unat (put_byte (0x80 OR word_of_nat i)) = 128 + i"
  by code_simp

lemma put_low: "unat (put_byte (0x80 OR (v AND 0x3F))) = 128 + unat v mod 64"
proof -
  have w: "word_of_nat (unat (v AND 0x3F)) = v AND 0x3F" by simp
  have "unat (v AND 0x3F) \<in> set [0..<64]" unfolding set_upt atLeastLessThan_iff unat_and_3F by simp
  from bspec [OF low_table this, unfolded w] show ?thesis by (simp only: unat_and_3F)
qed

lemma put_wc: "put_byte u = wc_byte u"
  by (simp add: put_byte_def wc_byte_def)

lemma put_lead:
  "unat u < 0x800 \<Longrightarrow> unat (put_byte (0xC0 OR (drop_bit 6 u AND 0xFF))) = 192 + unat u div 64"
  "unat u < 0x10000 \<Longrightarrow> unat (put_byte (0xE0 OR (drop_bit 12 u AND 0xFF))) = 224 + unat u div 4096"
  "unat u < 0x200000 \<Longrightarrow> unat (put_byte (0xF0 OR (drop_bit 18 u AND 0xFF))) = 240 + unat u div 262144"
proof -
  have q: "unat (drop_bit s u AND 0xFF) = n" if "unat u div 2 ^ s = n" "n < 256" for s n
    using that by (simp add: unat_and_FF unat_shift_right)
  show "unat u < 0x800 \<Longrightarrow> unat (put_byte (0xC0 OR (drop_bit 6 u AND 0xFF))) = 192 + unat u div 64"
    using q [of 6 "unat u div 64"] lead_C0(1) [of "drop_bit 6 u AND 0xFF"] unfolding put_wc by simp
  show "unat u < 0x10000 \<Longrightarrow> unat (put_byte (0xE0 OR (drop_bit 12 u AND 0xFF))) = 224 + unat u div 4096"
    using q [of 12 "unat u div 4096"] lead_E0(1) [of "drop_bit 12 u AND 0xFF"] unfolding put_wc by simp
  show "unat u < 0x200000 \<Longrightarrow> unat (put_byte (0xF0 OR (drop_bit 18 u AND 0xFF))) = 240 + unat u div 262144"
    using q [of 18 "unat u div 262144"] lead_F0(1) [of "drop_bit 18 u AND 0xFF"] unfolding put_wc by simp
qed

lemma digits64:
  fixes h t v w :: nat
  assumes "t < 64" "v < 64" "w < 64"
  shows "(h * 64 + t) div 64 = h" "(h * 64 + t) mod 64 = t"
    "(h * 4096 + t * 64 + v) div 4096 = h" "(h * 4096 + t * 64 + v) div 64 mod 64 = t" "(h * 4096 + t * 64 + v) mod 64 = v"
    "(h * 262144 + t * 4096 + v * 64 + w) div 262144 = h" "(h * 262144 + t * 4096 + v * 64 + w) div 4096 mod 64 = t"
    "(h * 262144 + t * 4096 + v * 64 + w) div 64 mod 64 = v" "(h * 262144 + t * 4096 + v * 64 + w) mod 64 = w"
proof -
  have d: "(a * 64 + b) div 64 = a" "(a * 64 + b) mod 64 = b" if "b < 64" for a b :: nat using that by simp_all
  have e: "h * 4096 + t * 64 + v = (h * 64 + t) * 64 + v"
    "h * 262144 + t * 4096 + v * 64 + w = ((h * 64 + t) * 64 + v) * 64 + w" by simp_all
  have q: "n div 4096 = n div 64 div 64" "n div 262144 = n div 64 div 64 div 64" for n :: nat
    by (simp_all flip: div_mult2_eq)
  show "(h * 64 + t) div 64 = h" "(h * 64 + t) mod 64 = t"
    "(h * 4096 + t * 64 + v) div 4096 = h" "(h * 4096 + t * 64 + v) div 64 mod 64 = t" "(h * 4096 + t * 64 + v) mod 64 = v"
    "(h * 262144 + t * 4096 + v * 64 + w) div 262144 = h" "(h * 262144 + t * 4096 + v * 64 + w) div 4096 mod 64 = t"
    "(h * 262144 + t * 4096 + v * 64 + w) div 64 mod 64 = v" "(h * 262144 + t * 4096 + v * 64 + w) mod 64 = w"
    unfolding e q by (simp_all only: d assms)
qed

lemma EncodeUtf8_Decode:
  assumes "DecodeUtf8 c cs = Inr (u, k)"
  shows "k \<le> length cs" "EncodeUtf8 u = c # take k cs" "unat u < 0x200000"
proof -
  have "k \<le> length cs \<and> EncodeUtf8 u = c # take k cs \<and> unat u < 0x200000"
  proof -
    from assms consider (2) "\<not> c < 0xC0" "c < 0xE0" | (3) "\<not> c < 0xE0" "c < 0xF0" | (4) "\<not> c < 0xF0" "c < 0xF8"
      by (auto simp: DecodeUtf8_def split: if_splits)
    then show ?thesis
    proof cases
      case 2
      with assms obtain c2 ds where cs: "cs = c2 # ds" "is_cont c2" "k = 1"
        "u = push_bit 6 (ucast (c AND 0x1F)) + cont_bits c2" "\<not> u < 0x80"
        by (auto simp: DecodeUtf8_def Let_def split: if_splits list.splits)
      from lead_nat(1) [OF 2] obtain h where h: "h < 32" "unat c = 192 + h" "unat (ucast (c AND 0x1F) :: u32) = h" by blast
      from cont_nat [OF cs(2)] obtain t where t: "t < 64" "unat c2 = 128 + t" "unat (cont_bits c2) = t" by blast
      have u: "unat u = h * 64 + t" using h t by (simp add: cs(4) unat_word_ariths unat_shift_left)
      have r: "\<not> u \<le> 0x7F" "u \<le> 0x7FF" using u h(1) t(1) cs(5) by (simp_all add: word_le_nat_alt word_less_nat_alt)
      have "unat u < 0x800" "unat u div 64 = h" "unat u mod 64 = t"
        using h(1) t(1) unfolding u by (simp, simp_all only: digits64)
      then have "EncodeUtf8 u = [c, c2]" using r h(2) t(2) by (simp add: EncodeUtf8_def word_unat_eq_iff put_low put_lead(1))
      then show ?thesis using cs u h(1) t(1) by simp
    next
      case 3
      then have c0: "\<not> c < 0xC0" by (simp add: word_less_nat_alt)
      with 3 assms obtain c2 c3 ds where cs: "cs = c2 # c3 # ds" "is_cont c2" "is_cont c3" "k = 2"
        "u = push_bit 12 (ucast (c AND 0x0F)) + push_bit 6 (cont_bits c2) + cont_bits c3" "\<not> u < 0x800"
        by (auto simp: DecodeUtf8_def Let_def split: if_splits list.splits)
      from lead_nat(2) [OF 3] obtain h where h: "h < 16" "unat c = 224 + h" "unat (ucast (c AND 0x0F) :: u32) = h" by blast
      from cont_nat [OF cs(2)] obtain t where t: "t < 64" "unat c2 = 128 + t" "unat (cont_bits c2) = t" by blast
      from cont_nat [OF cs(3)] obtain v where v: "v < 64" "unat c3 = 128 + v" "unat (cont_bits c3) = v" by blast
      have u: "unat u = h * 4096 + t * 64 + v" using h t v by (simp add: cs(5) unat_word_ariths unat_shift_left)
      have r: "\<not> u \<le> 0x7F" "\<not> u \<le> 0x7FF" "u \<le> 0xFFFF" using u h(1) t(1) v(1) cs(6)
        by (simp_all add: word_le_nat_alt word_less_nat_alt)
      have "unat u div 4096 = h" "unat u div 64 mod 64 = t" "unat u mod 64 = v" "unat u < 0x10000"
        using h(1) t(1) v(1) unfolding u by (simp_all only: digits64)
      then have "EncodeUtf8 u = [c, c2, c3]" using r h(2) t(2) v(2)
        by (simp add: EncodeUtf8_def word_unat_eq_iff put_low put_lead(2) unat_shift_right)
      then show ?thesis using cs u h(1) t(1) v(1) by simp
    next
      case 4
      then have c0: "\<not> c < 0xC0" "\<not> c < 0xE0" by (simp_all add: word_less_nat_alt)
      with 4 assms obtain c2 c3 c4 ds where cs: "cs = c2 # c3 # c4 # ds" "is_cont c2" "is_cont c3" "is_cont c4" "k = 3"
        "u = push_bit 18 (ucast (c AND 0x07)) + push_bit 12 (cont_bits c2) + push_bit 6 (cont_bits c3) + cont_bits c4"
        "\<not> u < 0x10000"
        by (auto simp: DecodeUtf8_def Let_def split: if_splits list.splits)
      from lead_nat(3) [OF 4] obtain h where h: "h < 8" "unat c = 240 + h" "unat (ucast (c AND 0x07) :: u32) = h" by blast
      from cont_nat [OF cs(2)] obtain t where t: "t < 64" "unat c2 = 128 + t" "unat (cont_bits c2) = t" by blast
      from cont_nat [OF cs(3)] obtain v where v: "v < 64" "unat c3 = 128 + v" "unat (cont_bits c3) = v" by blast
      from cont_nat [OF cs(4)] obtain w where w: "w < 64" "unat c4 = 128 + w" "unat (cont_bits c4) = w" by blast
      have u: "unat u = h * 262144 + t * 4096 + v * 64 + w" using h t v w by (simp add: cs(6) unat_word_ariths unat_shift_left)
      have r: "\<not> u \<le> 0x7F" "\<not> u \<le> 0x7FF" "\<not> u \<le> 0xFFFF" using u h(1) t(1) v(1) w(1) cs(7)
        by (simp_all add: word_le_nat_alt word_less_nat_alt)
      have "unat u div 262144 = h" "unat u div 4096 mod 64 = t" "unat u div 64 mod 64 = v" "unat u mod 64 = w" "unat u < 0x200000"
        using h(1) t(1) v(1) w(1) unfolding u by (simp_all only: digits64)
      then have "EncodeUtf8 u = [c, c2, c3, c4]" using r h(2) t(2) v(2) w(2)
        by (simp add: EncodeUtf8_def word_unat_eq_iff put_low put_lead(3) unat_shift_right)
      then show ?thesis using cs u h(1) t(1) v(1) w(1) by simp
    qed
  qed
  then show "k \<le> length cs" "EncodeUtf8 u = c # take k cs" "unat u < 0x200000" by blast+
qed

section \<open>Escapes\<close>

lemma hex_table: "\<forall>n \<in> set [0..<16]. hex_value (hexDigits ! n) = Some (word_of_nat n)"
  by code_simp

lemma hex_value_digit: "hex_value (hex_digit w s) = Some (word_of_nat (unat w div 2 ^ s mod 16))"
proof -
  have m: "unat (drop_bit s w AND 0xF) = unat w div 2 ^ s mod 16"
    using unat_and_mask [of "drop_bit s w" 4] by (simp add: mask_eq_exp_minus_1 unat_shift_right)
  have "unat w div 2 ^ s mod 16 \<in> set [0..<16]" unfolding set_upt atLeastLessThan_iff by simp
  from bspec [OF hex_table this] show ?thesis by (simp only: hex_digit_def m)
qed

lemma hex_step: "unat v < 2 ^ 24 \<Longrightarrow> n < 16 \<Longrightarrow> unat (push_bit 4 v + word_of_nat n :: u32) = unat v * 16 + n"
  by (simp add: unat_word_ariths unat_shift_left unsigned_of_nat take_bit_nat_eq_self)

lemma digits16_join: "((f * 16 + e) * 16 + c) * 16 + a = x" if "x = 16 * b + a" "b = 16 * d + c" "d = 16 * f + e" for a b c d e f x :: nat
  using that by simp

lemma digits16: "((n div 4096 mod 16 * 16 + n div 256 mod 16) * 16 + n div 16 mod 16) * 16 + n mod 16 = n mod 65536"
  for n :: nat
proof -
  have q: "n div 256 = n div 16 div 16" using div_mult2_eq [of n 16 16] by simp
  have q': "n div 4096 = n div 256 div 16" using div_mult2_eq [of n 256 16] by simp
  have m1: "n mod 65536 = 16 * (n div 16 mod 4096) + n mod 16" using mod_mult2_eq [of n 16 4096] by simp
  have m2: "n div 16 mod 4096 = 16 * (n div 256 mod 256) + n div 16 mod 16"
    unfolding q using mod_mult2_eq [of "n div 16" 16 256] by simp
  have m3: "n div 256 mod 256 = 16 * (n div 4096 mod 16) + n div 256 mod 16"
    unfolding q' using mod_mult2_eq [of "n div 256" 16 16] by simp
  show ?thesis using m1 m2 m3 digits16_join by blast
qed

definition hex4 :: "u32 \<Rightarrow> bytes" where
  "hex4 u = [hex_digit u 12, hex_digit u 8, hex_digit u 4, hex_digit u 0]"

lemma put_hex4_text [simp]: "concat (map put_bytes (put_hex4 u)) = hex4 u"
  by (simp add: put_hex4_def hex4_def)

lemma hex4_value:
  assumes "a < 16" "b < 16" "c < 16" "d < 16"
  shows "unat (push_bit 4 (push_bit 4 (push_bit 4 (push_bit 4 0 + word_of_nat a) + word_of_nat b) + word_of_nat c)
    + word_of_nat d :: u32) = ((a * 16 + b) * 16 + c) * 16 + d"
proof -
  have 1: "unat (push_bit 4 0 + word_of_nat a :: u32) = a" using hex_step [of 0 a] assms(1) by simp
  have 2: "unat (push_bit 4 (push_bit 4 0 + word_of_nat a) + word_of_nat b :: u32) = a * 16 + b"
    using assms by (subst hex_step) (simp_all only: 1, simp_all)
  have 3: "unat (push_bit 4 (push_bit 4 (push_bit 4 0 + word_of_nat a) + word_of_nat b) + word_of_nat c :: u32)
      = (a * 16 + b) * 16 + c"
    using assms by (subst hex_step) (simp_all only: 2, simp_all)
  show ?thesis using assms by (subst hex_step) (simp_all only: 3, simp_all)
qed

lemma decode_hex4: "\<exists>v. decode_hex 4 0 (hex4 u @ ys) = Inr (v, ys) \<and> unat v = unat u mod 65536"
proof -
  have d: "hex_value (hex_digit u 12) = Some (word_of_nat (unat u div 4096 mod 16))"
    "hex_value (hex_digit u 8) = Some (word_of_nat (unat u div 256 mod 16))"
    "hex_value (hex_digit u 4) = Some (word_of_nat (unat u div 16 mod 16))"
    "hex_value (hex_digit u 0) = Some (word_of_nat (unat u mod 16))"
    using hex_value_digit [of u 12] hex_value_digit [of u 8] hex_value_digit [of u 4] hex_value_digit [of u 0] by simp_all
  have f: "decode_hex 4 0 (c1 # c2 # c3 # c4 # ys)
      = Inr (push_bit 4 (push_bit 4 (push_bit 4 (push_bit 4 0 + v1) + v2) + v3) + v4, ys)"
    if "hex_value c1 = Some v1" "hex_value c2 = Some v2" "hex_value c3 = Some v3" "hex_value c4 = Some v4" for c1 c2 c3 c4 v1 v2 v3 v4
    using that by (simp add: numeral_eq_Suc del: push_bit_of_0)
  have "hex4 u @ ys = hex_digit u 12 # hex_digit u 8 # hex_digit u 4 # hex_digit u 0 # ys" by (simp add: hex4_def)
  then have e: "decode_hex 4 0 (hex4 u @ ys) = Inr (push_bit 4 (push_bit 4 (push_bit 4 (push_bit 4 0
      + word_of_nat (unat u div 4096 mod 16)) + word_of_nat (unat u div 256 mod 16)) + word_of_nat (unat u div 16 mod 16))
      + word_of_nat (unat u mod 16), ys)" by (simp only: f [OF d])
  have l: "n mod 16 < (16 :: nat)" for n by simp
  show ?thesis by (intro exI conjI, rule e) (rule trans [OF hex4_value [OF l l l l] digits16])
qed

lemma decode_hex4_small:
  assumes "unat u < 65536"
  shows "decode_hex 4 0 (hex4 u @ ys) = Inr (u, ys)"
proof -
  from decode_hex4 [of u ys] obtain v where "decode_hex 4 0 (hex4 u @ ys) = Inr (v, ys)" "unat v = unat u mod 65536" by blast
  with assms show ?thesis by (simp add: word_unat_eq_iff)
qed

text \<open>A code point as the writer escapes it.\<close>

lemma decode_put_codepoint:
  assumes "put_codepoint u = Inr qs" "unat u < 0x200000"
  shows "\<exists>zs. concat (map put_bytes qs) = 0x5C # 0x75 # zs \<and> decode_codepoint (zs @ ys) = Inr (u, ys)"
proof (cases "u \<le> 0xD7FF \<or> 0xE000 \<le> u \<and> u \<le> 0xFFFF")
  case True
  then have u: "unat u < 65536" "\<not> (0xD800 \<le> u \<and> u \<le> 0xDBFF)" by (auto simp: word_le_nat_alt)
  have "decode_codepoint (hex4 u @ ys) = Inr (u, ys)"
    unfolding decode_codepoint_def decode_hex4_small [OF u(1)] then_r.simps prod.case if_not_P [OF u(2)] ..
  moreover have "qs = PutStr [0x5C, 0x75] # put_hex4 u"
    using assms(1) unfolding put_codepoint_def if_P [OF True] by simp
  ultimately show ?thesis by (intro exI [of _ "hex4 u"]) simp
next
  case False
  define s where "s = u - 0x10000"
  define lead where "lead = drop_bit 10 s + 0xD800"
  define trail where "trail = (s AND 0x3FF) + 0xDC00"
  from False assms(1) have u: "0x10000 \<le> u" "u \<le> 0x10FFFF"
    and qs: "qs = PutStr [0x5C, 0x75] # put_hex4 lead @ [PutChar 0x5C, PutChar 0x75] @ put_hex4 trail"
    unfolding put_codepoint_def if_not_P [OF False] by (simp_all add: Let_def s_def lead_def trail_def)
  from u have s: "unat s = unat u - 65536" "unat s < 0x100000" "65536 \<le> unat u"
    by (simp_all add: s_def unat_sub word_le_nat_alt)
  have m: "unat (s AND 0x3FF) = unat s mod 1024" using unat_and_mask [of s 10] by (simp add: mask_eq_exp_minus_1)
  have d: "unat (drop_bit 10 s) = unat s div 1024" by (simp add: unat_shift_right)
  have l: "unat lead = unat s div 1024 + 0xD800" "unat s div 1024 < 1024"
    using s(2) by (simp_all add: lead_def unat_word_ariths d)
  have t: "unat trail = unat s mod 1024 + 0xDC00" by (simp add: trail_def unat_word_ariths m)
  have lt: "unat lead < 65536" "unat trail < 65536" "0xD800 \<le> lead \<and> lead \<le> 0xDBFF" "\<not> (trail < 0xDC00 \<or> trail > 0xDFFF)"
    using l t by (simp_all add: word_le_nat_alt word_less_nat_alt)
  have "lead - 0xD800 = drop_bit 10 s" "trail - 0xDC00 = s AND 0x3FF" by (simp_all add: lead_def trail_def)
  moreover have "(push_bit 10 (drop_bit 10 s) OR (s AND mask 10)) = s"
    by (rule bit_word_eqI) (auto simp: bit_simps)
  moreover have "(mask 10 :: u32) = 0x3FF" by (simp add: mask_eq_exp_minus_1)
  ultimately have j: "(push_bit 10 (lead - 0xD800) OR (trail - 0xDC00)) + 0x10000 = u" by (simp add: s_def)
  have "decode_codepoint (hex4 lead @ 0x5C # 0x75 # hex4 trail @ ys) = Inr (u, ys)"
    using decode_hex4_small [OF lt(1), of "0x5C # 0x75 # hex4 trail @ ys"] decode_hex4_small [OF lt(2), of ys] lt(3,4) j
    by (simp add: decode_codepoint_def decode_trail_def)
  then show ?thesis by (intro exI [of _ "hex4 lead @ 0x5C # 0x75 # hex4 trail"]) (simp add: qs)
qed

lemma escape_cases:
  "json_escape c \<noteq> 0 \<Longrightarrow> json_escape c \<noteq> 0x75 \<Longrightarrow> json_unescape_char (json_escape c) = c \<and> c \<noteq> 0"
  "json_escape c = 0x75 \<Longrightarrow> c < 0x20"
  "json_escape c = 0 \<Longrightarrow> \<not> c < 0x20 \<and> c \<noteq> 0x22 \<and> c \<noteq> 0x5C"
  unfolding json_escape_def json_unescape_char_def by (simp_all split: if_splits)

lemma control_table: "\<forall>n \<in> set [0..<32]. hex4 (word_of_nat n) =
    [0x30, 0x30, hex_digit (word_of_nat n :: byte) 4, hex_digit (word_of_nat n :: byte) 0]
    \<and> EncodeUtf8 (word_of_nat n) = [word_of_nat n] \<and> unat (word_of_nat n :: u32) < 32"
  by code_simp

lemma control_escape:
  assumes "c < (0x20 :: byte)"
  shows "\<exists>u. [0x30, 0x30, hex_digit c 4, hex_digit c 0] = hex4 u \<and> EncodeUtf8 u = [c] \<and> unat u < 32"
proof -
  have w: "word_of_nat (unat c) = c" by simp
  have "unat c \<in> set [0..<32]" using assms by (simp add: word_less_nat_alt)
  from bspec [OF control_table this] show ?thesis unfolding w by (intro exI [of _ "word_of_nat (unat c)"]) simp
qed

section \<open>Strings\<close>

theorem json_decode_written:
  "jw_chars enc s = Inr ps \<Longrightarrow> json_decode (concat (map put_bytes ps) @ 0x22 # rest) = Inr (s, rest)"
proof (induction enc s arbitrary: ps rule: jw_chars.induct)
  case (1 enc)
  then show ?case by (simp add: json_decode_Cons)
next
  case (2 enc c cs)
  let ?e = "json_escape c"
  consider (esc) "?e \<noteq> 0" "?e \<noteq> 0x75" | (u) "?e = 0x75" | (utf) "?e = 0" "enc = ASCII" "c \<ge> 0x80"
    | (plain) "?e = 0" "\<not> (enc = ASCII \<and> c \<ge> 0x80)" by blast
  then show ?case
  proof cases
    case esc
    with "2.prems" obtain qs where qs: "jw_chars enc cs = Inr qs" "ps = PutChar 0x5C # PutChar ?e # qs"
      by (auto simp: Let_def split: sum.splits)
    from "2.IH"(1) [OF refl esc(1) qs(1)] escape_cases(1) [OF esc] show ?thesis by (simp add: qs(2) json_decode_Cons)
  next
    case u
    with "2.prems" obtain qs where qs: "jw_chars enc cs = Inr qs"
      "ps = PutChar 0x5C # PutChar 0x75 # [PutChar 0x30, PutChar 0x30, PutChar (hex_digit c 4), PutChar (hex_digit c 0)] @ qs"
      by (auto simp: Let_def split: sum.splits)
    from control_escape [OF escape_cases(2) [OF u]] obtain w where
      w: "[0x30, 0x30, hex_digit c 4, hex_digit c 0] = hex4 w" "EncodeUtf8 w = [c]" "unat w < 32" by blast
    let ?ys = "concat (map put_bytes qs) @ 0x22 # rest"
    have nw: "\<not> (0xD800 \<le> w \<and> w \<le> 0xDBFF)" using w(3) by (simp add: word_le_nat_alt)
    have w2: "unat w < 65536" using w(3) by simp
    have "decode_codepoint (hex4 w @ ?ys) = Inr (w, ?ys)"
      unfolding decode_codepoint_def decode_hex4_small [OF w2] then_r.simps prod.case if_not_P [OF nw] ..
    moreover have "json_decode ?ys = Inr (cs, rest)" using "2.IH"(1) [OF u [symmetric] _ qs(1)] u by simp
    moreover have "concat (map put_bytes ps) @ 0x22 # rest = 0x5C # 0x75 # hex4 w @ ?ys" unfolding qs(2) w(1) [symmetric] by simp
    moreover have "json_unescape_char 0x75 = 0" by (simp add: json_unescape_char_def)
    ultimately show ?thesis by (simp add: json_decode_Cons w(2))
  next
    case utf
    with "2.prems" obtain v k qs rs where q: "DecodeUtf8 c cs = Inr (v, k)" "put_codepoint v = Inr qs"
      "jw_chars enc (drop k cs) = Inr rs" "ps = qs @ rs"
      by (auto simp: Let_def split: sum.splits)
    let ?ys = "concat (map put_bytes rs) @ 0x22 # rest"
    from decode_put_codepoint [OF q(2) EncodeUtf8_Decode(3) [OF q(1)], of ?ys] obtain zs where
      zs: "concat (map put_bytes qs) = 0x5C # 0x75 # zs" "decode_codepoint (zs @ ?ys) = Inr (v, ?ys)" by blast
    have "json_decode ?ys = Inr (drop k cs, rest)" using 2 utf q by simp
    moreover have "json_unescape_char 0x75 = 0" by (simp add: json_unescape_char_def)
    ultimately show ?thesis using zs EncodeUtf8_Decode(2) [OF q(1)] by (simp add: q(4) json_decode_Cons)
  next
    case plain
    with "2.prems" obtain qs where qs: "jw_chars enc cs = Inr qs" "ps = PutChar c # qs"
      by (auto simp: Let_def split: sum.splits)
    from escape_cases(3) [OF plain(1)] have c: "\<not> c < 0x20" "c \<noteq> 0x22" "c \<noteq> 0x5C" "c \<noteq> 0" by auto
    have "json_decode (concat (map put_bytes qs) @ 0x22 # rest) = Inr (cs, rest)" using 2 plain qs by simp
    with c show ?thesis by (simp add: qs(2) json_decode_Cons)
  qed
qed

end
