(* ===== verification/AnyRpc_JsonText.thy ===== *)
theory AnyRpc_JsonText
  imports AnyRpc_JsonRoundTrip
begin

text \<open>
  The JSON reader on whole texts: \<open>json_form\<close> is the grammar of the texts of a value, with white
  space wherever JSON has it; the reader produces the events of the value from each of them, and
  the writer writes such a text. Floating-point numbers are not part of the grammar.
\<close>

section \<open>Taking digits\<close>

lemma jr_ok_Peek: "jr_ok r \<Longrightarrow> jr_Peek r = next_byte (jr_left r)"
  using jr_Peek_left by (simp add: jr_ok_def)

lemma jr_same_refl [simp]: "jr_ok r \<Longrightarrow> jr_same r r"
  by (simp add: jr_same_def)

lemma jr_same_trans: "jr_same a b \<Longrightarrow> jr_same b c \<Longrightarrow> jr_same a c"
  by (simp add: jr_same_def)

lemma jr_same_ok: "jr_same r r' \<Longrightarrow> jr_ok r'"
  by (simp add: jr_same_def)

definition digit_end :: "bytes \<Rightarrow> bool" where "digit_end xs \<longleftrightarrow> \<not> is_digit (next_byte xs)"

definition limit32 :: "bool \<Rightarrow> nat" where "limit32 neg = (if neg then 2147483648 else 4294967295)"
definition limit64 :: "bool \<Rightarrow> nat" where "limit64 neg = (if neg then 9223372036854775808 else 18446744073709551615)"

lemma is_digit_val:
  assumes "is_digit c"
  shows "digit_val c < 10" "unat c = 48 + digit_val c" "unat (ucast (c - 0x30) :: 'a::len word) = digit_val c mod 2 ^ LENGTH('a)"
proof -
  have "48 \<le> unat c" "unat c \<le> 57" using assms by (simp_all add: is_digit_def word_le_nat_alt)
  then show "digit_val c < 10" "unat c = 48 + digit_val c" by (simp_all add: digit_val_def unat_sub word_le_nat_alt)
  show "unat (ucast (c - 0x30) :: 'a::len word) = digit_val c mod 2 ^ LENGTH('a)"
    by (simp add: digit_val_def unsigned_ucast_eq take_bit_eq_mod)
qed

lemma stop32_iff: "is_digit c \<Longrightarrow> stop32 neg n c \<longleftrightarrow> limit32 neg < unat (n_i n) * 10 + digit_val c"
  using is_digit_val(1,2) [of c]
  by (auto simp: stop32_def limit32_def word_le_nat_alt word_less_nat_alt word_unat_eq_iff)

lemma stop64_iff: "is_digit c \<Longrightarrow> stop64 neg n c \<longleftrightarrow> limit64 neg < unat (n_i64 n) * 10 + digit_val c"
  using is_digit_val(1,2) [of c]
  by (auto simp: stop64_def limit64_def word_le_nat_alt word_less_nat_alt word_unat_eq_iff)

lemma add32_val:
  assumes "is_digit c" "unat (n_i n) * 10 + digit_val c \<le> limit32 neg"
  shows "unat (n_i (add32 n c)) = unat (n_i n) * 10 + digit_val c"
proof -
  have "unat (n_i n) * 10 + digit_val c < 2 ^ 32" using assms(2) by (simp add: limit32_def split: if_splits)
  then show ?thesis using is_digit_val(3) [OF assms(1), where 'a = 32] is_digit_val(1) [OF assms(1)]
    by (simp add: add32_def unat_word_ariths mod_add_left_eq)
qed

lemma add64_val:
  assumes "is_digit c" "unat (n_i64 n) * 10 + digit_val c \<le> limit64 neg"
  shows "unat (n_i64 (add64 n c)) = unat (n_i64 n) * 10 + digit_val c"
proof -
  have "unat (n_i64 n) * 10 + digit_val c < 2 ^ 64" using assms(2) by (simp add: limit64_def split: if_splits)
  then show ?thesis using is_digit_val(3) [OF assms(1), where 'a = 64] is_digit_val(1) [OF assms(1)]
    by (simp add: add64_def unat_word_ariths mod_add_left_eq)
qed

lemma digits_val_mono: "v \<le> digits_val v ds"
proof (induction ds arbitrary: v)
  case (Cons d ds)
  from Cons [of "v * 10 + digit_val d"] show ?case by simp
qed simp

lemma digit_loop_end:
  assumes "jr_ok r" "digit_end (jr_left r)"
  shows "digit_loop (Suc k) stop body n r = Inr ((n, False), r)"
  using assms by (simp add: digit_end_def jr_ok_Peek)

lemma digit_loop_step:
  assumes "jr_ok r" "jr_left r = c # cs" "is_digit c"
  obtains r' where "jr_left r' = cs" "jr_same r r'"
    "digit_loop (Suc k) stop body n r = (if stop n c then Inr ((n, True), r) else then_r (body n c) (\<lambda>n'. digit_loop k stop body n' r'))"
proof -
  from jr_get_Cons [OF assms(1,2)] obtain r' where r': "jr_Get r = (c, r')" "jr_left r' = cs" "jr_same r r'" .
  then show thesis using that [of r'] assms by (simp add: jr_ok_Peek)
qed

declare digit_loop.simps [simp del]

lemma digit_loop32:
  assumes "\<forall>c \<in> set ds. is_digit c" "digit_end rest" "jr_ok r" "jr_left r = ds @ rest" "length ds < k"
  shows "\<exists>n' broke r' es. digit_loop k (stop32 neg) (\<lambda>n c. Inr (add32 n c)) n r = Inr ((n', broke), r')
    \<and> jr_same r r' \<and> jr_left r' = es @ rest \<and> (\<forall>c \<in> set es. is_digit c) \<and> (broke \<longleftrightarrow> es \<noteq> [])
    \<and> digits_val (unat (n_i n')) es = digits_val (unat (n_i n)) ds
    \<and> (broke \<longrightarrow> limit32 neg < digits_val (unat (n_i n)) ds)
    \<and> (\<not> broke \<longrightarrow> ds = [] \<or> unat (n_i n') \<le> limit32 neg)
    \<and> n_i64 n' = n_i64 n \<and> n_use64bit n' = n_use64bit n \<and> n_useDouble n' = n_useDouble n"
  using assms
proof (induction ds arbitrary: k n r)
  case Nil
  then obtain k' where "k = Suc k'" by (cases k) auto
  moreover have "digit_end (jr_left r)" using Nil(2,4) by simp
  ultimately have l: "digit_loop k (stop32 neg) (\<lambda>n c. Inr (add32 n c)) n r = Inr ((n, False), r)"
    using digit_loop_end [OF Nil(3)] by simp
  show ?case by (rule exI [of _ n], rule exI [of _ False], rule exI [of _ r], rule exI [of _ "[]"]) (simp add: l Nil(3,4))
next
  case (Cons c ds)
  from Cons.prems(5) obtain k' where k: "k = Suc k'" by (cases k) auto
  have c: "is_digit c" using Cons.prems(1) by simp
  have l: "jr_left r = c # ds @ rest" using Cons.prems(4) by simp
  from digit_loop_step [OF Cons.prems(3) l c] obtain r1 where
    r1: "jr_left r1 = ds @ rest" "jr_same r r1"
      "digit_loop (Suc k') (stop32 neg) (\<lambda>n c. Inr (add32 n c)) n r = (if stop32 neg n c then Inr ((n, True), r)
        else then_r (Inr (add32 n c)) (\<lambda>n'. digit_loop k' (stop32 neg) (\<lambda>n c. Inr (add32 n c)) n' r1))" .
  note r1 = r1(1,2) r1(3) [folded k, unfolded then_r.simps]
  show ?case
  proof (cases "stop32 neg n c")
    case True
    then have "limit32 neg < digits_val (unat (n_i n)) (c # ds)"
      using stop32_iff [OF c] digits_val_mono [of "unat (n_i n) * 10 + digit_val c" ds] by simp
    then show ?thesis using True r1(3) Cons.prems
      by (intro exI [of _ n] exI [of _ True] exI [of _ r] exI [of _ "c # ds"]) simp
  next
    case False
    then have le: "unat (n_i n) * 10 + digit_val c \<le> limit32 neg" using stop32_iff [OF c] by auto
    note v = add32_val [OF c le]
    have "\<forall>c \<in> set ds. is_digit c" "length ds < k'" using Cons.prems k by simp_all
    from Cons.IH [OF this(1) Cons.prems(2) jr_same_ok [OF r1(2)] r1(1) this(2), of "add32 n c"] obtain n' broke r' es where
      IH: "digit_loop k' (stop32 neg) (\<lambda>n c. Inr (add32 n c)) (add32 n c) r1 = Inr ((n', broke), r')"
        "jr_same r1 r'" "jr_left r' = es @ rest" "(\<forall>c \<in> set es. is_digit c)" "broke \<longleftrightarrow> es \<noteq> []"
        "digits_val (unat (n_i n')) es = digits_val (unat (n_i (add32 n c))) ds"
        "broke \<longrightarrow> limit32 neg < digits_val (unat (n_i (add32 n c))) ds"
        "\<not> broke \<longrightarrow> ds = [] \<or> unat (n_i n') \<le> limit32 neg"
        "n_i64 n' = n_i64 (add32 n c)" "n_use64bit n' = n_use64bit (add32 n c)" "n_useDouble n' = n_useDouble (add32 n c)"
      by (elim exE conjE) (rule that)
    have "\<not> broke \<longrightarrow> unat (n_i n') \<le> limit32 neg"
    proof
      assume b: "\<not> broke"
      show "unat (n_i n') \<le> limit32 neg"
      proof (cases "ds = []")
        case True
        with b IH(5,6) v have "unat (n_i n') = unat (n_i n) * 10 + digit_val c" by simp
        with le show ?thesis by (simp only:)
      qed (use b IH(8) in blast)
    qed
    moreover have "n_i64 (add32 n c) = n_i64 n" "n_use64bit (add32 n c) = n_use64bit n" "n_useDouble (add32 n c) = n_useDouble n"
      by (simp_all add: add32_def)
    moreover have "digit_loop k (stop32 neg) (\<lambda>n c. Inr (add32 n c)) n r = Inr ((n', broke), r')" using False r1(3) IH(1) by simp
    moreover note jr_same_trans [OF r1(2) IH(2)]
    ultimately show ?thesis using IH(3-7,9-) unfolding v digits_val.simps(2)
      by (intro exI [of _ n'] exI [of _ broke] exI [of _ r'] exI [of _ es]) simp
  qed
qed

lemma digit_loop64:
  assumes "\<forall>c \<in> set ds. is_digit c" "digit_end rest" "jr_ok r" "jr_left r = ds @ rest" "length ds < k"
    and "digits_val (unat (n_i64 n)) ds \<le> limit64 neg"
  shows "\<exists>n' r'. digit_loop k (stop64 neg) (\<lambda>n c. Inr (add64 n c)) n r = Inr ((n', False), r')
    \<and> jr_same r r' \<and> jr_left r' = rest \<and> unat (n_i64 n') = digits_val (unat (n_i64 n)) ds
    \<and> n_use64bit n' = n_use64bit n \<and> n_useDouble n' = n_useDouble n"
  using assms
proof (induction ds arbitrary: k n r)
  case Nil
  then obtain k' where "k = Suc k'" by (cases k) auto
  with Nil show ?case using digit_loop_end [OF Nil(3), of k'] by simp
next
  case (Cons c ds)
  from Cons.prems(5) obtain k' where k: "k = Suc k'" by (cases k) auto
  have c: "is_digit c" using Cons.prems(1) by simp
  have l: "jr_left r = c # ds @ rest" using Cons.prems(4) by simp
  have le: "unat (n_i64 n) * 10 + digit_val c \<le> limit64 neg"
    using digits_val_mono [of "unat (n_i64 n) * 10 + digit_val c" ds] Cons.prems(6) by simp
  from digit_loop_step [OF Cons.prems(3) l c] obtain r1 where
    r1: "jr_left r1 = ds @ rest" "jr_same r r1"
      "digit_loop (Suc k') (stop64 neg) (\<lambda>n c. Inr (add64 n c)) n r = (if stop64 neg n c then Inr ((n, True), r)
        else then_r (Inr (add64 n c)) (\<lambda>n'. digit_loop k' (stop64 neg) (\<lambda>n c. Inr (add64 n c)) n' r1))" .
  have "\<not> stop64 neg n c" using stop64_iff [OF c, of neg n] le by simp
  note r1 = r1(1,2) r1(3) [folded k, unfolded then_r.simps if_not_P [OF this]]
  note v = add64_val [OF c le]
  have "\<forall>c \<in> set ds. is_digit c" "length ds < k'" "digits_val (unat (n_i64 (add64 n c))) ds \<le> limit64 neg"
    using Cons.prems k v by simp_all
  from Cons.IH [OF this(1) Cons.prems(2) jr_same_ok [OF r1(2)] r1(1) this(2,3)] r1(3) jr_same_trans [OF r1(2)] v
  show ?case by (auto simp: add64_def)
qed

section \<open>Integers\<close>

definition value_end :: "bytes \<Rightarrow> bool" where
  "value_end xs \<longleftrightarrow> digit_end xs \<and> next_byte xs \<notin> {0x2E, 0x65, 0x45}"

lemma is_digit_cases: "is_digit c \<Longrightarrow> c \<notin> {0x6E, 0x74, 0x66, 0x22, 0x7B, 0x5B, 0x2D} \<and> \<not> IsWhiteSpace c"
  using is_digit_first [of c] by (auto simp: is_digit_def IsWhiteSpace_def word_le_nat_alt)

text \<open>The state between the stages: the number \<open>m\<close> so far, in 32 or in 64 bits.\<close>

definition holds_nat :: "bool \<Rightarrow> nat \<Rightarrow> jnum \<Rightarrow> bool" where
  "holds_nat neg m n \<longleftrightarrow> \<not> n_useDouble n \<and>
     (if n_use64bit n then unat (n_i64 n) = m \<and> limit32 neg < m else unat (n_i n) = m \<and> m \<le> limit32 neg)"

lemma json_int32_reads:
  assumes "jr_ok r" "jr_left r = dec_nat m @ rest" "digit_end rest"
  shows "\<exists>n r' es. json_int32 neg r = Inr (n, r') \<and> jr_same r r' \<and> jr_left r' = es @ rest
    \<and> (\<forall>c \<in> set es. is_digit c) \<and> \<not> n_useDouble n
    \<and> (if n_use64bit n then digits_val (unat (n_i64 n)) es = m \<and> limit32 neg < m
       else es = [] \<and> unat (n_i n) = m \<and> m \<le> limit32 neg)"
proof (cases "m = 0")
  case True
  then have "jr_left r = 0x30 # rest" using assms(2) by (simp add: dec_nat.simps digit_def)
  from jr_get_Cons [OF assms(1) this] obtain r' where r': "jr_Get r = (0x30, r')" "jr_left r' = rest" "jr_same r r'" .
  then show ?thesis using True assms(1) \<open>jr_left r = 0x30 # rest\<close>
    by (intro exI [of _ jnum_new] exI [of _ r'] exI [of _ "[]"]) (simp add: json_int32_def jr_ok_Peek jnum_new_def)
next
  case False
  obtain c ds where d: "dec_nat m = c # ds" using dec_nat_not_Nil by (cases "dec_nat m") auto
  have c: "is_digit c" "c \<noteq> 0x30" and ds: "\<forall>c \<in> set ds. is_digit c"
    using dec_nat_digits [of m] dec_nat_hd [of m] False d by auto
  have l: "jr_left r = c # ds @ rest" using assms(2) d by simp
  from jr_get_Cons [OF assms(1) l] obtain r1 where r1: "jr_Get r = (c, r1)" "jr_left r1 = ds @ rest" "jr_same r r1" .
  let ?n = "jnum_new \<lparr> n_i := ucast (c - 0x30) \<rparr>"
  have u: "unat (n_i ?n) = digit_val c" "digits_val (digit_val c) ds = m" "\<not> n_use64bit ?n" "\<not> n_useDouble ?n"
    using is_digit_val(1) [OF c(1)] is_digit_val(3) [OF c(1), where 'a = 32] dec_nat_val [of m] d
    by (simp_all add: jnum_new_def)
  have "length ds < Suc (length (jr_left r1))" using r1(2) by simp
  from digit_loop32 [OF ds assms(3) jr_same_ok [OF r1(3)] r1(2) this, of neg ?n, folded digits_def, unfolded u(1,2)] u(3,4)
  obtain n' broke r' es where
    n': "digits (stop32 neg) (\<lambda>n c. Inr (add32 n c)) ?n r1 = Inr ((n', broke), r')" "jr_same r1 r'" "jr_left r' = es @ rest"
      "\<forall>c \<in> set es. is_digit c" "broke \<longleftrightarrow> es \<noteq> []" "digits_val (unat (n_i n')) es = m"
      "broke \<longrightarrow> limit32 neg < m" "\<not> broke \<longrightarrow> ds = [] \<or> unat (n_i n') \<le> limit32 neg"
      "n_use64bit n' = n_use64bit ?n" "n_useDouble n' = n_useDouble ?n"
    by (elim exE conjE) (rule that)
  have u': "\<not> n_use64bit n'" "\<not> n_useDouble n'" "\<not> broke \<longrightarrow> unat (n_i n') = m" using n'(5,6,9,10) u(3,4) by auto
  have lim: "\<not> broke \<longrightarrow> m \<le> limit32 neg"
  proof
    assume b: "\<not> broke"
    then have m: "unat (n_i n') = m" using n'(5,6) by simp
    show "m \<le> limit32 neg"
    proof (cases "ds = []")
      case True
      then have "m = digit_val c" using u(2) by simp
      then show ?thesis using is_digit_val(1) [OF c(1)] by (simp add: limit32_def)
    qed (use b m n'(8) in simp)
  qed
  let ?n' = "if broke then n' \<lparr> n_i64 := ucast (n_i n'), n_use64bit := True \<rparr> else n'"
  have "json_int32 neg r = Inr (?n', r')"
    using r1(1) n'(1) c assms(1) l by (simp add: json_int32_def jr_ok_Peek)
  moreover have "unat (ucast (n_i n') :: u64) = unat (n_i n')" by (simp add: unsigned_ucast_eq take_bit_nat_eq_self order.strict_trans [OF unsigned_less])
  ultimately show ?thesis using n'(3-7) lim u' jr_same_trans [OF r1(3) n'(2)]
    by (intro exI [of _ ?n'] exI [of _ r'] exI [of _ es]) auto
qed

lemma json_int64_reads:
  assumes "jr_ok r" "jr_left r = dec_nat m @ rest" "digit_end rest" "m \<le> limit64 neg"
  shows "\<exists>n r'. then_r (json_int32 neg r) (\<lambda>(n, r). json_int64 neg n r) = Inr (n, r') \<and> jr_same r r' \<and> jr_left r' = rest
    \<and> holds_nat neg m n"
proof -
  from json_int32_reads [OF assms(1-3), of neg] obtain n r1 es where n: "json_int32 neg r = Inr (n, r1)" "jr_same r r1"
    "jr_left r1 = es @ rest" "\<forall>c \<in> set es. is_digit c" "\<not> n_useDouble n"
    "if n_use64bit n then digits_val (unat (n_i64 n)) es = m \<and> limit32 neg < m
       else es = [] \<and> unat (n_i n) = m \<and> m \<le> limit32 neg"
    by (elim exE conjE) (rule that)
  show ?thesis
  proof (cases "n_use64bit n")
    case False
    then show ?thesis using n by (simp add: json_int64_def holds_nat_def)
  next
    case True
    with n(6) have v: "digits_val (unat (n_i64 n)) es = m" "limit32 neg < m" by simp_all
    have k: "length es < Suc (length (jr_left r1))" using n(3) by simp
    from v(1) assms(4) have "digits_val (unat (n_i64 n)) es \<le> limit64 neg" by simp
    from digit_loop64 [OF n(4) assms(3) jr_same_ok [OF n(2)] n(3) k this, folded digits_def, unfolded v(1)] obtain n' r' where
      n': "digits (stop64 neg) (\<lambda>n c. Inr (add64 n c)) n r1 = Inr ((n', False), r')" "jr_same r1 r'" "jr_left r' = rest"
        "unat (n_i64 n') = m" "n_use64bit n' = n_use64bit n" "n_useDouble n' = n_useDouble n"
      by (elim exE conjE) (rule that)
    then show ?thesis using n True v(2) jr_same_trans [OF n(2) n'(2)] by (simp add: json_int64_def holds_nat_def)
  qed
qed

lemma sint_neg_word:
  fixes w :: "'a::len word"
  assumes "unat w < 2 ^ (LENGTH('a) - 1)"
  shows "sint (- w) = - int (unat w)"
proof -
  have "int (unat w) < int (2 ^ (LENGTH('a) - 1))" using assms by (simp only: of_nat_less_iff)
  then have u: "uint w < 2 ^ (LENGTH('a) - 1)" by (simp only: uint_nat of_nat_power of_nat_numeral)
  have p: "(0 :: int) < 2 ^ (LENGTH('a) - 1)" by simp
  have "signed_take_bit (LENGTH('a) - 1) (uint w) = uint w"
    by (rule signed_take_bit_int_eq_self) (use u p uint_ge_0 [of w] in linarith)+
  then have s: "sint w = uint w" by (simp add: sint_uint)
  have "signed_take_bit (LENGTH('a) - 1) (- uint w) = - uint w"
    by (rule signed_take_bit_int_eq_self) (use u p uint_ge_0 [of w] in linarith)+
  then show ?thesis by (simp add: sint_word_ariths s)
qed

definition json_int :: "int \<Rightarrow> bool" where
  "json_int z \<longleftrightarrow> - (2 ^ 63) < z \<and> z < 2 ^ 64 \<and> z \<noteq> - (2 ^ 31)"

lemma number_event_nonneg:
  assumes "holds_nat False m n"
  shows "\<exists>e. json_number_event False n = Inr e \<and> represents (AInt (int m)) [e]"
proof (cases "n_use64bit n")
  case True
  then have "int m = uint (n_i64 n)" using assms by (simp add: holds_nat_def uint_nat)
  then show ?thesis using assms True rep_uint64 [of "n_i64 n"] by (simp add: json_number_event_def holds_nat_def)
next
  case False
  then have "int m = uint (n_i n)" using assms by (simp add: holds_nat_def uint_nat)
  then show ?thesis using assms False rep_uint [of "n_i n"] by (simp add: json_number_event_def holds_nat_def)
qed

lemma number_event_neg:
  assumes "holds_nat True m n" "m < 2 ^ 63" "m \<noteq> 2 ^ 31"
  shows "\<exists>e. json_number_event True n = Inr e \<and> represents (AInt (- int m)) [e]"
proof (cases "n_use64bit n")
  case True
  then have m: "unat (n_i64 n) = m" using assms(1) by (simp add: holds_nat_def)
  with assms(2) have "unat (n_i64 n) \<noteq> unat (2 ^ 63 :: u64)" by simp
  then have "n_i64 n \<noteq> 2 ^ 63" by auto
  moreover have "sint (- n_i64 n) = - int m" using sint_neg_word [of "n_i64 n"] m assms(2) by simp
  ultimately show ?thesis using assms(1) True rep_int64 [of "- n_i64 n"] by (simp add: json_number_event_def holds_nat_def)
next
  case False
  then have m: "unat (n_i n) = m" "m \<le> 2 ^ 31" using assms(1) by (simp_all add: holds_nat_def limit32_def)
  with assms(3) have "unat (n_i n) \<noteq> unat (2 ^ 31 :: u32)" by simp
  then have "n_i n \<noteq> 2 ^ 31" by auto
  moreover have "sint (- n_i n) = - int m" using sint_neg_word [of "n_i n"] m assms(3) by simp
  ultimately show ?thesis using assms(1) False rep_int [of "- n_i n"] by (simp add: json_number_event_def holds_nat_def)
qed

lemma json_number_rest:
  assumes "jr_ok r" "value_end (jr_left r)" "\<not> n_useDouble n"
  shows "json_bigint n r = Inr (n, r)" "json_frac n r = Inr (n, r)" "json_exp n r = Inr (n, r)"
  using assms by (simp_all add: json_bigint_def json_frac_def json_exp_def value_end_def jr_ok_Peek)

lemma json_number_reads:
  assumes "jr_ok r" "jr_left r = dec_int z @ rest" "value_end rest" "json_int z"
  shows "\<exists>e r'. json_ParseNumber r = ([e], Inr r') \<and> represents (AInt z) [e] \<and> jr_left r' = rest \<and> jr_same r r'"
proof -
  let ?neg = "z < 0" and ?m = "nat \<bar>z\<bar>"
  have de: "digit_end rest" using assms(3) by (simp add: value_end_def)
  have lim: "?m \<le> limit64 ?neg" using assms(4) by (auto simp: json_int_def limit64_def)
  have "\<exists>r1. (if ?neg then snd (jr_Get r) else r) = r1 \<and> jr_left r1 = dec_nat ?m @ rest \<and> jr_same r r1"
  proof (cases ?neg)
    case True
    then have "jr_left r = 0x2D # dec_nat ?m @ rest" using assms(2) by (simp add: dec_int_def)
    from jr_get_Cons [OF assms(1) this] obtain r1 where "jr_Get r = (0x2D, r1)" "jr_left r1 = dec_nat ?m @ rest" "jr_same r r1" .
    then show ?thesis using True by simp
  qed (use assms in \<open>simp add: dec_int_def\<close>)
  then obtain r1 where r1: "(if ?neg then snd (jr_Get r) else r) = r1" "jr_left r1 = dec_nat ?m @ rest" "jr_same r r1" by blast
  obtain c ds where d: "dec_nat ?m = c # ds" using dec_nat_not_Nil by (cases "dec_nat ?m") auto
  with is_digit_cases [of c] dec_nat_digits [of ?m] have "c \<noteq> 0x2D" by auto
  then have neg: "(jr_Peek r = 0x2D) = ?neg" using assms(1,2) d by (cases ?neg) (simp_all add: jr_ok_Peek dec_int_def)
  from json_int64_reads [OF jr_same_ok [OF r1(3)] r1(2) de lim] obtain n r' where
    n: "then_r (json_int32 ?neg r1) (\<lambda>(n, r). json_int64 ?neg n r) = Inr (n, r')" "jr_same r1 r'" "jr_left r' = rest"
      "holds_nat ?neg ?m n" by (elim exE conjE) (rule that)
  then obtain n1 r2 where n1: "json_int32 ?neg r1 = Inr (n1, r2)" "json_int64 ?neg n1 r2 = Inr (n, r')" by auto
  have ud: "\<not> n_useDouble n" using n(4) by (simp add: holds_nat_def)
  have ve: "value_end (jr_left r')" using n(3) assms(3) by simp
  note f = json_number_rest [OF jr_same_ok [OF n(2)] ve ud]
  have "\<exists>e. json_number_event ?neg n = Inr e \<and> represents (AInt z) [e]"
  proof (cases ?neg)
    case True
    then have "?m < 2 ^ 63" "?m \<noteq> 2 ^ 31" "- int ?m = z" using assms(4) by (auto simp: json_int_def)
    with number_event_neg [of ?m n] n(4) True show ?thesis by simp
  next
    case False
    with number_event_nonneg [of ?m n] n(4) show ?thesis by simp
  qed
  then obtain e where e: "json_number_event ?neg n = Inr e" "represents (AInt z) [e]" by blast
  have "json_ParseNumber r = ([e], Inr r')"
    by (simp add: json_ParseNumber_def neg r1(1) n1 f e(1) emit_def)
  with e(2) n(3) jr_same_trans [OF r1(3) n(2)] show ?thesis by blast
qed

section \<open>The grammar\<close>

definition white :: "bytes \<Rightarrow> bool" where "white w \<longleftrightarrow> (\<forall>c \<in> set w. IsWhiteSpace c)"

text \<open>A string literal with what it decodes to.\<close>

definition string_form :: "bytes \<Rightarrow> bytes \<Rightarrow> bool" where
  "string_form s t \<longleftrightarrow> (\<exists>cs. t = 0x22 # cs \<and> (\<forall>rest. json_decode (cs @ rest) = Inr (s, rest)))"

inductive json_form :: "aval \<Rightarrow> bytes \<Rightarrow> bool"
and members_form :: "(bytes \<times> aval) list \<Rightarrow> bytes \<Rightarrow> bool"
and elements_form :: "aval list \<Rightarrow> bytes \<Rightarrow> bool" where
  form_null: "json_form ANull (lit ''null'')"
| form_true: "json_form (ABool True) (lit ''true'')"
| form_false: "json_form (ABool False) (lit ''false'')"
| form_int: "json_int z \<Longrightarrow> json_form (AInt z) (dec_int z)"
| form_str: "string_form s t \<Longrightarrow> json_form (AStr s) t"
| form_arr_Nil: "white w \<Longrightarrow> json_form (AArr []) (0x5B # w @ [0x5D])"
| form_arr: "white w \<Longrightarrow> elements_form xs t \<Longrightarrow> json_form (AArr xs) (0x5B # w @ t @ [0x5D])"
| form_map_Nil: "white w \<Longrightarrow> json_form (AMap []) (0x7B # w @ [0x7D])"
| form_map: "white w \<Longrightarrow> members_form ms t \<Longrightarrow> json_form (AMap ms) (0x7B # w @ t @ [0x7D])"
| form_element: "json_form x t \<Longrightarrow> white w \<Longrightarrow> elements_form [x] (t @ w)"
| form_elements: "json_form x t \<Longrightarrow> white w \<Longrightarrow> white w' \<Longrightarrow> elements_form xs ts \<Longrightarrow>
     elements_form (x # xs) (t @ w @ 0x2C # w' @ ts)"
| form_member: "string_form k kt \<Longrightarrow> white u \<Longrightarrow> white v \<Longrightarrow> json_form x t \<Longrightarrow> white w \<Longrightarrow>
     members_form [(k, x)] (kt @ u @ 0x3A # v @ t @ w)"
| form_members: "string_form k kt \<Longrightarrow> white u \<Longrightarrow> white v \<Longrightarrow> json_form x t \<Longrightarrow> white w \<Longrightarrow> white w' \<Longrightarrow>
     members_form ms ts \<Longrightarrow> members_form ((k, x) # ms) (kt @ u @ 0x3A # v @ t @ w @ 0x2C # w' @ ts)"

lemmas form_intros = json_form_members_form_elements_form.intros
lemmas form_induct = json_form_members_form_elements_form.inducts

text \<open>A text starts with something that is neither white space nor a closing bracket.\<close>

definition starts :: "bytes \<Rightarrow> bool" where
  "starts t \<longleftrightarrow> (\<exists>c cs. t = c # cs \<and> \<not> IsWhiteSpace c \<and> c \<noteq> 0x5D \<and> c \<noteq> 0x7D)"

lemma starts_append [simp]: "starts t \<Longrightarrow> starts (t @ u)"
  by (auto simp: starts_def)

lemma starts_string: "string_form s t \<Longrightarrow> starts t"
  by (auto simp: string_form_def starts_def IsWhiteSpace_def is_space_def)

lemma starts_int: "starts (dec_int z)"
proof -
  obtain c cs where d: "dec_nat (nat \<bar>z\<bar>) = c # cs" using dec_nat_not_Nil by (cases "dec_nat (nat \<bar>z\<bar>)") auto
  then have c: "is_digit c" using dec_nat_digits [of "nat \<bar>z\<bar>"] by auto
  then have "\<not> IsWhiteSpace c" "c \<noteq> 0x5D" "c \<noteq> 0x7D" using is_digit_cases [of c] by (auto simp: is_digit_def)
  then show ?thesis using d by (cases "z < 0") (auto simp: starts_def dec_int_def IsWhiteSpace_def is_space_def)
qed

lemma form_starts: "json_form a t \<Longrightarrow> starts t" "members_form ms t' \<Longrightarrow> starts t'" "elements_form xs t'' \<Longrightarrow> starts t''"
  by (induction rule: form_induct)
    (simp_all add: starts_int starts_string, simp_all add: starts_def IsWhiteSpace_def is_space_def)

text \<open>Reading one byte and skipping white space.\<close>

lemma jr_Skip_reads:
  assumes "jr_ok r" "jr_left r = w @ t" "white w" "t = [] \<or> \<not> IsWhiteSpace (next_byte t)"
  obtains r' where "jr_Skip r = lift_r (Inr r')" "jr_left r' = t" "jr_same r r'"
proof -
  from assms(1) have ok: "st_ok (jr_is r)" by (simp add: jr_ok_def)
  from SkipWhiteSpace_left [OF ok] obtain s where s: "SkipWhiteSpace (jr_is r) = Some s" "st_ok s"
    "st_left s = dropWhile IsWhiteSpace (st_left (jr_is r))" "st_kind s = st_kind (jr_is r)" by blast
  have "dropWhile IsWhiteSpace (w @ t) = t"
    using assms(3,4) by (induction w) (auto simp: white_def, cases t, auto)
  moreover have "jr_ok (r \<lparr> jr_is := s \<rparr>)" using s(2) assms(1) st_kind_InSitu_stream [OF s(4)] by (auto simp: jr_ok_def)
  ultimately show thesis using s assms(2)
    by (intro that [of "r \<lparr> jr_is := s \<rparr>"]) (simp_all add: jr_Skip_def jr_SkipWhiteSpace_def jr_left_def jr_same_def)
qed

lemma white_Nil [simp]: "white []"
  by (simp add: white_def)

lemma starts_skip: "starts t \<Longrightarrow> t @ u = [] \<or> \<not> IsWhiteSpace (next_byte (t @ u))"
  by (auto simp: starts_def)

text \<open>The literals.\<close>

lemma jr_expect_reads:
  "jr_ok r \<Longrightarrow> jr_left r = cs @ rest \<Longrightarrow> \<exists>r'. jr_expect cs r = Inr r' \<and> jr_left r' = rest \<and> jr_same r r'"
proof (induction cs arbitrary: r)
  case (Cons c cs)
  then have "jr_left r = c # cs @ rest" by simp
  from jr_get_Cons [OF Cons.prems(1) this] obtain r1 where r1: "jr_Get r = (c, r1)" "jr_left r1 = cs @ rest" "jr_same r r1" .
  from Cons.IH [OF jr_same_ok [OF r1(3)] r1(2)] r1 jr_same_trans [OF r1(3)] show ?case by auto
qed simp

section \<open>The reader on texts of the grammar\<close>

definition reads_value :: "aval \<Rightarrow> bytes \<Rightarrow> bool" where
  "reads_value a t \<longleftrightarrow> (\<forall>r rest k. jr_ok r \<longrightarrow> jr_left r = t @ rest \<longrightarrow> value_end rest \<longrightarrow> 2 * length t \<le> k \<longrightarrow>
     (\<exists>es r'. json_ParseValue k r = (es, Inr r') \<and> represents a es \<and> jr_left r' = rest \<and> jr_same r r'))"

definition reads_members :: "(bytes \<times> aval) list \<Rightarrow> bytes \<Rightarrow> bool" where
  "reads_members ms t \<longleftrightarrow> (\<forall>r rest k n. jr_ok r \<longrightarrow> jr_left r = t @ 0x7D # rest \<longrightarrow> 2 * length t < k \<longrightarrow>
     (\<exists>es r'. json_members k n r = (es @ [EvEndMap (n + length ms)], Inr r') \<and> represents_members ms es
       \<and> jr_left r' = rest \<and> jr_same r r'))"

definition reads_elements :: "aval list \<Rightarrow> bytes \<Rightarrow> bool" where
  "reads_elements xs t \<longleftrightarrow> (\<forall>r rest k n. jr_ok r \<longrightarrow> jr_left r = t @ 0x5D # rest \<longrightarrow> 2 * length t < k \<longrightarrow>
     (\<exists>es r'. json_elements k n r = (es @ [EvEndArray (n + length xs)], Inr r') \<and> represents_elements xs es
       \<and> jr_left r' = rest \<and> jr_same r r'))"

lemma reads_valueE:
  assumes "reads_value a t" "jr_ok r" "jr_left r = t @ rest" "value_end rest" "2 * length t \<le> k"
  obtains es r' where "json_ParseValue k r = (es, Inr r')" "represents a es" "jr_left r' = rest" "jr_same r r'"
  using assms unfolding reads_value_def by blast

lemma reads_membersE:
  assumes "reads_members ms t" "jr_ok r" "jr_left r = t @ 0x7D # rest" "2 * length t < k"
  obtains es r' where "json_members k n r = (es @ [EvEndMap (n + length ms)], Inr r')" "represents_members ms es"
    "jr_left r' = rest" "jr_same r r'"
  using assms unfolding reads_members_def by blast

lemma reads_elementsE:
  assumes "reads_elements xs t" "jr_ok r" "jr_left r = t @ 0x5D # rest" "2 * length t < k"
  obtains es r' where "json_elements k n r = (es @ [EvEndArray (n + length xs)], Inr r')" "represents_elements xs es"
    "jr_left r' = rest" "jr_same r r'"
  using assms unfolding reads_elements_def by blast

lemma value_end_white:
  assumes "white w" "c \<in> {0x2C, 0x5D, 0x7D}"
  shows "value_end (w @ c # u)"
proof (cases w)
  case Nil
  then show ?thesis using assms(2) by (auto simp: value_end_def digit_end_def is_digit_def)
next
  case (Cons d ds)
  then have "IsWhiteSpace d" using assms(1) by (simp add: white_def)
  then have "\<not> is_digit d" "d \<notin> {0x2E, 0x65, 0x45}" using is_digit_cases [of d] by (auto simp: IsWhiteSpace_def is_space_def)
  then show ?thesis using Cons by (simp add: value_end_def digit_end_def)
qed

lemma reads_literal:
  assumes "\<And>r k. jr_ok r \<Longrightarrow> jr_Peek r = c \<Longrightarrow> json_ParseValue (Suc k) r = then_p (lift_r (jr_expect (c # cs) r)) (emit [e])"
    and "represents a [e]"
  shows "reads_value a (c # cs)"
  unfolding reads_value_def
proof (intro allI impI)
  fix r rest k
  assume r: "jr_ok r" "jr_left r = (c # cs) @ rest" "2 * length (c # cs) \<le> k"
  then obtain k' where k: "k = Suc k'" by (cases k) auto
  have p: "jr_Peek r = c" using r(1,2) by (simp add: jr_ok_Peek)
  from jr_expect_reads [OF r(1,2)] obtain r' where r': "jr_expect (c # cs) r = Inr r'" "jr_left r' = rest" "jr_same r r'" by blast
  have "json_ParseValue k r = ([e], Inr r')" unfolding k assms(1) [OF r(1) p] r'(1) by (simp add: emit_def)
  with r' assms(2) show "\<exists>es r'. json_ParseValue k r = (es, Inr r') \<and> represents a es \<and> jr_left r' = rest \<and> jr_same r r'"
    by blast
qed

lemma reads_literals: "reads_value ANull (lit ''null'')" "reads_value (ABool True) (lit ''true'')"
  "reads_value (ABool False) (lit ''false'')"
proof -
  show "reads_value ANull (lit ''null'')"
    unfolding lit_simps by (rule reads_literal [OF _ rep_null]) (simp add: json_ParseNull_def del: jr_expect.simps)
  show "reads_value (ABool True) (lit ''true'')"
    unfolding lit_simps by (rule reads_literal [OF _ rep_true]) (simp add: json_ParseTrue_def del: jr_expect.simps)
  show "reads_value (ABool False) (lit ''false'')"
    unfolding lit_simps by (rule reads_literal [OF _ rep_false]) (simp add: json_ParseFalse_def del: jr_expect.simps)
qed

lemma reads_int: "json_int z \<Longrightarrow> reads_value (AInt z) (dec_int z)"
  unfolding reads_value_def
proof (intro allI impI)
  fix r rest k
  assume z: "json_int z" and r: "jr_ok r" "jr_left r = dec_int z @ rest" "value_end rest" "2 * length (dec_int z) \<le> k"
  obtain c cs where d: "dec_nat (nat \<bar>z\<bar>) = c # cs" using dec_nat_not_Nil by (cases "dec_nat (nat \<bar>z\<bar>)") auto
  then have c: "is_digit c" using dec_nat_digits [of "nat \<bar>z\<bar>"] by auto
  have p: "jr_Peek r \<notin> {0x6E, 0x74, 0x66, 0x22, 0x7B, 0x5B}" "k \<noteq> 0"
    using r d is_digit_cases [OF c] by (cases "z < 0"; simp add: jr_ok_Peek dec_int_def)+
  then obtain k' where "k = Suc k'" by (cases k) auto
  then have "json_ParseValue k r = json_ParseNumber r" using p(1) by simp
  with json_number_reads [OF r(1-3) z]
  show "\<exists>es r'. json_ParseValue k r = (es, Inr r') \<and> represents (AInt z) es \<and> jr_left r' = rest \<and> jr_same r r'" by auto
qed

lemma string_reads:
  assumes "string_form s t" "jr_ok r" "jr_left r = t @ rest"
  obtains mem copy r' where "json_string ev r = ([ev mem (length s) copy], Inr r')"
    "string_event s mem (length s) copy" "jr_left r' = rest" "jr_same r r'"
proof -
  from assms(1) obtain cs where cs: "t = 0x22 # cs" "json_decode (cs @ rest) = Inr (s, rest)" by (auto simp: string_form_def)
  with assms(3) have "jr_left r = 0x22 # cs @ rest" by simp
  from json_string_decode [OF assms(2) this, of ev] cs(2) that show thesis by auto
qed

lemma reads_string:
  assumes "string_form s t"
  shows "reads_value (AStr s) t"
  unfolding reads_value_def
proof (intro allI impI)
  fix r rest k
  assume r: "jr_ok r" "jr_left r = t @ rest" "2 * length t \<le> k"
  from assms obtain cs where cs: "t = 0x22 # cs" by (auto simp: string_form_def)
  with r obtain k' where k: "k = Suc k'" by (cases k) auto
  have p: "jr_Peek r = 0x22" using r(1,2) cs by (simp add: jr_ok_Peek)
  from string_reads [OF assms r(1,2), of EvString] obtain mem copy r' where
    r': "json_string EvString r = ([EvString mem (length s) copy], Inr r')" "string_event s mem (length s) copy"
      "jr_left r' = rest" "jr_same r r'" .
  have "json_ParseValue k r = ([EvString mem (length s) copy], Inr r')" using p r'(1) by (simp add: k json_ParseString_def)
  with r' rep_str show "\<exists>es r'. json_ParseValue k r = (es, Inr r') \<and> represents (AStr s) es \<and> jr_left r' = rest \<and> jr_same r r'"
    by blast
qed

lemma reads_array_Nil: "white w \<Longrightarrow> reads_value (AArr []) (0x5B # w @ [0x5D])"
  unfolding reads_value_def
proof (intro allI impI)
  fix r rest k
  assume w: "white w" and r: "jr_ok r" "jr_left r = (0x5B # w @ [0x5D]) @ rest" "2 * length (0x5B # w @ [0x5D]) \<le> k"
  obtain k' where k: "k = Suc k'" using r(3) by (cases k) auto
  from r(2) have l: "jr_left r = 0x5B # w @ 0x5D # rest" by simp
  from jr_get_Cons [OF r(1) l] obtain r1 where r1: "jr_Get r = (0x5B, r1)" "jr_left r1 = w @ 0x5D # rest" "jr_same r r1" .
  have "0x5D # rest = [] \<or> \<not> IsWhiteSpace (next_byte (0x5D # rest))" by (simp add: IsWhiteSpace_def is_space_def)
  from jr_Skip_reads [OF jr_same_ok [OF r1(3)] r1(2) w this] obtain r2 where
    r2: "jr_Skip r1 = lift_r (Inr r2)" "jr_left r2 = 0x5D # rest" "jr_same r1 r2" .
  from jr_get_Cons [OF jr_same_ok [OF r2(3)] r2(2)] obtain r3 where r3: "jr_Get r2 = (0x5D, r3)" "jr_left r3 = rest" "jr_same r2 r3" .
  have "jr_Peek r = 0x5B" "jr_Peek r2 = 0x5D" using r(1) l r2(2) jr_same_ok [OF r2(3)] by (simp_all add: jr_ok_Peek)
  then have "json_ParseValue k r = (EvStartArray None # [] @ [EvEndArray (length [])], Inr r3)"
    using r1(1) r2(1) r3(1) by (simp add: k emit_def)
  moreover have "represents (AArr []) (EvStartArray None # [] @ [EvEndArray (length [])])" using rep_arr [OF rep_elements_Nil, of None] by simp
  ultimately show "\<exists>es r'. json_ParseValue k r = (es, Inr r') \<and> represents (AArr []) es \<and> jr_left r' = rest \<and> jr_same r r'"
    using r3(2) jr_same_trans [OF jr_same_trans [OF r1(3) r2(3)] r3(3)] by blast
qed

lemma reads_map_Nil: "white w \<Longrightarrow> reads_value (AMap []) (0x7B # w @ [0x7D])"
  unfolding reads_value_def
proof (intro allI impI)
  fix r rest k
  assume w: "white w" and r: "jr_ok r" "jr_left r = (0x7B # w @ [0x7D]) @ rest" "2 * length (0x7B # w @ [0x7D]) \<le> k"
  obtain k' where k: "k = Suc k'" using r(3) by (cases k) auto
  from r(2) have l: "jr_left r = 0x7B # w @ 0x7D # rest" by simp
  from jr_get_Cons [OF r(1) l] obtain r1 where r1: "jr_Get r = (0x7B, r1)" "jr_left r1 = w @ 0x7D # rest" "jr_same r r1" .
  have "0x7D # rest = [] \<or> \<not> IsWhiteSpace (next_byte (0x7D # rest))" by (simp add: IsWhiteSpace_def is_space_def)
  from jr_Skip_reads [OF jr_same_ok [OF r1(3)] r1(2) w this] obtain r2 where
    r2: "jr_Skip r1 = lift_r (Inr r2)" "jr_left r2 = 0x7D # rest" "jr_same r1 r2" .
  from jr_get_Cons [OF jr_same_ok [OF r2(3)] r2(2)] obtain r3 where r3: "jr_Get r2 = (0x7D, r3)" "jr_left r3 = rest" "jr_same r2 r3" .
  have "jr_Peek r = 0x7B" "jr_Peek r2 = 0x7D" using r(1) l r2(2) jr_same_ok [OF r2(3)] by (simp_all add: jr_ok_Peek)
  then have "json_ParseValue k r = (EvStartMap None # [] @ [EvEndMap (length [])], Inr r3)"
    using r1(1) r2(1) r3(1) by (simp add: k emit_def)
  moreover have "represents (AMap []) (EvStartMap None # [] @ [EvEndMap (length [])])" using rep_map [OF rep_members_Nil, of None] by simp
  ultimately show "\<exists>es r'. json_ParseValue k r = (es, Inr r') \<and> represents (AMap []) es \<and> jr_left r' = rest \<and> jr_same r r'"
    using r3(2) jr_same_trans [OF jr_same_trans [OF r1(3) r2(3)] r3(3)] by blast
qed

lemma reads_array:
  assumes "white w" "reads_elements xs t" "starts t"
  shows "reads_value (AArr xs) (0x5B # w @ t @ [0x5D])"
  unfolding reads_value_def
proof (intro allI impI)
  fix r rest k
  assume r: "jr_ok r" "jr_left r = (0x5B # w @ t @ [0x5D]) @ rest" "2 * length (0x5B # w @ t @ [0x5D]) \<le> k"
  obtain k' where k: "k = Suc k'" using r(3) by (cases k) auto
  from r(2) have l: "jr_left r = 0x5B # w @ (t @ 0x5D # rest)" by simp
  from jr_get_Cons [OF r(1) l] obtain r1 where r1: "jr_Get r = (0x5B, r1)" "jr_left r1 = w @ (t @ 0x5D # rest)" "jr_same r r1" .
  from jr_Skip_reads [OF jr_same_ok [OF r1(3)] r1(2) assms(1) starts_skip [OF assms(3)]] obtain r2 where
    r2: "jr_Skip r1 = lift_r (Inr r2)" "jr_left r2 = t @ 0x5D # rest" "jr_same r1 r2" .
  have "2 * length t < k'" using r(3) k by simp
  from reads_elementsE [OF assms(2) jr_same_ok [OF r2(3)] r2(2) this, of 0] obtain es r3 where
    r3: "json_elements k' 0 r2 = (es @ [EvEndArray (length xs)], Inr r3)" "represents_elements xs es" "jr_left r3 = rest"
      "jr_same r2 r3" by auto
  have "jr_Peek r = 0x5B" "jr_Peek r2 \<noteq> 0x5D"
    using r(1) l r2(2) jr_same_ok [OF r2(3)] assms(3) by (auto simp: jr_ok_Peek starts_def)
  then have "json_ParseValue k r = (EvStartArray None # es @ [EvEndArray (length xs)], Inr r3)"
    using r1(1) r2(1) r3(1) by (simp add: k)
  with rep_arr [OF r3(2), of None] show "\<exists>es r'. json_ParseValue k r = (es, Inr r') \<and> represents (AArr xs) es \<and> jr_left r' = rest \<and> jr_same r r'"
    using r3(3) jr_same_trans [OF jr_same_trans [OF r1(3) r2(3)] r3(4)] by blast
qed

lemma reads_map:
  assumes "white w" "reads_members ms t" "starts t"
  shows "reads_value (AMap ms) (0x7B # w @ t @ [0x7D])"
  unfolding reads_value_def
proof (intro allI impI)
  fix r rest k
  assume r: "jr_ok r" "jr_left r = (0x7B # w @ t @ [0x7D]) @ rest" "2 * length (0x7B # w @ t @ [0x7D]) \<le> k"
  obtain k' where k: "k = Suc k'" using r(3) by (cases k) auto
  from r(2) have l: "jr_left r = 0x7B # w @ (t @ 0x7D # rest)" by simp
  from jr_get_Cons [OF r(1) l] obtain r1 where r1: "jr_Get r = (0x7B, r1)" "jr_left r1 = w @ (t @ 0x7D # rest)" "jr_same r r1" .
  from jr_Skip_reads [OF jr_same_ok [OF r1(3)] r1(2) assms(1) starts_skip [OF assms(3)]] obtain r2 where
    r2: "jr_Skip r1 = lift_r (Inr r2)" "jr_left r2 = t @ 0x7D # rest" "jr_same r1 r2" .
  have "2 * length t < k'" using r(3) k by simp
  from reads_membersE [OF assms(2) jr_same_ok [OF r2(3)] r2(2) this, of 0] obtain es r3 where
    r3: "json_members k' 0 r2 = (es @ [EvEndMap (length ms)], Inr r3)" "represents_members ms es" "jr_left r3 = rest"
      "jr_same r2 r3" by auto
  have "jr_Peek r = 0x7B" "jr_Peek r2 \<noteq> 0x7D"
    using r(1) l r2(2) jr_same_ok [OF r2(3)] assms(3) by (auto simp: jr_ok_Peek starts_def)
  then have "json_ParseValue k r = (EvStartMap None # es @ [EvEndMap (length ms)], Inr r3)"
    using r1(1) r2(1) r3(1) by (simp add: k)
  with rep_map [OF r3(2), of None] show "\<exists>es r'. json_ParseValue k r = (es, Inr r') \<and> represents (AMap ms) es \<and> jr_left r' = rest \<and> jr_same r r'"
    using r3(3) jr_same_trans [OF jr_same_trans [OF r1(3) r2(3)] r3(4)] by blast
qed

text \<open>White space and one byte.\<close>

lemma skip_get_reads:
  assumes "jr_ok r" "jr_left r = w @ c # u" "white w" "\<not> IsWhiteSpace c"
  obtains r1 r2 where "jr_Skip r = lift_r (Inr r1)" "jr_Get r1 = (c, r2)" "jr_left r2 = u" "jr_same r r2"
proof -
  from assms(4) have "c # u = [] \<or> \<not> IsWhiteSpace (next_byte (c # u))" by simp
  from jr_Skip_reads [OF assms(1-3) this] obtain r1 where r1: "jr_Skip r = lift_r (Inr r1)" "jr_left r1 = c # u" "jr_same r r1" .
  from jr_get_Cons [OF jr_same_ok [OF r1(3)] r1(2)] obtain r2 where "jr_Get r1 = (c, r2)" "jr_left r2 = u" "jr_same r1 r2" .
  with r1 jr_same_trans that show thesis by blast
qed

lemma brackets_not_white: "\<not> IsWhiteSpace 0x2C" "\<not> IsWhiteSpace 0x5D" "\<not> IsWhiteSpace 0x7D" "\<not> IsWhiteSpace 0x3A"
  by (simp_all add: IsWhiteSpace_def is_space_def)

lemma reads_element:
  assumes "reads_value x t" "white w" "starts t"
  shows "reads_elements [x] (t @ w)"
  unfolding reads_elements_def
proof (intro allI impI)
  fix r rest k n
  assume r: "jr_ok r" "jr_left r = (t @ w) @ 0x5D # rest" "2 * length (t @ w) < k"
  obtain k' where k: "k = Suc k'" using r(3) by (cases k) auto
  have l: "jr_left r = t @ (w @ 0x5D # rest)" "2 * length t \<le> k'" using r(2,3) k by simp_all
  have "value_end (w @ 0x5D # rest)" using value_end_white [OF assms(2)] by simp
  from reads_valueE [OF assms(1) r(1) l(1) this l(2)] obtain es r1 where
    r1: "json_ParseValue k' r = (es, Inr r1)" "represents x es" "jr_left r1 = w @ 0x5D # rest" "jr_same r r1" .
  from skip_get_reads [OF jr_same_ok [OF r1(4)] r1(3) assms(2) brackets_not_white(2)] obtain r2 r3 where
    r2: "jr_Skip r1 = lift_r (Inr r2)" "jr_Get r2 = (0x5D, r3)" "jr_left r3 = rest" "jr_same r1 r3" .
  have "json_elements k n r = (es @ [EvEndArray (n + length [x])], Inr r3)" using r1(1) r2 by (simp add: k)
  with rep_elements_one [OF r1(2)] r2(3) jr_same_trans [OF r1(4) r2(4)]
  show "\<exists>es r'. json_elements k n r = (es @ [EvEndArray (n + length [x])], Inr r') \<and> represents_elements [x] es
      \<and> jr_left r' = rest \<and> jr_same r r'" by blast
qed

lemma reads_elements_Cons:
  assumes "reads_value x t" "white w" "white w'" "reads_elements xs ts" "starts ts" "xs \<noteq> []"
  shows "reads_elements (x # xs) (t @ w @ 0x2C # w' @ ts)"
  unfolding reads_elements_def
proof (intro allI impI)
  fix r rest k n
  assume r: "jr_ok r" "jr_left r = (t @ w @ 0x2C # w' @ ts) @ 0x5D # rest" "2 * length (t @ w @ 0x2C # w' @ ts) < k"
  obtain k' where k: "k = Suc k'" using r(3) by (cases k) auto
  have l: "jr_left r = t @ (w @ 0x2C # w' @ ts @ 0x5D # rest)" "2 * length t \<le> k'" "2 * length ts < k'" using r(2,3) k by simp_all
  have "value_end (w @ 0x2C # w' @ ts @ 0x5D # rest)" using value_end_white [OF assms(2)] by simp
  from reads_valueE [OF assms(1) r(1) l(1) this l(2)] obtain es r1 where
    r1: "json_ParseValue k' r = (es, Inr r1)" "represents x es" "jr_left r1 = w @ 0x2C # w' @ ts @ 0x5D # rest" "jr_same r r1" .
  from skip_get_reads [OF jr_same_ok [OF r1(4)] r1(3) assms(2) brackets_not_white(1)] obtain r2 r3 where
    r2: "jr_Skip r1 = lift_r (Inr r2)" "jr_Get r2 = (0x2C, r3)" "jr_left r3 = w' @ (ts @ 0x5D # rest)" "jr_same r1 r3" .
  from jr_Skip_reads [OF jr_same_ok [OF r2(4)] r2(3) assms(3) starts_skip [OF assms(5)]] obtain r4 where
    r4: "jr_Skip r3 = lift_r (Inr r4)" "jr_left r4 = ts @ 0x5D # rest" "jr_same r3 r4" .
  from reads_elementsE [OF assms(4) jr_same_ok [OF r4(3)] r4(2) l(3), of "Suc n"] obtain fs r5 where
    r5: "json_elements k' (Suc n) r4 = (fs @ [EvEndArray (Suc n + length xs)], Inr r5)" "represents_elements xs fs"
      "jr_left r5 = rest" "jr_same r4 r5" .
  have "json_elements k n r = ((es @ EvArraySeparator # fs) @ [EvEndArray (n + length (x # xs))], Inr r5)"
    using r1(1) r2(1,2) r4(1) r5(1) by (simp add: k)
  with rep_elements_Cons [OF r1(2) r5(2) assms(6)] r5(3)
    jr_same_trans [OF jr_same_trans [OF jr_same_trans [OF r1(4) r2(4)] r4(3)] r5(4)]
  show "\<exists>es r'. json_elements k n r = (es @ [EvEndArray (n + length (x # xs))], Inr r') \<and> represents_elements (x # xs) es
      \<and> jr_left r' = rest \<and> jr_same r r'" by blast
qed

text \<open>A key, the colon and the value.\<close>

lemma reads_key_value:
  assumes "string_form s kt" "white u" "white v" "reads_value x t" "starts t" "jr_ok r"
    and "jr_left r = kt @ u @ 0x3A # v @ t @ rest" "value_end rest" "2 * length t \<le> k"
  obtains mem copy es r1 r2 r3 r4 r' where "jr_Peek r = 0x22" "json_ParseKey r = ([EvKey mem (length s) copy], Inr r1)"
    "string_event s mem (length s) copy" "jr_Skip r1 = lift_r (Inr r2)" "jr_Get r2 = (0x3A, r3)" "jr_Skip r3 = lift_r (Inr r4)"
    "json_ParseValue k r4 = (es, Inr r')" "represents x es" "jr_left r' = rest" "jr_same r r'"
proof -
  have p: "jr_Peek r = 0x22" using assms(1,6,7) by (auto simp: jr_ok_Peek string_form_def)
  from string_reads [OF assms(1,6,7), of EvKey] obtain mem copy r1 where
    r1: "json_string EvKey r = ([EvKey mem (length s) copy], Inr r1)" "string_event s mem (length s) copy"
      "jr_left r1 = u @ 0x3A # v @ t @ rest" "jr_same r r1" .
  from skip_get_reads [OF jr_same_ok [OF r1(4)] r1(3) assms(2) brackets_not_white(4)] obtain r2 r3 where
    r2: "jr_Skip r1 = lift_r (Inr r2)" "jr_Get r2 = (0x3A, r3)" "jr_left r3 = v @ (t @ rest)" "jr_same r1 r3" .
  from jr_Skip_reads [OF jr_same_ok [OF r2(4)] r2(3) assms(3) starts_skip [OF assms(5)]] obtain r4 where
    r4: "jr_Skip r3 = lift_r (Inr r4)" "jr_left r4 = t @ rest" "jr_same r3 r4" .
  from reads_valueE [OF assms(4) jr_same_ok [OF r4(3)] r4(2) assms(8,9)] obtain es r' where
    r': "json_ParseValue k r4 = (es, Inr r')" "represents x es" "jr_left r' = rest" "jr_same r4 r'" .
  show thesis
    by (rule that [OF p _ r1(2) r2(1,2) r4(1) r'(1-3)])
      (use r1(1) jr_same_trans [OF jr_same_trans [OF jr_same_trans [OF r1(4) r2(4)] r4(3)] r'(4)] in \<open>simp_all add: json_ParseKey_def\<close>)
qed

lemma reads_member:
  assumes "string_form s kt" "white u" "white v" "reads_value x t" "starts t" "white w"
  shows "reads_members [(s, x)] (kt @ u @ 0x3A # v @ t @ w)"
  unfolding reads_members_def
proof (intro allI impI)
  fix r rest k n
  assume r: "jr_ok r" "jr_left r = (kt @ u @ 0x3A # v @ t @ w) @ 0x7D # rest" "2 * length (kt @ u @ 0x3A # v @ t @ w) < k"
  obtain k' where k: "k = Suc k'" using r(3) by (cases k) auto
  have l: "jr_left r = kt @ u @ 0x3A # v @ t @ (w @ 0x7D # rest)" "2 * length t \<le> k'" using r(2,3) k by simp_all
  have "value_end (w @ 0x7D # rest)" using value_end_white [OF assms(6)] by simp
  from reads_key_value [OF assms(1-5) r(1) l(1) this l(2)] obtain mem copy es r1 r2 r3 r4 r5 where
    kv: "jr_Peek r = 0x22" "json_ParseKey r = ([EvKey mem (length s) copy], Inr r1)"
      "string_event s mem (length s) copy" "jr_Skip r1 = lift_r (Inr r2)" "jr_Get r2 = (0x3A, r3)" "jr_Skip r3 = lift_r (Inr r4)"
      "json_ParseValue k' r4 = (es, Inr r5)" "represents x es" "jr_left r5 = w @ 0x7D # rest" "jr_same r r5" .
  from skip_get_reads [OF jr_same_ok [OF kv(10)] kv(9) assms(6) brackets_not_white(3)] obtain r6 r7 where
    r6: "jr_Skip r5 = lift_r (Inr r6)" "jr_Get r6 = (0x7D, r7)" "jr_left r7 = rest" "jr_same r5 r7" .
  have "json_members k n r = ((EvKey mem (length s) copy # es) @ [EvEndMap (n + length [(s, x)])], Inr r7)"
    using kv r6 by (simp add: k)
  with rep_members_one [OF kv(8,3)] r6(3) jr_same_trans [OF kv(10) r6(4)]
  show "\<exists>es r'. json_members k n r = (es @ [EvEndMap (n + length [(s, x)])], Inr r') \<and> represents_members [(s, x)] es
      \<and> jr_left r' = rest \<and> jr_same r r'" by blast
qed

lemma reads_members_Cons:
  assumes "string_form s kt" "white u" "white v" "reads_value x t" "starts t" "white w" "white w'" "reads_members ms ts"
    and "starts ts" "ms \<noteq> []"
  shows "reads_members ((s, x) # ms) (kt @ u @ 0x3A # v @ t @ w @ 0x2C # w' @ ts)"
  unfolding reads_members_def
proof (intro allI impI)
  fix r rest k n
  assume r: "jr_ok r" "jr_left r = (kt @ u @ 0x3A # v @ t @ w @ 0x2C # w' @ ts) @ 0x7D # rest"
    "2 * length (kt @ u @ 0x3A # v @ t @ w @ 0x2C # w' @ ts) < k"
  obtain k' where k: "k = Suc k'" using r(3) by (cases k) auto
  have l: "jr_left r = kt @ u @ 0x3A # v @ t @ (w @ 0x2C # w' @ ts @ 0x7D # rest)" "2 * length t \<le> k'" "2 * length ts < k'"
    using r(2,3) k by simp_all
  have "value_end (w @ 0x2C # w' @ ts @ 0x7D # rest)" using value_end_white [OF assms(6)] by simp
  from reads_key_value [OF assms(1-5) r(1) l(1) this l(2)] obtain mem copy es r1 r2 r3 r4 r5 where
    kv: "jr_Peek r = 0x22" "json_ParseKey r = ([EvKey mem (length s) copy], Inr r1)"
      "string_event s mem (length s) copy" "jr_Skip r1 = lift_r (Inr r2)" "jr_Get r2 = (0x3A, r3)" "jr_Skip r3 = lift_r (Inr r4)"
      "json_ParseValue k' r4 = (es, Inr r5)" "represents x es" "jr_left r5 = w @ 0x2C # w' @ ts @ 0x7D # rest" "jr_same r r5" .
  from skip_get_reads [OF jr_same_ok [OF kv(10)] kv(9) assms(6) brackets_not_white(1)] obtain r6 r7 where
    r6: "jr_Skip r5 = lift_r (Inr r6)" "jr_Get r6 = (0x2C, r7)" "jr_left r7 = w' @ (ts @ 0x7D # rest)" "jr_same r5 r7" .
  from jr_Skip_reads [OF jr_same_ok [OF r6(4)] r6(3) assms(7) starts_skip [OF assms(9)]] obtain r8 where
    r8: "jr_Skip r7 = lift_r (Inr r8)" "jr_left r8 = ts @ 0x7D # rest" "jr_same r7 r8" .
  from reads_membersE [OF assms(8) jr_same_ok [OF r8(3)] r8(2) l(3), of "Suc n"] obtain fs r9 where
    r9: "json_members k' (Suc n) r8 = (fs @ [EvEndMap (Suc n + length ms)], Inr r9)" "represents_members ms fs"
      "jr_left r9 = rest" "jr_same r8 r9" .
  have "json_members k n r = ((EvKey mem (length s) copy # es @ EvMapSeparator # fs) @ [EvEndMap (n + length ((s, x) # ms))], Inr r9)"
    using kv r6(1,2) r8(1) r9(1) by (simp add: k)
  with rep_members_Cons [OF kv(8,3) r9(2) assms(10)] r9(3)
    jr_same_trans [OF jr_same_trans [OF jr_same_trans [OF kv(10) r6(4)] r8(3)] r9(4)]
  show "\<exists>es r'. json_members k n r = (es @ [EvEndMap (n + length ((s, x) # ms))], Inr r')
      \<and> represents_members ((s, x) # ms) es \<and> jr_left r' = rest \<and> jr_same r r'" by blast
qed

lemma form_reads:
  "json_form a t \<Longrightarrow> reads_value a t"
  "members_form ms t' \<Longrightarrow> reads_members ms t' \<and> ms \<noteq> []"
  "elements_form xs t'' \<Longrightarrow> reads_elements xs t'' \<and> xs \<noteq> []"
  by (induction rule: form_induct)
    (simp_all add: reads_literals [simplified] reads_int reads_string reads_array_Nil reads_array reads_map_Nil reads_map
      reads_element reads_elements_Cons reads_member reads_members_Cons form_starts)

section \<open>Plain text needs no escapes\<close>

definition plain :: "byte \<Rightarrow> bool" where "plain c \<longleftrightarrow> \<not> c < 0x20 \<and> c \<noteq> 0x22 \<and> c \<noteq> 0x5C"

lemma plain_form: "\<forall>c \<in> set s. plain c \<Longrightarrow> string_form s (0x22 # s @ [0x22])"
proof -
  assume "\<forall>c \<in> set s. plain c"
  then have "json_decode (s @ 0x22 # rest) = Inr (s, rest)" for rest
  proof (induction s)
    case (Cons c s)
    then have "c \<noteq> 0" by (auto simp: plain_def)
    with Cons show ?case by (simp add: json_decode_Cons plain_def)
  qed (simp add: json_decode_Cons)
  then show ?thesis by (simp add: string_form_def)
qed

lemma digits_plain: "is_digit c \<Longrightarrow> plain c"
  by (auto simp: is_digit_def plain_def word_less_nat_alt word_le_nat_alt)

lemma dec_nat_plain: "c \<in> set (dec_nat n) \<Longrightarrow> plain c"
  using dec_nat_digits digits_plain by blast

lemma pad_plain: "c \<in> set (pad d k xs) \<Longrightarrow> c = d \<or> c \<in> set xs"
  by (auto simp: pad_def split: if_splits)

lemma fmt_plain: "c \<in> set (fmt_4d i) \<Longrightarrow> plain c" "c \<in> set (fmt_02d i) \<Longrightarrow> plain c"
  by (auto simp: fmt_4d_def fmt_02d_def dec_int_def plain_def [of "0x20"] plain_def [of "0x2D"] plain_def [of "0x30"]
    dest!: pad_plain dec_nat_plain split: if_splits)

lemma fmt_tm_plain: "\<forall>c \<in> set (fmt_tm t). plain c"
  by (auto simp: fmt_tm_def fmt_plain plain_def [of "0x54"] plain_def [of "0x3A"])

lemma b64_char_table: "\<forall>n \<in> set [0..<64]. plain (base64Chars ! n)"
  by code_simp

lemma b64_char_plain:
  assumes "unat i < 64"
  shows "plain (b64_char i)"
  using b64_char_table [THEN bspec, of "unat i"] assms by (simp add: b64_char_def)

lemma b64_chars_plain [simp]:
  "plain (b64_char (b64_i0 a))" "plain (b64_char (b64_i1 a b))" "plain (b64_char (b64_i2 b c))" "plain (b64_char (b64_i3 c))"
  by (simp_all add: b64_char_plain)

lemma b64_line_plain: "b64_line q xs = (out, q', rest) \<Longrightarrow> \<forall>c \<in> set out. plain c"
  by (induction q xs arbitrary: out q' rest rule: b64_line.induct)
     (auto simp: b64_quad_def split: prod.splits if_splits)

lemma b64_tail_plain: "\<forall>c \<in> set (b64_tail xs). plain c"
  by (cases xs rule: b64_tail.cases) (auto simp: Let_def plain_def [of "0x3D"])

lemma Base64Encode_plain: "c \<in> set (Base64Encode xs) \<Longrightarrow> c = 0x0A \<or> plain c"
proof (induction xs rule: Base64Encode.induct)
  case (1 xs)
  show ?case
  proof (cases "length xs > 2")
    case True
    obtain out q left where l: "b64_line 0 xs = (out, q, left)" by (metis prod_cases3)
    with "1.prems" True have "c \<in> set out \<or> c = 0x0A \<or> c \<in> set (Base64Encode left)"
      by (subst (asm) Base64Encode.simps) (auto split: if_splits)
    then show ?thesis using b64_line_plain [OF l] "1.IH" [OF True l [symmetric] refl] by blast
  next
    case False
    then show ?thesis using "1.prems" b64_tail_plain by (subst (asm) Base64Encode.simps) auto
  qed
qed

lemma Base64Encode_form: "length xs \<le> 48 \<Longrightarrow> string_form (Base64Encode xs) (0x22 # Base64Encode xs @ [0x22])"
  using plain_form Base64Encode_plain encode_newline [of xs] by (metis linorder_not_le)

section \<open>What the writer writes is in the grammar\<close>

text \<open>
  A date and a binary are written as the array extension. A binary of more than 48 bytes is not
  covered: its line breaks are no JSON.
\<close>

fun json_norm :: "(u64 \<Rightarrow> tm) \<Rightarrow> aval \<Rightarrow> aval" where
  "json_norm localtime (ATime t) = AArr [AStr ANYRPC_DATETIME_STRING, AStr (fmt_tm (localtime t))]"
| "json_norm localtime (ABin s) = AArr [AStr ANYRPC_BASE64_STRING, AStr (Base64Encode s)]"
| "json_norm localtime (AArr xs) = AArr (map (json_norm localtime) xs)"
| "json_norm localtime (AMap ms) = AMap (map (\<lambda>m. (fst m, json_norm localtime (snd m))) ms)"
| "json_norm localtime a = a"

fun json_fits :: "EncodingEnum \<Rightarrow> aval \<Rightarrow> bool" where
  "json_fits enc AInvalid \<longleftrightarrow> False"
| "json_fits enc (AInt z) \<longleftrightarrow> json_int z"
| "json_fits enc (AFloat f) \<longleftrightarrow> False"
| "json_fits enc (ADouble d) \<longleftrightarrow> False"
| "json_fits enc (AStr s) \<longleftrightarrow> writable (jw_String enc s)"
| "json_fits enc (ABin s) \<longleftrightarrow> length s \<le> 48"
| "json_fits enc (AArr xs) \<longleftrightarrow> (\<forall>x \<in> set xs. json_fits enc x)"
| "json_fits enc (AMap ms) \<longleftrightarrow> (\<forall>m \<in> set ms. writable (jw_String enc (fst m)) \<and> json_fits enc (snd m))"
| "json_fits enc _ \<longleftrightarrow> True"

lemma string_text_form: "writable (jw_String enc s) \<Longrightarrow> string_form s (text_of (jw_String enc s))"
proof -
  assume "writable (jw_String enc s)"
  then obtain ps where ps: "jw_chars enc s = Inr ps" "jw_String enc s = Inr (PutChar 0x22 # ps @ [PutChar 0x22])"
    by (auto simp: writable_def jw_String_def)
  from json_decode_written [OF ps(1)] show ?thesis by (auto simp: string_form_def ps(2))
qed

lemma key_text: "writable (jw_String enc s) \<Longrightarrow> text_of (jw_Key enc s) = text_of (jw_String enc s) @ [0x3A]"
  by (auto simp: writable_def jw_Key_def)

lemma line_white: "white (line_text c lvl)"
  by (auto simp: white_def line_text_def IsWhiteSpace_def is_space_def)

definition written_form :: "bytes \<Rightarrow> aval \<Rightarrow> bool" where
  "written_form t a \<longleftrightarrow> (\<exists>w u. t = w @ u \<and> white w \<and> json_form a u)"

lemma written_formI: "json_form a t \<Longrightarrow> written_form t a"
  unfolding written_form_def by (intro exI [of _ "[]"] exI [of _ t]) simp

text \<open>Two strings in an array, as the extensions are written.\<close>

lemma pair_form:
  assumes "string_form s t" "string_form s' t'"
  shows "json_form (AArr [AStr s, AStr s']) (0x5B # t @ 0x2C # t' @ [0x5D])"
  using form_arr [OF white_Nil form_elements [OF form_str [OF assms(1)] white_Nil white_Nil
      form_element [OF form_str [OF assms(2)] white_Nil]]] by simp

lemma join_elements:
  assumes "\<forall>x \<in> set xs. written_form (f x) (g x)" "xs \<noteq> []" "white l" "white l'"
  shows "\<exists>w t. join (0x2C # l) (map f xs) @ l' = w @ t \<and> white w \<and> elements_form (map g xs) t"
  using assms(1,2)
proof (induction xs)
  case (Cons x xs)
  then obtain w u where x: "f x = w @ u" "white w" "json_form (g x) u" by (auto simp: written_form_def)
  show ?case
  proof (cases "xs = []")
    case True
    then show ?thesis using x form_element [OF x(3) assms(4)] by (intro exI [of _ w] exI [of _ "u @ l'"]) simp
  next
    case False
    with Cons obtain w' t where t: "join (0x2C # l) (map f xs) @ l' = w' @ t" "white w'" "elements_form (map g xs) t" by auto
    have "white (l @ w')" using assms(3) t(2) by (auto simp: white_def)
    from form_elements [OF x(3) white_Nil this t(3)] show ?thesis using x False t(1)
      by (intro exI [of _ w] exI [of _ "u @ 0x2C # l @ w' @ t"]) (simp add: join_Cons)
  qed
qed simp

lemma join_members:
  assumes "\<forall>m \<in> set ms. string_form (fst m) (kt (fst m)) \<and> written_form (f (snd m)) (g (snd m))" "ms \<noteq> []" "white l" "white l'"
  shows "members_form (map (\<lambda>m. (fst m, g (snd m))) ms)
    (join (0x2C # l) (map (\<lambda>m. (kt (fst m) @ [0x3A]) @ f (snd m)) ms) @ l')"
  using assms(1,2)
proof (induction ms)
  case (Cons m ms)
  then obtain w u where x: "f (snd m) = w @ u" "white w" "json_form (g (snd m)) u" and k: "string_form (fst m) (kt (fst m))"
    by (auto simp: written_form_def)
  show ?case
  proof (cases "ms = []")
    case True
    then show ?thesis using x form_member [OF k white_Nil x(2,3) assms(4)] by simp
  next
    case False
    with Cons have "members_form (map (\<lambda>m. (fst m, g (snd m))) ms)
      (join (0x2C # l) (map (\<lambda>m. (kt (fst m) @ [0x3A]) @ f (snd m)) ms) @ l')" by simp
    from form_members [OF k white_Nil x(2,3) white_Nil assms(3) this] show ?thesis using x False by (simp add: join_Cons)
  qed
qed simp

lemma json_text_written: "json_fits (js_encoding c) a \<Longrightarrow> written_form (json_text c localtime lvl a) (json_norm localtime a)"
proof (induction a arbitrary: lvl)
  case (ABool b)
  then show ?case using form_true form_false by (cases b) (simp_all add: written_formI)
next
  case (ATime t)
  have "string_form ANYRPC_DATETIME_STRING (0x22 # ANYRPC_DATETIME_STRING @ [0x22])"
    by (rule plain_form) (simp add: ANYRPC_DATETIME_STRING_def plain_def)
  from pair_form [OF this plain_form [OF fmt_tm_plain]] show ?case by (simp add: jw_DateTime_def written_formI)
next
  case (ABin s)
  have "string_form ANYRPC_BASE64_STRING (0x22 # ANYRPC_BASE64_STRING @ [0x22])"
    by (rule plain_form) (simp add: ANYRPC_BASE64_STRING_def plain_def)
  from pair_form [OF this Base64Encode_form [of s]] ABin show ?case by (simp add: jw_Binary_def written_formI)
next
  case (AStr s)
  then show ?case using string_text_form form_str by (simp add: written_formI)
next
  case (AInt z)
  then show ?case by (simp add: form_int written_formI)
next
  case (AArr xs)
  let ?l = "line_text c lvl" and ?m = "line_text c (inner c lvl)" and ?f = "json_text c localtime (inner c lvl)"
  show ?case
  proof (cases "xs = []")
    case True
    have "white (?m @ ?l)" using line_white by (auto simp: white_def)
    from form_arr_Nil [OF this] True show ?thesis
      unfolding written_form_def by (intro exI [of _ ?l] exI [of _ "0x5B # (?m @ ?l) @ [0x5D]"]) (simp add: line_white)
  next
    case False
    have "\<forall>x \<in> set xs. written_form (?f x) (json_norm localtime x)" using AArr by simp
    from join_elements [OF this False line_white line_white, of c "inner c lvl" c lvl] obtain w t where
      t: "join (0x2C # ?m) (map ?f xs) @ ?l = w @ t" "white w" "elements_form (map (json_norm localtime) xs) t" by blast
    have "white (?m @ w)" using line_white [of c "inner c lvl"] t(2) by (auto simp: white_def)
    from form_arr [OF this t(3)] t(1) show ?thesis
      unfolding written_form_def by (intro exI [of _ ?l] exI [of _ "0x5B # (?m @ w) @ t @ [0x5D]"]) (simp add: line_white)
  qed
next
  case (AMap ms)
  let ?l = "line_text c lvl" and ?m = "line_text c (inner c lvl)" and ?f = "json_text c localtime (inner c lvl)"
  let ?kt = "\<lambda>k. text_of (jw_String (js_encoding c) k)"
  show ?case
  proof (cases "ms = []")
    case True
    have "white (?m @ ?l)" using line_white by (auto simp: white_def)
    from form_map_Nil [OF this] True show ?thesis
      unfolding written_form_def by (intro exI [of _ ?l] exI [of _ "0x7B # (?m @ ?l) @ [0x7D]"]) (simp add: line_white)
  next
    case False
    have "string_form (fst m) (?kt (fst m)) \<and> written_form (?f (snd m)) (json_norm localtime (snd m))" if "m \<in> set ms" for m
      using AMap.IH [OF that snds.intros] AMap.prems that string_text_form by simp
    then have "members_form (map (\<lambda>m. (fst m, json_norm localtime (snd m))) ms)
      (join (0x2C # ?m) (map (\<lambda>m. (?kt (fst m) @ [0x3A]) @ ?f (snd m)) ms) @ ?l)"
      by (intro join_members False line_white) blast
    moreover have "map (\<lambda>m. text_of (jw_Key (js_encoding c) (fst m)) @ ?f (snd m)) ms
        = map (\<lambda>m. (?kt (fst m) @ [0x3A]) @ ?f (snd m)) ms"
      using AMap.prems by (intro map_cong refl) (simp add: key_text)
    ultimately have "members_form (map (\<lambda>m. (fst m, json_norm localtime (snd m))) ms)
      (join (0x2C # ?m) (map (\<lambda>m. text_of (jw_Key (js_encoding c) (fst m)) @ ?f (snd m)) ms) @ ?l)" by (simp only:)
    from form_map [OF line_white this, of c "inner c lvl"] show ?thesis
      unfolding written_form_def
      by (intro exI [of _ ?l] exI [of _ "0x7B # ?m @ (join (0x2C # ?m) (map (\<lambda>m. text_of (jw_Key (js_encoding c) (fst m))
        @ ?f (snd m)) ms) @ ?l) @ [0x7D]"]) (simp add: line_white)
  qed
next
  case ANull
  show ?case using form_null by (simp add: written_formI)
qed simp_all

section \<open>From a stream to events and to a document\<close>

lemma json_stream_reads:
  assumes "st_ok s" "st_left s = w @ t @ rest" "white w" "json_form a t" "value_end rest"
  obtains es r' where "json_ParseStream (jr_new s) = (es, Inr r')" "represents a es" "jr_left r' = rest"
proof -
  have ok: "jr_ok (jr_new s)" using assms(1) by (cases s) (simp_all add: jr_ok_def jr_new_def reader_inSitu_def)
  have l: "jr_left (jr_new s) = w @ (t @ rest)" using assms(2) by (simp add: jr_left_def jr_new_def)
  note st = form_starts(1) [OF assms(4)]
  from jr_Skip_reads [OF ok l assms(3) starts_skip [OF st]] obtain r1 where
    r1: "jr_Skip (jr_new s) = lift_r (Inr r1)" "jr_left r1 = t @ rest" "jr_same (jr_new s) r1" .
  have "2 * length t \<le> json_fuel r1" using r1(2) by (simp add: json_fuel_def)
  from reads_valueE [OF form_reads(1) [OF assms(4)] jr_same_ok [OF r1(3)] r1(2) assms(5) this] obtain es r' where
    r': "json_ParseValue (json_fuel r1) r1 = (es, Inr r')" "represents a es" "jr_left r' = rest" .
  have "\<not> st_Eof (jr_is r1)" using st.eof_left [of "jr_is r1"] jr_same_ok [OF r1(3)] r1(2) st
    by (auto simp: jr_ok_def jr_left_def starts_def)
  then have "json_ParseStream (jr_new s) = (es, Inr r')" using r1(1) r'(1) by (simp add: json_ParseStream_def)
  with r' that show thesis by blast
qed

lemma value_end_Nil [simp]: "value_end []"
  by (simp add: value_end_def digit_end_def is_digit_def)

lemma json_document_reads:
  assumes "st_ok s" "st_left s = w @ t @ rest" "white w" "json_form a t" "value_end rest"
    and "doc_fits a" "doc_norm (doc_convert d) mktime a = Some b"
  shows "\<exists>d'. JsonReader_ParseStream (doc_step mktime) (jr_new s) d = Inr (d', None)
    \<and> value_ok (doc_value d') \<and> abs_value (doc_value d') = b"
proof -
  from json_stream_reads [OF assms(1-5)] obtain es r' where
    es: "json_ParseStream (jr_new s) = (es, Inr r')" "represents a es" .
  from document_builds [OF es(2) assms(6,7)] obtain d' where
    d': "run_events (doc_step mktime) (EvStartDocument # es @ [EvEndDocument]) d = Inr d'"
      "value_ok (doc_value d')" "abs_value (doc_value d') = b" by blast
  from d'(1) obtain d1 d2 where "doc_step mktime d EvStartDocument = Inr d1" "run_events (doc_step mktime) es d1 = Inr d2"
    "doc_step mktime d2 EvEndDocument = Inr d'"
    by (auto simp: run_events_append)
  from parse_document_ok [OF this, of r'] es(1) d'(2,3) show ?thesis by (simp add: JsonReader_ParseStream_def)
qed

lemma json_fits_writable: "json_fits (js_encoding c) a \<Longrightarrow> json_writable c a \<and> complete a"
proof (induction a)
  case (AMap ms)
  have "json_writable c (snd m) \<and> complete (snd m)" if "m \<in> set ms" for m
    using AMap.IH [OF that snds.intros] AMap.prems that by simp
  then show ?case using AMap.prems by auto
qed auto

end
