(* ===== verification/AnyRpc_JsonTotal.thy ===== *)
theory AnyRpc_JsonTotal
  imports AnyRpc_JsonText
begin

text \<open>
  The JSON reader on any input whatsoever: it always comes to an end, by a normal return or an
  \<^verbatim>\<open>AnyRpcException\<close>; only a minus sign with ten or more digits behind it can lead to undefined
  behaviour (the overflow of an exponent, or of the negation of the smallest integers).
\<close>

section \<open>Outcomes\<close>

definition outcome :: "bool \<Rightarrow> ('s \<Rightarrow> bool) \<Rightarrow> 's result \<Rightarrow> bool" where
  "outcome ub P r \<longleftrightarrow>
     (case r of Inr x \<Rightarrow> P x | Inl (AnyRpcException c) \<Rightarrow> True | Inl UndefinedBehaviour \<Rightarrow> ub | Inl OutOfFuel \<Rightarrow> False)"

lemma outcome_simps [simp]: "outcome ub P (Inr x) \<longleftrightarrow> P x" "outcome ub P (Inl (AnyRpcException c))"
  "outcome ub P (Inl UndefinedBehaviour) \<longleftrightarrow> ub" "\<not> outcome ub P (Inl OutOfFuel)"
  by (simp_all add: outcome_def)

lemma outcome_mono: "outcome ub P r \<Longrightarrow> (ub \<Longrightarrow> ub') \<Longrightarrow> (\<And>x. P x \<Longrightarrow> Q x) \<Longrightarrow> outcome ub' Q r"
  by (auto simp: outcome_def split: sum.splits err.splits)

lemma outcome_Inl: "outcome ub P (Inl e) \<Longrightarrow> outcome ub Q (Inl e)"
  by (simp add: outcome_def)

lemma outcome_then_r: "outcome ub P m \<Longrightarrow> (\<And>x. P x \<Longrightarrow> outcome ub Q (k x)) \<Longrightarrow> outcome ub Q (then_r m k)"
  by (cases m) (auto simp: outcome_def)

lemma outcome_then_p:
  "outcome ub P (snd m) \<Longrightarrow> (\<And>x. P x \<Longrightarrow> outcome ub Q (snd (k x))) \<Longrightarrow> outcome ub Q (snd (then_p m k))"
  by (cases m; cases "snd m") (auto simp: outcome_def)

lemma outcome_check: "(b \<Longrightarrow> outcome ub P r) \<Longrightarrow> outcome ub P (check_that b (AnyRpcException c) r)"
  by (cases b) auto

section \<open>What has been read\<close>

text \<open>\<open>reach n r r'\<close>: from \<open>r\<close> to \<open>r'\<close> at least \<open>n\<close> bytes were taken.\<close>

definition reach :: "nat \<Rightarrow> jr \<Rightarrow> jr \<Rightarrow> bool" where
  "reach n r r' \<longleftrightarrow> jr_ok r' \<and> (\<exists>ys. jr_left r = ys @ jr_left r' \<and> n \<le> length ys)"

lemma reach_refl: "jr_ok r \<Longrightarrow> reach 0 r r"
  by (simp add: reach_def)

lemma reach_trans: "reach m a b \<Longrightarrow> reach n b c \<Longrightarrow> k \<le> m + n \<Longrightarrow> reach k a c"
  unfolding reach_def
proof (elim conjE exE, intro conjI)
  fix xs ys
  assume "jr_left a = xs @ jr_left b" "m \<le> length xs" "jr_left b = ys @ jr_left c" "n \<le> length ys" "k \<le> m + n"
  then show "\<exists>zs. jr_left a = zs @ jr_left c \<and> k \<le> length zs" by (intro exI [of _ "xs @ ys"]) simp
qed

lemma reach_mono: "reach n a b \<Longrightarrow> m \<le> n \<Longrightarrow> reach m a b"
  unfolding reach_def by auto

lemma reach_ok: "reach n a b \<Longrightarrow> jr_ok b"
  by (simp add: reach_def)

lemma reach_length: "reach n a b \<Longrightarrow> length (jr_left b) + n \<le> length (jr_left a)"
  by (auto simp: reach_def)

lemma reach_get:
  assumes "jr_ok r"
  obtains c r' where "jr_Get r = (c, r')" "c = next_byte (jr_left r)" "reach (if jr_left r = [] then 0 else 1) r r'"
    "jr_left r' = tl (jr_left r)"
proof -
  from assms have ok: "st_ok (jr_is r)" by (simp add: jr_ok_def)
  from st_Get_cases [OF ok] obtain d s' where s': "st_Get (jr_is r) = (d, s')" "st_ok s'"
    "st_kind s' = st_kind (jr_is r)" "st_left s' = tl (st_left (jr_is r))"
    "d = (case st_left (jr_is r) of [] \<Rightarrow> 0 | c # _ \<Rightarrow> c)" .
  have "jr_ok (r \<lparr> jr_is := s' \<rparr>)" using s'(2) assms st_kind_InSitu_stream [OF s'(3)] by (auto simp: jr_ok_def)
  then show thesis using s'
    by (intro that [of d "r \<lparr> jr_is := s' \<rparr>"])
      (auto simp: jr_Get_def jr_left_def next_byte_def reach_def intro!: exI [of _ "take 1 (st_left (jr_is r))"] split: list.splits)
qed

lemma reach_get_nonzero: "jr_ok r \<Longrightarrow> jr_Peek r \<noteq> 0 \<Longrightarrow> \<exists>c r'. jr_Get r = (c, r') \<and> c = jr_Peek r \<and> reach 1 r r' \<and> jr_left r' = tl (jr_left r)"
proof -
  assume r: "jr_ok r" "jr_Peek r \<noteq> 0"
  then have "jr_left r \<noteq> []" by (auto simp: jr_ok_Peek)
  with reach_get [OF r(1)] r show ?thesis by (auto simp: jr_ok_Peek)
qed

lemma reach_Skip: "jr_ok r \<Longrightarrow> outcome ub (reach 0 r) (snd (jr_Skip r))"
proof -
  assume r: "jr_ok r"
  let ?w = "takeWhile IsWhiteSpace (jr_left r)" and ?t = "dropWhile IsWhiteSpace (jr_left r)"
  have "?t = [] \<or> \<not> IsWhiteSpace (next_byte ?t)" using hd_dropWhile [of IsWhiteSpace "jr_left r"] by (cases ?t) auto
  from jr_Skip_reads [OF r _ _ this, of ?w] obtain r' where "jr_Skip r = lift_r (Inr r')" "jr_left r' = ?t" "jr_same r r'"
    by (auto simp: white_def dest: set_takeWhileD)
  then show ?thesis by (auto simp: reach_def jr_same_def intro: exI [of _ ?w])
qed

section \<open>Literals and strings\<close>

lemma reach_expect:
  "jr_ok r \<Longrightarrow> 0 \<notin> set cs \<Longrightarrow> outcome ub (reach (length cs) r) (jr_expect cs r)"
proof (induction cs arbitrary: r)
  case Nil
  then show ?case by (simp add: reach_refl)
next
  case (Cons c cs)
  from reach_get [OF Cons.prems(1)] obtain d r' where r': "jr_Get r = (d, r')" "d = next_byte (jr_left r)"
    "reach (if jr_left r = [] then 0 else 1) r r'" .
  show ?case
  proof (cases "d = c")
    case True
    then have "reach 1 r r'" using r' Cons.prems(2) by (auto split: if_splits)
    from Cons.IH [OF reach_ok [OF this]] Cons.prems(2) have "outcome ub (reach (length cs) r') (jr_expect cs r')" by simp
    then have "outcome ub (reach (length (c # cs)) r) (jr_expect cs r')"
      by (rule outcome_mono) (auto intro: reach_trans [OF \<open>reach 1 r r'\<close>])
    then show ?thesis using r'(1) True by simp
  qed (use r'(1) in simp)
qed

lemma decode_hex_suffix: "decode_hex n u xs = Inr (v, ys) \<Longrightarrow> \<exists>zs. xs = zs @ ys"
proof (induction n arbitrary: u xs)
  case (Suc n)
  from Suc.prems obtain w where w: "hex_value (next_byte xs) = Some w" "decode_hex n (push_bit 4 u + w) (tl xs) = Inr (v, ys)"
    by (auto split: option.splits)
  then obtain c cs where "xs = c # cs" by (cases xs) auto
  with Suc.IH [OF w(2)] show ?case by (auto intro: exI [of _ "c # _"])
qed simp

lemma tl_suffix: "\<exists>zs. xs = zs @ tl xs"
  by (cases xs) (auto intro: exI [of _ "[_]"])

lemma suffix_trans: "\<exists>zs. xs = zs @ ys \<Longrightarrow> \<exists>zs. ys = zs @ ws \<Longrightarrow> \<exists>zs. xs = zs @ ws"
  by (metis append.assoc)

lemma decode_trail_suffix: "decode_trail u xs = Inr (v, ys) \<Longrightarrow> \<exists>zs. xs = zs @ ys"
  unfolding decode_trail_def
  by (auto split: if_splits dest!: decode_hex_suffix intro: suffix_trans [OF tl_suffix suffix_trans [OF tl_suffix]])

lemma decode_codepoint_suffix:
  assumes "decode_codepoint xs = Inr (v, ys)"
  shows "\<exists>zs. xs = zs @ ys"
proof -
  from assms obtain u zs where u: "decode_hex 4 0 xs = Inr (u, zs)"
    "(if 0xD800 \<le> u \<and> u \<le> 0xDBFF then decode_trail u zs else Inr (u, zs)) = Inr (v, ys)"
    unfolding decode_codepoint_def then_r_Inr by auto
  have "\<exists>ws. zs = ws @ ys" using u(2) decode_trail_suffix [of u zs v ys] by (cases "0xD800 \<le> u \<and> u \<le> 0xDBFF") simp_all
  from suffix_trans [OF decode_hex_suffix [OF u(1)] this] show ?thesis .
qed

lemma json_decode_suffix: "json_decode xs = Inr (s, rest) \<Longrightarrow> \<exists>zs. xs = zs @ rest"
proof (induction xs arbitrary: s rule: json_decode.induct)
  case (1 xs)
  from "1.prems" obtain c cs where xs: "xs = c # cs" by (cases xs) auto
  have C: "\<exists>zs. c # cs = zs @ rest" if "\<exists>zs. cs = zs @ rest" using that by (metis append_Cons)
  note p = "1.prems" [unfolded xs json_decode_Cons]
  consider "c = 0x5C" "json_unescape_char (next_byte cs) \<noteq> 0" | "c = 0x5C" "json_unescape_char (next_byte cs) = 0"
    | "c = 0x22" | "c \<noteq> 0x5C" "c \<noteq> 0x22" by blast
  then show ?case
  proof cases
    case 1
    with p obtain s' where "json_decode (tl cs) = Inr (s', rest)" by auto
    from "1.IH"(1) [OF xs 1 this] show ?thesis unfolding xs by (rule C [OF suffix_trans [OF tl_suffix]])
  next
    case 2
    with p obtain u ys s' where u: "next_byte cs = 0x75" "decode_codepoint (tl cs) = Inr (u, ys)" "json_decode ys = Inr (s', rest)"
      by (auto split: if_splits sum.splits)
    from "1.IH"(2) [OF xs 2(1) _ u(1,2) refl u(3)] 2(2) have "\<exists>zs. ys = zs @ rest" by simp
    from suffix_trans [OF decode_codepoint_suffix [OF u(2)] this] show ?thesis unfolding xs by (rule C [OF suffix_trans [OF tl_suffix]])
  next
    case 3
    then show ?thesis using p by (auto simp: xs intro: exI [of _ "[_]"])
  next
    case 4
    with p obtain s' where "c \<noteq> 0" "\<not> c < 0x20" "json_decode cs = Inr (s', rest)" by (auto split: if_splits)
    from "1.IH"(3) [OF xs 4 this] show ?thesis unfolding xs by (rule C)
  qed
qed

lemma decode_hex_outcome: "outcome ub (\<lambda>_. True) (decode_hex n u xs)"
  by (induction n arbitrary: u xs) (auto split: option.splits)

lemma decode_trail_outcome: "outcome ub (\<lambda>_. True) (decode_trail u xs)"
  unfolding decode_trail_def by (auto intro!: outcome_then_r [OF decode_hex_outcome])

lemma decode_codepoint_outcome: "outcome ub (\<lambda>_. True) (decode_codepoint xs)"
  unfolding decode_codepoint_def
  by (rule outcome_then_r [OF decode_hex_outcome]) (simp add: decode_trail_outcome split: prod.splits)

lemma json_decode_outcome: "outcome ub (\<lambda>_. True) (json_decode xs)"
proof (induction xs rule: json_decode.induct)
  case (1 xs)
  show ?case
  proof (cases xs)
    case (Cons c cs)
    note IH = "1.IH" [OF Cons]
    have u: "outcome ub (\<lambda>_. True) (case decode_codepoint (tl cs) of
        Inl e \<Rightarrow> Inl e
      | Inr (codepoint, ys) \<Rightarrow> then_r (json_decode ys) (\<lambda>(s, rest). Inr (EncodeUtf8 codepoint @ s, rest)))"
      if c: "c = 0x5C" "\<not> json_unescape_char (next_byte cs) \<noteq> 0" "next_byte cs = 0x75"
    proof (cases "decode_codepoint (tl cs)")
      case (Inl e)
      with decode_codepoint_outcome [of ub "tl cs"] show ?thesis by (auto intro: outcome_Inl)
    next
      case (Inr p)
      obtain a b where p: "p = (a, b)" by (cases p)
      from IH(2) [OF c Inr p [symmetric]] show ?thesis unfolding Inr p by (auto intro: outcome_then_r)
    qed
    show ?thesis unfolding Cons json_decode_Cons using u IH(1,3) by (auto intro: outcome_then_r)
  qed simp
qed

lemma reach_string:
  assumes "jr_ok r"
  shows "outcome ub (reach 1 r) (snd (json_string ev r))"
proof (cases "jr_Peek r = 0x22")
  case True
  then obtain xs where xs: "jr_left r = 0x22 # xs" using assms by (cases "jr_left r") (auto simp: jr_ok_Peek)
  note d = json_string_decode [OF assms xs, of ev]
  show ?thesis
  proof (cases "json_decode xs")
    case (Inl e)
    with d json_decode_outcome [of ub xs] show ?thesis by (auto simp: outcome_def)
  next
    case (Inr p)
    obtain s rest where p: "p = (s, rest)" by (cases p)
    with d Inr obtain mem copy r' where r': "json_string ev r = ([ev mem (length s) copy], Inr r')" "jr_left r' = rest" "jr_same r r'"
      by auto
    from json_decode_suffix [of xs s rest] Inr p obtain zs where "xs = zs @ rest" by auto
    then have "reach 1 r r'" using r'(2,3) xs by (auto simp: reach_def jr_same_def intro: exI [of _ "0x22 # zs"])
    then show ?thesis using r'(1) by simp
  qed
next
  case False
  then show ?thesis by (simp add: json_string_def lift_r_def then_p_def)
qed

section \<open>Numbers\<close>

text \<open>\<open>many t\<close>: at least ten digits at the start of \<open>t\<close>; \<open>digits_from t j r\<close>: \<open>j\<close> of them have been taken.\<close>

definition many :: "bytes \<Rightarrow> bool" where "many t \<longleftrightarrow> 10 \<le> length (takeWhile is_digit t)"

definition long_minus :: "bytes \<Rightarrow> bool" where "long_minus xs \<longleftrightarrow> (\<exists>ys t. xs = ys @ 0x2D # t \<and> many t)"

definition digits_from :: "bytes \<Rightarrow> nat \<Rightarrow> jr \<Rightarrow> bool" where
  "digits_from t j r \<longleftrightarrow> jr_ok r \<and> (\<exists>ds. t = ds @ jr_left r \<and> length ds = j \<and> (\<forall>c \<in> set ds. is_digit c))"

lemma digits_from_0: "jr_ok r \<Longrightarrow> digits_from (jr_left r) 0 r"
  by (simp add: digits_from_def)

lemma digits_from_many: "digits_from t j r \<Longrightarrow> 10 \<le> j \<Longrightarrow> many t"
  by (auto simp: digits_from_def many_def takeWhile_append)

lemma digits_from_ok: "digits_from t j r \<Longrightarrow> jr_ok r"
  by (simp add: digits_from_def)

lemma digits_from_get:
  assumes "digits_from t j r" "is_digit (jr_Peek r)"
  obtains r' where "jr_Get r = (jr_Peek r, r')" "digits_from t (Suc j) r'"
proof -
  have ok: "jr_ok r" using assms(1) by (simp add: digits_from_def)
  with assms(2) have "jr_left r \<noteq> []" by (auto simp: jr_ok_Peek is_digit_def)
  then obtain c cs where l: "jr_left r = c # cs" by (cases "jr_left r") auto
  from jr_get_Cons [OF ok l] obtain r' where r': "jr_Get r = (c, r')" "jr_left r' = cs" "jr_same r r'" .
  from assms(1) obtain ds where "t = ds @ c # cs" "length ds = j" "\<forall>c \<in> set ds. is_digit c" using l by (auto simp: digits_from_def)
  moreover have "c = jr_Peek r" using ok l by (simp add: jr_ok_Peek)
  ultimately show thesis using r' assms(2)
    by (intro that [of r']) (auto simp: digits_from_def jr_same_def intro!: exI [of _ "ds @ [c]"])
qed

lemma digit_loop_outcome:
  assumes "\<And>j n c. I j n \<Longrightarrow> is_digit c \<Longrightarrow> outcome (U (Suc j)) (I (Suc j)) (body n c)"
    and "\<And>j r. U j \<Longrightarrow> digits_from t j r \<Longrightarrow> ub"
  shows "digits_from t j r \<Longrightarrow> I j n \<Longrightarrow> length (jr_left r) < k \<Longrightarrow>
    outcome ub (\<lambda>((n', b), r'). \<exists>j' \<ge> j. digits_from t j' r' \<and> I j' n') (digit_loop k stop body n r)"
proof (induction k arbitrary: j n r)
  case (Suc k)
  show ?case
  proof (cases "is_digit (jr_Peek r) \<and> \<not> stop n (jr_Peek r)")
    case False
    then show ?thesis using Suc.prems by (auto simp: digit_loop.simps)
  next
    case True
    from digits_from_get [OF Suc.prems(1)] True obtain r' where r': "jr_Get r = (jr_Peek r, r')" "digits_from t (Suc j) r'" by blast
    have "length (jr_left r') < k"
      using r'(2) Suc.prems(1,3) by (auto simp: digits_from_def dest: arg_cong [of _ _ length])
    then have IH: "outcome ub (\<lambda>((n', b), r'). \<exists>j' \<ge> j. digits_from t j' r' \<and> I j' n') (digit_loop k stop body n' r')"
      if "I (Suc j) n'" for n'
      using Suc.IH [OF r'(2) that] by (auto elim!: outcome_mono intro: Suc_leD)
    have "outcome ub (I (Suc j)) (body n (jr_Peek r))"
      using assms(1) [OF Suc.prems(2), of "jr_Peek r"] True assms(2) [OF _ r'(2)] by (auto elim!: outcome_mono)
    from outcome_then_r [OF this IH] show ?thesis using True r'(1) by (simp add: digit_loop.simps)
  qed
qed simp

lemma digits_outcome:
  assumes "\<And>j n c. I j n \<Longrightarrow> is_digit c \<Longrightarrow> outcome False (I (Suc j)) (body n c)" "digits_from t j r" "I j n"
  shows "outcome ub (\<lambda>((n', b), r'). \<exists>j' \<ge> j. digits_from t j' r' \<and> I j' n') (digits stop body n r)"
  unfolding digits_def by (rule digit_loop_outcome [where I = I and U = "\<lambda>j. False"]) (use assms in auto)

lemma digits_safe:
  assumes "\<And>n c. I n \<Longrightarrow> is_digit c \<Longrightarrow> outcome False I (body n c)" "jr_ok r" "I n"
  shows "outcome ub (\<lambda>((n', b), r'). reach 0 r r' \<and> I n') (digits stop body n r)"
proof -
  have "outcome ub (\<lambda>((n', b), r'). \<exists>j' \<ge> 0. digits_from (jr_left r) j' r' \<and> I n') (digits stop body n r)"
    unfolding digits_def
    by (rule digit_loop_outcome [where I = "\<lambda>j. I" and U = "\<lambda>j. False"]) (use assms digits_from_0 in auto)
  then show ?thesis by (rule outcome_mono) (auto simp: digits_from_def reach_def)
qed

text \<open>What holds of the number while the integer digits are read, and from then on.\<close>

definition int_part :: "nat \<Rightarrow> jnum \<Rightarrow> bool" where
  "int_part j n \<longleftrightarrow> unat (n_i n) < 10 ^ j \<and> unat (n_i64 n) < 10 ^ j \<and> \<not> n_useDouble n \<and> n_expFrac n = 0 \<and> n_exp n = 0"

definition read_int :: "bytes \<Rightarrow> jnum \<times> jr \<Rightarrow> bool" where
  "read_int t nr \<longleftrightarrow> (case nr of (n, r) \<Rightarrow> \<exists>j > 0. digits_from t j r \<and> int_part j n)"

definition past :: "bytes \<Rightarrow> jr \<Rightarrow> bool" where
  "past t r \<longleftrightarrow> jr_ok r \<and> (\<exists>ys. t = ys @ jr_left r \<and> ys \<noteq> [])"

definition late :: "jnum \<Rightarrow> bool" where "late n \<longleftrightarrow> n_useDouble n \<and> n_expFrac n \<le> 0 \<and> n_exp n = 0"

definition read_number :: "bytes \<Rightarrow> jnum \<times> jr \<Rightarrow> bool" where
  "read_number t nr \<longleftrightarrow> (case nr of (n, r) \<Rightarrow> past t r \<and> (late n \<or> read_int t (n, r)))"

lemma past_reach: "past t r \<Longrightarrow> reach k r r' \<Longrightarrow> past t r'"
  by (auto simp: past_def reach_def)

lemma past_ok: "past t r \<Longrightarrow> jr_ok r"
  by (simp add: past_def)

lemma digits_from_past: "digits_from t j r \<Longrightarrow> 0 < j \<Longrightarrow> past t r"
  by (auto simp: digits_from_def past_def)

lemma read_int_past: "read_int t (n, r) \<Longrightarrow> past t r"
  by (auto simp: read_int_def intro: digits_from_past)

lemma add_bounds:
  assumes "unat w < 10 ^ j" "is_digit c"
  shows "unat (w * 10 + ucast (c - 0x30) :: 'a::len word) < 10 ^ Suc j"
proof -
  have ten: "unat (10 :: 'a word) \<le> 10"
    unfolding unsigned_numeral by (simp add: take_bit_eq_mod)
  have "unat (w * 10 + ucast (c - 0x30)) \<le> unat (w * 10) + unat (ucast (c - 0x30) :: 'a word)"
    unfolding unat_word_ariths(1) by simp
  also have "unat (w * 10) \<le> unat w * 10" unfolding unat_word_ariths(2)
    using ten mult_le_mono2 [OF ten, of "unat w"] order.trans [OF mod_less_eq_dividend] by blast
  also have "unat (ucast (c - 0x30) :: 'a word) \<le> digit_val c"
    unfolding is_digit_val(3) [OF assms(2)] by simp
  finally show ?thesis using assms(1) is_digit_val(1) [OF assms(2)] by simp
qed

lemma json_int32_outcome:
  assumes "jr_ok r"
  shows "outcome ub (read_int (jr_left r)) (json_int32 neg r)"
proof (cases "is_digit (jr_Peek r)")
  case True
  from digits_from_get [OF digits_from_0 [OF assms] True] obtain r1 where
    r1: "jr_Get r = (jr_Peek r, r1)" "digits_from (jr_left r) 1 r1" by auto
  have new: "int_part 1 jnum_new" by (simp add: int_part_def jnum_new_def)
  let ?n = "jnum_new \<lparr> n_i := ucast (jr_Peek r - 0x30) \<rparr>"
  have n: "int_part 1 ?n"
    using is_digit_val(1) [OF True] is_digit_val(3) [OF True, where 'a = 32] by (simp add: int_part_def jnum_new_def)
  have add: "outcome False (int_part (Suc j)) (Inr (add32 n c))" if "int_part j n" "is_digit c" for j n c
    using that add_bounds [of "n_i n" j c] by (simp add: int_part_def add32_def)
  have "outcome ub (read_int (jr_left r)) (then_r (digits (stop32 neg) (\<lambda>n c. Inr (add32 n c)) ?n r1)
      (\<lambda>((n, broke), r2). Inr (if broke then n \<lparr> n_i64 := ucast (n_i n), n_use64bit := True \<rparr> else n, r2)))"
    by (rule outcome_then_r [OF digits_outcome [where I = int_part, OF add r1(2) n]])
      (auto simp: read_int_def int_part_def unsigned_ucast_eq take_bit_nat_eq_self order.strict_trans [OF unsigned_less]
        Suc_le_eq intro: less_le_trans)
  then show ?thesis using True r1 new by (auto simp: json_int32_def read_int_def)
qed (auto simp: json_int32_def is_digit_def)

lemma json_int64_outcome:
  assumes "read_int t (n, r)"
  shows "outcome ub (read_number t) (json_int64 neg n r)"
proof (cases "n_use64bit n")
  case True
  from assms obtain j where j: "j > 0" "digits_from t j r" "int_part j n" by (auto simp: read_int_def)
  have add: "outcome False (int_part (Suc j)) (Inr (add64 n c))" if "int_part j n" "is_digit c" for j n c
    using that add_bounds [of "n_i64 n" j c] by (simp add: int_part_def add64_def)
  have k: "outcome ub (read_number t)
      (Inr (if b then n' \<lparr> n_d := double_of_int (uint (n_i64 n')), n_useDouble := True \<rparr> else n', r'))"
    if j': "j' \<ge> j" "digits_from t j' r'" "int_part j' n'" for j' n' b r'
    using digits_from_past [OF j'(2)] j' j(1) by (auto simp: read_int_def read_number_def late_def int_part_def intro!: exI [of _ j'])
  have "outcome ub (read_number t) (then_r (digits (stop64 neg) (\<lambda>n c. Inr (add64 n c)) n r)
      (\<lambda>((n, broke), r). Inr (if broke then n \<lparr> n_d := double_of_int (uint (n_i64 n)), n_useDouble := True \<rparr> else n, r)))"
    by (rule outcome_then_r, rule digits_outcome [where I = int_part, OF _ j(2,3)]) (use add k in fastforce)+
  then show ?thesis using True by (simp add: json_int64_def)
qed (use assms read_int_past in \<open>auto simp: json_int64_def read_number_def\<close>)

lemma json_bigint_outcome:
  assumes "read_number t (n, r)"
  shows "outcome ub (read_number t) (json_bigint n r)"
proof (cases "n_useDouble n")
  case True
  with assms have a: "past t r" "late n" by (auto simp: read_number_def read_int_def int_part_def)
  have body: "outcome False late (if b then Inl AnyRpcErrorNumberTooBig else Inr (addDouble n c))" if "late n" for n c b
    using that by (cases b) (simp_all add: late_def addDouble_def)
  show ?thesis unfolding json_bigint_def if_P [OF True]
    by (rule outcome_then_r [OF digits_safe [where I = late, OF body past_ok [OF a(1)] a(2)]])
      (auto simp: read_number_def intro: past_reach [OF a(1)])
qed (use assms in \<open>simp add: json_bigint_def\<close>)

lemma late_frac:
  "late n \<Longrightarrow> late (fracDouble_body n c)"
  by (simp add: late_def fracDouble_body_def addDouble_def Let_def)

definition early :: "jnum \<Rightarrow> bool" where "early n \<longleftrightarrow> n_expFrac n \<le> 0 \<and> n_exp n = 0"

lemma early_frac: "early n \<Longrightarrow> early (frac_body n c)"
  by (simp add: early_def frac_body_def Let_def)

lemma json_frac_outcome:
  assumes "read_number t (n, r)"
  shows "outcome ub (read_number t) (json_frac n r)"
proof (cases "jr_Peek r = 0x2E")
  case True
  have p: "past t r" and e: "early n" "n_useDouble n \<Longrightarrow> late n"
    using assms by (auto simp: read_number_def late_def early_def read_int_def int_part_def)
  from reach_get_nonzero [OF past_ok [OF p]] True obtain c r1 where r1: "jr_Get r = (c, r1)" "reach 1 r r1" by auto
  have ok1: "jr_ok r1" using reach_ok [OF r1(2)] .
  let ?n = "if \<not> n_use64bit n then n \<lparr> n_i64 := ucast (n_i n) \<rparr> else n"
  have "early ?n" using e by (simp add: early_def)
  then have 1: "outcome ub (\<lambda>(n, r). reach 0 r1 r \<and> late n)
     (if \<not> n_useDouble n then
        then_r (digits (\<lambda>n c. n_i64 n > 0x1FFFFFFFFFFFFF) (\<lambda>n c. Inr (frac_body n c)) ?n r1)
          (\<lambda>((n, _), r). Inr (n \<lparr> n_d := double_of_int (uint (n_i64 n)), n_useDouble := True \<rparr>, r))
      else Inr (n, r1))"
    using e(2) by (auto intro!: outcome_then_r [OF digits_safe [where I = early, OF _ ok1]]
      simp: early_frac reach_refl ok1) (simp_all add: late_def early_def)
  have 2: "outcome ub (read_number t) (then_r (digits (\<lambda>n c. False) (\<lambda>n c. Inr (fracDouble_body n c)) n2 r2) (\<lambda>((n, _), r). Inr (n, r)))"
    if "reach 0 r1 r2" "late n2" for n2 r2
    by (rule outcome_then_r [OF digits_safe [where I = late, OF _ reach_ok [OF that(1)] that(2)]])
      (auto simp: late_frac read_number_def intro: past_reach [OF past_reach [OF past_reach [OF p r1(2)] that(1)]])
  show ?thesis unfolding json_frac_def if_P [OF True] r1(1) prod.case
    by (rule outcome_check, rule outcome_then_r [OF 1]) (use 2 in auto)
qed (use assms in \<open>simp add: json_frac_def\<close>)

lemma exp_bound:
  assumes "\<not> many t" "t = ds @ c # cs" "\<forall>d \<in> set ds. is_digit d" "is_digit c"
  shows "digits_val 0 (ds @ [c]) < 2 ^ 31"
proof -
  have "\<forall>d \<in> set (ds @ [c]). is_digit d" using assms(3,4) by auto
  from digits_val_less [OF this] have v: "digits_val 0 (ds @ [c]) < 10 ^ length (ds @ [c])" .
  have "takeWhile is_digit t = (ds @ [c]) @ takeWhile is_digit cs" using assms(2-4) by (simp add: takeWhile_append)
  with assms(1) have "length (ds @ [c]) \<le> 9" by (simp add: many_def)
  then have "(10 :: nat) ^ length (ds @ [c]) \<le> 10 ^ 9" by (intro power_increasing) simp_all
  with v show ?thesis by simp
qed

text \<open>The exponent: it is the value of its digits, and with a plus sign at most 308.\<close>

lemma exp_loop_outcome:
  assumes "expMinus \<Longrightarrow> many t \<Longrightarrow> ub"
  shows "jr_ok r \<Longrightarrow> t = ds @ jr_left r \<Longrightarrow> \<forall>c \<in> set ds. is_digit c \<Longrightarrow> n_exp n = int (digits_val 0 ds) \<Longrightarrow>
    (expMinus \<or> n_exp n \<le> 308) \<Longrightarrow> n_useDouble n \<Longrightarrow> n_expFrac n \<le> 0 \<Longrightarrow> length (jr_left r) < k \<Longrightarrow>
    outcome ub (\<lambda>((n', b), r'). reach 0 r r' \<and> n_useDouble n' \<and> n_expFrac n' \<le> 0 \<and> 0 \<le> n_exp n' \<and> (expMinus \<or> n_exp n' \<le> 308))
      (digit_loop k (\<lambda>n c. False) (exp_body expMinus) n r)"
proof (induction k arbitrary: ds n r)
  case (Suc k)
  show ?case
  proof (cases "is_digit (jr_Peek r)")
    case False
    then show ?thesis using Suc.prems by (auto simp: digit_loop.simps reach_refl)
  next
    case True
    with Suc.prems(1) have "jr_left r \<noteq> []" by (auto simp: jr_ok_Peek is_digit_def)
    then obtain c cs where l: "jr_left r = c # cs" by (cases "jr_left r") auto
    from jr_get_Cons [OF Suc.prems(1) l] obtain r' where r': "jr_Get r = (c, r')" "jr_left r' = cs" "jr_same r r'" .
    have c: "is_digit c" using True Suc.prems(1) l by (simp add: jr_ok_Peek)
    have reach: "reach 0 r r'" using r'(2,3) l by (auto simp: reach_def jr_same_def)
    define e where "e = n_exp n * 10 + int (digit_val c)"
    have e: "e = int (digits_val 0 (ds @ [c]))" using Suc.prems(4) by (simp add: e_def digits_val_append)
    consider (big) "e \<ge> 2 ^ 31" | (stop) "e < 2 ^ 31" "e > 308" "\<not> expMinus" | (go) "e < 2 ^ 31" "expMinus \<or> e \<le> 308" by linarith
    then show ?thesis
    proof cases
      case big
      have "expMinus"
      proof (rule ccontr)
        assume m: "\<not> expMinus"
        with Suc.prems(5) have "n_exp n \<le> 308" by simp
        with big is_digit_val(1) [OF c] show False by (simp add: e_def)
      qed
      moreover have "many t" using exp_bound [of t ds c cs] Suc.prems(2,3) l c big e by fastforce
      ultimately have ub by (rule assms)
      then show ?thesis using True r'(1) big by (simp add: digit_loop.simps exp_body_def e_def [symmetric] Let_def)
    next
      case stop
      then show ?thesis using True r'(1) by (simp add: digit_loop.simps exp_body_def e_def [symmetric] Let_def)
    next
      case go
      have s: "digit_loop (Suc k) (\<lambda>n c. False) (exp_body expMinus) n r
          = digit_loop k (\<lambda>n c. False) (exp_body expMinus) (n \<lparr> n_exp := e \<rparr>) r'"
        using True r'(1) go by (auto simp: digit_loop.simps exp_body_def e_def [symmetric] Let_def)
      have "outcome ub (\<lambda>((n', b), r''). reach 0 r' r'' \<and> n_useDouble n' \<and> n_expFrac n' \<le> 0 \<and> 0 \<le> n_exp n' \<and> (expMinus \<or> n_exp n' \<le> 308))
        (digit_loop k (\<lambda>n c. False) (exp_body expMinus) (n \<lparr> n_exp := e \<rparr>) r')"
        by (rule Suc.IH [of r' "ds @ [c]"]) (use Suc.prems l r' c e go jr_same_ok in auto)
      then show ?thesis unfolding s by (rule outcome_mono) (auto intro: reach_trans [OF reach])
    qed
  qed
qed simp

definition finished :: "bytes \<Rightarrow> jnum \<times> jr \<Rightarrow> bool" where
  "finished t nr \<longleftrightarrow> (case nr of (n, r) \<Rightarrow> past t r \<and> (n_useDouble n \<and> n_exp n + n_expFrac n \<le> 308 \<or> read_int t (n, r)))"

lemma long_minus_append: "long_minus xs \<Longrightarrow> long_minus (ys @ xs)"
  unfolding long_minus_def by (metis append.assoc)

lemma past_long_minus: "past t r \<Longrightarrow> long_minus (jr_left r) \<Longrightarrow> long_minus t"
  by (auto simp: past_def intro: long_minus_append)

lemma json_exp_outcome:
  assumes "read_number t (n, r)" "long_minus (jr_left r) \<Longrightarrow> ub"
  shows "outcome ub (finished t) (json_exp n r)"
proof (cases "jr_Peek r = 0x65 \<or> jr_Peek r = 0x45")
  case False
  then show ?thesis using assms(1) by (auto simp: json_exp_def finished_def read_number_def late_def)
next
  case True
  have p: "past t r" and f: "n_expFrac n \<le> 0"
    using assms(1) by (auto simp: read_number_def late_def read_int_def int_part_def)
  from True have "jr_Peek r \<noteq> 0" by auto
  from reach_get_nonzero [OF past_ok [OF p] this] obtain c r1 where r1: "jr_Get r = (c, r1)" "reach 1 r r1" by blast
  define n1 where "n1 = (if \<not> n_useDouble n
    then n \<lparr> n_d := double_of_int (if n_use64bit n then uint (n_i64 n) else uint (n_i n)), n_useDouble := True \<rparr> else n)"
  have n1: "n_useDouble n1" "n_expFrac n1 \<le> 0" using f by (simp_all add: n1_def)
  define expMinus where "expMinus = (jr_Peek r1 \<noteq> 0x2B \<and> jr_Peek r1 = 0x2D)"
  define r2 where "r2 = (if jr_Peek r1 = 0x2B \<or> jr_Peek r1 = 0x2D then snd (jr_Get r1) else r1)"
  have ok1: "jr_ok r1" using reach_ok [OF r1(2)] .
  have r2: "reach 0 r1 r2 \<and> (expMinus \<longrightarrow> jr_left r1 = 0x2D # jr_left r2)"
  proof (cases "jr_Peek r1 = 0x2B \<or> jr_Peek r1 = 0x2D")
    case True
    then have "jr_Peek r1 \<noteq> 0" by auto
    from reach_get_nonzero [OF ok1 this] obtain r' where r': "jr_Get r1 = (jr_Peek r1, r')" "reach 1 r1 r'" "jr_left r' = tl (jr_left r1)" by blast
    then have "r2 = r'" "jr_left r1 = jr_Peek r1 # jr_left r'"
      using True ok1 by (auto simp: r2_def jr_ok_Peek) (cases "jr_left r1"; auto)+
    then show ?thesis using r'(2) by (auto simp: expMinus_def intro: reach_mono)
  next
    case False
    then show ?thesis using ok1 by (simp add: r2_def expMinus_def reach_refl)
  qed
  have ub: "ub" if "expMinus" "many (jr_left r2)"
  proof -
    from that r2 have "long_minus (jr_left r1)" unfolding long_minus_def by (metis append_Nil)
    then have "long_minus (jr_left r)" using r1(2) by (auto simp: reach_def intro: long_minus_append)
    then show ub by (rule assms(2))
  qed
  have e: "json_exp n r = (if is_digit (jr_Peek r2) then
      (case jr_Get r2 of (c, r3) \<Rightarrow>
         then_r (digits (\<lambda>n c. False) (exp_body expMinus) (n1 \<lparr> n_exp := int (digit_val c) \<rparr>) r3)
           (\<lambda>((n, _), r). Inr (if expMinus then n \<lparr> n_exp := - n_exp n \<rparr> else n, r)))
    else Inl AnyRpcErrorNumberMissExponent)"
    using True r1(1) by (simp only: json_exp_def if_True n1_def expMinus_def r2_def Let_def snd_conv)
  show ?thesis
  proof (cases "is_digit (jr_Peek r2)")
    case d: True
    have ok2: "jr_ok r2" using r2 reach_ok by blast
    with d have "jr_left r2 \<noteq> []" by (auto simp: jr_ok_Peek is_digit_def)
    then obtain c cs where l: "jr_left r2 = c # cs" by (cases "jr_left r2") auto
    from jr_get_Cons [OF ok2 l] obtain r3 where r3: "jr_Get r2 = (c, r3)" "jr_left r3 = cs" "jr_same r2 r3" .
    have c: "is_digit c" using d ok2 l by (simp add: jr_ok_Peek)
    have p3: "past t r3"
    proof -
      have "reach 0 r2 r3" using r3 l by (auto simp: reach_def jr_same_def)
      with r2 show ?thesis using past_reach [OF past_reach [OF past_reach [OF p r1(2)]]] by blast
    qed
    have "outcome ub (\<lambda>((n', b), r'). reach 0 r3 r' \<and> n_useDouble n' \<and> n_expFrac n' \<le> 0 \<and> 0 \<le> n_exp n' \<and> (expMinus \<or> n_exp n' \<le> 308))
      (digits (\<lambda>n c. False) (exp_body expMinus) (n1 \<lparr> n_exp := int (digit_val c) \<rparr>) r3)"
      unfolding digits_def
      by (rule exp_loop_outcome [where t = "jr_left r2" and ds = "[c]"])
        (use ub r3 l c n1 jr_same_ok [OF r3(3)] is_digit_val(1) [OF c] in auto)
    then have "outcome ub (finished t) (then_r (digits (\<lambda>n c. False) (exp_body expMinus) (n1 \<lparr> n_exp := int (digit_val c) \<rparr>) r3)
           (\<lambda>((n, _), r). Inr (if expMinus then n \<lparr> n_exp := - n_exp n \<rparr> else n, r)))"
      by (rule outcome_then_r) (auto simp: finished_def intro: past_reach [OF p3])
    then show ?thesis unfolding e using d r3(1) by simp
  qed (simp add: e)
qed

lemma json_number_event_outcome:
  assumes "finished t (n, r)"
  shows "outcome (neg \<and> many t) (\<lambda>_. True) (json_number_event neg n)"
proof (cases "n_useDouble n")
  case True
  with assms have "n_exp n + n_expFrac n \<le> 308" by (auto simp: finished_def read_int_def int_part_def)
  from StrtodNormalPrecision_total [OF this, of "n_d n"] True show ?thesis by (auto simp: json_number_event_def)
next
  case False
  with assms obtain j where j: "digits_from t j r" "int_part j n" by (auto simp: finished_def read_int_def)
  have m: "many t" if "2 ^ 31 \<le> k" "k < 10 ^ j" for k :: nat
  proof (rule digits_from_many [OF j(1)], rule ccontr)
    assume "\<not> 10 \<le> j"
    then have "(10 :: nat) ^ j \<le> 10 ^ 9" by (intro power_increasing) simp_all
    with that show False by simp
  qed
  have "many t" if "n_i64 n = 2 ^ 63"
    using m [of "unat (n_i64 n)"] j(2) unfolding that by (simp add: int_part_def that)
  moreover have "many t" if "n_i n = 2 ^ 31"
    using m [of "unat (n_i n)"] j(2) unfolding that by (simp add: int_part_def that)
  ultimately show ?thesis using False by (auto simp: json_number_event_def)
qed

lemma json_ParseNumber_outcome:
  assumes "jr_ok r"
  shows "outcome (long_minus (jr_left r)) (reach 1 r) (snd (json_ParseNumber r))"
proof -
  define neg where "neg = (jr_Peek r = 0x2D)"
  define r1 where "r1 = (if neg then snd (jr_Get r) else r)"
  let ?t = "jr_left r1" and ?ub = "long_minus (jr_left r)"
  have r1: "reach 0 r r1 \<and> (neg \<longrightarrow> jr_left r = 0x2D # ?t)"
  proof (cases neg)
    case True
    then have p: "jr_Peek r = 0x2D" by (simp add: neg_def)
    then have "jr_Peek r \<noteq> 0" by simp
    from reach_get_nonzero [OF assms this] obtain r' where r': "jr_Get r = (jr_Peek r, r')" "reach 1 r r'" "jr_left r' = tl (jr_left r)" by blast
    moreover have "jr_left r = 0x2D # tl (jr_left r)" using p assms by (cases "jr_left r") (auto simp: jr_ok_Peek)
    ultimately show ?thesis using True by (auto simp: r1_def intro: reach_mono)
  qed (use assms reach_refl in \<open>simp add: r1_def\<close>)
  have ok1: "jr_ok r1" using r1 reach_ok by blast
  have "\<exists>ys. jr_left r = ys @ ?t" using r1 unfolding reach_def by blast
  then have lm: "long_minus ?t \<Longrightarrow> ?ub" using long_minus_append by metis
  have nm: "neg \<and> many ?t \<Longrightarrow> ?ub" using r1 unfolding long_minus_def by (metis append_Nil)
  have 6: "outcome ?ub (\<lambda>(e, r'). reach 1 r r')
      (then_r (json_number_event neg n) (\<lambda>e. Inr (e, r')))" if "finished ?t (n, r')" for n r'
  proof (rule outcome_then_r [OF outcome_mono [OF json_number_event_outcome [OF that, of neg] nm]])
    have "reach 1 r1 r'" using that by (auto simp: finished_def past_def reach_def Suc_le_eq)
    then have "reach 1 r r'" using reach_trans [of 0 r r1 1 r' 1] r1 by simp
    then show "outcome ?ub (\<lambda>(e, r'). reach 1 r r') (Inr (e, r'))" for e by simp
  qed simp_all
  have 5: "outcome ?ub (finished ?t) (json_exp n r')" if "read_number ?t (n, r')" for n r'
    by (rule json_exp_outcome [OF that]) (use that past_long_minus lm in \<open>auto simp: read_number_def\<close>)
  have "outcome ?ub (\<lambda>(e, r'). reach 1 r r')
      (then_r (json_int32 neg r1) (\<lambda>(n, r).
       then_r (json_int64 neg n r) (\<lambda>(n, r).
       then_r (json_bigint n r) (\<lambda>(n, r).
       then_r (json_frac n r) (\<lambda>(n, r).
       then_r (json_exp n r) (\<lambda>(n, r).
       then_r (json_number_event neg n) (\<lambda>e. Inr (e, r))))))))"
    apply (rule outcome_then_r [OF json_int32_outcome [OF ok1]], clarsimp)
    apply (rule outcome_then_r [OF json_int64_outcome], assumption, clarsimp)
    apply (rule outcome_then_r [OF json_bigint_outcome], assumption, clarsimp)
    apply (rule outcome_then_r [OF json_frac_outcome], assumption, clarsimp)
    apply (rule outcome_then_r [OF 5], assumption, clarsimp)
    apply (use 6 in simp)
    done
  then show ?thesis
    unfolding json_ParseNumber_def Let_def neg_def [symmetric] r1_def [symmetric]
    by (auto intro!: outcome_then_p simp: emit_def)
qed

section \<open>Values\<close>

lemma reach_long_minus: "reach n r r' \<Longrightarrow> long_minus (jr_left r') \<Longrightarrow> long_minus (jr_left r)"
  by (auto simp: reach_def intro: long_minus_append)

lemma outcome_from: "reach m r r1 \<Longrightarrow> outcome (long_minus (jr_left r1)) (reach n r1) x \<Longrightarrow>
    outcome (long_minus (jr_left r)) (reach (m + n) r) x"
  by (erule outcome_mono) (auto intro: reach_trans reach_long_minus)

lemma literal_outcome:
  assumes "jr_ok r" "0 \<notin> set cs" "cs \<noteq> []"
  shows "outcome ub (reach 1 r) (snd (then_p (lift_r (jr_expect cs r)) (emit es)))"
  by (rule outcome_then_p [where P = "reach (length cs) r"])
    (use assms reach_expect in \<open>auto intro: reach_mono simp: Suc_le_eq\<close>)

text \<open>Every value that is read takes at least one byte, so twice the bytes left is enough fuel.\<close>

lemma get_byte_outcome:
  assumes "jr_ok r" "c \<noteq> 0" "\<And>r'. reach 1 r r' \<Longrightarrow> outcome ub P (snd (f r'))"
  shows "outcome ub P (snd (case jr_Get r of (d, r') \<Rightarrow> if d \<noteq> c then throw (AnyRpcException e) else f r'))"
proof -
  from reach_get [OF assms(1)] obtain d r' where r': "jr_Get r = (d, r')" "d = next_byte (jr_left r)"
    "reach (if jr_left r = [] then 0 else 1) r r'" .
  show ?thesis
  proof (cases "d = c")
    case True
    then have "reach 1 r r'" using r' assms(2) by (auto split: if_splits)
    from assms(3) [OF this] True r'(1) show ?thesis by simp
  qed (simp add: r'(1))
qed

lemma separator_outcome:
  assumes "jr_ok r" "c \<noteq> 0" "d \<noteq> 0" "\<And>r'. reach 1 r r' \<Longrightarrow> outcome ub P (snd (f r'))" "\<And>r'. reach 1 r r' \<Longrightarrow> P r'"
  shows "outcome ub P (snd (case jr_Get r of (x, r') \<Rightarrow>
    if x = c then f r' else if x = d then emit es r' else throw (AnyRpcException e)))"
proof -
  from reach_get [OF assms(1)] obtain x r' where r': "jr_Get r = (x, r')" "x = next_byte (jr_left r)"
    "reach (if jr_left r = [] then 0 else 1) r r'" .
  then have "x = c \<or> x = d \<Longrightarrow> reach 1 r r'" using assms(2,3) by (auto split: if_splits)
  with assms(4,5) r'(1) show ?thesis by auto
qed

lemma json_outcome:
  "(\<forall>r. jr_ok r \<longrightarrow> 2 * length (jr_left r) < k \<longrightarrow>
      outcome (long_minus (jr_left r)) (reach 1 r) (snd (json_ParseValue k r)))
   \<and> (\<forall>r n. jr_ok r \<longrightarrow> 2 * length (jr_left r) + 1 < k \<longrightarrow>
      outcome (long_minus (jr_left r)) (reach 1 r) (snd (json_members k n r)))
   \<and> (\<forall>r n. jr_ok r \<longrightarrow> 2 * length (jr_left r) + 1 < k \<longrightarrow>
      outcome (long_minus (jr_left r)) (reach 1 r) (snd (json_elements k n r)))"
proof (induction k)
  case (Suc k)
  have V: "outcome (long_minus (jr_left r)) (reach 1 r) (snd (json_ParseValue k r))"
    if "jr_ok r" "2 * length (jr_left r) < k" for r using Suc that by blast
  have M: "outcome (long_minus (jr_left r)) (reach 1 r) (snd (json_members k n r))"
    if "jr_ok r" "2 * length (jr_left r) + 1 < k" for r n using Suc that by blast
  have E: "outcome (long_minus (jr_left r)) (reach 1 r) (snd (json_elements k n r))"
    if "jr_ok r" "2 * length (jr_left r) + 1 < k" for r n using Suc that by blast
  have from_value: "outcome (long_minus (jr_left r)) (reach 1 r) x"
    if "reach m r r1" "outcome (long_minus (jr_left r1)) (reach n r1) x" "1 \<le> m + n" for r r1 m n x
    using outcome_from [OF that(1,2)] that(3) by (auto elim!: outcome_mono intro: reach_mono)
  show ?case
  proof (intro conjI allI impI)
    fix r
    assume r: "jr_ok r" "2 * length (jr_left r) < Suc k"
    have container: "outcome (long_minus (jr_left r)) (reach 1 r) (snd
        (then_p (jr_Skip (snd (jr_Get r))) (\<lambda>r2. if jr_Peek r2 = c then emit es' (snd (jr_Get r2)) else rec r2)))"
      if p: "jr_Peek r \<noteq> 0" "c \<noteq> 0"
        and rec: "\<And>r2. jr_ok r2 \<Longrightarrow> 2 * length (jr_left r2) + 1 < k \<Longrightarrow> outcome (long_minus (jr_left r2)) (reach 1 r2) (snd (rec r2))"
      for es' c rec
    proof -
      from reach_get_nonzero [OF r(1) p(1)] obtain d r1 where r1: "jr_Get r = (d, r1)" "reach 1 r r1" by blast
      show ?thesis unfolding r1(1) snd_conv
      proof (rule outcome_then_p [OF reach_Skip [OF reach_ok [OF r1(2)]]])
        fix r2 assume r2: "reach 0 r1 r2"
        have r02: "reach 1 r r2" using reach_trans [OF r1(2) r2] by simp
        show "outcome (long_minus (jr_left r)) (reach 1 r) (snd (if jr_Peek r2 = c then emit es' (snd (jr_Get r2)) else rec r2))"
        proof (cases "jr_Peek r2 = c")
          case True
          with p(2) have "jr_Peek r2 \<noteq> 0" by simp
          from reach_get_nonzero [OF reach_ok [OF r2] this] obtain d r3 where "jr_Get r2 = (d, r3)" "reach 1 r2 r3" by blast
          then show ?thesis using True reach_trans [OF r02, of 1 r3 1] by simp
        next
          case False
          have "2 * length (jr_left r2) + 1 < k" using reach_length [OF r02] r(2) by simp
          from from_value [OF r02 rec [OF reach_ok [OF r2] this]] False show ?thesis by simp
        qed
      qed
    qed
    have lits: "outcome ub (reach 1 r) (snd (json_ParseNull r))" "outcome ub (reach 1 r) (snd (json_ParseTrue r))"
      "outcome ub (reach 1 r) (snd (json_ParseFalse r))" for ub
      unfolding json_ParseNull_def json_ParseTrue_def json_ParseFalse_def by (rule literal_outcome [OF r(1)]; simp)+
    have arr: "outcome (long_minus (jr_left r)) (reach 1 r) (snd (then_p (jr_Skip (snd (jr_Get r)))
        (\<lambda>r2. if jr_Peek r2 = 0x5D then emit [EvEndArray 0] (snd (jr_Get r2)) else json_elements k 0 r2)))" if "jr_Peek r = 0x5B"
      by (rule container) (use that E in auto)
    have map: "outcome (long_minus (jr_left r)) (reach 1 r) (snd (then_p (jr_Skip (snd (jr_Get r)))
        (\<lambda>r2. if jr_Peek r2 = 0x7D then emit [EvEndMap 0] (snd (jr_Get r2)) else json_members k 0 r2)))" if "jr_Peek r = 0x7B"
      by (rule container) (use that M in auto)
    show "outcome (long_minus (jr_left r)) (reach 1 r) (snd (json_ParseValue (Suc k) r))"
      using lits reach_string [OF r(1), of "long_minus (jr_left r)" EvString] json_ParseNumber_outcome [OF r(1)]
        arr map
      by (auto simp: Let_def json_ParseString_def)
  next
    fix r n
    assume r: "jr_ok r" "2 * length (jr_left r) + 1 < Suc k"
    show "outcome (long_minus (jr_left r)) (reach 1 r) (snd (json_members (Suc k) n r))"
    proof (cases "jr_Peek r = 0x22")
      case True
      let ?ub = "long_minus (jr_left r)"
      let ?next = "\<lambda>r6. case jr_Get r6 of (c, r7) \<Rightarrow>
        if c = 0x2C then then_p (jr_Skip r7) (\<lambda>r8. then_p (emit [EvMapSeparator] r8) (json_members k (Suc n)))
        else if c = 0x7D then emit [EvEndMap (Suc n)] r7
        else throw AnyRpcErrorObjectMissCommaOrCurlyBracket"
      let ?body = "\<lambda>r3. then_p (jr_Skip r3) (\<lambda>r4. then_p (json_ParseValue k r4) (\<lambda>r5. then_p (jr_Skip r5) ?next))"
      have after: "outcome ?ub (reach 1 r) (snd (?next r6))" if r6: "reach 1 r r6" for r6
      proof (rule separator_outcome [OF reach_ok [OF r6]])
        fix r7 assume r7: "reach 1 r6 r7"
        have r07: "reach 2 r r7" using reach_trans [OF r6 r7, of 2] by simp
        show "reach 1 r r7" using reach_mono [OF r07] by simp
        show "outcome ?ub (reach 1 r) (snd (then_p (jr_Skip r7) (\<lambda>r8. then_p (emit [EvMapSeparator] r8) (json_members k (Suc n)))))"
        proof (rule outcome_then_p [OF reach_Skip [OF reach_ok [OF r7]]])
          fix r8 assume r8: "reach 0 r7 r8"
          have r08: "reach 2 r r8" using reach_trans [OF r07 r8] by simp
          have "2 * length (jr_left r8) + 1 < k" using reach_length [OF r08] r(2) by simp
          from from_value [OF r08 M [OF reach_ok [OF r8] this]]
          show "outcome ?ub (reach 1 r) (snd (then_p (emit [EvMapSeparator] r8) (json_members k (Suc n))))" by simp
        qed
      qed simp_all
      have val: "outcome ?ub (reach 1 r) (snd (?body r3))" if r3: "reach 2 r r3" for r3
      proof (rule outcome_then_p [OF reach_Skip [OF reach_ok [OF r3]]])
        fix r4 assume r4: "reach 0 r3 r4"
        have r04: "reach 2 r r4" using reach_trans [OF r3 r4] by simp
        have "2 * length (jr_left r4) < k" using reach_length [OF r04] r(2) by simp
        from outcome_from [OF r04 V [OF reach_ok [OF r4] this]]
        show "outcome ?ub (reach 1 r) (snd (then_p (json_ParseValue k r4) (\<lambda>r5. then_p (jr_Skip r5) ?next)))"
        proof (rule outcome_then_p)
          fix r5 assume r5: "reach (2 + 1) r r5"
          show "outcome ?ub (reach 1 r) (snd (then_p (jr_Skip r5) ?next))"
            by (rule outcome_then_p [OF reach_Skip [OF reach_ok [OF r5]]]) (rule after, rule reach_trans [OF r5], auto)
        qed
      qed
      have "outcome ?ub (reach 1 r) (snd (then_p (json_ParseKey r) (\<lambda>r1. then_p (jr_Skip r1) (\<lambda>r2.
          case jr_Get r2 of (c, r3) \<Rightarrow> if c \<noteq> 0x3A then throw AnyRpcErrorObjectMissColon else ?body r3))))"
        unfolding json_ParseKey_def
      proof (rule outcome_then_p [OF reach_string [OF r(1)]])
        fix r1 assume r1: "reach 1 r r1"
        show "outcome ?ub (reach 1 r) (snd (then_p (jr_Skip r1) (\<lambda>r2.
          case jr_Get r2 of (c, r3) \<Rightarrow> if c \<noteq> 0x3A then throw AnyRpcErrorObjectMissColon else ?body r3)))"
        proof (rule outcome_then_p [OF reach_Skip [OF reach_ok [OF r1]]])
          fix r2 assume r2: "reach 0 r1 r2"
          show "outcome ?ub (reach 1 r) (snd (case jr_Get r2 of (c, r3) \<Rightarrow> if c \<noteq> 0x3A then throw AnyRpcErrorObjectMissColon else ?body r3))"
            by (rule get_byte_outcome [OF reach_ok [OF r2]], simp)
              (rule val, rule reach_trans [OF reach_trans [OF r1 r2, of 1]], auto)
        qed
      qed
      then show ?thesis using True by simp
    qed simp
  next
    fix r n
    assume r: "jr_ok r" "2 * length (jr_left r) + 1 < Suc k"
    have "outcome (long_minus (jr_left r)) (reach 1 r) (snd (json_ParseValue k r))" using V r by simp
    then show "outcome (long_minus (jr_left r)) (reach 1 r) (snd (json_elements (Suc k) n r))"
      unfolding json_elements.simps
    proof (rule outcome_then_p)
      fix r1 assume r1: "reach 1 r r1"
      show "outcome (long_minus (jr_left r)) (reach 1 r) (snd (then_p (jr_Skip r1) (\<lambda>r2.
         case jr_Get r2 of (c, r3) \<Rightarrow>
           if c = 0x2C then
             then_p (jr_Skip r3) (\<lambda>r4. then_p (emit [EvArraySeparator] r4) (json_elements k (Suc n)))
           else if c = 0x5D then emit [EvEndArray (Suc n)] r3
           else throw AnyRpcErrorArrayMissCommaOrSquareBracket)))"
      proof (rule outcome_then_p [OF reach_Skip [OF reach_ok [OF r1]]])
        fix r2 assume r2: "reach 0 r1 r2"
        show "outcome (long_minus (jr_left r)) (reach 1 r) (snd (case jr_Get r2 of (c, r3) \<Rightarrow>
           if c = 0x2C then
             then_p (jr_Skip r3) (\<lambda>r4. then_p (emit [EvArraySeparator] r4) (json_elements k (Suc n)))
           else if c = 0x5D then emit [EvEndArray (Suc n)] r3
           else throw AnyRpcErrorArrayMissCommaOrSquareBracket))"
        proof (rule separator_outcome [OF reach_ok [OF r2]])
          fix r3 assume r3: "reach 1 r2 r3"
          have r03: "reach 2 r r3" using reach_trans [OF reach_trans [OF r1 r2] r3, of 1 2] by simp
          show "reach 1 r r3" using reach_mono [OF r03] by simp
          show "outcome (long_minus (jr_left r)) (reach 1 r)
            (snd (then_p (jr_Skip r3) (\<lambda>r4. then_p (emit [EvArraySeparator] r4) (json_elements k (Suc n)))))"
          proof (rule outcome_then_p [OF reach_Skip [OF reach_ok [OF r3]]])
            fix r4 assume r4: "reach 0 r3 r4"
            have r04: "reach 2 r r4" using reach_trans [OF r03 r4] by simp
            have "2 * length (jr_left r4) + 1 < k" using reach_length [OF r04] r(2) by simp
            from from_value [OF r04 E [OF reach_ok [OF r4] this]]
            show "outcome (long_minus (jr_left r)) (reach 1 r) (snd (then_p (emit [EvArraySeparator] r4) (json_elements k (Suc n))))" by simp
          qed
        qed simp_all
      qed
    qed
  qed
qed simp

theorem json_total:
  assumes "st_ok s"
  shows "outcome (long_minus (st_left s)) (\<lambda>_. True) (snd (json_ParseStream (jr_new s)))"
proof -
  have ok: "jr_ok (jr_new s)" using assms by (cases s) (simp_all add: jr_ok_def jr_new_def reader_inSitu_def)
  have l: "jr_left (jr_new s) = st_left s" by (simp add: jr_left_def jr_new_def)
  show ?thesis unfolding json_ParseStream_def
  proof (rule outcome_then_p [OF reach_Skip [OF ok]])
    fix r1 assume r1: "reach 0 (jr_new s) r1"
    have "outcome (long_minus (jr_left r1)) (reach 1 r1) (snd (json_ParseValue (json_fuel r1) r1))"
      using json_outcome [of "json_fuel r1"] reach_ok [OF r1] by (simp add: json_fuel_def)
    then have "outcome (long_minus (st_left s)) (\<lambda>_. True) (snd (json_ParseValue (json_fuel r1) r1))"
      using reach_long_minus [OF r1] by (auto simp: l elim!: outcome_mono)
    then show "outcome (long_minus (st_left s)) (\<lambda>_. True)
      (snd (if \<not> st_Eof (jr_is r1) then json_ParseValue (json_fuel r1) r1 else emit [] r1))" by simp
  qed
qed

end
