(* ===== verification/AnyRpc_Http.thy ===== *)
theory AnyRpc_Http
  imports AnyRpc_Text
begin

text \<open>
  The HTTP header of src/internal/http.cpp: \<^verbatim>\<open>HttpHeader\<close> splits the buffer of a connection into
  lines, \<^verbatim>\<open>HttpRequest\<close> and \<^verbatim>\<open>HttpResponse\<close> interpret them. The buffer grows between the calls of
  \<^verbatim>\<open>ProcessHeaderData\<close>, which goes on at the first byte it has not consumed. Main results: feeding
  the header in pieces, however they are cut, has the effect of feeding it at once; what holds of
  a header that is reported complete; a written header is read back.
\<close>

section \<open>Positions in strings\<close>

text \<open>
  What the code uses of \<^verbatim>\<open>std::string\<close>: \<open>find_from P n s\<close> is \<^verbatim>\<open>find\<close>, \<^verbatim>\<open>find_first_not_of\<close> from
  position n, \<open>find_last\<close> is \<^verbatim>\<open>find_last_not_of\<close>, \<open>substr\<close> the constructor from a part of a string;
  \<open>None\<close> is \<^verbatim>\<open>npos\<close>.
\<close>

fun index_of :: "(byte \<Rightarrow> bool) \<Rightarrow> bytes \<Rightarrow> nat option" where
  "index_of P [] = None"
| "index_of P (c # cs) = (if P c then Some 0 else map_option Suc (index_of P cs))"

definition find_from :: "(byte \<Rightarrow> bool) \<Rightarrow> nat \<Rightarrow> bytes \<Rightarrow> nat option" where
  "find_from P n s = map_option ((+) n) (index_of P (drop n s))"

definition find_last :: "(byte \<Rightarrow> bool) \<Rightarrow> bytes \<Rightarrow> nat option" where
  "find_last P s = map_option (\<lambda>i. length s - 1 - i) (index_of P (rev s))"

definition substr :: "bytes \<Rightarrow> nat \<Rightarrow> nat \<Rightarrow> bytes" where
  "substr s n k = take k (drop n s)"

definition blank :: "byte \<Rightarrow> bool" where "blank c \<longleftrightarrow> c = 0x20 \<or> c = 0x09"

text \<open>\<^verbatim>\<open>tolower\<close> in the C locale, \<^verbatim>\<open>atoi\<close> of the C library of the default build, which is
  \<^verbatim>\<open>(int) strtol\<close>: the 64-bit result is saturated and then cut to 32 bits.\<close>

definition tolower :: "byte \<Rightarrow> byte" where
  "tolower c = (if 0x41 \<le> c \<and> c \<le> 0x5A then c + 0x20 else c)"

definition atoi_sign :: "bytes \<Rightarrow> bool \<times> bytes" where
  "atoi_sign s = (case s of [] \<Rightarrow> (False, [])
     | c # cs \<Rightarrow> if c = 0x2D then (True, cs) else if c = 0x2B then (False, cs) else (False, s))"

definition saturate64 :: "int \<Rightarrow> int" where
  "saturate64 i = max (- (2 ^ 63)) (min (2 ^ 63 - 1) i)"

definition atoi :: "bytes \<Rightarrow> 32 word" where
  "atoi s = (let (neg, ds) = atoi_sign (dropWhile is_space s); n = int (digits_val 0 (takeWhile is_digit ds))
     in word_of_int (saturate64 (if neg then - n else n)))"

section \<open>The header\<close>

datatype ResultEnum = HEADER_COMPLETE | HEADER_INCOMPLETE | HEADER_FAULT

record HttpHeader =
  startIndex :: nat
  httpVersion :: bytes
  contentType :: bytes
  contentLength :: "32 word"
  keepAlive :: bool
  headerResult :: ResultEnum

text \<open>The virtual functions that a request and a response define.\<close>

record 'h http_virtuals =
  v_ProcessFirstLine :: "bytes \<Rightarrow> bytes \<Rightarrow> bytes \<Rightarrow> 'h \<Rightarrow> ResultEnum \<times> 'h"
  v_ProcessLine :: "bytes \<Rightarrow> bytes \<Rightarrow> 'h \<Rightarrow> ResultEnum \<times> 'h"
  v_Verify :: "'h \<Rightarrow> ResultEnum"

definition HttpHeader_Initialize :: "'a HttpHeader_scheme \<Rightarrow> 'a HttpHeader_scheme" where
  "HttpHeader_Initialize h = h \<lparr> startIndex := 0, httpVersion := [], contentType := [], contentLength := - 1,
     keepAlive := True, headerResult := HEADER_INCOMPLETE \<rparr>"

definition GetBodyStartPos :: "'a HttpHeader_scheme \<Rightarrow> nat" where "GetBodyStartPos h = startIndex h"
definition GetContentLength :: "'a HttpHeader_scheme \<Rightarrow> 32 word" where "GetContentLength h = contentLength h"
definition GetKeepAlive :: "'a HttpHeader_scheme \<Rightarrow> bool" where "GetKeepAlive h = keepAlive h"
definition GetHttpVersion :: "'a HttpHeader_scheme \<Rightarrow> bytes" where "GetHttpVersion h = httpVersion h"
definition GetContentType :: "'a HttpHeader_scheme \<Rightarrow> bytes" where "GetContentType h = contentType h"

fun FindChar :: "bytes \<Rightarrow> byte \<Rightarrow> nat option" where
  "FindChar [] c = None"
| "FindChar (d # ds) c = (if d = c then Some 0 else map_option Suc (FindChar ds c))"

definition HttpHeader_ProcessFirstLine :: "'h http_virtuals \<Rightarrow> bytes \<Rightarrow> 'h \<Rightarrow> ResultEnum \<times> 'h" where
  "HttpHeader_ProcessFirstLine v line h =
     (case find_from (\<lambda>c. c = 0x20) 0 line of
        None \<Rightarrow> (HEADER_FAULT, h)
      | Some endPos1 \<Rightarrow>
          let first = substr line 0 endPos1
          in case find_from (\<lambda>c. c = 0x20) (endPos1 + 1) line of
               None \<Rightarrow> (HEADER_FAULT, h)
             | Some endPos2 \<Rightarrow>
                 let second = substr line (endPos1 + 1) (endPos2 - endPos1 - 1);
                     third = drop (endPos2 + 1) line
                 in v_ProcessFirstLine v first second third h)"

definition HttpHeader_ProcessLine :: "'h http_virtuals \<Rightarrow> bytes \<Rightarrow> 'h \<Rightarrow> ResultEnum \<times> 'h" where
  "HttpHeader_ProcessLine v line h =
     (if length line = 0 then (v_Verify v h, h)
      else case find_from (\<lambda>c. \<not> blank c) 0 line of
        None \<Rightarrow> (HEADER_FAULT, h)
      | Some startKey \<Rightarrow>
          case find_from (\<lambda>c. c = 0x3A) startKey line of
            None \<Rightarrow> (HEADER_FAULT, h)
          | Some endKey \<Rightarrow>
              let key = map tolower (substr line startKey (endKey - startKey))
              in case find_from (\<lambda>c. \<not> blank c) (endKey + 1) line of
                   None \<Rightarrow> (HEADER_FAULT, h)
                 | Some startValue \<Rightarrow>
                     case find_last (\<lambda>c. \<not> blank c) line of
                       None \<Rightarrow> v_ProcessLine v key (drop startValue line) h
                     | Some endValue \<Rightarrow>
                         v_ProcessLine v key (substr line startValue (endValue - startValue + 1)) h)"

text \<open>The line that ends at position \<open>i\<close> after the start index, without its carriage return.\<close>

definition header_line :: "bytes \<Rightarrow> nat \<Rightarrow> nat \<Rightarrow> bytes" where
  "header_line buffer start i =
     (let lineLength = (if 0 < i \<and> buffer ! (start + i - 1) = 0x0D then i - 1 else i)
      in take lineLength (drop start buffer))"

definition header_step ::
    "'a HttpHeader_scheme http_virtuals \<Rightarrow> bytes \<Rightarrow> nat \<Rightarrow> 'a HttpHeader_scheme \<Rightarrow> 'a HttpHeader_scheme" where
  "header_step v buffer i h =
     (let line = header_line buffer (startIndex h) i;
          (r, h') = (if startIndex h = 0 then HttpHeader_ProcessFirstLine v line h else HttpHeader_ProcessLine v line h)
      in h' \<lparr> headerResult := r, startIndex := startIndex h + i + 1 \<rparr>)"

lemma FindChar_bound: "FindChar xs c = Some i \<Longrightarrow> i < length xs"
  by (induction xs arbitrary: i) (auto split: if_splits)

lemma header_step_startIndex [simp]: "startIndex (header_step v buffer i h) = startIndex h + i + 1"
  by (simp add: header_step_def Let_def split: prod.split)

function header_loop ::
    "'a HttpHeader_scheme http_virtuals \<Rightarrow> bytes \<Rightarrow> bool \<Rightarrow> 'a HttpHeader_scheme \<Rightarrow> 'a HttpHeader_scheme" where
  "header_loop v buffer eof h =
     (if headerResult h = HEADER_INCOMPLETE then
        case FindChar (drop (startIndex h) buffer) 0x0A of
          None \<Rightarrow> if eof then h \<lparr> headerResult := HEADER_FAULT \<rparr> else h
        | Some i \<Rightarrow> header_loop v buffer eof (header_step v buffer i h)
      else h)"
  by pat_completeness auto

termination
  by (relation "measure (\<lambda>(v, buffer, eof, h). length buffer - startIndex h)") (auto dest: FindChar_bound)

declare header_loop.simps [simp del]

definition ProcessHeaderData ::
    "'a HttpHeader_scheme http_virtuals \<Rightarrow> bytes \<Rightarrow> bool \<Rightarrow> 'a HttpHeader_scheme \<Rightarrow> ResultEnum \<times> 'a HttpHeader_scheme" where
  "ProcessHeaderData v buffer eof h =
     (let h' = (if length buffer < startIndex h then h \<lparr> headerResult := HEADER_FAULT \<rparr>
                else header_loop v buffer eof h)
      in (headerResult h', h'))"

section \<open>Requests\<close>

record HttpRequest = HttpHeader +
  req_method :: bytes
  req_requestUri :: bytes
  req_host :: bytes

definition HttpRequest_Initialize :: "HttpRequest \<Rightarrow> HttpRequest" where
  "HttpRequest_Initialize h = (HttpHeader_Initialize h) \<lparr> req_method := [], req_requestUri := [], req_host := [] \<rparr>"

definition HttpRequest_ProcessFirstLine :: "bytes \<Rightarrow> bytes \<Rightarrow> bytes \<Rightarrow> HttpRequest \<Rightarrow> ResultEnum \<times> HttpRequest" where
  "HttpRequest_ProcessFirstLine first second third h =
     (let h1 = h \<lparr> req_method := first, req_requestUri := second \<rparr>
      in if substr third 0 5 \<noteq> lit ''HTTP/'' then (HEADER_FAULT, h1)
         else
           let h2 = h1 \<lparr> httpVersion := drop 5 third \<rparr>;
               h3 = (if httpVersion h2 = lit ''1.0'' then h2 \<lparr> keepAlive := False \<rparr> else h2)
           in (HEADER_INCOMPLETE, h3))"

definition set_connection :: "bytes \<Rightarrow> 'a HttpHeader_scheme \<Rightarrow> 'a HttpHeader_scheme" where
  "set_connection val h =
     (let val' = map tolower val
      in if val' = lit ''keep-alive'' then h \<lparr> keepAlive := True \<rparr>
         else if val' = lit ''close'' then h \<lparr> keepAlive := False \<rparr> else h)"

definition HttpRequest_ProcessLine :: "bytes \<Rightarrow> bytes \<Rightarrow> HttpRequest \<Rightarrow> ResultEnum \<times> HttpRequest" where
  "HttpRequest_ProcessLine key val h =
     (if key = lit ''content-length'' then
        if contentLength h \<noteq> - 1 then (HEADER_FAULT, h)
        else let h' = h \<lparr> contentLength := atoi val \<rparr>
             in if sint (contentLength h') < 0 then (HEADER_FAULT, h') else (HEADER_INCOMPLETE, h')
      else if key = lit ''host'' then (HEADER_INCOMPLETE, h \<lparr> req_host := val \<rparr>)
      else if key = lit ''content-type'' then
        if 0 < length (contentType h) then (HEADER_FAULT, h)
        else (HEADER_INCOMPLETE, h \<lparr> contentType := val \<rparr>)
      else if key = lit ''connection'' then (HEADER_INCOMPLETE, set_connection val h)
      else (HEADER_INCOMPLETE, h))"

definition HttpRequest_Verify :: "HttpRequest \<Rightarrow> ResultEnum" where
  "HttpRequest_Verify h =
     (if httpVersion h = lit ''1.1'' \<and> length (req_host h) = 0 then HEADER_FAULT
      else if sint (contentLength h) < 0 \<and> req_method h = lit ''POST'' then HEADER_FAULT
      else HEADER_COMPLETE)"

definition HttpRequest_virtuals :: "HttpRequest http_virtuals" where
  "HttpRequest_virtuals = \<lparr> v_ProcessFirstLine = HttpRequest_ProcessFirstLine,
     v_ProcessLine = HttpRequest_ProcessLine, v_Verify = HttpRequest_Verify \<rparr>"

definition HttpRequest_new :: HttpRequest where
  "HttpRequest_new = \<lparr> startIndex = 0, httpVersion = [], contentType = [], contentLength = - 1, keepAlive = True,
     headerResult = HEADER_INCOMPLETE, req_method = [], req_requestUri = [], req_host = [] \<rparr>"

section \<open>Responses\<close>

record HttpResponse = HttpHeader +
  rsp_responseCode :: bytes
  rsp_responseString :: bytes

definition HttpResponse_Initialize :: "HttpResponse \<Rightarrow> HttpResponse" where
  "HttpResponse_Initialize h = (HttpHeader_Initialize h) \<lparr> rsp_responseCode := [], rsp_responseString := [] \<rparr>"

definition HttpResponse_ProcessFirstLine :: "bytes \<Rightarrow> bytes \<Rightarrow> bytes \<Rightarrow> HttpResponse \<Rightarrow> ResultEnum \<times> HttpResponse" where
  "HttpResponse_ProcessFirstLine first second third h =
     (if substr first 0 5 \<noteq> lit ''HTTP/'' then (HEADER_FAULT, h)
      else
        let h1 = h \<lparr> httpVersion := drop 5 first, rsp_responseCode := second, rsp_responseString := third \<rparr>;
            h2 = (if httpVersion h1 = lit ''1.0'' then h1 \<lparr> keepAlive := False \<rparr> else h1)
        in (HEADER_INCOMPLETE, h2))"

definition HttpResponse_ProcessLine :: "bytes \<Rightarrow> bytes \<Rightarrow> HttpResponse \<Rightarrow> ResultEnum \<times> HttpResponse" where
  "HttpResponse_ProcessLine key val h =
     (if key = lit ''content-length'' then
        if contentLength h \<noteq> - 1 then (HEADER_FAULT, h)
        else let h' = h \<lparr> contentLength := atoi val \<rparr>
             in if sint (contentLength h') < 0 then (HEADER_FAULT, h') else (HEADER_INCOMPLETE, h')
      else if key = lit ''content-type'' then
        if 0 < length (contentType h) then (HEADER_FAULT, h)
        else (HEADER_INCOMPLETE, h \<lparr> contentType := val \<rparr>)
      else if key = lit ''connection'' then (HEADER_INCOMPLETE, set_connection val h)
      else (HEADER_INCOMPLETE, h))"

definition HttpResponse_Verify :: "HttpResponse \<Rightarrow> ResultEnum" where
  "HttpResponse_Verify h = (if sint (contentLength h) < 0 then HEADER_FAULT else HEADER_COMPLETE)"

definition HttpResponse_virtuals :: "HttpResponse http_virtuals" where
  "HttpResponse_virtuals = \<lparr> v_ProcessFirstLine = HttpResponse_ProcessFirstLine,
     v_ProcessLine = HttpResponse_ProcessLine, v_Verify = HttpResponse_Verify \<rparr>"

definition HttpResponse_new :: HttpResponse where
  "HttpResponse_new = \<lparr> startIndex = 0, httpVersion = [], contentType = [], contentLength = - 1, keepAlive = True,
     headerResult = HEADER_INCOMPLETE, rsp_responseCode = [], rsp_responseString = [] \<rparr>"

section \<open>Feeding a header in pieces\<close>

lemma header_loop_done [simp]: "headerResult h \<noteq> HEADER_INCOMPLETE \<Longrightarrow> header_loop v buffer eof h = h"
  by (subst header_loop.simps) simp

lemma header_loop_line:
  "headerResult h = HEADER_INCOMPLETE \<Longrightarrow> FindChar (drop (startIndex h) buffer) 0x0A = Some i \<Longrightarrow>
    header_loop v buffer eof h = header_loop v buffer eof (header_step v buffer i h)"
  by (subst header_loop.simps) simp

lemma header_loop_wait:
  "headerResult h = HEADER_INCOMPLETE \<Longrightarrow> FindChar (drop (startIndex h) buffer) 0x0A = None \<Longrightarrow>
    header_loop v buffer eof h = (if eof then h \<lparr> headerResult := HEADER_FAULT \<rparr> else h)"
  by (subst header_loop.simps) simp

lemma FindChar_append: "FindChar xs c = Some i \<Longrightarrow> FindChar (xs @ ys) c = Some i"
  by (induction xs arbitrary: i) (auto split: if_splits)

lemma FindChar_none: "FindChar xs c = None \<longleftrightarrow> c \<notin> set xs"
  by (induction xs) (auto split: if_splits)

lemma FindChar_first: "c \<notin> set xs \<Longrightarrow> FindChar (xs @ c # ys) c = Some (length xs)"
  by (induction xs) auto

lemma header_line_append:
  assumes "start + i < length xs"
  shows "header_line (xs @ ys) start i = header_line xs start i"
  using assms by (simp add: header_line_def Let_def nth_append)

lemma header_step_append:
  assumes "startIndex h + i < length xs"
  shows "header_step v (xs @ ys) i h = header_step v xs i h"
  using assms by (simp add: header_step_def header_line_append)

lemma found_in_prefix:
  assumes "FindChar (drop n xs) c = Some i" "n \<le> length xs"
  shows "n + i < length xs" "FindChar (drop n (xs @ ys)) c = Some i"
  using FindChar_bound [OF assms(1)] FindChar_append [OF assms(1)] assms(2) by simp_all

text \<open>The position stays in the buffer.\<close>

lemma header_loop_bound:
  "startIndex h \<le> length buffer \<Longrightarrow> startIndex (header_loop v buffer eof h) \<le> length buffer"
proof (induction v buffer eof h rule: header_loop.induct)
  case (1 v buffer eof h)
  show ?case
  proof (cases "headerResult h = HEADER_INCOMPLETE")
    case inc: True
    show ?thesis
    proof (cases "FindChar (drop (startIndex h) buffer) 0x0A")
      case None
      with inc 1(2) show ?thesis by (simp add: header_loop_wait)
    next
      case (Some i)
      with found_in_prefix(1) [OF Some 1(2)] 1(1) [OF inc Some] inc show ?thesis
        by (simp add: header_loop_line)
    qed
  qed (use 1(2) in simp)
qed

text \<open>A call without end of file can be left out when a later call sees more of the header.\<close>

lemma header_loop_resume:
  "startIndex h \<le> length xs \<Longrightarrow>
    header_loop v (xs @ ys) eof (header_loop v xs False h) = header_loop v (xs @ ys) eof h"
proof (induction v xs "False" h rule: header_loop.induct)
  case (1 v xs h)
  show ?case
  proof (cases "headerResult h = HEADER_INCOMPLETE")
    case inc: True
    show ?thesis
    proof (cases "FindChar (drop (startIndex h) xs) 0x0A")
      case None
      with inc show ?thesis by (simp add: header_loop_wait)
    next
      case (Some i)
      note b = found_in_prefix(1) [OF Some 1(2)] found_in_prefix(2) [OF Some 1(2), of ys]
      from 1(1) [OF inc Some] b show ?thesis
        by (simp only: header_loop_line [OF inc Some] header_loop_line [OF inc b(2)]
            header_step_append [OF b(1)] header_step_startIndex Suc_eq_plus1 [symmetric] Suc_leI)
    qed
  qed simp
qed

text \<open>
  \<open>feed_header v pre cs h\<close>: the pieces cs arrive one after the other in a buffer that already
  holds pre; after each of them the header is processed, the last call with the end of file flag.
\<close>

fun feed_header :: "'a HttpHeader_scheme http_virtuals \<Rightarrow> bytes \<Rightarrow> bytes list \<Rightarrow> bool \<Rightarrow> 'a HttpHeader_scheme \<Rightarrow>
    ResultEnum \<times> 'a HttpHeader_scheme" where
  "feed_header v pre [] eof h = ProcessHeaderData v pre eof h"
| "feed_header v pre (c # cs) eof h = feed_header v (pre @ c) cs eof (snd (ProcessHeaderData v pre False h))"

lemma feed_header_whole:
  "startIndex h \<le> length pre \<Longrightarrow> feed_header v pre cs eof h = ProcessHeaderData v (pre @ concat cs) eof h"
proof (induction v pre cs eof h rule: feed_header.induct)
  case (2 v pre c cs eof h)
  let ?h = "header_loop v pre False h"
  have b: "startIndex ?h \<le> length pre" by (rule header_loop_bound) (rule 2(2))
  have "snd (ProcessHeaderData v pre False h) = ?h" using 2(2) by (simp add: ProcessHeaderData_def Let_def)
  moreover from this have "feed_header v (pre @ c) cs eof ?h = ProcessHeaderData v (pre @ c @ concat cs) eof ?h"
    using 2(1) b by simp
  moreover have "ProcessHeaderData v (pre @ c @ concat cs) eof ?h = ProcessHeaderData v (pre @ c @ concat cs) eof h"
    using header_loop_resume [OF 2(2), of v "c @ concat cs" eof] b 2(2) by (simp add: ProcessHeaderData_def)
  ultimately show ?case by simp
qed simp

section \<open>Complete headers\<close>

text \<open>
  The interface between the line splitter and the fields: what the virtual functions keep. The
  invariant is a property of the fields of the derived class; \<open>done_ok\<close> is what \<^verbatim>\<open>Verify\<close> promises.
\<close>

locale http_fields =
  fixes v :: "'a HttpHeader_scheme http_virtuals"
    and inv done_ok :: "'a HttpHeader_scheme \<Rightarrow> bool"
  assumes private_fields: "\<And>h r s. inv (h \<lparr> headerResult := r, startIndex := s \<rparr>) = inv h"
      "\<And>h r s. done_ok (h \<lparr> headerResult := r, startIndex := s \<rparr>) = done_ok h"
    and first_line: "\<And>a b c h. inv h \<Longrightarrow> inv (snd (v_ProcessFirstLine v a b c h))"
      "\<And>a b c h. fst (v_ProcessFirstLine v a b c h) \<noteq> HEADER_COMPLETE"
    and next_line: "\<And>k x h. inv h \<Longrightarrow> fst (v_ProcessLine v k x h) \<noteq> HEADER_FAULT \<Longrightarrow> inv (snd (v_ProcessLine v k x h))"
      "\<And>k x h. fst (v_ProcessLine v k x h) \<noteq> HEADER_COMPLETE"
    and verify: "\<And>h. inv h \<Longrightarrow> v_Verify v h = HEADER_COMPLETE \<Longrightarrow> done_ok h"
begin

definition good :: "'a HttpHeader_scheme \<Rightarrow> bool" where
  "good h \<longleftrightarrow> (headerResult h \<noteq> HEADER_FAULT \<longrightarrow> inv h) \<and> (headerResult h = HEADER_COMPLETE \<longrightarrow> done_ok h)"

lemma first_line_good:
  assumes "inv h" "HttpHeader_ProcessFirstLine v line h = (r, h')"
  shows "r \<noteq> HEADER_COMPLETE" "r \<noteq> HEADER_FAULT \<Longrightarrow> inv h'"
  using assms first_line(1) [OF assms(1)] first_line(2)
  by (auto simp: HttpHeader_ProcessFirstLine_def Let_def split: option.splits) (metis fst_conv, metis snd_conv)

lemma next_line_good:
  assumes "inv h" "HttpHeader_ProcessLine v line h = (r, h')"
  shows "r \<noteq> HEADER_FAULT \<Longrightarrow> inv h'" "r = HEADER_COMPLETE \<Longrightarrow> done_ok h'"
  using assms next_line(1) [OF assms(1)] next_line(2) verify
  by (auto simp: HttpHeader_ProcessLine_def Let_def split: option.splits if_splits) (metis fst_conv snd_conv)+

lemma step_good: "inv h \<Longrightarrow> good (header_step v buffer i h)"
  by (auto simp: header_step_def good_def Let_def private_fields split: prod.split
      dest: first_line_good next_line_good)

lemma loop_good: "good h \<Longrightarrow> w = v \<Longrightarrow> good (header_loop w buffer eof h)"
proof (induction w buffer eof h rule: header_loop.induct)
  case (1 w buffer eof h)
  show ?case
  proof (cases "headerResult h = HEADER_INCOMPLETE")
    case inc: True
    show ?thesis
    proof (cases "FindChar (drop (startIndex h) buffer) 0x0A")
      case None
      with inc 1(2) show ?thesis by (simp add: header_loop_wait good_def)
    next
      case (Some i)
      have "good (header_step v buffer i h)" using 1(2) inc by (intro step_good) (simp add: good_def)
      with 1(1) [OF inc Some] 1(3) show ?thesis by (simp add: header_loop_line [OF inc Some])
    qed
  qed (use 1(2) in simp)
qed

lemma process_good:
  assumes "good h" "ProcessHeaderData v buffer eof h = (r, h')"
  shows "good h'" "headerResult h' = r"
  using assms loop_good [OF assms(1) refl] 
  by (auto simp: ProcessHeaderData_def Let_def good_def split: if_splits)

end

section \<open>Reading a written header\<close>

definition crlf :: bytes where "crlf = [0x0D, 0x0A]"

lemma length_crlf [simp]: "length crlf = 2"
  by (simp add: crlf_def)

text \<open>The header with the given result and position; a derived class does not see these members.\<close>

definition at_pos :: "nat \<Rightarrow> ResultEnum \<Rightarrow> 'a HttpHeader_scheme \<Rightarrow> 'a HttpHeader_scheme" where
  "at_pos n r h = h \<lparr> headerResult := r, startIndex := n \<rparr>"

lemma at_pos_simps [simp]:
  "startIndex (at_pos n r h) = n" "headerResult (at_pos n r h) = r" "at_pos n r (at_pos m q h) = at_pos n r h"
  by (simp_all add: at_pos_def)

lemma index_of_first:
  "\<forall>c \<in> set xs. \<not> P c \<Longrightarrow> P c \<Longrightarrow> index_of P (xs @ c # ys) = Some (length xs)"
  by (induction xs) auto

lemma find_from_first:
  "n \<le> length xs \<Longrightarrow> \<forall>c \<in> set (drop n xs). \<not> P c \<Longrightarrow> P c \<Longrightarrow> find_from P n (xs @ c # ys) = Some (length xs)"
  by (simp add: find_from_def index_of_first)

lemma find_last_last: "P c \<Longrightarrow> find_last P (xs @ [c]) = Some (length xs)"
  by (simp add: find_last_def)

definition field_line :: "bytes \<Rightarrow> bytes \<Rightarrow> bytes" where "field_line key x = key @ lit '': '' @ x"

definition plain_name :: "bytes \<Rightarrow> bool" where
  "plain_name key \<longleftrightarrow> key \<noteq> [] \<and> \<not> blank (hd key) \<and> 0x3A \<notin> set key \<and> 0x0A \<notin> set key"

definition plain_text :: "bytes \<Rightarrow> bool" where
  "plain_text x \<longleftrightarrow> x \<noteq> [] \<and> \<not> blank (hd x) \<and> \<not> blank (last x) \<and> 0x0A \<notin> set x"

lemma ProcessLine_field:
  assumes key: "plain_name key" and x: "plain_text x"
  shows "HttpHeader_ProcessLine v (field_line key x) h = v_ProcessLine v (map tolower key) x h"
proof -
  let ?l = "field_line key x"
  obtain k ks where k: "key = k # ks" "\<not> blank k" using key by (cases key) (auto simp: plain_name_def)
  obtain y ys where y: "x = y # ys" "\<not> blank y" using x by (cases x) (auto simp: plain_text_def)
  obtain z zs where z: "x = zs @ [z]" "\<not> blank z" using x by (cases x rule: rev_cases) (auto simp: plain_text_def)
  have 1: "find_from (\<lambda>c. \<not> blank c) 0 ?l = Some 0" using k by (simp add: field_line_def find_from_def)
  have 2: "find_from (\<lambda>c. c = 0x3A) 0 ?l = Some (length key)"
    using find_from_first [of 0 key "\<lambda>c. c = 0x3A" "0x3A" "0x20 # x"] key
    by (auto simp: field_line_def plain_name_def)
  have 3: "find_from (\<lambda>c. \<not> blank c) (length key + 1) ?l = Some (length key + 2)"
    using y by (simp add: field_line_def find_from_def blank_def)
  have 4: "find_last (\<lambda>c. \<not> blank c) ?l = Some (length key + 1 + length x)"
    using find_last_last [of "\<lambda>c. \<not> blank c" z "key @ lit '': '' @ zs"] z by (simp add: field_line_def)
  have "substr ?l (length key + 2) (length x) = x" "substr ?l 0 (length key) = key" "length ?l \<noteq> 0"
    by (simp_all add: field_line_def substr_def)
  moreover have "length key + 1 + length x - (length key + 2) + 1 = length x" using y by simp
  ultimately show ?thesis unfolding HttpHeader_ProcessLine_def by (simp only: 1 2 3 4 option.case Let_def) simp
qed

lemma ProcessFirstLine_split:
  assumes "0x20 \<notin> set a" "0x20 \<notin> set b"
  shows "HttpHeader_ProcessFirstLine v (a @ 0x20 # b @ 0x20 # c) h = v_ProcessFirstLine v a b c h"
proof -
  let ?l = "a @ 0x20 # b @ 0x20 # c"
  have 1: "find_from (\<lambda>c. c = 0x20) 0 ?l = Some (length a)"
    using assms(1) by (intro find_from_first) auto
  have 2: "find_from (\<lambda>c. c = 0x20) (length a + 1) ?l = Some (length a + 1 + length b)"
    using find_from_first [of "length a + 1" "a @ 0x20 # b" "\<lambda>c. c = 0x20" "0x20" c] assms(2) by auto
  have "substr ?l 0 (length a) = a" "substr ?l (length a + 1) (length a + 1 + length b - length a - 1) = b"
    "drop (length a + 1 + length b + 1) ?l = c"
    by (simp_all add: substr_def)
  then show ?thesis unfolding HttpHeader_ProcessFirstLine_def by (simp only: 1 2 option.case Let_def)
qed

text \<open>One line of the text.\<close>

lemma header_loop_text:
  assumes "headerResult h = HEADER_INCOMPLETE" "startIndex h = length pre" "0x0A \<notin> set line"
    and "(if pre = [] then HttpHeader_ProcessFirstLine v line h else HttpHeader_ProcessLine v line h) = (r, h')"
  shows "header_loop v (pre @ line @ crlf @ rest) eof h =
    header_loop v (pre @ line @ crlf @ rest) eof (at_pos (length pre + length line + 2) r h')"
proof -
  let ?b = "pre @ line @ crlf @ rest" and ?i = "length line + 1"
  have f: "FindChar (drop (startIndex h) ?b) 0x0A = Some ?i"
    using FindChar_first [of "0x0A" "line @ [0x0D]" rest] assms(2,3) by (simp add: crlf_def)
  have "header_line ?b (length pre) ?i = line" by (simp add: header_line_def crlf_def nth_append)
  with assms(2,4) have "header_step v ?b ?i h = at_pos (length pre + length line + 2) r h'"
    by (simp add: header_step_def at_pos_def)
  with header_loop_line [OF assms(1) f] show ?thesis by simp
qed

fun run_fields :: "'h http_virtuals \<Rightarrow> (bytes \<times> bytes) list \<Rightarrow> 'h \<Rightarrow> ResultEnum \<times> 'h" where
  "run_fields v [] h = (v_Verify v h, h)"
| "run_fields v ((key, x) # fs) h =
     (let (r, h') = v_ProcessLine v (map tolower key) x h
      in if r = HEADER_INCOMPLETE then run_fields v fs h' else (r, h'))"

definition fields_text :: "(bytes \<times> bytes) list \<Rightarrow> bytes" where
  "fields_text fs = concat (map (\<lambda>(key, x). field_line key x @ crlf) fs)"

definition header_text :: "bytes \<Rightarrow> bytes \<Rightarrow> bytes \<Rightarrow> (bytes \<times> bytes) list \<Rightarrow> bytes" where
  "header_text a b c fs = (a @ 0x20 # b @ 0x20 # c) @ crlf @ fields_text fs @ crlf"

locale http_private =
  fixes v :: "'a HttpHeader_scheme http_virtuals"
  assumes first_private: "\<And>a b c n r h. v_ProcessFirstLine v a b c (at_pos n r h) =
        map_prod id (at_pos n r) (v_ProcessFirstLine v a b c h)"
    and line_private: "\<And>k x n r h. v_ProcessLine v k x (at_pos n r h) = map_prod id (at_pos n r) (v_ProcessLine v k x h)"
    and verify_private: "\<And>n r h. v_Verify v (at_pos n r h) = v_Verify v h"
    and not_done: "\<And>k x h. fst (v_ProcessLine v k x h) \<noteq> HEADER_COMPLETE"
begin

lemma fields_read:
  assumes "pre \<noteq> []" "\<forall>(key, x) \<in> set fs. plain_name key \<and> plain_text x" "run_fields v fs h = (HEADER_COMPLETE, h')"
  shows "header_loop v (pre @ fields_text fs @ crlf @ body) eof (at_pos (length pre) HEADER_INCOMPLETE h)
    = at_pos (length pre + length (fields_text fs) + 2) HEADER_COMPLETE h'"
  using assms
proof (induction fs arbitrary: pre h)
  case Nil
  from header_loop_text [of "at_pos (length pre) HEADER_INCOMPLETE h" pre "[]" v HEADER_COMPLETE
      "at_pos (length pre) HEADER_INCOMPLETE h" body eof] Nil
  show ?case by (auto simp: fields_text_def HttpHeader_ProcessLine_def verify_private)
next
  case (Cons f fs)
  obtain key x where f: "f = (key, x)" by (cases f)
  obtain r h1 where r: "v_ProcessLine v (map tolower key) x h = (r, h1)" by fastforce
  with Cons.prems(3) f not_done [of "map tolower key" x h] have run: "r = HEADER_INCOMPLETE" "run_fields v fs h1 = (HEADER_COMPLETE, h')"
    by (auto split: if_splits)
  have "0x0A \<notin> set (field_line key x)" using Cons.prems(2) f
    by (auto simp: field_line_def plain_name_def plain_text_def)
  moreover have "HttpHeader_ProcessLine v (field_line key x) (at_pos (length pre) HEADER_INCOMPLETE h)
      = (r, at_pos (length pre) HEADER_INCOMPLETE h1)"
    using Cons.prems(2) f r by (simp add: ProcessLine_field line_private)
  ultimately have "header_loop v (pre @ fields_text (f # fs) @ crlf @ body) eof (at_pos (length pre) HEADER_INCOMPLETE h)
      = header_loop v (pre @ fields_text (f # fs) @ crlf @ body) eof
          (at_pos (length pre + length (field_line key x) + 2) r h1)"
    using header_loop_text [of "at_pos (length pre) HEADER_INCOMPLETE h" pre "field_line key x" v r
        "at_pos (length pre) HEADER_INCOMPLETE h1" "fields_text fs @ crlf @ body" eof] Cons.prems(1) f
    by (simp add: fields_text_def)
  with Cons.IH [of "pre @ field_line key x @ crlf" h1] Cons.prems(1,2) run f show ?case
    by (simp add: fields_text_def ac_simps)
qed

lemma header_read:
  assumes a: "0x20 \<notin> set a" "0x20 \<notin> set b" "0x0A \<notin> set a" "0x0A \<notin> set b" "0x0A \<notin> set c"
    and fs: "\<forall>(key, x) \<in> set fs. plain_name key \<and> plain_text x"
    and h: "startIndex h = 0" "headerResult h = HEADER_INCOMPLETE"
    and run: "v_ProcessFirstLine v a b c h = (HEADER_INCOMPLETE, h1)" "run_fields v fs h1 = (HEADER_COMPLETE, h2)"
  shows "ProcessHeaderData v (header_text a b c fs @ body) eof h
    = (HEADER_COMPLETE, at_pos (length (header_text a b c fs)) HEADER_COMPLETE h2)"
proof -
  let ?l = "a @ 0x20 # b @ 0x20 # c"
  have "header_loop v (header_text a b c fs @ body) eof h
      = header_loop v (header_text a b c fs @ body) eof (at_pos (length ?l + 2) HEADER_INCOMPLETE h1)"
    using header_loop_text [of h "[]" ?l v HEADER_INCOMPLETE h1 "fields_text fs @ crlf @ body" eof] h a run(1)
    by (simp add: header_text_def ProcessFirstLine_split [OF a(1,2)])
  with fields_read [of "?l @ crlf" fs h1 h2 body eof] fs run(2) show ?thesis
    by (simp add: ProcessHeaderData_def h header_text_def ac_simps)
qed

end

section \<open>Requests and responses provide the interfaces\<close>

definition request_inv :: "HttpRequest \<Rightarrow> bool" where "request_inv h \<longleftrightarrow> - 1 \<le> sint (contentLength h)"

definition request_done :: "HttpRequest \<Rightarrow> bool" where
  "request_done h \<longleftrightarrow> - 1 \<le> sint (contentLength h) \<and> (req_method h = lit ''POST'' \<longrightarrow> 0 \<le> sint (contentLength h)) \<and>
     (httpVersion h = lit ''1.1'' \<longrightarrow> req_host h \<noteq> [])"

definition response_inv :: "HttpResponse \<Rightarrow> bool" where "response_inv h \<longleftrightarrow> - 1 \<le> sint (contentLength h)"

definition response_done :: "HttpResponse \<Rightarrow> bool" where "response_done h \<longleftrightarrow> 0 \<le> sint (contentLength h)"

lemmas request_virtuals = HttpRequest_virtuals_def HttpRequest_ProcessFirstLine_def HttpRequest_ProcessLine_def
  HttpRequest_Verify_def set_connection_def

lemmas response_virtuals = HttpResponse_virtuals_def HttpResponse_ProcessFirstLine_def HttpResponse_ProcessLine_def
  HttpResponse_Verify_def set_connection_def

interpretation request: http_fields HttpRequest_virtuals request_inv request_done
  by unfold_locales (auto simp: request_virtuals request_inv_def request_done_def Let_def split: if_splits)

interpretation response: http_fields HttpResponse_virtuals response_inv response_done
  by unfold_locales (auto simp: response_virtuals response_inv_def response_done_def Let_def split: if_splits)

interpretation request_text: http_private HttpRequest_virtuals
  by unfold_locales (auto simp: request_virtuals at_pos_def Let_def)

interpretation response_text: http_private HttpResponse_virtuals
  by unfold_locales (auto simp: response_virtuals at_pos_def Let_def)

end
