(* ===== verification/AnyRpc_Method.thy ===== *)
theory AnyRpc_Method
  imports AnyRpc_Document
begin

text \<open>
  method.h and method.cpp: the methods a server offers and the \<^verbatim>\<open>MethodManager\<close> that holds them.
  Every operation of the manager takes its mutex, so that an operation, or the part of it between
  two waits, is one step on the state; \<^verbatim>\<open>ExecuteMethod\<close> releases the mutex while the method runs.

  Main results: in every interleaving of threads that add, remove and execute methods, the count
  of active threads of a method is the number of executions in progress, no execution meets a
  deleted method, and a method whose removal was delayed is removed when its last execution ends.
\<close>

section \<open>Methods\<close>

text \<open>
  A \<^verbatim>\<open>Method\<close> is an object behind a pointer. Its class is one of the library's, with a function
  pointer (\<open>None\<close> is null) or with the manager, or one of the application's; a \<open>nat\<close> names code of
  the application.
\<close>

type_synonym ptr = nat

datatype method_class = MethodFunction "nat option" | ListMethod | HelpMethod | UserMethod nat

record Method =
  m_name :: bytes
  m_help :: bytes
  m_deleteOnRemove :: bool
  m_activeThreads :: int
  m_delayedRemove :: bool
  m_class :: method_class

definition Method_new :: "method_class \<Rightarrow> bytes \<Rightarrow> bytes \<Rightarrow> bool \<Rightarrow> Method" where
  "Method_new k name help deleteOnRemove = \<lparr> m_name = name, m_help = help, m_deleteOnRemove = deleteOnRemove,
     m_activeThreads = 0, m_delayedRemove = False, m_class = k \<rparr>"

definition AddThread :: "Method \<Rightarrow> Method" where "AddThread m = m \<lparr> m_activeThreads := m_activeThreads m + 1 \<rparr>"
definition RemoveThread :: "Method \<Rightarrow> Method" where "RemoveThread m = m \<lparr> m_activeThreads := m_activeThreads m - 1 \<rparr>"
definition SetDelayedRemove :: "Method \<Rightarrow> Method" where "SetDelayedRemove m = m \<lparr> m_delayedRemove := True \<rparr>"

text \<open>\<^verbatim>\<open>std::map<std::string,Method*>\<close>: the entries in the order of \<^verbatim>\<open>std::string\<close>.\<close>

fun string_less :: "bytes \<Rightarrow> bytes \<Rightarrow> bool" where
  "string_less xs [] = False"
| "string_less [] (y # ys) = True"
| "string_less (x # xs) (y # ys) = (x < y \<or> x = y \<and> string_less xs ys)"

type_synonym method_map = "(bytes \<times> ptr) list"

fun map_insert :: "bytes \<Rightarrow> ptr \<Rightarrow> method_map \<Rightarrow> method_map" where
  "map_insert name p [] = [(name, p)]"
| "map_insert name p ((n, q) # ms) =
     (if name = n then (n, p) # ms
      else if string_less name n then (name, p) # (n, q) # ms
      else (n, q) # map_insert name p ms)"

definition map_erase :: "bytes \<Rightarrow> method_map \<Rightarrow> method_map" where
  "map_erase name ms = filter (\<lambda>(n, _). n \<noteq> name) ms"

text \<open>The manager and the objects; \<open>mm_next\<close> is the next pointer of \<^verbatim>\<open>new\<close>, none is used twice.\<close>

record manager =
  mm_methods :: method_map
  mm_heap :: "ptr \<Rightarrow> Method option"
  mm_next :: ptr

definition new_method :: "Method \<Rightarrow> manager \<Rightarrow> ptr \<times> manager" where
  "new_method m mm = (mm_next mm, mm \<lparr> mm_heap := (mm_heap mm)(mm_next mm := Some m), mm_next := mm_next mm + 1 \<rparr>)"

definition delete_method :: "ptr \<Rightarrow> manager \<Rightarrow> manager" where
  "delete_method p mm = mm \<lparr> mm_heap := (mm_heap mm)(p := None) \<rparr>"

definition deref :: "manager \<Rightarrow> ptr \<Rightarrow> Method result" where
  "deref mm p = (case mm_heap mm p of None \<Rightarrow> Inl UndefinedBehaviour | Some m \<Rightarrow> Inr m)"

definition put_method :: "ptr \<Rightarrow> Method \<Rightarrow> manager \<Rightarrow> manager" where
  "put_method p m mm = mm \<lparr> mm_heap := (mm_heap mm)(p := Some m) \<rparr>"

definition mm_find :: "bytes \<Rightarrow> manager \<Rightarrow> ptr option" where "mm_find name mm = map_of (mm_methods mm) name"

definition mm_bind :: "bytes \<Rightarrow> ptr \<Rightarrow> manager \<Rightarrow> manager" where
  "mm_bind name p mm = mm \<lparr> mm_methods := map_insert name p (mm_methods mm) \<rparr>"

definition mm_erase :: "bytes \<Rightarrow> manager \<Rightarrow> manager" where
  "mm_erase name mm = mm \<lparr> mm_methods := map_erase name (mm_methods mm) \<rparr>"

section \<open>The manager\<close>

definition LIST_METHODS :: bytes where "LIST_METHODS = lit ''system.listMethods''"
definition LIST_METHODS_HELP :: bytes where
  "LIST_METHODS_HELP = lit ''List all methods available on a server as an array of strings''"
definition METHOD_HELP :: bytes where "METHOD_HELP = lit ''system.methodHelp''"
definition METHOD_HELP_HELP :: bytes where "METHOD_HELP_HELP = lit ''Retrieve the help string for a named method''"

definition MethodManager_new :: manager where
  "MethodManager_new =
     (let mm0 = \<lparr> mm_methods = [], mm_heap = Map.empty, mm_next = 0 \<rparr>;
          (p, mm1) = new_method (Method_new ListMethod LIST_METHODS LIST_METHODS_HELP True) mm0;
          mm2 = mm_bind LIST_METHODS p mm1;
          (q, mm3) = new_method (Method_new HelpMethod METHOD_HELP METHOD_HELP_HELP True) mm2
      in mm_bind METHOD_HELP q mm3)"

fun delete_methods :: "method_map \<Rightarrow> manager \<Rightarrow> manager result" where
  "delete_methods [] mm = Inr mm"
| "delete_methods ((_, p) # ms) mm = then_r (deref mm p) (\<lambda>m.
     delete_methods ms (if m_deleteOnRemove m then delete_method p mm else mm))"

definition MethodManager_destroy :: "manager \<Rightarrow> manager result" where
  "MethodManager_destroy mm = then_r (delete_methods (mm_methods mm) mm) (\<lambda>mm. Inr (mm \<lparr> mm_methods := [] \<rparr>))"

text \<open>The operations that throw also return the state, which may have changed before.\<close>

definition AddFunction :: "nat option \<Rightarrow> bytes \<Rightarrow> bytes \<Rightarrow> manager \<Rightarrow> err option \<times> manager" where
  "AddFunction function name help mm =
     (if mm_find name mm = None then
        let (p, mm') = new_method (Method_new (MethodFunction function) name help True) mm
        in (None, mm_bind name p mm')
      else (Some AnyRpcErrorFunctionRedefine, mm))"

definition AddMethod :: "ptr \<Rightarrow> manager \<Rightarrow> err option \<times> manager" where
  "AddMethod p mm =
     (case deref mm p of
        Inl e \<Rightarrow> (Some e, mm)
      | Inr m \<Rightarrow>
          if mm_find (m_name m) mm = None then (None, mm_bind (m_name m) p mm)
          else (Some AnyRpcErrorMethodRedefine, if m_deleteOnRemove m then delete_method p mm else mm))"

text \<open>
  \<^verbatim>\<open>RemoveMethod\<close> up to its return or to the wait: the method was not there, was removed, or is
  to be removed by the thread that ends its last execution. \<open>RemoveMethod_wait\<close> is one evaluation
  of the condition of the loop around the wait.
\<close>

datatype removal = NotFound | Removed | Delayed

definition RemoveMethod :: "bytes \<Rightarrow> manager \<Rightarrow> removal result \<times> manager" where
  "RemoveMethod name mm =
     (case mm_find name mm of
        None \<Rightarrow> (Inr NotFound, mm)
      | Some p \<Rightarrow>
          (case deref mm p of
             Inl e \<Rightarrow> (Inl e, mm)
           | Inr m \<Rightarrow>
               if m_activeThreads m > 0 then (Inr Delayed, put_method p (SetDelayedRemove m) mm)
               else (Inr Removed, mm_erase name (if m_deleteOnRemove m then delete_method p mm else mm))))"

definition RemoveMethod_wait :: "bytes \<Rightarrow> manager \<Rightarrow> bool" where
  "RemoveMethod_wait name mm \<longleftrightarrow> mm_find name mm \<noteq> None"

text \<open>\<^verbatim>\<open>ExecuteMethod\<close> under the mutex: the method to execute, if any.\<close>

definition ExecuteMethod_begin :: "bytes \<Rightarrow> manager \<Rightarrow> (ptr option) result \<times> manager" where
  "ExecuteMethod_begin name mm =
     (case mm_find name mm of
        None \<Rightarrow> (Inr None, mm)
      | Some p \<Rightarrow>
          (case deref mm p of
             Inl e \<Rightarrow> (Inl e, mm)
           | Inr m \<Rightarrow> if m_delayedRemove m then (Inr None, mm) else (Inr (Some p), put_method p (AddThread m) mm)))"

definition FollowUpOperations :: "ptr \<Rightarrow> manager \<Rightarrow> err option \<times> manager" where
  "FollowUpOperations p mm =
     (case deref mm p of
        Inl e \<Rightarrow> (Some e, mm)
      | Inr m0 \<Rightarrow>
          let m = RemoveThread m0; mm1 = put_method p m mm
          in if m_delayedRemove m \<and> m_activeThreads m = 0 then
               (case mm_find (m_name m) mm1 of
                  None \<Rightarrow> (Some AnyRpcErrorInternalError, mm1)
                | Some _ \<Rightarrow> (None, mm_erase (m_name m) (if m_deleteOnRemove m then delete_method p mm1 else mm1)))
             else (None, mm1))"

section \<open>Executing a method\<close>

text \<open>
  What leaves a method: an \<^verbatim>\<open>AnyRpcException\<close> with its code and message, an exception of another
  class, or undefined behaviour; otherwise the result. The application's code is given by
  \<open>call\<close>: named code, applied to the parameters, the result so far, the manager and the state of
  the application. That state and the manager may be different afterwards, by what the code does
  and by what other threads do in the meantime.
\<close>

datatype exn = Fault int bytes | Foreign | Undefined

type_synonym 'w calls = "nat \<Rightarrow> Value \<Rightarrow> Value \<Rightarrow> manager \<Rightarrow> 'w \<Rightarrow> (exn + Value) \<times> manager \<times> 'w"

fun fault :: "bytes \<Rightarrow> err \<Rightarrow> exn" where
  "fault msg (AnyRpcException c) = Fault c msg"
| "fault msg _ = Undefined"

definition with_message :: "bytes \<Rightarrow> 'a result \<Rightarrow> exn + 'a" where
  "with_message msg r = (case r of Inl e \<Rightarrow> Inl (fault msg e) | Inr x \<Rightarrow> Inr x)"

definition set_element :: "nat \<Rightarrow> Value \<Rightarrow> Value \<Rightarrow> Value result" where
  "set_element i x v = then_r (index_at v i) (\<lambda>v'. Inr (set_child v' i x))"

fun list_names :: "nat \<Rightarrow> method_map \<Rightarrow> Value \<Rightarrow> Value result" where
  "list_names i [] result = Inr result"
| "list_names i ((name, _) # ms) result =
     then_r (set_element i (Value_string name) result) (list_names (i + 1) ms)"

definition ListMethods :: "manager \<Rightarrow> Value \<Rightarrow> Value \<Rightarrow> exn + Value" where
  "ListMethods mm params result =
     with_message (lit ''Too many elements, size='' @ dec_nat (length (mm_methods mm)) @ lit '', capacity='' @
         dec_nat MaxArrayCapacity)
       (then_r (SetSize (length (mm_methods mm)) (SetArray result)) (list_names 0 (mm_methods mm)))"

text \<open>The elements are read only after the tests before have made sure that they exist.\<close>

definition help_params :: "Value \<Rightarrow> bytes option result" where
  "help_params params =
     (if \<not> IsArray params then Inr None
      else then_r (Size params) (\<lambda>n.
        if n \<noteq> 1 then Inr None
        else then_r (value_at_index params 0) (\<lambda>x.
          if \<not> IsString x then Inr None else then_r (GetString x) (\<lambda>s. Inr (Some (c_str s))))))"

definition FindHelpMethod :: "manager \<Rightarrow> Value \<Rightarrow> Value \<Rightarrow> exn + Value" where
  "FindHelpMethod mm params result =
     (case help_params params of
        Inl e \<Rightarrow> Inl (fault [] e)
      | Inr None \<Rightarrow> Inl (fault (lit ''Invalid parameters'') AnyRpcErrorInvalidParams)
      | Inr (Some name) \<Rightarrow>
          (case mm_find name mm of
             None \<Rightarrow> Inl (fault (lit ''Unknown method name: '' @ name) AnyRpcErrorMethodNotFound)
           | Some p \<Rightarrow> with_message [] (then_r (deref mm p) (\<lambda>m. Inr (Value_string (m_help m))))))"

definition Method_Execute :: "'w calls \<Rightarrow> Method \<Rightarrow> Value \<Rightarrow> Value \<Rightarrow> manager \<Rightarrow> 'w \<Rightarrow> (exn + Value) \<times> manager \<times> 'w" where
  "Method_Execute call m params result mm w =
     (case m_class m of
        MethodFunction None \<Rightarrow> (Inr result, mm, w)
      | MethodFunction (Some f) \<Rightarrow> call f params result mm w
      | ListMethod \<Rightarrow> (ListMethods mm params result, mm, w)
      | HelpMethod \<Rightarrow> (FindHelpMethod mm params result, mm, w)
      | UserMethod f \<Rightarrow> call f params result mm w)"

text \<open>
  \<^verbatim>\<open>ExecuteMethod\<close> as a whole: whether a method was executed, and its result. The follow-up is done
  in either case; an exception of its own replaces the one of the method.
\<close>

definition not_found_text :: "Method \<Rightarrow> bytes" where
  "not_found_text m = lit ''Method not found for delayed remove: '' @ m_name m"

definition ExecuteMethod ::
    "'w calls \<Rightarrow> bytes \<Rightarrow> Value \<Rightarrow> Value \<Rightarrow> manager \<Rightarrow> 'w \<Rightarrow> (exn + bool \<times> Value) \<times> manager \<times> 'w" where
  "ExecuteMethod call name params result mm w =
     (case ExecuteMethod_begin name mm of
        (Inl e, mm1) \<Rightarrow> (Inl Undefined, mm1, w)
      | (Inr None, mm1) \<Rightarrow> (Inr (False, result), mm1, w)
      | (Inr (Some p), mm1) \<Rightarrow>
          (case deref mm1 p of
             Inl e \<Rightarrow> (Inl Undefined, mm1, w)
           | Inr m \<Rightarrow>
               let (out, mm2, w2) = Method_Execute call m params result mm1 w;
                   (thrown, mm3) = FollowUpOperations p mm2
               in (case thrown of
                     Some e \<Rightarrow> (Inl (fault (not_found_text m) e), mm3, w2)
                   | None \<Rightarrow> (map_sum id (Pair True) out, mm3, w2))))"

section \<open>Threads\<close>

text \<open>
  The manager used by several threads. A thread has a stack: the executions it is in, the latest
  first, and on top possibly a wait for the removal of a method. Only a thread that does not
  wait calls an operation. A \<^verbatim>\<open>Method\<close> the application gives to \<^verbatim>\<open>AddMethod\<close>, or deletes, is one
  that is not registered.
\<close>

datatype frame = Executing ptr | WaitingFor bytes

record system =
  sys_mm :: manager
  sys_threads :: "frame list list"

definition registered :: "manager \<Rightarrow> ptr \<Rightarrow> bool" where "registered mm p \<longleftrightarrow> p \<in> snd ` set (mm_methods mm)"

definition ready :: "system \<Rightarrow> nat \<Rightarrow> bool" where
  "ready s t \<longleftrightarrow> t < length (sys_threads s) \<and>
     (case sys_threads s ! t of WaitingFor n # _ \<Rightarrow> False | _ \<Rightarrow> True)"

definition push :: "nat \<Rightarrow> frame \<Rightarrow> frame list list \<Rightarrow> frame list list" where "push t f ts = ts[t := f # ts ! t]"

definition pop :: "nat \<Rightarrow> frame list list \<Rightarrow> frame list list" where "pop t ts = ts[t := tl (ts ! t)]"

inductive sys_step :: "system \<Rightarrow> system \<Rightarrow> bool" where
  step_AddFunction: "ready s t \<Longrightarrow> AddFunction f name help (sys_mm s) = (e, mm') \<Longrightarrow> sys_step s (s \<lparr> sys_mm := mm' \<rparr>)"
| step_new: "ready s t \<Longrightarrow> new_method (Method_new k name help d) (sys_mm s) = (p, mm') \<Longrightarrow>
    sys_step s (s \<lparr> sys_mm := mm' \<rparr>)"
| step_delete: "ready s t \<Longrightarrow> \<not> registered (sys_mm s) p \<Longrightarrow> sys_step s (s \<lparr> sys_mm := delete_method p (sys_mm s) \<rparr>)"
| step_AddMethod: "ready s t \<Longrightarrow> mm_heap (sys_mm s) p \<noteq> None \<Longrightarrow> \<not> registered (sys_mm s) p \<Longrightarrow>
    AddMethod p (sys_mm s) = (e, mm') \<Longrightarrow> sys_step s (s \<lparr> sys_mm := mm' \<rparr>)"
| step_Remove: "ready s t \<Longrightarrow> RemoveMethod name (sys_mm s) = (r, mm') \<Longrightarrow>
    ts' = (if r = Inr Delayed \<and> wait then push t (WaitingFor name) (sys_threads s) else sys_threads s) \<Longrightarrow>
    sys_step s (s \<lparr> sys_mm := mm', sys_threads := ts' \<rparr>)"
| step_wake: "t < length (sys_threads s) \<Longrightarrow> sys_threads s ! t = WaitingFor name # st \<Longrightarrow>
    \<not> RemoveMethod_wait name (sys_mm s) \<Longrightarrow> sys_step s (s \<lparr> sys_threads := pop t (sys_threads s) \<rparr>)"
| step_begin: "ready s t \<Longrightarrow> ExecuteMethod_begin name (sys_mm s) = (r, mm') \<Longrightarrow>
    ts' = (case r of Inr (Some p) \<Rightarrow> push t (Executing p) (sys_threads s) | _ \<Rightarrow> sys_threads s) \<Longrightarrow>
    sys_step s (s \<lparr> sys_mm := mm', sys_threads := ts' \<rparr>)"
| step_end: "t < length (sys_threads s) \<Longrightarrow> sys_threads s ! t = Executing p # st \<Longrightarrow>
    FollowUpOperations p (sys_mm s) = (e, mm') \<Longrightarrow>
    sys_step s (s \<lparr> sys_mm := mm', sys_threads := pop t (sys_threads s) \<rparr>)"

inductive sys_reach :: "system \<Rightarrow> bool" where
  reach_start: "sys_reach \<lparr> sys_mm = MethodManager_new, sys_threads = replicate n [] \<rparr>"
| reach_step: "sys_reach s \<Longrightarrow> sys_step s s' \<Longrightarrow> sys_reach s'"

section \<open>The invariant\<close>

definition executing :: "ptr \<Rightarrow> frame list list \<Rightarrow> nat" where
  "executing p ts = sum_list (map (\<lambda>st. count_list st (Executing p)) ts)"

definition mm_wf :: "manager \<Rightarrow> bool" where
  "mm_wf mm \<longleftrightarrow> distinct (map fst (mm_methods mm)) \<and>
     (\<forall>(n, p) \<in> set (mm_methods mm). \<exists>m. mm_heap mm p = Some m \<and> m_name m = n) \<and>
     (\<forall>p \<ge> mm_next mm. mm_heap mm p = None)"

definition mm_inv :: "manager \<Rightarrow> frame list list \<Rightarrow> bool" where
  "mm_inv mm ts \<longleftrightarrow> mm_wf mm \<and>
     (\<forall>p m. mm_heap mm p = Some m \<longrightarrow> m_activeThreads m = int (executing p ts)) \<and>
     (\<forall>p. 0 < executing p ts \<longrightarrow> registered mm p)"

lemma executing_update:
  assumes "t < length ts"
  shows "executing p (ts[t := st]) + count_list (ts ! t) (Executing p) = executing p ts + count_list st (Executing p)"
proof -
  let ?f = "\<lambda>st. count_list st (Executing p)"
  have "?f (ts ! t) \<le> sum_list (map ?f ts)" using assms by (intro member_le_sum_list) auto
  then show ?thesis using assms by (simp add: executing_def map_update sum_list_update)
qed

lemma executing_push [simp]:
  assumes "t < length ts"
  shows "executing p (push t (Executing q) ts) = executing p ts + (if p = q then 1 else 0)"
    "executing p (push t (WaitingFor n) ts) = executing p ts"
  using executing_update [OF assms, of p "Executing q # ts ! t"] executing_update [OF assms, of p "WaitingFor n # ts ! t"]
  by (auto simp: push_def split: if_splits)

lemma executing_pop:
  assumes "t < length ts" "ts ! t = f # st"
  shows "executing p ts = executing p (pop t ts) + (if f = Executing p then 1 else 0)"
  using executing_update [OF assms(1), of p st] assms(2) by (auto simp: pop_def)

lemma executing_positive:
  assumes "t < length ts" "Executing p \<in> set (ts ! t)"
  shows "0 < executing p ts"
proof -
  have "count_list (ts ! t) (Executing p) \<noteq> 0" using assms(2) by (simp add: count_list_0_iff)
  moreover have "count_list (ts ! t) (Executing p) \<in> set (map (\<lambda>st. count_list st (Executing p)) ts)" using assms(1) by simp
  ultimately show ?thesis unfolding executing_def by (metis sum_list_eq_0_iff gr0I)
qed

text \<open>The map: its laws as those of a finite map, over \<open>map_of\<close>.\<close>

lemma map_of_insert: "map_of (map_insert name p ms) = (map_of ms)(name \<mapsto> p)"
  by (induction name p ms rule: map_insert.induct) (auto simp: fun_upd_twist)

lemma fst_map_insert: "fst ` set (map_insert name p ms) = insert name (fst ` set ms)"
  by (induction name p ms rule: map_insert.induct) auto

lemma distinct_map_insert:
  "distinct (map fst ms) \<Longrightarrow> name \<notin> fst ` set ms \<Longrightarrow> distinct (map fst (map_insert name p ms))"
  by (induction name p ms rule: map_insert.induct) (auto simp: fst_map_insert)

lemma set_map_insert:
  "name \<notin> fst ` set ms \<Longrightarrow> set (map_insert name p ms) = insert (name, p) (set ms)"
  by (induction name p ms rule: map_insert.induct) auto

lemma set_map_erase: "set (map_erase name ms) = {(n, p). (n, p) \<in> set ms \<and> n \<noteq> name}"
  by (auto simp: map_erase_def)

lemma distinct_map_erase: "distinct (map fst ms) \<Longrightarrow> distinct (map fst (map_erase name ms))"
  unfolding map_erase_def by (rule distinct_map_filter)

lemma mm_find_Some: "mm_wf mm \<Longrightarrow> mm_find name mm = Some p \<longleftrightarrow> (name, p) \<in> set (mm_methods mm)"
  by (simp add: mm_find_def mm_wf_def)

lemma mm_find_None: "mm_find name mm = None \<longleftrightarrow> name \<notin> fst ` set (mm_methods mm)"
  by (simp add: mm_find_def map_of_eq_None_iff)

lemma mm_find_method:
  assumes "mm_wf mm" "mm_find name mm = Some p"
  shows "\<exists>m. mm_heap mm p = Some m \<and> m_name m = name"
  using assms by (auto simp: mm_find_Some mm_wf_def)

lemma registered_find:
  assumes "mm_wf mm" "registered mm p"
  obtains m where "mm_heap mm p = Some m" "mm_find (m_name m) mm = Some p"
proof -
  from assms(2) obtain n where n: "(n, p) \<in> set (mm_methods mm)" by (auto simp: registered_def)
  with assms(1) obtain m where "mm_heap mm p = Some m" "m_name m = n" by (auto simp: mm_wf_def)
  with n that show ?thesis using mm_find_Some [OF assms(1)] by auto
qed

section \<open>Every operation keeps the invariant\<close>

lemma deref_Some [simp]: "mm_heap mm p = Some m \<Longrightarrow> deref mm p = Inr m"
  by (simp add: deref_def)

lemma mm_simps [simp]:
  "mm_methods (delete_method p mm) = mm_methods mm" "mm_methods (put_method p m mm) = mm_methods mm"
  "mm_methods (mm_bind name p mm) = map_insert name p (mm_methods mm)"
  "mm_methods (mm_erase name mm) = map_erase name (mm_methods mm)"
  "mm_heap (delete_method p mm) = (mm_heap mm)(p := None)" "mm_heap (put_method p m mm) = (mm_heap mm)(p := Some m)"
  "mm_heap (mm_bind name p mm) = mm_heap mm" "mm_heap (mm_erase name mm) = mm_heap mm"
  "mm_next (delete_method p mm) = mm_next mm" "mm_next (put_method p m mm) = mm_next mm"
  "mm_next (mm_bind name p mm) = mm_next mm" "mm_next (mm_erase name mm) = mm_next mm"
  by (simp_all add: delete_method_def put_method_def mm_bind_def mm_erase_def)

lemma executing_zero:
  assumes "mm_inv mm ts" "\<not> registered mm p"
  shows "executing p ts = 0"
  using assms by (auto simp: mm_inv_def)

lemma new_method_inv:
  assumes "mm_inv mm ts" "new_method (Method_new k name help d) mm = (p, mm')"
  shows "mm_inv mm' ts \<and> mm_heap mm' p = Some (Method_new k name help d) \<and> \<not> registered mm' p
    \<and> mm_methods mm' = mm_methods mm"
proof -
  have p: "mm_heap mm (mm_next mm) = None" using assms(1) by (simp add: mm_inv_def mm_wf_def)
  have not: "\<not> registered mm (mm_next mm)"
  proof
    assume "registered mm (mm_next mm)"
    then show False using registered_find [of mm "mm_next mm"] assms(1) p by (auto simp: mm_inv_def)
  qed
  have "executing (mm_next mm) ts = 0" by (rule executing_zero [OF assms(1) not])
  moreover have "mm' = mm \<lparr> mm_heap := (mm_heap mm)(mm_next mm := Some (Method_new k name help d)), mm_next := mm_next mm + 1 \<rparr>"
    "p = mm_next mm" using assms(2) by (auto simp: new_method_def)
  moreover have "mm_wf mm'" using assms(1) not calculation(2) by (fastforce simp: mm_inv_def mm_wf_def registered_def)
  ultimately show ?thesis using assms(1) not by (simp add: mm_inv_def registered_def Method_new_def)
qed

lemma bind_inv:
  assumes "mm_inv mm ts" "mm_heap mm p = Some m" "mm_find (m_name m) mm = None"
  shows "mm_inv (mm_bind (m_name m) p mm) ts"
proof -
  have "m_name m \<notin> fst ` set (mm_methods mm)" using assms(3) by (simp add: mm_find_None)
  note s = set_map_insert [OF this, of p] distinct_map_insert [OF _ this, of p]
  have "mm_wf (mm_bind (m_name m) p mm)" using assms(1,2) by (auto simp: mm_inv_def mm_wf_def s)
  with assms(1) show ?thesis by (simp add: mm_inv_def registered_def s)
qed

lemma delete_inv:
  assumes "mm_inv mm ts" "\<not> registered mm p"
  shows "mm_inv (delete_method p mm) ts"
proof -
  have "\<And>n q. (n, q) \<in> set (mm_methods mm) \<Longrightarrow> q \<noteq> p" using assms(2) by (force simp: registered_def)
  then have "mm_wf (delete_method p mm)" using assms(1) by (fastforce simp: mm_inv_def mm_wf_def)
  with assms(1) show ?thesis by (simp add: mm_inv_def registered_def)
qed

lemma erase_inv:
  assumes "mm_inv mm ts" "mm_find name mm = Some p" "executing p ts = 0"
  shows "mm_inv (mm_erase name mm) ts" "\<not> registered (mm_erase name mm) p"
proof -
  have wf: "mm_wf mm" using assms(1) by (simp add: mm_inv_def)
  have only: "n = name" if "(n, p) \<in> set (mm_methods mm)" for n
  proof -
    from mm_find_method [OF wf assms(2)] obtain m where "mm_heap mm p = Some m" "m_name m = name" by blast
    with that wf show ?thesis by (fastforce simp: mm_wf_def)
  qed
  then show "\<not> registered (mm_erase name mm) p" by (auto simp: registered_def set_map_erase)
  have only': "q = p" if "(name, q) \<in> set (mm_methods mm)" for q
  proof -
    have "mm_find name mm = Some q" using mm_find_Some [OF wf] that by blast
    with assms(2) show ?thesis by simp
  qed
  have "mm_wf (mm_erase name mm)" using wf by (auto simp: mm_wf_def set_map_erase distinct_map_erase)
  moreover have "registered (mm_erase name mm) q" if "0 < executing q ts" for q
  proof -
    from that assms(1) have "registered mm q" by (simp add: mm_inv_def)
    then obtain n where "(n, q) \<in> set (mm_methods mm)" by (auto simp: registered_def)
    moreover from this have "n \<noteq> name" using only' that assms(3) by auto
    ultimately show ?thesis by (force simp: registered_def set_map_erase)
  qed
  ultimately show "mm_inv (mm_erase name mm) ts" using assms(1) by (simp add: mm_inv_def)
qed

text \<open>An object replaced by one of the same name, with the count of the new stacks.\<close>

lemma put_inv:
  assumes "mm_inv mm ts" "mm_heap mm p = Some m" "m_name m' = m_name m" "registered mm p"
    and "m_activeThreads m' = int (executing p ts')" "\<And>q. q \<noteq> p \<Longrightarrow> executing q ts' = executing q ts"
  shows "mm_inv (put_method p m' mm) ts'"
proof -
  have "p < mm_next mm"
  proof (rule ccontr)
    assume "\<not> p < mm_next mm"
    with assms(1) have "mm_heap mm p = None" by (simp add: mm_inv_def mm_wf_def)
    with assms(2) show False by simp
  qed
  moreover have "\<exists>x. mm_heap (put_method p m' mm) q = Some x \<and> m_name x = n" if "(n, q) \<in> set (mm_methods mm)" for n q
  proof -
    from that assms(1) obtain x where "mm_heap mm q = Some x" "m_name x = n" by (auto simp: mm_inv_def mm_wf_def)
    with assms(2,3) show ?thesis by (cases "q = p") auto
  qed
  ultimately have wf: "mm_wf (put_method p m' mm)" using assms(1)
    unfolding mm_inv_def mm_wf_def by (auto simp only: mm_simps) simp
  have reg: "registered mm q" if "0 < executing q ts'" for q
    using assms(1,4,6) that by (cases "q = p") (simp_all add: mm_inv_def)
  have "m_activeThreads x = int (executing q ts')" if "mm_heap (put_method p m' mm) q = Some x" for q x
    using assms(1,5,6) that by (cases "q = p") (simp_all add: mm_inv_def)
  with wf reg show ?thesis by (simp add: mm_inv_def registered_def)
qed

lemma erase_delete_inv:
  assumes "mm_inv mm ts" "mm_find name mm = Some p" "executing p ts = 0"
  shows "mm_inv (mm_erase name (if d then delete_method p mm else mm)) ts"
    "\<not> registered (mm_erase name (if d then delete_method p mm else mm)) p"
proof -
  have *: "mm_erase name (delete_method p mm) = delete_method p (mm_erase name mm)"
    by (simp add: mm_erase_def delete_method_def)
  from erase_inv [OF assms] delete_inv [OF erase_inv [OF assms]]
  show "mm_inv (mm_erase name (if d then delete_method p mm else mm)) ts"
    "\<not> registered (mm_erase name (if d then delete_method p mm else mm)) p"
    by (simp_all add: * registered_def)
qed

lemma name_kept [simp]:
  "m_name (AddThread m) = m_name m" "m_name (RemoveThread m) = m_name m" "m_name (SetDelayedRemove m) = m_name m"
  "m_activeThreads (AddThread m) = m_activeThreads m + 1" "m_activeThreads (RemoveThread m) = m_activeThreads m - 1"
  "m_activeThreads (SetDelayedRemove m) = m_activeThreads m" "m_delayedRemove (AddThread m) = m_delayedRemove m"
  "m_delayedRemove (RemoveThread m) = m_delayedRemove m" "m_delayedRemove (SetDelayedRemove m)"
  "m_deleteOnRemove (RemoveThread m) = m_deleteOnRemove m"
  by (simp_all add: AddThread_def RemoveThread_def SetDelayedRemove_def)

lemma find_registered: "mm_wf mm \<Longrightarrow> mm_find name mm = Some p \<Longrightarrow> registered mm p"
  by (force simp: mm_find_Some registered_def)

lemma AddFunction_inv:
  assumes "mm_inv mm ts" "AddFunction f name help mm = (e, mm')"
  shows "mm_inv mm' ts"
proof (cases "mm_find name mm = None")
  case True
  obtain p mm1 where n: "new_method (Method_new (MethodFunction f) name help True) mm = (p, mm1)" by fastforce
  from new_method_inv [OF assms(1) n] have "mm_inv mm1 ts" "mm_heap mm1 p = Some (Method_new (MethodFunction f) name help True)"
    "mm_find name mm1 = None" using True by (simp_all add: mm_find_def)
  from bind_inv [OF this(1,2)] this(3) show ?thesis using assms(2) True n by (auto simp: AddFunction_def Method_new_def)
qed (use assms in \<open>auto simp: AddFunction_def\<close>)

lemma AddMethod_inv:
  assumes "mm_inv mm ts" "\<not> registered mm p" "AddMethod p mm = (e, mm')"
  shows "mm_inv mm' ts"
proof (cases "mm_heap mm p")
  case (Some m)
  then show ?thesis using assms bind_inv [OF assms(1) Some] delete_inv [OF assms(1,2)]
    by (auto simp: AddMethod_def split: if_splits)
qed (use assms in \<open>auto simp: AddMethod_def deref_def\<close>)

lemma RemoveMethod_inv:
  assumes "mm_inv mm ts" "RemoveMethod name mm = (r, mm')"
  shows "mm_inv mm' ts \<and> (\<exists>x. r = Inr x)"
proof (cases "mm_find name mm")
  case (Some p)
  have wf: "mm_wf mm" using assms(1) by (simp add: mm_inv_def)
  obtain m where m: "mm_heap mm p = Some m" "m_name m = name" using mm_find_method [OF wf Some] by blast
  have a: "m_activeThreads m = int (executing p ts)" using assms(1) m by (simp add: mm_inv_def)
  show ?thesis
  proof (cases "0 < m_activeThreads m")
    case True
    have "mm_inv (put_method p (SetDelayedRemove m) mm) ts"
      by (rule put_inv [OF assms(1) m(1)]) (simp_all add: a find_registered [OF wf Some])
    with True assms(2) Some m show ?thesis by (auto simp: RemoveMethod_def)
  next
    case False
    with a have "executing p ts = 0" by simp
    from erase_delete_inv(1) [OF assms(1) Some this, of "m_deleteOnRemove m"] False assms(2) Some m show ?thesis
      by (auto simp: RemoveMethod_def)
  qed
qed (use assms in \<open>auto simp: RemoveMethod_def\<close>)

lemma begin_inv:
  assumes "mm_inv mm ts" "ExecuteMethod_begin name mm = (r, mm')"
  shows "r = Inr None \<and> mm' = mm \<or>
    (\<exists>p m. r = Inr (Some p) \<and> mm_find name mm = Some p \<and> mm_heap mm p = Some m \<and> \<not> m_delayedRemove m
       \<and> mm' = put_method p (AddThread m) mm \<and> (\<forall>t < length ts. mm_inv mm' (push t (Executing p) ts)))"
proof (cases "mm_find name mm")
  case (Some p)
  have wf: "mm_wf mm" using assms(1) by (simp add: mm_inv_def)
  obtain m where m: "mm_heap mm p = Some m" using mm_find_method [OF wf Some] by blast
  have a: "m_activeThreads m = int (executing p ts)" using assms(1) m by (simp add: mm_inv_def)
  have "mm_inv (put_method p (AddThread m) mm) (push t (Executing p) ts)" if "t < length ts" for t
    by (rule put_inv [OF assms(1) m]) (simp_all add: a that find_registered [OF wf Some])
  with assms(2) Some m show ?thesis by (auto simp: ExecuteMethod_begin_def split: if_splits)
qed (use assms in \<open>auto simp: ExecuteMethod_begin_def\<close>)

lemma FollowUp_inv:
  assumes "mm_inv mm ts" "t < length ts" "ts ! t = Executing p # st" "FollowUpOperations p mm = (e, mm')"
  shows "e = None \<and> mm_inv mm' (pop t ts) \<and> registered mm p
    \<and> (\<exists>m. mm_heap mm p = Some m \<and> (m_delayedRemove m \<longrightarrow> registered mm' p \<longrightarrow>
          0 < executing p (pop t ts) \<and> mm_heap mm' p = Some (RemoveThread m)))"
proof -
  have wf: "mm_wf mm" using assms(1) by (simp add: mm_inv_def)
  have ex: "executing q ts = executing q (pop t ts) + (if p = q then 1 else 0)" for q
    using executing_pop [OF assms(2,3), of q] by auto
  then have reg: "registered mm p" using assms(1) by (simp add: mm_inv_def)
  obtain m where m: "mm_heap mm p = Some m" "mm_find (m_name m) mm = Some p" by (rule registered_find [OF wf reg])
  have a: "m_activeThreads m = int (executing p (pop t ts)) + 1" using assms(1) m ex [of p] by (simp add: mm_inv_def)
  let ?mm1 = "put_method p (RemoveThread m) mm"
  have inv: "mm_inv ?mm1 (pop t ts)"
    by (rule put_inv [OF assms(1) m(1)]) (simp_all add: a reg ex)
  have find: "mm_find (m_name m) ?mm1 = Some p" using m(2) by (simp add: mm_find_def)
  show ?thesis
  proof (cases "m_delayedRemove m \<and> executing p (pop t ts) = 0")
    case True
    note er = erase_delete_inv [OF inv find, of "m_deleteOnRemove m"]
    have "e = None" "mm' = mm_erase (m_name m) (if m_deleteOnRemove m then delete_method p ?mm1 else ?mm1)"
      using assms(4) True m a find by (simp_all add: FollowUpOperations_def Let_def)
    with er True reg m(1) show ?thesis by simp
  next
    case False
    then have "e = None" "mm' = ?mm1" using assms(4) m a by (auto simp: FollowUpOperations_def Let_def)
    with inv reg m(1) False show ?thesis by auto
  qed
qed

lemma sys_step_inv:
  assumes "sys_step s s'" "mm_inv (sys_mm s) (sys_threads s)"
  shows "mm_inv (sys_mm s') (sys_threads s')"
  using assms(1)
proof cases
  case (step_AddFunction t f name hlp e mm')
  with AddFunction_inv [OF assms(2) step_AddFunction(3)] show ?thesis by simp
next
  case (step_new t k name hlp d p mm')
  with new_method_inv [OF assms(2) step_new(3)] show ?thesis by simp
next
  case (step_delete t p)
  with delete_inv [OF assms(2) step_delete(3)] show ?thesis by simp
next
  case (step_AddMethod t p e mm')
  with AddMethod_inv [OF assms(2) step_AddMethod(4,5)] show ?thesis by simp
next
  case (step_begin t name r mm' ts')
  from begin_inv [OF assms(2) step_begin(3)] step_begin(1,2,4) assms(2) show ?thesis
    by (elim disjE exE conjE) (simp_all add: ready_def)
next
  case (step_Remove t name r mm' ts' wait)
  from RemoveMethod_inv [OF assms(2) step_Remove(3)] step_Remove(1,2,4) show ?thesis
    by (simp add: ready_def mm_inv_def)
next
  case (step_wake t name st)
  from executing_pop [OF step_wake(2,3)] step_wake(1) assms(2) show ?thesis by (simp add: mm_inv_def)
next
  case (step_end t p st e mm')
  with FollowUp_inv [OF assms(2) step_end(2-4)] show ?thesis by simp
qed

lemma sys_reach_inv: "sys_reach s \<Longrightarrow> mm_inv (sys_mm s) (sys_threads s)"
proof (induction rule: sys_reach.induct)
  case (reach_start n)
  have "executing p (replicate n []) = 0" for p by (simp add: executing_def)
  moreover have "LIST_METHODS \<noteq> METHOD_HELP" by (simp add: LIST_METHODS_def METHOD_HELP_def)
  ultimately show ?case
    by (auto simp: MethodManager_new_def new_method_def mm_inv_def mm_wf_def Method_new_def mm_bind_def)
qed (blast intro: sys_step_inv)

section \<open>Delayed removal\<close>

text \<open>
  A method that is to be removed: registered, with the flag set and executions in progress. Until it is
  gone, no thread enters it, so the number of executions in every thread can only fall.
\<close>

definition leaving :: "ptr \<Rightarrow> system \<Rightarrow> bool" where
  "leaving p s \<longleftrightarrow> registered (sys_mm s) p \<and> 0 < executing p (sys_threads s) \<and>
     (\<exists>m. mm_heap (sys_mm s) p = Some m \<and> m_delayedRemove m)"

definition inside :: "ptr \<Rightarrow> system \<Rightarrow> nat \<Rightarrow> nat" where
  "inside p s t = count_list (sys_threads s ! t) (Executing p)"

definition drained :: "ptr \<Rightarrow> system \<Rightarrow> system \<Rightarrow> bool" where
  "drained p s s' \<longleftrightarrow> length (sys_threads s') = length (sys_threads s) \<and>
     (\<forall>t < length (sys_threads s). inside p s' t \<le> inside p s t)"

lemma drained_same [simp]: "drained p s (s \<lparr> sys_mm := mm' \<rparr>)"
  by (simp add: drained_def inside_def)

lemma drained_trans: "drained p s s' \<Longrightarrow> drained p s' s'' \<Longrightarrow> drained p s s''"
  by (fastforce simp: drained_def intro: order.trans)

lemma drained_push:
  "f \<noteq> Executing p \<Longrightarrow> drained p s (s \<lparr> sys_mm := mm', sys_threads := push t f (sys_threads s) \<rparr>)"
proof -
  assume f: "f \<noteq> Executing p"
  have "count_list ((sys_threads s)[t := f # sys_threads s ! t] ! u) (Executing p) \<le> count_list (sys_threads s ! u) (Executing p)"
    if "u < length (sys_threads s)" for u using that f by (cases "u = t") auto
  then show ?thesis by (simp add: drained_def inside_def push_def)
qed

lemma drained_pop: "drained p s (s \<lparr> sys_mm := mm', sys_threads := pop t (sys_threads s) \<rparr>)"
proof -
  have "count_list (tl st) x \<le> count_list st x" for st :: "frame list" and x by (cases st) auto
  then have "count_list ((sys_threads s)[t := tl (sys_threads s ! t)] ! u) (Executing p) \<le> count_list (sys_threads s ! u) (Executing p)"
    if "u < length (sys_threads s)" for u using that by (cases "u = t") auto
  then show ?thesis by (simp add: drained_def inside_def pop_def)
qed

lemma leaving_kept:
  assumes "leaving p s" "mm_heap mm' p = mm_heap (sys_mm s) p" "registered mm' p"
    and "0 < executing p (sys_threads s')" "sys_mm s' = mm'"
  shows "leaving p s'"
  using assms by (auto simp: leaving_def)

lemma next_unused: "mm_inv mm ts \<Longrightarrow> registered mm p \<Longrightarrow> p \<noteq> mm_next mm"
  by (auto simp: mm_inv_def mm_wf_def registered_def)

lemma AddFunction_other:
  assumes "mm_inv mm ts" "registered mm p" "AddFunction f name hlp mm = (e, mm')"
  shows "mm_heap mm' p = mm_heap mm p" "registered mm' p"
proof -
  have p: "p \<noteq> mm_next mm" by (rule next_unused [OF assms(1,2)])
  then show "mm_heap mm' p = mm_heap mm p" using assms(3)
    by (auto simp: AddFunction_def new_method_def split: if_splits)
  show "registered mm' p" using assms(2,3) p
    by (auto simp: AddFunction_def new_method_def registered_def mm_find_None set_map_insert split: if_splits)
qed

lemma AddMethod_other:
  assumes "registered mm p" "\<not> registered mm q" "AddMethod q mm = (e, mm')"
  shows "mm_heap mm' p = mm_heap mm p" "registered mm' p"
proof -
  have "p \<noteq> q" using assms(1,2) by auto
  with assms(1,3) show "mm_heap mm' p = mm_heap mm p" "registered mm' p"
    by (auto simp: AddMethod_def registered_def mm_find_None set_map_insert split: if_splits sum.splits)
qed

lemma RemoveMethod_other:
  assumes "mm_inv mm ts" "registered mm p" "mm_heap mm p = Some m" "m_delayedRemove m" "0 < executing p ts"
    and "RemoveMethod name mm = (r, mm')"
  shows "registered mm' p \<and> (\<exists>m'. mm_heap mm' p = Some m' \<and> m_delayedRemove m')"
proof (cases "mm_find name mm")
  case (Some q)
  have wf: "mm_wf mm" using assms(1) by (simp add: mm_inv_def)
  obtain x where x: "mm_heap mm q = Some x" "m_name x = name" using mm_find_method [OF wf Some] by blast
  have a: "m_activeThreads x = int (executing q ts)" using assms(1) x by (simp add: mm_inv_def)
  show ?thesis
  proof (cases "0 < m_activeThreads x")
    case True
    with Some x assms(2-4,6) show ?thesis by (auto simp: RemoveMethod_def registered_def)
  next
    case False
    with a assms(5) have "p \<noteq> q" by auto
    moreover from this have "registered (mm_erase name mm) p"
    proof -
      from assms(2) wf obtain n where n: "(n, p) \<in> set (mm_methods mm)" by (auto simp: registered_def)
      with \<open>p \<noteq> q\<close> Some have "n \<noteq> name" using mm_find_Some [OF wf, of n p] by auto
      with n show ?thesis by (force simp: registered_def set_map_erase)
    qed
    ultimately show ?thesis using False Some x assms(3,4,6) by (auto simp: RemoveMethod_def registered_def)
  qed
qed (use assms in \<open>auto simp: RemoveMethod_def\<close>)

lemma leaving_step:
  assumes "sys_step s s'" "mm_inv (sys_mm s) (sys_threads s)" "leaving p s" "registered (sys_mm s') p"
  shows "leaving p s' \<and> drained p s s'"
proof -
  obtain m where m: "mm_heap (sys_mm s) p = Some m" "m_delayedRemove m" and reg: "registered (sys_mm s) p"
    and ex: "0 < executing p (sys_threads s)" using assms(3) by (auto simp: leaving_def)
  from assms(1) show ?thesis
  proof cases
    case (step_AddFunction t f name hlp e mm')
    from AddFunction_other [OF assms(2) reg step_AddFunction(3)] leaving_kept [OF assms(3)] step_AddFunction(1) ex
    show ?thesis by simp
  next
    case (step_new t k name hlp d q mm')
    from next_unused [OF assms(2) reg] reg step_new(1,3) m ex show ?thesis
      by (auto simp: leaving_def registered_def new_method_def)
  next
    case (step_delete t q)
    then have "p \<noteq> q" using reg by auto
    with leaving_kept [OF assms(3), of "delete_method q (sys_mm s)" s'] step_delete(1) reg ex show ?thesis
      by (simp add: registered_def)
  next
    case (step_AddMethod t q e mm')
    from AddMethod_other [OF reg step_AddMethod(4,5)] leaving_kept [OF assms(3)] step_AddMethod(1) ex show ?thesis by simp
  next
    case (step_Remove t name r mm' ts' wait)
    from RemoveMethod_other [OF assms(2) reg m ex step_Remove(3)] step_Remove(1,2,4) ex show ?thesis
      by (auto simp: leaving_def ready_def drained_push)
  next
    case (step_wake t name st)
    from executing_pop [OF step_wake(2,3), of p] step_wake(1) assms(3) drained_pop [of p s t "sys_mm s"]
    show ?thesis by (auto simp: leaving_def)
  next
    case (step_begin t name r mm' ts')
    from begin_inv [OF assms(2) step_begin(3)] show ?thesis
    proof (elim disjE exE conjE)
      assume "r = Inr None" "mm' = sys_mm s"
      with step_begin(1,4) assms(3) show ?thesis by (simp add: leaving_def drained_def inside_def)
    next
      fix q x assume q: "r = Inr (Some q)" "mm_heap (sys_mm s) q = Some x" "\<not> m_delayedRemove x"
        "mm' = put_method q (AddThread x) (sys_mm s)"
      then have "q \<noteq> p" using m by auto
      with q step_begin(1,2,4) m reg ex drained_push [of "Executing q" p s t mm'] show ?thesis
        by (auto simp: leaving_def ready_def registered_def)
    qed
  next
    case (step_end t q st e mm')
    note f = FollowUp_inv [OF assms(2) step_end(2-4)]
    note d = drained_pop [of p s t mm']
    show ?thesis
    proof (cases "q = p")
      case True
      with f m step_end(1) assms(4) d show ?thesis by (auto simp: leaving_def)
    next
      case False
      have "mm_heap mm' p = Some m" using step_end(4) m(1) False
        by (auto simp: FollowUpOperations_def Let_def split: sum.splits if_splits option.splits)
      with executing_pop [OF step_end(2,3), of p] False step_end(1) m assms(4) ex d show ?thesis
        by (auto simp: leaving_def)
    qed
  qed
qed

definition run_of :: "system list \<Rightarrow> bool" where
  "run_of ss \<longleftrightarrow> ss \<noteq> [] \<and> sys_reach (ss ! 0) \<and> (\<forall>i. Suc i < length ss \<longrightarrow> sys_step (ss ! i) (ss ! Suc i))"

lemma run_reach: "run_of ss \<Longrightarrow> i < length ss \<Longrightarrow> sys_reach (ss ! i)"
  by (induction i) (auto simp: run_of_def intro: reach_step)

lemma run_step:
  assumes "run_of ss" "leaving p (ss ! i)" "registered (sys_mm (ss ! Suc i)) p" "Suc i < length ss"
  shows "leaving p (ss ! Suc i) \<and> drained p (ss ! i) (ss ! Suc i)"
  by (rule leaving_step [OF _ sys_reach_inv [OF run_reach [OF assms(1)]] assms(2,3)])
     (use assms(1,4) in \<open>simp_all add: run_of_def\<close>)

lemma leaving_run:
  assumes "run_of ss" "leaving p (ss ! 0)" "\<forall>i < length ss. registered (sys_mm (ss ! i)) p"
  shows "i < length ss \<Longrightarrow> leaving p (ss ! i)" "i < length ss \<Longrightarrow> j \<le> i \<Longrightarrow> drained p (ss ! j) (ss ! i)"
proof -
  show l: "leaving p (ss ! i)" if "i < length ss" for i
    using that run_step [OF assms(1)] assms(2,3) by (induction i) auto
  show "j \<le> i \<Longrightarrow> drained p (ss ! j) (ss ! i)" if "i < length ss"
    using that
  proof (induction i)
    case (Suc i)
    then have "drained p (ss ! i) (ss ! Suc i)" using run_step [OF assms(1) l, of i] assms(3) by simp
    with Suc show ?case by (cases "j = Suc i") (auto simp: drained_def [of _ x x for x] intro: drained_trans)
  qed (simp add: drained_def)
qed

lemma delayed_removal_done:
  assumes "run_of ss" "leaving p (ss ! 0)"
    and "\<forall>t < length (sys_threads (ss ! 0)). \<exists>i < length ss. inside p (ss ! i) t = 0"
  shows "\<exists>i < length ss. \<not> registered (sys_mm (ss ! i)) p"
proof (rule ccontr)
  assume "\<not> ?thesis"
  then have reg: "\<forall>i < length ss. registered (sys_mm (ss ! i)) p" by blast
  note run = leaving_run [OF assms(1,2) reg]
  let ?n = "length ss - 1" and ?N = "length (sys_threads (ss ! 0))"
  have n: "?n < length ss" using assms(1) by (simp add: run_of_def)
  have len: "length (sys_threads (ss ! i)) = ?N" if "i < length ss" for i
    using run(2) [OF that, of 0] by (simp add: drained_def)
  have "inside p (ss ! ?n) t = 0" if t: "t < ?N" for t
  proof -
    from assms(3) t obtain i where i: "i < length ss" "inside p (ss ! i) t = 0" by blast
    then have "i \<le> ?n" by simp
    from run(2) [OF n this] have "inside p (ss ! ?n) t \<le> inside p (ss ! i) t" using len [OF i(1)] t by (simp add: drained_def)
    with i(2) show ?thesis by simp
  qed
  then have "executing p (sys_threads (ss ! ?n)) = 0"
    using len [OF n] by (auto simp: executing_def inside_def in_set_conv_nth)
  moreover have "0 < executing p (sys_threads (ss ! ?n))" using run(1) [OF n] by (simp add: leaving_def)
  ultimately show False by simp
qed

text \<open>
  The flag of a delayed removal is never reset: an object the manager does not own, registered again
  after such a removal, is registered but never executed.
\<close>

lemma readded_method_unusable:
  assumes "mm_heap mm p = Some m" "m_delayedRemove m" "mm_find (m_name m) mm = None"
  shows "\<exists>mm'. AddMethod p mm = (None, mm') \<and> mm_find (m_name m) mm' = Some p
    \<and> ExecuteMethod_begin (m_name m) mm' = (Inr None, mm')"
proof -
  have "mm_find (m_name m) (mm_bind (m_name m) p mm) = Some p" by (simp add: mm_find_def map_of_insert)
  then show ?thesis using assms by (auto simp: AddMethod_def ExecuteMethod_begin_def)
qed

section \<open>The list of methods\<close>

lemma string_less_irrefl: "\<not> string_less xs xs"
  by (induction xs) auto

lemma string_less_trans: "string_less xs ys \<Longrightarrow> string_less ys zs \<Longrightarrow> string_less xs zs"
proof (induction xs ys arbitrary: zs rule: string_less.induct)
  case (2 y ys)
  then show ?case by (cases zs) auto
next
  case (3 x xs y ys)
  then show ?case by (cases zs) auto
qed simp

lemma string_less_total: "xs \<noteq> ys \<Longrightarrow> string_less xs ys \<or> string_less ys xs"
  by (induction xs ys rule: string_less.induct) (auto simp: neq_iff split: list.splits, (case_tac xs; simp)+)

definition mm_sorted :: "manager \<Rightarrow> bool" where
  "mm_sorted mm \<longleftrightarrow> sorted_wrt string_less (map fst (mm_methods mm))"

lemma sorted_map_insert:
  "sorted_wrt string_less (map fst ms) \<Longrightarrow> sorted_wrt string_less (map fst (map_insert name p ms))"
proof (induction name p ms rule: map_insert.induct)
  case (2 name p n q ms)
  then show ?case using string_less_total [of name n] by (auto simp: fst_map_insert intro: string_less_trans)
qed simp

lemma sorted_map_erase: "sorted_wrt string_less (map fst ms) \<Longrightarrow> sorted_wrt string_less (map fst (map_erase name ms))"
  by (induction ms) (auto simp: map_erase_def)

lemma sorted_bind_erase [simp]:
  "mm_sorted mm \<Longrightarrow> mm_sorted (mm_bind name p mm)" "mm_sorted mm \<Longrightarrow> mm_sorted (mm_erase name mm)"
  "mm_sorted (delete_method p mm) = mm_sorted mm" "mm_sorted (put_method p m mm) = mm_sorted mm"
  by (simp_all add: mm_sorted_def sorted_map_insert sorted_map_erase)

lemma sorted_new: "new_method m mm = (p, mm') \<Longrightarrow> mm_sorted mm' = mm_sorted mm"
  by (auto simp: new_method_def mm_sorted_def)

lemma sys_step_sorted:
  assumes "sys_step s s'" "mm_sorted (sys_mm s)"
  shows "mm_sorted (sys_mm s')"
  using assms(1)
proof cases
  case (step_AddFunction t f name hlp e mm')
  obtain p mm1 where n: "new_method (Method_new (MethodFunction f) name hlp True) (sys_mm s) = (p, mm1)" by fastforce
  with step_AddFunction sorted_new [OF n] assms(2) show ?thesis by (auto simp: AddFunction_def split: if_splits)
next
  case (step_new t k name hlp d p mm')
  with assms(2) sorted_new [OF step_new(3)] show ?thesis by simp
next
  case (step_Remove t name r mm' ts' wait)
  with assms(2) show ?thesis by (auto simp: RemoveMethod_def split: option.splits sum.splits if_splits)
next
  case (step_AddMethod t p e mm')
  with assms(2) show ?thesis by (auto simp: AddMethod_def split: sum.splits if_splits)
next
  case (step_begin t name r mm' ts')
  with assms(2) show ?thesis by (auto simp: ExecuteMethod_begin_def split: option.splits sum.splits if_splits)
next
  case (step_end t p st e mm')
  with assms(2) show ?thesis by (auto simp: FollowUpOperations_def Let_def split: option.splits sum.splits if_splits)
qed (use assms(2) in simp_all)

lemma sys_reach_sorted: "sys_reach s \<Longrightarrow> mm_sorted (sys_mm s)"
proof (induction rule: sys_reach.induct)
  case (reach_start n)
  have "mm_methods MethodManager_new = [(LIST_METHODS, 0), (METHOD_HELP, 1)]" by code_simp
  moreover have "string_less LIST_METHODS METHOD_HELP" by code_simp
  ultimately show ?case by (simp add: mm_sorted_def)
qed (blast intro: sys_step_sorted)

lemma set_element_array:
  "i < length xs \<Longrightarrow> set_element i x (ArrValue ArrayType c xs) = Inr (ArrValue ArrayType c (xs[i := x]))"
  by (simp add: set_element_def index_at_def)

lemma list_names_array:
  "i + length ms = length xs \<Longrightarrow> list_names i ms (ArrValue ArrayType c xs)
    = Inr (ArrValue ArrayType c (take i xs @ map (Value_string \<circ> fst) ms))"
proof (induction ms arbitrary: i xs)
  case (Cons m ms)
  then have "i < length xs" by simp
  with Cons show ?case by (cases m) (simp add: set_element_array take_Suc_conv_app_nth)
qed simp

lemma ListMethods_names:
  assumes "length (mm_methods mm) < MaxArrayCapacity"
  shows "\<exists>v. ListMethods mm params result = Inr v \<and> value_ok v \<and> abs_value v = AArr (map (AStr \<circ> fst) (mm_methods mm))"
proof -
  let ?n = "length (mm_methods mm)"
  have "SetSize ?n (SetArray result) = Inr (ArrValue ArrayType ?n (replicate ?n (PlainValue 0)))"
    using assms by (simp add: SetSize_def SetArray_def)
  moreover have "list_names 0 (mm_methods mm) (ArrValue ArrayType ?n (replicate ?n (PlainValue 0)))
      = Inr (ArrValue ArrayType ?n (map (Value_string \<circ> fst) (mm_methods mm)))"
    using list_names_array [of 0 "mm_methods mm" "replicate ?n (PlainValue 0)" ?n] by simp
  ultimately have l: "ListMethods mm params result = Inr (ArrValue ArrayType ?n (map (Value_string \<circ> fst) (mm_methods mm)))"
    unfolding ListMethods_def with_message_def by (simp only: then_r.simps sum.case)
  have "value_ok (ArrValue ArrayType ?n (map (Value_string \<circ> fst) (mm_methods mm)))"
    using assms CopyString_spec by (auto simp: Value_string_def)
  moreover have "abs_value (ArrValue ArrayType ?n (map (Value_string \<circ> fst) (mm_methods mm))) = AArr (map (AStr \<circ> fst) (mm_methods mm))"
    using CopyString_spec by (simp add: Value_string_def)
  ultimately show ?thesis using l by blast
qed

section \<open>One execution\<close>

text \<open>
  What the application's code may do to the manager while it runs: it leaves a state in which the
  executions in progress are those there were before.
\<close>

definition calls_ok :: "'w calls \<Rightarrow> bool" where
  "calls_ok call \<longleftrightarrow> (\<forall>f params result mm w ts. mm_inv mm ts \<longrightarrow> mm_inv (fst (snd (call f params result mm w))) ts)"

lemma Method_Execute_inv:
  assumes "calls_ok call" "mm_inv mm ts" "Method_Execute call m params result mm w = (out, mm', w')"
  shows "mm_inv mm' ts"
proof -
  have "mm_inv (fst (snd (call f params result mm w))) ts" for f using assms(1,2) by (auto simp: calls_ok_def)
  with assms(2,3) show ?thesis
    by (auto simp: Method_Execute_def split: method_class.splits option.splits) (metis fst_conv snd_conv)+
qed

lemma ExecuteMethod_cases:
  assumes "calls_ok call" "mm_inv mm ts" "ts \<noteq> []" "ExecuteMethod call name params result mm w = (out, mm', w')"
  shows "mm_inv mm' ts"
    and "(case mm_find name mm of None \<Rightarrow> True | Some p \<Rightarrow> \<exists>m. mm_heap mm p = Some m \<and> m_delayedRemove m) \<Longrightarrow>
       out = Inr (False, result) \<and> mm' = mm \<and> w' = w"
    and "mm_find name mm = Some p \<Longrightarrow> mm_heap mm p = Some m \<Longrightarrow> \<not> m_delayedRemove m \<Longrightarrow>
       \<exists>r mm2. Method_Execute call (AddThread m) params result (put_method p (AddThread m) mm) w = (r, mm2, w')
         \<and> out = map_sum id (Pair True) r"
proof -
  have t: "0 < length ts" using assms(3) by simp
  obtain b mm1 where b: "ExecuteMethod_begin name mm = (b, mm1)" by fastforce
  have run: "mm_inv mm' ts \<and> (\<exists>r mm2. Method_Execute call (AddThread m) params result (put_method p (AddThread m) mm) w = (r, mm2, w')
         \<and> out = map_sum id (Pair True) r)"
    if p: "b = Inr (Some p)" "mm_heap mm p = Some m" "mm1 = put_method p (AddThread m) mm" "mm_inv mm1 (push 0 (Executing p) ts)" for p m
  proof -
    obtain r mm2 w2 where e: "Method_Execute call (AddThread m) params result mm1 w = (r, mm2, w2)" by (cases "Method_Execute call (AddThread m) params result mm1 w")
    obtain th mm3 where f: "FollowUpOperations p mm2 = (th, mm3)" by fastforce
    have i: "mm_inv mm2 (push 0 (Executing p) ts)" by (rule Method_Execute_inv [OF assms(1) p(4) e])
    have "push 0 (Executing p) ts ! 0 = Executing p # ts ! 0" "pop 0 (push 0 (Executing p) ts) = ts"
      using t by (simp_all add: push_def pop_def)
    with FollowUp_inv [OF i _ _ f, of 0 "ts ! 0"] t have "th = None" "mm_inv mm3 ts" by (simp_all add: push_def)
    with assms(4) b p(1,3) e f show ?thesis by (simp add: ExecuteMethod_def)
  qed
  note cases = begin_inv [OF assms(2) b]
  show "mm_inv mm' ts" using cases assms(2,4) b t run
    by (elim disjE exE conjE) (simp add: ExecuteMethod_def, blast)
  show "out = Inr (False, result) \<and> mm' = mm \<and> w' = w"
    if "case mm_find name mm of None \<Rightarrow> True | Some p \<Rightarrow> \<exists>m. mm_heap mm p = Some m \<and> m_delayedRemove m"
    using that cases assms(4) b by (auto simp: ExecuteMethod_def)
  show "\<exists>r mm2. Method_Execute call (AddThread m) params result (put_method p (AddThread m) mm) w = (r, mm2, w')
         \<and> out = map_sum id (Pair True) r"
    if p: "mm_find name mm = Some p" "mm_heap mm p = Some m" "\<not> m_delayedRemove m"
  proof -
    have "ExecuteMethod_begin name mm = (Inr (Some p), put_method p (AddThread m) mm)"
      using p by (simp add: ExecuteMethod_begin_def)
    with b cases p t run [of p m] show ?thesis by auto
  qed
qed

text \<open>The results are well-formed values when those of the application are.\<close>

definition calls_values :: "'w calls \<Rightarrow> bool" where
  "calls_values call \<longleftrightarrow> (\<forall>f params result mm w x. value_ok params \<longrightarrow> value_ok result \<longrightarrow>
     fst (call f params result mm w) = Inr x \<longrightarrow> value_ok x)"

lemma ListMethods_value: "ListMethods mm params result = Inr x \<Longrightarrow> value_ok x"
proof (cases "length (mm_methods mm) < MaxArrayCapacity")
  case True
  then show "ListMethods mm params result = Inr x \<Longrightarrow> value_ok x" using ListMethods_names [OF True, of params result] by auto
qed (simp add: ListMethods_def with_message_def SetSize_def SetArray_def)

lemma FindHelpMethod_value: "FindHelpMethod mm params result = Inr x \<Longrightarrow> value_ok x"
  using CopyString_spec
  by (auto simp: FindHelpMethod_def with_message_def Value_string_def split: sum.splits option.splits)

lemma Method_Execute_value:
  assumes "calls_values call" "value_ok params" "value_ok result" "Method_Execute call m params result mm w = (Inr x, mm', w')"
  shows "value_ok x"
proof -
  have "value_ok x" if "call f params result mm w = (Inr x, mm', w')" for f
    using assms(1-3) that unfolding calls_values_def by (metis fst_conv)
  with assms(3,4) show ?thesis
    by (auto simp: Method_Execute_def ListMethods_value FindHelpMethod_value split: method_class.splits option.splits)
qed

lemma ExecuteMethod_value:
  assumes "calls_values call" "value_ok params" "value_ok result"
    and "ExecuteMethod call name params result mm w = (Inr (b, x), mm', w')"
  shows "value_ok x"
  using assms(3,4) Method_Execute_value [OF assms(1-3)]
  by (auto simp: ExecuteMethod_def Let_def split: prod.splits sum.splits option.splits) (metis map_sum.simps old.sum.exhaust Inr_inject Inl_Inr_False prod.inject)+

end
