(* ===== verification/AnyRpc_Build.thy ===== *)
theory AnyRpc_Build
  imports AnyRpc_Document
begin

text \<open>
  Assignments through \<^verbatim>\<open>operator[]\<close>, from which the servers and the clients build their messages:
  \<^verbatim>\<open>v["key"] = ...\<close> and \<^verbatim>\<open>v[i] = ...\<close> on values, with what they do to the members and elements.
\<close>

section \<open>Assignments to members and elements\<close>

text \<open>\<open>assign_member key f v\<close> is \<^verbatim>\<open>v[key]\<close> with an operation f on the value referred to.\<close>

definition at_child :: "Value \<Rightarrow> nat \<Rightarrow> (Value \<Rightarrow> Value result) \<Rightarrow> Value result" where
  "at_child v i f = (case child v i of None \<Rightarrow> Inl UndefinedBehaviour | Some x \<Rightarrow> then_r (f x) (\<lambda>y. Inr (set_child v i y)))"

definition assign_member :: "string \<Rightarrow> (Value \<Rightarrow> Value result) \<Rightarrow> Value \<Rightarrow> Value result" where
  "assign_member key f v = then_r (member_at v (lit key @ [0])) (\<lambda>(v', i). at_child v' i f)"

definition assign_element :: "nat \<Rightarrow> (Value \<Rightarrow> Value result) \<Rightarrow> Value \<Rightarrow> Value result" where
  "assign_element i f v = then_r (index_at v i) (\<lambda>v'. at_child v' i f)"

text \<open>The assignments of \<^verbatim>\<open>Value\<close> that are used: from a literal, a string, an integer, by copy and by move.\<close>

definition put_literal :: "string \<Rightarrow> Value \<Rightarrow> Value result" where "put_literal s v = Inr (SetCString (lit s @ [0]) True v)"
definition put_string :: "bytes \<Rightarrow> Value \<Rightarrow> Value result" where "put_string s v = Inr (Value_string s)"
definition put_int :: "int \<Rightarrow> Value \<Rightarrow> Value result" where "put_int i v = Inr (SetInt (word_of_int i) v)"
definition put_copy :: "Value \<Rightarrow> Value \<Rightarrow> Value result" where "put_copy x v = Copy (Destroy v) x"
definition put_moved :: "Value \<Rightarrow> Value \<Rightarrow> Value result" where "put_moved x v = Inr (fst (Assign v x))"
definition put_null :: "Value \<Rightarrow> Value result" where "put_null v = Inr (SetNull v)"

text \<open>The 32-bit integer as it is read back.\<close>

definition int32 :: "int \<Rightarrow> int" where "int32 i = sint (word_of_int i :: 32 word)"

text \<open>
  What an operation on a value does to the value it stands for: \<open>acts f g\<close>, where g is the operation
  on the abstract values, undefined where nothing is claimed.
\<close>

definition acts :: "(Value \<Rightarrow> Value result) \<Rightarrow> (aval \<Rightarrow> aval option) \<Rightarrow> bool" where
  "acts f g \<longleftrightarrow> (\<forall>v b. value_ok v \<longrightarrow> g (abs_value v) = Some b \<longrightarrow>
     (\<exists>y. f v = Inr y \<and> value_ok y \<and> abs_value y = b))"

lemma actsD: "acts f g \<Longrightarrow> value_ok v \<Longrightarrow> g (abs_value v) = Some b \<Longrightarrow> \<exists>y. f v = Inr y \<and> value_ok y \<and> abs_value y = b"
  by (simp add: acts_def)

lemma c_str_lit: "0 \<notin> set (lit s) \<Longrightarrow> c_str (lit s @ [0]) = lit s"
  unfolding c_str_def by (subst takeWhile_append2) auto

lemma put_literal_acts: "0 \<notin> set (lit s) \<Longrightarrow> acts (put_literal s) (\<lambda>_. Some (AStr (lit s)))"
  using CopyString_spec by (simp add: acts_def put_literal_def SetCString_def Value_cstr_def c_str_lit)

lemma put_string_acts: "acts (put_string s) (\<lambda>_. Some (AStr s))"
  using CopyString_spec by (simp add: acts_def put_string_def Value_string_def)

lemma put_int_acts: "acts (put_int i) (\<lambda>_. Some (AInt (int32 i)))"
proof -
  have "- (2 ^ 31) \<le> sint (word_of_int i :: 32 word)" "sint (word_of_int i :: 32 word) < 2 ^ 31"
    by (rule sint_range32)+
  then show ?thesis using mk_int_spec [of "sint (word_of_int i :: 32 word)"]
    by (simp add: acts_def put_int_def SetInt_def Value_int_canonical int32_def)
qed

lemma put_copy_acts: "value_ok x \<Longrightarrow> acts (put_copy x) (\<lambda>_. Some (cut_keys (abs_value x)))"
  using CopyInternal_spec [of x] by (fastforce simp: acts_def put_copy_def Copy_def copies_to_def)

lemma put_moved_acts: "value_ok x \<Longrightarrow> acts (put_moved x) (\<lambda>_. Some (abs_value x))"
  by (simp add: acts_def put_moved_def Assign_def RawAssign_def)

lemma put_null_acts: "acts put_null (\<lambda>_. Some ANull)"
  by (simp add: acts_def put_null_def SetNull_def flag_values)

section \<open>Members\<close>

text \<open>The members with one of them changed: the first one of the key, or a new one at the end.\<close>

fun put_key :: "bytes \<Rightarrow> (aval \<Rightarrow> aval option) \<Rightarrow> (bytes \<times> aval) list \<Rightarrow> (bytes \<times> aval) list option" where
  "put_key k g [] = map_option (\<lambda>b. [(k, b)]) (g AInvalid)"
| "put_key k g ((k', a) # ms) =
     (if k' = k then map_option (\<lambda>b. (k, b) # ms) (g a) else map_option ((#) (k', a)) (put_key k g ms))"

fun map_put :: "bytes \<Rightarrow> (aval \<Rightarrow> aval option) \<Rightarrow> aval \<Rightarrow> aval option" where
  "map_put k g AInvalid = map_option AMap (put_key k g [])"
| "map_put k g (AMap ms) = (if length ms < MaxMapCapacity then map_option AMap (put_key k g ms) else None)"
| "map_put k g _ = None"

lemma put_key_index:
  "put_key k g (map abs_member ms) = (let i = member_index k ms in
     if i < length ms then map_option (\<lambda>b. (map abs_member ms)[i := (k, b)]) (g (abs_value (snd (ms ! i))))
     else map_option (\<lambda>b. map abs_member ms @ [(k, b)]) (g AInvalid))"
proof (induction ms)
  case (Cons m ms)
  then show ?case
    by (auto simp: member_index_def abs_member_def Let_def option.map_comp comp_def intro!: option.map_cong)
qed (simp add: member_index_def)

lemma abs_AMap: "value_ok v \<Longrightarrow> abs_value v = AMap ms \<Longrightarrow> IsMap v \<and> map abs_member (members_of v) = ms"
  by (cases v) (auto simp: abs_MapValue simp del: abs_value.simps(7) split: if_splits)

lemma abs_AInvalid: "value_ok v \<Longrightarrow> abs_value v = AInvalid \<Longrightarrow> v = PlainValue 0"
  by (cases v) (auto simp: flag_values split: if_splits)

lemma abs_AArr: "value_ok v \<Longrightarrow> abs_value v = AArr xs \<Longrightarrow> IsArray v \<and> map abs_value (elements_of v) = xs"
  by (cases v) (auto split: if_splits)

lemma members_abs: "value_ok v \<Longrightarrow> IsMap v \<Longrightarrow> abs_value v = AMap (map abs_member (members_of v))"
  using value_ok_shapes(1) [of v] by (auto simp: abs_MapValue simp del: abs_value.simps)

lemma set_child_map:
  assumes "value_ok v" "IsMap v" "i < length (members_of v)" "value_ok y"
  shows "value_ok (set_child v i y) \<and> abs_value (set_child v i y) =
    AMap ((map abs_member (members_of v))[i := (str_bytes (fst (members_of v ! i)), abs_value y)])"
proof -
  obtain c ms where v: "v = MapValue MapType c ms" using value_ok_shapes(1) assms by blast
  with assms have "\<forall>m \<in> set (ms[i := (fst (ms ! i), y)]). IsString (fst m) \<and> value_ok (fst m) \<and> value_ok (snd m)"
    by (auto dest!: subsetD [OF set_update_subset_insert])
  with v assms show ?thesis by (simp add: abs_member_def [abs_def] map_update)
qed

lemma assign_member_acts:
  assumes "acts f g" "0 \<notin> set (lit key)"
  shows "acts (assign_member key f) (map_put (lit key) g)"
  unfolding acts_def
proof (intro allI impI)
  fix v b assume v: "value_ok v" "map_put (lit key) g (abs_value v) = Some b"
  let ?k = "lit key" and ?ms = "members_of v"
  have m: "(IsMap v \<or> IsInvalid v) \<and> length ?ms < MaxMapCapacity \<and> map_option AMap (put_key ?k g (map abs_member ?ms)) = Some b"
    using v abs_AMap [OF v(1)] abs_AInvalid [OF v(1)]
    by (cases "abs_value v") (auto simp: MaxMapCapacity_def split: if_splits)
  from member_at_spec [OF v(1), of "lit key @ [0]"] m c_str_lit [OF assms(2)] obtain v' where
    v': "member_at v (lit key @ [0]) = Inr (v', member_index ?k ?ms)" "value_ok v'" "IsMap v'"
      "members_of v' = (if ?k \<in> str_bytes ` fst ` set ?ms then ?ms else ?ms @ [(CopyString ?k, PlainValue 0)])" by auto
  let ?i = "member_index ?k ?ms" and ?ms' = "members_of v'"
  have i: "?i < length ?ms'" "str_bytes (fst (?ms' ! ?i)) = ?k"
    using member_index_found [of ?k ?ms] member_index_le [of ?k ?ms] member_index_key [of ?k ?ms] v'(4) CopyString_spec [of ?k]
    by (auto simp: nth_append)
  let ?x = "snd (?ms' ! ?i)"
  have x: "value_ok ?x" "child v' ?i = Some ?x"
    using v'(2,3) value_ok_shapes(1) [of v'] i(1) by (auto dest: nth_mem)
  have "\<exists>b'. g (abs_value ?x) = Some b' \<and> b = AMap ((map abs_member ?ms')[?i := (?k, b')])"
  proof (cases "?i < length ?ms")
    case True
    with m v'(4) show ?thesis by (auto simp: put_key_index Let_def member_index_found)
  next
    case False
    then have "?i = length ?ms" "?ms' = ?ms @ [(CopyString ?k, PlainValue 0)]"
      using member_index_le [of ?k ?ms] member_index_found [of ?k ?ms] v'(4) by auto
    with m show ?thesis using list_update_length [of "map abs_member ?ms"] by (auto simp: put_key_index Let_def)
  qed
  then obtain b' where b': "g (abs_value ?x) = Some b'" "b = AMap ((map abs_member ?ms')[?i := (?k, b')])" by blast
  obtain y where y: "f ?x = Inr y" "value_ok y" "abs_value y = b'" using actsD [OF assms(1) x(1) b'(1)] by blast
  from set_child_map [OF v'(2,3) i(1) y(2)] i(2) b'(2) y v'(1) x(2)
  show "\<exists>y. assign_member key f v = Inr y \<and> value_ok y \<and> abs_value y = b"
    by (simp add: assign_member_def at_child_def)
qed

section \<open>Elements\<close>

fun array_put :: "nat \<Rightarrow> (aval \<Rightarrow> aval option) \<Rightarrow> aval \<Rightarrow> aval option" where
  "array_put i g (AArr xs) =
     (if i < MaxArrayCapacity - 1 then
        let ys = xs @ replicate (Suc i - length xs) AInvalid in map_option (\<lambda>b. AArr (ys[i := b])) (g (ys ! i))
      else None)"
| "array_put i g AInvalid =
     (if i < MaxArrayCapacity - 1 then
        let ys = replicate (Suc i) AInvalid in map_option (\<lambda>b. AArr (ys[i := b])) (g (ys ! i))
      else None)"
| "array_put i g _ = None"

lemma assign_element_acts:
  assumes "acts f g"
  shows "acts (assign_element i f) (array_put i g)"
  unfolding acts_def
proof (intro allI impI)
  fix v b assume v: "value_ok v" "array_put i g (abs_value v) = Some b"
  let ?xs = "elements_of v"
  let ?ys = "map abs_value ?xs @ replicate (Suc i - length ?xs) AInvalid"
  have m: "(IsArray v \<or> IsInvalid v) \<and> i < MaxArrayCapacity - 1 \<and> map_option (\<lambda>b. AArr (?ys[i := b])) (g (?ys ! i)) = Some b"
    using v abs_AArr [OF v(1)] abs_AInvalid [OF v(1)]
    by (cases "abs_value v") (auto simp: Let_def split: if_splits)
  from index_at_spec [OF v(1), of i] m obtain v' where
    v': "index_at v i = Inr v'" "value_ok v'" "i < length (elements_of v')"
      "elements_of v' = ?xs @ replicate (Suc i - length ?xs) (PlainValue 0)" by blast
  have ys: "?ys = map abs_value (elements_of v')" by (simp add: v'(4))
  obtain c where arr: "v' = ArrValue ArrayType c (elements_of v')"
    using v'(2,3) by (cases v') (auto simp: elements_of_def)
  let ?x = "elements_of v' ! i"
  have x: "value_ok ?x" "child v' i = Some ?x" using v'(2,3) arr by (metis nth_mem value_ok.simps(6), metis child.simps(1))
  from m obtain b' where b': "g (abs_value ?x) = Some b'" "b = AArr (?ys[i := b'])"
    using v'(3) by (auto simp: ys simp del: map_append)
  obtain y where y: "f ?x = Inr y" "value_ok y" "abs_value y = b'" using actsD [OF assms x(1) b'(1)] by blast
  have "value_ok (set_child v' i y) \<and> abs_value (set_child v' i y) = AArr ((map abs_value (elements_of v'))[i := b'])"
    using v'(2,3) y(2,3) by (subst (1 2) arr, subst (asm) (1) arr) (auto simp: map_update dest!: subsetD [OF set_update_subset_insert])
  with b' y v'(1) x(2) show "\<exists>y. assign_element i f v = Inr y \<and> value_ok y \<and> abs_value y = b"
    by (simp add: assign_element_def at_child_def ys)
qed

section \<open>Sequences of assignments\<close>

fun assign_all :: "(Value \<Rightarrow> Value result) list \<Rightarrow> Value \<Rightarrow> Value result" where
  "assign_all [] v = Inr v"
| "assign_all (f # fs) v = then_r (f v) (assign_all fs)"

fun act_all :: "(aval \<Rightarrow> aval option) list \<Rightarrow> aval \<Rightarrow> aval option" where
  "act_all [] a = Some a"
| "act_all (g # gs) a = (case g a of None \<Rightarrow> None | Some b \<Rightarrow> act_all gs b)"

lemma assign_all_acts: "list_all2 acts fs gs \<Longrightarrow> acts (assign_all fs) (act_all gs)"
proof (induction fs gs rule: list_all2_induct)
  case (Cons f fs g gs)
  show ?case unfolding acts_def
  proof (intro allI impI)
    fix v b assume v: "value_ok v" "act_all (g # gs) (abs_value v) = Some b"
    then obtain a where a: "g (abs_value v) = Some a" "act_all gs a = Some b" by (auto split: option.splits)
    from actsD [OF Cons(1) v(1) a(1)] obtain y where y: "f v = Inr y" "value_ok y" "abs_value y = a" by blast
    from actsD [OF Cons(3) y(2)] a(2) y show "\<exists>y. assign_all (f # fs) v = Inr y \<and> value_ok y \<and> abs_value y = b" by simp
  qed
qed (simp add: acts_def)

end
