(* ===== verification/AnyRpc_JsonServer.thy ===== *)
theory AnyRpc_JsonServer
  imports AnyRpc_Build AnyRpc_Method AnyRpc_JsonText
begin

text \<open>
  json/jsonserver.cpp: \<^verbatim>\<open>JsonRpcHandler\<close> parses a request in place, executes the call or the calls in
  it and writes the response. Main results: for a message that is a map, the response is the one
  of the specification \<open>json_reply\<close> on every branch; the text of a request gives the text of the
  response.
\<close>

section \<open>Building responses\<close>

text \<open>\<^verbatim>\<open>response["error"]["code"]\<close> and \<^verbatim>\<open>response["error"]["message"]\<close> are looked up one after the other.\<close>

definition JsonGenerateResponse :: "Value \<Rightarrow> Value \<Rightarrow> Value \<Rightarrow> Value result" where
  "JsonGenerateResponse result ident response =
     (if IsValid ident then
        assign_all [assign_member ''jsonrpc'' (put_literal ''2.0''), assign_member ''id'' (put_copy ident),
          assign_member ''result'' (put_moved result)] response
      else Inr (SetInvalid response))"

definition JsonGenerateFaultResponse :: "int \<Rightarrow> bytes \<Rightarrow> Value \<Rightarrow> Value \<Rightarrow> Value result" where
  "JsonGenerateFaultResponse errorCode errorMsg ident response =
     assign_all ([assign_member ''jsonrpc'' (put_literal ''2.0'')]
       @ (if IsValid ident then [assign_member ''id'' (put_copy ident)] else [])
       @ [assign_member ''error'' (assign_member ''code'' (put_int errorCode)),
          assign_member ''error'' (assign_member ''message'' (put_string errorMsg))]) response"

section \<open>One request\<close>

text \<open>
  A reference obtained from \<^verbatim>\<open>message[key]\<close> points into the memory of the members. A later lookup
  that adds a member may move that memory: it does when the capacity changes. Reading such a
  reference is undefined.
\<close>

definition map_capacity :: "Value \<Rightarrow> nat" where
  "map_capacity v = (case v of MapValue _ c _ \<Rightarrow> c | _ \<Rightarrow> 0)"

definition read_ref :: "Value \<Rightarrow> Value \<Rightarrow> nat \<Rightarrow> Value result" where
  "read_ref taken now i =
     (if map_capacity taken \<noteq> map_capacity now then Inl UndefinedBehaviour
      else (case child now i of None \<Rightarrow> Inl UndefinedBehaviour | Some x \<Rightarrow> Inr x))"

definition json_fields :: "Value \<Rightarrow> (Value \<times> Value \<times> Value \<times> Value) result" where
  "json_fields message =
     then_r (member_at message (lit ''method'' @ [0])) (\<lambda>(m1, i1).
     then_r (member_at m1 (lit ''id'' @ [0])) (\<lambda>(m2, i2).
     then_r (member_at m2 (lit ''jsonrpc'' @ [0])) (\<lambda>(m3, i3).
     then_r (member_at m3 (lit ''params'' @ [0])) (\<lambda>(m4, i4).
       then_r (read_ref m1 m4 i1) (\<lambda>method.
       then_r (read_ref m2 m4 i2) (\<lambda>ident.
       then_r (read_ref m3 m4 i3) (\<lambda>rpc.
       then_r (read_ref m4 m4 i4) (\<lambda>params. Inr (method, ident, rpc, params)))))))))"

text \<open>\<^verbatim>\<open>strcmp(s.GetString(), "2.0") == 0\<close> for a value that is a string.\<close>

definition is_version2 :: "Value \<Rightarrow> bool result" where
  "is_version2 rpc =
     (if IsString rpc then then_r (GetString rpc) (\<lambda>s. Inr (c_str s = lit ''2.0'')) else Inr False)"

text \<open>
  The exception that leaves: one of another class than \<^verbatim>\<open>AnyRpcException\<close> from the method, or one of
  \<^verbatim>\<open>Value\<close> outside of the \<^verbatim>\<open>try\<close>, whose message is not modelled.
\<close>

definition escape :: "'a result \<Rightarrow> exn + 'a" where "escape r = with_message [] r"

definition JsonExecuteSingleRequest ::
    "'w calls \<Rightarrow> Value \<Rightarrow> Value \<Rightarrow> manager \<Rightarrow> 'w \<Rightarrow> (exn + Value) \<times> manager \<times> 'w" where
  "JsonExecuteSingleRequest call message response mm w =
     (case json_fields message of
        Inl e \<Rightarrow> (Inl (fault [] e), mm, w)
      | Inr (method, ident, rpc, params) \<Rightarrow>
          let invalid = (escape (JsonGenerateFaultResponse (-32600) (lit ''Invalid Request'') ident response), mm, w)
          in if IsInvalid method \<or> \<not> IsString method then invalid
             else (case is_version2 rpc of
               Inl e \<Rightarrow> (Inl (fault [] e), mm, w)
             | Inr False \<Rightarrow> invalid
             | Inr True \<Rightarrow>
                 if IsInvalid params then invalid
                 else (case GetString method of
                   Inl e \<Rightarrow> (Inl (fault [] e), mm, w)
                 | Inr name \<Rightarrow>
                     (case ExecuteMethod call (c_str name) params (SetNull Value_new) mm w of
                        (Inl (Fault c msg), mm', w') \<Rightarrow> (escape (JsonGenerateFaultResponse c msg ident response), mm', w')
                      | (Inl Foreign, mm', w') \<Rightarrow> (Inl Foreign, mm', w')
                      | (Inl Undefined, mm', w') \<Rightarrow> (Inl Undefined, mm', w')
                      | (Inr (False, _), mm', w') \<Rightarrow>
                          (escape (JsonGenerateFaultResponse (-32601) (lit ''Method not found'') ident response), mm', w')
                      | (Inr (True, result), mm', w') \<Rightarrow>
                          (if IsValid ident then escape (JsonGenerateResponse result ident response) else Inr response, mm', w')))))"

section \<open>The handler\<close>

text \<open>The calls of a batch, with the index for the next response.\<close>

fun json_batch :: "'w calls \<Rightarrow> Value list \<Rightarrow> nat \<Rightarrow> Value \<Rightarrow> manager \<Rightarrow> 'w \<Rightarrow> (exn + Value) \<times> manager \<times> 'w" where
  "json_batch call [] outIndex response mm w = (Inr response, mm, w)"
| "json_batch call (m # ms) outIndex response mm w =
     (case JsonExecuteSingleRequest call m Value_new mm w of
        (Inl x, mm', w') \<Rightarrow> (Inl x, mm', w')
      | (Inr single, mm', w') \<Rightarrow>
          if IsValid single then
            (case assign_element outIndex (put_moved single) response of
               Inl e \<Rightarrow> (Inl (fault [] e), mm', w')
             | Inr response' \<Rightarrow> json_batch call ms (outIndex + 1) response' mm' w')
          else json_batch call ms outIndex response mm' w')"

definition json_message :: "'w calls \<Rightarrow> Value \<Rightarrow> manager \<Rightarrow> 'w \<Rightarrow> (exn + Value) \<times> manager \<times> 'w" where
  "json_message call message mm w =
     (let invalid = (escape (JsonGenerateFaultResponse (-32600) (lit ''Invalid Request'') (SetNull Value_new) Value_new), mm, w)
      in if IsMap message then JsonExecuteSingleRequest call message Value_new mm w
         else if IsArray message then
           (case array_parts message of
              Inl e \<Rightarrow> (Inl (fault [] e), mm, w)
            | Inr (_, xs) \<Rightarrow> if length xs > 0 then json_batch call xs 0 Value_new mm w else invalid)
         else invalid)"

definition server_settings :: json_settings where
  "server_settings = \<lparr> js_encoding = UTF8, js_pretty = False, js_precision = 0 \<rparr>"

text \<open>
  The request is a buffer of which the first \<open>len\<close> bytes are parsed in place. The result is whether
  there is a response, and the response stream with what was written to it. \<open>OutOfFuel\<close> in the
  writing is a put that does not return.
\<close>

definition write_response :: "put list \<Rightarrow> wss \<Rightarrow> exn + bool \<times> wss" where
  "write_response ps os = (case run_puts wss_put_char wss_put (\<lambda>s. s) ps os of None \<Rightarrow> Inl Undefined | Some os' \<Rightarrow> Inr (True, os'))"

definition JsonRpcHandler ::
    "'w calls \<Rightarrow> (tm \<Rightarrow> u64) \<Rightarrow> (u64 \<Rightarrow> tm) \<Rightarrow> bytes \<Rightarrow> nat \<Rightarrow> wss \<Rightarrow> manager \<Rightarrow> 'w \<Rightarrow>
      (exn + bool \<times> wss) \<times> manager \<times> 'w" where
  "JsonRpcHandler call mktime localtime request len response mm w =
     (case JsonReader_ParseStream (doc_step mktime) (jr_new (InSituStream (iss_new request len True False))) doc_new of
        Inl e \<Rightarrow> (Inl (fault [] e), mm, w)
      | Inr (doc, parseError) \<Rightarrow>
          (case (case parseError of
                   Some _ \<Rightarrow> (escape (JsonGenerateFaultResponse (-32700) (lit ''Parse error'') (SetNull Value_new) Value_new), mm, w)
                 | None \<Rightarrow> json_message call (doc_value doc) mm w) of
             (Inl x, mm', w') \<Rightarrow> (Inl x, mm', w')
           | (Inr valueResponse, mm', w') \<Rightarrow>
               (if IsInvalid valueResponse then Inr (False, response)
                else (case feed (jw_step server_settings localtime) (Traverse valueResponse) jw_new of
                        Inl e \<Rightarrow> Inl (fault [] e)
                      | Inr (jw, _) \<Rightarrow> write_response (jw_out jw) response), mm', w')))"

section \<open>The specification\<close>

definition field :: "bytes \<Rightarrow> (bytes \<times> aval) list \<Rightarrow> aval" where
  "field k ms = (case map_of ms k of None \<Rightarrow> AInvalid | Some a \<Rightarrow> a)"

text \<open>The method a message asks for, when it is a request of version 2.0.\<close>

definition json_request :: "(bytes \<times> aval) list \<Rightarrow> bytes option" where
  "json_request ms =
     (case (field (lit ''method'') ms, field (lit ''jsonrpc'') ms) of
        (AStr name, AStr version) \<Rightarrow>
          if c_str version = lit ''2.0'' \<and> field (lit ''params'') ms \<noteq> AInvalid then Some (c_str name) else None
      | _ \<Rightarrow> None)"

definition json_fault :: "aval \<Rightarrow> int \<Rightarrow> bytes \<Rightarrow> aval" where
  "json_fault i c msg = AMap ([(lit ''jsonrpc'', AStr (lit ''2.0''))]
     @ (if i = AInvalid then [] else [(lit ''id'', cut_keys i)])
     @ [(lit ''error'', AMap [(lit ''code'', AInt (int32 c)), (lit ''message'', AStr msg)])])"

definition json_answer :: "aval \<Rightarrow> aval \<Rightarrow> aval" where
  "json_answer i r = AMap [(lit ''jsonrpc'', AStr (lit ''2.0'')), (lit ''id'', cut_keys i), (lit ''result'', r)]"

text \<open>The reply to a call with identifier i (invalid: a notification), from what the execution did.\<close>

fun json_reply :: "aval \<Rightarrow> exn + bool \<times> aval \<Rightarrow> exn + aval" where
  "json_reply i (Inl (Fault c msg)) = Inr (json_fault i c msg)"
| "json_reply i (Inl x) = Inl x"
| "json_reply i (Inr (False, _)) = Inr (json_fault i (-32601) (lit ''Method not found''))"
| "json_reply i (Inr (True, r)) = Inr (if i = AInvalid then AInvalid else json_answer i r)"

section \<open>Responses\<close>

lemma IsValid_abs: "value_ok v \<Longrightarrow> IsValid v \<longleftrightarrow> abs_value v \<noteq> AInvalid"
  using abs_AInvalid [of v] by (cases v) (auto simp: IsValid_def flag_values)

lemma valid_invalid: "IsValid v \<longleftrightarrow> \<not> IsInvalid v"
  by (simp add: IsValid_def IsInvalid_def)

lemma MaxMapCapacity_pos [simp]: "n < 100 \<Longrightarrow> n < MaxMapCapacity"
  by (simp add: MaxMapCapacity_def)

lemmas member_acts = assign_member_acts put_literal_acts put_string_acts put_int_acts put_copy_acts put_moved_acts put_null_acts

lemma JsonGenerateFaultResponse_spec:
  assumes "value_ok ident"
  shows "\<exists>r. JsonGenerateFaultResponse c msg ident (PlainValue 0) = Inr r \<and> value_ok r
    \<and> abs_value r = json_fault (abs_value ident) c msg"
proof -
  let ?gs = "[map_put (lit ''jsonrpc'') (\<lambda>_. Some (AStr (lit ''2.0'')))]
    @ (if IsValid ident then [map_put (lit ''id'') (\<lambda>_. Some (cut_keys (abs_value ident)))] else [])
    @ [map_put (lit ''error'') (map_put (lit ''code'') (\<lambda>_. Some (AInt (int32 c)))),
       map_put (lit ''error'') (map_put (lit ''message'') (\<lambda>_. Some (AStr msg)))]"
  let ?f = "assign_all ([assign_member ''jsonrpc'' (put_literal ''2.0'')]
       @ (if IsValid ident then [assign_member ''id'' (put_copy ident)] else [])
       @ [assign_member ''error'' (assign_member ''code'' (put_int c)),
          assign_member ''error'' (assign_member ''message'' (put_string msg))])"
  have "acts ?f (act_all ?gs)"
    by (rule assign_all_acts, cases "IsValid ident"; simp del: lit_simps; intro conjI member_acts assms; simp)
  moreover have "act_all ?gs (abs_value (PlainValue 0)) = Some (json_fault (abs_value ident) c msg)"
    using IsValid_abs [OF assms] by (simp add: json_fault_def flag_values)
  ultimately show ?thesis using actsD [of ?f "act_all ?gs" "PlainValue 0"] unfolding JsonGenerateFaultResponse_def by simp
qed

lemma JsonGenerateResponse_spec:
  assumes "value_ok ident" "value_ok result" "abs_value ident \<noteq> AInvalid"
  shows "\<exists>r. JsonGenerateResponse result ident (PlainValue 0) = Inr r \<and> value_ok r
    \<and> abs_value r = json_answer (abs_value ident) (abs_value result)"
proof -
  let ?gs = "[map_put (lit ''jsonrpc'') (\<lambda>_. Some (AStr (lit ''2.0''))),
    map_put (lit ''id'') (\<lambda>_. Some (cut_keys (abs_value ident))), map_put (lit ''result'') (\<lambda>_. Some (abs_value result))]"
  let ?f = "assign_all [assign_member ''jsonrpc'' (put_literal ''2.0''), assign_member ''id'' (put_copy ident),
          assign_member ''result'' (put_moved result)]"
  have "acts ?f (act_all ?gs)"
    by (rule assign_all_acts, simp del: lit_simps, intro conjI member_acts assms; simp)
  moreover have "act_all ?gs (abs_value (PlainValue 0)) = Some (json_answer (abs_value ident) (abs_value result))"
    by (simp add: json_answer_def flag_values)
  ultimately show ?thesis using actsD [of ?f "act_all ?gs" "PlainValue 0"] assms IsValid_abs [OF assms(1)]
    unfolding JsonGenerateResponse_def by simp
qed

section \<open>The fields of a message\<close>

text \<open>How many of the keys are missing.\<close>

definition missing :: "bytes list \<Rightarrow> (Value \<times> Value) list \<Rightarrow> nat" where
  "missing ks ms = length (filter (\<lambda>k. k \<notin> str_bytes ` fst ` set ms) ks)"

lemma field_index:
  "field k (map abs_member ms) = (if member_index k ms < length ms then abs_value (snd (ms ! member_index k ms)) else AInvalid)"
  by (induction ms) (auto simp: field_def member_index_def abs_member_def)

lemma field_append_invalid:
  "field k (map abs_member (ms @ [(x, PlainValue 0)])) = field k (map abs_member ms)"
  by (induction ms) (auto simp: field_def abs_member_def flag_values)

lemma member_found:
  assumes "value_ok (MapValue MapType c ms)" "0 \<notin> set (lit k)" "lit k \<in> str_bytes ` fst ` set ms"
  shows "member_at (MapValue MapType c ms) (lit k @ [0]) = Inr (MapValue MapType c ms, member_index (lit k) ms)"
proof -
  have i: "member_index (lit k) ms < length ms" using assms(3) by (simp add: member_index_found)
  moreover from this have c: "c \<noteq> 0" using assms(1) by auto
  ultimately show ?thesis
    using FindMember_map [OF assms(1), of "lit k @ [0]"]
    by (simp add: member_at_def MemberEnd_def member_ptr_def c_str_lit [OF assms(2)])
qed

text \<open>A lookup on a map with room for a new member does not move the members.\<close>

lemma member_lookup:
  assumes "value_ok (MapValue MapType c ms)" "0 \<notin> set (lit k)" "missing (lit k # ks) ms + length ms \<le> c"
  shows "\<exists>ms' i. member_at (MapValue MapType c ms) (lit k @ [0]) = Inr (MapValue MapType c ms', i)
    \<and> value_ok (MapValue MapType c ms') \<and> i < length ms' \<and> (\<exists>xs. ms' = ms @ xs)
    \<and> abs_value (snd (ms' ! i)) = field (lit k) (map abs_member ms)
    \<and> (\<forall>k'. field k' (map abs_member ms') = field k' (map abs_member ms)) \<and> missing ks ms' + length ms' \<le> c"
proof (cases "lit k \<in> str_bytes ` fst ` set ms")
  case True
  then have i: "member_index (lit k) ms < length ms" by (simp add: member_index_found)
  with member_found [OF assms(1,2) True] assms True show ?thesis by (auto simp: field_index missing_def intro!: exI [of _ ms])
next
  case False
  let ?ms = "ms @ [(CopyString (lit k), PlainValue 0)]"
  from False assms(3) have len: "length ms < c" by (simp add: missing_def)
  have n: "member_index (lit k) ms = length ms" using False member_index_found [of "lit k" ms] member_index_le [of "lit k" ms] by simp
  have "AddMember_cstr (MapValue MapType c ms) (lit k @ [0]) True = Inr (MapValue MapType c ?ms)"
    using len by (simp add: AddMember_cstr_def AddMember_key_def AddMemberCheckCapacity_def c_str_lit [OF assms(2)]
        SetString_def Value_str_def SetInvalid_def Destroy_def)
  then have at: "member_at (MapValue MapType c ms) (lit k @ [0]) = Inr (MapValue MapType c ?ms, length ms)"
    using FindMember_map [OF assms(1), of "lit k @ [0]"] len n
    by (simp add: member_at_def MemberEnd_def member_ptr_def c_str_lit [OF assms(2)] MemberCount_def)
  have "missing ks ?ms \<le> missing ks ms" unfolding missing_def by (induction ks) auto
  with assms(3) False have "missing ks ?ms + length ?ms \<le> c" by (simp add: missing_def)
  moreover have "value_ok (MapValue MapType c ?ms)" "abs_value (snd (?ms ! length ms)) = field (lit k) (map abs_member ms)"
    using assms(1) len CopyString_spec [of "lit k"] n by (simp_all add: field_index flag_values)
  ultimately show ?thesis using at field_append_invalid
    by (rule_tac exI [of _ ?ms], rule_tac exI [of _ "length ms"]) (simp del: map_append)
qed

lemma read_ref_prefix:
  "i < length ms \<Longrightarrow> read_ref (MapValue MapType c ms) (MapValue MapType c (ms @ xs)) i = Inr (snd (ms ! i))"
  by (simp add: read_ref_def map_capacity_def nth_append)

definition json_keys :: "bytes list" where
  "json_keys = [lit ''method'', lit ''id'', lit ''jsonrpc'', lit ''params'']"

lemma json_fields_spec:
  assumes "value_ok (MapValue MapType c ms)" "missing json_keys ms + length ms \<le> c"
  shows "\<exists>m i r p. json_fields (MapValue MapType c ms) = Inr (m, i, r, p)
    \<and> value_ok m \<and> value_ok i \<and> value_ok r \<and> value_ok p
    \<and> abs_value m = field (lit ''method'') (map abs_member ms) \<and> abs_value i = field (lit ''id'') (map abs_member ms)
    \<and> abs_value r = field (lit ''jsonrpc'') (map abs_member ms) \<and> abs_value p = field (lit ''params'') (map abs_member ms)"
proof -
  have z: "0 \<notin> set (lit ''method'')" "0 \<notin> set (lit ''id'')" "0 \<notin> set (lit ''jsonrpc'')" "0 \<notin> set (lit ''params'')" by simp_all
  obtain m1 i1 x1 where 1: "member_at (MapValue MapType c ms) (lit ''method'' @ [0]) = Inr (MapValue MapType c m1, i1)"
    "value_ok (MapValue MapType c m1)" "i1 < length m1" "m1 = ms @ x1" "abs_value (snd (m1 ! i1)) = field (lit ''method'') (map abs_member ms)"
    "\<forall>k'. field k' (map abs_member m1) = field k' (map abs_member ms)" "missing [lit ''id'', lit ''jsonrpc'', lit ''params''] m1 + length m1 \<le> c"
    using member_lookup [OF assms(1) z(1) assms(2) [unfolded json_keys_def]] by (elim exE conjE) (rule that)
  obtain m2 i2 x2 where 2: "member_at (MapValue MapType c m1) (lit ''id'' @ [0]) = Inr (MapValue MapType c m2, i2)"
    "value_ok (MapValue MapType c m2)" "i2 < length m2" "m2 = m1 @ x2" "abs_value (snd (m2 ! i2)) = field (lit ''id'') (map abs_member m1)"
    "\<forall>k'. field k' (map abs_member m2) = field k' (map abs_member m1)" "missing [lit ''jsonrpc'', lit ''params''] m2 + length m2 \<le> c"
    using member_lookup [OF 1(2) z(2) 1(7)] by (elim exE conjE) (rule that)
  obtain m3 i3 x3 where 3: "member_at (MapValue MapType c m2) (lit ''jsonrpc'' @ [0]) = Inr (MapValue MapType c m3, i3)"
    "value_ok (MapValue MapType c m3)" "i3 < length m3" "m3 = m2 @ x3" "abs_value (snd (m3 ! i3)) = field (lit ''jsonrpc'') (map abs_member m2)"
    "\<forall>k'. field k' (map abs_member m3) = field k' (map abs_member m2)" "missing [lit ''params''] m3 + length m3 \<le> c"
    using member_lookup [OF 2(2) z(3) 2(7)] by (elim exE conjE) (rule that)
  obtain m4 i4 x4 where 4: "member_at (MapValue MapType c m3) (lit ''params'' @ [0]) = Inr (MapValue MapType c m4, i4)"
    "value_ok (MapValue MapType c m4)" "i4 < length m4" "m4 = m3 @ x4" "abs_value (snd (m4 ! i4)) = field (lit ''params'') (map abs_member m3)"
    using member_lookup [OF 3(2) z(4) 3(7)] by (elim exE conjE) (rule that)
  have "read_ref (MapValue MapType c m1) (MapValue MapType c m4) i1 = Inr (snd (m1 ! i1))"
    "read_ref (MapValue MapType c m2) (MapValue MapType c m4) i2 = Inr (snd (m2 ! i2))"
    "read_ref (MapValue MapType c m3) (MapValue MapType c m4) i3 = Inr (snd (m3 ! i3))"
    "read_ref (MapValue MapType c m4) (MapValue MapType c m4) i4 = Inr (snd (m4 ! i4))"
    using read_ref_prefix [OF 1(3), of c "x2 @ x3 @ x4"] read_ref_prefix [OF 2(3), of c "x3 @ x4"]
      read_ref_prefix [OF 3(3), of c x4] read_ref_prefix [OF 4(3), of c "[]"] 2(4) 3(4) 4(4) by simp_all
  then have "json_fields (MapValue MapType c ms) = Inr (snd (m1 ! i1), snd (m2 ! i2), snd (m3 ! i3), snd (m4 ! i4))"
    unfolding json_fields_def by (simp only: 1(1) 2(1) 3(1) 4(1) then_r.simps prod.case)
  moreover have "value_ok (snd (m1 ! i1))" "value_ok (snd (m2 ! i2))" "value_ok (snd (m3 ! i3))" "value_ok (snd (m4 ! i4))"
    using 1(2,3) 2(2,3) 3(2,3) 4(2,3) by (auto dest: nth_mem)
  ultimately show ?thesis using 1(5,6) 2(5,6) 3(5,6) 4(5) by (intro exI conjI) simp_all
qed

section \<open>One request refines the specification\<close>

lemma is_string_abs: "value_ok v \<Longrightarrow> IsString v \<longleftrightarrow> (\<exists>s. abs_value v = AStr s)"
proof
  assume "value_ok v" "IsString v"
  then show "\<exists>s. abs_value v = AStr s" using value_ok_bytes(1) [of v] by blast
next
  assume "\<exists>s. abs_value v = AStr s"
  then show "IsString v" by (cases v) (auto simp: IsString_def has_flag_def split: if_splits)
qed

lemma GetString_abs: "value_ok v \<Longrightarrow> abs_value v = AStr s \<Longrightarrow> GetString v = Inr s"
  using is_string_abs [of v] value_ok_bytes(1) [of v] by auto

lemma single_refines:
  assumes "value_ok (MapValue MapType c ms)" "missing json_keys ms + length ms \<le> c" "calls_values call"
    and "as = map abs_member ms"
  shows "case json_request as of
     None \<Rightarrow> \<exists>r. JsonExecuteSingleRequest call (MapValue MapType c ms) Value_new mm w = (Inr r, mm, w) \<and> value_ok r
       \<and> abs_value r = json_fault (field (lit ''id'') as) (-32600) (lit ''Invalid Request'')
   | Some name \<Rightarrow> \<exists>params out reply mm' w'. value_ok params \<and> abs_value params = field (lit ''params'') as
       \<and> ExecuteMethod call name params (SetNull Value_new) mm w = (out, mm', w')
       \<and> JsonExecuteSingleRequest call (MapValue MapType c ms) Value_new mm w = (reply, mm', w')
       \<and> map_sum id abs_value reply = json_reply (field (lit ''id'') as) (map_sum id (apsnd abs_value) out)
       \<and> (\<forall>r. reply = Inr r \<longrightarrow> value_ok r)"
proof -
  obtain m i r p where f: "json_fields (MapValue MapType c ms) = Inr (m, i, r, p)"
    "value_ok m" "value_ok i" "value_ok r" "value_ok p" "abs_value m = field (lit ''method'') as"
    "abs_value i = field (lit ''id'') as" "abs_value r = field (lit ''jsonrpc'') as" "abs_value p = field (lit ''params'') as"
    using json_fields_spec [OF assms(1,2), folded assms(4)] by (elim exE conjE) (rule that)
  have new: "Value_new = PlainValue 0" by (simp add: Value_new_def)
  note fault = JsonGenerateFaultResponse_spec [OF f(3), folded new]
  show ?thesis
  proof (cases "json_request as")
    case None
    from fault [of "-32600" "lit ''Invalid Request''"] obtain x where
      x: "JsonGenerateFaultResponse (-32600) (lit ''Invalid Request'') i Value_new = Inr x" "value_ok x"
        "abs_value x = json_fault (abs_value i) (-32600) (lit ''Invalid Request'')" by blast
    have "JsonExecuteSingleRequest call (MapValue MapType c ms) Value_new mm w
        = (escape (JsonGenerateFaultResponse (-32600) (lit ''Invalid Request'') i Value_new), mm, w)"
    proof (cases "IsString m")
      case True
      then obtain s where s: "abs_value m = AStr s" using is_string_abs [OF f(2)] by blast
      have "is_version2 r = Inr True \<longrightarrow> IsInvalid p"
      proof
        assume "is_version2 r = Inr True"
        then obtain v where v: "abs_value r = AStr v" "c_str v = lit ''2.0''"
          using is_string_abs [OF f(4)] GetString_abs [OF f(4)] by (auto simp: is_version2_def simp del: lit_simps split: if_splits)
        from v(1) f(8) have "field (lit ''jsonrpc'') as = AStr v" by simp
        with None s f(6,9) v(2) IsValid_abs [OF f(5)] show "IsInvalid p"
          by (auto simp: json_request_def valid_invalid simp del: lit_simps split: if_splits)
      qed
      moreover have "\<exists>b. is_version2 r = Inr b"
        using is_string_abs [OF f(4)] GetString_abs [OF f(4)] by (auto simp: is_version2_def)
      ultimately obtain b where b: "is_version2 r = Inr b" "b \<longrightarrow> IsInvalid p" by auto
      show ?thesis
      proof (cases b)
        case True
        with b show ?thesis by (simp add: JsonExecuteSingleRequest_def f(1) Let_def del: lit_simps)
      next
        case False
        with b show ?thesis by (simp add: JsonExecuteSingleRequest_def f(1) Let_def del: lit_simps)
      qed
    qed (simp add: JsonExecuteSingleRequest_def f(1) Let_def del: lit_simps)
    with x None f(7) show ?thesis by (simp add: escape_def with_message_def)
  next
    case (Some name)
    obtain s v where sv: "field (lit ''method'') as = AStr s" "field (lit ''jsonrpc'') as = AStr v" "c_str v = lit ''2.0''"
        "field (lit ''params'') as \<noteq> AInvalid" "name = c_str s"
      using Some by (auto simp: json_request_def simp del: lit_simps split: aval.splits if_splits)
    obtain out mm' w' where e: "ExecuteMethod call name p (SetNull Value_new) mm w = (out, mm', w')"
      by (cases "ExecuteMethod call name p (SetNull Value_new) mm w")
    have m: "IsString m" "\<not> IsInvalid m" "GetString m = Inr s" "is_version2 r = Inr True" "\<not> IsInvalid p"
      using sv f(6,8,9) is_string_abs [OF f(2)] is_string_abs [OF f(4)] IsValid_abs [OF f(2)] IsValid_abs [OF f(5)]
        GetString_abs [OF f(2)] GetString_abs [OF f(4)]
      by (simp_all add: valid_invalid is_version2_def del: lit_simps)
    note run = JsonExecuteSingleRequest_def [of call "MapValue MapType c ms" Value_new mm w, unfolded f(1) Let_def sum.case prod.case m(3,4)]
    show ?thesis
    proof (cases out)
      case (Inl x)
      show ?thesis
      proof (cases x)
        case (Fault k msg)
        from fault [of k msg] obtain y where "JsonGenerateFaultResponse k msg i Value_new = Inr y" "value_ok y"
          "abs_value y = json_fault (abs_value i) k msg" by blast
        with Some sv(5) e Inl Fault m f(5,7,9) run show ?thesis
          by (auto simp: escape_def with_message_def simp del: lit_simps)
      qed (use Some sv(5) e Inl m f(5,7,9) run in \<open>auto simp del: lit_simps\<close>)
    next
      case (Inr bx)
      obtain b x where bx: "bx = (b, x)" by (cases bx)
      have x: "value_ok x" by (rule ExecuteMethod_value [OF assms(3) f(5) _ e [unfolded Inr bx]]) (simp add: SetNull_def flag_values)
      show ?thesis
      proof (cases b)
        case True
        show ?thesis
        proof (cases "IsValid i")
          case valid: True
          with IsValid_abs [OF f(3)] JsonGenerateResponse_spec [OF f(3) x, folded new] obtain y where
            "JsonGenerateResponse x i Value_new = Inr y" "value_ok y" "abs_value y = json_answer (abs_value i) (abs_value x)" by blast
          with Some sv(5) e Inr bx True valid IsValid_abs [OF f(3)] m f(5,7,9) run show ?thesis
            by (auto simp: escape_def with_message_def simp del: lit_simps)
        next
          case False
          with Some sv(5) e Inr bx True IsValid_abs [OF f(3)] m f(5,7,9) run show ?thesis
            by (auto simp: new simp del: lit_simps)
        qed
      next
        case False
        from fault [of "-32601" "lit ''Method not found''"] obtain y where
          "JsonGenerateFaultResponse (-32601) (lit ''Method not found'') i Value_new = Inr y" "value_ok y"
          "abs_value y = json_fault (abs_value i) (-32601) (lit ''Method not found'')" by blast
        with Some sv(5) e Inr bx False m f(5,7,9) run show ?thesis
          by (auto simp: escape_def with_message_def simp del: lit_simps)
      qed
    qed
  qed
qed

section \<open>From the text of a request to the text of the response\<close>

lemma write_response_content:
  assumes "wss_ok os"
  shows "\<exists>os'. write_response ps os = Inr (True, os') \<and> wss_ok os' \<and> wss_content os' = wss_content os @ concat (map put_bytes ps)"
  using wss.run_puts_content [OF assms, of ps] by (auto simp: write_response_def)

text \<open>Every string can be written in UTF-8.\<close>

lemma utf8_writable: "writable (jw_String UTF8 s)"
proof -
  have "\<exists>ps. jw_chars UTF8 s = Inr ps"
  proof (induction s)
    case (Cons c cs)
    then show ?case by (subst jw_chars.simps) (auto simp: Let_def)
  qed simp
  then show ?thesis by (auto simp: writable_def jw_String_def)
qed

lemma missing_none: "\<forall>k \<in> set ks. k \<in> fst ` set (map abs_member ms) \<Longrightarrow> missing ks ms = 0"
  by (auto simp: missing_def abs_member_def image_image)

lemma request_stream:
  assumes "len \<le> length request"
  shows "st_ok (InSituStream (iss_new request len True False))"
    "st_left (InSituStream (iss_new request len True False)) = take len request"
  using assms by (simp_all add: iss_new_def iss_ok_def iss_left_def)

lemma JsonRpcHandler_reply:
  assumes doc: "JsonReader_ParseStream (doc_step mktime) (jr_new (InSituStream (iss_new request len True False))) doc_new = Inr (d, None)"
    and reply: "json_message call (doc_value d) mm w = (Inr r, mm', w')" "value_ok r" "complete (abs_value r)"
      "json_writable server_settings (abs_value r)"
    and os: "wss_ok os"
  shows "\<exists>os'. JsonRpcHandler call mktime localtime request len os mm w = (Inr (True, os'), mm', w') \<and> wss_ok os'
    \<and> wss_content os' = wss_content os @ json_text server_settings localtime 0 (abs_value r)"
proof -
  have v: "\<not> IsInvalid r" using reply(2,3) IsValid_abs [OF reply(2)] by (auto simp: valid_invalid)
  have "jw_level jw_new \<ge> 0" by (simp add: jw_new_def)
  from jw.feed_traverse [OF this reply(2-4), of localtime] obtain jw where
    jw: "feed (jw_step server_settings localtime) (Traverse r) jw_new = Inr (jw, ())"
      "jw_took server_settings localtime jw_new (abs_value r) jw" by blast
  then have "concat (map put_bytes (jw_out jw)) = json_text server_settings localtime 0 (abs_value r)"
    by (auto simp: jw_took_def jw_new_def)
  with write_response_content [OF os, of "jw_out jw"] jw(1) v show ?thesis
    by (auto simp: JsonRpcHandler_def doc reply(1))
qed

lemma json_request_text:
  assumes buf: "len \<le> length request" "take len request = sp @ t @ rest" "white sp" "json_form a t" "value_end rest"
    and doc: "doc_fits a" "doc_norm True mktime a = Some (AMap ms)"
    and msg: "\<forall>k \<in> set json_keys. k \<in> fst ` set ms" "json_request ms = Some name"
    and call: "calls_values call" and os: "wss_ok os"
  shows "\<exists>params out mm' w'. value_ok params \<and> abs_value params = field (lit ''params'') ms
    \<and> ExecuteMethod call name params (SetNull Value_new) mm w = (out, mm', w')
    \<and> (\<forall>answer. json_reply (field (lit ''id'') ms) (map_sum id (apsnd abs_value) out) = Inr answer \<longrightarrow>
         complete answer \<longrightarrow> json_writable server_settings answer \<longrightarrow>
         (\<exists>os'. JsonRpcHandler call mktime localtime request len os mm w = (Inr (True, os'), mm', w') \<and> wss_ok os'
            \<and> wss_content os' = wss_content os @ json_text server_settings localtime 0 answer))"
proof -
  have "doc_convert doc_new = True" by (simp add: doc_new_def)
  with json_document_reads [OF request_stream(1) [OF buf(1)] _ buf(3-5) doc(1), of doc_new mktime "AMap ms"] request_stream(2) [OF buf(1)] buf(2) doc(2)
  obtain d where d: "JsonReader_ParseStream (doc_step mktime) (jr_new (InSituStream (iss_new request len True False))) doc_new = Inr (d, None)"
    "value_ok (doc_value d)" "abs_value (doc_value d) = AMap ms" by auto
  note map = abs_AMap [OF d(2,3)]
  then obtain c vs where v: "doc_value d = MapValue MapType c vs" using value_ok_shapes(1) [OF d(2)] by blast
  with map have vs: "ms = map abs_member vs" by simp
  have ok: "value_ok (MapValue MapType c vs)" using d(2) v by simp
  have "missing json_keys vs = 0" using msg(1) by (intro missing_none) (simp add: vs)
  moreover have "length vs \<le> c" using ok by simp
  ultimately have room: "missing json_keys vs + length vs \<le> c" by simp
  from single_refines [OF ok room call vs, of mm w] msg(2) obtain params out reply mm' w' where
    p: "value_ok params" "abs_value params = field (lit ''params'') ms"
      "ExecuteMethod call name params (SetNull Value_new) mm w = (out, mm', w')"
      "JsonExecuteSingleRequest call (MapValue MapType c vs) Value_new mm w = (reply, mm', w')"
      "map_sum id abs_value reply = json_reply (field (lit ''id'') ms) (map_sum id (apsnd abs_value) out)"
      "\<forall>r. reply = Inr r \<longrightarrow> value_ok r"
    by (auto simp del: value_ok.simps)
  have m: "json_message call (doc_value d) mm w = (reply, mm', w')"
    using p(4) by (simp add: json_message_def v Let_def)
  show ?thesis
  proof (rule exI [of _ params], rule exI [of _ out], rule exI [of _ mm'], rule exI [of _ w'], intro conjI allI impI)
    fix answer
    assume a: "json_reply (field (lit ''id'') ms) (map_sum id (apsnd abs_value) out) = Inr answer" "complete answer"
      "json_writable server_settings answer"
    with p(5) obtain r where r: "reply = Inr r" "abs_value r = answer" by (cases reply) auto
    from JsonRpcHandler_reply [OF d(1) m [unfolded r(1)] _ _ _ os, of localtime] a p(6) r
    show "\<exists>os'. JsonRpcHandler call mktime localtime request len os mm w = (Inr (True, os'), mm', w') \<and> wss_ok os'
            \<and> wss_content os' = wss_content os @ json_text server_settings localtime 0 answer" by simp
  qed (use p in auto)
qed

text \<open>What is not answered: a message in a batch that is not a map, and a lookup that moves the members.\<close>

lemma single_not_map:
  assumes "IsValid v" "\<not> IsMap v"
  shows "JsonExecuteSingleRequest call v response mm w = (Inl (Fault (-32401) []), mm, w)"
  using assms cstr_key [of "lit ''method'' @ [0]"]
  by (simp add: JsonExecuteSingleRequest_def json_fields_def member_at_def FindMember_cstr_def FindMember_def valid_invalid del: lit_simps)

lemma single_moved:
  assumes "value_ok (MapValue MapType c ms)" "length ms = c" "c < MaxMapCapacity"
    and "lit ''method'' \<in> str_bytes ` fst ` set ms" "lit ''id'' \<notin> str_bytes ` fst ` set ms"
    and "\<forall>k \<in> {''jsonrpc'', ''params''}. lit k \<in> str_bytes ` fst ` set ms"
  shows "JsonExecuteSingleRequest call (MapValue MapType c ms) response mm w = (Inl Undefined, mm, w)"
proof -
  let ?ms = "ms @ [(CopyString (lit ''id''), PlainValue 0)]" and ?c = "map_grow c"
  have c: "c < ?c" "?c \<le> MaxMapCapacity" using map_grow_bounds [OF assms(3)] by auto
  have n: "member_index (lit ''id'') ms = length ms"
    using assms(5) member_index_found [of "lit ''id''" ms] member_index_le [of "lit ''id''" ms] by simp
  have z: "0 \<notin> set (lit ''method'')" "0 \<notin> set (lit ''id'')" "0 \<notin> set (lit ''jsonrpc'')" "0 \<notin> set (lit ''params'')" by simp_all
  have "AddMember_cstr (MapValue MapType c ms) (lit ''id'' @ [0]) True = Inr (MapValue MapType ?c ?ms)"
    using c assms(2) by (simp add: AddMember_cstr_def AddMember_key_def AddMemberCheckCapacity_def c_str_lit [OF z(2)]
        SetString_def Value_str_def SetInvalid_def Destroy_def del: lit_simps)
  then have 2: "member_at (MapValue MapType c ms) (lit ''id'' @ [0]) = Inr (MapValue MapType ?c ?ms, length ms)"
    using FindMember_map [OF assms(1), of "lit ''id'' @ [0]"] assms(2) n
    by (simp add: member_at_def MemberEnd_def member_ptr_def c_str_lit [OF z(2)] MemberCount_def del: lit_simps)
  have ok: "value_ok (MapValue MapType ?c ?ms)" using assms(1,2) c CopyString_spec by (simp del: lit_simps)
  have k: "lit ''jsonrpc'' \<in> str_bytes ` fst ` set ?ms" "lit ''params'' \<in> str_bytes ` fst ` set ?ms"
    using assms(6) by (simp_all del: lit_simps)
  have "read_ref (MapValue MapType c ms) (MapValue MapType ?c ?ms) i = Inl UndefinedBehaviour" for i
    using c(1) by (simp add: read_ref_def map_capacity_def)
  then have "json_fields (MapValue MapType c ms) = Inl UndefinedBehaviour"
    unfolding json_fields_def
    by (simp only: member_found [OF assms(1) z(1) assms(4)] 2 member_found [OF ok z(3) k(1)] member_found [OF ok z(4) k(2)]
        then_r.simps prod.case)
  then show ?thesis by (simp add: JsonExecuteSingleRequest_def)
qed

end
