(* ===== verification/AnyRpc_MessagePackServer.thy ===== *)
theory AnyRpc_MessagePackServer
  imports AnyRpc_JsonServer AnyRpc_MessagePackRoundTrip
begin

text \<open>
  messagepack/messagepackserver.cpp: \<^verbatim>\<open>MessagePackRpcHandler\<close>, with requests
  \<open>[0, id, method, params]\<close>, notifications \<open>[1, method, params]\<close> and responses
  \<open>[1, id, error, result]\<close>. Main result: the bytes of a request give the bytes of the response
  that \<open>mp_reply\<close> specifies.
\<close>

section \<open>Building responses\<close>

definition MessagePackGenerateResponse :: "Value \<Rightarrow> Value \<Rightarrow> Value \<Rightarrow> Value result" where
  "MessagePackGenerateResponse result ident response =
     assign_all [SetSize 4, assign_element 0 (put_int 1), assign_element 1 (put_copy ident),
       assign_element 2 put_null, assign_element 3 (put_moved result)] response"

definition MessagePackGenerateFaultResponse :: "int \<Rightarrow> bytes \<Rightarrow> Value \<Rightarrow> Value \<Rightarrow> Value result" where
  "MessagePackGenerateFaultResponse errorCode errorMsg ident response =
     assign_all [SetSize 4, assign_element 0 (put_int 1), assign_element 1 (put_copy ident),
       assign_element 2 (assign_member ''code'' (put_int errorCode)),
       assign_element 2 (assign_member ''message'' (put_string errorMsg)), assign_element 3 put_null] response"

section \<open>Calls and notifications\<close>

text \<open>
  \<^verbatim>\<open>!type.IsInt() && (type.GetInt() != n)\<close>: for an integer the second operand is not evaluated, for
  any other value it throws. What the test was meant to compare with is not used.
\<close>

definition type_rejected :: "int \<Rightarrow> Value \<Rightarrow> bool result" where
  "type_rejected n type = (if IsInt type then Inr False else then_r (GetInt type) (\<lambda>i. Inr (sint i \<noteq> n)))"

text \<open>The elements of a message that has them.\<close>

fun message_elements :: "nat \<Rightarrow> nat \<Rightarrow> Value \<Rightarrow> Value list result" where
  "message_elements i 0 message = Inr []"
| "message_elements i (Suc n) message = then_r (value_at_index message i) (\<lambda>x.
     then_r (message_elements (i + 1) n message) (\<lambda>xs. Inr (x # xs)))"

definition mp_call :: "'w calls \<Rightarrow> Value \<Rightarrow> manager \<Rightarrow> 'w \<Rightarrow> (exn + Value) \<times> manager \<times> 'w" where
  "mp_call call message mm w =
     (case message_elements 0 4 message of
        Inr [type, ident, method, params] \<Rightarrow>
          let invalid = (escape (MessagePackGenerateFaultResponse (-32600) (lit ''Invalid Request'') (SetNull Value_new) Value_new), mm, w)
          in (case type_rejected 0 type of
                Inl e \<Rightarrow> (Inl (fault [] e), mm, w)
              | Inr True \<Rightarrow> invalid
              | Inr False \<Rightarrow>
                  if \<not> IsUint ident then invalid
                  else if \<not> IsString method then invalid
                  else (case GetString method of
                    Inl e \<Rightarrow> (Inl (fault [] e), mm, w)
                  | Inr name \<Rightarrow>
                      (case ExecuteMethod call (c_str name) params (SetNull Value_new) mm w of
                         (Inl (Fault c msg), mm', w') \<Rightarrow> (escape (MessagePackGenerateFaultResponse c msg ident Value_new), mm', w')
                       | (Inl Foreign, mm', w') \<Rightarrow> (Inl Foreign, mm', w')
                       | (Inl Undefined, mm', w') \<Rightarrow> (Inl Undefined, mm', w')
                       | (Inr (False, _), mm', w') \<Rightarrow>
                           (escape (MessagePackGenerateFaultResponse (-32601) (lit ''Method not found'') ident Value_new), mm', w')
                       | (Inr (True, result), mm', w') \<Rightarrow>
                           (escape (MessagePackGenerateResponse result ident Value_new), mm', w'))))
      | Inl e \<Rightarrow> (Inl (fault [] e), mm, w)
      | _ \<Rightarrow> (Inl Undefined, mm, w))"

text \<open>A notification: only what leaves the handler and what the execution changes.\<close>

definition mp_notification :: "'w calls \<Rightarrow> Value \<Rightarrow> manager \<Rightarrow> 'w \<Rightarrow> (exn + unit) \<times> manager \<times> 'w" where
  "mp_notification call message mm w =
     (case message_elements 0 3 message of
        Inr [type, method, params] \<Rightarrow>
          (case type_rejected 1 type of
             Inl e \<Rightarrow> (Inl (fault [] e), mm, w)
           | Inr True \<Rightarrow> (Inr (), mm, w)
           | Inr False \<Rightarrow>
               if \<not> IsString method then (Inr (), mm, w)
               else (case GetString method of
                 Inl e \<Rightarrow> (Inl (fault [] e), mm, w)
               | Inr name \<Rightarrow>
                   (case ExecuteMethod call (c_str name) params (SetNull Value_new) mm w of
                      (Inl Foreign, mm', w') \<Rightarrow> (Inl Foreign, mm', w')
                    | (Inl Undefined, mm', w') \<Rightarrow> (Inl Undefined, mm', w')
                    | (_, mm', w') \<Rightarrow> (Inr (), mm', w'))))
      | Inl e \<Rightarrow> (Inl (fault [] e), mm, w)
      | _ \<Rightarrow> (Inl Undefined, mm, w))"

text \<open>The response to a message, none for a notification.\<close>

definition mp_message :: "'w calls \<Rightarrow> Value \<Rightarrow> manager \<Rightarrow> 'w \<Rightarrow> (exn + Value option) \<times> manager \<times> 'w" where
  "mp_message call message mm w =
     (let invalid = (map_sum id Some (escape (MessagePackGenerateFaultResponse (-32600) (lit ''Invalid Request'') (SetNull Value_new) Value_new)), mm, w)
      in if IsArray message then
           (case Size message of
              Inl e \<Rightarrow> (Inl (fault [] e), mm, w)
            | Inr n \<Rightarrow>
                if n = 4 then map_prod (map_sum id Some) id (mp_call call message mm w)
                else if n = 3 then map_prod (map_sum id (\<lambda>_. None)) id (mp_notification call message mm w)
                else invalid)
         else invalid)"

definition MessagePackRpcHandler ::
    "'w calls \<Rightarrow> (tm \<Rightarrow> u64) \<Rightarrow> (u64 \<Rightarrow> tm) \<Rightarrow> bytes \<Rightarrow> nat \<Rightarrow> wss \<Rightarrow> manager \<Rightarrow> 'w \<Rightarrow>
      (exn + bool \<times> wss) \<times> manager \<times> 'w" where
  "MessagePackRpcHandler call mktime localtime request len response mm w =
     (case MessagePackReader_ParseStream (doc_step mktime) (mpr_new (InSituStream (iss_new request len True False))) doc_new of
        Inl e \<Rightarrow> (Inl (fault [] e), mm, w)
      | Inr (doc, parseError) \<Rightarrow>
          (case (case parseError of
                   Some _ \<Rightarrow> (map_sum id Some (escape (MessagePackGenerateFaultResponse (-32700) (lit ''Parse error'') (SetNull Value_new) Value_new)), mm, w)
                 | None \<Rightarrow> mp_message call (doc_value doc) mm w) of
             (Inl x, mm', w') \<Rightarrow> (Inl x, mm', w')
           | (Inr None, mm', w') \<Rightarrow> (Inr (False, response), mm', w')
           | (Inr (Some valueResponse), mm', w') \<Rightarrow>
               (case feed (mpw_step localtime) (Traverse valueResponse) [] of
                        Inl e \<Rightarrow> Inl (fault [] e)
                      | Inr (ps, _) \<Rightarrow> write_response ps response, mm', w')))"

section \<open>The specification\<close>

definition mp_fault :: "aval \<Rightarrow> int \<Rightarrow> bytes \<Rightarrow> aval" where
  "mp_fault i c msg = AArr [AInt 1, i, AMap [(lit ''code'', AInt (int32 c)), (lit ''message'', AStr msg)], ANull]"

definition mp_answer :: "aval \<Rightarrow> aval \<Rightarrow> aval" where "mp_answer i r = AArr [AInt 1, i, ANull, r]"

fun mp_reply :: "aval \<Rightarrow> exn + bool \<times> aval \<Rightarrow> exn + aval" where
  "mp_reply i (Inl (Fault c msg)) = Inr (mp_fault i c msg)"
| "mp_reply i (Inl x) = Inl x"
| "mp_reply i (Inr (False, _)) = Inr (mp_fault i (-32601) (lit ''Method not found''))"
| "mp_reply i (Inr (True, r)) = Inr (mp_answer i r)"

section \<open>Responses\<close>

text \<open>\<^verbatim>\<open>SetSize\<close> on a new value.\<close>

lemma SetSize_acts:
  "n < MaxArrayCapacity \<Longrightarrow> acts (SetSize n) (\<lambda>a. if a = AInvalid then Some (AArr (replicate n AInvalid)) else None)"
proof -
  assume n: "n < MaxArrayCapacity"
  have "SetSize n (PlainValue 0) = Inr (ArrValue ArrayFlag n (replicate n (PlainValue 0)))"
    using n by (simp add: SetSize_def SetArray_def)
  with n show ?thesis by (auto simp: acts_def dest!: abs_AInvalid split: if_splits)
qed

lemma int32_1: "int32 1 = 1"
  by (simp add: int32_def)

lemma Max_small [simp]: "n < 100 \<Longrightarrow> n < MaxArrayCapacity" "n < 100 \<Longrightarrow> n < MaxArrayCapacity - Suc 0"
  by (simp_all add: MaxArrayCapacity_def)

lemma array_put_small:
  assumes "i < length xs" "length xs < 100"
  shows "array_put i g (AArr xs) = map_option (\<lambda>b. AArr (xs[i := b])) (g (xs ! i))"
proof -
  have "i < 100" using assms by linarith
  then have "i < MaxArrayCapacity - 1" by (simp add: MaxArrayCapacity_def)
  with assms(1) show ?thesis by simp
qed

lemma replicate_4: "replicate 4 x = [x, x, x, x :: aval]"
  by (simp add: numeral_eq_Suc)

lemma four_elements:
  "array_put 0 g (AArr [a, b, c, d]) = map_option (\<lambda>x. AArr [x, b, c, d]) (g a)"
  "array_put (Suc 0) g (AArr [a, b, c, d]) = map_option (\<lambda>x. AArr [a, x, c, d]) (g b)"
  "array_put 2 g (AArr [a, b, c, d]) = map_option (\<lambda>x. AArr [a, b, x, d]) (g c)"
  "array_put 3 g (AArr [a, b, c, d]) = map_option (\<lambda>x. AArr [a, b, c, x]) (g d)"
  using array_put_small [of 0 "[a, b, c, d]" g] array_put_small [of 1 "[a, b, c, d]" g]
    array_put_small [of 2 "[a, b, c, d]" g] array_put_small [of 3 "[a, b, c, d]" g]
  by (simp_all add: numeral_2_eq_2 numeral_3_eq_3 del: array_put.simps)

lemma code_message: "lit ''code'' \<noteq> lit ''message''"
  by simp

lemmas element_acts = assign_element_acts SetSize_acts member_acts

lemma MessagePackGenerateFaultResponse_spec:
  assumes "value_ok ident" "cut_keys (abs_value ident) = abs_value ident"
  shows "\<exists>r. MessagePackGenerateFaultResponse c msg ident (PlainValue 0) = Inr r \<and> value_ok r
    \<and> abs_value r = mp_fault (abs_value ident) c msg"
proof -
  let ?gs = "[\<lambda>a. if a = AInvalid then Some (AArr (replicate 4 AInvalid)) else None,
    array_put 0 (\<lambda>_. Some (AInt (int32 1))), array_put 1 (\<lambda>_. Some (cut_keys (abs_value ident))),
    array_put 2 (map_put (lit ''code'') (\<lambda>_. Some (AInt (int32 c)))),
    array_put 2 (map_put (lit ''message'') (\<lambda>_. Some (AStr msg))), array_put 3 (\<lambda>_. Some ANull)]"
  let ?f = "assign_all [SetSize 4, assign_element 0 (put_int 1), assign_element 1 (put_copy ident),
       assign_element 2 (assign_member ''code'' (put_int c)),
       assign_element 2 (assign_member ''message'' (put_string msg)), assign_element 3 put_null]"
  have "acts ?f (act_all ?gs)"
    by (rule assign_all_acts, simp del: lit_simps, intro conjI element_acts assms; simp)
  moreover have "act_all ?gs (abs_value (PlainValue 0)) = Some (mp_fault (abs_value ident) c msg)"
    using code_message by (simp add: mp_fault_def assms(2) replicate_4 four_elements int32_1 del: array_put.simps lit_simps)
  ultimately show ?thesis using actsD [of ?f "act_all ?gs" "PlainValue 0"] unfolding MessagePackGenerateFaultResponse_def by simp
qed

lemma MessagePackGenerateResponse_spec:
  assumes "value_ok ident" "cut_keys (abs_value ident) = abs_value ident" "value_ok result"
  shows "\<exists>r. MessagePackGenerateResponse result ident (PlainValue 0) = Inr r \<and> value_ok r
    \<and> abs_value r = mp_answer (abs_value ident) (abs_value result)"
proof -
  let ?gs = "[\<lambda>a. if a = AInvalid then Some (AArr (replicate 4 AInvalid)) else None,
    array_put 0 (\<lambda>_. Some (AInt (int32 1))), array_put 1 (\<lambda>_. Some (cut_keys (abs_value ident))),
    array_put 2 (\<lambda>_. Some ANull), array_put 3 (\<lambda>_. Some (abs_value result))]"
  let ?f = "assign_all [SetSize 4, assign_element 0 (put_int 1), assign_element 1 (put_copy ident),
       assign_element 2 put_null, assign_element 3 (put_moved result)]"
  have "acts ?f (act_all ?gs)" by (rule assign_all_acts, simp, intro conjI element_acts assms; simp)
  moreover have "act_all ?gs (abs_value (PlainValue 0)) = Some (mp_answer (abs_value ident) (abs_value result))"
    by (simp add: mp_answer_def assms(2) replicate_4 four_elements int32_1 del: array_put.simps lit_simps)
  ultimately show ?thesis using actsD [of ?f "act_all ?gs" "PlainValue 0"] unfolding MessagePackGenerateResponse_def by simp
qed

section \<open>Requests\<close>

lemma integer_value:
  assumes "value_ok v" "abs_value v = AInt z"
  shows "(IsInt v \<longleftrightarrow> - (2 ^ 31) \<le> z \<and> z < 2 ^ 31) \<and> (IsUint v \<longleftrightarrow> 0 \<le> z \<and> z < 2 ^ 32)"
proof -
  obtain f n where v: "v = NumValue f n" using assms(2) by (cases v) (auto split: if_splits)
  consider (s) "v = mk_int (sint n)" | (u) "v = mk_int (uint n)" | (any) "f = NumberAnyFlag" "n = 0"
    | (float) "f = NumberFloatFlag" | (double) "f = NumberDoubleFlag"
    using assms(1) by (auto simp: v mk_int_def)
  then show ?thesis
  proof cases
    case s
    with mk_int_spec [of "sint n"] sint_range64 [of n] assms(2) have "v = mk_int z" by simp
    then show ?thesis by (simp add: mk_int_tests)
  next
    case u
    with mk_int_spec [of "uint n"] uint_range(2) [of n] uint_lower(2) [of n] assms(2) have "v = mk_int z" by simp
    then show ?thesis by (simp add: mk_int_tests)
  next
    case any
    with assms(2) have "z = 0" by (simp add: v flag_values)
    with any show ?thesis by (simp add: v type_tests flag_values)
  qed (use assms(2) in \<open>simp_all add: v flag_values\<close>)
qed

lemma message_elements_array:
  "i + n \<le> length xs \<Longrightarrow> message_elements i n (ArrValue ArrayType c xs) = Inr (take n (drop i xs))"
proof (induction n arbitrary: i)
  case (Suc n)
  then have "value_at_index (ArrValue ArrayType c xs) i = Inr (xs ! i)" by (intro value_at_index_mk) simp
  with Suc show ?case by (simp add: Cons_nth_drop_Suc [symmetric])
qed simp

lemma mp_call_refines:
  assumes v: "value_ok v" "abs_value v = AArr [AInt t, AInt i, AStr name, p]"
    and range: "- (2 ^ 31) \<le> t" "t < 2 ^ 31" "0 \<le> i" "i < 2 ^ 32"
    and call: "calls_values call"
  shows "\<exists>params out reply mm' w'. value_ok params \<and> abs_value params = p
       \<and> ExecuteMethod call (c_str name) params (SetNull Value_new) mm w = (out, mm', w')
       \<and> mp_message call v mm w = (map_sum id Some reply, mm', w')
       \<and> map_sum id abs_value reply = mp_reply (AInt i) (map_sum id (apsnd abs_value) out)
       \<and> (\<forall>r. reply = Inr r \<longrightarrow> value_ok r)"
proof -
  from abs_AArr [OF v] value_ok_shapes(2) [OF v(1)] obtain c xs where xs: "v = ArrValue ArrayType c xs"
    "map abs_value xs = [AInt t, AInt i, AStr name, p]" by auto
  then obtain x0 x1 x2 x3 where x: "xs = [x0, x1, x2, x3]" "abs_value x0 = AInt t" "abs_value x1 = AInt i"
    "abs_value x2 = AStr name" "abs_value x3 = p" by (auto simp: map_eq_Cons_conv)
  have ok: "value_ok x0" "value_ok x1" "value_ok x2" "value_ok x3" using v(1) xs(1) x(1) by simp_all
  have t: "type_rejected 0 x0 = Inr False" "IsUint x1" "IsString x2" "GetString x2 = Inr name"
    using integer_value [OF ok(1) x(2)] integer_value [OF ok(2) x(3)] range is_string_abs [OF ok(3)] GetString_abs [OF ok(3)] x(4)
    by (simp_all add: type_rejected_def)
  have el: "message_elements 0 4 v = Inr [x0, x1, x2, x3]"
    using message_elements_array [of 0 4 xs c] by (simp add: xs(1) x(1))
  have new: "Value_new = PlainValue 0" by (simp add: Value_new_def)
  have ck: "cut_keys (abs_value x1) = abs_value x1" by (simp add: x(3))
  note fault = MessagePackGenerateFaultResponse_spec [OF ok(2) ck, folded new]
  obtain out mm' w' where e: "ExecuteMethod call (c_str name) x3 (SetNull Value_new) mm w = (out, mm', w')"
    by (cases "ExecuteMethod call (c_str name) x3 (SetNull Value_new) mm w")
  note run = mp_call_def [of call v mm w, unfolded el Let_def sum.case prod.case list.case t(1,4) e]
  have "\<exists>reply. mp_call call v mm w = (reply, mm', w')
       \<and> map_sum id abs_value reply = mp_reply (AInt i) (map_sum id (apsnd abs_value) out)
       \<and> (\<forall>r. reply = Inr r \<longrightarrow> value_ok r)"
  proof (cases out)
    case (Inl y)
    show ?thesis
    proof (cases y)
      case (Fault k msg)
      from fault [of k msg] obtain r where "MessagePackGenerateFaultResponse k msg x1 Value_new = Inr r" "value_ok r"
        "abs_value r = mp_fault (abs_value x1) k msg" by blast
      with Inl Fault t x(3) run show ?thesis by (simp add: escape_def with_message_def)
    qed (use Inl t run in simp_all)
  next
    case (Inr bx)
    obtain b y where bx: "bx = (b, y)" by (cases bx)
    have y: "value_ok y" by (rule ExecuteMethod_value [OF call ok(4) _ e [unfolded Inr bx]]) (simp add: SetNull_def flag_values)
    show ?thesis
    proof (cases b)
      case True
      from MessagePackGenerateResponse_spec [OF ok(2) ck y, folded new] obtain r where
        "MessagePackGenerateResponse y x1 Value_new = Inr r" "value_ok r" "abs_value r = mp_answer (abs_value x1) (abs_value y)" by blast
      with Inr bx True t x(3) run show ?thesis by (simp add: escape_def with_message_def)
    next
      case False
      from fault [of "-32601" "lit ''Method not found''"] obtain r where
        "MessagePackGenerateFaultResponse (-32601) (lit ''Method not found'') x1 Value_new = Inr r" "value_ok r"
        "abs_value r = mp_fault (abs_value x1) (-32601) (lit ''Method not found'')" by blast
      with Inr bx False t x(3) run show ?thesis by (simp add: escape_def with_message_def del: lit_simps)
    qed
  qed
  then obtain reply where r: "mp_call call v mm w = (reply, mm', w')"
    "map_sum id abs_value reply = mp_reply (AInt i) (map_sum id (apsnd abs_value) out)" "\<forall>r. reply = Inr r \<longrightarrow> value_ok r" by blast
  have "Size v = Inr 4" by (simp add: xs(1) x(1) Size_def)
  then have "mp_message call v mm w = (map_sum id Some reply, mm', w')"
    using r(1) by (simp add: mp_message_def xs(1) del: lit_simps)
  with r ok(4) x(5) e show ?thesis by blast
qed

lemma mp_request_bytes:
  assumes buf: "len \<le> length request" "take len request = mp_bytes localtime (AArr [AInt t, AInt i, AStr name, p]) @ rest"
    and fits: "mp_fits localtime True (AArr [AInt t, AInt i, AStr name, p])"
    and doc: "doc_fits (mp_norm localtime (AArr [AInt t, AInt i, AStr name, p]))"
      "doc_norm True mktime (mp_norm localtime (AArr [AInt t, AInt i, AStr name, p])) = Some (AArr [AInt t, AInt i, AStr name, q])"
    and range: "- (2 ^ 31) \<le> t" "t < 2 ^ 31" "0 \<le> i" "i < 2 ^ 32"
    and call: "calls_values call" and os: "wss_ok os"
  shows "\<exists>params out mm' w'. value_ok params \<and> abs_value params = q
    \<and> ExecuteMethod call (c_str name) params (SetNull Value_new) mm w = (out, mm', w')
    \<and> (\<forall>answer. mp_reply (AInt i) (map_sum id (apsnd abs_value) out) = Inr answer \<longrightarrow> complete answer \<longrightarrow>
         (\<exists>os'. MessagePackRpcHandler call mktime localtime request len os mm w = (Inr (True, os'), mm', w') \<and> wss_ok os'
            \<and> wss_content os' = wss_content os @ mp_bytes localtime answer))"
proof -
  let ?s = "InSituStream (iss_new request len True False)"
  have "reader_inSitu ?s" "doc_convert doc_new = True" by (simp_all add: reader_inSitu_def iss_new_def iss_InSitu_def doc_new_def)
  with document_of_written [of localtime ?s "AArr [AInt t, AInt i, AStr name, p]" rest doc_new mktime "AArr [AInt t, AInt i, AStr name, q]"]
    request_stream [OF buf(1)] buf(2) fits doc
  obtain d where d: "MessagePackReader_ParseStream (doc_step mktime) (mpr_new ?s) doc_new = Inr (d, None)"
    "value_ok (doc_value d)" "abs_value (doc_value d) = AArr [AInt t, AInt i, AStr name, q]" by auto
  from mp_call_refines [OF d(2,3) range call, of mm w] obtain params out reply mm' w' where
    p: "value_ok params" "abs_value params = q" "ExecuteMethod call (c_str name) params (SetNull Value_new) mm w = (out, mm', w')"
      "mp_message call (doc_value d) mm w = (map_sum id Some reply, mm', w')"
      "map_sum id abs_value reply = mp_reply (AInt i) (map_sum id (apsnd abs_value) out)" "\<forall>r. reply = Inr r \<longrightarrow> value_ok r" by blast
  have "\<exists>os'. MessagePackRpcHandler call mktime localtime request len os mm w = (Inr (True, os'), mm', w') \<and> wss_ok os'
            \<and> wss_content os' = wss_content os @ mp_bytes localtime answer"
    if a: "mp_reply (AInt i) (map_sum id (apsnd abs_value) out) = Inr answer" "complete answer" for answer
  proof -
    from a p(5) obtain r where r: "reply = Inr r" "abs_value r = answer" by (cases reply) auto
    with p(6) have ok: "value_ok r" by simp
    from mpw.feed_traverse [OF TrueI ok _ TrueI, of localtime "[]"] a(2) r(2) obtain ps where
      ps: "feed (mpw_step localtime) (Traverse r) [] = Inr (ps, ())" "written ps = mp_bytes localtime answer" by auto
    with write_response_content [OF os, of ps] d(1) p(4) r(1) show ?thesis by (auto simp: MessagePackRpcHandler_def)
  qed
  with p(1-3) show ?thesis by blast
qed

text \<open>A message whose first element is not an integer leaves the handler as an exception.\<close>

lemma mp_type_throws:
  assumes "\<not> IsInt x0"
  shows "mp_message call (ArrValue ArrayType c [x0, x1, x2, x3]) mm w = (Inl (Fault (-32401) []), mm, w)"
proof -
  have "message_elements 0 4 (ArrValue ArrayType c [x0, x1, x2, x3]) = Inr [x0, x1, x2, x3]"
    using message_elements_array [of 0 4 "[x0, x1, x2, x3]" c] by simp
  then show ?thesis using assms
    by (simp add: mp_message_def mp_call_def Size_def type_rejected_def GetInt_def Let_def del: lit_simps)
qed

end
