(* ===== verification/AnyRpc_Socket.thy ===== *)
theory AnyRpc_Socket
  imports AnyRpc_Prelude "HOL-Library.Signed_Division"
begin

text \<open>
  socket.cpp and internal/time.cpp: the wrapper of the socket calls. The operating system is a
  parameter, the record \<open>os\<close> of the calls that are used, over a world \<open>'w\<close> which they change; what
  the code relies on of them is stated as predicates (\<open>os_bounded\<close>, \<open>clock_runs\<close>, \<open>stream_log\<close>).
  Main results: \<^verbatim>\<open>Send\<close> answers true exactly when the whole buffer has been passed to the system
  in order, \<^verbatim>\<open>Receive\<close> never stores outside its buffer, and both end.
\<close>

section \<open>Time\<close>

record timeval =
  tv_sec :: int
  tv_usec :: int

text \<open>The conversion of an \<^verbatim>\<open>int\<close> from a wider integer.\<close>

definition to_int32 :: "int \<Rightarrow> int" where "to_int32 i = sint (word_of_int i :: 32 word)"

definition MilliTimeDiff :: "timeval \<Rightarrow> timeval \<Rightarrow> int" where
  "MilliTimeDiff time1 time2 =
     to_int32 ((tv_sec time1 - tv_sec time2) * 1000 + (tv_usec time1 - tv_usec time2) sdiv 1000)"

definition MicroTimeDiff :: "timeval \<Rightarrow> timeval \<Rightarrow> int" where
  "MicroTimeDiff time1 time2 =
     (tv_sec time1 - tv_sec time2) * 1000000 + (tv_usec time1 - tv_usec time2)"

text \<open>The time that \<^verbatim>\<open>nanosleep\<close> is asked to wait, in seconds and nanoseconds.\<close>

definition MilliSleep_timespec :: "u32 \<Rightarrow> nat \<times> nat" where
  "MilliSleep_timespec ms = (unat (ms div 1000), unat ((ms - 1000 * (ms div 1000)) * 1000000))"

section \<open>The operating system\<close>

text \<open>
  The calls on file descriptors. A transfer answers \<open>None\<close> for -1, after which \<^verbatim>\<open>errno\<close> is set;
  \<open>sys_recv\<close> with the empty list is the end of the stream. \<^verbatim>\<open>select\<close> takes the descriptors to watch
  for reading and writing and the time to wait, and answers its result and the ready descriptors.
\<close>

datatype sockopt = SO_REUSEADDR | SO_KEEPALIVE | TCP_KEEPIDLE | TCP_KEEPINTVL | TCP_KEEPCNT | TCP_NODELAY

datatype sock_type = SOCK_STREAM | SOCK_DGRAM

record 'w os =
  sys_errno :: "'w \<Rightarrow> int"
  sys_gettimeofday :: "'w \<Rightarrow> timeval \<times> 'w"
  sys_time :: "'w \<Rightarrow> int \<times> 'w"
  sys_send :: "int \<Rightarrow> bytes \<Rightarrow> 'w \<Rightarrow> nat option \<times> 'w"
  sys_recv :: "int \<Rightarrow> nat \<Rightarrow> 'w \<Rightarrow> bytes option \<times> 'w"
  sys_sendto :: "int \<Rightarrow> bytes \<Rightarrow> bytes \<Rightarrow> int \<Rightarrow> 'w \<Rightarrow> nat option \<times> 'w"
  sys_recvfrom :: "int \<Rightarrow> nat \<Rightarrow> 'w \<Rightarrow> (bytes option \<times> bytes \<times> int) \<times> 'w"
  sys_select :: "int list \<Rightarrow> int list \<Rightarrow> timeval option \<Rightarrow> 'w \<Rightarrow> (int \<times> int list \<times> int list) \<times> 'w"
  sys_socket :: "sock_type \<Rightarrow> 'w \<Rightarrow> int \<times> 'w"
  sys_close :: "int \<Rightarrow> 'w \<Rightarrow> 'w"
  sys_setsockopt :: "int \<Rightarrow> sockopt \<Rightarrow> int \<Rightarrow> 'w \<Rightarrow> int \<times> 'w"
  sys_nonblock :: "int \<Rightarrow> 'w \<Rightarrow> int \<times> 'w"
  sys_bind :: "int \<Rightarrow> int \<Rightarrow> u32 \<Rightarrow> 'w \<Rightarrow> int \<times> 'w"
  sys_listen :: "int \<Rightarrow> int \<Rightarrow> 'w \<Rightarrow> int \<times> 'w"
  sys_accept :: "int \<Rightarrow> 'w \<Rightarrow> int \<times> 'w"
  sys_connect :: "int \<Rightarrow> bytes \<Rightarrow> int \<Rightarrow> 'w \<Rightarrow> int \<times> 'w"
  sys_so_error :: "int \<Rightarrow> 'w \<Rightarrow> (int \<times> int) \<times> 'w"
  sys_sockname :: "int \<Rightarrow> 'w \<Rightarrow> (bytes \<times> nat) option"
  sys_peername :: "int \<Rightarrow> 'w \<Rightarrow> (bytes \<times> nat) option"
  sys_malloc :: "nat \<Rightarrow> 'w \<Rightarrow> bytes option \<times> 'w"

text \<open>Error numbers of Linux.\<close>

definition EINTR :: int where "EINTR = 4"
definition EAGAIN :: int where "EAGAIN = 11"
definition EWOULDBLOCK :: int where "EWOULDBLOCK = EAGAIN"
definition ECONNRESET :: int where "ECONNRESET = 104"
definition EINPROGRESS :: int where "EINPROGRESS = 115"

lemmas errno_defs = EINTR_def EAGAIN_def EWOULDBLOCK_def ECONNRESET_def EINPROGRESS_def

section \<open>Socket\<close>

record Socket =
  s_fd :: int
  s_err :: int
  s_timeout :: int

definition Socket_new :: Socket where
  "Socket_new = \<lparr> s_fd = - 1, s_err = 0, s_timeout = 0 \<rparr>"

definition Socket_Close :: "'w os \<Rightarrow> 'a Socket_scheme \<Rightarrow> 'w \<Rightarrow> 'a Socket_scheme \<times> 'w" where
  "Socket_Close os s w = (if s_fd s \<noteq> - 1 then (s \<lparr> s_fd := - 1 \<rparr>, sys_close os (s_fd s) w) else (s, w))"

definition SetTimeout :: "u32 \<Rightarrow> 'a Socket_scheme \<Rightarrow> 'a Socket_scheme" where
  "SetTimeout timeout s = s \<lparr> s_timeout := sint timeout \<rparr>"

definition SetReuseAddress :: "'w os \<Rightarrow> int \<Rightarrow> 'a Socket_scheme \<Rightarrow> 'w \<Rightarrow> int \<times> 'w" where
  "SetReuseAddress os param s w = sys_setsockopt os (s_fd s) SO_REUSEADDR param w"

definition SetKeepAlive :: "'w os \<Rightarrow> int \<Rightarrow> 'a Socket_scheme \<Rightarrow> 'w \<Rightarrow> int \<times> 'w" where
  "SetKeepAlive os param s w = sys_setsockopt os (s_fd s) SO_KEEPALIVE param w"

definition SetKeepAliveInterval :: "'w os \<Rightarrow> int \<Rightarrow> int \<Rightarrow> int \<Rightarrow> 'a Socket_scheme \<Rightarrow> 'w \<Rightarrow> int \<times> 'w" where
  "SetKeepAliveInterval os startTime interval probeCount s w =
     (let (r1, w1) = sys_setsockopt os (s_fd s) TCP_KEEPIDLE startTime w
      in if r1 < 0 then (r1, w1)
         else let (r2, w2) = sys_setsockopt os (s_fd s) TCP_KEEPINTVL interval w1
              in if r2 < 0 then (r2, w2) else sys_setsockopt os (s_fd s) TCP_KEEPCNT probeCount w2)"

definition SetNonBlocking :: "'w os \<Rightarrow> 'a Socket_scheme \<Rightarrow> 'w \<Rightarrow> int \<times> 'w" where
  "SetNonBlocking os s w = sys_nonblock os (s_fd s) w"

definition GetFileDescriptor :: "'a Socket_scheme \<Rightarrow> int" where "GetFileDescriptor s = s_fd s"

definition SetFileDescriptor :: "'w os \<Rightarrow> int \<Rightarrow> 'a Socket_scheme \<Rightarrow> 'w \<Rightarrow> 'a Socket_scheme \<times> 'w" where
  "SetFileDescriptor os fd s w = (let (s', w') = Socket_Close os s w in (s' \<lparr> s_fd := fd \<rparr>, w'))"

definition SetLastError :: "'w os \<Rightarrow> 'w \<Rightarrow> 'a Socket_scheme \<Rightarrow> 'a Socket_scheme" where
  "SetLastError os w s = s \<lparr> s_err := sys_errno os w \<rparr>"

definition Socket_Bind ::
    "'w os \<Rightarrow> int \<Rightarrow> u32 \<Rightarrow> 'a Socket_scheme \<Rightarrow> 'w \<Rightarrow> int \<times> 'a Socket_scheme \<times> 'w" where
  "Socket_Bind os port address s w =
     (let (result, w') = sys_bind os (s_fd s) port address w in (result, SetLastError os w' s, w'))"

definition FatalError :: "int \<Rightarrow> bool" where
  "FatalError err \<longleftrightarrow> err \<noteq> 0 \<and> err \<noteq> EINPROGRESS \<and> err \<noteq> EAGAIN \<and> err \<noteq> EWOULDBLOCK \<and> err \<noteq> EINTR"

definition ConnectionResetError :: "int \<Rightarrow> bool" where "ConnectionResetError err \<longleftrightarrow> err = ECONNRESET"

text \<open>A negative timeout stands for the one that was set.\<close>

definition timeout_of :: "int \<Rightarrow> 'a Socket_scheme \<Rightarrow> int" where
  "timeout_of timeout s = max 0 (if timeout < 0 then s_timeout s else timeout)"

definition milli_timeval :: "int \<Rightarrow> timeval" where
  "milli_timeval timeout = \<lparr> tv_sec = timeout sdiv 1000, tv_usec = (timeout smod 1000) * 1000 \<rparr>"

definition WaitReadable :: "'w os \<Rightarrow> int \<Rightarrow> 'a Socket_scheme \<Rightarrow> 'w \<Rightarrow> bool \<times> 'w" where
  "WaitReadable os timeout s w =
     (if s_fd s < 0 then (False, w)
      else let ((selectResult, _), w') = sys_select os [s_fd s] [] (Some (milli_timeval (timeout_of timeout s))) w
           in (selectResult > 0, w'))"

definition WaitWritable :: "'w os \<Rightarrow> int \<Rightarrow> 'a Socket_scheme \<Rightarrow> 'w \<Rightarrow> bool \<times> 'w" where
  "WaitWritable os timeout s w =
     (if s_fd s < 0 then (False, w)
      else let ((selectResult, _), w') = sys_select os [] [s_fd s] (Some (milli_timeval (timeout_of timeout s))) w
           in (selectResult > 0, w'))"

definition GetSockInfo :: "'w os \<Rightarrow> 'a Socket_scheme \<Rightarrow> 'w \<Rightarrow> (bytes \<times> nat) option" where
  "GetSockInfo os s w = sys_sockname os (s_fd s) w"

definition GetPeerInfo :: "'w os \<Rightarrow> 'a Socket_scheme \<Rightarrow> 'w \<Rightarrow> (bytes \<times> nat) option" where
  "GetPeerInfo os s w = sys_peername os (s_fd s) w"

section \<open>TcpSocket\<close>

record TcpSocket = Socket +
  s_connected :: bool

definition TcpSocket_new :: TcpSocket where
  "TcpSocket_new = Socket.extend Socket_new \<lparr> s_connected = False \<rparr>"

definition TcpSocket_Create :: "'w os \<Rightarrow> TcpSocket \<Rightarrow> 'w \<Rightarrow> int \<times> TcpSocket \<times> 'w" where
  "TcpSocket_Create os s w =
     (let (s1, w1) = Socket_Close os s w; (fd, w2) = sys_socket os SOCK_STREAM w1
      in (fd, s1 \<lparr> s_fd := fd, s_connected := False \<rparr>, w2))"

definition SetTcpNoDelay :: "'w os \<Rightarrow> int \<Rightarrow> TcpSocket \<Rightarrow> 'w \<Rightarrow> int \<times> 'w" where
  "SetTcpNoDelay os param s w = sys_setsockopt os (s_fd s) TCP_NODELAY param w"

text \<open>
  The loops of \<^verbatim>\<open>Send\<close> and \<^verbatim>\<open>Receive\<close> end by the clock, hence partial functions: \<open>None\<close> is a loop
  that does not end. \<open>Send\<close> gives its result and \<^verbatim>\<open>bytesWritten\<close>; \<open>Receive\<close> its result, the bytes
  that were stored at the start of the buffer and \<^verbatim>\<open>eof\<close>. Lengths are below 2^31, the range of the
  cast to \<^verbatim>\<open>int\<close>.
\<close>

partial_function (option) send_loop ::
    "'w os \<Rightarrow> bytes \<Rightarrow> int \<Rightarrow> timeval \<Rightarrow> nat \<Rightarrow> TcpSocket \<Rightarrow> 'w \<Rightarrow> ((bool \<times> nat) \<times> TcpSocket \<times> 'w) option" where
  "send_loop os buffer timeout startTime bytesWritten s w =
     (let (numBytes, w1) = sys_send os (s_fd s) (drop bytesWritten buffer) w;
          s1 = SetLastError os w1 s;
          written = bytesWritten + (case numBytes of None \<Rightarrow> 0 | Some k \<Rightarrow> k)
      in if numBytes = None \<and> FatalError (s_err s1) then Some ((False, written), s1, w1)
         else if numBytes \<noteq> None \<and> written \<ge> length buffer then Some ((True, written), s1, w1)
         else let (currentTime, w2) = sys_gettimeofday os w1;
                  timeLeft = timeout - MilliTimeDiff currentTime startTime
              in if timeLeft \<le> 0 then Some ((False, written), s1 \<lparr> s_err := EAGAIN \<rparr>, w2)
                 else let (writable, w3) = WaitWritable os timeLeft s1 w2
                      in if \<not> writable then Some ((False, written), s1 \<lparr> s_err := EAGAIN \<rparr>, w3)
                         else send_loop os buffer timeout startTime written s1 w3)"

definition Send :: "'w os \<Rightarrow> bytes \<Rightarrow> int \<Rightarrow> TcpSocket \<Rightarrow> 'w \<Rightarrow> ((bool \<times> nat) \<times> TcpSocket \<times> 'w) option" where
  "Send os buffer timeout s w =
     (let (startTime, w1) = sys_gettimeofday os w in send_loop os buffer (timeout_of timeout s) startTime 0 s w1)"

partial_function (option) receive_loop ::
    "'w os \<Rightarrow> nat \<Rightarrow> int \<Rightarrow> timeval \<Rightarrow> bytes \<Rightarrow> TcpSocket \<Rightarrow> 'w \<Rightarrow> ((bool \<times> bytes \<times> bool) \<times> TcpSocket \<times> 'w) option" where
  "receive_loop os maxLength timeout startTime buffer s w =
     (if length buffer < maxLength then
        let (received, w1) = sys_recv os (s_fd s) (maxLength - length buffer) w;
            s1 = SetLastError os w1 s;
            eof = (received = Some [] \<or> received = None \<and> ConnectionResetError (s_err s1));
            buffer1 = buffer @ (case received of None \<Rightarrow> [] | Some xs \<Rightarrow> xs)
        in if eof \<or> received = None \<and> FatalError (s_err s1) then Some ((False, buffer1, eof), s1, w1)
           else if received \<noteq> None \<and> length buffer1 \<ge> maxLength then Some ((True, buffer1, False), s1, w1)
           else let (currentTime, w2) = sys_gettimeofday os w1;
                    timeLeft = timeout - MilliTimeDiff currentTime startTime
                in if timeLeft \<le> 0 then Some ((True, buffer1, False), s1 \<lparr> s_err := EAGAIN \<rparr>, w2)
                   else let (readable, w3) = WaitReadable os timeLeft s1 w2
                        in if \<not> readable then Some ((True, buffer1, False), s1 \<lparr> s_err := EAGAIN \<rparr>, w3)
                           else receive_loop os maxLength timeout startTime buffer1 s1 w3
      else Some ((True, buffer, False), s \<lparr> s_err := EAGAIN \<rparr>, w))"

definition Receive ::
    "'w os \<Rightarrow> nat \<Rightarrow> int \<Rightarrow> TcpSocket \<Rightarrow> 'w \<Rightarrow> ((bool \<times> bytes \<times> bool) \<times> TcpSocket \<times> 'w) option" where
  "Receive os maxLength timeout s w =
     (let (startTime, w1) = sys_gettimeofday os w
      in receive_loop os maxLength (timeout_of timeout s) startTime [] s w1)"

text \<open>What \<^verbatim>\<open>Receive\<close> leaves in the buffer: behind what it received, it stores a null.\<close>

definition stored :: "bytes \<Rightarrow> bytes" where "stored xs = (if xs = [] then [] else xs @ [0])"

definition IsConnected :: "'w os \<Rightarrow> int \<Rightarrow> TcpSocket \<Rightarrow> 'w \<Rightarrow> bool \<times> 'w" where
  "IsConnected os timeout s w =
     (if s_fd s < 0 \<or> \<not> s_connected s then (False, w)
      else let ((selectResult, _), w1) = sys_select os [] [s_fd s] (Some (milli_timeval (timeout_of timeout s))) w
           in if selectResult \<le> 0 then (False, w1)
              else let ((result, optVal), w2) = sys_so_error os (s_fd s) w1
                   in (\<not> (result < 0 \<or> optVal \<noteq> 0), w2))"

definition Listen :: "'w os \<Rightarrow> int \<Rightarrow> TcpSocket \<Rightarrow> 'w \<Rightarrow> int \<times> 'w" where
  "Listen os backlog s w = sys_listen os (s_fd s) backlog w"

definition Accept :: "'w os \<Rightarrow> TcpSocket \<Rightarrow> 'w \<Rightarrow> int \<times> TcpSocket \<times> 'w" where
  "Accept os s w = (let (result, w') = sys_accept os (s_fd s) w in (result, SetLastError os w' s, w'))"

definition Connect :: "'w os \<Rightarrow> bytes \<Rightarrow> int \<Rightarrow> TcpSocket \<Rightarrow> 'w \<Rightarrow> int \<times> TcpSocket \<times> 'w" where
  "Connect os ipAddress port s w =
     (let (s1, w1) = (if s_fd s < 0 then snd (TcpSocket_Create os s w) else (s, w));
          (result, w2) = sys_connect os (s_fd s1) ipAddress port w1
      in (result, (SetLastError os w2 s1) \<lparr> s_connected := True \<rparr>, w2))"

section \<open>UdpSocket\<close>

definition UdpSocket_Create :: "'w os \<Rightarrow> Socket \<Rightarrow> 'w \<Rightarrow> int \<times> Socket \<times> 'w" where
  "UdpSocket_Create os s w =
     (let (s1, w1) = Socket_Close os s w; (fd, w2) = sys_socket os SOCK_DGRAM w1
      in (fd, s1 \<lparr> s_fd := fd \<rparr>, w2))"

definition UdpSocket_Send ::
    "'w os \<Rightarrow> bytes \<Rightarrow> bytes \<Rightarrow> int \<Rightarrow> Socket \<Rightarrow> 'w \<Rightarrow> (bool \<times> nat) \<times> Socket \<times> 'w" where
  "UdpSocket_Send os buffer ipAddress port s w =
     (let (_, w0) = sys_gettimeofday os w;
          (numBytes, w1) = sys_sendto os (s_fd s) buffer ipAddress port w0;
          s1 = SetLastError os w1 s
      in case numBytes of
           None \<Rightarrow> if FatalError (s_err s1) then ((False, 0), s1, w1) else ((False, 0), s1 \<lparr> s_err := EAGAIN \<rparr>, w1)
         | Some k \<Rightarrow> if k \<ge> length buffer then ((True, k), s1, w1) else ((False, k), s1 \<lparr> s_err := EAGAIN \<rparr>, w1))"

definition UdpSocket_Receive ::
    "'w os \<Rightarrow> nat \<Rightarrow> Socket \<Rightarrow> 'w \<Rightarrow> (bool \<times> bytes \<times> bool \<times> bytes \<times> int) \<times> Socket \<times> 'w" where
  "UdpSocket_Receive os maxLength s w =
     (let ((received, ipAddress, port), w1) = sys_recvfrom os (s_fd s) maxLength w;
          s1 = SetLastError os w1 s;
          data = (case received of None \<Rightarrow> [] | Some xs \<Rightarrow> xs);
          eof = (received = Some [])
      in if data = [] \<and> FatalError (s_err s1) then ((False, data, eof, ipAddress, port), s1, w1)
         else if data \<noteq> [] \<and> length data \<ge> maxLength then ((True, data, eof, ipAddress, port), s1, w1)
         else ((True, data, eof, ipAddress, port), s1 \<lparr> s_err := EAGAIN \<rparr>, w1))"

section \<open>What is relied on of the system\<close>

text \<open>
  A log of one connection: the bytes that were received and sent on it so far, and what was
  executed for it. \<open>stream_log os fd net\<close>: the calls of the system keep the log \<open>net\<close> of \<open>fd\<close>, that is,
  \<^verbatim>\<open>send\<close> sends the beginning of what it is given, \<^verbatim>\<open>recv\<close> gives at most as many bytes as asked
  for, and the other calls transfer nothing. \<open>clock_runs\<close>: the clock is not set back during a
  transfer. \<open>alloc_ok\<close>: an allocation has the length asked for.
\<close>

record netlog =
  received :: bytes
  sent :: bytes
  executed :: "(bytes \<times> bytes option) list"

definition log_sent :: "bytes \<Rightarrow> netlog \<Rightarrow> netlog" where
  "log_sent xs l = l \<lparr> sent := sent l @ xs \<rparr>"

definition log_received :: "bytes \<Rightarrow> netlog \<Rightarrow> netlog" where
  "log_received xs l = l \<lparr> received := received l @ xs \<rparr>"

lemma log_simps [simp]:
  "received (log_sent xs l) = received l" "sent (log_sent xs l) = sent l @ xs"
  "executed (log_sent xs l) = executed l" "received (log_received xs l) = received l @ xs"
  "sent (log_received xs l) = sent l" "executed (log_received xs l) = executed l"
  "log_sent [] l = l" "log_received [] l = l"
  by (simp_all add: log_sent_def log_received_def)

lemma log_twice:
  "log_sent ys (log_sent xs l) = log_sent (xs @ ys) l"
  "log_received ys (log_received xs l) = log_received (xs @ ys) l"
  by (simp_all add: log_sent_def log_received_def)

definition stream_log :: "'w os \<Rightarrow> int \<Rightarrow> ('w \<Rightarrow> netlog) \<Rightarrow> bool" where
  "stream_log os fd net \<longleftrightarrow>
     (\<forall>xs w k w'. sys_send os fd xs w = (Some k, w') \<longrightarrow> k \<le> length xs \<and> net w' = log_sent (take k xs) (net w))
   \<and> (\<forall>xs w w'. sys_send os fd xs w = (None, w') \<longrightarrow> net w' = net w)
   \<and> (\<forall>n w xs w'. sys_recv os fd n w = (Some xs, w') \<longrightarrow> length xs \<le> n \<and> net w' = log_received xs (net w))
   \<and> (\<forall>n w w'. sys_recv os fd n w = (None, w') \<longrightarrow> net w' = net w)
   \<and> (\<forall>w t w'. sys_gettimeofday os w = (t, w') \<longrightarrow> net w' = net w)
   \<and> (\<forall>w t w'. sys_time os w = (t, w') \<longrightarrow> net w' = net w)
   \<and> (\<forall>rs ws tv w r w'. sys_select os rs ws tv w = (r, w') \<longrightarrow> net w' = net w)
   \<and> (\<forall>n w r w'. sys_malloc os n w = (r, w') \<longrightarrow> net w' = net w)"

definition alloc_ok :: "'w os \<Rightarrow> bool" where
  "alloc_ok os \<longleftrightarrow> (\<forall>n w xs w'. sys_malloc os n w = (Some xs, w') \<longrightarrow> length xs = n)"

definition clock_runs :: "'w os \<Rightarrow> bool" where
  "clock_runs os \<longleftrightarrow>
     (\<forall>w t w1 fd xs n w2 t' w3. sys_gettimeofday os w = (t, w1) \<and> sys_send os fd xs w1 = (n, w2) \<and>
        sys_gettimeofday os w2 = (t', w3) \<longrightarrow> 0 \<le> MilliTimeDiff t' t)
   \<and> (\<forall>w t w1 fd m r w2 t' w3. sys_gettimeofday os w = (t, w1) \<and> sys_recv os fd m w1 = (r, w2) \<and>
        sys_gettimeofday os w2 = (t', w3) \<longrightarrow> 0 \<le> MilliTimeDiff t' t)"

lemma stream_logD:
  assumes "stream_log os fd net"
  shows "sys_send os fd xs w = (Some k, w') \<Longrightarrow> k \<le> length xs \<and> net w' = log_sent (take k xs) (net w)"
    and "sys_send os fd xs w = (None, w') \<Longrightarrow> net w' = net w"
    and "sys_recv os fd n w = (Some ys, w') \<Longrightarrow> length ys \<le> n \<and> net w' = log_received ys (net w)"
    and "sys_recv os fd n w = (None, w') \<Longrightarrow> net w' = net w"
    and "sys_gettimeofday os w = (t, w') \<Longrightarrow> net w' = net w"
    and "sys_time os w = (u, w') \<Longrightarrow> net w' = net w"
    and "sys_select os rs ws tv w = (r, w') \<Longrightarrow> net w' = net w"
    and "sys_malloc os n w = (a, w') \<Longrightarrow> net w' = net w"
  using assms unfolding stream_log_def by - metis+

section \<open>Sending and receiving\<close>

lemma SetLastError_simps [simp]:
  "s_fd (SetLastError os w s) = s_fd s" "s_timeout (SetLastError os w s) = s_timeout s"
  by (simp_all add: SetLastError_def)

lemma Wait_log:
  assumes "stream_log os fd net"
  shows "WaitWritable os timeout s w = (b, w') \<Longrightarrow> net w' = net w"
    and "WaitReadable os timeout s w = (b, w') \<Longrightarrow> net w' = net w"
  using stream_logD(7) [OF assms] by (auto simp: WaitWritable_def WaitReadable_def split: if_splits prod.splits)

text \<open>One turn of the loop of \<^verbatim>\<open>Send\<close> before the clock is consulted.\<close>

lemma send_log:
  assumes "stream_log os fd net" "sys_send os fd (drop m buffer) w = (r, w')" "m \<le> length buffer"
  shows "m + (case r of None \<Rightarrow> 0 | Some k \<Rightarrow> k) \<le> length buffer
    \<and> net w' = log_sent (take (case r of None \<Rightarrow> 0 | Some k \<Rightarrow> k) (drop m buffer)) (net w)"
  using stream_logD(1,2) [OF assms(1)] assms(2,3) by (cases r) fastforce+

lemma recv_log:
  assumes "stream_log os fd net" "sys_recv os fd n w = (r, w')"
  shows "length (case r of None \<Rightarrow> [] | Some xs \<Rightarrow> xs) \<le> n
    \<and> net w' = log_received (case r of None \<Rightarrow> [] | Some xs \<Rightarrow> xs) (net w)"
  using stream_logD(3,4) [OF assms(1)] assms(2) by (cases r) fastforce+

lemma take_drop_add: "take m xs @ take k (drop m xs) = take (m + k) xs"
  by (simp add: take_add)


text \<open>
  The contract of \<^verbatim>\<open>Send\<close>, started with the first \<open>m\<close> bytes of the buffer already sent: a further part of
  the buffer has been sent, and all of it when the answer is true.
\<close>

definition send_post :: "bytes \<Rightarrow> nat \<Rightarrow> netlog \<Rightarrow> TcpSocket \<Rightarrow> (bool \<times> nat) \<Rightarrow> TcpSocket \<Rightarrow> netlog \<Rightarrow> bool" where
  "send_post buffer m l s r s' l' \<longleftrightarrow> m \<le> snd r \<and> snd r \<le> length buffer \<and> (fst r \<longrightarrow> snd r = length buffer)
     \<and> l' = log_sent (take (snd r - m) (drop m buffer)) l \<and> s_fd s' = s_fd s \<and> s_timeout s' = s_timeout s"

lemma send_post_step:
  assumes "send_post buffer (m + k) (log_sent (take k (drop m buffer)) l) s r s' l'"
  shows "send_post buffer m l s r s' l'"
proof -
  have "take (snd r - m) (drop m buffer) = take k (drop m buffer) @ take (snd r - (m + k)) (drop (m + k) buffer)"
    using assms take_add [of k "snd r - (m + k)" "drop m buffer"] by (simp add: send_post_def add.commute)
  with assms show ?thesis by (simp add: send_post_def log_twice)
qed

lemma send_loop_post:
  assumes "send_loop os buffer timeout startTime m s w = Some r" "stream_log os (s_fd s) net" "m \<le> length buffer"
  shows "send_post buffer m (net w) s (fst r) (fst (snd r)) (net (snd (snd r)))"
  using assms
proof (induction rule: send_loop.raw_induct [rotated 1, consumes 1, case_names 1])
  case (1 loop os buffer timeout startTime m s w r)
  obtain n w1 where n: "sys_send os (s_fd s) (drop m buffer) w = (n, w1)" by fastforce
  let ?k = "case n of None \<Rightarrow> 0 | Some k \<Rightarrow> k"
  note log = send_log [OF 1(3) n 1(4)]
  show ?case
  proof (rule send_post_step [of _ _ ?k], unfold conjunct2 [OF log, symmetric])
    obtain t w2 where t: "sys_gettimeofday os w1 = (t, w2)" by fastforce
    obtain b w3 where b: "WaitWritable os (timeout - MilliTimeDiff t startTime) (SetLastError os w1 s) w2 = (b, w3)" by fastforce
    note same = stream_logD(5) [OF 1(3) t] Wait_log(1) [OF 1(3) b]
    show "send_post buffer (m + ?k) (net w1) s (fst r) (fst (snd r)) (net (snd (snd r)))"
      using 1(2) log same 1(1) [of os buffer timeout startTime "m + ?k" "SetLastError os w1 s" w3 r] 1(3)
      by (auto simp: n t b Let_def send_post_def split: if_splits)
  qed
qed

lemma Send_post:
  assumes "Send os buffer timeout s w = Some ((ok, n), s', w')" "stream_log os (s_fd s) net"
  shows "n \<le> length buffer" "ok \<Longrightarrow> n = length buffer" "net w' = log_sent (take n buffer) (net w)"
    "s_fd s' = s_fd s" "s_timeout s' = s_timeout s"
proof -
  obtain t w1 where t: "sys_gettimeofday os w = (t, w1)" by fastforce
  have "send_post buffer 0 (net w1) s (ok, n) s' (net w')"
    using send_loop_post [OF _ assms(2), of buffer "timeout_of timeout s" t 0 w1] assms(1)
    by (fastforce simp: Send_def t)
  then show "n \<le> length buffer" "ok \<Longrightarrow> n = length buffer" "net w' = log_sent (take n buffer) (net w)"
    "s_fd s' = s_fd s" "s_timeout s' = s_timeout s"
    using stream_logD(5) [OF assms(2) t] by (simp_all add: send_post_def)
qed

text \<open>
  The contract of \<^verbatim>\<open>Receive\<close>, started with \<open>buf\<close> already in the buffer: what was received is
  appended, within the given length.
\<close>

definition receive_post ::
    "nat \<Rightarrow> bytes \<Rightarrow> netlog \<Rightarrow> TcpSocket \<Rightarrow> (bool \<times> bytes \<times> bool) \<Rightarrow> TcpSocket \<Rightarrow> netlog \<Rightarrow> bool" where
  "receive_post maxLength buf l s r s' l' \<longleftrightarrow>
     (case r of (ok, data, eof) \<Rightarrow> \<exists>xs. data = buf @ xs \<and> length data \<le> maxLength \<and> l' = log_received xs l
        \<and> (ok \<longrightarrow> \<not> eof) \<and> s_fd s' = s_fd s \<and> s_timeout s' = s_timeout s)"

lemma receive_post_step:
  assumes "receive_post maxLength (buf @ xs) (log_received xs l) s r s' l'"
  shows "receive_post maxLength buf l s r s' l'"
  using assms by (fastforce simp: receive_post_def log_twice)

lemma receive_loop_post:
  assumes "receive_loop os maxLength timeout startTime buf s w = Some r" "stream_log os (s_fd s) net"
    "length buf \<le> maxLength"
  shows "receive_post maxLength buf (net w) s (fst r) (fst (snd r)) (net (snd (snd r)))"
  using assms
proof (induction rule: receive_loop.raw_induct [rotated 1, consumes 1, case_names 1])
  case (1 loop os maxLength timeout startTime buf s w r)
  show ?case
  proof (cases "length buf < maxLength")
    case False
    with 1(2,4) show ?thesis by (auto simp: receive_post_def)
  next
    case True
    obtain n w1 where n: "sys_recv os (s_fd s) (maxLength - length buf) w = (n, w1)" by fastforce
    let ?xs = "case n of None \<Rightarrow> [] | Some xs \<Rightarrow> xs"
    note log = recv_log [OF 1(3) n]
    show ?thesis
    proof (rule receive_post_step [of _ _ ?xs], unfold conjunct2 [OF log, symmetric])
      obtain t w2 where t: "sys_gettimeofday os w1 = (t, w2)" by fastforce
      obtain b w3 where b: "WaitReadable os (timeout - MilliTimeDiff t startTime) (SetLastError os w1 s) w2 = (b, w3)" by fastforce
      note same = stream_logD(5) [OF 1(3) t] Wait_log(2) [OF 1(3) b]
      show "receive_post maxLength (buf @ ?xs) (net w1) s (fst r) (fst (snd r)) (net (snd (snd r)))"
        using 1(2) log same 1(1) [of os maxLength timeout startTime "buf @ ?xs" "SetLastError os w1 s" w3 r] 1(3) True
        by (auto simp: n t b Let_def receive_post_def split: if_splits)
    qed
  qed
qed

lemma Receive_post:
  assumes "Receive os maxLength timeout s w = Some ((ok, data, eof), s', w')" "stream_log os (s_fd s) net"
  shows "length data \<le> maxLength" "net w' = log_received data (net w)" "ok \<Longrightarrow> \<not> eof"
    "s_fd s' = s_fd s" "s_timeout s' = s_timeout s"
proof -
  obtain t w1 where t: "sys_gettimeofday os w = (t, w1)" by fastforce
  have "receive_post maxLength [] (net w1) s (ok, data, eof) s' (net w')"
    using receive_loop_post [OF _ assms(2), of maxLength "timeout_of timeout s" t "[]" w1] assms(1)
    by (fastforce simp: Receive_def t)
  then show "length data \<le> maxLength" "net w' = log_received data (net w)" "ok \<Longrightarrow> \<not> eof"
    "s_fd s' = s_fd s" "s_timeout s' = s_timeout s"
    using stream_logD(5) [OF assms(2) t] by (auto simp: receive_post_def)
qed

text \<open>
  With the timeout 0, which a socket has unless \<^verbatim>\<open>SetTimeout\<close> is called, there is one transfer: both
  functions return, and what is not transferred at once by \<^verbatim>\<open>Send\<close> makes it answer false.
\<close>

lemma Send_returns:
  assumes "clock_runs os" "timeout_of timeout s = 0"
  shows "\<exists>r. Send os buffer timeout s w = Some r"
proof -
  obtain t w1 where t: "sys_gettimeofday os w = (t, w1)" by fastforce
  obtain n w2 where n: "sys_send os (s_fd s) buffer w1 = (n, w2)" by fastforce
  obtain t' w3 where t': "sys_gettimeofday os w2 = (t', w3)" by fastforce
  have "0 \<le> MilliTimeDiff t' t" using assms(1) t n t' unfolding clock_runs_def by blast
  then show ?thesis by (simp add: Send_def t assms(2)) (subst send_loop.simps, auto simp: n t' Let_def)
qed

lemma Receive_returns:
  assumes "clock_runs os" "timeout_of timeout s = 0"
  shows "\<exists>r. Receive os maxLength timeout s w = Some r"
proof -
  obtain t w1 where t: "sys_gettimeofday os w = (t, w1)" by fastforce
  obtain n w2 where n: "sys_recv os (s_fd s) maxLength w1 = (n, w2)" by fastforce
  obtain t' w3 where t': "sys_gettimeofday os w2 = (t', w3)" by fastforce
  have "0 \<le> MilliTimeDiff t' t" using assms(1) t n t' unfolding clock_runs_def by blast
  then show ?thesis by (simp add: Receive_def t assms(2)) (subst receive_loop.simps, auto simp: n t' Let_def)
qed

end
