(* ===== verification/AnyRpc_Connection.thy ===== *)
theory AnyRpc_Connection
  imports AnyRpc_Socket AnyRpc_Http AnyRpc_Stream AnyRpc_Method
begin

text \<open>
  connection.h and connection.cpp: a server connection is a state machine over a socket. It reads a
  header into a fixed buffer, then the body of the request, which is left in the buffer or, when it
  does not fit, goes to an allocated block; it calls the handler and writes header and body of the
  response. \<^verbatim>\<open>HttpConnection\<close> and \<^verbatim>\<open>TcpConnection\<close> (netstrings) supply the virtual functions.

  Every store into the buffer is checked, \<open>Undefined\<close> is a store out of bounds; \<open>None\<close> is a call that
  does not return. Main results: no store is out of bounds; a TCP connection executes exactly the
  messages of the byte stream it receives, in order, however they are cut into segments, and sends
  back exactly their responses.
\<close>

section \<open>The handlers\<close>

text \<open>
  The type \<^verbatim>\<open>RpcHandler\<close>: the buffer that starts with the request, its length, the response stream,
  the manager and the world. In-place parsing changes the request only within its length.
\<close>

type_synonym ('m, 'w) rpc_handler =
  "bytes \<Rightarrow> nat \<Rightarrow> wss \<Rightarrow> 'm \<Rightarrow> 'w \<Rightarrow> (exn + bool \<times> wss) \<times> 'm \<times> 'w"

record ('m, 'w) RpcContentHandler =
  rch_handler :: "('m, 'w) rpc_handler option"
  rch_requestContentType :: bytes
  rch_responseContentType :: bytes
  rch_matchAnyContentType :: bool

definition RpcContentHandler_default :: "('m, 'w) RpcContentHandler" where
  "RpcContentHandler_default = \<lparr> rch_handler = None, rch_requestContentType = [], rch_responseContentType = [],
     rch_matchAnyContentType = True \<rparr>"

definition RpcContentHandler_new :: "('m, 'w) rpc_handler option \<Rightarrow> bytes \<Rightarrow> bytes \<Rightarrow> ('m, 'w) RpcContentHandler" where
  "RpcContentHandler_new handler requestContentType responseContentType =
     \<lparr> rch_handler = handler, rch_requestContentType = requestContentType,
       rch_responseContentType = responseContentType, rch_matchAnyContentType = (requestContentType = []) \<rparr>"

definition SetHandler ::
    "('m, 'w) rpc_handler option \<Rightarrow> bytes \<Rightarrow> bytes \<Rightarrow> ('m, 'w) RpcContentHandler \<Rightarrow> ('m, 'w) RpcContentHandler" where
  "SetHandler handler requestContentType responseContentType h =
     h \<lparr> rch_handler := handler, rch_requestContentType := requestContentType,
         rch_responseContentType := responseContentType \<rparr>"

definition HandleRequest :: "('m, 'w) RpcContentHandler \<Rightarrow> ('m, 'w) rpc_handler" where
  "HandleRequest h request len response m w =
     (case rch_handler h of
        None \<Rightarrow> (Inl (Fault (- 32417) (lit ''The RPC handler was not defined'')), m, w)
      | Some handler \<Rightarrow> handler request len response m w)"

text \<open>\<^verbatim>\<open>std::string::find\<close>, compared with \<^verbatim>\<open>npos\<close>; the build has no regular expressions.\<close>

fun contains :: "bytes \<Rightarrow> bytes \<Rightarrow> bool" where
  "contains pat [] \<longleftrightarrow> pat = []"
| "contains pat (c # cs) \<longleftrightarrow> take (length pat) (c # cs) = pat \<or> contains pat cs"

definition CanProcessContentType :: "('m, 'w) RpcContentHandler \<Rightarrow> bytes \<Rightarrow> bool" where
  "CanProcessContentType h ctype =
     (if rch_handler h = None then False
      else if rch_matchAnyContentType h then True
      else contains (rch_requestContentType h) ctype)"

section \<open>Connection\<close>

datatype ConnectionState = READ_HEADER | READ_REQUEST | EXECUTE_REQUEST | WRITE_RESPONSE | CLOSE_CONNECTION

text \<open>\<^verbatim>\<open>request_\<close>: null, a position in the buffer or an allocated block.\<close>

datatype request_ptr = NoRequest | InBuffer nat | Allocated bytes

record Connection =
  c_socket :: TcpSocket
  c_state :: ConnectionState
  c_lastTransactionTime :: int
  c_active :: bool
  c_buffer :: bytes
  c_bufferLength :: nat
  c_contentLength :: nat
  c_keepAlive :: bool
  c_request :: request_ptr
  c_contentAvail :: nat
  c_requestAllocated :: bool
  c_header :: wss
  c_headerBytesWritten :: nat
  c_response :: wss
  c_resultBytesWritten :: nat
  c_threadRunning :: bool

definition MaxBufferLength :: nat where "MaxBufferLength = 2048"
definition MaxContentLength :: nat where "MaxContentLength = 1000000"

text \<open>
  The constructor; the buffer has \<^verbatim>\<open>MaxBufferLength + 1\<close> bytes, whose first contents are what the
  memory holds. The results of the two socket options are only logged.
\<close>

definition Connection_new :: "'w os \<Rightarrow> bytes \<Rightarrow> int \<Rightarrow> 'w \<Rightarrow> Connection \<times> 'w" where
  "Connection_new os memory fd w =
     (let (now, w1) = sys_time os w;
          (s, w2) = SetFileDescriptor os fd TcpSocket_new w1;
          (_, w3) = SetNonBlocking os s w2;
          (_, w4) = SetTcpNoDelay os 1 s w3
      in (\<lparr> c_socket = s, c_state = READ_HEADER, c_lastTransactionTime = now, c_active = True, c_buffer = memory,
            c_bufferLength = 0, c_contentLength = 0, c_keepAlive = False, c_request = NoRequest, c_contentAvail = 0,
            c_requestAllocated = False, c_header = wss_new MaxBufferSize, c_headerBytesWritten = 0,
            c_response = wss_new MaxBufferSize, c_resultBytesWritten = 0, c_threadRunning = False \<rparr>, w4))"

definition SetCloseState :: "'a Connection_scheme \<Rightarrow> 'a Connection_scheme" where
  "SetCloseState c = c \<lparr> c_state := CLOSE_CONNECTION \<rparr>"

definition SetActive :: "bool \<Rightarrow> 'a Connection_scheme \<Rightarrow> 'a Connection_scheme" where
  "SetActive active c = c \<lparr> c_active := active \<rparr>"

definition WaitForReadability :: "'a Connection_scheme \<Rightarrow> bool" where
  "WaitForReadability c \<longleftrightarrow> c_active c \<and> (c_state c = READ_HEADER \<or> c_state c = READ_REQUEST)"

definition WaitForWritability :: "'a Connection_scheme \<Rightarrow> bool" where
  "WaitForWritability c \<longleftrightarrow> c_active c \<and> c_state c = WRITE_RESPONSE"

definition CheckExecuteState :: "'a Connection_scheme \<Rightarrow> bool" where
  "CheckExecuteState c \<longleftrightarrow> c_state c = EXECUTE_REQUEST"

definition CheckClose :: "'a Connection_scheme \<Rightarrow> bool" where
  "CheckClose c \<longleftrightarrow> c_state c = CLOSE_CONNECTION"

definition ForcedDisconnectAllowed :: "'a Connection_scheme \<Rightarrow> bool" where
  "ForcedDisconnectAllowed c \<longleftrightarrow> c_bufferLength c = 0"

definition GetLastTransactionTime :: "'a Connection_scheme \<Rightarrow> int" where
  "GetLastTransactionTime c = c_lastTransactionTime c"

text \<open>Memory: a block of bytes and a store of some bytes at a position in it.\<close>

definition store :: "nat \<Rightarrow> bytes \<Rightarrow> bytes \<Rightarrow> bytes option" where
  "store i xs mem = (if i + length xs \<le> length mem then Some (take i mem @ xs @ drop (i + length xs) mem) else None)"

definition request_memory :: "'a Connection_scheme \<Rightarrow> bytes" where
  "request_memory c = (case c_request c of NoRequest \<Rightarrow> [] | InBuffer p \<Rightarrow> drop p (c_buffer c) | Allocated mem \<Rightarrow> mem)"

definition store_request :: "nat \<Rightarrow> bytes \<Rightarrow> 'a Connection_scheme \<Rightarrow> 'a Connection_scheme option" where
  "store_request i xs c =
     (case c_request c of
        NoRequest \<Rightarrow> None
      | InBuffer p \<Rightarrow> map_option (\<lambda>mem. c \<lparr> c_buffer := mem \<rparr>) (store (p + i) xs (c_buffer c))
      | Allocated mem \<Rightarrow> map_option (\<lambda>mem'. c \<lparr> c_request := Allocated mem' \<rparr>) (store i xs mem))"

definition keep_buffer :: "bool \<Rightarrow> 'a Connection_scheme \<Rightarrow> 'a Connection_scheme" where
  "keep_buffer preserveBufferData c =
     (if preserveBufferData \<and> \<not> c_requestAllocated c then
        if c_request c \<noteq> NoRequest then
          if c_contentAvail c > c_contentLength c then
            let dataRemaining = c_contentAvail c - c_contentLength c;
                rest = take dataRemaining (drop (c_contentLength c) (request_memory c))
            in c \<lparr> c_buffer := rest @ drop dataRemaining (c_buffer c), c_bufferLength := dataRemaining \<rparr>
          else c \<lparr> c_bufferLength := 0 \<rparr>
        else c
      else c \<lparr> c_bufferLength := 0 \<rparr>)"

definition Connection_Initialize :: "bool \<Rightarrow> 'a Connection_scheme \<Rightarrow> 'a Connection_scheme" where
  "Connection_Initialize preserveBufferData c =
     (let c1 = keep_buffer preserveBufferData c
      in c1 \<lparr> c_contentLength := 0, c_requestAllocated := False, c_request := NoRequest,
              c_header := wss_Clear (c_header c1), c_response := wss_Clear (c_response c1),
              c_contentAvail := 0, c_headerBytesWritten := 0, c_resultBytesWritten := 0 \<rparr>)"

record ('c, 'm, 'w) connection_virtuals =
  v_Initialize :: "bool \<Rightarrow> 'c \<Rightarrow> 'c"
  v_ReadHeader :: "'c \<Rightarrow> 'w \<Rightarrow> ((exn + bool) \<times> 'c \<times> 'w) option"
  v_ExecuteRequest :: "'c \<Rightarrow> 'm \<Rightarrow> 'w \<Rightarrow> ((exn + bool) \<times> 'c \<times> 'm \<times> 'w) option"

text \<open>\<^verbatim>\<open>socket_.Receive\<close> into the request at an offset.\<close>

definition request_complete :: "'a Connection_scheme \<Rightarrow> 'w \<Rightarrow> ((exn + bool) \<times> 'a Connection_scheme \<times> 'w) option" where
  "request_complete c w =
     (case store_request (c_contentAvail c) [0] c of
        None \<Rightarrow> Some (Inl Undefined, c, w)
      | Some c' \<Rightarrow> Some (Inr True, c' \<lparr> c_state := EXECUTE_REQUEST \<rparr>, w))"

definition ReadRequest ::
    "'w os \<Rightarrow> ('a Connection_scheme, 'm, 'w) connection_virtuals \<Rightarrow> 'a Connection_scheme \<Rightarrow> 'w \<Rightarrow>
      ((exn + bool) \<times> 'a Connection_scheme \<times> 'w) option" where
  "ReadRequest os v c w =
     (if c_contentAvail c < c_contentLength c then
        (case Receive os (c_contentLength c - c_contentAvail c) (- 1) (c_socket c) w of
           None \<Rightarrow> None
         | Some ((ok, data, eof), s, w1) \<Rightarrow>
             (case store_request (c_contentAvail c) (stored data) (c \<lparr> c_socket := s \<rparr>) of
                None \<Rightarrow> Some (Inl Undefined, c, w1)
              | Some c1 \<Rightarrow>
                  if \<not> ok then Some (Inr False, v_Initialize v False c1, w1)
                  else
                    let c2 = c1 \<lparr> c_contentAvail := c_contentAvail c1 + length data \<rparr>
                    in if c_contentAvail c2 < c_contentLength c2 then
                         if eof then Some (Inr False, v_Initialize v False c2, w1) else Some (Inr True, c2, w1)
                       else request_complete c2 w1))
      else request_complete c w)"

text \<open>The first part of both \<^verbatim>\<open>ReadHeader\<close>: whether the receive succeeded, and the end of the stream.\<close>

definition receive_buffer ::
    "'w os \<Rightarrow> (bool \<Rightarrow> 'a Connection_scheme \<Rightarrow> 'a Connection_scheme) \<Rightarrow> 'a Connection_scheme \<Rightarrow> 'w \<Rightarrow>
      ((exn + bool \<times> bool) \<times> 'a Connection_scheme \<times> 'w) option" where
  "receive_buffer os ini c w =
     (case Receive os (MaxBufferLength - c_bufferLength c) (- 1) (c_socket c) w of
        None \<Rightarrow> None
      | Some ((ok, data, eof), s, w1) \<Rightarrow>
          (case store (c_bufferLength c) (stored data) (c_buffer c) of
             None \<Rightarrow> Some (Inl Undefined, c, w1)
           | Some mem \<Rightarrow>
               let c1 = c \<lparr> c_socket := s, c_buffer := mem \<rparr>
               in if \<not> ok then Some (Inr (False, eof), ini False c1, w1)
                  else Some (Inr (True, eof), c1 \<lparr> c_bufferLength := c_bufferLength c1 + length data \<rparr>, w1)))"

text \<open>
  The end of both: where the body of the request goes. \<open>zero\<close>: \<^verbatim>\<open>calloc\<close> rather than \<^verbatim>\<open>malloc\<close>.
\<close>

definition place_request ::
    "'w os \<Rightarrow> bool \<Rightarrow> nat \<Rightarrow> 'a Connection_scheme \<Rightarrow> 'w \<Rightarrow> ('a Connection_scheme option) \<times> 'w" where
  "place_request os zero bodyStartPos c w =
     (if c_contentLength c > MaxBufferLength - bodyStartPos then
        (case sys_malloc os (c_contentLength c + 1) w of
           (None, w') \<Rightarrow> (None, w')
         | (Some block, w') \<Rightarrow>
             let block' = (if zero then replicate (c_contentLength c + 1) 0 else block);
                 body = take (c_contentAvail c) (drop bodyStartPos (c_buffer c))
             in (Some (c \<lparr> c_request := Allocated (body @ drop (length body) block'), c_requestAllocated := True \<rparr>), w'))
      else (Some (c \<lparr> c_requestAllocated := False, c_request := InBuffer bodyStartPos \<rparr>), w))"

definition size_of_int :: "32 word \<Rightarrow> nat" where "size_of_int n = unat (scast n :: 64 word)"

text \<open>
  The two loops of \<^verbatim>\<open>WriteResponse\<close>. The position in the header is taken from the bytes written of
  the body, which is 0 in this loop.
\<close>

datatype write_result = WriteDone | WriteWait | WriteFailed

definition segment_at :: "wss \<Rightarrow> nat \<Rightarrow> bytes" where
  "segment_at s offset = (case wss_GetBuffer s offset of None \<Rightarrow> [] | Some xs \<Rightarrow> xs)"

partial_function (option) write_header ::
    "'w os \<Rightarrow> 'a Connection_scheme \<Rightarrow> 'w \<Rightarrow> (write_result \<times> 'a Connection_scheme \<times> 'w) option" where
  "write_header os c w =
     (if c_headerBytesWritten c < wss_length (c_header c) then
        let buffer = segment_at (c_header c) (c_resultBytesWritten c)
        in (case Send os buffer (- 1) (c_socket c) w of
              None \<Rightarrow> None
            | Some ((ok, bytesWritten), s, w1) \<Rightarrow>
                let c1 = c \<lparr> c_socket := s \<rparr>;
                    c2 = c1 \<lparr> c_headerBytesWritten := c_headerBytesWritten c1 + bytesWritten \<rparr>
                in if \<not> ok then Some (WriteFailed, c1, w1)
                   else if length buffer < bytesWritten then Some (WriteWait, c2, w1)
                   else write_header os c2 w1)
      else Some (WriteDone, c, w))"

partial_function (option) write_body ::
    "'w os \<Rightarrow> 'a Connection_scheme \<Rightarrow> 'w \<Rightarrow> (write_result \<times> 'a Connection_scheme \<times> 'w) option" where
  "write_body os c w =
     (if c_resultBytesWritten c < wss_length (c_response c) then
        let buffer = segment_at (c_response c) (c_resultBytesWritten c)
        in (case Send os buffer (- 1) (c_socket c) w of
              None \<Rightarrow> None
            | Some ((ok, bytesWritten), s, w1) \<Rightarrow>
                let c1 = c \<lparr> c_socket := s \<rparr>;
                    c2 = c1 \<lparr> c_resultBytesWritten := c_resultBytesWritten c1 + bytesWritten \<rparr>
                in if \<not> ok then Some (WriteFailed, c1, w1)
                   else if length buffer < bytesWritten then Some (WriteWait, c2, w1)
                   else write_body os c2 w1)
      else Some (WriteDone, c, w))"

definition WriteResponse ::
    "'w os \<Rightarrow> ('a Connection_scheme, 'm, 'w) connection_virtuals \<Rightarrow> 'a Connection_scheme \<Rightarrow> 'w \<Rightarrow>
      (bool \<times> 'a Connection_scheme \<times> 'w) option" where
  "WriteResponse os v c w =
     (let (now, w0) = sys_time os w; c0 = c \<lparr> c_lastTransactionTime := now \<rparr>
      in case write_header os c0 w0 of
           None \<Rightarrow> None
         | Some (WriteFailed, c1, w1) \<Rightarrow> Some (False, v_Initialize v False c1, w1)
         | Some (WriteWait, c1, w1) \<Rightarrow> Some (True, c1, w1)
         | Some (WriteDone, c1, w1) \<Rightarrow>
             (case write_body os c1 w1 of
                None \<Rightarrow> None
              | Some (WriteFailed, c2, w2) \<Rightarrow> Some (False, v_Initialize v False c2, w2)
              | Some (WriteWait, c2, w2) \<Rightarrow> Some (True, c2, w2)
              | Some (WriteDone, c2, w2) \<Rightarrow>
                  let c3 = c2 \<lparr> c_state := READ_HEADER \<rparr>
                  in Some (c_keepAlive c3, v_Initialize v (c_keepAlive c3) c3, w2)))"

text \<open>
  \<^verbatim>\<open>Process\<close>. One pass of its loop goes through the four phases that the state allows; the answer is
  whether there is to be another pass (\<^verbatim>\<open>newMessage\<close>). An exception leaves the function.
\<close>

definition read_phases ::
    "'w os \<Rightarrow> ('a Connection_scheme, 'm, 'w) connection_virtuals \<Rightarrow> 'a Connection_scheme \<Rightarrow> 'w \<Rightarrow>
      ((exn + bool) \<times> 'a Connection_scheme \<times> 'w) option" where
  "read_phases os v c w =
     (case (if c_state c = READ_HEADER then v_ReadHeader v c w else Some (Inr True, c, w)) of
        None \<Rightarrow> None
      | Some (Inl x, c1, w1) \<Rightarrow> Some (Inl x, c1, w1)
      | Some (Inr False, c1, w1) \<Rightarrow> Some (Inr False, SetCloseState c1, w1)
      | Some (Inr True, c1, w1) \<Rightarrow>
          (case (if c_state c1 = READ_REQUEST then ReadRequest os v c1 w1 else Some (Inr True, c1, w1)) of
             None \<Rightarrow> None
           | Some (Inl x, c2, w2) \<Rightarrow> Some (Inl x, c2, w2)
           | Some (Inr False, c2, w2) \<Rightarrow> Some (Inr False, SetCloseState c2, w2)
           | Some (Inr True, c2, w2) \<Rightarrow> Some (Inr True, c2, w2)))"

definition more_data :: "'a Connection_scheme \<Rightarrow> bool" where
  "more_data c \<longleftrightarrow> c_state c = READ_HEADER \<and> c_bufferLength c > 0"

definition write_phase ::
    "'w os \<Rightarrow> ('a Connection_scheme, 'm, 'w) connection_virtuals \<Rightarrow> bool \<Rightarrow> 'a Connection_scheme \<Rightarrow> 'm \<Rightarrow> 'w \<Rightarrow>
      ((exn + bool) \<times> 'a Connection_scheme \<times> 'm \<times> 'w) option" where
  "write_phase os v newMessage c m w =
     (if c_state c = WRITE_RESPONSE then
        (case WriteResponse os v c w of
           None \<Rightarrow> None
         | Some (False, c1, w1) \<Rightarrow> Some (Inr False, SetCloseState c1, m, w1)
         | Some (True, c1, w1) \<Rightarrow> Some (Inr (more_data c1), c1, m, w1))
      else Some (Inr newMessage, c, m, w))"

definition Process_pass ::
    "'w os \<Rightarrow> ('a Connection_scheme, 'm, 'w) connection_virtuals \<Rightarrow> bool \<Rightarrow> 'a Connection_scheme \<Rightarrow> 'm \<Rightarrow> 'w \<Rightarrow>
      ((exn + bool) \<times> 'a Connection_scheme \<times> 'm \<times> 'w) option" where
  "Process_pass os v executeAfterRead c m w =
     (case read_phases os v c w of
        None \<Rightarrow> None
      | Some (Inl x, c1, w1) \<Rightarrow> Some (Inl x, c1, m, w1)
      | Some (Inr False, c1, w1) \<Rightarrow> Some (Inr False, c1, m, w1)
      | Some (Inr True, c1, w1) \<Rightarrow>
          if executeAfterRead \<and> c_state c1 = EXECUTE_REQUEST then
            (case v_ExecuteRequest v c1 m w1 of
               None \<Rightarrow> None
             | Some (Inl x, c2, m2, w2) \<Rightarrow> Some (Inl x, c2, m2, w2)
             | Some (Inr False, c2, m2, w2) \<Rightarrow> Some (Inr False, SetCloseState c2, m2, w2)
             | Some (Inr True, c2, m2, w2) \<Rightarrow> write_phase os v (more_data c2) c2 m2 w2)
          else write_phase os v False c1 m w1)"

partial_function (option) Process ::
    "'w os \<Rightarrow> ('a Connection_scheme, 'm, 'w) connection_virtuals \<Rightarrow> bool \<Rightarrow> 'a Connection_scheme \<Rightarrow> 'm \<Rightarrow> 'w \<Rightarrow>
      ((exn + unit) \<times> 'a Connection_scheme \<times> 'm \<times> 'w) option" where
  "Process os v executeAfterRead c m w =
     (case Process_pass os v executeAfterRead c m w of
        None \<Rightarrow> None
      | Some (r, c1, m1, w1) \<Rightarrow>
          (case r of
             Inl x \<Rightarrow> Some (Inl x, c1, m1, w1)
           | Inr newMessage \<Rightarrow>
               if newMessage then Process os v executeAfterRead c1 m1 w1 else Some (Inr (), c1, m1, w1)))"

text \<open>
  The loop of a connection thread: wait for the socket for \<open>ms\<close> milliseconds at most, process what
  there is. An exception is not caught here.
\<close>

partial_function (option) Work_loop ::
    "'w os \<Rightarrow> ('a Connection_scheme, 'm, 'w) connection_virtuals \<Rightarrow> int \<Rightarrow> timeval \<Rightarrow> 'a Connection_scheme \<Rightarrow> 'm \<Rightarrow> 'w \<Rightarrow>
      ((exn + unit) \<times> 'a Connection_scheme \<times> 'm \<times> 'w) option" where
  "Work_loop os v ms startTime c m w =
     (let fd = s_fd (c_socket c);
          inFd = (if WaitForReadability c then [fd] else []);
          outFd = (if WaitForWritability c then [fd] else []);
          (tv, w1) = (if ms < 0 then (None, w)
                      else let (currentTime, w') = sys_gettimeofday os w
                           in (Some (milli_timeval (ms - MilliTimeDiff currentTime startTime)), w'));
          ((nEvents, inFd', outFd'), w2) = sys_select os inFd outFd tv w1
      in if nEvents < 0 then Some (Inr (), c, m, w2)
         else (case (if fd \<in> set inFd' \<or> fd \<in> set outFd' then Process os v True c m w2 else Some (Inr (), c, m, w2)) of
                 None \<Rightarrow> None
               | Some (Inl x, c1, m1, w3) \<Rightarrow> Some (Inl x, c1, m1, w3)
               | Some (Inr _, c1, m1, w3) \<Rightarrow>
                   let (currentTime, w4) = sys_gettimeofday os w3;
                       timeLeft = ms - MilliTimeDiff currentTime startTime
                   in if \<not> CheckClose c1 \<and> (ms < 0 \<or> timeLeft > 0) then Work_loop os v ms startTime c1 m1 w4
                      else Some (Inr (), c1, m1, w4)))"

definition Connection_Work ::
    "'w os \<Rightarrow> ('a Connection_scheme, 'm, 'w) connection_virtuals \<Rightarrow> int \<Rightarrow> 'a Connection_scheme \<Rightarrow> 'm \<Rightarrow> 'w \<Rightarrow>
      ((exn + unit) \<times> 'a Connection_scheme \<times> 'm \<times> 'w) option" where
  "Connection_Work os v ms c m w = (let (startTime, w1) = sys_gettimeofday os w in Work_loop os v ms startTime c m w1)"

text \<open>\<^verbatim>\<open>header_ << a << b << ...\<close>\<close>

definition put_lines :: "bytes list \<Rightarrow> wss \<Rightarrow> wss option" where
  "put_lines xs s = run_puts wss_put_char wss_put (\<lambda>s. s) (map PutStr xs) s"

section \<open>The invariants of a connection\<close>

text \<open>
  \<open>buffers_ok\<close>: the sizes. \<open>request_ok\<close>: the request with its terminating null lies inside the buffer or
  the allocated block. \<open>unanswered\<close>: no response so far. \<open>idle\<close>: between two requests. \<open>unread\<close>: the
  bytes received and not consumed.
\<close>

definition buffers_ok :: "'a Connection_scheme \<Rightarrow> bool" where
  "buffers_ok c \<longleftrightarrow> length (c_buffer c) = MaxBufferLength + 1 \<and> c_bufferLength c \<le> MaxBufferLength
     \<and> wss_ok (c_header c) \<and> wss_ok (c_response c)"

definition request_ok :: "'a Connection_scheme \<Rightarrow> bool" where
  "request_ok c \<longleftrightarrow>
     (case c_request c of
        NoRequest \<Rightarrow> False
      | InBuffer p \<Rightarrow> \<not> c_requestAllocated c \<and> p + c_contentAvail c \<le> MaxBufferLength
          \<and> p + c_contentLength c \<le> MaxBufferLength
      | Allocated mem \<Rightarrow> c_requestAllocated c \<and> length mem = c_contentLength c + 1 \<and> c_contentAvail c \<le> c_contentLength c)"

definition unanswered :: "'a Connection_scheme \<Rightarrow> bool" where
  "unanswered c \<longleftrightarrow> c_headerBytesWritten c = 0 \<and> c_resultBytesWritten c = 0
     \<and> wss_Clear (c_header c) = c_header c \<and> wss_Clear (c_response c) = c_response c"

definition idle :: "'a Connection_scheme \<Rightarrow> bool" where
  "idle c \<longleftrightarrow> c_request c = NoRequest \<and> \<not> c_requestAllocated c \<and> unanswered c"

definition unread :: "'a Connection_scheme \<Rightarrow> bytes" where
  "unread c = (if c_request c = NoRequest then take (c_bufferLength c) (c_buffer c)
                else take (c_contentAvail c) (request_memory c))"

lemma state_updates [simp]:
  "unread (c \<lparr> c_state := st \<rparr>) = unread c" "unread (c \<lparr> c_socket := s \<rparr>) = unread c"
  "unread (c \<lparr> c_lastTransactionTime := t \<rparr>) = unread c" "unread (c \<lparr> c_keepAlive := b \<rparr>) = unread c"
  "buffers_ok (c \<lparr> c_state := st \<rparr>) = buffers_ok c" "buffers_ok (c \<lparr> c_socket := s \<rparr>) = buffers_ok c"
  "buffers_ok (c \<lparr> c_lastTransactionTime := t \<rparr>) = buffers_ok c" "buffers_ok (c \<lparr> c_keepAlive := b \<rparr>) = buffers_ok c"
  "request_ok (c \<lparr> c_state := st \<rparr>) = request_ok c" "request_ok (c \<lparr> c_socket := s \<rparr>) = request_ok c"
  "request_ok (c \<lparr> c_lastTransactionTime := t \<rparr>) = request_ok c" "request_ok (c \<lparr> c_keepAlive := b \<rparr>) = request_ok c"
  "unanswered (c \<lparr> c_state := st \<rparr>) = unanswered c" "unanswered (c \<lparr> c_socket := s \<rparr>) = unanswered c"
  "unanswered (c \<lparr> c_lastTransactionTime := t \<rparr>) = unanswered c" "unanswered (c \<lparr> c_keepAlive := b \<rparr>) = unanswered c"
  "idle (c \<lparr> c_state := st \<rparr>) = idle c" "idle (c \<lparr> c_socket := s \<rparr>) = idle c"
  "request_memory (c \<lparr> c_state := st \<rparr>) = request_memory c" "request_memory (c \<lparr> c_socket := s \<rparr>) = request_memory c"
  by (simp_all add: unread_def request_memory_def buffers_ok_def request_ok_def unanswered_def idle_def split: request_ptr.split)

lemma mem_store_length: "store i xs mem = Some mem' \<Longrightarrow> length mem' = length mem"
  by (auto simp: store_def split: if_splits)

lemma store_nth_prefix:
  assumes "store i xs mem = Some mem'"
    and "k + n \<le> i"
  shows "take n (drop k mem') = take n (drop k mem)"
  using assms by (auto simp: store_def drop_take min_def split: if_splits)

lemma store_stored:
  assumes "store i (stored data) mem = Some mem'" "k \<le> i"
  shows "take (i - k + length data) (drop k mem') = take (i - k) (drop k mem) @ data"
proof (cases "data = []")
  case True
  with assms show ?thesis by (auto simp: store_def stored_def split: if_splits)
next
  case False
  have "length mem' = length mem" by (rule mem_store_length [OF assms(1)])
  from assms False have m: "mem' = take i mem @ (data @ [0]) @ drop (i + length data + 1) mem" "i + length data + 1 \<le> length mem"
    by (auto simp: store_def stored_def split: if_splits)
  have "drop k mem' = drop k (take i mem) @ data @ [0] @ drop (i + length data + 1) mem"
    using assms(2) m(2) by (simp add: m(1))
  moreover have "drop k (take i mem) = take (i - k) (drop k mem)" by (rule drop_take)
  ultimately show ?thesis using m(2) assms(2) by simp
qed

lemma store_fits: "i + length xs \<le> length mem \<Longrightarrow> \<exists>mem'. store i xs mem = Some mem'"
  by (simp add: store_def)

lemma length_stored: "length (stored xs) \<le> length xs + 1"
  by (simp add: stored_def)

text \<open>What a receive or the terminating null changes of a connection with a request.\<close>

definition refilled :: "'a Connection_scheme \<Rightarrow> 'a Connection_scheme \<Rightarrow> bool" where
  "refilled c c' \<longleftrightarrow> c' = c \<lparr> c_socket := c_socket c', c_buffer := c_buffer c', c_request := c_request c',
       c_contentAvail := c_contentAvail c', c_state := c_state c' \<rparr>
     \<and> s_fd (c_socket c') = s_fd (c_socket c) \<and> s_timeout (c_socket c') = s_timeout (c_socket c)"

lemma refilledD:
  assumes "refilled c c'"
  shows "c_bufferLength c' = c_bufferLength c" "c_contentLength c' = c_contentLength c" "c_keepAlive c' = c_keepAlive c"
    "c_requestAllocated c' = c_requestAllocated c" "c_header c' = c_header c" "c_response c' = c_response c"
    "unanswered c' = unanswered c" "Connection.more c' = Connection.more c" "c_active c' = c_active c"
    "s_fd (c_socket c') = s_fd (c_socket c)" "s_timeout (c_socket c') = s_timeout (c_socket c)"
proof -
  obtain s mem rq n st where c: "c' = c \<lparr> c_socket := s, c_buffer := mem, c_request := rq, c_contentAvail := n, c_state := st \<rparr>"
    using assms unfolding refilled_def by blast
  show "c_bufferLength c' = c_bufferLength c" "c_contentLength c' = c_contentLength c" "c_keepAlive c' = c_keepAlive c"
    "c_requestAllocated c' = c_requestAllocated c" "c_header c' = c_header c" "c_response c' = c_response c"
    "unanswered c' = unanswered c" "Connection.more c' = Connection.more c" "c_active c' = c_active c"
    by (simp_all add: c unanswered_def)
  show "s_fd (c_socket c') = s_fd (c_socket c)" "s_timeout (c_socket c') = s_timeout (c_socket c)"
    using assms by (simp_all add: refilled_def)
qed

lemma refilled_trans: "refilled a b \<Longrightarrow> refilled b c \<Longrightarrow> refilled a c"
proof -
  assume ab: "refilled a b" and bc: "refilled b c"
  obtain s mem rq n st where b: "b = a \<lparr> c_socket := s, c_buffer := mem, c_request := rq, c_contentAvail := n, c_state := st \<rparr>"
    using ab unfolding refilled_def by blast
  obtain s' mem' rq' n' st' where c: "c = b \<lparr> c_socket := s', c_buffer := mem', c_request := rq', c_contentAvail := n', c_state := st' \<rparr>"
    using bc unfolding refilled_def by blast
  show ?thesis using ab bc by (simp add: refilled_def b c)
qed

lemma store_request_fits:
  assumes "buffers_ok c" "request_ok c" "c_contentAvail c + length xs \<le> max (c_contentLength c) (c_contentAvail c) + 1"
  shows "\<exists>c'. store_request (c_contentAvail c) xs c = Some c'"
proof (cases "c_request c")
  case NoRequest
  with assms(2) show ?thesis by (simp add: request_ok_def)
next
  case (InBuffer p)
  with assms(2) have "p + max (c_contentLength c) (c_contentAvail c) \<le> MaxBufferLength"
    by (auto simp: request_ok_def max_def)
  with InBuffer assms(1,3) show ?thesis
    by (auto simp: store_request_def buffers_ok_def intro: store_fits)
next
  case (Allocated mem)
  with assms(2,3) show ?thesis by (auto simp: store_request_def request_ok_def intro: store_fits)
qed

lemma store_request_ok:
  assumes "store_request i xs c = Some c'" "buffers_ok c" "request_ok c"
  shows "buffers_ok c'" "request_ok c'" "c_contentAvail c' = c_contentAvail c" "c_contentLength c' = c_contentLength c"
    "c_socket c' = c_socket c" "c' = c \<lparr> c_buffer := c_buffer c', c_request := c_request c' \<rparr>"
  using assms
  by (auto simp: store_request_def buffers_ok_def request_ok_def mem_store_length split: request_ptr.splits
      intro: Connection.equality)

lemma request_ok_ptr: "request_ok c \<Longrightarrow> c_request c \<noteq> NoRequest"
  by (auto simp: request_ok_def)

lemma store_request_null:
  assumes "store_request (c_contentAvail c) xs c = Some c'" "request_ok c"
  shows "unread c' = unread c"
proof (cases "c_request c")
  case NoRequest
  with assms(2) show ?thesis by (simp add: request_ok_def)
next
  case (InBuffer p)
  with assms(1) obtain mem where "store (p + c_contentAvail c) xs (c_buffer c) = Some mem" "c' = c \<lparr> c_buffer := mem \<rparr>"
    by (auto simp: store_request_def)
  with InBuffer store_nth_prefix [of "p + c_contentAvail c" xs "c_buffer c" mem p "c_contentAvail c"]
  show ?thesis by (simp add: unread_def request_memory_def)
next
  case (Allocated mem)
  with assms(1) obtain mem' where "store (c_contentAvail c) xs mem = Some mem'" "c' = c \<lparr> c_request := Allocated mem' \<rparr>"
    by (auto simp: store_request_def)
  with Allocated store_nth_prefix [of "c_contentAvail c" xs mem mem' 0 "c_contentAvail c"]
  show ?thesis by (simp add: unread_def request_memory_def)
qed

lemma store_request_data:
  assumes "store_request (c_contentAvail c) (stored data) c = Some c1" "request_ok c"
  shows "unread (c1 \<lparr> c_contentAvail := c_contentAvail c + length data \<rparr>) = unread c @ data"
proof (cases "c_request c")
  case NoRequest
  with assms(2) show ?thesis by (simp add: request_ok_def)
next
  case (InBuffer p)
  with assms(1) obtain mem where "store (p + c_contentAvail c) (stored data) (c_buffer c) = Some mem" "c1 = c \<lparr> c_buffer := mem \<rparr>"
    by (auto simp: store_request_def)
  with InBuffer store_stored [of "p + c_contentAvail c" data "c_buffer c" mem p]
  show ?thesis by (simp add: unread_def request_memory_def)
next
  case (Allocated mem)
  with assms(1) obtain mem' where "store (c_contentAvail c) (stored data) mem = Some mem'" "c1 = c \<lparr> c_request := Allocated mem' \<rparr>"
    by (auto simp: store_request_def)
  with Allocated store_stored [of "c_contentAvail c" data mem mem' 0]
  show ?thesis by (simp add: unread_def request_memory_def)
qed

section \<open>Initialize\<close>

lemma wss_Clear_twice [simp]: "wss_Clear (wss_Clear s) = wss_Clear s"
  by (simp add: wss_Clear_def)

lemma unanswered_content:
  assumes "unanswered c" "buffers_ok c"
  shows "wss_content (c_header c) = []" "wss_content (c_response c) = []"
  using assms wss_Clear_ok [of "c_header c"] wss_Clear_ok [of "c_response c"]
  by (auto simp: unanswered_def buffers_ok_def)

lemma Initialize_idle: "idle (Connection_Initialize p c)"
  by (auto simp: Connection_Initialize_def idle_def unanswered_def keep_buffer_def buffers_ok_def Let_def)

lemma Initialize_buffers:
  assumes "buffers_ok c" "request_ok c \<or> c_request c = NoRequest"
  shows "buffers_ok (Connection_Initialize p c)"
proof -
  have "buffers_ok (keep_buffer p c)"
  proof (cases "c_request c")
    case (InBuffer i)
    with assms show ?thesis by (auto simp: keep_buffer_def buffers_ok_def request_ok_def request_memory_def Let_def)
  next
    case (Allocated mem)
    with assms show ?thesis by (auto simp: keep_buffer_def buffers_ok_def request_ok_def Let_def)
  next
    case NoRequest
    with assms show ?thesis by (auto simp: keep_buffer_def buffers_ok_def Let_def)
  qed
  then show ?thesis using wss_Clear_ok by (simp add: Connection_Initialize_def Let_def buffers_ok_def)
qed

lemma Initialize_simps [simp]:
  "c_socket (Connection_Initialize p c) = c_socket c" "c_state (Connection_Initialize p c) = c_state c"
  "c_keepAlive (Connection_Initialize p c) = c_keepAlive c"
  by (simp_all add: Connection_Initialize_def keep_buffer_def Let_def)

lemma Initialize_pending:
  assumes "buffers_ok c" "request_ok c" "c_contentLength c \<le> c_contentAvail c"
  shows "unread (Connection_Initialize True c) = drop (c_contentLength c) (unread c)"
proof (cases "c_request c")
  case NoRequest
  with assms(2) show ?thesis by (simp add: request_ok_def)
next
  case (Allocated mem)
  with assms show ?thesis
    by (auto simp: request_ok_def Connection_Initialize_def keep_buffer_def unread_def request_memory_def Let_def)
next
  case (InBuffer p)
  let ?n = "c_contentAvail c - c_contentLength c"
  from InBuffer assms have fits: "p + c_contentAvail c \<le> MaxBufferLength" "\<not> c_requestAllocated c"
    "length (c_buffer c) = MaxBufferLength + 1" by (simp_all add: request_ok_def buffers_ok_def)
  have "take ?n (drop (c_contentLength c) (drop p (c_buffer c))) = drop (c_contentLength c) (unread c)"
    using InBuffer by (simp add: unread_def request_memory_def drop_take)
  with InBuffer fits assms(3) show ?thesis
    by (auto simp: Connection_Initialize_def keep_buffer_def unread_def request_memory_def Let_def)
qed

lemma Initialize_pending_idle: "c_request c = NoRequest \<Longrightarrow> \<not> c_requestAllocated c \<Longrightarrow>
    unread (Connection_Initialize True c) = unread c"
  by (simp add: Connection_Initialize_def keep_buffer_def unread_def Let_def)

section \<open>ReadRequest\<close>

lemma request_complete_post:
  assumes "request_complete c w = Some (r, c', w')" "buffers_ok c" "request_ok c"
  shows "r = Inr True" "w' = w" "refilled c c'" "buffers_ok c'" "request_ok c'" "unread c' = unread c"
    "c_state c' = EXECUTE_REQUEST" "c_contentAvail c' = c_contentAvail c"
proof -
  obtain c1 where c1: "store_request (c_contentAvail c) [0] c = Some c1"
    using store_request_fits [OF assms(2,3), of "[0]"] by auto
  note ok = store_request_ok [OF c1 assms(2,3)]
  from c1 assms(1) have c': "c' = c1 \<lparr> c_state := EXECUTE_REQUEST \<rparr>" and r: "r = Inr True" "w' = w"
    by (auto simp: request_complete_def)
  show "r = Inr True" "w' = w" by (rule r)+
  show "buffers_ok c'" "request_ok c'" using ok by (simp_all add: c')
  show "unread c' = unread c" using store_request_null [OF c1 assms(3)] by (simp add: c')
  show "c_state c' = EXECUTE_REQUEST" "c_contentAvail c' = c_contentAvail c" using ok by (simp_all add: c')
  obtain mem rq where "c1 = c \<lparr> c_buffer := mem, c_request := rq \<rparr>" using ok(6) by blast
  then show "refilled c c'" by (auto simp: refilled_def c' intro: Connection.equality)
qed

lemma ReadRequest_post:
  assumes "ReadRequest os v c w = Some (r, c', w')" "buffers_ok c" "request_ok c"
    and log: "stream_log os (s_fd (c_socket c)) net"
  shows "\<exists>data c1. net w' = log_received data (net w) \<and> refilled c c1 \<and> buffers_ok c1 \<and> request_ok c1
    \<and> (r = Inr False \<and> c' = v_Initialize v False c1
       \<or> r = Inr True \<and> c' = c1 \<and> unread c1 = unread c @ data
         \<and> c_state c1 = (if c_contentLength c \<le> c_contentAvail c1 then EXECUTE_REQUEST else c_state c))"
proof (cases "c_contentAvail c < c_contentLength c")
  case False
  with assms(1) have rc: "request_complete c w = Some (r, c', w')" by (simp add: ReadRequest_def)
  note p = request_complete_post [OF rc assms(2,3)]
  show ?thesis by (rule exI [of _ "[]"], rule exI [of _ c']) (use p False in simp)
next
  case True
  obtain ok data eof s w1 where rcv: "Receive os (c_contentLength c - c_contentAvail c) (- 1) (c_socket c) w = Some ((ok, data, eof), s, w1)"
    using assms(1) True by (auto simp: ReadRequest_def split: option.splits)
  note R = Receive_post [OF rcv log]
  let ?c0 = "c \<lparr> c_socket := s \<rparr>"
  have ok0: "buffers_ok ?c0" "request_ok ?c0" "unread ?c0 = unread c"
    using assms(2,3) by simp_all
  have "c_contentAvail c + length (stored data) \<le> c_contentLength c + 1"
    using True R(1) length_stored [of data] by linarith
  then have "c_contentAvail ?c0 + length (stored data) \<le> max (c_contentLength ?c0) (c_contentAvail ?c0) + 1"
    using True by (simp add: max_def)
  from store_request_fits [OF ok0(1,2) this]
  obtain c1 where c1: "store_request (c_contentAvail c) (stored data) ?c0 = Some c1" by auto
  note o1 = store_request_ok [OF c1 ok0(1,2)]
  obtain mem rq where eq1: "c1 = c \<lparr> c_socket := s, c_buffer := mem, c_request := rq \<rparr>" using o1(6) by (metis)
  have rf1: "refilled c c1" using R(4,5) by (auto simp: refilled_def eq1 intro: Connection.equality)
  let ?c2 = "c1 \<lparr> c_contentAvail := c_contentAvail c + length data \<rparr>"
  have avail: "c_contentAvail c + length data \<le> c_contentLength c" using R(1) True by linarith
  have o2: "buffers_ok ?c2" "request_ok ?c2"
    using o1(1-4) avail by (auto simp: buffers_ok_def request_ok_def split: request_ptr.splits)
  have rf2: "refilled c ?c2" using R(4,5) by (auto simp: refilled_def eq1 intro: Connection.equality)
  have p2: "unread ?c2 = unread c @ data"
    using store_request_data [of ?c0 data c1] c1 ok0 by simp
  have w': "net w1 = log_received data (net w)" by (rule R(2))
  show ?thesis
  proof (cases ok)
    case False
    with assms(1) True have "r = Inr False" "c' = v_Initialize v False c1" "w' = w1"
      by (simp_all add: ReadRequest_def rcv c1)
    with w' rf1 o1(1,2) show ?thesis by blast
  next
    case okt: True
    show ?thesis
    proof (cases "c_contentAvail c + length data < c_contentLength c")
      case more: True
      with assms(1) True okt R(3) o1(3,4) have "r = Inr True" "c' = ?c2" "w' = w1"
        by (simp_all add: ReadRequest_def rcv c1)
      moreover have "c_state ?c2 = c_state c" by (simp add: eq1)
      ultimately show ?thesis using w' rf2 o2 p2 more by (intro exI [of _ data] exI [of _ ?c2]) simp
    next
      case False
      with assms(1) True okt o1(3,4) have rc: "request_complete ?c2 w1 = Some (r, c', w')"
        by (simp add: ReadRequest_def rcv c1)
      note p = request_complete_post [OF rc o2]
      have "refilled c c'" by (rule refilled_trans [OF rf2 p(3)])
      with p p2 w' False show ?thesis by (intro exI [of _ data] exI [of _ c']) simp
    qed
  qed
qed

section \<open>WriteResponse\<close>

lemma segment_at_content:
  assumes "wss_ok s" "offset < wss_length s"
  shows "\<exists>rest. segment_at s offset \<noteq> [] \<and> drop offset (wss_content s) = segment_at s offset @ rest"
  using wss_find_content [of offset "wss_buffers s"] assms
  by (fastforce simp: segment_at_def wss_GetBuffer_def wss_content_def wss_ok_def)

text \<open>What writing changes: the positions, the socket and the time.\<close>

definition transmitted :: "'a Connection_scheme \<Rightarrow> 'a Connection_scheme \<Rightarrow> bool" where
  "transmitted c c' \<longleftrightarrow> c' = c \<lparr> c_socket := c_socket c', c_lastTransactionTime := c_lastTransactionTime c',
       c_headerBytesWritten := c_headerBytesWritten c', c_resultBytesWritten := c_resultBytesWritten c' \<rparr>
     \<and> s_fd (c_socket c') = s_fd (c_socket c) \<and> s_timeout (c_socket c') = s_timeout (c_socket c)"

lemma writtenD:
  assumes "transmitted c c'"
  shows "unread c' = unread c" "buffers_ok c' = buffers_ok c" "request_ok c' = request_ok c"
    "c_header c' = c_header c" "c_response c' = c_response c" "c_keepAlive c' = c_keepAlive c" "c_state c' = c_state c"
    "c_contentLength c' = c_contentLength c" "c_contentAvail c' = c_contentAvail c"
    "Connection.more c' = Connection.more c" "c_request c' = c_request c" "c_requestAllocated c' = c_requestAllocated c"
    "s_fd (c_socket c') = s_fd (c_socket c)" "s_timeout (c_socket c') = s_timeout (c_socket c)"
proof -
  obtain s t n m where c: "c' = c \<lparr> c_socket := s, c_lastTransactionTime := t, c_headerBytesWritten := n, c_resultBytesWritten := m \<rparr>"
    using assms unfolding transmitted_def by blast
  show "unread c' = unread c" "buffers_ok c' = buffers_ok c" "request_ok c' = request_ok c"
    "c_header c' = c_header c" "c_response c' = c_response c" "c_keepAlive c' = c_keepAlive c" "c_state c' = c_state c"
    "c_contentLength c' = c_contentLength c" "c_contentAvail c' = c_contentAvail c"
    "Connection.more c' = Connection.more c" "c_request c' = c_request c" "c_requestAllocated c' = c_requestAllocated c"
    by (simp_all add: c unread_def request_memory_def buffers_ok_def request_ok_def split: request_ptr.split)
  show "s_fd (c_socket c') = s_fd (c_socket c)" "s_timeout (c_socket c') = s_timeout (c_socket c)"
    using assms by (simp_all add: transmitted_def)
qed

lemma written_trans: "transmitted a b \<Longrightarrow> transmitted b c \<Longrightarrow> transmitted a c"
proof -
  assume ab: "transmitted a b" and bc: "transmitted b c"
  obtain s t n m where b: "b = a \<lparr> c_socket := s, c_lastTransactionTime := t, c_headerBytesWritten := n, c_resultBytesWritten := m \<rparr>"
    using ab unfolding transmitted_def by blast
  obtain s' t' n' m' where c: "c = b \<lparr> c_socket := s', c_lastTransactionTime := t', c_headerBytesWritten := n', c_resultBytesWritten := m' \<rparr>"
    using bc unfolding transmitted_def by blast
  show ?thesis using ab bc by (simp add: transmitted_def b c)
qed

lemma written_refl: "transmitted c c"
  by (auto simp: transmitted_def intro: Connection.equality)

lemma written_sent:
  assumes "s_fd s = s_fd (c_socket c)" "s_timeout s = s_timeout (c_socket c)"
  shows "transmitted c (c \<lparr> c_socket := s \<rparr>)" "transmitted c (c \<lparr> c_socket := s, c_headerBytesWritten := n \<rparr>)"
    "transmitted c (c \<lparr> c_socket := s, c_resultBytesWritten := n \<rparr>)" "transmitted c (c \<lparr> c_lastTransactionTime := t \<rparr>)"
  using assms by (auto simp: transmitted_def intro: Connection.equality)

text \<open>
  The body: from the position reached, everything that is left is sent, or the connection is lost.
  The loop is never left to wait for the socket to become writable.
\<close>

definition write_post :: "bytes \<Rightarrow> netlog \<Rightarrow> 'a Connection_scheme \<Rightarrow> write_result \<Rightarrow> 'a Connection_scheme \<Rightarrow> netlog \<Rightarrow> bool" where
  "write_post left l c r c' l' \<longleftrightarrow> transmitted c c' \<and>
     (r = WriteDone \<and> l' = log_sent left l \<or> r = WriteFailed \<and> (\<exists>k. l' = log_sent (take k left) l))"

lemma write_post_step:
  assumes "left = xs @ rest" "transmitted c c1" "write_post rest (log_sent xs l) c1 r c' l'"
  shows "write_post left l c r c' l'"
proof -
  have "\<exists>j. take j left = xs @ take k rest" for k by (rule exI [of _ "length xs + k"]) (simp add: assms(1))
  then show ?thesis using assms written_trans [OF assms(2)] by (auto simp: write_post_def log_twice; metis)
qed

lemma write_body_post:
  assumes "write_body os c w = Some r" "stream_log os (s_fd (c_socket c)) net" "wss_ok (c_response c)"
  shows "write_post (drop (c_resultBytesWritten c) (wss_content (c_response c))) (net w) c (fst r) (fst (snd r)) (net (snd (snd r)))"
  using assms
proof (induction rule: write_body.raw_induct [rotated 1, consumes 1, case_names 1])
  case (1 loop os c w r)
  let ?off = "c_resultBytesWritten c" and ?s = "c_response c"
  show ?case
  proof (cases "?off < wss_length ?s")
    case False
    with 1(4) have "drop ?off (wss_content ?s) = []" by (simp add: wss_ok_def)
    with 1(2) False show ?thesis by (auto simp: write_post_def written_refl)
  next
    case True
    from segment_at_content [OF 1(4) True] obtain rest where
      seg: "drop ?off (wss_content ?s) = segment_at ?s ?off @ rest" by blast
    obtain ok n s w1 where snd: "Send os (segment_at ?s ?off) (- 1) (c_socket c) w = Some ((ok, n), s, w1)"
      using 1(2) True by (auto simp: Let_def split: option.splits)
    note S = Send_post [OF snd 1(3)]
    let ?c2 = "c \<lparr> c_socket := s, c_resultBytesWritten := ?off + n \<rparr>"
    show ?thesis
    proof (cases ok)
      case False
      with 1(2) True have r: "r = (WriteFailed, c \<lparr> c_socket := s \<rparr>, w1)" by (simp add: Let_def snd)
      have "take n (segment_at ?s ?off) = take n (drop ?off (wss_content ?s))" using S(1) seg by simp
      with r S written_sent(1) [of s c] show ?thesis by (auto simp: write_post_def)
    next
      case okt: True
      with S(2) have n: "n = length (segment_at ?s ?off)" by simp
      have "rest = drop n (drop ?off (wss_content ?s))" unfolding seg by (simp add: n)
      then have rest: "rest = drop (c_resultBytesWritten ?c2) (wss_content (c_response ?c2))" by (simp add: add.commute)
      from 1(2) True okt n have "loop os ?c2 w1 = Some r" by (simp add: Let_def snd)
      from 1(1) [OF this] 1(3,4) S(4) have "write_post rest (net w1) ?c2 (fst r) (fst (snd r)) (net (snd (snd r)))"
        by (simp add: rest)
      with S(3) have "write_post rest (log_sent (segment_at ?s ?off) (net w)) ?c2 (fst r) (fst (snd r)) (net (snd (snd r)))"
        by (simp add: n)
      then show ?thesis by (rule write_post_step [OF seg written_sent(3) [OF S(4,5)]])
    qed
  qed
qed

text \<open>The header, when it fits into the first segment of its stream.\<close>

lemma write_header_done: "wss_length (c_header c) \<le> c_headerBytesWritten c \<Longrightarrow> write_header os c w = Some (WriteDone, c, w)"
  by (subst write_header.simps) simp

lemma write_header_post:
  assumes "write_header os c w = Some (r, c', w')" "stream_log os (s_fd (c_socket c)) net" "wss_ok (c_header c)"
    and fit: "segment_at (c_header c) 0 = wss_content (c_header c)"
    and start: "c_headerBytesWritten c = 0" "c_resultBytesWritten c = 0"
  shows "write_post (wss_content (c_header c)) (net w) c r c' (net w')" "c_resultBytesWritten c' = 0"
proof -
  let ?s = "c_header c"
  have "write_post (wss_content ?s) (net w) c r c' (net w') \<and> c_resultBytesWritten c' = 0"
  proof (cases "0 < wss_length ?s")
    case False
    with assms(1,3) start show ?thesis by (auto simp: write_header_done write_post_def written_refl wss_ok_def)
  next
    case True
    obtain ok n s w1 where snd: "Send os (wss_content ?s) (- 1) (c_socket c) w = Some ((ok, n), s, w1)"
      using assms(1) True start fit by (subst (asm) write_header.simps) (auto simp: Let_def split: option.splits)
    note S = Send_post [OF snd assms(2)]
    show ?thesis
    proof (cases ok)
      case False
      with assms(1) True start fit have "r = WriteFailed" "c' = c \<lparr> c_socket := s \<rparr>" "w' = w1"
        by (subst (asm) write_header.simps, simp add: Let_def snd)+
      with S written_sent(1) [of s c] start show ?thesis by (auto simp: write_post_def)
    next
      case okt: True
      with S(2) have n: "n = length (wss_content ?s)" by simp
      with assms(3) have fin: "write_header os (c \<lparr> c_socket := s, c_headerBytesWritten := n \<rparr>) w1
          = Some (WriteDone, c \<lparr> c_socket := s, c_headerBytesWritten := n \<rparr>, w1)"
        by (intro write_header_done) (simp add: wss_ok_def)
      with assms(1) True start fit okt n have "r = WriteDone" "c' = c \<lparr> c_socket := s, c_headerBytesWritten := n \<rparr>" "w' = w1"
        by (subst (asm) write_header.simps, simp add: Let_def snd fin)+
      with S written_sent(2) [of s c n] start n show ?thesis by (auto simp: write_post_def)
    qed
  qed
  then show "write_post (wss_content (c_header c)) (net w) c r c' (net w')" "c_resultBytesWritten c' = 0" by simp_all
qed

text \<open>
  \<^verbatim>\<open>WriteResponse\<close>: header and body are sent completely and the connection is initialised for the next
  request, keeping the data behind this one, or the connection is lost, with a part sent.
\<close>

lemma WriteResponse_post:
  assumes "WriteResponse os v c w = Some (r, c', w')" "stream_log os (s_fd (c_socket c)) net"
    and ok: "wss_ok (c_header c)" "wss_ok (c_response c)" and fit: "segment_at (c_header c) 0 = wss_content (c_header c)"
    and start: "c_headerBytesWritten c = 0" "c_resultBytesWritten c = 0"
  shows "\<exists>c1. transmitted c c1 \<and>
    (net w' = log_sent (wss_content (c_header c) @ wss_content (c_response c)) (net w)
       \<and> r = c_keepAlive c \<and> c' = v_Initialize v (c_keepAlive c) (c1 \<lparr> c_state := READ_HEADER \<rparr>)
     \<or> (\<exists>k. net w' = log_sent (take k (wss_content (c_header c) @ wss_content (c_response c))) (net w))
       \<and> \<not> r \<and> c' = v_Initialize v False c1)"
proof -
  let ?h = "wss_content (c_header c)" and ?b = "wss_content (c_response c)"
  obtain now w0 where t: "sys_time os w = (now, w0)" by fastforce
  have w0: "net w0 = net w" by (rule stream_logD(6) [OF assms(2) t])
  let ?c0 = "c \<lparr> c_lastTransactionTime := now \<rparr>"
  have c0: "transmitted c ?c0" by (rule written_sent(4)) simp_all
  obtain r1 c1 w1 where h: "write_header os ?c0 w0 = Some (r1, c1, w1)"
    using assms(1) by (auto simp: WriteResponse_def t split: option.splits)
  have "write_post ?h (net w0) ?c0 r1 c1 (net w1)" "c_resultBytesWritten c1 = 0"
    using write_header_post [OF h, of net] assms(2) ok(1) fit start by simp_all
  then have c1: "transmitted c c1" and h1: "r1 = WriteDone \<and> net w1 = log_sent ?h (net w) \<or>
      r1 = WriteFailed \<and> (\<exists>k. net w1 = log_sent (take k ?h) (net w))"
    using written_trans [OF c0] w0 by (auto simp: write_post_def)
  note D = writtenD [OF c1]
  from h1 show ?thesis
  proof (elim disjE conjE exE)
    fix k
    assume r1: "r1 = WriteFailed" and n1: "net w1 = log_sent (take k ?h) (net w)"
    from r1 assms(1) have "r = False" "c' = v_Initialize v False c1" "w' = w1" by (simp_all add: WriteResponse_def t h)
    moreover have "take k ?h = take (min k (length ?h)) (?h @ ?b)" by (simp add: min_def)
    ultimately show ?thesis using n1 c1 by metis
  next
    assume r1: "r1 = WriteDone" and n1: "net w1 = log_sent ?h (net w)"
    obtain r2 c2 w2 where b: "write_body os c1 w1 = Some (r2, c2, w2)"
      using assms(1) r1 by (auto simp: WriteResponse_def t h split: option.splits)
    have "write_post ?b (net w1) c1 r2 c2 (net w2)"
      using write_body_post [OF b] assms(2) ok(2) \<open>c_resultBytesWritten c1 = 0\<close> D by simp
    then have c2: "transmitted c c2" and b2: "r2 = WriteDone \<and> net w2 = log_sent (?h @ ?b) (net w) \<or>
        r2 = WriteFailed \<and> (\<exists>k. net w2 = log_sent (?h @ take k ?b) (net w))"
      using written_trans [OF c1] n1 by (auto simp: write_post_def log_twice)
    from b2 show ?thesis
    proof (elim disjE conjE exE)
      assume "r2 = WriteDone" "net w2 = log_sent (?h @ ?b) (net w)"
      with assms(1) r1 c2 writtenD(6) [OF c2] show ?thesis by (auto simp: WriteResponse_def t h b Let_def)
    next
      fix k
      assume r2: "r2 = WriteFailed" and "net w2 = log_sent (?h @ take k ?b) (net w)"
      moreover have "?h @ take k ?b = take (length ?h + k) (?h @ ?b)" by simp
      moreover have "r = False" "c' = v_Initialize v False c2" "w' = w2"
        using assms(1) r1 r2 by (simp_all add: WriteResponse_def t h b)
      ultimately show ?thesis using c2 by metis
    qed
  qed
qed

text \<open>A short header stays in the first segment.\<close>

definition one_segment :: "wss \<Rightarrow> bytes \<Rightarrow> bool" where
  "one_segment s ys \<longleftrightarrow> length ys < StaticBufferSize \<and> wss_ok s \<and>
     wss_buffers s = [\<lparr> seg_buffer = ys, seg_capacity = StaticBufferSize - 1, seg_allocated = False \<rparr>]"

lemma one_segment_simps:
  assumes "one_segment s ys"
  shows "wss_content s = ys" "wss_ok s" "segment_at s 0 = ys"
  using assms by (auto simp: one_segment_def wss_content_def wss_ok_def segment_at_def wss_GetBuffer_def)

lemma one_segment_clear: "wss_Clear s = s \<Longrightarrow> wss_ok s \<Longrightarrow> one_segment s []"
  by (cases s) (auto simp: one_segment_def wss_Clear_def BufferSegment_def size_pred_def StaticBufferSize_def)

lemma one_segment_put:
  assumes "one_segment s ys" "length ys + length xs < StaticBufferSize"
  shows "\<exists>s'. wss_put s xs = Some s' \<and> one_segment s' (ys @ xs)"
proof (cases "xs = []")
  case True
  with assms show ?thesis by (subst wss_put.simps) simp
next
  case False
  have "wss_ok (wss_append s xs)" by (rule wss_append_ok) (use assms in \<open>auto simp: one_segment_def\<close>)
  with False assms show ?thesis
    by (subst wss_put.simps) (auto simp: one_segment_def wss_append_def Let_def)
qed

lemma put_lines_one_segment:
  "one_segment s ys \<Longrightarrow> length ys + length (concat xs) < StaticBufferSize \<Longrightarrow>
    \<exists>s'. put_lines xs s = Some s' \<and> one_segment s' (ys @ concat xs)"
proof (induction xs arbitrary: s ys)
  case (Cons x xs)
  with one_segment_put [of s ys x] obtain s1 where s1: "wss_put s x = Some s1" "one_segment s1 (ys @ x)" by auto
  with Cons.IH [OF s1(2)] Cons.prems show ?case by (auto simp: put_lines_def)
qed (simp add: put_lines_def)

section \<open>The shared parts of ReadHeader\<close>

definition filled :: "'a Connection_scheme \<Rightarrow> 'a Connection_scheme \<Rightarrow> bool" where
  "filled c c' \<longleftrightarrow> c' = c \<lparr> c_socket := c_socket c', c_buffer := c_buffer c', c_bufferLength := c_bufferLength c' \<rparr>
     \<and> s_fd (c_socket c') = s_fd (c_socket c) \<and> s_timeout (c_socket c') = s_timeout (c_socket c)"

lemma filledD:
  assumes "filled c c'"
  shows "idle c' = idle c" "c_state c' = c_state c" "Connection.more c' = Connection.more c"
    "c_header c' = c_header c" "c_response c' = c_response c" "unanswered c' = unanswered c" "c_request c' = c_request c"
    "c_requestAllocated c' = c_requestAllocated c"
    "s_fd (c_socket c') = s_fd (c_socket c)" "s_timeout (c_socket c') = s_timeout (c_socket c)"
proof -
  obtain s mem n where c: "c' = c \<lparr> c_socket := s, c_buffer := mem, c_bufferLength := n \<rparr>"
    using assms unfolding filled_def by blast
  show "idle c' = idle c" "c_state c' = c_state c" "Connection.more c' = Connection.more c"
    "c_header c' = c_header c" "c_response c' = c_response c" "unanswered c' = unanswered c" "c_request c' = c_request c"
    "c_requestAllocated c' = c_requestAllocated c"
    by (simp_all add: c idle_def unanswered_def)
  show "s_fd (c_socket c') = s_fd (c_socket c)" "s_timeout (c_socket c') = s_timeout (c_socket c)"
    using assms by (simp_all add: filled_def)
qed

lemma receive_buffer_post:
  assumes "receive_buffer os ini c w = Some (r, c', w')" "buffers_ok c" "idle c"
    and log: "stream_log os (s_fd (c_socket c)) net"
  shows "\<exists>data c1. net w' = log_received data (net w) \<and> filled c c1 \<and> buffers_ok c1
    \<and> ((\<exists>eof. r = Inr (False, eof)) \<and> c' = ini False c1 \<or> r = Inr (True, False) \<and> c' = c1 \<and> unread c1 = unread c @ data)"
proof -
  let ?n = "c_bufferLength c"
  obtain ok data eof s w1 where rcv: "Receive os (MaxBufferLength - ?n) (- 1) (c_socket c) w = Some ((ok, data, eof), s, w1)"
    using assms(1) by (auto simp: receive_buffer_def split: option.splits)
  note R = Receive_post [OF rcv log]
  from assms(2) have len: "length (c_buffer c) = MaxBufferLength + 1" "?n \<le> MaxBufferLength" by (simp_all add: buffers_ok_def)
  with R(1) length_stored [of data] obtain mem where mem: "store ?n (stored data) (c_buffer c) = Some mem"
    using store_fits [of ?n "stored data" "c_buffer c"] by fastforce
  let ?c1 = "c \<lparr> c_socket := s, c_buffer := mem \<rparr>" and ?c2 = "c \<lparr> c_socket := s, c_buffer := mem, c_bufferLength := ?n + length data \<rparr>"
  have f: "filled c ?c1" "filled c ?c2" using R(4,5) by (auto simp: filled_def intro: Connection.equality)
  have b: "buffers_ok ?c1" "buffers_ok ?c2" using assms(2) mem_store_length [OF mem] R(1) len(2)
    by (simp_all add: buffers_ok_def)
  have "w' = w1" "r = Inr (ok, eof)" "c' = (if ok then ?c2 else ini False ?c1)"
    using assms(1) by (auto simp: receive_buffer_def rcv mem Let_def split: if_splits)
  moreover have "unread ?c2 = unread c @ data"
    using store_stored [OF mem, of 0] assms(3) by (simp add: unread_def idle_def)
  ultimately show ?thesis using R(2,3) f b by (cases ok) fastforce+
qed

lemma place_request_post:
  assumes "place_request os zero b c w = (r, w')" "buffers_ok c" "b \<le> c_bufferLength c"
    and avail: "c_contentAvail c = c_bufferLength c - b"
    and laws: "stream_log os fd net" "alloc_ok os"
  shows "net w' = net w" "\<And>c'. r = Some c' \<Longrightarrow>
    c' = c \<lparr> c_request := c_request c', c_requestAllocated := c_requestAllocated c' \<rparr> \<and> buffers_ok c' \<and> request_ok c'
      \<and> unread c' = drop b (take (c_bufferLength c) (c_buffer c))"
proof -
  have len: "length (c_buffer c) = MaxBufferLength + 1" "c_bufferLength c \<le> MaxBufferLength"
    using assms(2) by (simp_all add: buffers_ok_def)
  show "net w' = net w"
    using assms(1) stream_logD(8) [OF laws(1)] by (auto simp: place_request_def split: if_splits prod.splits option.splits)
  fix c'
  assume r: "r = Some c'"
  let ?body = "take (c_contentAvail c) (drop b (c_buffer c))"
  have body: "?body = drop b (take (c_bufferLength c) (c_buffer c))" by (simp add: avail drop_take)
  have blen: "length ?body = c_contentAvail c" using len assms(3) avail by simp
  show "c' = c \<lparr> c_request := c_request c', c_requestAllocated := c_requestAllocated c' \<rparr> \<and> buffers_ok c' \<and> request_ok c'
      \<and> unread c' = drop b (take (c_bufferLength c) (c_buffer c))"
  proof (cases "c_contentLength c > MaxBufferLength - b")
    case False
    with assms(1) r have c': "c' = c \<lparr> c_requestAllocated := False, c_request := InBuffer b \<rparr>" by (simp add: place_request_def)
    with False assms(2,3) len avail body show ?thesis
      by (simp add: buffers_ok_def request_ok_def unread_def request_memory_def)
  next
    case True
    with assms(1) r obtain block where m: "sys_malloc os (c_contentLength c + 1) w = (Some block, w')"
      and c': "c' = c \<lparr> c_request := Allocated (?body @ drop (length ?body) (if zero then replicate (c_contentLength c + 1) 0 else block)),
        c_requestAllocated := True \<rparr>"
      by (auto simp: place_request_def split: prod.splits option.splits)
    have "length block = c_contentLength c + 1" using laws(2) m unfolding alloc_ok_def by blast
    moreover have "c_contentAvail c \<le> c_contentLength c" using True len(2) avail by linarith
    ultimately show ?thesis using assms(2) blen body by (simp add: c' buffers_ok_def request_ok_def unread_def request_memory_def)
  qed
qed

section \<open>The operations return\<close>

text \<open>With the timeout 0 no call waits; a loop that writes advances with every segment.\<close>

lemma timeout_default: "s_timeout s \<le> 0 \<Longrightarrow> timeout_of (- 1) s = 0"
  by (simp add: timeout_of_def)

lemma receive_buffer_returns:
  assumes "clock_runs os" "s_timeout (c_socket c) \<le> 0"
  shows "\<exists>r. receive_buffer os ini c w = Some r"
proof -
  obtain ok data eof s w1 where "Receive os (MaxBufferLength - c_bufferLength c) (- 1) (c_socket c) w = Some ((ok, data, eof), s, w1)"
    using Receive_returns [OF assms(1) timeout_default [OF assms(2)]] by (metis prod_cases3)
  then show ?thesis by (auto simp: receive_buffer_def Let_def split: option.split)
qed

lemma ReadRequest_returns:
  assumes "clock_runs os" "s_timeout (c_socket c) \<le> 0"
  shows "\<exists>r. ReadRequest os v c w = Some r"
proof -
  obtain ok data eof s w1 where "Receive os (c_contentLength c - c_contentAvail c) (- 1) (c_socket c) w = Some ((ok, data, eof), s, w1)"
    using Receive_returns [OF assms(1) timeout_default [OF assms(2)]] by (metis prod_cases3)
  then show ?thesis by (auto simp: ReadRequest_def request_complete_def Let_def split: option.split)
qed

lemma Send_returns_all:
  assumes "clock_runs os" "s_timeout s \<le> 0" "stream_log os (s_fd s) net"
  obtains ok n s' w' where "Send os buffer (- 1) s w = Some ((ok, n), s', w')" "ok \<Longrightarrow> n = length buffer"
    "s_fd s' = s_fd s" "s_timeout s' = s_timeout s"
proof -
  obtain ok n s' w' where "Send os buffer (- 1) s w = Some ((ok, n), s', w')"
    using Send_returns [OF assms(1) timeout_default [OF assms(2)]] by (metis prod.exhaust)
  from that [OF this] Send_post [OF this assms(3)] show thesis by blast
qed

lemma write_body_returns:
  assumes "clock_runs os" "s_timeout (c_socket c) \<le> 0" "stream_log os (s_fd (c_socket c)) net" "wss_ok (c_response c)"
  shows "\<exists>r. write_body os c w = Some r"
  using assms
proof (induction "wss_length (c_response c) - c_resultBytesWritten c" arbitrary: c w rule: less_induct)
  case less
  let ?b = "segment_at (c_response c) (c_resultBytesWritten c)"
  show ?case
  proof (cases "c_resultBytesWritten c < wss_length (c_response c)")
    case False
    then show ?thesis by (subst write_body.simps) simp
  next
    case True
    obtain ok n s w1 where snd: "Send os ?b (- 1) (c_socket c) w = Some ((ok, n), s, w1)" "ok \<Longrightarrow> n = length ?b"
      "s_fd s = s_fd (c_socket c)" "s_timeout s = s_timeout (c_socket c)"
      using Send_returns_all [OF less(2,3,4), of ?b w thesis] by blast
    show ?thesis
    proof (cases ok)
      case False
      with True snd(1) show ?thesis by (subst write_body.simps) (simp add: Let_def)
    next
      case okt: True
      let ?c2 = "c \<lparr> c_socket := s, c_resultBytesWritten := c_resultBytesWritten c + n \<rparr>"
      have "0 < n" using segment_at_content [OF less(5) True] snd(2) okt by auto
      with True less(2-5) snd(3,4) have "\<exists>r. write_body os ?c2 w1 = Some r" by (intro less(1)) simp_all
      with True okt snd(1,2) show ?thesis by (subst write_body.simps) (simp add: Let_def)
    qed
  qed
qed

lemma write_header_returns:
  assumes "clock_runs os" "s_timeout (c_socket c) \<le> 0" "stream_log os (s_fd (c_socket c)) net" "wss_ok (c_header c)"
    "c_resultBytesWritten c = 0"
  shows "\<exists>r. write_header os c w = Some r"
  using assms
proof (induction "wss_length (c_header c) - c_headerBytesWritten c" arbitrary: c w rule: less_induct)
  case less
  let ?b = "segment_at (c_header c) 0"
  show ?case
  proof (cases "c_headerBytesWritten c < wss_length (c_header c)")
    case False
    then show ?thesis by (subst write_header.simps) simp
  next
    case True
    obtain ok n s w1 where snd: "Send os ?b (- 1) (c_socket c) w = Some ((ok, n), s, w1)" "ok \<Longrightarrow> n = length ?b"
      "s_fd s = s_fd (c_socket c)" "s_timeout s = s_timeout (c_socket c)"
      using Send_returns_all [OF less(2,3,4), of ?b w thesis] by blast
    show ?thesis
    proof (cases ok)
      case False
      with True snd(1) less(6) show ?thesis by (subst write_header.simps) (simp add: Let_def)
    next
      case okt: True
      let ?c2 = "c \<lparr> c_socket := s, c_headerBytesWritten := c_headerBytesWritten c + n \<rparr>"
      have "0 < n" using segment_at_content [OF less(5), of 0] snd(2) okt True by auto
      with True less(2-6) snd(3,4) have "\<exists>r. write_header os ?c2 w1 = Some r" by (intro less(1)) simp_all
      with True okt snd(1,2) less(6) show ?thesis by (subst write_header.simps) (simp add: Let_def)
    qed
  qed
qed

lemma WriteResponse_returns:
  assumes "clock_runs os" "s_timeout (c_socket c) \<le> 0" "stream_log os (s_fd (c_socket c)) net" "wss_ok (c_header c)"
    "wss_ok (c_response c)" "segment_at (c_header c) 0 = wss_content (c_header c)"
    "c_headerBytesWritten c = 0" "c_resultBytesWritten c = 0"
  shows "\<exists>r. WriteResponse os v c w = Some r"
proof -
  obtain now w0 where t: "sys_time os w = (now, w0)" by fastforce
  let ?c0 = "c \<lparr> c_lastTransactionTime := now \<rparr>"
  have "\<exists>r. write_header os ?c0 w0 = Some r"
    by (rule write_header_returns [OF assms(1)]) (use assms in simp_all)
  then obtain r1 c1 w1 where h: "write_header os ?c0 w0 = Some (r1, c1, w1)" by (metis prod_cases3)
  have "write_post (wss_content (c_header ?c0)) (net w0) ?c0 r1 c1 (net w1)"
    using write_header_post(1) [OF h, of net] assms by simp
  then have D: "transmitted ?c0 c1" by (simp add: write_post_def)
  have "\<exists>r. write_body os c1 w1 = Some r"
    using write_body_returns [of os c1 net w1] writtenD [OF D] assms by simp
  then show ?thesis by (cases r1) (auto simp: WriteResponse_def t h Let_def split: write_result.split)
qed

end
