(* ===== verification/AnyRpc_Protocol.thy ===== *)
theory AnyRpc_Protocol
  imports AnyRpc_Connection
begin

text \<open>
  What \<^verbatim>\<open>Connection::Process\<close> relies on of the class derived from \<^verbatim>\<open>Connection\<close>, as a locale. A protocol
  has a description \<open>st\<close> of its connections: with the exchanges \<open>ms\<close> so far and the log of the network,
  \<open>st l ms c\<close> says what state the connection may be in. The virtual functions and the base class keep
  it; then so do \<^verbatim>\<open>Process\<close> and every sequence of calls. \<^verbatim>\<open>TcpConnection\<close> and \<^verbatim>\<open>HttpConnection\<close> are
  interpretations.
\<close>

section \<open>Requests and handlers\<close>

lemma size_of_int_nonneg: "0 \<le> sint n \<Longrightarrow> sint n = int (size_of_int n)"
proof -
  assume pos: "0 \<le> sint n"
  have "sint n < 2 ^ (LENGTH(32) - 1)" by (rule sint_lt)
  then have lt: "sint n < 2 ^ 64" by simp
  have "uint (scast n :: 64 word) = take_bit 64 (sint n)"
    by (simp only: scast_eq unsigned_of_int) simp
  also have "... = sint n" using pos lt by (intro take_bit_int_eq_self) simp_all
  finally show ?thesis unfolding size_of_int_def by (simp only: unat_eq_nat_uint) (use pos in simp)
qed

lemma request_body:
  assumes "request_ok c" "c_contentLength c \<le> c_contentAvail c" "buffers_ok c"
  shows "take (c_contentLength c) (unread c) = take (c_contentLength c) (request_memory c)"
    "length (take (c_contentLength c) (unread c)) = c_contentLength c"
proof -
  have "c_contentAvail c \<le> length (request_memory c)"
    using assms by (auto simp: request_ok_def request_memory_def buffers_ok_def split: request_ptr.splits)
  then show "take (c_contentLength c) (unread c) = take (c_contentLength c) (request_memory c)"
    "length (take (c_contentLength c) (unread c)) = c_contentLength c"
    using assms(2) request_ok_ptr [OF assms(1)] by (simp_all add: unread_def min_def)
qed

lemma dec_nat_size: "n < 2 ^ 64 \<Longrightarrow> length (dec_nat n) \<le> 20"
  by (rule dec_nat_length) simp_all

lemma pending_empty: "idle c \<Longrightarrow> buffers_ok c \<Longrightarrow> unread c = [] \<longleftrightarrow> c_bufferLength c = 0"
  by (auto simp: idle_def unread_def buffers_ok_def)

definition log_executed :: "bytes \<Rightarrow> bytes option \<Rightarrow> netlog \<Rightarrow> netlog" where
  "log_executed b r l = l \<lparr> executed := executed l @ [(b, r)] \<rparr>"

lemma log_executed_simps [simp]:
  "received (log_executed b r l) = received l" "sent (log_executed b r l) = sent l"
  "executed (log_executed b r l) = executed l @ [(b, r)]"
  by (simp_all add: log_executed_def)

text \<open>
  What is relied on of the handler: it writes its reply, which \<^verbatim>\<open>size_t\<close> can count, to the stream, and
  does not use the connection. Its calls are logged with the request and the reply.
\<close>

definition handler_logged :: "('m, 'w) rpc_handler \<Rightarrow> ('w \<Rightarrow> netlog) \<Rightarrow> bool" where
  "handler_logged handler net \<longleftrightarrow>
     (\<forall>req len rs m w b rs' m' w'. handler req len rs m w = (Inr (b, rs'), m', w') \<and> wss_ok rs \<and> wss_content rs = [] \<longrightarrow>
        wss_ok rs' \<and> length (wss_content rs') < 2 ^ 64 \<and>
        net w' = log_executed (take len req) (if b then Some (wss_content rs') else None) (net w))"

text \<open>The exceptions of a handler.\<close>

definition handler_raises :: "('m, 'w) rpc_handler \<Rightarrow> exn \<Rightarrow> bool" where
  "handler_raises handler x \<longleftrightarrow> (\<exists>req len rs m w m' w'. handler req len rs m w = (Inl x, m', w'))"

lemma handler_raisesI: "handler req len rs m w = (Inl x, m', w') \<Longrightarrow> handler_raises handler x"
  unfolding handler_raises_def by blast

section \<open>Runs of a connection\<close>

text \<open>\<open>Process_passes n\<close> is the first \<open>n\<close> turns of the loop of \<^verbatim>\<open>Process\<close>, as long as they ask for another.\<close>

fun Process_passes ::
    "nat \<Rightarrow> 'w os \<Rightarrow> ('a Connection_scheme, 'm, 'w) connection_virtuals \<Rightarrow> bool \<Rightarrow> 'a Connection_scheme \<Rightarrow> 'm \<Rightarrow> 'w \<Rightarrow>
      ((exn + bool) \<times> 'a Connection_scheme \<times> 'm \<times> 'w) option" where
  "Process_passes 0 os v e c m w = Some (Inr True, c, m, w)"
| "Process_passes (Suc n) os v e c m w =
     (case Process_pass os v e c m w of
        Some (Inr True, c1, m1, w1) \<Rightarrow> Process_passes n os v e c1 m1 w1
      | r \<Rightarrow> r)"

text \<open>
  \<open>conn_reach os v net mok start c w\<close>: the states a connection can get into. It is created; \<^verbatim>\<open>Process\<close> is
  called, with or without execution and with any state \<open>m\<close> of the manager that satisfies \<open>mok\<close>; the
  server sets its flags; the rest of the world changes but does not use the connection.
\<close>

inductive conn_reach ::
    "'w os \<Rightarrow> ('a Connection_scheme, 'm, 'w) connection_virtuals \<Rightarrow> ('w \<Rightarrow> netlog) \<Rightarrow> ('m \<Rightarrow> bool) \<Rightarrow>
      ('a Connection_scheme \<Rightarrow> 'w \<Rightarrow> bool) \<Rightarrow> 'a Connection_scheme \<Rightarrow> 'w \<Rightarrow> bool"
  for os :: "'w os" and v :: "('a Connection_scheme, 'm, 'w) connection_virtuals" and net :: "'w \<Rightarrow> netlog"
    and mok :: "'m \<Rightarrow> bool" and start :: "'a Connection_scheme \<Rightarrow> 'w \<Rightarrow> bool" where
  reach_new: "start c w \<Longrightarrow> conn_reach os v net mok start c w"
| reach_world: "conn_reach os v net mok start c w \<Longrightarrow> net w' = net w \<Longrightarrow> conn_reach os v net mok start c w'"
| reach_active: "conn_reach os v net mok start c w \<Longrightarrow> conn_reach os v net mok start (SetActive b c) w"
| reach_close: "conn_reach os v net mok start c w \<Longrightarrow> conn_reach os v net mok start (SetCloseState c) w"
| reach_process: "conn_reach os v net mok start c w \<Longrightarrow> mok m \<Longrightarrow>
      Process os v e c m w = Some (Inr (), c', m', w') \<Longrightarrow> conn_reach os v net mok start c' w'"

definition on_socket :: "int \<Rightarrow> 'a Connection_scheme \<Rightarrow> bool" where
  "on_socket fd c \<longleftrightarrow> s_fd (c_socket c) = fd \<and> s_timeout (c_socket c) \<le> 0"

lemma close_simps [simp]: "c_state (SetCloseState c) = CLOSE_CONNECTION" "on_socket fd (SetCloseState c) = on_socket fd c"
  by (simp_all add: SetCloseState_def on_socket_def)

lemma active_simps [simp]: "c_state (SetActive b c) = c_state c" "on_socket fd (SetActive b c) = on_socket fd c"
  by (simp_all add: SetActive_def on_socket_def)

lemma write_phase_normal: "write_phase os v nm c m w = Some (r, s) \<Longrightarrow> \<exists>b. r = Inr b"
  by (auto simp: write_phase_def split: if_splits option.splits bool.splits)

text \<open>Nothing is left to do: \<open>partial_header\<close> says that the buffer holds no complete header.\<close>

definition waiting :: "('a Connection_scheme \<Rightarrow> bool) \<Rightarrow> 'a Connection_scheme \<Rightarrow> bool" where
  "waiting partial_header c \<longleftrightarrow>
     (case c_state c of
        READ_HEADER \<Rightarrow> partial_header c
      | READ_REQUEST \<Rightarrow> c_contentAvail c < c_contentLength c
      | CLOSE_CONNECTION \<Rightarrow> True
      | _ \<Rightarrow> False)"

section \<open>The contract of a protocol\<close>

locale connection_protocol =
  fixes os :: "'w os" and v :: "('a Connection_scheme, 'm, 'w) connection_virtuals" and net :: "'w \<Rightarrow> netlog" and fd :: int
    and laws :: bool and st :: "netlog \<Rightarrow> 'x list \<Rightarrow> 'a Connection_scheme \<Rightarrow> bool"
    and partial_header :: "'a Connection_scheme \<Rightarrow> bool" and mok :: "'m \<Rightarrow> bool" and raises :: "exn \<Rightarrow> bool"
    and start :: "'a Connection_scheme \<Rightarrow> 'w \<Rightarrow> bool"
  assumes started: "start c w \<Longrightarrow> on_socket fd c \<and> st (net w) [] c \<and> c_state c \<noteq> WRITE_RESPONSE"
    and header_step: "laws \<Longrightarrow> on_socket fd c \<Longrightarrow> st (net w) ms c \<Longrightarrow> c_state c = READ_HEADER \<Longrightarrow>
      v_ReadHeader v c w = Some (r, c', w') \<Longrightarrow> on_socket fd c' \<and>
        (r = Inr True \<and> st (net w') ms c' \<and> (c_state c' = READ_HEADER \<and> partial_header c' \<or> c_state c' = READ_REQUEST)
         \<or> r = Inr False \<and> st (net w') ms (SetCloseState c'))"
    and body_step: "laws \<Longrightarrow> on_socket fd c \<Longrightarrow> st (net w) ms c \<Longrightarrow> c_state c = READ_REQUEST \<Longrightarrow>
      ReadRequest os v c w = Some (r, c', w') \<Longrightarrow> on_socket fd c' \<and>
        (r = Inr True \<and> st (net w') ms c' \<and>
           (c_state c' = READ_REQUEST \<and> c_contentAvail c' < c_contentLength c' \<or> c_state c' = EXECUTE_REQUEST)
         \<or> r = Inr False \<and> st (net w') ms (SetCloseState c'))"
    and execute_step: "laws \<Longrightarrow> on_socket fd c \<Longrightarrow> mok m \<Longrightarrow> st (net w) ms c \<Longrightarrow> c_state c = EXECUTE_REQUEST \<Longrightarrow>
      v_ExecuteRequest v c m w = Some (r, c', m', w') \<Longrightarrow>
        (case r of Inl x \<Rightarrow> raises x | Inr b \<Rightarrow> on_socket fd c' \<and> mok m' \<and>
          (b \<and> (\<exists>e. st (net w') (ms @ [e]) c') \<and> (c_state c' = READ_HEADER \<or> c_state c' = WRITE_RESPONSE)
           \<or> \<not> b \<and> st (net w') ms (SetCloseState c')))"
    and write_step: "laws \<Longrightarrow> on_socket fd c \<Longrightarrow> st (net w) ms c \<Longrightarrow> c_state c = WRITE_RESPONSE \<Longrightarrow>
      WriteResponse os v c w = Some (b, c', w') \<Longrightarrow> on_socket fd c' \<and>
        (b \<and> st (net w') ms c' \<and> c_state c' = READ_HEADER \<or> \<not> b \<and> st (net w') ms (SetCloseState c'))"
    and drained: "st l ms c \<Longrightarrow> c_state c = READ_HEADER \<Longrightarrow> c_bufferLength c = 0 \<Longrightarrow> partial_header c"
    and active: "st l ms c \<Longrightarrow> st l ms (SetActive b c)"
    and closing: "st l ms c \<Longrightarrow> c_state c \<noteq> WRITE_RESPONSE \<Longrightarrow> st l ms (SetCloseState c)"
    and header_returns: "laws \<Longrightarrow> clock_runs os \<Longrightarrow> on_socket fd c \<Longrightarrow> \<exists>r. v_ReadHeader v c w = Some r"
    and execute_returns: "laws \<Longrightarrow> st l ms c \<Longrightarrow> c_state c = EXECUTE_REQUEST \<Longrightarrow> \<exists>r. v_ExecuteRequest v c m w = Some r"
    and write_returns: "laws \<Longrightarrow> clock_runs os \<Longrightarrow> on_socket fd c \<Longrightarrow> st l ms c \<Longrightarrow> c_state c = WRITE_RESPONSE \<Longrightarrow>
      \<exists>r. WriteResponse os v c w = Some r"
begin

lemma read_phases_step:
  assumes "read_phases os v c w = Some (r, c', w')" laws "on_socket fd c" "st (net w) ms c" "c_state c \<noteq> WRITE_RESPONSE"
  shows "(r = Inr True \<and> (waiting partial_header c' \<or> c_state c' = EXECUTE_REQUEST) \<or> r = Inr False \<and> c_state c' = CLOSE_CONNECTION)
    \<and> st (net w') ms c' \<and> on_socket fd c'"
proof -
  obtain r1 c1 w1 where h: "(if c_state c = READ_HEADER then v_ReadHeader v c w else Some (Inr True, c, w)) = Some (r1, c1, w1)"
    using assms(1) by (auto simp: read_phases_def split: option.splits)
  have H: "(r1 = Inr True \<and> st (net w1) ms c1 \<and>
        (c_state c1 = READ_HEADER \<longrightarrow> partial_header c1) \<and> c_state c1 \<noteq> WRITE_RESPONSE
      \<or> r1 = Inr False \<and> st (net w1) ms (SetCloseState c1)) \<and> on_socket fd c1"
  proof (cases "c_state c = READ_HEADER")
    case True
    with h have "v_ReadHeader v c w = Some (r1, c1, w1)" by simp
    from header_step [OF assms(2-4) True this] show ?thesis by auto
  next
    case False
    with h assms show ?thesis by auto
  qed
  from H show ?thesis
  proof (elim disjE conjE)
    assume 1: "r1 = Inr False" "st (net w1) ms (SetCloseState c1)" "on_socket fd c1"
    then have "r = Inr False" "c' = SetCloseState c1" "w' = w1" using assms(1) by (simp_all add: read_phases_def h)
    with 1 show ?thesis by simp
  next
    assume 1: "r1 = Inr True" "st (net w1) ms c1" "c_state c1 = READ_HEADER \<longrightarrow> partial_header c1"
      "c_state c1 \<noteq> WRITE_RESPONSE" "on_socket fd c1"
    show ?thesis
    proof (cases "c_state c1 = READ_REQUEST")
      case False
      with assms(1) 1(1) have "r = Inr True" "c' = c1" "w' = w1" by (simp_all add: read_phases_def h)
      with 1 False show ?thesis by (cases "c_state c1") (simp_all add: waiting_def)
    next
      case True
      obtain r2 c2 w2 where q: "ReadRequest os v c1 w1 = Some (r2, c2, w2)"
        using assms(1) True 1(1) by (auto simp: read_phases_def h split: option.splits)
      from body_step [OF assms(2) 1(5,2) True q] assms(1) True 1(1) show ?thesis
        by (auto simp: read_phases_def h q waiting_def)
    qed
  qed
qed

lemma write_phase_step:
  assumes "write_phase os v nm c m w = Some (r, c', m', w')" laws "on_socket fd c" "st (net w) ms c"
    and nm: "c_state c \<noteq> WRITE_RESPONSE \<Longrightarrow> \<not> nm \<Longrightarrow> e \<Longrightarrow> waiting partial_header c"
  shows "\<exists>b. r = Inr b \<and> m' = m \<and> st (net w') ms c' \<and> on_socket fd c' \<and> c_state c' \<noteq> WRITE_RESPONSE
    \<and> (\<not> b \<and> e \<longrightarrow> waiting partial_header c') \<and> (b \<longrightarrow> nm \<or> c_state c = WRITE_RESPONSE)"
proof (cases "c_state c = WRITE_RESPONSE")
  case False
  with assms(1) have "r = Inr nm" "c' = c" "w' = w" "m' = m" by (auto simp: write_phase_def)
  with assms nm False show ?thesis by (intro exI [of _ nm]) simp
next
  case True
  obtain b c1 w1 where wr: "WriteResponse os v c w = Some (b, c1, w1)"
    using assms(1) True by (auto simp: write_phase_def split: option.splits)
  note W = write_step [OF assms(2-4) True wr]
  show ?thesis
  proof (cases b)
    case False
    with assms(1) True have out: "r = Inr False" "c' = SetCloseState c1" "w' = w1" "m' = m" by (auto simp: write_phase_def wr)
    have "waiting partial_header c'" using out by (simp add: waiting_def)
    with W False show ?thesis unfolding out by (intro exI [of _ False]) simp
  next
    case b: True
    with W have s: "st (net w1) ms c1" "c_state c1 = READ_HEADER" "on_socket fd c1" by simp_all
    have wt: "\<not> more_data c1 \<Longrightarrow> waiting partial_header c1"
      using drained [OF s(1,2)] s(2) by (simp add: more_data_def waiting_def)
    have out: "r = Inr (more_data c1)" "c' = c1" "w' = w1" "m' = m" using assms(1) True b by (auto simp: write_phase_def wr)
    with s wt True show ?thesis unfolding out by (intro exI [of _ "more_data c1"]) simp
  qed
qed

definition pass_post :: "bool \<Rightarrow> 'x list \<Rightarrow> (exn + bool) \<Rightarrow> 'a Connection_scheme \<Rightarrow> 'm \<Rightarrow> 'w \<Rightarrow> bool" where
  "pass_post e ms r c m w \<longleftrightarrow> (case r of Inl x \<Rightarrow> raises x | Inr nm \<Rightarrow>
     on_socket fd c \<and> mok m \<and> c_state c \<noteq> WRITE_RESPONSE \<and> (\<not> nm \<and> e \<longrightarrow> waiting partial_header c)
     \<and> (\<exists>es. st (net w) (ms @ es) c \<and> (nm \<longrightarrow> es \<noteq> [])))"

lemma same_exchanges: "st l ms c \<Longrightarrow> \<exists>es. st l (ms @ es) c"
  by (rule exI [of _ "[]"]) simp

lemma Process_pass_step:
  assumes "Process_pass os v e c m w = Some (r, c', m', w')" laws "on_socket fd c" "mok m" "st (net w) ms c"
    "c_state c \<noteq> WRITE_RESPONSE"
  shows "pass_post e ms r c' m' w'"
proof -
  obtain r1 c1 w1 where rp: "read_phases os v c w = Some (r1, c1, w1)"
    using assms(1) by (auto simp: Process_pass_def split: option.splits)
  from read_phases_step [OF rp assms(2,3,5,6)]
  have R: "r1 = Inr True \<and> (waiting partial_header c1 \<or> c_state c1 = EXECUTE_REQUEST) \<or> r1 = Inr False \<and> c_state c1 = CLOSE_CONNECTION"
    and s1: "st (net w1) ms c1" "on_socket fd c1" by auto
  show ?thesis
  proof (cases "r1 = Inr False")
    case True
    with assms(1) R s1 have "r = Inr False" "c' = c1" "w' = w1" "m' = m" "c_state c1 = CLOSE_CONNECTION"
      by (auto simp: Process_pass_def rp)
    with s1 assms(4) show ?thesis by (auto simp: pass_post_def waiting_def intro: same_exchanges)
  next
    case False
    with R have r1: "r1 = Inr True" "waiting partial_header c1 \<or> c_state c1 = EXECUTE_REQUEST" by auto
    show ?thesis
    proof (cases "e \<and> c_state c1 = EXECUTE_REQUEST")
      case False
      with assms(1) r1(1) have wp: "write_phase os v False c1 m w1 = Some (r, c', m', w')"
        by (auto simp: Process_pass_def rp)
      have "c_state c1 \<noteq> WRITE_RESPONSE" using r1(2) by (auto simp: waiting_def)
      from write_phase_step [OF wp assms(2) s1(2,1), of e] r1(2) False this obtain b where
        b: "r = Inr b" "m' = m" "st (net w') ms c'" "on_socket fd c'" "c_state c' \<noteq> WRITE_RESPONSE" "\<not> b"
          "\<not> b \<and> e \<longrightarrow> waiting partial_header c'" by auto
      with same_exchanges [OF b(3)] assms(4) show ?thesis by (simp add: pass_post_def)
    next
      case True
      obtain r2 c2 m2 w2 where ex: "v_ExecuteRequest v c1 m w1 = Some (r2, c2, m2, w2)"
        using assms(1) r1(1) True by (auto simp: Process_pass_def rp split: option.splits)
      note X = execute_step [OF assms(2) s1(2) assms(4) s1(1) _ ex]
      consider y where "r2 = Inl y" | "r2 = Inr False" | "r2 = Inr True" by (cases r2) auto
      then show ?thesis
      proof cases
        case 1
        with assms(1) r1(1) True X show ?thesis by (auto simp: Process_pass_def rp ex pass_post_def)
      next
        case 2
        with assms(1) r1(1) True X show ?thesis
          by (auto simp: Process_pass_def rp ex pass_post_def waiting_def intro: same_exchanges)
      next
        case 3
        with X True obtain x where
          x: "st (net w2) (ms @ [x]) c2" "c_state c2 = READ_HEADER \<or> c_state c2 = WRITE_RESPONSE" "on_socket fd c2" "mok m2"
          by auto
        from assms(1) r1(1) True 3 have wp: "write_phase os v (more_data c2) c2 m2 w2 = Some (r, c', m', w')"
          by (auto simp: Process_pass_def rp ex)
        have "c_state c2 \<noteq> WRITE_RESPONSE \<Longrightarrow> \<not> more_data c2 \<Longrightarrow> waiting partial_header c2"
          using x(2) drained [OF x(1)] by (auto simp: more_data_def waiting_def)
        with write_phase_step [OF wp assms(2) x(3,1), of e] x(4) show ?thesis
          by (auto simp: pass_post_def intro: exI [of _ "[x]"])
      qed
    qed
  qed
qed

text \<open>\<^verbatim>\<open>Process\<close> keeps the description; an exception is one that the protocol may raise.\<close>

definition process_post :: "bool \<Rightarrow> 'x list \<Rightarrow> (exn + unit) \<Rightarrow> 'a Connection_scheme \<Rightarrow> 'w \<Rightarrow> bool" where
  "process_post e ms r c w \<longleftrightarrow> (case r of Inl x \<Rightarrow> raises x | Inr _ \<Rightarrow>
     on_socket fd c \<and> c_state c \<noteq> WRITE_RESPONSE \<and> (e \<longrightarrow> waiting partial_header c) \<and> (\<exists>es. st (net w) (ms @ es) c))"

lemma Process_step:
  assumes "Process os v e c m w = Some r" laws "on_socket fd c" "mok m" "st (net w) ms c" "c_state c \<noteq> WRITE_RESPONSE"
  shows "process_post e ms (fst r) (fst (snd r)) (snd (snd (snd r)))"
proof -
  have "os' = os \<Longrightarrow> v' = v \<Longrightarrow> ?thesis" if "Process os' v' e c m w = Some r" for os' v'
    using that assms(2-)
  proof (induction arbitrary: ms rule: Process.raw_induct [rotated 1, consumes 1, case_names 1])
    case (1 loop os' v' e c m w r)
    obtain q c1 m1 w1 where ps: "Process_pass os v e c m w = Some (q, c1, m1, w1)"
      using 1(2-4) by (auto split: option.splits)
    note P = Process_pass_step [OF ps 1(5-9)]
    consider y where "q = Inl y" | "q = Inr False" | "q = Inr True" by (cases q) auto
    then show ?case
    proof cases
      case 1
      with \<open>_ = Some r\<close> ps P \<open>os' = os\<close> \<open>v' = v\<close> show ?thesis by (auto simp: pass_post_def process_post_def)
    next
      case 2
      with \<open>_ = Some r\<close> ps P \<open>os' = os\<close> \<open>v' = v\<close> show ?thesis by (auto simp: pass_post_def process_post_def)
    next
      case 3
      with \<open>_ = Some r\<close> ps \<open>os' = os\<close> \<open>v' = v\<close> have lp: "loop os' v' e c1 m1 w1 = Some r" by simp
      from P 3 obtain es where s: "on_socket fd c1" "mok m1" "st (net w1) (ms @ es) c1" "c_state c1 \<noteq> WRITE_RESPONSE"
        by (auto simp: pass_post_def)
      from 1(1) [OF lp 1(3-5) s] show ?thesis by (auto simp: process_post_def split: sum.splits)
    qed
  qed
  with assms(1) show ?thesis by blast
qed

section \<open>Process returns\<close>

lemma Process_pass_returns:
  assumes laws "clock_runs os" "on_socket fd c" "mok m" "st (net w) ms c" "c_state c \<noteq> WRITE_RESPONSE"
  shows "\<exists>r. Process_pass os v e c m w = Some r"
proof -
  have body_returns: "\<exists>r. ReadRequest os v c w = Some r" if "on_socket fd c" for c w
    using ReadRequest_returns [OF assms(2), of c v w] that by (simp add: on_socket_def)
  have write_phase: "\<exists>r. write_phase os v nm c m w = Some r" if w: "on_socket fd c" "st (net w) ms c" for nm c m w ms
  proof (cases "c_state c = WRITE_RESPONSE")
    case True
    obtain b c1 w1 where "WriteResponse os v c w = Some (b, c1, w1)"
      using write_returns [OF assms(1,2) w True] by (metis prod_cases3)
    with True show ?thesis by (cases b) (simp_all add: write_phase_def)
  qed (simp add: write_phase_def)
  have "\<exists>r. read_phases os v c w = Some r"
  proof (cases "c_state c = READ_HEADER")
    case False
    obtain r2 c2 w2 where "ReadRequest os v c w = Some (r2, c2, w2)" using body_returns [OF assms(3)] by (metis prod_cases3)
    with False show ?thesis by (auto simp: read_phases_def split: sum.split bool.split)
  next
    case True
    obtain r c1 w1 where h: "v_ReadHeader v c w = Some (r, c1, w1)"
      using header_returns [OF assms(1-3)] by (metis prod_cases3)
    from header_step [OF assms(1,3,5) True h] have "on_socket fd c1" by simp
    from body_returns [OF this, of w1] obtain r2 c2 w2 where "ReadRequest os v c1 w1 = Some (r2, c2, w2)" by (metis prod_cases3)
    with True h show ?thesis by (auto simp: read_phases_def split: sum.split bool.split)
  qed
  then obtain r1 c1 w1 where rp: "read_phases os v c w = Some (r1, c1, w1)" by (metis prod_cases3)
  from read_phases_step [OF rp assms(1,3,5,6)]
  have R: "r1 = Inr True \<or> r1 = Inr False" and s1: "st (net w1) ms c1" "on_socket fd c1" by auto
  show ?thesis
  proof (cases "r1 = Inr True \<and> e \<and> c_state c1 = EXECUTE_REQUEST")
    case False
    with R write_phase [OF s1(2,1), of False m] show ?thesis by (auto simp: Process_pass_def rp)
  next
    case True
    obtain r2 c2 m2 w2 where ex: "v_ExecuteRequest v c1 m w1 = Some (r2, c2, m2, w2)"
      using execute_returns [OF assms(1) s1(1)] True by (metis prod_cases4)
    note X = execute_step [OF assms(1) s1(2) assms(4) s1(1) _ ex]
    consider y where "r2 = Inl y" | "r2 = Inr False" | "r2 = Inr True" by (cases r2) auto
    then show ?thesis
    proof cases
      case 3
      with X True obtain x where "st (net w2) (ms @ [x]) c2" "on_socket fd c2" by auto
      from write_phase [OF this(2,1), of "more_data c2" m2] True 3 show ?thesis by (auto simp: Process_pass_def rp ex)
    qed (use True in \<open>auto simp: Process_pass_def rp ex\<close>)
  qed
qed

text \<open>Only an endless sequence of complete messages keeps \<^verbatim>\<open>Process\<close> from returning.\<close>

lemma Process_endless:
  assumes laws "clock_runs os" "Process os v e c m w = None" "on_socket fd c" "mok m" "st (net w) ms c" "c_state c \<noteq> WRITE_RESPONSE"
  shows "\<exists>c' m' w' es. Process_passes n os v e c m w = Some (Inr True, c', m', w') \<and> st (net w') (ms @ es) c' \<and> n \<le> length es"
  using assms(3-7)
proof (induction n arbitrary: ms c m w)
  case 0
  then show ?case by (auto intro: exI [of _ "[]"])
next
  case (Suc n)
  note c = Suc.prems
  obtain r c1 m1 w1 where ps: "Process_pass os v e c m w = Some (r, c1, m1, w1)"
    using Process_pass_returns [OF assms(1,2) c(2-5)] by (metis prod_cases4)
  have "r = Inr True"
  proof (rule ccontr)
    assume "r \<noteq> Inr True"
    with ps c(1) show False by (subst (asm) Process.simps) (auto split: sum.splits)
  qed
  with ps have ps': "Process_pass os v e c m w = Some (Inr True, c1, m1, w1)" by simp
  from Process_pass_step [OF ps' assms(1) c(2-5)] obtain es where
    P: "on_socket fd c1" "mok m1" "st (net w1) (ms @ es) c1" "c_state c1 \<noteq> WRITE_RESPONSE" "es \<noteq> []"
    by (auto simp: pass_post_def)
  have "Process os v e c1 m1 w1 = None"
    using c(1) by (subst (asm) Process.simps) (simp add: ps')
  from Suc.IH [OF this P(1-4)] obtain c' m' w' es' where
    "Process_passes n os v e c1 m1 w1 = Some (Inr True, c', m', w')" "st (net w') (ms @ es @ es') c'" "n \<le> length es'" by auto
  with P(5) have "Process_passes (Suc n) os v e c m w = Some (Inr True, c', m', w')"
    "st (net w') (ms @ es @ es') c'" "Suc n \<le> length (es @ es')" by (cases es; simp add: ps')+
  then show ?case by blast
qed

section \<open>Reachable connections\<close>

lemma reach_described:
  assumes "conn_reach os v net mok start c w" laws
  shows "\<exists>ms. on_socket fd c \<and> st (net w) ms c \<and> c_state c \<noteq> WRITE_RESPONSE"
  using assms(1)
proof induction
  case (reach_new c w)
  with started show ?case by blast
next
  case (reach_active c w b)
  with active show ?case by fastforce
next
  case (reach_close c w)
  with closing show ?case by fastforce
next
  case (reach_process c w m e c' m' w')
  then obtain ms where ms: "on_socket fd c" "st (net w) ms c" "c_state c \<noteq> WRITE_RESPONSE" by blast
  from Process_step [OF reach_process(3) assms(2) ms(1) reach_process(2) ms(2,3)] show ?case by (auto simp: process_post_def)
qed auto

lemma process_result:
  assumes "conn_reach os v net mok start c w" laws "clock_runs os" "mok m"
  shows "(\<exists>r c' m' w'. Process os v e c m w = Some (r, c', m', w')
      \<and> (case r of Inr _ \<Rightarrow> \<not> e \<or> waiting partial_header c' | Inl x \<Rightarrow> raises x))
    \<or> (\<exists>ms. st (net w) ms c \<and> (\<forall>n. \<exists>c' m' w' es. Process_passes n os v e c m w = Some (Inr True, c', m', w')
        \<and> st (net w') (ms @ es) c' \<and> n \<le> length es))"
proof -
  from reach_described [OF assms(1,2)] obtain ms where
    ms: "on_socket fd c" "st (net w) ms c" "c_state c \<noteq> WRITE_RESPONSE" by blast
  show ?thesis
  proof (cases "Process os v e c m w")
    case None
    from Process_endless [OF assms(2,3) None ms(1) assms(4) ms(2,3)] ms(2) show ?thesis by blast
  next
    case (Some q)
    obtain r c' m' w' where q: "q = (r, c', m', w')" by (metis prod_cases4)
    from Process_step [OF Some assms(2) ms(1) assms(4) ms(2,3)] Some q show ?thesis
      by (auto simp: process_post_def split: sum.splits)
  qed
qed

end

section \<open>Handlers that do not know the log\<close>

text \<open>
  Any handler that writes to its stream can be logged: the world of the connection is the world of
  the handler and the log of the network.
\<close>

definition writes_stream :: "('m, 'w) rpc_handler \<Rightarrow> bool" where
  "writes_stream handler \<longleftrightarrow>
     (\<forall>req len rs m w b rs' m' w'. handler req len rs m w = (Inr (b, rs'), m', w') \<and> wss_ok rs \<and> wss_content rs = [] \<longrightarrow>
        wss_ok rs' \<and> length (wss_content rs') < 2 ^ 64)"

definition log_handler :: "('m, 'w) rpc_handler \<Rightarrow> ('m, 'w \<times> netlog) rpc_handler" where
  "log_handler handler req len rs m wl =
     (case handler req len rs m (fst wl) of
        (Inl x, m', w') \<Rightarrow> (Inl x, m', (w', snd wl))
      | (Inr (b, rs'), m', w') \<Rightarrow>
          (Inr (b, rs'), m', (w', log_executed (take len req) (if b then Some (wss_content rs') else None) (snd wl))))"

lemma log_handler_logged:
  assumes "writes_stream handler"
  shows "handler_logged (log_handler handler) snd"
  unfolding handler_logged_def
proof (intro allI impI, elim conjE)
  fix req len rs m and w w' :: "'b \<times> netlog" and b rs' m'
  assume h: "log_handler handler req len rs m w = (Inr (b, rs'), m', w')" "wss_ok rs" "wss_content rs = []"
  obtain r m1 w1 where r: "handler req len rs m (fst w) = (r, m1, w1)" by (metis prod_cases3)
  with h(1) obtain y where y: "r = Inr y" by (cases r) (auto simp: log_handler_def)
  obtain b1 rs1 where y': "y = (b1, rs1)" by fastforce
  from h(1) r y y' have "handler req len rs m (fst w) = (Inr (b, rs'), m', fst w')"
    and l: "snd w' = log_executed (take len req) (if b then Some (wss_content rs') else None) (snd w)"
    by (auto simp: log_handler_def)
  with assms h(2,3) show "wss_ok rs' \<and> length (wss_content rs') < 2 ^ 64 \<and>
      snd w' = log_executed (take len req) (if b then Some (wss_content rs') else None) (snd w)"
    unfolding writes_stream_def by blast
qed

text \<open>
  A network that delivers the given pieces, one to a call of \<^verbatim>\<open>recv\<close>, then would block, and that takes
  all that is sent; its clock stands still.
\<close>

type_synonym script = "bytes list \<times> netlog"

definition script_os :: "script os" where
  "script_os = \<lparr>
     sys_errno = (\<lambda>w. EAGAIN),
     sys_gettimeofday = (\<lambda>w. (\<lparr> tv_sec = 0, tv_usec = 0 \<rparr>, w)),
     sys_time = (\<lambda>w. (0, w)),
     sys_send = (\<lambda>fd xs (ch, l). (Some (length xs), (ch, log_sent xs l))),
     sys_recv = (\<lambda>fd n (ch, l). case ch of [] \<Rightarrow> (None, ([], l))
        | x # xs \<Rightarrow> if length x \<le> n then (Some x, (xs, log_received x l))
                    else (Some (take n x), (drop n x # xs, log_received (take n x) l))),
     sys_sendto = (\<lambda>fd xs ip port w. (Some (length xs), w)),
     sys_recvfrom = (\<lambda>fd n w. ((None, [], 0), w)),
     sys_select = (\<lambda>rs ws tv w. ((0, [], []), w)),
     sys_socket = (\<lambda>t w. (3, w)),
     sys_close = (\<lambda>fd w. w),
     sys_setsockopt = (\<lambda>fd opt x w. (0, w)),
     sys_nonblock = (\<lambda>fd w. (0, w)),
     sys_bind = (\<lambda>fd port addr w. (0, w)),
     sys_listen = (\<lambda>fd n w. (0, w)),
     sys_accept = (\<lambda>fd w. (4, w)),
     sys_connect = (\<lambda>fd ip port w. (0, w)),
     sys_so_error = (\<lambda>fd w. ((0, 0), w)),
     sys_sockname = (\<lambda>fd w. None),
     sys_peername = (\<lambda>fd w. None),
     sys_malloc = (\<lambda>n w. (Some (replicate n 0), w)) \<rparr>"

lemma script_os_laws:
  "stream_log script_os fd snd" "alloc_ok script_os" "clock_runs script_os"
proof -
  show "stream_log script_os fd snd"
    by (auto simp: stream_log_def script_os_def split: list.splits if_splits)
  show "alloc_ok script_os" by (auto simp: alloc_ok_def script_os_def)
  show "clock_runs script_os"
    by (auto simp: clock_runs_def script_os_def MilliTimeDiff_def to_int32_def split: list.splits if_splits)
qed

text \<open>A handler that sends back the first byte of its request, and does not answer a dash.\<close>

definition echo_handler :: "('m, 'w) rpc_handler" where
  "echo_handler req len rs m w =
     (if take len req = [] \<or> req ! 0 = 0x2D then (Inr (False, wss_Clear rs), m, w)
      else (Inr (True, wss_put_char (wss_Clear rs) (req ! 0)), m, w))"

lemma echo_handler_writes: "writes_stream echo_handler"
  unfolding writes_stream_def
  by (auto simp: echo_handler_def wss_Clear_ok wss_put_char_ok split: if_splits)

lemmas script_simps = script_os_def timeout_of_def SetLastError_def TcpSocket_new_def Socket_new_def Socket.defs Connection.defs
  SetFileDescriptor_def Socket_Close_def SetNonBlocking_def SetTcpNoDelay_def

lemma script_clock [simp]: "sys_gettimeofday script_os w = (\<lparr> tv_sec = 0, tv_usec = 0 \<rparr>, w)" "sys_time script_os w = (0, w)"
  by (simp_all add: script_os_def)

lemma script_receive: "s_timeout s = 0 \<Longrightarrow> length x \<le> n \<Longrightarrow> x \<noteq> [] \<Longrightarrow>
  Receive script_os n (- 1) s (x # xs, l) = Some ((True, x, False), s \<lparr> s_err := EAGAIN \<rparr>, (xs, log_received x l))"
  by (cases x; simp add: Receive_def) (subst receive_loop.simps, auto simp: script_simps MilliTimeDiff_def to_int32_def Let_def)

lemma script_receive_none: "s_timeout s = 0 \<Longrightarrow> 0 < n \<Longrightarrow>
  Receive script_os n (- 1) s ([], l) = Some ((True, [], False), s \<lparr> s_err := EAGAIN \<rparr>, ([], l))"
  by (simp add: Receive_def) (subst receive_loop.simps,
    auto simp: script_simps MilliTimeDiff_def to_int32_def FatalError_def ConnectionResetError_def errno_defs)

lemma script_send: "s_timeout s = 0 \<Longrightarrow>
  Send script_os x (- 1) s (xs, l) = Some ((True, length x), s \<lparr> s_err := EAGAIN \<rparr>, (xs, log_sent x l))"
  by (simp add: Send_def) (subst send_loop.simps, simp add: script_simps MilliTimeDiff_def to_int32_def)

end
