(* ===== verification/AnyRpc_TcpConnection.thy ===== *)
theory AnyRpc_TcpConnection
  imports AnyRpc_Protocol
begin

section \<open>TcpConnection\<close>

record TcpConnection = Connection +
  c_commaExpected :: bool

definition TcpConnection_new :: "'w os \<Rightarrow> bytes \<Rightarrow> int \<Rightarrow> 'w \<Rightarrow> TcpConnection \<times> 'w" where
  "TcpConnection_new os memory fd w =
     (let (c, w') = Connection_new os memory fd w in (Connection.extend c \<lparr> c_commaExpected = False \<rparr>, w'))"

definition Tcp_ForcedDisconnectAllowed :: "TcpConnection \<Rightarrow> bool" where
  "Tcp_ForcedDisconnectAllowed c \<longleftrightarrow>
     (if c_commaExpected c then c_bufferLength c \<le> 1 else c_bufferLength c = 0)"

definition Tcp_ReadHeader :: "'w os \<Rightarrow> TcpConnection \<Rightarrow> 'w \<Rightarrow> ((exn + bool) \<times> TcpConnection \<times> 'w) option" where
  "Tcp_ReadHeader os c w =
     (case receive_buffer os Connection_Initialize c w of
        None \<Rightarrow> None
      | Some (Inl x, c1, w1) \<Rightarrow> Some (Inl x, c1, w1)
      | Some (Inr (False, eof), c1, w1) \<Rightarrow> Some (Inr False, c1, w1)
      | Some (Inr (True, eof), c1, w1) \<Rightarrow>
          (case FindChar (take (c_bufferLength c1) (c_buffer c1)) 0x3A of
             None \<Rightarrow> if eof then Some (Inr False, Connection_Initialize False c1, w1) else Some (Inr True, c1, w1)
           | Some i \<Rightarrow>
               let body = i + 1;
                   header = (if c_commaExpected c1 then 1 else 0)
               in if c_commaExpected c1 \<and> c_buffer c1 ! 0 \<noteq> 0x2C then
                    Some (Inr False, Connection_Initialize False c1, w1)
                  else
                    let n = atoi (drop header (c_buffer c1))
                    in if sint n \<le> 0 then Some (Inr False, Connection_Initialize False c1, w1)
                       else
                         let c2 = c1 \<lparr> c_contentLength := size_of_int n, c_contentAvail := c_bufferLength c1 - body \<rparr>
                         in if c_contentLength c2 > MaxContentLength then
                              Some (Inr False, Connection_Initialize False c2, w1)
                            else
                              (case place_request os False body c2 w1 of
                                 (None, w2) \<Rightarrow> Some (Inr False, Connection_Initialize False c2, w2)
                               | (Some c3, w2) \<Rightarrow>
                                   (case store_request (c_contentAvail c3) [0] c3 of
                                      None \<Rightarrow> Some (Inl Undefined, c3, w2)
                                    | Some c4 \<Rightarrow>
                                        Some (Inr True, c4 \<lparr> c_commaExpected := True, c_keepAlive := True,
                                          c_state := READ_REQUEST \<rparr>, w2)))))"

definition Tcp_ExecuteRequest ::
    "('m, 'w) rpc_handler \<Rightarrow> TcpConnection \<Rightarrow> 'm \<Rightarrow> 'w \<Rightarrow> ((exn + bool) \<times> TcpConnection \<times> 'm \<times> 'w) option" where
  "Tcp_ExecuteRequest handler c m w =
     (case handler (request_memory c) (c_contentLength c) (c_response c) m w of
        (Inl x, m', w') \<Rightarrow> Some (Inl x, c, m', w')
      | (Inr (sendResponse, response), m', w') \<Rightarrow>
          let c1 = c \<lparr> c_response := response \<rparr>
          in if sendResponse then
               map_option (\<lambda>s. (Inr True, c1 \<lparr> c_header := s, c_response := wss_put_char response 0x2C,
                   c_state := WRITE_RESPONSE \<rparr>, m', w'))
                 (put_lines [dec_nat (wss_length response), lit '':''] (c_header c1))
             else Some (Inr True, Connection_Initialize True (c1 \<lparr> c_state := READ_HEADER \<rparr>), m', w'))"

definition tcp_connection ::
    "'w os \<Rightarrow> ('m, 'w) rpc_handler \<Rightarrow> (TcpConnection, 'm, 'w) connection_virtuals" where
  "tcp_connection os handler =
     \<lparr> v_Initialize = Connection_Initialize, v_ReadHeader = Tcp_ReadHeader os,
       v_ExecuteRequest = Tcp_ExecuteRequest handler \<rparr>"

section \<open>Netstrings\<close>

text \<open>
  The specification. A message is a header, a colon and the body; the header has no colon and gives
  the length of the body, behind a comma in every message but the first. An exchange is the header,
  the body and the reply, if there is one. \<open>messages_text\<close>: the bytes of the messages; \<open>answers_text\<close>:
  the bytes of the replies, as netstrings.
\<close>

type_synonym exchange = "bytes \<times> bytes \<times> bytes option"

definition net_header :: "bool \<Rightarrow> bytes \<Rightarrow> nat \<Rightarrow> bool" where
  "net_header comma h n \<longleftrightarrow> 0x3A \<notin> set h \<and> (comma \<longrightarrow> take 1 h = [0x2C])
     \<and> sint (atoi (drop (if comma then 1 else 0) h)) = int n \<and> 0 < n \<and> n \<le> MaxContentLength"

fun messages_ok :: "bool \<Rightarrow> exchange list \<Rightarrow> bool" where
  "messages_ok comma [] = True"
| "messages_ok comma ((h, b, r) # ms) = (net_header comma h (length b) \<and> messages_ok True ms)"

definition messages_text :: "exchange list \<Rightarrow> bytes" where
  "messages_text ms = concat (map (\<lambda>(h, b, r). h @ 0x3A # b) ms)"

definition netstring :: "bytes option \<Rightarrow> bytes" where
  "netstring r = (case r of None \<Rightarrow> [] | Some x \<Rightarrow> dec_nat (length x) @ 0x3A # x @ [0x2C])"

definition answers_text :: "exchange list \<Rightarrow> bytes" where
  "answers_text ms = concat (map (\<lambda>(h, b, r). netstring r) ms)"

lemma messages_snoc:
  "messages_ok comma (ms @ [(h, b, r)]) \<longleftrightarrow> messages_ok comma ms \<and> net_header (comma \<or> ms \<noteq> []) h (length b)"
  by (induction comma ms rule: messages_ok.induct) auto

lemma text_snoc [simp]:
  "messages_text (ms @ [(h, b, r)]) = messages_text ms @ h @ 0x3A # b"
  "answers_text (ms @ [(h, b, r)]) = answers_text ms @ netstring r"
  by (simp_all add: messages_text_def answers_text_def)

lemma dropWhile_stop: "\<not> P y \<Longrightarrow> dropWhile P (xs @ y # ys) = dropWhile P xs @ y # ys"
  by (induction xs) auto

lemma takeWhile_stop: "\<not> P y \<Longrightarrow> takeWhile P (xs @ y # ys) = takeWhile P xs"
  by (induction xs) auto

lemma atoi_colon: "atoi (xs @ 0x3A # ys) = atoi xs"
proof -
  have c: "\<not> is_space 0x3A" "\<not> is_digit 0x3A" by code_simp+
  show ?thesis
  proof (cases "dropWhile is_space xs")
    case Nil
    show ?thesis
      by (simp only: atoi_def dropWhile_stop [where P = is_space, OF c(1)] Nil) (simp add: atoi_sign_def c(2))
  next
    case (Cons y zs)
    show ?thesis
      by (simp only: atoi_def dropWhile_stop [where P = is_space, OF c(1)] Cons)
        (simp add: atoi_sign_def takeWhile_stop [where P = is_digit, OF c(2)])
  qed
qed

section \<open>The state of a connection\<close>

text \<open>
  \<open>tcp_state net ms c w\<close>: the exchanges \<open>ms\<close> are what has happened on the connection: their messages
  have been received, and behind them the header of the current message and the unread bytes; the
  handler was called with their bodies; their replies have been sent, up to the part of the last one
  that the response streams still hold.
\<close>

definition tcp_request :: "netlog \<Rightarrow> exchange list \<Rightarrow> TcpConnection \<Rightarrow> bool" where
  "tcp_request l ms c \<longleftrightarrow> buffers_ok c \<and> request_ok c \<and> unanswered c \<and> c_commaExpected c \<and> c_keepAlive c
     \<and> (\<exists>h. net_header (ms \<noteq> []) h (c_contentLength c) \<and> received l = messages_text ms @ h @ 0x3A # unread c)
     \<and> sent l = answers_text ms"

definition tcp_idle :: "netlog \<Rightarrow> exchange list \<Rightarrow> TcpConnection \<Rightarrow> bool" where
  "tcp_idle l ms c \<longleftrightarrow> buffers_ok c \<and> idle c \<and> c_commaExpected c = (ms \<noteq> [])
     \<and> received l = messages_text ms @ unread c \<and> sent l = answers_text ms"

definition tcp_response :: "netlog \<Rightarrow> exchange list \<Rightarrow> TcpConnection \<Rightarrow> bool" where
  "tcp_response l ms c \<longleftrightarrow> buffers_ok c \<and> request_ok c \<and> c_commaExpected c \<and> c_keepAlive c \<and> ms \<noteq> []
     \<and> c_contentLength c \<le> c_contentAvail c \<and> c_headerBytesWritten c = 0 \<and> c_resultBytesWritten c = 0
     \<and> segment_at (c_header c) 0 = wss_content (c_header c)
     \<and> received l = messages_text ms @ drop (c_contentLength c) (unread c)
     \<and> sent l @ wss_content (c_header c) @ wss_content (c_response c) = answers_text ms"

definition tcp_closed :: "netlog \<Rightarrow> exchange list \<Rightarrow> bool" where
  "tcp_closed l ms \<longleftrightarrow> (\<exists>rest. received l = messages_text ms @ rest) \<and> (\<exists>rest. answers_text ms = sent l @ rest)"

definition tcp_state :: "netlog \<Rightarrow> exchange list \<Rightarrow> TcpConnection \<Rightarrow> bool" where
  "tcp_state l ms c \<longleftrightarrow> messages_ok False ms \<and> executed l = map snd ms \<and>
     (case c_state c of
        READ_HEADER \<Rightarrow> tcp_idle l ms c
      | READ_REQUEST \<Rightarrow> tcp_request l ms c
      | EXECUTE_REQUEST \<Rightarrow> tcp_request l ms c \<and> c_contentLength c \<le> c_contentAvail c
      | WRITE_RESPONSE \<Rightarrow> tcp_response l ms c
      | CLOSE_CONNECTION \<Rightarrow> tcp_closed l ms)"

lemma tcp_closedI:
  assumes "messages_ok False ms" "executed l = map snd ms" "received l = messages_text ms @ rest"
    "answers_text ms = sent l @ rest'"
  shows "tcp_state l ms (SetCloseState c)"
  using assms by (auto simp: tcp_state_def SetCloseState_def tcp_closed_def)

text \<open>The fields of the derived class do not change when the base class is at work.\<close>

lemma more_simps: "Connection.more c' = Connection.more c \<Longrightarrow> c_commaExpected c' = c_commaExpected c" for c c' :: TcpConnection
  by (cases c; cases c') simp

lemma comma_updates [simp]:
  "unread (c \<lparr> c_commaExpected := b \<rparr>) = unread c" "request_ok (c \<lparr> c_commaExpected := b \<rparr>) = request_ok c"
  "buffers_ok (c \<lparr> c_commaExpected := b \<rparr>) = buffers_ok c" "unanswered (c \<lparr> c_commaExpected := b \<rparr>) = unanswered c"
  by (simp_all add: unread_def request_memory_def buffers_ok_def request_ok_def unanswered_def split: request_ptr.split)

lemma Initialize_comma [simp]: "c_commaExpected (Connection_Initialize p c) = c_commaExpected c"
  by (simp add: Connection_Initialize_def keep_buffer_def Let_def)

section \<open>The header\<close>

lemma header_found:
  assumes "FindChar (take n buffer) 0x3A = Some i"
  shows "i < n" "i < length buffer" "take n buffer = take i buffer @ 0x3A # drop (i + 1) (take n buffer)"
    "0x3A \<notin> set (take i buffer)" "buffer = take i buffer @ 0x3A # drop (i + 1) buffer"
proof -
  have nth: "FindChar xs 0x3A = Some i \<Longrightarrow> xs ! i = 0x3A \<and> 0x3A \<notin> set (take i xs)" for xs
    by (induction xs arbitrary: i) (auto split: if_splits)
  from FindChar_bound [OF assms] show b: "i < n" "i < length buffer" by simp_all
  from nth [OF assms] b have x: "buffer ! i = 0x3A" "0x3A \<notin> set (take i buffer)" by (simp_all add: min_def)
  show "0x3A \<notin> set (take i buffer)" by (rule x)
  show "buffer = take i buffer @ 0x3A # drop (i + 1) buffer" using id_take_nth_drop [OF b(2)] x(1) by simp
  show "take n buffer = take i buffer @ 0x3A # drop (i + 1) (take n buffer)"
    using id_take_nth_drop [of i "take n buffer"] b x(1) by simp
qed

lemma ReadHeader_step:
  assumes "Tcp_ReadHeader os c w = Some (r, c', w')" "tcp_state (net w) ms c" "c_state c = READ_HEADER"
    and laws: "stream_log os (s_fd (c_socket c)) net" "alloc_ok os"
  shows "(r = Inr True \<and> tcp_state (net w') ms c' \<and>
      (c_state c' = READ_HEADER \<and> 0x3A \<notin> set (unread c') \<or> c_state c' = READ_REQUEST)
      \<or> r = Inr False \<and> tcp_state (net w') ms (SetCloseState c'))
    \<and> s_fd (c_socket c') = s_fd (c_socket c) \<and> s_timeout (c_socket c') = s_timeout (c_socket c)"
proof -
  from assms(2,3) have st: "messages_ok False ms" "executed (net w) = map snd ms" "buffers_ok c" "idle c"
      "c_commaExpected c = (ms \<noteq> [])" "received (net w) = messages_text ms @ unread c" "sent (net w) = answers_text ms"
    by (simp_all add: tcp_state_def tcp_idle_def)
  obtain r1 c1 w1 where rb: "receive_buffer os Connection_Initialize c w = Some (r1, c1, w1)"
    using assms(1) by (auto simp: Tcp_ReadHeader_def split: option.splits)
  from receive_buffer_post [OF rb st(3,4) laws(1)] obtain data c0 where
    R: "net w1 = log_received data (net w)" "filled c c0" "buffers_ok c0"
      "(\<exists>eof. r1 = Inr (False, eof)) \<and> c1 = Connection_Initialize False c0 \<or>
       r1 = Inr (True, False) \<and> c1 = c0 \<and> unread c0 = unread c @ data" by blast
  note F = filledD [OF R(2)]
  have rec: "received (net w1) = messages_text ms @ unread c @ data" using R(1) st(6) by simp
  have closed: "tcp_state (net w1) ms (SetCloseState x)" for x
    by (rule tcp_closedI [OF st(1) _ rec, of "[]"]) (use R(1) st in simp_all)
  show ?thesis
  proof (cases "r1 = Inr (True, False)")
    case False
    with R(4) obtain eof where "r1 = Inr (False, eof)" "c1 = Connection_Initialize False c0" by auto
    with assms(1) closed F show ?thesis by (auto simp: Tcp_ReadHeader_def rb)
  next
    case True
    with R(4) have c1: "c1 = c0" and pend: "unread c1 = unread c @ data" by auto
    have idle1: "idle c1" using F(1) st(4) c1 by simp
    then have take1: "take (c_bufferLength c1) (c_buffer c1) = unread c1" by (simp add: unread_def idle_def)
    have comma1: "c_commaExpected c1 = (ms \<noteq> [])" using more_simps [OF F(3)] st(5) c1 by simp
    show ?thesis
    proof (cases "FindChar (take (c_bufferLength c1) (c_buffer c1)) 0x3A")
      case None
      with assms(1) True have out: "r = Inr True" "c' = c1" "w' = w1" by (simp_all add: Tcp_ReadHeader_def rb)
      have "tcp_state (net w1) ms c1"
        using R(1,3) st F(2) assms(3) idle1 comma1 rec pend c1 by (simp add: tcp_state_def tcp_idle_def)
      with None out take1 F assms(3) c1 show ?thesis by (simp add: FindChar_none)
    next
      case (Some i)
      note H = header_found [OF Some]
      let ?h = "take i (c_buffer c1)" and ?o = "if c_commaExpected c1 then 1 else 0 :: nat"
      let ?n = "atoi (drop ?o (c_buffer c1))"
      let ?c2 = "c1 \<lparr> c_contentLength := size_of_int ?n, c_contentAvail := c_bufferLength c1 - (i + 1) \<rparr>"
      note unf = Tcp_ReadHeader_def rb True Some Let_def
      consider "c_commaExpected c1 \<and> c_buffer c1 ! 0 \<noteq> 0x2C \<or> sint ?n \<le> 0 \<or> size_of_int ?n > MaxContentLength"
        | "c_commaExpected c1 \<longrightarrow> c_buffer c1 ! 0 = 0x2C" "0 < sint ?n" "size_of_int ?n \<le> MaxContentLength" by linarith
      then show ?thesis
      proof cases
        case 1
        with assms(1) have "r = Inr False" "w' = w1" "c' = Connection_Initialize False c1 \<or> c' = Connection_Initialize False ?c2"
          by (auto simp: unf split: if_splits)
        with closed F c1 show ?thesis by auto
      next
        case 2
        obtain r2 w2 where pr: "place_request os False (i + 1) ?c2 w1 = (r2, w2)" by fastforce
        have b2: "buffers_ok ?c2" using R(3) c1 by (simp add: buffers_ok_def)
        note P = place_request_post [OF pr b2, of "s_fd (c_socket c)" net]
        have w2: "net w2 = net w1" using P(1) H(1) laws by simp
        show ?thesis
        proof (cases r2)
          case None
          with assms(1) 2 pr have "r = Inr False" "w' = w2" "c' = Connection_Initialize False ?c2"
            by (auto simp: unf split: if_splits)
          with closed w2 F c1 show ?thesis by (simp add: tcp_state_def SetCloseState_def)
        next
          case (Some c3)
          have c3: "c3 = ?c2 \<lparr> c_request := c_request c3, c_requestAllocated := c_requestAllocated c3 \<rparr>"
            "buffers_ok c3" "request_ok c3" "unread c3 = drop (i + 1) (take (c_bufferLength c1) (c_buffer c1))"
            using P(2) [OF _ _ _ _ Some] H(1) laws by simp_all
          obtain rq al where c3': "c3 = ?c2 \<lparr> c_request := rq, c_requestAllocated := al \<rparr>" using c3(1) by blast
          obtain c4 where s4: "store_request (c_contentAvail c3) [0] c3 = Some c4"
            using store_request_fits [OF c3(2,3), of "[0]"] by auto
          note S = store_request_ok [OF s4 c3(2,3)] store_request_null [OF s4 c3(3)]
          obtain mem rq' where c4: "c4 = c3 \<lparr> c_buffer := mem, c_request := rq' \<rparr>" using S(6) by blast
          from assms(1) 2 pr Some s4 have out: "r = Inr True" "w' = w2"
            "c' = c4 \<lparr> c_commaExpected := True, c_keepAlive := True, c_state := READ_REQUEST \<rparr>"
            by (auto simp: unf split: if_splits)
          have n: "sint ?n = int (size_of_int ?n)" by (rule size_of_int_nonneg [OF less_imp_le [OF 2(2)]])
          have ne: "c_commaExpected c1 \<Longrightarrow> i \<noteq> 0" using 2(1) arg_cong [OF H(5), of "\<lambda>b. b ! 0"] by (cases i) auto
          have "atoi (drop ?o (c_buffer c1)) = atoi (drop ?o ?h)"
          proof (cases "c_commaExpected c1")
            case True
            with ne have "drop ?o (c_buffer c1) = drop ?o ?h @ 0x3A # drop (i + 1) (c_buffer c1)"
              by (subst H(5)) (use H(2) in auto)
            then show ?thesis by (simp only: atoi_colon)
          next
            case False
            then show ?thesis using H(5) atoi_colon [of ?h "drop (i + 1) (c_buffer c1)"] by simp
          qed
          moreover have "c_commaExpected c1 \<longrightarrow> take 1 ?h = [0x2C]"
          proof
            assume c: "c_commaExpected c1"
            with ne 2(1) H(2) show "take 1 ?h = [0x2C]" by (cases "c_buffer c1") (auto simp: take_Cons')
          qed
          ultimately have nh: "net_header (ms \<noteq> []) ?h (size_of_int ?n)"
            using 2 n H(4) comma1 by (auto simp: net_header_def)
          have "unread c1 = ?h @ 0x3A # unread c3" using H(3) c3(4) take1 by simp
          then have "received (net w2) = messages_text ms @ ?h @ 0x3A # unread c'"
            using rec pend w2 S(7) out by simp
          moreover have "unanswered c'" using idle1 by (simp add: out c4 c3' idle_def unanswered_def)
          moreover have "buffers_ok c'" "request_ok c'" using S(1,2) out by simp_all
          moreover have "c_contentLength c' = size_of_int ?n" by (simp add: out c4 c3')
          ultimately have "tcp_state (net w') ms c'"
            using st R(1) w2 nh out by (auto simp: tcp_state_def tcp_request_def)
          moreover have "c_socket c' = c_socket c1" by (simp add: out c4 c3')
          ultimately show ?thesis using out F c1 by simp
        qed
      qed
    qed
  qed
qed

section \<open>The body\<close>

lemma tcp_v_Initialize [simp]: "v_Initialize (tcp_connection os handler) = Connection_Initialize"
  "v_ReadHeader (tcp_connection os handler) = Tcp_ReadHeader os"
  "v_ExecuteRequest (tcp_connection os handler) = Tcp_ExecuteRequest handler"
  by (simp_all add: tcp_connection_def)

lemma ReadRequest_step:
  assumes "ReadRequest os (tcp_connection os handler) c w = Some (r, c', w')" "tcp_state (net w) ms c"
    "c_state c = READ_REQUEST" and laws: "stream_log os (s_fd (c_socket c)) net"
  shows "(r = Inr True \<and> tcp_state (net w') ms c' \<and>
      (c_state c' = READ_REQUEST \<and> c_contentAvail c' < c_contentLength c' \<or> c_state c' = EXECUTE_REQUEST)
      \<or> r = Inr False \<and> tcp_state (net w') ms (SetCloseState c'))
    \<and> s_fd (c_socket c') = s_fd (c_socket c) \<and> s_timeout (c_socket c') = s_timeout (c_socket c)"
proof -
  from assms(2,3) obtain h where st: "messages_ok False ms" "executed (net w) = map snd ms" "buffers_ok c" "request_ok c"
      "unanswered c" "c_commaExpected c" "c_keepAlive c" "net_header (ms \<noteq> []) h (c_contentLength c)"
      "received (net w) = messages_text ms @ h @ 0x3A # unread c" "sent (net w) = answers_text ms"
    by (auto simp: tcp_state_def tcp_request_def)
  from ReadRequest_post [OF assms(1) st(3,4) laws] obtain data c1 where
    R: "net w' = log_received data (net w)" "refilled c c1" "buffers_ok c1" "request_ok c1"
      "r = Inr False \<and> c' = Connection_Initialize False c1 \<or> r = Inr True \<and> c' = c1 \<and> unread c1 = unread c @ data \<and>
         c_state c1 = (if c_contentLength c \<le> c_contentAvail c1 then EXECUTE_REQUEST else c_state c)"
    by auto
  note F = refilledD [OF R(2)]
  from R(5) show ?thesis
  proof (elim disjE conjE)
    assume "r = Inr False" "c' = Connection_Initialize False c1"
    moreover have "tcp_state (net w') ms (SetCloseState c')"
      by (rule tcp_closedI [OF st(1) _ _, of _ "h @ 0x3A # unread c @ data" "[]"]) (use R(1) st in simp_all)
    ultimately show ?thesis using F by simp
  next
    assume "r = Inr True" "c' = c1" "unread c1 = unread c @ data"
      "c_state c1 = (if c_contentLength c \<le> c_contentAvail c1 then EXECUTE_REQUEST else c_state c)"
    moreover have "c_commaExpected c1" using more_simps [OF F(8)] st(6) by simp
    ultimately show ?thesis using st R F assms(3) by (auto simp: tcp_state_def tcp_request_def)
  qed
qed

section \<open>The execution\<close>

lemma ExecuteRequest_step:
  assumes "Tcp_ExecuteRequest handler c m w = Some (Inr b, c', m', w')" "tcp_state (net w) ms c"
    "c_state c = EXECUTE_REQUEST" and handler: "handler_logged handler net"
  shows "b \<and> (\<exists>e. tcp_state (net w') (ms @ [e]) c') \<and> (c_state c' = READ_HEADER \<or> c_state c' = WRITE_RESPONSE)
    \<and> c_socket c' = c_socket c"
proof -
  let ?n = "c_contentLength c"
  from assms(2,3) obtain h where st: "messages_ok False ms" "executed (net w) = map snd ms" "buffers_ok c" "request_ok c"
      "unanswered c" "c_commaExpected c" "c_keepAlive c" "net_header (ms \<noteq> []) h ?n"
      "received (net w) = messages_text ms @ h @ 0x3A # unread c" "sent (net w) = answers_text ms"
      "?n \<le> c_contentAvail c"
    by (auto simp: tcp_state_def tcp_request_def)
  obtain sr response where hd: "handler (request_memory c) ?n (c_response c) m w = (Inr (sr, response), m', w')"
    using assms(1) by (cases "handler (request_memory c) ?n (c_response c) m w" rule: prod_cases3)
      (auto simp: Tcp_ExecuteRequest_def Let_def split: sum.splits if_splits)
  have okr: "wss_ok (c_response c)" "wss_ok (c_header c)" using st(3) by (simp_all add: buffers_ok_def)
  let ?body = "take ?n (unread c)"
  note B = request_body [OF st(4,11,3)]
  define reply where "reply = wss_content response"
  have H: "wss_ok response" "length (wss_content response) < 2 ^ 64" "wss_content response = reply"
      "net w' = log_executed ?body (if sr then Some reply else None) (net w)"
    using handler hd okr(1) unanswered_content(2) [OF st(5,3)] B(1) unfolding handler_logged_def reply_def by metis+
  let ?e = "(h, ?body, if sr then Some reply else None)"
  have msgs: "messages_ok False (ms @ [?e])" using st(1,8) B(2) by (simp add: messages_snoc)
  have ex: "executed (net w') = map snd (ms @ [?e])" using H(4) st(2) by simp
  have rec: "received (net w') = messages_text (ms @ [?e]) @ drop ?n (unread c)" using H(4) st(9) by simp
  let ?c1 = "c \<lparr> c_response := response \<rparr>"
  have c1: "buffers_ok ?c1" "request_ok ?c1" "unread ?c1 = unread c"
    using st(3,4) H(1) by (simp_all add: buffers_ok_def request_ok_def unread_def request_memory_def cong: request_ptr.case_cong)
  show ?thesis
  proof (cases sr)
    case False
    with assms(1) have out: "b = True" "c' = Connection_Initialize True (?c1 \<lparr> c_state := READ_HEADER \<rparr>)"
      by (simp_all add: Tcp_ExecuteRequest_def hd Let_def)
    have "unread c' = drop ?n (unread c)"
      using Initialize_pending [of "?c1 \<lparr> c_state := READ_HEADER \<rparr>"] c1 st(11) out by simp
    moreover have "buffers_ok c'" using Initialize_buffers [of "?c1 \<lparr> c_state := READ_HEADER \<rparr>" True] c1 out by simp
    moreover have "idle c'" using Initialize_idle out by simp
    ultimately have "tcp_state (net w') (ms @ [?e]) c'"
      using msgs ex rec False H(4) st out by (auto simp: tcp_state_def tcp_idle_def netstring_def)
    with out show ?thesis by auto
  next
    case True
    have one: "one_segment (c_header c) []" by (rule one_segment_clear) (use st(5) okr(2) in \<open>simp_all add: unanswered_def\<close>)
    have wl: "wss_length response = length reply" using H(1,3) by (simp add: wss_ok_def)
    let ?ls = "[dec_nat (wss_length response), lit '':'']"
    have "length ([] :: bytes) + length (concat ?ls) < StaticBufferSize"
      using dec_nat_size [of "length reply"] H(2,3) wl by (simp add: StaticBufferSize_def)
    from put_lines_one_segment [OF one this] obtain hs where
      hs: "put_lines ?ls (c_header c) = Some hs" "one_segment hs (concat ?ls)" by auto
    note O = one_segment_simps [OF hs(2)]
    from assms(1) True hs(1) have out: "b = True"
      "c' = ?c1 \<lparr> c_header := hs, c_response := wss_put_char response 0x2C, c_state := WRITE_RESPONSE \<rparr>"
      by (auto simp: Tcp_ExecuteRequest_def hd Let_def)
    note W = wss_put_char_ok [OF H(1), of "0x2C"]
    have "sent (net w') @ wss_content (c_header c') @ wss_content (c_response c') = answers_text (ms @ [?e])"
      using H(3,4) st(10) O(1) W(2) wl True by (simp add: out netstring_def)
    moreover have "buffers_ok c'" "request_ok c'" "unread c' = unread c"
      using c1 O(2) W(1) by (simp_all add: out buffers_ok_def request_ok_def unread_def request_memory_def cong: request_ptr.case_cong)
    ultimately have "tcp_state (net w') (ms @ [?e]) c'"
      using msgs ex rec st O(1,3) out by (simp add: tcp_state_def tcp_response_def unanswered_def)
    with out show ?thesis by auto
  qed
qed

section \<open>The response\<close>

lemma WriteResponse_step:
  assumes "WriteResponse os (tcp_connection os handler) c w = Some (r, c', w')" "tcp_state (net w) ms c"
    "c_state c = WRITE_RESPONSE" and laws: "stream_log os (s_fd (c_socket c)) net"
  shows "(r \<and> tcp_state (net w') ms c' \<and> c_state c' = READ_HEADER \<or> \<not> r \<and> tcp_state (net w') ms (SetCloseState c'))
    \<and> s_fd (c_socket c') = s_fd (c_socket c) \<and> s_timeout (c_socket c') = s_timeout (c_socket c)"
proof -
  from assms(2,3) have st: "messages_ok False ms" "executed (net w) = map snd ms" "buffers_ok c" "request_ok c"
      "c_commaExpected c" "c_keepAlive c" "ms \<noteq> []" "c_contentLength c \<le> c_contentAvail c" "c_headerBytesWritten c = 0"
      "c_resultBytesWritten c = 0" "segment_at (c_header c) 0 = wss_content (c_header c)"
      "received (net w) = messages_text ms @ drop (c_contentLength c) (unread c)"
      "sent (net w) @ wss_content (c_header c) @ wss_content (c_response c) = answers_text ms"
    by (simp_all add: tcp_state_def tcp_response_def)
  define x where "x = wss_content (c_header c) @ wss_content (c_response c)"
  have ans: "answers_text ms = sent (net w) @ x" using st(13) by (simp add: x_def)
  have ok: "wss_ok (c_header c)" "wss_ok (c_response c)" using st(3) by (simp_all add: buffers_ok_def)
  from WriteResponse_post [OF assms(1) laws ok st(11,9,10)] obtain c1 where c1: "transmitted c c1" and
    R: "net w' = log_sent x (net w) \<and> r = c_keepAlive c \<and> c' = Connection_Initialize (c_keepAlive c) (c1 \<lparr> c_state := READ_HEADER \<rparr>)
      \<or> (\<exists>k. net w' = log_sent (take k x) (net w)) \<and> \<not> r \<and> c' = Connection_Initialize False c1"
    unfolding x_def by auto
  note D = writtenD [OF c1]
  from R show ?thesis
  proof (elim disjE conjE exE)
    assume n: "net w' = log_sent x (net w)" and r: "r = c_keepAlive c"
      and c': "c' = Connection_Initialize (c_keepAlive c) (c1 \<lparr> c_state := READ_HEADER \<rparr>)"
    let ?c2 = "c1 \<lparr> c_state := READ_HEADER \<rparr>"
    have "unread c' = drop (c_contentLength c) (unread c)"
      using Initialize_pending [of ?c2] D st c' by simp
    moreover have "buffers_ok c'" using Initialize_buffers [of ?c2 True] D st c' by simp
    moreover have "idle c'" using Initialize_idle c' by simp
    moreover have "c_commaExpected c'" using more_simps [OF D(10)] st(5) c' by simp
    ultimately have "tcp_state (net w') ms c'" using st ans n c' by (simp add: tcp_state_def tcp_idle_def)
    with r st(6) c' D show ?thesis by simp
  next
    fix k
    assume n: "net w' = log_sent (take k x) (net w)" and "\<not> r" and c': "c' = Connection_Initialize False c1"
    moreover have "answers_text ms = sent (net w') @ drop k x" using ans n by simp
    ultimately have "tcp_state (net w') ms (SetCloseState c')"
      using st by (intro tcp_closedI [of ms "net w'" "drop (c_contentLength c) (unread c)" "drop k x"]) simp_all
    with \<open>\<not> r\<close> c' D show ?thesis by simp
  qed
qed

section \<open>The protocol\<close>

lemma messages_length: "length ms \<le> length (messages_text ms)"
  by (induction ms) (auto simp: messages_text_def)

lemma tcp_state_executed:
  assumes "tcp_state l ms c"
  shows "length (executed l) = length ms" "length (executed l) \<le> length (received l)"
proof -
  show "length (executed l) = length ms" using assms by (simp add: tcp_state_def)
  moreover have "\<exists>rest. received l = messages_text ms @ rest"
    using assms by (cases "c_state c")
      (auto simp: tcp_state_def tcp_idle_def tcp_request_def tcp_response_def tcp_closed_def)
  ultimately show "length (executed l) \<le> length (received l)" using messages_length [of ms] by auto
qed

lemma Tcp_ReadHeader_returns:
  assumes "clock_runs os" "s_timeout (c_socket c) \<le> 0"
  shows "\<exists>r. Tcp_ReadHeader os c w = Some r"
proof -
  obtain r c1 w1 where "receive_buffer os Connection_Initialize c w = Some (r, c1, w1)"
    using receive_buffer_returns [OF assms] by (metis prod_cases3)
  then show ?thesis
    by (cases r) (auto simp: Tcp_ReadHeader_def Let_def split: option.split prod.split bool.split)
qed

lemma Tcp_ExecuteRequest_returns:
  assumes "wss_ok (c_header c)"
  shows "\<exists>r. Tcp_ExecuteRequest handler c m w = Some r"
proof -
  have "\<exists>s. put_lines xs (c_header c) = Some s" for xs
    using wss.run_puts_content [OF assms, of "map PutStr xs"] by (auto simp: put_lines_def)
  then show ?thesis
    by (cases "handler (request_memory c) (c_contentLength c) (c_response c) m w" rule: prod_cases3)
      (fastforce simp: Tcp_ExecuteRequest_def Let_def split: sum.split)
qed

lemma Tcp_ExecuteRequest_exn: "Tcp_ExecuteRequest handler c m w = Some (Inl x, s) \<Longrightarrow> handler_raises handler x"
  by (cases "handler (request_memory c) (c_contentLength c) (c_response c) m w" rule: prod_cases3)
    (auto simp: Tcp_ExecuteRequest_def Let_def split: sum.splits if_splits intro: handler_raisesI)

lemma tcp_state_active [simp]: "tcp_state l ms (SetActive b c) = tcp_state l ms c"
  by (simp add: SetActive_def tcp_state_def tcp_idle_def tcp_request_def tcp_response_def buffers_ok_def request_ok_def
      idle_def unanswered_def unread_def request_memory_def split: ConnectionState.split request_ptr.split)

lemma tcp_state_closed:
  assumes "tcp_state l ms c" "c_state c \<noteq> WRITE_RESPONSE"
  shows "tcp_state l ms (SetCloseState c)"
  using assms by (cases "c_state c")
    (auto simp: tcp_state_def tcp_idle_def tcp_request_def tcp_closed_def SetCloseState_def)

lemma tcp_new:
  assumes "TcpConnection_new os memory fd w = (c, w')" "length memory = MaxBufferLength + 1"
    "net w' = \<lparr> received = [], sent = [], executed = [] \<rparr>"
  shows "tcp_state (net w') [] c" "s_fd (c_socket c) = fd" "s_timeout (c_socket c) = 0" "c_state c = READ_HEADER"
proof -
  have clear: "wss_Clear (wss_new MaxBufferSize) = wss_new MaxBufferSize"
    by (simp add: wss_Clear_def wss_new_def)
  have ok: "wss_ok (wss_new MaxBufferSize)" using wss_new_ok [of MaxBufferSize] by (simp add: MaxBufferSize_def)
  have c: "c_state c = READ_HEADER" "buffers_ok c" "idle c" "\<not> c_commaExpected c" "unread c = []"
    "s_fd (c_socket c) = fd" "s_timeout (c_socket c) = 0"
    using assms(1,2) clear ok
    by (auto simp: TcpConnection_new_def Connection_new_def SetFileDescriptor_def Socket_Close_def TcpSocket_new_def
        Socket_new_def Socket.defs Connection.defs buffers_ok_def idle_def unanswered_def unread_def split: prod.splits)
  from c assms(3) show "tcp_state (net w') [] c"
    by (simp add: tcp_state_def tcp_idle_def messages_text_def answers_text_def)
  from c show "s_fd (c_socket c) = fd" "s_timeout (c_socket c) = 0" "c_state c = READ_HEADER" by simp_all
qed

definition tcp_start :: "'w os \<Rightarrow> ('w \<Rightarrow> netlog) \<Rightarrow> int \<Rightarrow> TcpConnection \<Rightarrow> 'w \<Rightarrow> bool" where
  "tcp_start os net fd c w' \<longleftrightarrow> (\<exists>memory w. TcpConnection_new os memory fd w = (c, w')
     \<and> length memory = MaxBufferLength + 1 \<and> net w' = \<lparr> received = [], sent = [], executed = [] \<rparr>)"

lemma tcp_started: "tcp_start os net fd c w \<Longrightarrow> on_socket fd c \<and> tcp_state (net w) [] c \<and> c_state c \<noteq> WRITE_RESPONSE"
  using tcp_new [where net = net] by (fastforce simp: tcp_start_def on_socket_def)

definition tcp_laws :: "'w os \<Rightarrow> ('m, 'w) rpc_handler \<Rightarrow> ('w \<Rightarrow> netlog) \<Rightarrow> int \<Rightarrow> bool" where
  "tcp_laws os handler net fd \<longleftrightarrow> stream_log os fd net \<and> alloc_ok os \<and> handler_logged handler net"

interpretation tcp: connection_protocol os "tcp_connection os handler" net fd "tcp_laws os handler net fd" tcp_state
  "\<lambda>c. 0x3A \<notin> set (unread c)" "\<lambda>_. True" "handler_raises handler" "tcp_start os net fd" for os handler net fd
proof
  fix c :: TcpConnection and w :: 'a
  assume "tcp_start os net fd c w"
  then show "on_socket fd c \<and> tcp_state (net w) [] c \<and> c_state c \<noteq> WRITE_RESPONSE" by (rule tcp_started)
next
  fix c c' :: TcpConnection and w w' :: 'a and ms r
  assume "tcp_laws os handler net fd" "on_socket fd c" "tcp_state (net w) ms c" "c_state c = READ_HEADER"
    "v_ReadHeader (tcp_connection os handler) c w = Some (r, c', w')"
  then show "on_socket fd c' \<and>
      (r = Inr True \<and> tcp_state (net w') ms c' \<and> (c_state c' = READ_HEADER \<and> 0x3A \<notin> set (unread c') \<or> c_state c' = READ_REQUEST)
       \<or> r = Inr False \<and> tcp_state (net w') ms (SetCloseState c'))"
    using ReadHeader_step [of os c w r c' w' net ms] by (auto simp: tcp_laws_def on_socket_def)
next
  fix c c' :: TcpConnection and w w' :: 'a and ms r
  assume "tcp_laws os handler net fd" "on_socket fd c" "tcp_state (net w) ms c" "c_state c = READ_REQUEST"
    "ReadRequest os (tcp_connection os handler) c w = Some (r, c', w')"
  then show "on_socket fd c' \<and>
      (r = Inr True \<and> tcp_state (net w') ms c' \<and>
         (c_state c' = READ_REQUEST \<and> c_contentAvail c' < c_contentLength c' \<or> c_state c' = EXECUTE_REQUEST)
       \<or> r = Inr False \<and> tcp_state (net w') ms (SetCloseState c'))"
    using ReadRequest_step [of os handler c w r c' w' net ms] by (auto simp: tcp_laws_def on_socket_def)
next
  fix c c' :: TcpConnection and w w' :: 'a and m m' :: 'b and ms r
  assume *: "tcp_laws os handler net fd" "on_socket fd c" "tcp_state (net w) ms c" "c_state c = EXECUTE_REQUEST"
    "v_ExecuteRequest (tcp_connection os handler) c m w = Some (r, c', m', w')"
  show "case r of Inl x \<Rightarrow> handler_raises handler x | Inr b \<Rightarrow> on_socket fd c' \<and> True \<and>
      (b \<and> (\<exists>e. tcp_state (net w') (ms @ [e]) c') \<and> (c_state c' = READ_HEADER \<or> c_state c' = WRITE_RESPONSE)
       \<or> \<not> b \<and> tcp_state (net w') ms (SetCloseState c'))"
  proof (cases r)
    case (Inl x)
    with *(5) show ?thesis by (simp add: Tcp_ExecuteRequest_exn)
  next
    case (Inr b)
    with ExecuteRequest_step [of handler c m w b c' m' w' net ms] * show ?thesis
      by (auto simp: tcp_laws_def on_socket_def)
  qed
next
  fix c c' :: TcpConnection and w w' :: 'a and ms b
  assume "tcp_laws os handler net fd" "on_socket fd c" "tcp_state (net w) ms c" "c_state c = WRITE_RESPONSE"
    "WriteResponse os (tcp_connection os handler) c w = Some (b, c', w')"
  then show "on_socket fd c' \<and>
      (b \<and> tcp_state (net w') ms c' \<and> c_state c' = READ_HEADER \<or> \<not> b \<and> tcp_state (net w') ms (SetCloseState c'))"
    using WriteResponse_step [of os handler c w b c' w' net ms] by (auto simp: tcp_laws_def on_socket_def)
next
  fix l ms and c :: TcpConnection
  assume "tcp_state l ms c" "c_state c = READ_HEADER" "c_bufferLength c = 0"
  then show "0x3A \<notin> set (unread c)" using pending_empty [of c] by (simp add: tcp_state_def tcp_idle_def)
next
  fix c :: TcpConnection and w :: 'a
  assume "clock_runs os" "on_socket fd c"
  then show "\<exists>r. v_ReadHeader (tcp_connection os handler) c w = Some r"
    using Tcp_ReadHeader_returns [of os c w] by (simp add: on_socket_def)
next
  fix l ms and c :: TcpConnection and w :: 'a and m :: 'b
  assume "tcp_state l ms c" "c_state c = EXECUTE_REQUEST"
  then show "\<exists>r. v_ExecuteRequest (tcp_connection os handler) c m w = Some r"
    using Tcp_ExecuteRequest_returns [of c handler m w] by (simp add: tcp_state_def tcp_request_def buffers_ok_def)
next
  fix l ms and c :: TcpConnection and w :: 'a
  assume *: "tcp_laws os handler net fd" "clock_runs os" "on_socket fd c" "tcp_state l ms c" "c_state c = WRITE_RESPONSE"
  then have "tcp_response l ms c" by (simp add: tcp_state_def)
  with * show "\<exists>r. WriteResponse os (tcp_connection os handler) c w = Some r"
    by (intro WriteResponse_returns [where net = net]) (simp_all add: tcp_laws_def on_socket_def tcp_response_def buffers_ok_def)
qed (simp_all add: tcp_state_closed)

section \<open>The life of a connection\<close>

text \<open>
  \<open>tcp_reach os handler net fd c w\<close>: the states a connection of the descriptor \<open>fd\<close> can get into, from
  its creation. \<open>tcp_waiting\<close>: no complete message is left behind.
\<close>

definition tcp_reach :: "'w os \<Rightarrow> ('m, 'w) rpc_handler \<Rightarrow> ('w \<Rightarrow> netlog) \<Rightarrow> int \<Rightarrow> TcpConnection \<Rightarrow> 'w \<Rightarrow> bool" where
  "tcp_reach os handler net fd = conn_reach os (tcp_connection os handler) net (\<lambda>_. True) (tcp_start os net fd)"

definition tcp_waiting :: "TcpConnection \<Rightarrow> bool" where
  "tcp_waiting = waiting (\<lambda>c. 0x3A \<notin> set (unread c))"

lemma tcp_reach_state:
  assumes "tcp_reach os handler net fd c w" "stream_log os fd net" "alloc_ok os" "handler_logged handler net"
  shows "\<exists>ms. tcp_state (net w) ms c \<and> c_state c \<noteq> WRITE_RESPONSE"
  using tcp.reach_described [OF assms(1) [unfolded tcp_reach_def]] assms(2-)
  by (auto simp: tcp_laws_def)

lemma tcp_process:
  assumes "tcp_reach os handler net fd c w" "stream_log os fd net" "alloc_ok os" "handler_logged handler net" "clock_runs os"
  shows "(\<exists>r c' m' w'. Process os (tcp_connection os handler) e c m w = Some (r, c', m', w')
      \<and> (case r of Inr _ \<Rightarrow> \<not> e \<or> tcp_waiting c' | Inl x \<Rightarrow> handler_raises handler x))
    \<or> (\<exists>ms. tcp_state (net w) ms c \<and>
        (\<forall>n. \<exists>c' m' w' es. Process_passes n os (tcp_connection os handler) e c m w = Some (Inr True, c', m', w')
          \<and> tcp_state (net w') (ms @ es) c' \<and> n \<le> length es))"
  unfolding tcp_waiting_def
  by (rule tcp.process_result [OF assms(1) [unfolded tcp_reach_def] _ assms(5) TrueI])
    (simp_all add: tcp_laws_def assms(2-4))

section \<open>An example\<close>

text \<open>The message "2:ac" arrives in two pieces; the answer is "1:a,".\<close>

lemma new_script:
  "TcpConnection_new script_os mem 3 w = (\<lparr> c_socket = \<lparr> s_fd = 3, s_err = 0, s_timeout = 0, s_connected = False \<rparr>,
     c_state = READ_HEADER, c_lastTransactionTime = 0, c_active = True, c_buffer = mem,
            c_bufferLength = 0, c_contentLength = 0, c_keepAlive = False, c_request = NoRequest, c_contentAvail = 0,
            c_requestAllocated = False, c_header = wss_new MaxBufferSize, c_headerBytesWritten = 0,
            c_response = wss_new MaxBufferSize, c_resultBytesWritten = 0, c_threadRunning = False, c_commaExpected = False \<rparr>, w)"
  by (simp add: TcpConnection_new_def Connection_new_def script_simps)

definition example_log :: netlog where
  "example_log = \<lparr> received = [0x32, 0x3A, 0x61, 0x63], sent = [0x31, 0x3A, 0x61, 0x2C],
     executed = [([0x61, 0x63], Some [0x61])] \<rparr>"

definition example_memory :: bytes where "example_memory = replicate 2049 0"

definition example_start :: script where
  "example_start = ([[0x32, 0x3A, 0x61], [0x63]], \<lparr> received = [], sent = [], executed = [] \<rparr>)"

abbreviation example_handler :: "(unit, script) rpc_handler" where
  "example_handler \<equiv> log_handler echo_handler"

lemma example_run:
  "\<exists>c'. Process script_os (tcp_connection script_os example_handler) True
     (fst (TcpConnection_new script_os example_memory 3 example_start)) () example_start =
       Some (Inr (), c', (), [], example_log) \<and> c_state c' = READ_HEADER"
proof -
  have len: "length example_memory = 2049" by (simp add: example_memory_def)
  show ?thesis
    apply (subst Process.simps)
    apply (simp add: example_start_def new_script Process_pass_def read_phases_def Tcp_ReadHeader_def receive_buffer_def
        script_receive MaxBufferLength_def store_def stored_def len)
    apply (simp add: atoi_def Let_def atoi_sign_def is_space_def is_digit_def digit_val_def saturate64_def size_of_int_def
        MaxContentLength_def place_request_def MaxBufferLength_def store_request_def store_def len)
    apply (simp add: ReadRequest_def script_receive request_complete_def store_request_def store_def stored_def len)
    apply (simp add: Tcp_ExecuteRequest_def log_handler_def echo_handler_def request_memory_def)
    apply (simp add: put_lines_def wss_put_char_def wss_append_def wss_Clear_def wss_new_def BufferSegment_def
        StaticBufferSize_def MaxBufferSize_def size_pred_def wss_put.simps dec_nat.simps digit_def)
    apply (simp add: write_phase_def WriteResponse_def write_header.simps write_body.simps segment_at_def wss_GetBuffer_def
        script_send Let_def)
    apply (simp add: Connection_Initialize_def keep_buffer_def more_data_def wss_Clear_def example_log_def log_sent_def
        log_received_def log_executed_def wss_content_def)
    done
qed

lemma example_reached:
  "\<exists>c. tcp_reach script_os example_handler snd 3 c ([], example_log) \<and> c_state c = READ_HEADER"
proof -
  obtain c' where c': "Process script_os (tcp_connection script_os example_handler) True
     (fst (TcpConnection_new script_os example_memory 3 example_start)) () example_start =
       Some (Inr (), c', (), [], example_log)" "c_state c' = READ_HEADER" using example_run by blast
  have "tcp_start script_os snd 3 (fst (TcpConnection_new script_os example_memory 3 example_start)) example_start"
    unfolding tcp_start_def by (intro exI [of _ example_memory] exI [of _ example_start])
      (simp add: new_script example_memory_def MaxBufferLength_def example_start_def)
  from reach_process [OF reach_new [where start = "tcp_start script_os snd 3", OF this] TrueI c'(1)] c'(2) show ?thesis unfolding tcp_reach_def by blast
qed

end
