(* ===== verification/AnyRpc_HttpConnection.thy ===== *)
theory AnyRpc_HttpConnection
  imports AnyRpc_Protocol
begin

text \<open>
  \<^verbatim>\<open>HttpConnection\<close> of connection.cpp: the header is processed as it arrives, the body is as long as the
  header says, the method of the request decides the response. The theory ends with the contract of a
  protocol: a connection answers the requests in the bytes it receives, each once and in order.
\<close>

section \<open>HttpConnection\<close>

record HttpConnection = Connection +
  c_httpRequestState :: HttpRequest

definition HttpConnection_new :: "'w os \<Rightarrow> bytes \<Rightarrow> int \<Rightarrow> 'w \<Rightarrow> HttpConnection \<times> 'w" where
  "HttpConnection_new os memory fd w =
     (let (c, w') = Connection_new os memory fd w
      in (Connection.extend c \<lparr> c_httpRequestState = HttpRequest_new \<rparr>, w'))"

definition HttpConnection_Initialize :: "bool \<Rightarrow> HttpConnection \<Rightarrow> HttpConnection" where
  "HttpConnection_Initialize preserveBufferData c =
     (let c' = Connection_Initialize preserveBufferData c
      in c' \<lparr> c_httpRequestState := HttpRequest_Initialize (c_httpRequestState c') \<rparr>)"

definition Http_ReadHeader :: "'w os \<Rightarrow> HttpConnection \<Rightarrow> 'w \<Rightarrow> ((exn + bool) \<times> HttpConnection \<times> 'w) option" where
  "Http_ReadHeader os c w =
     (case receive_buffer os HttpConnection_Initialize c w of
        None \<Rightarrow> None
      | Some (Inl x, c1, w1) \<Rightarrow> Some (Inl x, c1, w1)
      | Some (Inr (False, eof), c1, w1) \<Rightarrow> Some (Inr False, c1, w1)
      | Some (Inr (True, eof), c1, w1) \<Rightarrow>
          (case ProcessHeaderData HttpRequest_virtuals (take (c_bufferLength c1) (c_buffer c1)) eof (c_httpRequestState c1) of
             (HEADER_FAULT, h) \<Rightarrow> Some (Inr False, HttpConnection_Initialize False (c1 \<lparr> c_httpRequestState := h \<rparr>), w1)
           | (HEADER_INCOMPLETE, h) \<Rightarrow> Some (Inr True, c1 \<lparr> c_httpRequestState := h \<rparr>, w1)
           | (HEADER_COMPLETE, h) \<Rightarrow>
               let c2 = c1 \<lparr> c_httpRequestState := h, c_contentLength := size_of_int (GetContentLength h),
                             c_contentAvail := c_bufferLength c1 - GetBodyStartPos h, c_keepAlive := GetKeepAlive h \<rparr>
               in if c_contentLength c2 > MaxContentLength then Some (Inr False, HttpConnection_Initialize False c2, w1)
                  else (case place_request os True (GetBodyStartPos h) c2 w1 of
                          (None, w2) \<Rightarrow> Some (Inr False, HttpConnection_Initialize False c2, w2)
                        | (Some c3, w2) \<Rightarrow> Some (Inr True, c3 \<lparr> c_state := READ_REQUEST \<rparr>, w2))))"

text \<open>
  The response headers. The name of the application and the version come from the build, which
  generates \<^verbatim>\<open>version.h\<close>; the version is a parameter.
\<close>

definition GeneratePOSTResponseHeader ::
    "bytes \<Rightarrow> nat \<Rightarrow> bytes \<Rightarrow> HttpConnection \<Rightarrow> HttpConnection option" where
  "GeneratePOSTResponseHeader version bodySize ctype c =
     map_option (\<lambda>s. c \<lparr> c_header := s \<rparr>) (put_lines
       [lit ''HTTP/1.1 200 OK'' @ crlf,
        lit ''Server: '', lit ''AnyRPC'', lit '' v'', version, crlf,
        (if c_keepAlive c then lit ''Connection: keep-alive'' @ crlf else lit ''Connection: close'' @ crlf),
        lit ''Content-Type: '', ctype, crlf,
        lit ''Content-length: '', dec_nat bodySize, crlf,
        crlf] (c_header c))"

definition GenerateOPTIONSResponseHeader :: "HttpConnection \<Rightarrow> HttpConnection option" where
  "GenerateOPTIONSResponseHeader c =
     map_option (\<lambda>s. c \<lparr> c_header := s \<rparr>) (put_lines
       [lit ''HTTP/1.1 200 OK'' @ crlf,
        lit ''Access-Control-Allow-Origin: *'' @ crlf,
        lit ''Access-Control-Allow-Methods: POST'' @ crlf,
        lit ''Access-Control-Max-Age: 1728000'' @ crlf,
        lit ''Access-Control-Allow-Headers: Content-Type'' @ crlf,
        lit ''Vary: Accept-Encoding, Origin'' @ crlf,
        lit ''Keep-Alive: timeout=2, max=100'' @ crlf,
        lit ''Connection: keep-alive'' @ crlf,
        crlf] (c_header c))"

definition GenerateErrorResponseHeader :: "int \<Rightarrow> bytes \<Rightarrow> HttpConnection \<Rightarrow> HttpConnection option" where
  "GenerateErrorResponseHeader code message c =
     map_option (\<lambda>s. c \<lparr> c_header := s \<rparr>) (put_lines
       [lit ''HTTP/1.1 '', dec_int code, lit '' '', message, crlf,
        lit ''Connection: close'' @ crlf,
        crlf] (c_header c))"

text \<open>
  The list of handlers is shared by all connections of a server, and \<^verbatim>\<open>GetResponseContentType\<close>
  gives a reference: an empty response type is replaced for good by the type of the request.
\<close>

fun find_handler :: "bytes \<Rightarrow> ('m, 'w) RpcContentHandler list \<Rightarrow> nat option" where
  "find_handler ctype [] = None"
| "find_handler ctype (h # hs) =
     (if CanProcessContentType h ctype then Some 0 else map_option Suc (find_handler ctype hs))"

type_synonym ('m, 'w) http_shared = "'m \<times> ('m, 'w) RpcContentHandler list"

definition Http_ExecuteRequest ::
    "bytes \<Rightarrow> HttpConnection \<Rightarrow> ('m, 'w) http_shared \<Rightarrow> 'w \<Rightarrow>
      ((exn + bool) \<times> HttpConnection \<times> ('m, 'w) http_shared \<times> 'w) option" where
  "Http_ExecuteRequest version c mh w =
     (let (m, handlers) = mh;
          requestContentType = GetContentType (c_httpRequestState c);
          answer = (\<lambda>r mh' w'. map_option (\<lambda>c'. (Inr True, c' \<lparr> c_state := WRITE_RESPONSE \<rparr>, mh', w')) r)
      in if req_method (c_httpRequestState c) = lit ''POST'' then
           (case find_handler requestContentType handlers of
              None \<Rightarrow> Some (Inr False, HttpConnection_Initialize False c, mh, w)
            | Some i \<Rightarrow>
                (case HandleRequest (handlers ! i) (request_memory c) (c_contentLength c) (c_response c) m w of
                   (Inl x, m', w') \<Rightarrow> Some (Inl x, c, (m', handlers), w')
                 | (Inr (_, response), m', w') \<Rightarrow>
                     let c1 = c \<lparr> c_response := response \<rparr>;
                         h = handlers ! i;
                         h' = (if length (rch_responseContentType h) = 0
                               then h \<lparr> rch_responseContentType := requestContentType \<rparr> else h)
                     in answer (GeneratePOSTResponseHeader version (wss_length response) (rch_responseContentType h') c1)
                          (m', handlers[i := h']) w'))
         else if req_method (c_httpRequestState c) = lit ''OPTIONS'' then answer (GenerateOPTIONSResponseHeader c) mh w
         else answer (GenerateErrorResponseHeader 501 (lit ''Not Implemented'') c) mh w)"

definition http_connection :: "'w os \<Rightarrow> bytes \<Rightarrow> (HttpConnection, ('m, 'w) http_shared, 'w) connection_virtuals" where
  "http_connection os version =
     \<lparr> v_Initialize = HttpConnection_Initialize, v_ReadHeader = Http_ReadHeader os,
       v_ExecuteRequest = Http_ExecuteRequest version \<rparr>"

section \<open>Requests and responses\<close>

text \<open>
  The specification. \<open>http_header text h\<close>: \<open>text\<close> is a header, up to its empty line, and \<open>h\<close> what it says.
  An exchange is the text of a header, its contents, the body of the request and, for a POST, the result
  and the response of the handler; \<open>hs\<close> are the handlers of the server.
\<close>

abbreviation (input) empty_request :: HttpRequest where "empty_request \<equiv> HttpRequest_new"

definition http_header :: "bytes \<Rightarrow> HttpRequest \<Rightarrow> bool" where
  "http_header txt h \<longleftrightarrow> ProcessHeaderData HttpRequest_virtuals txt False HttpRequest_new = (HEADER_COMPLETE, h)
     \<and> GetBodyStartPos h = length txt"

type_synonym http_exchange = "bytes \<times> HttpRequest \<times> bytes \<times> (bool \<times> bytes) option"

definition http_exchange_ok :: "('m, 'w) RpcContentHandler list \<Rightarrow> http_exchange \<Rightarrow> bool" where
  "http_exchange_ok hs e \<longleftrightarrow> (case e of (txt, h, body, r) \<Rightarrow>
     http_header txt h \<and> int (length body) = sint (GetContentLength h) \<and> length body \<le> MaxContentLength
     \<and> (r \<noteq> None \<longleftrightarrow> req_method h = lit ''POST'') \<and> (r \<noteq> None \<longrightarrow> find_handler (GetContentType h) hs \<noteq> None))"

definition http_text :: "http_exchange list \<Rightarrow> bytes" where
  "http_text es = concat (map (\<lambda>(txt, h, body, r). txt @ body) es)"

definition http_calls :: "http_exchange list \<Rightarrow> (bytes \<times> bytes option) list" where
  "http_calls es = concat (map (\<lambda>(txt, h, body, r).
     case r of None \<Rightarrow> [] | Some (b, reply) \<Rightarrow> [(body, if b then Some reply else None)]) es)"

definition post_header :: "bytes \<Rightarrow> bool \<Rightarrow> nat \<Rightarrow> bytes \<Rightarrow> bytes" where
  "post_header version keep n ctype =
     lit ''HTTP/1.1 200 OK'' @ crlf @ lit ''Server: AnyRPC v'' @ version @ crlf
     @ lit ''Connection: '' @ lit (if keep then ''keep-alive'' else ''close'') @ crlf
     @ lit ''Content-Type: '' @ ctype @ crlf @ lit ''Content-length: '' @ dec_nat n @ crlf @ crlf"

definition options_answer :: bytes where
  "options_answer = lit ''HTTP/1.1 200 OK'' @ crlf @ lit ''Access-Control-Allow-Origin: *'' @ crlf
     @ lit ''Access-Control-Allow-Methods: POST'' @ crlf @ lit ''Access-Control-Max-Age: 1728000'' @ crlf
     @ lit ''Access-Control-Allow-Headers: Content-Type'' @ crlf @ lit ''Vary: Accept-Encoding, Origin'' @ crlf
     @ lit ''Keep-Alive: timeout=2, max=100'' @ crlf @ lit ''Connection: keep-alive'' @ crlf @ crlf"

definition error_answer :: bytes where
  "error_answer = lit ''HTTP/1.1 501 Not Implemented'' @ crlf @ lit ''Connection: close'' @ crlf @ crlf"

definition response_type :: "('m, 'w) RpcContentHandler list \<Rightarrow> bytes \<Rightarrow> bytes" where
  "response_type hs ctype = (case find_handler ctype hs of None \<Rightarrow> [] | Some i \<Rightarrow> rch_responseContentType (hs ! i))"

definition http_answer :: "bytes \<Rightarrow> ('m, 'w) RpcContentHandler list \<Rightarrow> http_exchange \<Rightarrow> bytes" where
  "http_answer version hs e = (case e of (txt, h, body, r) \<Rightarrow>
     (case r of
        Some (b, reply) \<Rightarrow> post_header version (GetKeepAlive h) (length reply) (response_type hs (GetContentType h)) @ reply
      | None \<Rightarrow> if req_method h = lit ''OPTIONS'' then options_answer else error_answer))"

definition http_answers :: "bytes \<Rightarrow> ('m, 'w) RpcContentHandler list \<Rightarrow> http_exchange list \<Rightarrow> bytes" where
  "http_answers version hs es = concat (map (http_answer version hs) es)"

lemma http_snoc [simp]:
  "http_text (es @ [(txt, h, body, r)]) = http_text es @ txt @ body"
  "http_calls (es @ [(txt, h, body, r)]) = http_calls es @
     (case r of None \<Rightarrow> [] | Some (b, reply) \<Rightarrow> [(body, if b then Some reply else None)])"
  "http_answers version hs (es @ [e]) = http_answers version hs es @ http_answer version hs e"
  by (simp_all add: http_text_def http_calls_def http_answers_def)

section \<open>The header is found\<close>

lemma header_loop_mono: "startIndex h \<le> startIndex (header_loop v buffer eof h)"
proof (induction v buffer eof h rule: header_loop.induct)
  case (1 v buffer eof h)
  then show ?case by (subst header_loop.simps) (auto split: option.split)
qed

lemma FindChar_prefix: "FindChar (xs @ ys) c = Some i \<Longrightarrow> i < length xs \<Longrightarrow> FindChar xs c = Some i"
proof (induction xs arbitrary: i)
  case (Cons x xs)
  then show ?case by (auto split: if_splits)
qed simp

text \<open>What follows the header does not matter.\<close>

lemma header_loop_prefix:
  assumes "startIndex h \<le> length buffer" "headerResult h = HEADER_INCOMPLETE"
    "headerResult (header_loop v buffer False h) \<noteq> HEADER_INCOMPLETE"
  shows "header_loop v (take (startIndex (header_loop v buffer False h)) buffer) False h = header_loop v buffer False h"
  using assms
proof (induction v buffer "False" h rule: header_loop.induct)
  case (1 v buffer h)
  let ?h = "header_loop v buffer False h"
  let ?xs = "take (startIndex ?h) buffer" and ?ys = "drop (startIndex ?h) buffer"
  obtain i where i: "FindChar (drop (startIndex h) buffer) 0x0A = Some i"
    using 1(3,4) by (cases "FindChar (drop (startIndex h) buffer) 0x0A") (auto simp: header_loop_wait)
  let ?s = "header_step v buffer i h"
  note step = header_loop_line [OF 1(3) i, of v False]
  note b = found_in_prefix(1) [OF i 1(2)]
  have "startIndex ?s \<le> startIndex ?h" unfolding step by (rule header_loop_mono)
  then have le: "startIndex h + i < startIndex ?h" by simp
  have hb: "startIndex ?h \<le> length buffer" by (rule header_loop_bound [OF 1(2)])
  have split: "drop (startIndex h) (?xs @ ?ys) = drop (startIndex h) ?xs @ ?ys" using le hb by (simp del: append_take_drop_id)
  have i': "FindChar (drop (startIndex h) ?xs) 0x0A = Some i"
    by (rule FindChar_prefix [where ys = ?ys]) (use i split le hb in simp_all)
  have "header_step v (?xs @ ?ys) i h = header_step v ?xs i h"
    by (rule header_step_append) (use le hb in simp)
  then have s: "header_step v ?xs i h = ?s" by simp
  have "header_loop v ?xs False h = header_loop v ?xs False ?s"
    using header_loop_line [OF 1(3) i', of v False] s by simp
  also have "... = ?h"
  proof (cases "headerResult ?s = HEADER_INCOMPLETE")
    case True
    from 1(1) [OF 1(3) i _ True] b 1(4) show ?thesis unfolding step by simp
  next
    case False
    then show ?thesis by (simp add: step)
  qed
  finally show ?case .
qed

lemma header_found_complete:
  assumes "header_loop HttpRequest_virtuals buffer False HttpRequest_new = h" "headerResult h = HEADER_COMPLETE"
  shows "startIndex h \<le> length buffer" "http_header (take (startIndex h) buffer) h" "- 1 \<le> sint (contentLength h)"
proof -
  have new: "startIndex HttpRequest_new = 0" "headerResult HttpRequest_new = HEADER_INCOMPLETE" "request_inv HttpRequest_new"
    by (simp_all add: HttpRequest_new_def request_inv_def)
  show le: "startIndex h \<le> length buffer" using header_loop_bound [of HttpRequest_new buffer] assms(1) new by force
  have "header_loop HttpRequest_virtuals (take (startIndex h) buffer) False HttpRequest_new = h"
    using header_loop_prefix [of HttpRequest_new buffer HttpRequest_virtuals] assms new by simp
  with le assms(2) show "http_header (take (startIndex h) buffer) h"
    by (simp add: http_header_def ProcessHeaderData_def GetBodyStartPos_def new)
  have "request.good HttpRequest_new" using new by (simp add: request.good_def)
  from request.loop_good [OF this refl, of buffer False] assms show "- 1 \<le> sint (contentLength h)"
    by (simp add: request.good_def request_inv_def)
qed

section \<open>The state of a connection\<close>

text \<open>
  As for the netstrings. Between two requests the header object has seen a part \<open>xs\<close> of the unread bytes
  and found no complete header in it.
\<close>

definition no_header :: "bytes \<Rightarrow> bool" where
  "no_header xs \<longleftrightarrow> headerResult (header_loop HttpRequest_virtuals xs False HttpRequest_new) = HEADER_INCOMPLETE"

definition http_idle :: "bytes \<Rightarrow> ('m, 'w) RpcContentHandler list \<Rightarrow> netlog \<Rightarrow> http_exchange list \<Rightarrow> HttpConnection \<Rightarrow> bool" where
  "http_idle version hs l es c \<longleftrightarrow> buffers_ok c \<and> idle c
     \<and> (\<exists>xs ys. unread c = xs @ ys \<and> no_header xs
         \<and> c_httpRequestState c = header_loop HttpRequest_virtuals xs False HttpRequest_new)
     \<and> received l = http_text es @ unread c \<and> sent l = http_answers version hs es"

definition http_request :: "bytes \<Rightarrow> ('m, 'w) RpcContentHandler list \<Rightarrow> netlog \<Rightarrow> http_exchange list \<Rightarrow> HttpConnection \<Rightarrow> bool" where
  "http_request version hs l es c \<longleftrightarrow> buffers_ok c \<and> request_ok c \<and> unanswered c
     \<and> c_keepAlive c = GetKeepAlive (c_httpRequestState c)
     \<and> int (c_contentLength c) = sint (GetContentLength (c_httpRequestState c)) \<and> c_contentLength c \<le> MaxContentLength
     \<and> (\<exists>txt. http_header txt (c_httpRequestState c) \<and> received l = http_text es @ txt @ unread c)
     \<and> sent l = http_answers version hs es"

definition http_response :: "bytes \<Rightarrow> ('m, 'w) RpcContentHandler list \<Rightarrow> netlog \<Rightarrow> http_exchange list \<Rightarrow> HttpConnection \<Rightarrow> bool" where
  "http_response version hs l es c \<longleftrightarrow> buffers_ok c \<and> request_ok c
     \<and> c_contentLength c \<le> c_contentAvail c \<and> c_headerBytesWritten c = 0 \<and> c_resultBytesWritten c = 0
     \<and> segment_at (c_header c) 0 = wss_content (c_header c)
     \<and> received l = http_text es @ drop (c_contentLength c) (unread c)
     \<and> sent l @ wss_content (c_header c) @ wss_content (c_response c) = http_answers version hs es"

definition http_closed :: "bytes \<Rightarrow> ('m, 'w) RpcContentHandler list \<Rightarrow> netlog \<Rightarrow> http_exchange list \<Rightarrow> bool" where
  "http_closed version hs l es \<longleftrightarrow> (\<exists>rest. received l = http_text es @ rest) \<and>
     (\<exists>rest. http_answers version hs es = sent l @ rest)"

definition http_state :: "bytes \<Rightarrow> ('m, 'w) RpcContentHandler list \<Rightarrow> netlog \<Rightarrow> http_exchange list \<Rightarrow> HttpConnection \<Rightarrow> bool" where
  "http_state version hs l es c \<longleftrightarrow> (\<forall>e \<in> set es. http_exchange_ok hs e) \<and> executed l = http_calls es \<and>
     (case c_state c of
        READ_HEADER \<Rightarrow> http_idle version hs l es c
      | READ_REQUEST \<Rightarrow> http_request version hs l es c
      | EXECUTE_REQUEST \<Rightarrow> http_request version hs l es c \<and> c_contentLength c \<le> c_contentAvail c
      | WRITE_RESPONSE \<Rightarrow> http_response version hs l es c
      | CLOSE_CONNECTION \<Rightarrow> http_closed version hs l es)"

lemma http_closedI:
  assumes "\<forall>e \<in> set es. http_exchange_ok hs e" "executed l = http_calls es" "received l = http_text es @ rest"
    "http_answers version hs es = sent l @ rest'"
  shows "http_state version hs l es (SetCloseState c)"
  using assms by (auto simp: http_state_def SetCloseState_def http_closed_def)

text \<open>The base class and the header object do not touch each other.\<close>

lemma http_more: "Connection.more c' = Connection.more c \<Longrightarrow> c_httpRequestState c' = c_httpRequestState c"
  for c c' :: HttpConnection
  by (cases c; cases c') simp

lemma header_updates [simp]:
  "unread (c \<lparr> c_httpRequestState := h \<rparr>) = unread c" "request_ok (c \<lparr> c_httpRequestState := h \<rparr>) = request_ok c"
  "buffers_ok (c \<lparr> c_httpRequestState := h \<rparr>) = buffers_ok c" "unanswered (c \<lparr> c_httpRequestState := h \<rparr>) = unanswered c"
  "idle (c \<lparr> c_httpRequestState := h \<rparr>) = idle c"
  by (simp_all add: unread_def request_memory_def buffers_ok_def request_ok_def unanswered_def idle_def split: request_ptr.split)

lemma HttpRequest_Initialize_new: "HttpRequest_Initialize h = HttpRequest_new"
  by (cases h) (simp add: HttpRequest_Initialize_def HttpHeader_Initialize_def HttpRequest_new_def)

lemma Http_Initialize_simps [simp]:
  "c_socket (HttpConnection_Initialize p c) = c_socket c" "c_state (HttpConnection_Initialize p c) = c_state c"
  "c_httpRequestState (HttpConnection_Initialize p c) = HttpRequest_new"
  by (simp_all add: HttpConnection_Initialize_def Let_def HttpRequest_Initialize_new)

lemma no_header_Nil: "no_header []" "header_loop HttpRequest_virtuals [] False HttpRequest_new = HttpRequest_new"
proof -
  show "header_loop HttpRequest_virtuals [] False HttpRequest_new = HttpRequest_new"
    by (subst header_loop_wait) (simp_all add: HttpRequest_new_def)
  then show "no_header []" by (simp add: no_header_def HttpRequest_new_def)
qed

section \<open>Reading a request\<close>

lemma size_of_int_small:
  assumes "- 1 \<le> sint n" "size_of_int n \<le> MaxContentLength"
  shows "sint n = int (size_of_int n)"
proof (cases "0 \<le> sint n")
  case True
  then show ?thesis by (rule size_of_int_nonneg)
next
  case False
  with assms(1) have "sint n = - 1" by simp
  then have "word_of_int (sint n) = (- 1 :: 32 word)" by simp
  then have "n = - 1" by simp
  moreover have "\<not> size_of_int (- 1) \<le> MaxContentLength"
    by (simp add: size_of_int_def MaxContentLength_def unsigned_minus_1_eq_mask mask_eq_exp_minus_1)
  ultimately show ?thesis using assms(2) by simp
qed

lemma Http_ReadHeader_step:
  assumes "Http_ReadHeader os c w = Some (r, c', w')" "http_state version hs (net w) es c" "c_state c = READ_HEADER"
    and laws: "stream_log os (s_fd (c_socket c)) net" "alloc_ok os"
  shows "(r = Inr True \<and> http_state version hs (net w') es c' \<and>
      (c_state c' = READ_HEADER \<and> no_header (unread c') \<or> c_state c' = READ_REQUEST)
      \<or> r = Inr False \<and> http_state version hs (net w') es (SetCloseState c'))
    \<and> s_fd (c_socket c') = s_fd (c_socket c) \<and> s_timeout (c_socket c') = s_timeout (c_socket c)"
proof -
  from assms(2,3) obtain xs ys where st: "\<forall>e \<in> set es. http_exchange_ok hs e" "executed (net w) = http_calls es" "buffers_ok c"
      "idle c" "unread c = xs @ ys" "no_header xs"
      "c_httpRequestState c = header_loop HttpRequest_virtuals xs False HttpRequest_new"
      "received (net w) = http_text es @ unread c" "sent (net w) = http_answers version hs es"
    by (auto simp: http_state_def http_idle_def)
  obtain r1 c1 w1 where rb: "receive_buffer os HttpConnection_Initialize c w = Some (r1, c1, w1)"
    using assms(1) by (auto simp: Http_ReadHeader_def split: option.splits)
  from receive_buffer_post [OF rb st(3,4) laws(1)] obtain data c0 where
    R: "net w1 = log_received data (net w)" "filled c c0" "buffers_ok c0"
      "(\<exists>eof. r1 = Inr (False, eof)) \<and> c1 = HttpConnection_Initialize False c0 \<or>
       r1 = Inr (True, False) \<and> c1 = c0 \<and> unread c0 = unread c @ data" by blast
  note F = filledD [OF R(2)]
  have rec: "received (net w1) = http_text es @ unread c @ data" using R(1) st(8) by simp
  have closed: "http_state version hs (net w1) es (SetCloseState x)" for x
    by (rule http_closedI [OF st(1) _ rec, of _ "[]"]) (use R(1) st in simp_all)
  show ?thesis
  proof (cases "r1 = Inr (True, False)")
    case False
    with R(4) obtain eof where "r1 = Inr (False, eof)" "c1 = HttpConnection_Initialize False c0" by auto
    with assms(1) closed F show ?thesis by (auto simp: Http_ReadHeader_def rb)
  next
    case True
    with R(4) have c1: "c1 = c0" and pend: "unread c1 = unread c @ data" by auto
    have idle1: "idle c1" using F(1) st(4) c1 by simp
    then have take1: "take (c_bufferLength c1) (c_buffer c1) = unread c1" by (simp add: unread_def idle_def)
    let ?h = "header_loop HttpRequest_virtuals (unread c1) False HttpRequest_new"
    have s0: "startIndex HttpRequest_new = 0" by (simp add: HttpRequest_new_def)
    have "startIndex (c_httpRequestState c1) \<le> length xs"
      using header_loop_bound [of HttpRequest_new xs] http_more [OF F(3)] st(7) c1 s0 by simp
    then have ph: "ProcessHeaderData HttpRequest_virtuals (unread c1) False (c_httpRequestState c1) = (headerResult ?h, ?h)"
      using header_loop_resume [of HttpRequest_new xs HttpRequest_virtuals "ys @ data" False] http_more [OF F(3)] st(5,7) c1 pend s0
      by (simp add: ProcessHeaderData_def Let_def)
    note unf = Http_ReadHeader_def rb True take1 ph Let_def
    show ?thesis
    proof (cases "headerResult ?h")
      case HEADER_FAULT
      with assms(1) have "r = Inr False" "w' = w1" "c_socket c' = c_socket c1" by (auto simp: unf)
      with closed F c1 show ?thesis by auto
    next
      case HEADER_INCOMPLETE
      with assms(1) have out: "r = Inr True" "w' = w1" "c' = c1 \<lparr> c_httpRequestState := ?h \<rparr>" by (auto simp: unf)
      have nh: "no_header (unread c1)" using HEADER_INCOMPLETE by (simp add: no_header_def)
      have "http_idle version hs (net w1) es c'"
        unfolding http_idle_def by (intro conjI exI [of _ "unread c1"] exI [of _ "[]"])
          (use R(1,3) c1 idle1 nh rec pend st(9) in \<open>simp_all add: out\<close>)
      with st F(2) assms(3) R(1) c1 have "http_state version hs (net w1) es c'" by (simp add: http_state_def out)
      with nh out F assms(3) c1 show ?thesis by simp
    next
      case HEADER_COMPLETE
      note H = header_found_complete [OF refl HEADER_COMPLETE]
      let ?n = "size_of_int (contentLength ?h)" and ?i = "startIndex ?h"
      let ?c2 = "c1 \<lparr> c_httpRequestState := ?h, c_contentLength := ?n, c_contentAvail := c_bufferLength c1 - ?i, c_keepAlive := keepAlive ?h \<rparr>"
      note unf = unf HEADER_COMPLETE GetBodyStartPos_def GetContentLength_def GetKeepAlive_def
      show ?thesis
      proof (cases "MaxContentLength < ?n")
        case True
        with assms(1) have "r = Inr False" "w' = w1" "c_socket c' = c_socket c1" by (auto simp: unf)
        with closed F c1 show ?thesis by auto
      next
        case n: False
        obtain r2 w2 where pr: "place_request os True ?i ?c2 w1 = (r2, w2)" by fastforce
        have b2: "buffers_ok ?c2" using R(3) c1 by (simp add: buffers_ok_def)
        have bl: "c_bufferLength c1 = length (unread c1)" "?i \<le> c_bufferLength c1"
          using b2 take1 H(1) by (auto simp: buffers_ok_def dest: arg_cong [where f = length])
        note P = place_request_post [OF pr b2, of "s_fd (c_socket c)" net]
        have w2: "net w2 = net w1" using P(1) bl laws by simp
        show ?thesis
        proof (cases r2)
          case None
          with assms(1) n pr have "r = Inr False" "w' = w2" "c_socket c' = c_socket c1" by (auto simp: unf)
          with closed w2 F c1 show ?thesis by (simp add: http_state_def SetCloseState_def)
        next
          case (Some c3)
          have c3: "c3 = ?c2 \<lparr> c_request := c_request c3, c_requestAllocated := c_requestAllocated c3 \<rparr>"
            "buffers_ok c3" "request_ok c3" "unread c3 = drop ?i (unread c1)"
            using P(2) [OF _ _ _ _ Some] bl laws take1 by simp_all
          obtain rq al where c3': "c3 = ?c2 \<lparr> c_request := rq, c_requestAllocated := al \<rparr>" using c3(1) by blast
          from assms(1) n pr Some have out: "r = Inr True" "w' = w2" "c' = c3 \<lparr> c_state := READ_REQUEST \<rparr>" by (auto simp: unf)
          have u: "unread c' = drop ?i (unread c1)" using c3(4) out by simp
          have "received (net w2) = http_text es @ take ?i (unread c1) @ unread c'"
            using rec unfolding w2 u pend [symmetric] by (simp only: append_take_drop_id)
          moreover have "unanswered c'" using idle1 by (simp add: out c3' idle_def unanswered_def)
          moreover have "int ?n = sint (contentLength ?h)" using size_of_int_small [OF H(3)] n by simp
          moreover have "c_httpRequestState c' = ?h" "c_contentLength c' = ?n" "c_keepAlive c' = keepAlive ?h"
            "c_socket c' = c_socket c1" by (simp_all add: out c3')
          moreover have "buffers_ok c'" "request_ok c'" using c3(2,3) by (simp_all add: out)
          moreover have "sent (net w2) = http_answers version hs es" using R(1) st(9) w2 by simp
          ultimately have "http_request version hs (net w2) es c'" using H(2) n
            unfolding http_request_def GetKeepAlive_def GetContentLength_def by (metis not_less)
          then have "http_state version hs (net w2) es c'" using st R(1) w2 out by (simp add: http_state_def)
          then show ?thesis using out F c1 \<open>c_socket c' = c_socket c1\<close> by simp
        qed
      qed
    qed
  qed
qed

section \<open>The body\<close>

lemma http_virtuals [simp]: "v_Initialize (http_connection os version) = HttpConnection_Initialize"
  "v_ReadHeader (http_connection os version) = Http_ReadHeader os"
  "v_ExecuteRequest (http_connection os version) = Http_ExecuteRequest version"
  by (simp_all add: http_connection_def)

lemma Http_ReadRequest_step:
  assumes "ReadRequest os (http_connection os version) c w = Some (r, c', w')" "http_state version hs (net w) es c"
    "c_state c = READ_REQUEST" and laws: "stream_log os (s_fd (c_socket c)) net"
  shows "(r = Inr True \<and> http_state version hs (net w') es c' \<and>
      (c_state c' = READ_REQUEST \<and> c_contentAvail c' < c_contentLength c' \<or> c_state c' = EXECUTE_REQUEST)
      \<or> r = Inr False \<and> http_state version hs (net w') es (SetCloseState c'))
    \<and> s_fd (c_socket c') = s_fd (c_socket c) \<and> s_timeout (c_socket c') = s_timeout (c_socket c)"
proof -
  from assms(2,3) obtain hx where st: "\<forall>e \<in> set es. http_exchange_ok hs e" "executed (net w) = http_calls es"
      "buffers_ok c" "request_ok c" "http_header hx (c_httpRequestState c)"
      "received (net w) = http_text es @ hx @ unread c" "sent (net w) = http_answers version hs es"
    and rq: "http_request version hs (net w) es c"
    by (auto simp: http_state_def http_request_def)
  from ReadRequest_post [OF assms(1) st(3,4) laws] obtain data c1 where
    R: "net w' = log_received data (net w)" "refilled c c1" "buffers_ok c1" "request_ok c1"
      "r = Inr False \<and> c' = HttpConnection_Initialize False c1 \<or> r = Inr True \<and> c' = c1 \<and> unread c1 = unread c @ data \<and>
         c_state c1 = (if c_contentLength c \<le> c_contentAvail c1 then EXECUTE_REQUEST else c_state c)"
    by auto
  note F = refilledD [OF R(2)]
  from R(5) show ?thesis
  proof (elim disjE conjE)
    assume "r = Inr False" "c' = HttpConnection_Initialize False c1"
    moreover have "http_state version hs (net w') es (SetCloseState c')"
      by (rule http_closedI [OF st(1) _ _, of _ "hx @ unread c @ data" _ "[]"]) (use R(1) st in simp_all)
    ultimately show ?thesis using F by simp
  next
    assume out: "r = Inr True" "c' = c1" "unread c1 = unread c @ data"
      "c_state c1 = (if c_contentLength c \<le> c_contentAvail c1 then EXECUTE_REQUEST else c_state c)"
    have "http_request version hs (net w') es c1"
      using rq R(1,3,4) F out(3) http_more [OF F(8)] by (auto simp: http_request_def)
    with st(1,2) R(1) out F assms(3) show ?thesis by (auto simp: http_state_def)
  qed
qed

section \<open>The execution\<close>

text \<open>
  What is relied on of the handlers of a server: each is logged, as for netstrings, and has a response
  type, which fits in the header with the version of the library.
\<close>

definition handlers_logged :: "bytes \<Rightarrow> ('m, 'w) RpcContentHandler list \<Rightarrow> ('w \<Rightarrow> netlog) \<Rightarrow> bool" where
  "handlers_logged version hs net \<longleftrightarrow>
     (\<forall>h \<in> set hs. rch_responseContentType h \<noteq> [] \<and> length version + length (rch_responseContentType h) \<le> 800
        \<and> (\<forall>handler. rch_handler h = Some handler \<longrightarrow> handler_logged handler net))"

definition handlers_raise :: "('m, 'w) RpcContentHandler list \<Rightarrow> exn \<Rightarrow> bool" where
  "handlers_raise hs x \<longleftrightarrow> (\<exists>h \<in> set hs. \<exists>handler. rch_handler h = Some handler \<and> handler_raises handler x)"

lemma find_handler_Some:
  "find_handler ctype hs = Some i \<Longrightarrow> i < length hs \<and> (\<exists>handler. rch_handler (hs ! i) = Some handler)"
  by (induction hs arbitrary: i) (auto simp: CanProcessContentType_def split: if_splits)

text \<open>A short header, in one segment.\<close>

lemma put_header:
  assumes "unanswered c" "buffers_ok c" "length (concat ls) < StaticBufferSize"
  obtains s where "put_lines ls (c_header c) = Some s" "wss_content s = concat ls" "wss_ok s" "segment_at s 0 = concat ls"
proof -
  have one: "one_segment (c_header c) []"
    by (rule one_segment_clear) (use assms(1,2) in \<open>simp_all add: unanswered_def buffers_ok_def\<close>)
  from put_lines_one_segment [OF one, of ls] assms(3) obtain s where
    s: "put_lines ls (c_header c) = Some s" "one_segment s (concat ls)" by auto
  from that [OF s(1)] one_segment_simps [OF s(2)] show thesis by simp
qed

text \<open>The state after the answer has been written to the streams.\<close>

lemma http_answered:
  assumes "http_state version hs (net w) es c" "c_state c = EXECUTE_REQUEST"
    and r: "r \<noteq> None \<longleftrightarrow> req_method (c_httpRequestState c) = lit ''POST''"
      "r \<noteq> None \<longrightarrow> find_handler (GetContentType (c_httpRequestState c)) hs \<noteq> None"
    and w': "net w' = (case r of None \<Rightarrow> net w | Some (b, reply) \<Rightarrow>
      log_executed (take (c_contentLength c) (unread c)) (if b then Some reply else None) (net w))"
    and s: "wss_ok s" "segment_at s 0 = wss_content s" "wss_ok rs"
      "\<And>txt body. wss_content s @ wss_content rs = http_answer version hs (txt, c_httpRequestState c, body, r)"
  shows "\<exists>e. http_state version hs (net w') (es @ [e]) (c \<lparr> c_response := rs, c_header := s, c_state := WRITE_RESPONSE \<rparr>)"
proof -
  let ?n = "c_contentLength c" and ?h = "c_httpRequestState c"
  let ?c = "c \<lparr> c_response := rs, c_header := s, c_state := WRITE_RESPONSE \<rparr>"
  from assms(1,2) obtain hx where st: "\<forall>e \<in> set es. http_exchange_ok hs e" "executed (net w) = http_calls es"
      "buffers_ok c" "request_ok c" "unanswered c" "int ?n = sint (GetContentLength ?h)" "?n \<le> MaxContentLength"
      "http_header hx ?h" "received (net w) = http_text es @ hx @ unread c" "sent (net w) = http_answers version hs es"
      "?n \<le> c_contentAvail c"
    by (auto simp: http_state_def http_request_def)
  let ?body = "take ?n (unread c)"
  let ?e = "(hx, ?h, ?body, r)"
  note B = request_body [OF st(4,11,3)]
  have ok: "http_exchange_ok hs ?e" using st(6-8) r B(2) by (simp add: http_exchange_ok_def)
  have ex: "executed (net w') = http_calls (es @ [?e])"
    using w' st(2) by (auto split: option.split)
  have log: "received (net w') = received (net w)" "sent (net w') = sent (net w)" using w' by (auto split: option.split)
  have u: "unread (c \<lparr> c_response := rs, c_header := s \<rparr>) = unread c"
    "request_ok (c \<lparr> c_response := rs, c_header := s \<rparr>) = request_ok c"
    by (simp_all add: unread_def request_memory_def request_ok_def split: request_ptr.split)
  have "http_response version hs (net w') (es @ [?e]) ?c"
    unfolding http_response_def
    using st(3-5,9-11) s log by (simp add: u buffers_ok_def unanswered_def)
  with st(1) ok ex have "http_state version hs (net w') (es @ [?e]) ?c" by (simp add: http_state_def)
  then show ?thesis by blast
qed

lemma header_lines:
  "concat [lit ''HTTP/1.1 200 OK'' @ crlf, lit ''Server: '', lit ''AnyRPC'', lit '' v'', version, crlf,
     (if keep then lit ''Connection: keep-alive'' @ crlf else lit ''Connection: close'' @ crlf),
     lit ''Content-Type: '', ctype, crlf, lit ''Content-length: '', dec_nat n, crlf, crlf] = post_header version keep n ctype"
  "length version + length ctype \<le> 800 \<Longrightarrow> n < 2 ^ 64 \<Longrightarrow> length (post_header version keep n ctype) < StaticBufferSize"
  using dec_nat_size [of n] by (simp_all add: post_header_def StaticBufferSize_def)

lemma fixed_answers: "length options_answer < StaticBufferSize" "length error_answer < StaticBufferSize"
  by (simp_all add: options_answer_def error_answer_def StaticBufferSize_def)

text \<open>A POST: the handler is called and the header of its response is written.\<close>

definition post_result :: "bytes \<Rightarrow> HttpConnection \<Rightarrow> ('m, 'w) RpcContentHandler \<Rightarrow> wss \<Rightarrow> HttpConnection option" where
  "post_result version c h response =
     map_option (\<lambda>c'. c' \<lparr> c_state := WRITE_RESPONSE \<rparr>)
       (GeneratePOSTResponseHeader version (wss_length response) (rch_responseContentType h) (c \<lparr> c_response := response \<rparr>))"

lemma Http_Execute_post:
  assumes "req_method (c_httpRequestState c) = lit ''POST''" "handlers_logged version hs net"
    and i: "find_handler (GetContentType (c_httpRequestState c)) hs = Some i" "rch_handler (hs ! i) = Some handler"
    and ex: "Http_ExecuteRequest version c (m, hs) w = Some (Inr b, c', mh', w')"
  shows "\<exists>response b' m'. handler (request_memory c) (c_contentLength c) (c_response c) m w = (Inr (b', response), m', w')
    \<and> b \<and> mh' = (m', hs) \<and> post_result version c (hs ! i) response = Some c'"
proof -
  from find_handler_Some [OF i(1)] have il: "i < length hs" by simp
  with assms(2) have ne: "rch_responseContentType (hs ! i) \<noteq> []" by (simp add: handlers_logged_def)
  show ?thesis
    by (cases "handler (request_memory c) (c_contentLength c) (c_response c) m w" rule: prod_cases3)
      (use ex i ne assms(1) in \<open>auto simp: Http_ExecuteRequest_def HandleRequest_def post_result_def Let_def option.map_comp comp_def
         split: sum.splits\<close>)
qed

lemma Http_ExecuteRequest_step:
  assumes "Http_ExecuteRequest version c (m, hs) w = Some (Inr b, c', mh', w')" "http_state version hs (net w) es c"
    "c_state c = EXECUTE_REQUEST" and handlers: "handlers_logged version hs net"
  shows "snd mh' = hs \<and> c_socket c' = c_socket c \<and>
    (b \<and> (\<exists>e. http_state version hs (net w') (es @ [e]) c') \<and> c_state c' = WRITE_RESPONSE
     \<or> \<not> b \<and> http_state version hs (net w') es (SetCloseState c'))"
proof -
  let ?h = "c_httpRequestState c"
  from assms(2,3) obtain hx where st: "\<forall>e \<in> set es. http_exchange_ok hs e" "executed (net w) = http_calls es"
      "buffers_ok c" "request_ok c" "unanswered c" "c_keepAlive c = GetKeepAlive ?h" "c_contentLength c \<le> c_contentAvail c"
      "received (net w) = http_text es @ hx @ unread c" "sent (net w) = http_answers version hs es"
    by (auto simp: http_state_def http_request_def)
  note empty = unanswered_content(2) [OF st(5,3)]
  have okr: "wss_ok (c_response c)" using st(3) by (simp add: buffers_ok_def)
  have ev: "c \<lparr> c_header := s, c_state := st' \<rparr> = c \<lparr> c_response := c_response c, c_header := s, c_state := st' \<rparr>" for s st'
    by simp
  show ?thesis
  proof (cases "req_method ?h = lit ''POST''")
    case post: True
    show ?thesis
    proof (cases "find_handler (GetContentType ?h) hs")
      case None
      with assms(1) post have "\<not> b" "w' = w" "mh' = (m, hs)" "c' = HttpConnection_Initialize False c"
        by (auto simp: Http_ExecuteRequest_def Let_def)
      with http_closedI [OF st(1,2) st(8), of version "[]"] st(9) show ?thesis by simp
    next
      case (Some i)
      from find_handler_Some [OF Some] obtain handler where
        i: "i < length hs" "rch_handler (hs ! i) = Some handler" by auto
      have H: "handler_logged handler net" "length version + length (rch_responseContentType (hs ! i)) \<le> 800"
        using handlers i by (auto simp: handlers_logged_def)
      from Http_Execute_post [OF post handlers Some i(2) assms(1)] obtain response b' m' where
        E: "handler (request_memory c) (c_contentLength c) (c_response c) m w = (Inr (b', response), m', w')" "b" "mh' = (m', hs)"
          "post_result version c (hs ! i) response = Some c'" by blast
      let ?reply = "wss_content response"
      have body: "take (c_contentLength c) (request_memory c) = take (c_contentLength c) (unread c)"
        by (rule request_body(1) [OF st(4,7,3), symmetric])
      from H(1) E(1) okr empty have R: "wss_ok response" "length ?reply < 2 ^ 64"
          "net w' = log_executed (take (c_contentLength c) (unread c)) (if b' then Some ?reply else None) (net w)"
        unfolding handler_logged_def body [symmetric] by blast+
      have wl: "wss_length response = length ?reply" using R(1) by (simp add: wss_ok_def)
      let ?ph = "post_header version (c_keepAlive c) (length ?reply) (rch_responseContentType (hs ! i))"
      let ?ls = "[lit ''HTTP/1.1 200 OK'' @ crlf, lit ''Server: '', lit ''AnyRPC'', lit '' v'', version, crlf,
        (if c_keepAlive c then lit ''Connection: keep-alive'' @ crlf else lit ''Connection: close'' @ crlf),
        lit ''Content-Type: '', rch_responseContentType (hs ! i), crlf, lit ''Content-length: '', dec_nat (length ?reply), crlf, crlf]"
      obtain s where s: "put_lines ?ls (c_header c) = Some s" "wss_content s = ?ph" "wss_ok s" "segment_at s 0 = ?ph"
        by (rule put_header [OF st(5,3), of ?ls]) (use header_lines(2) [OF H(2) R(2)] in \<open>simp_all only: header_lines(1)\<close>)
      from E(4) s(1) have c': "c' = c \<lparr> c_response := response, c_header := s, c_state := WRITE_RESPONSE \<rparr>"
        by (simp add: post_result_def GeneratePOSTResponseHeader_def wl)
      have "\<exists>e. http_state version hs (net w') (es @ [e]) c'"
        unfolding c' by (rule http_answered [where net = net, OF assms(2,3), where r = "Some (b', ?reply)"])
          (use R s post Some st(6) in \<open>simp_all add: http_answer_def response_type_def\<close>)
      with E(2,3) c' show ?thesis by simp
    qed
  next
    case False
    define ls where "ls = (if req_method ?h = lit ''OPTIONS'' then
      [lit ''HTTP/1.1 200 OK'' @ crlf, lit ''Access-Control-Allow-Origin: *'' @ crlf, lit ''Access-Control-Allow-Methods: POST'' @ crlf,
        lit ''Access-Control-Max-Age: 1728000'' @ crlf, lit ''Access-Control-Allow-Headers: Content-Type'' @ crlf,
        lit ''Vary: Accept-Encoding, Origin'' @ crlf, lit ''Keep-Alive: timeout=2, max=100'' @ crlf,
        lit ''Connection: keep-alive'' @ crlf, crlf]
      else [lit ''HTTP/1.1 '', dec_int 501, lit '' '', lit ''Not Implemented'', crlf, lit ''Connection: close'' @ crlf, crlf])"
    let ?a = "if req_method ?h = lit ''OPTIONS'' then options_answer else error_answer"
    have "dec_int 501 = lit ''501''" by code_simp
    then have ca: "concat ls = ?a" by (simp add: ls_def options_answer_def error_answer_def)
    obtain s where s: "put_lines ls (c_header c) = Some s" "wss_content s = ?a" "wss_ok s" "segment_at s 0 = ?a"
      by (rule put_header [OF st(5,3), of ls]) (use fixed_answers in \<open>simp_all add: ca\<close>)
    from assms(1) False s(1) have out: "b" "mh' = (m, hs)" "w' = w"
      "c' = c \<lparr> c_response := c_response c, c_header := s, c_state := WRITE_RESPONSE \<rparr>"
      by (auto simp: Http_ExecuteRequest_def GenerateOPTIONSResponseHeader_def GenerateErrorResponseHeader_def ls_def Let_def split: if_splits)
    have "\<exists>e. http_state version hs (net w') (es @ [e]) c'"
      unfolding out by (rule http_answered [where net = net, OF assms(2,3), where r = None])
        (use s False okr empty in \<open>simp_all add: http_answer_def\<close>)
    with out show ?thesis by simp
  qed
qed

section \<open>The response\<close>

lemma Http_WriteResponse_step:
  assumes "WriteResponse os (http_connection os version) c w = Some (r, c', w')" "http_state version hs (net w) es c"
    "c_state c = WRITE_RESPONSE" and laws: "stream_log os (s_fd (c_socket c)) net"
  shows "(r \<and> http_state version hs (net w') es c' \<and> c_state c' = READ_HEADER
      \<or> \<not> r \<and> http_state version hs (net w') es (SetCloseState c'))
    \<and> s_fd (c_socket c') = s_fd (c_socket c) \<and> s_timeout (c_socket c') = s_timeout (c_socket c)"
proof -
  from assms(2,3) have st: "\<forall>e \<in> set es. http_exchange_ok hs e" "executed (net w) = http_calls es" "buffers_ok c" "request_ok c"
      "c_contentLength c \<le> c_contentAvail c" "c_headerBytesWritten c = 0" "c_resultBytesWritten c = 0"
      "segment_at (c_header c) 0 = wss_content (c_header c)"
      "received (net w) = http_text es @ drop (c_contentLength c) (unread c)"
      "sent (net w) @ wss_content (c_header c) @ wss_content (c_response c) = http_answers version hs es"
    by (simp_all add: http_state_def http_response_def)
  define x where "x = wss_content (c_header c) @ wss_content (c_response c)"
  have ans: "http_answers version hs es = sent (net w) @ x" using st(10) by (simp add: x_def)
  have ok: "wss_ok (c_header c)" "wss_ok (c_response c)" using st(3) by (simp_all add: buffers_ok_def)
  from WriteResponse_post [OF assms(1) laws ok st(8,6,7)] obtain c1 where c1: "transmitted c c1" and
    R: "net w' = log_sent x (net w) \<and> r = c_keepAlive c
        \<and> c' = HttpConnection_Initialize (c_keepAlive c) (c1 \<lparr> c_state := READ_HEADER \<rparr>)
      \<or> (\<exists>k. net w' = log_sent (take k x) (net w)) \<and> \<not> r \<and> c' = HttpConnection_Initialize False c1"
    unfolding x_def by auto
  note D = writtenD [OF c1]
  have closed: "http_state version hs (log_sent (take k x) (net w)) es (SetCloseState c')" for k
    using st ans by (intro http_closedI [of es hs _ "drop (c_contentLength c) (unread c)" version "drop k x"]) simp_all
  from R show ?thesis
  proof (elim disjE conjE exE)
    assume n: "net w' = log_sent x (net w)" and r: "r = c_keepAlive c"
      and c': "c' = HttpConnection_Initialize (c_keepAlive c) (c1 \<lparr> c_state := READ_HEADER \<rparr>)"
    show ?thesis
    proof (cases "c_keepAlive c")
      case False
      with closed [of "length x"] n r c' D show ?thesis by simp
    next
      case True
      let ?c2 = "c1 \<lparr> c_state := READ_HEADER \<rparr>"
      let ?c3 = "Connection_Initialize True ?c2"
      have c3: "c' = ?c3 \<lparr> c_httpRequestState := HttpRequest_new \<rparr>"
        using c' True by (simp add: HttpConnection_Initialize_def HttpRequest_Initialize_new)
      have "unread c' = drop (c_contentLength c) (unread c)"
        using Initialize_pending [of ?c2] D st c3 by simp
      moreover have "buffers_ok c'" using Initialize_buffers [of ?c2 True] D st c3 by simp
      moreover have "idle c'" using Initialize_idle c3 by simp
      ultimately have "http_idle version hs (net w') es c'"
        unfolding http_idle_def using no_header_Nil ans n st(9) c3
        by (intro conjI exI [of _ "[]"] exI [of _ "unread c'"]) simp_all
      with st(1,2) n c3 have "http_state version hs (net w') es c'" by (simp add: http_state_def)
      with r True c' D show ?thesis by simp
    qed
  next
    fix k
    assume "net w' = log_sent (take k x) (net w)" "\<not> r" "c' = HttpConnection_Initialize False c1"
    with closed [of k] D show ?thesis by simp
  qed
qed

section \<open>The operations return\<close>

lemma Http_ReadHeader_returns:
  assumes "clock_runs os" "s_timeout (c_socket c) \<le> 0"
  shows "\<exists>r. Http_ReadHeader os c w = Some r"
proof -
  obtain r c1 w1 where "receive_buffer os HttpConnection_Initialize c w = Some (r, c1, w1)"
    using receive_buffer_returns [OF assms] by (metis prod_cases3)
  then show ?thesis
    by (cases r) (auto simp: Http_ReadHeader_def Let_def split: option.split prod.split bool.split ResultEnum.split)
qed

lemma Http_ExecuteRequest_returns:
  assumes "wss_ok (c_header c)"
  shows "\<exists>r. Http_ExecuteRequest version c mh w = Some r"
proof -
  have p: "\<exists>s. put_lines xs (c_header c) = Some s" for xs
    using wss.run_puts_content [OF assms, of "map PutStr xs"] by (auto simp: put_lines_def)
  have "\<exists>c'. GeneratePOSTResponseHeader version n ct (c \<lparr> c_response := rs \<rparr>) = Some c'"
    "\<exists>c'. GenerateOPTIONSResponseHeader c = Some c'" "\<exists>c'. GenerateErrorResponseHeader e x c = Some c'" for n ct rs e x
    using p by (simp_all add: GeneratePOSTResponseHeader_def GenerateOPTIONSResponseHeader_def GenerateErrorResponseHeader_def)
  then show ?thesis unfolding Http_ExecuteRequest_def Let_def
    by (auto split: prod.split option.split sum.split)
qed

lemma Http_ExecuteRequest_exn:
  assumes "Http_ExecuteRequest version c (m, hs) w = Some (Inl x, s)"
  shows "handlers_raise hs x"
proof -
  obtain i where i: "find_handler (GetContentType (c_httpRequestState c)) hs = Some i" and
    post: "req_method (c_httpRequestState c) = lit ''POST''"
    using assms by (auto simp: Http_ExecuteRequest_def Let_def split: if_splits option.splits)
  from find_handler_Some [OF i] obtain handler where h: "i < length hs" "rch_handler (hs ! i) = Some handler" by auto
  obtain r m1 w1 where r: "handler (request_memory c) (c_contentLength c) (c_response c) m w = (r, m1, w1)"
    by (metis prod_cases3)
  with assms i post h have "r = Inl x"
    by (auto simp: Http_ExecuteRequest_def HandleRequest_def Let_def split: sum.splits)
  with r h show ?thesis unfolding handlers_raise_def by (metis handler_raisesI nth_mem)
qed

lemma http_state_active [simp]: "http_state version hs l es (SetActive b c) = http_state version hs l es c"
  by (simp add: SetActive_def http_state_def http_idle_def http_request_def http_response_def buffers_ok_def request_ok_def
      idle_def unanswered_def unread_def request_memory_def split: ConnectionState.split request_ptr.split)

lemma http_state_closed:
  assumes "http_state version hs l es c" "c_state c \<noteq> WRITE_RESPONSE"
  shows "http_state version hs l es (SetCloseState c)"
  using assms by (cases "c_state c")
    (auto simp: http_state_def http_idle_def http_request_def http_closed_def SetCloseState_def)

section \<open>The contract of a protocol\<close>

definition http_start :: "'w os \<Rightarrow> ('w \<Rightarrow> netlog) \<Rightarrow> int \<Rightarrow> HttpConnection \<Rightarrow> 'w \<Rightarrow> bool" where
  "http_start os net fd c w' \<longleftrightarrow> (\<exists>memory w. HttpConnection_new os memory fd w = (c, w')
     \<and> length memory = MaxBufferLength + 1 \<and> net w' = \<lparr> received = [], sent = [], executed = [] \<rparr>)"

lemma http_started:
  assumes "http_start os net fd c w'"
  shows "on_socket fd c" "http_state version hs (net w') [] c" "c_state c \<noteq> WRITE_RESPONSE"
proof -
  have clear: "wss_Clear (wss_new MaxBufferSize) = wss_new MaxBufferSize"
    by (simp add: wss_Clear_def wss_new_def)
  have ok: "wss_ok (wss_new MaxBufferSize)" using wss_new_ok [of MaxBufferSize] by (simp add: MaxBufferSize_def)
  have c: "c_state c = READ_HEADER" "buffers_ok c" "idle c" "c_httpRequestState c = HttpRequest_new" "unread c = []"
    "s_fd (c_socket c) = fd" "s_timeout (c_socket c) = 0"
    using assms clear ok
    by (auto simp: http_start_def HttpConnection_new_def Connection_new_def SetFileDescriptor_def Socket_Close_def TcpSocket_new_def
        Socket_new_def Socket.defs Connection.defs buffers_ok_def idle_def unanswered_def unread_def split: prod.splits)
  from c show "on_socket fd c" "c_state c \<noteq> WRITE_RESPONSE" by (simp_all add: on_socket_def)
  from c assms show "http_state version hs (net w') [] c" using no_header_Nil
    by (auto simp: http_state_def http_idle_def http_start_def http_text_def http_calls_def http_answers_def)
qed

definition http_laws ::
    "'w os \<Rightarrow> bytes \<Rightarrow> ('m, 'w) RpcContentHandler list \<Rightarrow> ('w \<Rightarrow> netlog) \<Rightarrow> int \<Rightarrow> bool" where
  "http_laws os version hs net fd \<longleftrightarrow> stream_log os fd net \<and> alloc_ok os \<and> handlers_logged version hs net"

interpretation http: connection_protocol os "http_connection os version" net fd "http_laws os version hs net fd"
  "http_state version hs" "\<lambda>c. no_header (unread c)" "\<lambda>mh. snd mh = hs" "handlers_raise hs" "http_start os net fd"
  for os version hs net fd
proof
  fix c :: HttpConnection and w :: 'a
  assume "http_start os net fd c w"
  then show "on_socket fd c \<and> http_state version hs (net w) [] c \<and> c_state c \<noteq> WRITE_RESPONSE"
    using http_started [where net = net] by blast
next
  fix c c' :: HttpConnection and w w' :: 'a and es r
  assume "http_laws os version hs net fd" "on_socket fd c" "http_state version hs (net w) es c" "c_state c = READ_HEADER"
    "v_ReadHeader (http_connection os version) c w = Some (r, c', w')"
  then show "on_socket fd c' \<and>
      (r = Inr True \<and> http_state version hs (net w') es c' \<and> (c_state c' = READ_HEADER \<and> no_header (unread c') \<or> c_state c' = READ_REQUEST)
       \<or> r = Inr False \<and> http_state version hs (net w') es (SetCloseState c'))"
    using Http_ReadHeader_step [of os c w r c' w' version hs net es] by (auto simp: http_laws_def on_socket_def)
next
  fix c c' :: HttpConnection and w w' :: 'a and es r
  assume "http_laws os version hs net fd" "on_socket fd c" "http_state version hs (net w) es c" "c_state c = READ_REQUEST"
    "ReadRequest os (http_connection os version) c w = Some (r, c', w')"
  then show "on_socket fd c' \<and>
      (r = Inr True \<and> http_state version hs (net w') es c' \<and>
         (c_state c' = READ_REQUEST \<and> c_contentAvail c' < c_contentLength c' \<or> c_state c' = EXECUTE_REQUEST)
       \<or> r = Inr False \<and> http_state version hs (net w') es (SetCloseState c'))"
    using Http_ReadRequest_step [of os version c w r c' w' hs net es] by (auto simp: http_laws_def on_socket_def)
next
  fix c c' :: HttpConnection and w w' :: 'a and mh mh' :: "('b, 'a) http_shared" and es r
  assume *: "http_laws os version hs net fd" "on_socket fd c" "snd mh = hs" "http_state version hs (net w) es c"
    "c_state c = EXECUTE_REQUEST" "v_ExecuteRequest (http_connection os version) c mh w = Some (r, c', mh', w')"
  obtain m where mh: "mh = (m, hs)" using *(3) by (cases mh) simp
  show "case r of Inl x \<Rightarrow> handlers_raise hs x | Inr b \<Rightarrow> on_socket fd c' \<and> snd mh' = hs \<and>
      (b \<and> (\<exists>e. http_state version hs (net w') (es @ [e]) c') \<and> (c_state c' = READ_HEADER \<or> c_state c' = WRITE_RESPONSE)
       \<or> \<not> b \<and> http_state version hs (net w') es (SetCloseState c'))"
  proof (cases r)
    case (Inl x)
    with *(6) show ?thesis by (simp add: mh Http_ExecuteRequest_exn)
  next
    case (Inr b)
    with Http_ExecuteRequest_step [of version c m hs w b c' mh' w' net es] * show ?thesis
      by (auto simp: mh http_laws_def on_socket_def)
  qed
next
  fix c c' :: HttpConnection and w w' :: 'a and es b
  assume "http_laws os version hs net fd" "on_socket fd c" "http_state version hs (net w) es c" "c_state c = WRITE_RESPONSE"
    "WriteResponse os (http_connection os version) c w = Some (b, c', w')"
  then show "on_socket fd c' \<and>
      (b \<and> http_state version hs (net w') es c' \<and> c_state c' = READ_HEADER \<or> \<not> b \<and> http_state version hs (net w') es (SetCloseState c'))"
    using Http_WriteResponse_step [of os version c w b c' w' hs net es] by (auto simp: http_laws_def on_socket_def)
next
  fix l es and c :: HttpConnection
  assume "http_state version hs l es c" "c_state c = READ_HEADER" "c_bufferLength c = 0"
  then show "no_header (unread c)"
    using pending_empty [of c] no_header_Nil by (simp add: http_state_def http_idle_def)
next
  fix c :: HttpConnection and w :: 'a
  assume "clock_runs os" "on_socket fd c"
  then show "\<exists>r. v_ReadHeader (http_connection os version) c w = Some r"
    using Http_ReadHeader_returns [of os c w] by (simp add: on_socket_def)
next
  fix l es and c :: HttpConnection and w :: 'a and mh :: "('b, 'a) http_shared"
  assume "http_state version hs l es c" "c_state c = EXECUTE_REQUEST"
  then show "\<exists>r. v_ExecuteRequest (http_connection os version) c mh w = Some r"
    using Http_ExecuteRequest_returns [of c version mh w] by (simp add: http_state_def http_request_def buffers_ok_def)
next
  fix l es and c :: HttpConnection and w :: 'a
  assume *: "http_laws os version hs net fd" "clock_runs os" "on_socket fd c" "http_state version hs l es c" "c_state c = WRITE_RESPONSE"
  then have "http_response version hs l es c" by (simp add: http_state_def)
  with * show "\<exists>r. WriteResponse os (http_connection os version) c w = Some r"
    by (intro WriteResponse_returns [where net = net]) (simp_all add: http_laws_def on_socket_def http_response_def buffers_ok_def)
qed (simp_all add: http_state_closed)

section \<open>The life of a connection\<close>

definition http_reach ::
    "'w os \<Rightarrow> bytes \<Rightarrow> ('m, 'w) RpcContentHandler list \<Rightarrow> ('w \<Rightarrow> netlog) \<Rightarrow> int \<Rightarrow> HttpConnection \<Rightarrow> 'w \<Rightarrow> bool" where
  "http_reach os version hs net fd =
     conn_reach os (http_connection os version) net (\<lambda>mh. snd mh = hs) (http_start os net fd)"

definition http_waiting :: "HttpConnection \<Rightarrow> bool" where
  "http_waiting = waiting (\<lambda>c. no_header (unread c))"

lemma http_reach_state:
  assumes "http_reach os version hs net fd c w" "stream_log os fd net" "alloc_ok os" "handlers_logged version hs net"
  shows "\<exists>es. http_state version hs (net w) es c \<and> c_state c \<noteq> WRITE_RESPONSE"
  using http.reach_described [OF assms(1) [unfolded http_reach_def]] assms(2-)
  by (auto simp: http_laws_def)

lemma http_process:
  assumes "http_reach os version hs net fd c w" "stream_log os fd net" "alloc_ok os" "handlers_logged version hs net"
    "clock_runs os" "snd mh = hs"
  shows "(\<exists>r c' mh' w'. Process os (http_connection os version) e c mh w = Some (r, c', mh', w')
      \<and> (case r of Inr _ \<Rightarrow> \<not> e \<or> http_waiting c' | Inl x \<Rightarrow> handlers_raise hs x))
    \<or> (\<exists>es. http_state version hs (net w) es c \<and>
        (\<forall>n. \<exists>c' mh' w' es'. Process_passes n os (http_connection os version) e c mh w = Some (Inr True, c', mh', w')
          \<and> http_state version hs (net w') (es @ es') c' \<and> n \<le> length es'))"
  unfolding http_waiting_def
  by (rule http.process_result [OF assms(1) [unfolded http_reach_def] _ assms(5,6)])
    (simp_all add: http_laws_def assms(2-4))

section \<open>An example\<close>

text \<open>A POST with a body of two bytes, which arrive with the header, to the handler that echoes the first one.\<close>

definition example_fields :: "(bytes \<times> bytes) list" where
  "example_fields = [(lit ''Host'', lit ''a''), (lit ''Content-Type'', lit ''t''), (lit ''Content-Length'', lit ''2'')]"

definition example_request :: bytes where
  "example_request = header_text (lit ''POST'') (lit ''/'') (lit ''HTTP/1.1'') example_fields @ lit ''ac''"

definition example_header :: HttpRequest where
  "example_header = \<lparr> startIndex = 64, httpVersion = lit ''1.1'', contentType = lit ''t'', contentLength = 2,
     keepAlive = True, headerResult = HEADER_COMPLETE, req_method = lit ''POST'', req_requestUri = lit ''/'',
     req_host = lit ''a'' \<rparr>"

lemma example_request_length: "length example_request = 66" "drop 64 example_request = lit ''ac''"
  by (simp_all add: example_request_def header_text_def example_fields_def fields_text_def field_line_def crlf_def)

lemma example_header_read:
  "ProcessHeaderData HttpRequest_virtuals example_request False HttpRequest_new = (HEADER_COMPLETE, example_header)"
proof -
  have f: "\<forall>(key, x) \<in> set example_fields. plain_name key \<and> plain_text x"
    by (simp add: example_fields_def plain_name_def plain_text_def blank_def)
  have 1: "v_ProcessFirstLine HttpRequest_virtuals (lit ''POST'') (lit ''/'') (lit ''HTTP/1.1'') HttpRequest_new
      = (HEADER_INCOMPLETE, HttpRequest_new \<lparr> req_method := lit ''POST'', req_requestUri := lit ''/'', httpVersion := lit ''1.1'' \<rparr>)"
    by code_simp
  have 2: "run_fields HttpRequest_virtuals example_fields
      (HttpRequest_new \<lparr> req_method := lit ''POST'', req_requestUri := lit ''/'', httpVersion := lit ''1.1'' \<rparr>)
      = (HEADER_COMPLETE, at_pos 0 HEADER_INCOMPLETE example_header)"
    by code_simp
  show ?thesis unfolding example_request_def
    by (subst request_text.header_read [OF _ _ _ _ _ f _ _ 1 2])
      (simp_all add: HttpRequest_new_def at_pos_def example_header_def header_text_def example_fields_def fields_text_def
        field_line_def crlf_def)
qed

definition example_handlers :: "(unit, script) RpcContentHandler list" where
  "example_handlers = [RpcContentHandler_new (Some (log_handler echo_handler)) [] (lit ''t'')]"

definition http_example_log :: netlog where
  "http_example_log = \<lparr> received = example_request, sent = post_header (lit ''1'') True 1 (lit ''t'') @ lit ''a'',
     executed = [(lit ''ac'', Some (lit ''a''))] \<rparr>"

definition http_example_start :: script where
  "http_example_start = ([example_request], \<lparr> received = [], sent = [], executed = [] \<rparr>)"

lemma http_new_script:
  "HttpConnection_new script_os mem 3 w = (\<lparr> c_socket = \<lparr> s_fd = 3, s_err = 0, s_timeout = 0, s_connected = False \<rparr>,
     c_state = READ_HEADER, c_lastTransactionTime = 0, c_active = True, c_buffer = mem,
            c_bufferLength = 0, c_contentLength = 0, c_keepAlive = False, c_request = NoRequest, c_contentAvail = 0,
            c_requestAllocated = False, c_header = wss_new MaxBufferSize, c_headerBytesWritten = 0,
            c_response = wss_new MaxBufferSize, c_resultBytesWritten = 0, c_threadRunning = False,
            c_httpRequestState = HttpRequest_new \<rparr>, w)"
  by (simp add: HttpConnection_new_def Connection_new_def script_simps)

lemma http_example_run:
  "\<exists>c' m'. Process script_os (http_connection script_os (lit ''1'')) True
     (fst (HttpConnection_new script_os (replicate 2049 0) 3 http_example_start)) ((), example_handlers) http_example_start =
       Some (Inr (), c', m', [], http_example_log) \<and> c_state c' = READ_HEADER"
proof -
  have ne: "example_request \<noteq> []" using example_request_length by auto
  have h: "size_of_int (GetContentLength example_header) = 2" "GetBodyStartPos example_header = 64"
    "GetKeepAlive example_header" "GetContentType example_header = lit ''t''" "req_method example_header = lit ''POST''"
    by code_simp+
  show ?thesis
    apply (subst Process.simps)
    apply (simp add: http_example_start_def http_new_script Process_pass_def read_phases_def Http_ReadHeader_def receive_buffer_def
        script_receive MaxBufferLength_def store_def stored_def example_request_length ne example_header_read)
    apply (simp add: h MaxContentLength_def place_request_def MaxBufferLength_def)
    apply (simp add: ReadRequest_def request_complete_def store_request_def store_def example_request_length)
    apply (simp add: Http_ExecuteRequest_def h example_handlers_def CanProcessContentType_def RpcContentHandler_new_def
       HandleRequest_def log_handler_def echo_handler_def request_memory_def example_request_length)
    apply (simp add: GeneratePOSTResponseHeader_def put_lines_def wss_put_char_def wss_append_def wss_Clear_def wss_new_def
        BufferSegment_def StaticBufferSize_def MaxBufferSize_def size_pred_def wss_put.simps dec_nat.simps digit_def crlf_def)
    apply (simp add: write_phase_def WriteResponse_def write_header.simps write_body.simps segment_at_def wss_GetBuffer_def
        script_send Let_def)
    apply (simp add: HttpConnection_Initialize_def Connection_Initialize_def keep_buffer_def more_data_def wss_Clear_def
        http_example_log_def log_sent_def log_received_def log_executed_def wss_content_def post_header_def crlf_def dec_nat.simps digit_def)
    done
qed

lemma http_example_reached:
  "\<exists>c. http_reach script_os (lit ''1'') example_handlers snd 3 c ([], http_example_log) \<and> c_state c = READ_HEADER"
proof -
  let ?c = "fst (HttpConnection_new script_os (replicate 2049 0) 3 http_example_start)"
  obtain c' m' where c': "Process script_os (http_connection script_os (lit ''1'')) True ?c ((), example_handlers) http_example_start
      = Some (Inr (), c', m', [], http_example_log)" "c_state c' = READ_HEADER" using http_example_run by blast
  have "http_start script_os snd 3 ?c http_example_start"
    unfolding http_start_def by (intro exI [of _ "replicate 2049 0"] exI [of _ http_example_start])
      (simp add: http_new_script MaxBufferLength_def http_example_start_def)
  then have r0: "http_reach script_os (lit ''1'') example_handlers snd 3 ?c http_example_start"
    unfolding http_reach_def by (rule reach_new)
  have "http_reach script_os (lit ''1'') example_handlers snd 3 c' ([], http_example_log)"
    unfolding http_reach_def by (rule reach_process [OF r0 [unfolded http_reach_def] _ c'(1)]) simp
  with c'(2) show ?thesis by blast
qed

lemma example_handlers_logged: "handlers_logged (lit ''1'') example_handlers snd"
  using log_handler_logged [OF echo_handler_writes]
  by (simp add: handlers_logged_def example_handlers_def RpcContentHandler_new_def)

end
