(* ===== verification/AnyRpc_Server.thy ===== *)
theory AnyRpc_Server
  imports AnyRpc_TcpConnection AnyRpc_HttpConnection "HOL-Library.Sublist"
begin

text \<open>
  server.cpp and server.h: \<^verbatim>\<open>ServerST\<close> serves its connections in one thread, \<^verbatim>\<open>ServerMT\<close> gives each a
  thread of its own, \<^verbatim>\<open>ServerTP\<close> reads in one thread and executes in a pool of workers. The class of
  connections is a parameter (\<open>server_class\<close>: the function that creates a connection and the virtual
  functions of its class). Main results: whom a full server disconnects; the workers and the main
  thread of \<^verbatim>\<open>ServerTP\<close> never process the same connection at the same time.
\<close>

section \<open>Server\<close>

record 'c Server =
  sv_socket :: TcpSocket
  sv_port :: int
  sv_address :: u32
  sv_exit :: bool
  sv_working :: bool
  sv_maxConnections :: u32
  sv_forcedDisconnectAllowed :: bool
  sv_connections :: "'c list"
  sv_threadRunning :: bool

definition Server_new :: "'c Server" where
  "Server_new = \<lparr> sv_socket = TcpSocket_new, sv_port = 0, sv_address = 0, sv_exit = False, sv_working = False,
     sv_maxConnections = 8, sv_forcedDisconnectAllowed = True, sv_connections = [], sv_threadRunning = False \<rparr>"

definition SetMaxConnections :: "u32 \<Rightarrow> 'c Server \<Rightarrow> 'c Server" where
  "SetMaxConnections maxConnections s = s \<lparr> sv_maxConnections := maxConnections \<rparr>"

definition SetForcedDisconnectAllowed :: "bool \<Rightarrow> 'c Server \<Rightarrow> 'c Server" where
  "SetForcedDisconnectAllowed allowed s = s \<lparr> sv_forcedDisconnectAllowed := allowed \<rparr>"

definition IsForcedDisconnectAllowed :: "'c Server \<Rightarrow> bool" where
  "IsForcedDisconnectAllowed s = sv_forcedDisconnectAllowed s"

definition SetBindAddress :: "u32 \<Rightarrow> 'c Server \<Rightarrow> 'c Server" where
  "SetBindAddress address s = s \<lparr> sv_address := address \<rparr>"

definition Server_Exit :: "'c Server \<Rightarrow> 'c Server" where
  "Server_Exit s = s \<lparr> sv_exit := True, sv_threadRunning := False \<rparr>"

text \<open>
  The set-up of a listening socket, for both kinds of sockets: the steps in order; the first that does
  not answer 0 closes the socket.
\<close>

fun setup_steps ::
    "'w os \<Rightarrow> ('a Socket_scheme \<Rightarrow> 'w \<Rightarrow> int \<times> 'a Socket_scheme \<times> 'w) list \<Rightarrow> 'a Socket_scheme \<Rightarrow> 'w \<Rightarrow>
      bool \<times> 'a Socket_scheme \<times> 'w" where
  "setup_steps os [] s w = (True, s, w)"
| "setup_steps os (f # fs) s w =
     (let (result, s1, w1) = f s w
      in if result \<noteq> 0 then (let (s2, w2) = Socket_Close os s1 w1 in (False, s2, w2)) else setup_steps os fs s1 w1)"

definition no_change :: "('a Socket_scheme \<Rightarrow> 'w \<Rightarrow> int \<times> 'w) \<Rightarrow> 'a Socket_scheme \<Rightarrow> 'w \<Rightarrow> int \<times> 'a Socket_scheme \<times> 'w" where
  "no_change f s w = (let (result, w') = f s w in (result, s, w'))"

definition BindAndListen :: "'w os \<Rightarrow> int \<Rightarrow> int \<Rightarrow> 'c Server \<Rightarrow> 'w \<Rightarrow> bool \<times> 'c Server \<times> 'w" where
  "BindAndListen os port backlog s w =
     (let (_, sock, w1) = TcpSocket_Create os (sv_socket s) w;
          (ok, sock', w2) = setup_steps os [no_change (SetNonBlocking os), no_change (SetReuseAddress os 1),
            Socket_Bind os port (sv_address s), no_change (Listen os backlog)] sock w1
      in (ok, s \<lparr> sv_port := port, sv_socket := sock' \<rparr>, w2))"

text \<open>The list of handlers is a part of the state that the connections share with the manager.\<close>

definition AddHandler ::
    "('m, 'w) rpc_handler option \<Rightarrow> bytes \<Rightarrow> bytes \<Rightarrow> ('m, 'w) RpcContentHandler list \<Rightarrow> ('m, 'w) RpcContentHandler list" where
  "AddHandler handler requestContentType responseContentType hs =
     hs @ [RpcContentHandler_new handler requestContentType responseContentType]"

definition AddAllHandlers ::
    "('m, 'w) rpc_handler \<Rightarrow> ('m, 'w) rpc_handler \<Rightarrow> ('m, 'w) rpc_handler \<Rightarrow> ('m, 'w) RpcContentHandler list \<Rightarrow>
      ('m, 'w) RpcContentHandler list" where
  "AddAllHandlers json xml messagepack hs =
     AddHandler (Some messagepack) (lit ''messagepack-rpc'') (lit ''application/messagepack-rpc'')
       (AddHandler (Some xml) (lit ''xml'') (lit ''text/xml'')
         (AddHandler (Some json) (lit ''json-rpc'') (lit ''application/json-rpc'') hs))"

definition GetConnectionsSockInfo :: "'w os \<Rightarrow> 'a Connection_scheme Server \<Rightarrow> 'w \<Rightarrow> (bytes \<times> nat) option list" where
  "GetConnectionsSockInfo os s w = map (\<lambda>c. GetSockInfo os (c_socket c) w) (sv_connections s)"

definition GetConnectionsPeerInfo :: "'w os \<Rightarrow> 'a Connection_scheme Server \<Rightarrow> 'w \<Rightarrow> (bytes \<times> nat) option list" where
  "GetConnectionsPeerInfo os s w = map (\<lambda>c. GetPeerInfo os (c_socket c) w) (sv_connections s)"

text \<open>
  The class of the connections of a server. The destructor of a connection frees the request, its
  socket closes itself.
\<close>

record ('c, 'm, 'w) server_class =
  sc_CreateConnection :: "int \<Rightarrow> 'w \<Rightarrow> 'c \<times> 'w"
  sc_virtuals :: "('c, 'm, 'w) connection_virtuals"
  sc_ForcedDisconnectAllowed :: "'c \<Rightarrow> bool"

definition Connection_delete :: "'w os \<Rightarrow> 'a Connection_scheme \<Rightarrow> 'w \<Rightarrow> 'w" where
  "Connection_delete os c w = snd (Socket_Close os (c_socket c) w)"

definition AnyHttpServer_class :: "'w os \<Rightarrow> bytes \<Rightarrow> bytes \<Rightarrow> (HttpConnection, ('m, 'w) http_shared, 'w) server_class" where
  "AnyHttpServer_class os version memory =
     \<lparr> sc_CreateConnection = HttpConnection_new os memory, sc_virtuals = http_connection os version,
       sc_ForcedDisconnectAllowed = ForcedDisconnectAllowed \<rparr>"

section \<open>The choice of a connection to disconnect\<close>

text \<open>
  The scan for the connection that has been used least recently, among those that allow it. The time
  0 stands for no choice so far; the result is a position.
\<close>

fun scan_target :: "('c \<Rightarrow> bool) \<Rightarrow> ('c \<Rightarrow> int) \<Rightarrow> nat \<Rightarrow> nat option \<Rightarrow> int \<Rightarrow> 'c list \<Rightarrow> nat option" where
  "scan_target allowed last_time i targetIt targetTime [] = targetIt"
| "scan_target allowed last_time i targetIt targetTime (c # cs) =
     (if allowed c \<and> (targetTime = 0 \<or> last_time c < targetTime)
      then scan_target allowed last_time (Suc i) (Some i) (last_time c) cs
      else scan_target allowed last_time (Suc i) targetIt targetTime cs)"

definition pick_target :: "('c \<Rightarrow> bool) \<Rightarrow> ('c \<Rightarrow> int) \<Rightarrow> 'c list \<Rightarrow> nat option" where
  "pick_target allowed last_time cs = scan_target allowed last_time 0 None 0 cs"

definition erase_nth :: "nat \<Rightarrow> 'c list \<Rightarrow> 'c list" where
  "erase_nth i cs = take i cs @ drop (Suc i) cs"

lemma scan_target_bound:
  "scan_target allowed last_time i t time cs = Some k \<Longrightarrow> t = Some k \<or> (i \<le> k \<and> k < i + length cs \<and> allowed (cs ! (k - i)))"
proof (induction cs arbitrary: i t time)
  case (Cons c cs)
  then show ?case by (auto split: if_splits simp: nth_Cons' dest!: Cons.IH)
qed simp

lemma pick_target_bound: "pick_target allowed last_time cs = Some k \<Longrightarrow> k < length cs \<and> allowed (cs ! k)"
  using scan_target_bound [of allowed last_time 0 None 0 cs k] by (simp add: pick_target_def)

text \<open>
  The loop of \<^verbatim>\<open>ServerST::AcceptConnection\<close>: disconnect as long as there are too many; the answer is
  whether there is room. \<open>del\<close> is what \<^verbatim>\<open>delete\<close> does to the world.
\<close>

function make_room ::
    "('c \<Rightarrow> bool) \<Rightarrow> ('c \<Rightarrow> int) \<Rightarrow> ('c \<Rightarrow> 'w \<Rightarrow> 'w) \<Rightarrow> nat \<Rightarrow> 'c list \<Rightarrow> 'w \<Rightarrow> bool \<times> 'c list \<times> 'w" where
  "make_room allowed last_time del n cs w =
     (if length cs < n then (True, cs, w)
      else case pick_target allowed last_time cs of
             None \<Rightarrow> (False, cs, w)
           | Some i \<Rightarrow> make_room allowed last_time del n (erase_nth i cs) (del (cs ! i) w))"
  by pat_completeness auto

termination
  by (relation "measure (\<lambda>(allowed, last_time, del, n, cs, w). length cs)")
    (auto simp: erase_nth_def dest: pick_target_bound)

declare make_room.simps [simp del]

text \<open>Which of those that allow it: the one with the least time, if the times are not 0.\<close>

lemma scan_target_Some:
  assumes "\<forall>c \<in> set cs. 0 < last_time c" "t = None \<longleftrightarrow> time = 0" "0 \<le> time"
    "scan_target allowed last_time i t time cs = Some k"
  shows "t = Some k \<and> (\<forall>c \<in> set cs. allowed c \<longrightarrow> time \<le> last_time c)
    \<or> i \<le> k \<and> k < i + length cs \<and> allowed (cs ! (k - i)) \<and> (t = None \<or> last_time (cs ! (k - i)) < time)
      \<and> (\<forall>c \<in> set cs. allowed c \<longrightarrow> last_time (cs ! (k - i)) \<le> last_time c)"
  using assms
proof (induction cs arbitrary: i t time)
  case (Cons c cs)
  show ?case
  proof (cases "allowed c \<and> (time = 0 \<or> last_time c < time)")
    case True
    then have "scan_target allowed last_time (Suc i) (Some i) (last_time c) cs = Some k" using Cons.prems(4) by simp
    from Cons.IH [OF _ _ _ this] Cons.prems(1) consider "k = i" "\<forall>c' \<in> set cs. allowed c' \<longrightarrow> last_time c \<le> last_time c'"
      | "Suc i \<le> k" "k < Suc i + length cs" "allowed (cs ! (k - Suc i))" "last_time (cs ! (k - Suc i)) < last_time c"
        "\<forall>c' \<in> set cs. allowed c' \<longrightarrow> last_time (cs ! (k - Suc i)) \<le> last_time c'" by force
    then show ?thesis
    proof cases
      case 1
      with True Cons.prems(2) show ?thesis by auto
    next
      case 2
      then have "(c # cs) ! (k - i) = cs ! (k - Suc i)" by (simp add: nth_Cons')
      with 2 True Cons.prems(2) show ?thesis by auto
    qed
  next
    case False
    then have "scan_target allowed last_time (Suc i) t time cs = Some k"
      using Cons.prems(4) unfolding scan_target.simps by (simp only: if_False if_not_P)
    from Cons.IH [OF _ Cons.prems(2,3) this] Cons.prems(1)
    consider "t = Some k" "\<forall>c' \<in> set cs. allowed c' \<longrightarrow> time \<le> last_time c'"
      | "Suc i \<le> k" "k < Suc i + length cs" "allowed (cs ! (k - Suc i))" "t = None \<or> last_time (cs ! (k - Suc i)) < time"
        "\<forall>c' \<in> set cs. allowed c' \<longrightarrow> last_time (cs ! (k - Suc i)) \<le> last_time c'" by force
    then show ?thesis
    proof cases
      case 1
      with False show ?thesis by auto
    next
      case 2
      then have "(c # cs) ! (k - i) = cs ! (k - Suc i)" by (simp add: nth_Cons')
      with 2 False Cons.prems(2) show ?thesis by auto
    qed
  qed
qed simp

lemma scan_target_kept: "scan_target allowed last_time i (Some k) time cs \<noteq> None"
  by (induction cs arbitrary: i k time) auto

lemma scan_target_None:
  "scan_target allowed last_time i None 0 cs = None \<longleftrightarrow> (\<forall>c \<in> set cs. \<not> allowed c)"
  by (induction cs arbitrary: i) (auto simp: scan_target_kept)

lemma pick_target_least:
  assumes "\<forall>c \<in> set cs. 0 < last_time c" "pick_target allowed last_time cs = Some k"
  shows "k < length cs \<and> allowed (cs ! k) \<and> (\<forall>c \<in> set cs. allowed c \<longrightarrow> last_time (cs ! k) \<le> last_time c)"
  using scan_target_Some [OF assms(1) _ _ assms(2) [unfolded pick_target_def]] by simp

lemma pick_target_None: "pick_target allowed last_time cs = None \<longleftrightarrow> (\<forall>c \<in> set cs. \<not> allowed c)"
  by (simp add: pick_target_def scan_target_None)

lemma erase_nth_set: "i < length cs \<Longrightarrow> set cs = insert (cs ! i) (set (erase_nth i cs))"
  by (subst id_take_nth_drop [of i cs]) (auto simp: erase_nth_def)

lemma length_erase_nth: "i < length cs \<Longrightarrow> length (erase_nth i cs) = length cs - 1"
  by (simp add: erase_nth_def)

text \<open>
  What \<open>make_room\<close> does. The connections that stay are in their order; whoever is disconnected allows
  it and is not used more recently than anyone that stays and allows it; room is missing only when
  nobody that stays allows it.
\<close>

lemma make_room_spec:
  assumes "make_room allowed last_time del n cs w = (ok, cs', w')" "\<forall>c \<in> set cs. 0 < last_time c"
  shows "subseq cs' cs \<and> set cs' \<subseteq> set cs
    \<and> (ok \<longrightarrow> length cs' < n) \<and> (\<not> ok \<longrightarrow> n \<le> length cs' \<and> (\<forall>c \<in> set cs'. \<not> allowed c))
    \<and> (length cs < n \<longrightarrow> cs' = cs) \<and> (length cs' < length cs \<longrightarrow> n \<le> Suc (length cs'))
    \<and> (\<forall>c \<in> set cs - set cs'. allowed c \<and> (\<forall>c' \<in> set cs'. allowed c' \<longrightarrow> last_time c \<le> last_time c'))"
  using assms
proof (induction allowed last_time del n cs w rule: make_room.induct)
  case (1 allowed last_time del n cs w)
  show ?case
  proof (cases "length cs < n")
    case True
    with 1(2) show ?thesis by (subst (asm) make_room.simps) auto
  next
    case full: False
    show ?thesis
    proof (cases "pick_target allowed last_time cs")
      case None
      with full 1(2) show ?thesis by (subst (asm) make_room.simps) (auto simp: pick_target_None)
    next
      case (Some i)
      from pick_target_least [OF 1(3) Some] have i: "i < length cs" "allowed (cs ! i)"
        "\<forall>c \<in> set cs. allowed c \<longrightarrow> last_time (cs ! i) \<le> last_time c" by auto
      from 1(2) full Some have m: "make_room allowed last_time del n (erase_nth i cs) (del (cs ! i) w) = (ok, cs', w')"
        by (subst (asm) make_room.simps) simp
      note set = erase_nth_set [OF i(1)]
      have sub: "subseq (erase_nth i cs) cs" unfolding erase_nth_def
        by (subst (3) id_take_nth_drop [OF i(1)]) (simp add: subseq_append' list_emb_Cons)
      have IH: "subseq cs' (erase_nth i cs)" "set cs' \<subseteq> set (erase_nth i cs)" "ok \<longrightarrow> length cs' < n"
        "\<not> ok \<longrightarrow> n \<le> length cs' \<and> (\<forall>c \<in> set cs'. \<not> allowed c)" "length (erase_nth i cs) < n \<longrightarrow> cs' = erase_nth i cs"
        "length cs' < length (erase_nth i cs) \<longrightarrow> n \<le> Suc (length cs')"
        "\<forall>c \<in> set (erase_nth i cs) - set cs'. allowed c \<and> (\<forall>c' \<in> set cs'. allowed c' \<longrightarrow> last_time c \<le> last_time c')"
        using 1(1) [OF full Some m] 1(3) set by auto
      have "n \<le> Suc (length cs')"
      proof (cases "length (erase_nth i cs) < n")
        case True
        with IH(5) full length_erase_nth [OF i(1)] show ?thesis by simp
      next
        case False
        with IH(6) show ?thesis by (cases "length cs' < length (erase_nth i cs)") auto
      qed
      moreover have "subseq cs' cs" by (rule subseq_order.trans [OF IH(1) sub])
      moreover have "\<forall>c \<in> set cs - set cs'. allowed c \<and> (\<forall>c' \<in> set cs'. allowed c' \<longrightarrow> last_time c \<le> last_time c')"
      proof
        fix c
        assume c: "c \<in> set cs - set cs'"
        show "allowed c \<and> (\<forall>c' \<in> set cs'. allowed c' \<longrightarrow> last_time c \<le> last_time c')"
        proof (cases "c = cs ! i")
          case True
          with i IH(2) set show ?thesis by auto
        next
          case False
          with c set have "c \<in> set (erase_nth i cs) - set cs'" by simp
          with IH(7) show ?thesis by blast
        qed
      qed
      ultimately show ?thesis using IH(2-4) set full by auto
    qed
  qed
qed

section \<open>ServerST\<close>

definition disconnectable :: "('c, 'm, 'w) server_class \<Rightarrow> 'c Server \<Rightarrow> 'c \<Rightarrow> bool" where
  "disconnectable cl s c \<longleftrightarrow> sv_forcedDisconnectAllowed s \<and> sc_ForcedDisconnectAllowed cl c"

definition ST_AcceptConnection ::
    "'w os \<Rightarrow> ('a Connection_scheme, 'm, 'w) server_class \<Rightarrow> 'a Connection_scheme Server \<Rightarrow> 'w \<Rightarrow>
      'a Connection_scheme Server \<times> 'w" where
  "ST_AcceptConnection os cl s w =
     (let (fd, sock, w1) = Accept os (sv_socket s) w;
          s1 = s \<lparr> sv_socket := sock \<rparr>
      in if fd < 0 then (s1, w1)
         else
           let (room, cs, w2) = make_room (disconnectable cl s1) GetLastTransactionTime (Connection_delete os)
                 (unat (sv_maxConnections s1)) (sv_connections s1) w1
           in if \<not> room then (s1 \<lparr> sv_connections := cs \<rparr>, sys_close os fd w2)
              else let (c, w3) = sc_CreateConnection cl fd w2 in (s1 \<lparr> sv_connections := cs @ [c] \<rparr>, w3))"

text \<open>
  The descriptors for \<^verbatim>\<open>select\<close>, the server's own first, and the greatest of them; whether it reported
  the descriptor of a connection.
\<close>

definition conn_fd :: "'a Connection_scheme \<Rightarrow> int" where "conn_fd c = s_fd (c_socket c)"

definition select_in :: "int list \<Rightarrow> 'a Connection_scheme list \<Rightarrow> int list" where
  "select_in fds cs = fds @ map conn_fd (filter WaitForReadability cs)"

definition select_out :: "'a Connection_scheme list \<Rightarrow> int list" where
  "select_out cs = map conn_fd (filter WaitForWritability cs)"

definition max_fd :: "int list \<Rightarrow> 'a Connection_scheme list \<Rightarrow> int" where
  "max_fd fds cs = fold max (tl (select_in fds cs) @ select_out cs) (hd fds)"

definition select_wait :: "'w os \<Rightarrow> int \<Rightarrow> timeval \<Rightarrow> 'w \<Rightarrow> timeval option \<times> 'w" where
  "select_wait os ms startTime w =
     (if ms < 0 then (None, w)
      else let (currentTime, w') = sys_gettimeofday os w
           in (Some (milli_timeval (ms - MilliTimeDiff currentTime startTime)), w'))"

definition reported :: "int \<Rightarrow> int list \<Rightarrow> int list \<Rightarrow> 'a Connection_scheme \<Rightarrow> bool" where
  "reported maxFd inFd outFd c \<longleftrightarrow> conn_fd c \<le> maxFd \<and> (conn_fd c \<in> set inFd \<or> conn_fd c \<in> set outFd)"

text \<open>
  \<^verbatim>\<open>Process\<close> inside its handler, which takes the exceptions of the library: the connection is to be
  closed. Other exceptions leave the function.
\<close>

definition guarded_process ::
    "'w os \<Rightarrow> ('a Connection_scheme, 'm, 'w) connection_virtuals \<Rightarrow> bool \<Rightarrow> 'a Connection_scheme \<Rightarrow> 'm \<Rightarrow> 'w \<Rightarrow>
      ((exn + unit) \<times> 'a Connection_scheme \<times> 'm \<times> 'w) option" where
  "guarded_process os v e c m w =
     map_option (\<lambda>(r, c', m', w').
       case r of Inl (Fault code msg) \<Rightarrow> (Inr (), SetCloseState c', m', w') | _ \<Rightarrow> (r, c', m', w')) (Process os v e c m w)"

text \<open>The loop over the connections: process the reported ones and delete the closed ones.\<close>

fun process_events ::
    "'w os \<Rightarrow> ('a Connection_scheme, 'm, 'w) connection_virtuals \<Rightarrow> ('a Connection_scheme \<Rightarrow> bool) \<Rightarrow> 'a Connection_scheme list \<Rightarrow>
      'm \<Rightarrow> 'w \<Rightarrow> ((exn + unit) \<times> 'a Connection_scheme list \<times> 'm \<times> 'w) option" where
  "process_events os v rep [] m w = Some (Inr (), [], m, w)"
| "process_events os v rep (c # cs) m w =
     (case (if rep c then guarded_process os v True c m w else Some (Inr (), c, m, w)) of
        None \<Rightarrow> None
      | Some (Inl x, c1, m1, w1) \<Rightarrow> Some (Inl x, c1 # cs, m1, w1)
      | Some (Inr _, c1, m1, w1) \<Rightarrow>
          if CheckClose c1 then process_events os v rep cs m1 (Connection_delete os c1 w1)
          else map_option (\<lambda>(r, cs', m', w'). (r, c1 # cs', m', w')) (process_events os v rep cs m1 w1))"

text \<open>
  \<^verbatim>\<open>Work\<close>. The flag \<^verbatim>\<open>exit_\<close> may be set by a method or by another thread, so it is read from the state.
  An exception leaves the flag \<^verbatim>\<open>working_\<close> set.
\<close>

partial_function (option) ST_Work_loop ::
    "'w os \<Rightarrow> ('a Connection_scheme, 'm, 'w) server_class \<Rightarrow> ('m \<Rightarrow> 'w \<Rightarrow> bool) \<Rightarrow> int \<Rightarrow> timeval \<Rightarrow>
      'a Connection_scheme Server \<Rightarrow> 'm \<Rightarrow> 'w \<Rightarrow> ((exn + unit) \<times> 'a Connection_scheme Server \<times> 'm \<times> 'w) option" where
  "ST_Work_loop os cl exiting ms startTime s m w =
     (let fd = s_fd (sv_socket s);
          maxFd = max_fd [fd] (sv_connections s);
          (tv, w1) = select_wait os ms startTime w;
          ((nEvents, inFd, outFd), w2) = sys_select os (select_in [fd] (sv_connections s)) (select_out (sv_connections s)) tv w1
      in if nEvents < 0 then Some (Inr (), s, m, w2)
         else
           let (s1, w3) = (if fd \<in> set inFd then ST_AcceptConnection os cl s w2 else (s, w2))
           in case process_events os (sc_virtuals cl) (reported maxFd inFd outFd) (sv_connections s1) m w3 of
                None \<Rightarrow> None
              | Some (Inl x, cs, m1, w4) \<Rightarrow> Some (Inl x, s1 \<lparr> sv_connections := cs \<rparr>, m1, w4)
              | Some (Inr _, cs, m1, w4) \<Rightarrow>
                  let (currentTime, w5) = sys_gettimeofday os w4;
                      timeLeft = ms - MilliTimeDiff currentTime startTime;
                      s2 = s1 \<lparr> sv_connections := cs \<rparr>
                  in if \<not> exiting m1 w5 \<and> (ms < 0 \<or> timeLeft > 0) then ST_Work_loop os cl exiting ms startTime s2 m1 w5
                     else Some (Inr (), s2, m1, w5))"

definition ST_Work ::
    "'w os \<Rightarrow> ('a Connection_scheme, 'm, 'w) server_class \<Rightarrow> ('m \<Rightarrow> 'w \<Rightarrow> bool) \<Rightarrow> int \<Rightarrow>
      'a Connection_scheme Server \<Rightarrow> 'm \<Rightarrow> 'w \<Rightarrow> ((exn + unit) \<times> 'a Connection_scheme Server \<times> 'm \<times> 'w) option" where
  "ST_Work os cl exiting ms s m w =
     (let (startTime, w1) = sys_gettimeofday os w
      in map_option (\<lambda>(r, s', m', w'). (r, if r = Inr () then s' \<lparr> sv_working := False \<rparr> else s', m', w'))
           (ST_Work_loop os cl exiting ms startTime (s \<lparr> sv_working := True \<rparr>) m w1))"

definition ST_Shutdown :: "'w os \<Rightarrow> 'a Connection_scheme Server \<Rightarrow> 'w \<Rightarrow> (exn + unit) \<times> 'a Connection_scheme Server \<times> 'w" where
  "ST_Shutdown os s w =
     (if sv_working s then (Inl (Fault (- 32412) (lit ''Illegal call to Shutdown'')), s, w)
      else let w1 = fold (Connection_delete os) (sv_connections s) w; (sock, w2) = Socket_Close os (sv_socket s) w1
           in (Inr (), s \<lparr> sv_connections := [], sv_socket := sock \<rparr>, w2))"

text \<open>The thread of a server, with the function for \<^verbatim>\<open>Work(100)\<close>.\<close>

partial_function (option) Server_ThreadStarter ::
    "('s \<Rightarrow> 'm \<Rightarrow> 'w \<Rightarrow> ((exn + unit) \<times> 's \<times> 'm \<times> 'w) option) \<Rightarrow> ('m \<Rightarrow> 'w \<Rightarrow> bool) \<Rightarrow> 's \<Rightarrow> 'm \<Rightarrow> 'w \<Rightarrow>
      ((exn + unit) \<times> 's \<times> 'm \<times> 'w) option" where
  "Server_ThreadStarter work stopping s m w =
     (if stopping m w then Some (Inr (), s, m, w)
      else case work s m w of
             None \<Rightarrow> None
           | Some (r, s1, m1, w1) \<Rightarrow> (case r of Inl x \<Rightarrow> Some (Inl x, s1, m1, w1) | Inr _ \<Rightarrow> Server_ThreadStarter work stopping s1 m1 w1))"

definition ST_Thread ::
    "'w os \<Rightarrow> ('a Connection_scheme, 'm, 'w) server_class \<Rightarrow> ('m \<Rightarrow> 'w \<Rightarrow> bool) \<Rightarrow> 'a Connection_scheme Server \<Rightarrow> 'm \<Rightarrow> 'w \<Rightarrow>
      ((exn + unit) \<times> 'a Connection_scheme Server \<times> 'm \<times> 'w) option" where
  "ST_Thread os cl exiting s m w =
     (case Server_ThreadStarter (ST_Work os cl exiting 100) exiting s m w of
        None \<Rightarrow> None
      | Some (Inl x, s1, m1, w1) \<Rightarrow> Some (Inl x, s1, m1, w1)
      | Some (Inr _, s1, m1, w1) \<Rightarrow>
          let (r, s2, w2) = ST_Shutdown os s1 w1
          in Some (case r of Inl x \<Rightarrow> (Inl x, s2, m1, w2)
                   | Inr _ \<Rightarrow> (Inr (), s2 \<lparr> sv_threadRunning := False \<rparr>, m1, w2)))"

section \<open>ServerMT\<close>

text \<open>
  The thread of a connection: it works until the server clears its flag, which is read from the world
  (\<open>stopped\<close>), or the connection is to be closed. An exception of \<^verbatim>\<open>Work\<close> is not caught, the program
  ends.
\<close>

definition Connection_StartThread :: "'a Connection_scheme \<Rightarrow> 'a Connection_scheme" where
  "Connection_StartThread c = c \<lparr> c_threadRunning := True \<rparr>"

definition IsThreadRunning :: "'a Connection_scheme \<Rightarrow> bool" where
  "IsThreadRunning c = c_threadRunning c"

partial_function (option) Connection_ThreadStarter ::
    "'w os \<Rightarrow> ('a Connection_scheme, 'm, 'w) connection_virtuals \<Rightarrow> ('w \<Rightarrow> bool) \<Rightarrow> 'a Connection_scheme \<Rightarrow> 'm \<Rightarrow> 'w \<Rightarrow>
      ((exn + unit) \<times> 'a Connection_scheme \<times> 'm \<times> 'w) option" where
  "Connection_ThreadStarter os v stopped c m w =
     (if stopped w \<or> CheckClose c then
        let (sock, w1) = Socket_Close os (c_socket c) w
        in Some (Inr (), c \<lparr> c_socket := sock, c_threadRunning := False \<rparr>, m, w1)
      else case Connection_Work os v 100 c m w of
             None \<Rightarrow> None
           | Some (r, c1, m1, w1) \<Rightarrow>
               (case r of Inl x \<Rightarrow> Some (Inl x, c1, m1, w1) | Inr _ \<Rightarrow> Connection_ThreadStarter os v stopped c1 m1 w1))"

text \<open>
  \<open>join c w\<close> is what the thread of \<open>c\<close> still does to the world until it ends; \<open>others\<close> is what the
  threads of all connections do while the server sleeps.
\<close>

definition Connection_StopThread ::
    "('a Connection_scheme \<Rightarrow> 'w \<Rightarrow> 'w) \<Rightarrow> bool \<Rightarrow> 'a Connection_scheme \<Rightarrow> 'w \<Rightarrow> 'a Connection_scheme \<times> 'w" where
  "Connection_StopThread join waitForJoin c w = (c \<lparr> c_threadRunning := False \<rparr>, if waitForJoin then join c w else w)"

definition stop_and_delete ::
    "'w os \<Rightarrow> ('a Connection_scheme \<Rightarrow> 'w \<Rightarrow> 'w) \<Rightarrow> 'a Connection_scheme \<Rightarrow> 'w \<Rightarrow> 'w" where
  "stop_and_delete os join c w = (let (c1, w1) = Connection_StopThread join True c w in Connection_delete os c1 w1)"

fun reap_stopped ::
    "'w os \<Rightarrow> ('a Connection_scheme \<Rightarrow> 'w \<Rightarrow> 'w) \<Rightarrow> 'a Connection_scheme list \<Rightarrow> 'w \<Rightarrow> 'a Connection_scheme list \<times> 'w" where
  "reap_stopped os join [] w = ([], w)"
| "reap_stopped os join (c # cs) w =
     (if \<not> IsThreadRunning c then reap_stopped os join cs (stop_and_delete os join c w)
      else let (cs', w') = reap_stopped os join cs w in (c # cs', w'))"

fun wait_stopped ::
    "nat \<Rightarrow> ('a Connection_scheme list \<Rightarrow> 'w \<Rightarrow> 'a Connection_scheme list \<times> 'w) \<Rightarrow> nat \<Rightarrow> 'a Connection_scheme list \<Rightarrow> 'w \<Rightarrow>
      'a Connection_scheme list \<times> 'w" where
  "wait_stopped 0 others i cs w = (cs, w)"
| "wait_stopped (Suc n) others i cs w =
     (if \<not> IsThreadRunning (cs ! i) then (cs, w) else let (cs', w') = others cs w in wait_stopped n others i cs' w')"

definition MT_make_room ::
    "'w os \<Rightarrow> ('a Connection_scheme list \<Rightarrow> 'w \<Rightarrow> 'a Connection_scheme list \<times> 'w) \<Rightarrow> ('a Connection_scheme \<Rightarrow> 'w \<Rightarrow> 'w) \<Rightarrow>
      ('a Connection_scheme \<Rightarrow> bool) \<Rightarrow> 'a Connection_scheme list \<Rightarrow> 'w \<Rightarrow> 'a Connection_scheme list \<times> 'w" where
  "MT_make_room os others join allowed cs w =
     (case pick_target allowed GetLastTransactionTime cs of
        None \<Rightarrow> (cs, w)
      | Some i \<Rightarrow>
          let (c, w1) = Connection_StopThread join False (cs ! i) w;
              delay = 5;
              (cs1, w2) = wait_stopped (200 div delay) others i (cs[i := c]) w1
          in if \<not> IsThreadRunning (cs1 ! i) then (erase_nth i cs1, stop_and_delete os join (cs1 ! i) w2) else (cs1, w2))"

definition MT_AcceptConnection ::
    "'w os \<Rightarrow> ('a Connection_scheme, 'm, 'w) server_class \<Rightarrow>
      ('a Connection_scheme list \<Rightarrow> 'w \<Rightarrow> 'a Connection_scheme list \<times> 'w) \<Rightarrow> ('a Connection_scheme \<Rightarrow> 'w \<Rightarrow> 'w) \<Rightarrow>
      'a Connection_scheme Server \<Rightarrow> 'w \<Rightarrow> 'a Connection_scheme Server \<times> 'w" where
  "MT_AcceptConnection os cl others join s w =
     (let (fd, sock, w1) = Accept os (sv_socket s) w;
          s1 = s \<lparr> sv_socket := sock \<rparr>;
          n = unat (sv_maxConnections s1)
      in if fd < 0 then (s1, w1)
         else
           let (cs, w2) = reap_stopped os join (sv_connections s1) w1;
               (cs1, w3) = (if length cs \<ge> n then MT_make_room os others join (disconnectable cl s1) cs w2 else (cs, w2))
           in if length cs1 \<ge> n then (s1 \<lparr> sv_connections := cs1 \<rparr>, sys_close os fd w3)
              else let (c, w4) = sc_CreateConnection cl fd w3
                   in (s1 \<lparr> sv_connections := cs1 @ [Connection_StartThread c] \<rparr>, w4))"

partial_function (option) MT_Work_loop ::
    "'w os \<Rightarrow> ('a Connection_scheme, 'm, 'w) server_class \<Rightarrow>
      ('a Connection_scheme list \<Rightarrow> 'w \<Rightarrow> 'a Connection_scheme list \<times> 'w) \<Rightarrow> ('a Connection_scheme \<Rightarrow> 'w \<Rightarrow> 'w) \<Rightarrow> ('w \<Rightarrow> bool) \<Rightarrow>
      int \<Rightarrow> timeval \<Rightarrow> 'a Connection_scheme Server \<Rightarrow> 'w \<Rightarrow> ('a Connection_scheme Server \<times> 'w) option" where
  "MT_Work_loop os cl others join exiting ms startTime s w =
     (let fd = s_fd (sv_socket s);
          (tv, w1) = select_wait os ms startTime w;
          ((nEvents, inFd, _), w2) = sys_select os [fd] [] tv w1
      in if nEvents < 0 then Some (s, w2)
         else
           let (s1, w3) = (if fd \<in> set inFd then MT_AcceptConnection os cl others join s w2 else (s, w2));
               (currentTime, w4) = sys_gettimeofday os w3;
               timeLeft = ms - MilliTimeDiff currentTime startTime
           in if \<not> exiting w4 \<and> (ms < 0 \<or> timeLeft > 0) then MT_Work_loop os cl others join exiting ms startTime s1 w4
              else Some (s1, w4))"

definition MT_Work ::
    "'w os \<Rightarrow> ('a Connection_scheme, 'm, 'w) server_class \<Rightarrow>
      ('a Connection_scheme list \<Rightarrow> 'w \<Rightarrow> 'a Connection_scheme list \<times> 'w) \<Rightarrow> ('a Connection_scheme \<Rightarrow> 'w \<Rightarrow> 'w) \<Rightarrow> ('w \<Rightarrow> bool) \<Rightarrow>
      int \<Rightarrow> 'a Connection_scheme Server \<Rightarrow> 'w \<Rightarrow> ('a Connection_scheme Server \<times> 'w) option" where
  "MT_Work os cl others join exiting ms s w =
     (let (startTime, w1) = sys_gettimeofday os w
      in map_option (\<lambda>(s', w'). (s' \<lparr> sv_working := False \<rparr>, w'))
           (MT_Work_loop os cl others join exiting ms startTime (s \<lparr> sv_working := True \<rparr>) w1))"

definition MT_Shutdown ::
    "'w os \<Rightarrow> ('a Connection_scheme \<Rightarrow> 'w \<Rightarrow> 'w) \<Rightarrow> 'a Connection_scheme Server \<Rightarrow> 'w \<Rightarrow> 'a Connection_scheme Server \<times> 'w" where
  "MT_Shutdown os join s w =
     (let w1 = fold (stop_and_delete os join) (sv_connections s) w; (sock, w2) = Socket_Close os (sv_socket s) w1
      in (s \<lparr> sv_connections := [], sv_socket := sock \<rparr>, w2))"

text \<open>
  The loop that waits for the thread of the connection to be disconnected never waits:
  \<^verbatim>\<open>StopThread(false)\<close> has cleared the flag that it tests.
\<close>

lemma wait_stopped_now:
  assumes "pick_target allowed GetLastTransactionTime cs = Some i"
  shows "MT_make_room os others join allowed cs w =
    (erase_nth i (cs[i := (cs ! i) \<lparr> c_threadRunning := False \<rparr>]), stop_and_delete os join ((cs ! i) \<lparr> c_threadRunning := False \<rparr>) w)"
proof -
  from pick_target_bound [OF assms] have i: "i < length cs" by simp
  have "wait_stopped n others i (cs[i := (cs ! i) \<lparr> c_threadRunning := False \<rparr>]) w = (cs[i := (cs ! i) \<lparr> c_threadRunning := False \<rparr>], w)"
    for n using i by (cases n) (simp_all add: IsThreadRunning_def)
  with assms i show ?thesis
    by (simp add: MT_make_room_def Connection_StopThread_def IsThreadRunning_def)
qed

text \<open>A server keeps its limit.\<close>

lemma reap_stopped_running:
  "reap_stopped os join cs w = (cs', w') \<Longrightarrow> cs' = filter IsThreadRunning cs"
  by (induction cs arbitrary: w cs') (auto split: if_splits prod.splits)

lemma MT_Accept_limit:
  assumes "MT_AcceptConnection os cl others join s w = (s', w')"
  shows "length (sv_connections s') \<le> max (length (sv_connections s)) (unat (sv_maxConnections s))"
proof -
  have room: "length (fst (MT_make_room os others join allowed cs w)) \<le> length cs" for allowed cs w
    using wait_stopped_now [of allowed cs _ os others join w] pick_target_bound [of allowed GetLastTransactionTime cs]
    by (cases "pick_target allowed GetLastTransactionTime cs") (auto simp: MT_make_room_def [of _ _ _ _ cs] length_erase_nth)
  obtain fd sock w1 where a: "Accept os (sv_socket s) w = (fd, sock, w1)" by (metis prod_cases3)
  obtain cs w2 where r: "reap_stopped os join (sv_connections s) w1 = (cs, w2)" by fastforce
  have l: "length cs \<le> length (sv_connections s)" using reap_stopped_running [OF r] by simp
  show ?thesis
  proof (cases "length cs \<ge> unat (sv_maxConnections s)")
    case False
    with assms a r l show ?thesis by (auto simp: MT_AcceptConnection_def Let_def split: if_splits prod.splits)
  next
    case True
    let ?s1 = "s \<lparr> sv_socket := sock \<rparr>"
    obtain cs1 w3 where m: "MT_make_room os others join (disconnectable cl ?s1) cs w2 = (cs1, w3)" by fastforce
    with room [of "disconnectable cl ?s1" cs w2] have "length cs1 \<le> length cs" by simp
    with assms a r l True m show ?thesis by (auto simp: MT_AcceptConnection_def Let_def split: if_splits prod.splits)
  qed
qed

end
