(* ===== verification/AnyRpc_ThreadPool.thy ===== *)
theory AnyRpc_ThreadPool
  imports AnyRpc_Server "HOL-Library.Multiset"
begin

text \<open>
  \<^verbatim>\<open>ServerTP\<close> of server.cpp as a system of threads over shared memory: the main thread, whose program
  counter is \<open>main_pc\<close>, and the workers. Connections are objects at addresses, which are not used again;
  \<open>None\<close> is an address that has been freed. A step is the work of one thread between two points where
  it waits, or passes something on to another thread; \<open>tp_bad\<close> is set when freed memory is used.
  Main results: no connection is ever processed by two threads; a worker can use a connection that the
  main thread has deleted.
\<close>

section \<open>The state\<close>

text \<open>
  The main thread: in \<^verbatim>\<open>select\<close>; about to accept a connection or a signal, or at some connection of the
  loop, with the result of \<^verbatim>\<open>select\<close>; waiting for the workers to end; and not running. A worker waits,
  is about to process a connection, or to return it; or it has ended.
\<close>

datatype main_pc =
    AtSelect | AtAccept "int list" "int list" int | AtSignal "int list" "int list" int
  | AtEvents "nat list" "int list" "int list" int | AtJoin | AtEnd

datatype worker = Waiting | Processing nat | Returning nat | Ended

record ('c, 'm, 'w) pool =
  tp_server :: "nat Server"
  tp_signal :: Socket
  tp_numThreads :: nat
  tp_workers :: "worker list"
  tp_workQueue :: "nat list"
  tp_workerExit :: bool
  tp_pc :: main_pc
  tp_heap :: "nat \<Rightarrow> 'c option"
  tp_fresh :: nat
  tp_manager :: 'm
  tp_world :: 'w
  tp_bad :: bool

definition ServerTP_new :: "nat \<Rightarrow> 'm \<Rightarrow> 'w \<Rightarrow> ('c, 'm, 'w) pool" where
  "ServerTP_new numThreads m w = \<lparr> tp_server = Server_new, tp_signal = Socket_new, tp_numThreads = numThreads,
     tp_workers = [], tp_workQueue = [], tp_workerExit = False, tp_pc = AtEnd, tp_heap = (\<lambda>_. None), tp_fresh = 0,
     tp_manager = m, tp_world = w, tp_bad = False \<rparr>"

definition TP_BindAndListen :: "'w os \<Rightarrow> int \<Rightarrow> int \<Rightarrow> ('c, 'm, 'w) pool \<Rightarrow> bool \<times> ('c, 'm, 'w) pool" where
  "TP_BindAndListen os port backlog P =
     (let (_, sig, w1) = UdpSocket_Create os (tp_signal P) (tp_world P);
          (ok, sig', w2) = setup_steps os [no_change (SetNonBlocking os), no_change (SetReuseAddress os 1),
            Socket_Bind os port 0x0100007F] sig w1
      in if \<not> ok then (False, P \<lparr> tp_signal := sig', tp_world := w2 \<rparr>)
         else let (ok', s, w3) = BindAndListen os port backlog (tp_server P) w2
              in (ok', P \<lparr> tp_signal := sig', tp_server := s, tp_world := w3 \<rparr>))"

section \<open>The main thread\<close>

definition tp_conns :: "('c, 'm, 'w) pool \<Rightarrow> 'c list" where
  "tp_conns P = map (\<lambda>p. the (tp_heap P p)) (sv_connections (tp_server P))"

definition main_fds :: "('c, 'm, 'w) pool \<Rightarrow> int list" where
  "main_fds P = [s_fd (sv_socket (tp_server P)), s_fd (tp_signal P)]"

text \<open>\<^verbatim>\<open>ThreadStarter\<close>: the workers are started, then \<^verbatim>\<open>Work\<close> is called again and again.\<close>

definition tp_start :: "('c, 'm, 'w) pool \<Rightarrow> ('c, 'm, 'w) pool" where
  "tp_start P = P \<lparr> tp_workers := replicate (tp_numThreads P) Waiting, tp_workerExit := False, tp_pc := AtSelect \<rparr>"

text \<open>\<^verbatim>\<open>Work(100)\<close> at \<open>t\<close>: the sets, and \<^verbatim>\<open>select\<close>. On an error the loop starts again.\<close>

definition tp_select :: "'w os \<Rightarrow> timeval \<Rightarrow> ('a Connection_scheme, 'm, 'w) pool \<Rightarrow> ('a Connection_scheme, 'm, 'w) pool" where
  "tp_select os startTime P =
     (let cs = tp_conns P;
          (tv, w1) = select_wait os 100 startTime (tp_world P);
          ((nEvents, inFd, outFd), w2) = sys_select os (select_in (main_fds P) cs) (select_out cs) tv w1
      in P \<lparr> tp_world := w2, tp_pc := (if nEvents < 0 then AtSelect else AtAccept inFd outFd (max_fd (main_fds P) cs)) \<rparr>)"

definition tp_delete :: "'w os \<Rightarrow> nat \<Rightarrow> ('a Connection_scheme, 'm, 'w) pool \<Rightarrow> ('a Connection_scheme, 'm, 'w) pool" where
  "tp_delete os p P =
     (case tp_heap P p of
        None \<Rightarrow> P \<lparr> tp_bad := True \<rparr>
      | Some c \<Rightarrow> P \<lparr> tp_heap := (tp_heap P)(p := None), tp_world := Connection_delete os c (tp_world P) \<rparr>)"

text \<open>\<^verbatim>\<open>ServerST::AcceptConnection\<close> on the addresses.\<close>

definition tp_allowed :: "('a Connection_scheme, 'm, 'w) server_class \<Rightarrow> ('a Connection_scheme, 'm, 'w) pool \<Rightarrow> nat \<Rightarrow> bool" where
  "tp_allowed cl P p \<longleftrightarrow> sv_forcedDisconnectAllowed (tp_server P) \<and> sc_ForcedDisconnectAllowed cl (the (tp_heap P p))"

definition tp_last :: "('a Connection_scheme, 'm, 'w) pool \<Rightarrow> nat \<Rightarrow> int" where
  "tp_last P p = GetLastTransactionTime (the (tp_heap P p))"

definition tp_accept ::
    "'w os \<Rightarrow> ('a Connection_scheme, 'm, 'w) server_class \<Rightarrow> ('a Connection_scheme, 'm, 'w) pool \<Rightarrow>
      ('a Connection_scheme, 'm, 'w) pool" where
  "tp_accept os cl P =
     (let s = tp_server P;
          (fd, sock, w1) = Accept os (sv_socket s) (tp_world P);
          P1 = P \<lparr> tp_server := s \<lparr> sv_socket := sock \<rparr>, tp_world := w1 \<rparr>
      in if fd < 0 then P1
         else
           let (room, ps, P2) = make_room (tp_allowed cl P1) (tp_last P1) (tp_delete os)
                 (unat (sv_maxConnections s)) (sv_connections s) P1;
               s2 = tp_server P2
           in if \<not> room then P2 \<lparr> tp_server := s2 \<lparr> sv_connections := ps \<rparr>, tp_world := sys_close os fd (tp_world P2) \<rparr>
              else let (c, w3) = sc_CreateConnection cl fd (tp_world P2); p = tp_fresh P2
                   in P2 \<lparr> tp_server := s2 \<lparr> sv_connections := ps @ [p] \<rparr>, tp_heap := (tp_heap P2)(p \<mapsto> c),
                           tp_fresh := Suc p, tp_world := w3 \<rparr>)"

definition AcceptSignal :: "'w os \<Rightarrow> ('c, 'm, 'w) pool \<Rightarrow> ('c, 'm, 'w) pool" where
  "AcceptSignal os P = (let (_, sig, w) = UdpSocket_Receive os 256 (tp_signal P) (tp_world P) in P \<lparr> tp_signal := sig, tp_world := w \<rparr>)"

text \<open>
  The loop over the connections, one of them. A reported connection is processed up to the execution,
  then it goes to the queue and is not active any more. \<open>None\<close>: \<^verbatim>\<open>Process\<close> does not return or an exception
  leaves the thread.
\<close>

definition tp_process_event ::
    "'w os \<Rightarrow> ('a Connection_scheme, 'm, 'w) server_class \<Rightarrow> nat \<Rightarrow> 'a Connection_scheme \<Rightarrow> ('a Connection_scheme, 'm, 'w) pool \<Rightarrow>
      ('a Connection_scheme, 'm, 'w) pool option" where
  "tp_process_event os cl p c P =
     (case guarded_process os (sc_virtuals cl) False c (tp_manager P) (tp_world P) of
        None \<Rightarrow> None
      | Some (Inl x, _) \<Rightarrow> None
      | Some (Inr _, c1, m1, w1) \<Rightarrow>
          let P1 = P \<lparr> tp_manager := m1, tp_world := w1 \<rparr>
          in Some (if CheckExecuteState c1
                   then P1 \<lparr> tp_heap := (tp_heap P)(p \<mapsto> SetActive False c1), tp_workQueue := tp_workQueue P @ [p] \<rparr>
                   else P1 \<lparr> tp_heap := (tp_heap P)(p \<mapsto> c1) \<rparr>))"

definition tp_check_close ::
    "'w os \<Rightarrow> nat \<Rightarrow> ('a Connection_scheme, 'm, 'w) pool \<Rightarrow> ('a Connection_scheme, 'm, 'w) pool" where
  "tp_check_close os p P =
     (case tp_heap P p of
        None \<Rightarrow> P \<lparr> tp_bad := True \<rparr>
      | Some c \<Rightarrow>
          if CheckClose c then
            let P1 = tp_delete os p P; s = tp_server P1
            in P1 \<lparr> tp_server := s \<lparr> sv_connections := remove1 p (sv_connections s) \<rparr> \<rparr>
          else P)"

definition tp_event ::
    "'w os \<Rightarrow> ('a Connection_scheme, 'm, 'w) server_class \<Rightarrow> (int list \<times> int list \<times> int) \<Rightarrow> nat \<Rightarrow>
      ('a Connection_scheme, 'm, 'w) pool \<Rightarrow> ('a Connection_scheme, 'm, 'w) pool option" where
  "tp_event os cl sets p P =
     (let (inFd, outFd, maxFd) = sets
      in case tp_heap P p of
           None \<Rightarrow> Some (P \<lparr> tp_bad := True \<rparr>)
         | Some c \<Rightarrow>
             map_option (tp_check_close os p)
               (if reported maxFd inFd outFd c then tp_process_event os cl p c P else Some P))"

definition tp_shutdown :: "'w os \<Rightarrow> ('a Connection_scheme, 'm, 'w) pool \<Rightarrow> ('a Connection_scheme, 'm, 'w) pool" where
  "tp_shutdown os P =
     (let P1 = fold (tp_delete os) (sv_connections (tp_server P)) P; s = tp_server P1;
          (sock, w) = Socket_Close os (sv_socket s) (tp_world P1)
      in P1 \<lparr> tp_workers := [], tp_server := s \<lparr> sv_connections := [], sv_socket := sock, sv_threadRunning := False \<rparr>,
              tp_world := w, tp_pc := AtEnd \<rparr>)"

section \<open>The workers\<close>

definition worker_pop :: "nat \<Rightarrow> nat \<Rightarrow> nat list \<Rightarrow> ('c, 'm, 'w) pool \<Rightarrow> ('c, 'm, 'w) pool" where
  "worker_pop i p ps P = P \<lparr> tp_workQueue := ps, tp_workers := (tp_workers P)[i := Processing p] \<rparr>"

definition worker_process ::
    "'w os \<Rightarrow> ('a Connection_scheme, 'm, 'w) server_class \<Rightarrow> nat \<Rightarrow> nat \<Rightarrow> ('a Connection_scheme, 'm, 'w) pool \<Rightarrow>
      ('a Connection_scheme, 'm, 'w) pool option" where
  "worker_process os cl i p P =
     (case tp_heap P p of
        None \<Rightarrow> Some (P \<lparr> tp_bad := True \<rparr>)
      | Some c \<Rightarrow>
          (case guarded_process os (sc_virtuals cl) True c (tp_manager P) (tp_world P) of
             None \<Rightarrow> None
           | Some (Inl x, _) \<Rightarrow> None
           | Some (Inr _, c1, m1, w1) \<Rightarrow>
               Some (P \<lparr> tp_heap := (tp_heap P)(p \<mapsto> c1), tp_manager := m1, tp_world := w1,
                         tp_workers := (tp_workers P)[i := Returning p] \<rparr>)))"

text \<open>The signal is sent through a socket that has not been created.\<close>

definition worker_return :: "'w os \<Rightarrow> nat \<Rightarrow> nat \<Rightarrow> ('a Connection_scheme, 'm, 'w) pool \<Rightarrow> ('a Connection_scheme, 'm, 'w) pool" where
  "worker_return os i p P =
     (case tp_heap P p of
        None \<Rightarrow> P \<lparr> tp_bad := True \<rparr>
      | Some c \<Rightarrow>
          let (_, _, w) = UdpSocket_Send os [0] (lit ''127.0.0.1'') (sv_port (tp_server P)) Socket_new (tp_world P)
          in P \<lparr> tp_heap := (tp_heap P)(p \<mapsto> SetActive True c), tp_world := w, tp_workers := (tp_workers P)[i := Waiting] \<rparr>)"

section \<open>The steps\<close>

text \<open>
  A new descriptor is not one that is open. Between the steps, other threads may change the manager and
  the world.
\<close>

definition accept_fresh :: "'w os \<Rightarrow> ('a Connection_scheme, 'm, 'w) pool \<Rightarrow> bool" where
  "accept_fresh os P \<longleftrightarrow> fst (Accept os (sv_socket (tp_server P)) (tp_world P)) \<notin> set (main_fds P) \<union> conn_fd ` set (tp_conns P)"

inductive tp_step ::
    "'w os \<Rightarrow> ('a Connection_scheme, 'm, 'w) server_class \<Rightarrow> ('a Connection_scheme, 'm, 'w) pool \<Rightarrow>
      ('a Connection_scheme, 'm, 'w) pool \<Rightarrow> bool"
  for os :: "'w os" and cl :: "('a Connection_scheme, 'm, 'w) server_class" where
  step_start: "tp_pc P = AtEnd \<Longrightarrow> tp_step os cl P (tp_start P)"
| step_select: "tp_pc P = AtSelect \<Longrightarrow> tp_step os cl P (tp_select os startTime P)"
| step_stop: "tp_pc P = AtSelect \<Longrightarrow> tp_step os cl P (P \<lparr> tp_workerExit := True, tp_pc := AtJoin \<rparr>)"
| step_accept: "tp_pc P = AtAccept inFd outFd maxFd \<Longrightarrow> accept_fresh os P \<Longrightarrow> s_fd (sv_socket (tp_server P)) \<in> set inFd \<Longrightarrow>
    tp_step os cl P ((tp_accept os cl P) \<lparr> tp_pc := AtSignal inFd outFd maxFd \<rparr>)"
| step_no_accept: "tp_pc P = AtAccept inFd outFd maxFd \<Longrightarrow> s_fd (sv_socket (tp_server P)) \<notin> set inFd \<Longrightarrow>
    tp_step os cl P (P \<lparr> tp_pc := AtSignal inFd outFd maxFd \<rparr>)"
| step_signal: "tp_pc P = AtSignal inFd outFd maxFd \<Longrightarrow>
    tp_step os cl P ((if s_fd (tp_signal P) \<in> set inFd then AcceptSignal os P else P)
      \<lparr> tp_pc := AtEvents (sv_connections (tp_server P)) inFd outFd maxFd \<rparr>)"
| step_event: "tp_pc P = AtEvents (p # ps) inFd outFd maxFd \<Longrightarrow> tp_event os cl (inFd, outFd, maxFd) p P = Some P' \<Longrightarrow>
    tp_step os cl P (P' \<lparr> tp_pc := AtEvents ps inFd outFd maxFd \<rparr>)"
| step_round: "tp_pc P = AtEvents [] inFd outFd maxFd \<Longrightarrow> tp_step os cl P (P \<lparr> tp_pc := AtSelect \<rparr>)"
| step_shutdown: "tp_pc P = AtJoin \<Longrightarrow> set (tp_workers P) \<subseteq> {Ended} \<Longrightarrow> tp_step os cl P (tp_shutdown os P)"
| step_pop: "i < length (tp_workers P) \<Longrightarrow> tp_workers P ! i = Waiting \<Longrightarrow> \<not> tp_workerExit P \<Longrightarrow> tp_workQueue P = p # ps \<Longrightarrow>
    tp_step os cl P (worker_pop i p ps P)"
| step_exit: "i < length (tp_workers P) \<Longrightarrow> tp_workers P ! i = Waiting \<Longrightarrow> tp_workerExit P \<Longrightarrow>
    tp_step os cl P (P \<lparr> tp_workers := (tp_workers P)[i := Ended] \<rparr>)"
| step_process: "i < length (tp_workers P) \<Longrightarrow> tp_workers P ! i = Processing p \<Longrightarrow> worker_process os cl i p P = Some P' \<Longrightarrow>
    tp_step os cl P P'"
| step_return: "i < length (tp_workers P) \<Longrightarrow> tp_workers P ! i = Returning p \<Longrightarrow> tp_step os cl P (worker_return os i p P)"
| step_world: "tp_step os cl P (P \<lparr> tp_manager := m, tp_world := w \<rparr>)"

inductive tp_reach ::
    "'w os \<Rightarrow> ('a Connection_scheme, 'm, 'w) server_class \<Rightarrow> nat \<Rightarrow> ('a Connection_scheme, 'm, 'w) pool \<Rightarrow> bool"
  for os :: "'w os" and cl :: "('a Connection_scheme, 'm, 'w) server_class" and n :: nat where
  pool_init: "TP_BindAndListen os port backlog (ServerTP_new n m w) = (ok, P) \<Longrightarrow> tp_reach os cl n P"
| pool_step: "tp_reach os cl n P \<Longrightarrow> tp_step os cl P P' \<Longrightarrow> tp_reach os cl n P'"

section \<open>Who processes a connection\<close>

fun held_by :: "worker \<Rightarrow> nat list" where
  "held_by (Processing p) = [p]"
| "held_by (Returning p) = [p]"
| "held_by _ = []"

definition held :: "('c, 'm, 'w) pool \<Rightarrow> nat list" where
  "held P = concat (map held_by (tp_workers P))"

definition owned :: "('c, 'm, 'w) pool \<Rightarrow> nat list" where
  "owned P = tp_workQueue P @ held P"

definition conns :: "('c, 'm, 'w) pool \<Rightarrow> nat list" where
  "conns P = sv_connections (tp_server P)"

text \<open>
  The parts of the invariant. A connection that the workers own is not active; the live objects are the
  connections of the server; their descriptors differ; \<open>main_owns\<close>: the workers do not own the
  connections that the main thread has still to process in this round.
\<close>

definition inactive_owned :: "('a Connection_scheme, 'm, 'w) pool \<Rightarrow> bool" where
  "inactive_owned P \<longleftrightarrow> distinct (owned P) \<and>
     (\<forall>p \<in> set (owned P). p < tp_fresh P \<and> (\<forall>c. tp_heap P p = Some c \<longrightarrow> \<not> c_active c))"

definition live_conns :: "('a Connection_scheme, 'm, 'w) pool \<Rightarrow> bool" where
  "live_conns P \<longleftrightarrow> distinct (conns P) \<and> (\<forall>p. p \<in> set (conns P) \<longleftrightarrow> tp_heap P p \<noteq> None) \<and> (\<forall>p \<in> set (conns P). p < tp_fresh P)"

definition fds_differ :: "('a Connection_scheme, 'm, 'w) pool \<Rightarrow> bool" where
  "fds_differ P \<longleftrightarrow> (\<forall>p c. tp_heap P p = Some c \<longrightarrow> conn_fd c \<notin> set (main_fds P) \<and>
     (\<forall>p' c'. tp_heap P p' = Some c' \<longrightarrow> conn_fd c' = conn_fd c \<longrightarrow> p' = p))"

definition main_owns :: "nat list \<Rightarrow> int list \<Rightarrow> int list \<Rightarrow> int \<Rightarrow> ('a Connection_scheme, 'm, 'w) pool \<Rightarrow> bool" where
  "main_owns ps inFd outFd maxFd P \<longleftrightarrow>
     (\<forall>p \<in> set ps. \<forall>c. tp_heap P p = Some c \<longrightarrow> reported maxFd inFd outFd c \<longrightarrow> p \<notin> set (owned P))"

definition known_fds :: "int list \<Rightarrow> int list \<Rightarrow> ('a Connection_scheme, 'm, 'w) pool \<Rightarrow> bool" where
  "known_fds inFd outFd P \<longleftrightarrow>
     (\<forall>fd \<in> set inFd \<union> set outFd. fd \<in> set (main_fds P) \<or> (\<exists>p c. tp_heap P p = Some c \<and> conn_fd c = fd))"

definition main_inv :: "('a Connection_scheme, 'm, 'w) pool \<Rightarrow> bool" where
  "main_inv P \<longleftrightarrow>
     (case tp_pc P of
        AtAccept inFd outFd maxFd \<Rightarrow> main_owns (conns P) inFd outFd maxFd P \<and> known_fds inFd outFd P
      | AtSignal inFd outFd maxFd \<Rightarrow> main_owns (conns P) inFd outFd maxFd P
      | AtEvents ps inFd outFd maxFd \<Rightarrow> main_owns ps inFd outFd maxFd P \<and> distinct ps \<and> set ps \<subseteq> set (conns P)
      | _ \<Rightarrow> True)"

definition pool_inv :: "('a Connection_scheme, 'm, 'w) pool \<Rightarrow> bool" where
  "pool_inv P \<longleftrightarrow> inactive_owned P \<and> live_conns P \<and> fds_differ P \<and> main_inv P"

text \<open>What is relied on of \<^verbatim>\<open>select\<close>, and of a class of connections.\<close>

definition select_reports :: "'w os \<Rightarrow> bool" where
  "select_reports os \<longleftrightarrow> (\<forall>rs ws tv w n rs' ws' w'. sys_select os rs ws tv w = ((n, rs', ws'), w') \<longrightarrow>
     set rs' \<subseteq> set rs \<and> set ws' \<subseteq> set ws)"

definition same_owner :: "'a Connection_scheme \<Rightarrow> 'a Connection_scheme \<Rightarrow> bool" where
  "same_owner c c' \<longleftrightarrow> conn_fd c' = conn_fd c \<and> c_active c' = c_active c"

lemma pool_updates [simp]:
  "held (P \<lparr> tp_pc := pc \<rparr>) = held P" "conns (P \<lparr> tp_pc := pc \<rparr>) = conns P" "main_fds (P \<lparr> tp_pc := pc \<rparr>) = main_fds P"
  "held (P \<lparr> tp_bad := b \<rparr>) = held P" "conns (P \<lparr> tp_bad := b \<rparr>) = conns P" "main_fds (P \<lparr> tp_bad := b \<rparr>) = main_fds P"
  "held (P \<lparr> tp_world := w \<rparr>) = held P" "conns (P \<lparr> tp_world := w \<rparr>) = conns P" "main_fds (P \<lparr> tp_world := w \<rparr>) = main_fds P"
  "held (P \<lparr> tp_manager := m \<rparr>) = held P" "conns (P \<lparr> tp_manager := m \<rparr>) = conns P"
  "main_fds (P \<lparr> tp_manager := m \<rparr>) = main_fds P"
  "held (P \<lparr> tp_heap := h \<rparr>) = held P" "conns (P \<lparr> tp_heap := h \<rparr>) = conns P" "main_fds (P \<lparr> tp_heap := h \<rparr>) = main_fds P"
  "held (P \<lparr> tp_workQueue := q \<rparr>) = held P" "conns (P \<lparr> tp_workQueue := q \<rparr>) = conns P"
  "main_fds (P \<lparr> tp_workQueue := q \<rparr>) = main_fds P"
  "held (P \<lparr> tp_workerExit := b \<rparr>) = held P" "conns (P \<lparr> tp_workerExit := b \<rparr>) = conns P"
  "main_fds (P \<lparr> tp_workerExit := b \<rparr>) = main_fds P"
  "conns (P \<lparr> tp_workers := ws \<rparr>) = conns P" "main_fds (P \<lparr> tp_workers := ws \<rparr>) = main_fds P"
  "held (P \<lparr> tp_server := s \<rparr>) = held P" "held (P \<lparr> tp_signal := g \<rparr>) = held P" "conns (P \<lparr> tp_signal := g \<rparr>) = conns P"
  "held (P \<lparr> tp_fresh := k \<rparr>) = held P" "conns (P \<lparr> tp_fresh := k \<rparr>) = conns P" "main_fds (P \<lparr> tp_fresh := k \<rparr>) = main_fds P"
  by (simp_all add: held_def conns_def main_fds_def)

text \<open>The invariant depends on the objects only through \<open>same_owner\<close>, and on the owners.\<close>

lemma pool_inv_cong:
  assumes "pool_inv P" "conns P' = conns P" "main_fds P' = main_fds P" "tp_fresh P' = tp_fresh P" "tp_pc P' = tp_pc P"
    and owned: "distinct (owned P')" "set (owned P') \<subseteq> set (owned P)"
    and heap: "\<And>p c'. tp_heap P' p = Some c' \<Longrightarrow> \<exists>c. tp_heap P p = Some c \<and> conn_fd c' = conn_fd c
      \<and> (p \<in> set (owned P') \<longrightarrow> c_active c' = c_active c)"
      "\<And>p. tp_heap P p \<noteq> None \<Longrightarrow> tp_heap P' p \<noteq> None"
  shows "pool_inv P'"
  unfolding pool_inv_def
proof (intro conjI)
  have dom: "tp_heap P' p \<noteq> None \<longleftrightarrow> tp_heap P p \<noteq> None" for p using heap by blast
  show "inactive_owned P'"
    using assms(1,4) owned heap(1) unfolding pool_inv_def inactive_owned_def by (metis subsetD)
  show "live_conns P'" using assms(1,2,4) dom by (simp add: pool_inv_def live_conns_def)
  show "fds_differ P'" unfolding fds_differ_def
  proof (intro allI impI)
    fix p c'
    assume "tp_heap P' p = Some c'"
    from heap(1) [OF this] obtain c where c: "tp_heap P p = Some c" "conn_fd c' = conn_fd c" by blast
    with assms(1) have f: "conn_fd c' \<notin> set (main_fds P)"
      "\<And>q d. tp_heap P q = Some d \<Longrightarrow> conn_fd d = conn_fd c' \<Longrightarrow> q = p"
      by (auto simp: pool_inv_def fds_differ_def)
    have "q = p" if "tp_heap P' q = Some d" "conn_fd d = conn_fd c'" for q d
      using heap(1) [OF that(1)] that(2) f(2) by auto
    with f(1) assms(3) show "conn_fd c' \<notin> set (main_fds P') \<and> (\<forall>q d. tp_heap P' q = Some d \<longrightarrow> conn_fd d = conn_fd c' \<longrightarrow> q = p)"
      by simp
  qed
  have mo: "main_owns ps i k n P \<Longrightarrow> main_owns ps i k n P'" for ps i k n
    unfolding main_owns_def
  proof (intro ballI allI impI)
    fix p c'
    assume *: "\<forall>p \<in> set ps. \<forall>c. tp_heap P p = Some c \<longrightarrow> reported n i k c \<longrightarrow> p \<notin> set (owned P)" "p \<in> set ps"
      "tp_heap P' p = Some c'" "reported n i k c'"
    from heap(1) [OF *(3)] obtain c where c: "tp_heap P p = Some c" "conn_fd c' = conn_fd c" by blast
    with *(4) have "reported n i k c" by (simp add: reported_def)
    with *(1,2) c(1) owned(2) show "p \<notin> set (owned P')" by blast
  qed
  have kf: "known_fds i k P \<Longrightarrow> known_fds i k P'" for i k
    unfolding known_fds_def assms(3)
  proof
    fix fd
    assume *: "\<forall>fd \<in> set i \<union> set k. fd \<in> set (main_fds P) \<or> (\<exists>p c. tp_heap P p = Some c \<and> conn_fd c = fd)" "fd \<in> set i \<union> set k"
    have "\<exists>p c. tp_heap P' p = Some c \<and> conn_fd c = fd" if "tp_heap P p = Some c" "conn_fd c = fd" for p c
      using heap(1) [of p] heap(2) [of p] that by (metis option.inject option.distinct(1) not_Some_eq)
    with * show "fd \<in> set (main_fds P) \<or> (\<exists>p c. tp_heap P' p = Some c \<and> conn_fd c = fd)" by blast
  qed
  show "main_inv P'" using assms(1) mo kf by (auto simp: pool_inv_def main_inv_def assms(2,5) split: main_pc.splits)
qed

section \<open>The main thread keeps the invariant\<close>

lemma pool_invD:
  assumes "pool_inv P"
  shows "inactive_owned P" "live_conns P" "fds_differ P" "main_inv P"
  using assms by (simp_all add: pool_inv_def)

lemma main_inv_pc: "pool_inv P \<Longrightarrow> main_inv (P \<lparr> tp_pc := pc \<rparr>) \<Longrightarrow> pool_inv (P \<lparr> tp_pc := pc \<rparr>)"
  by (simp add: pool_inv_def inactive_owned_def live_conns_def fds_differ_def owned_def)

lemma owns_pc [simp]: "main_owns ps i k n (P \<lparr> tp_pc := pc \<rparr>) = main_owns ps i k n P"
  "known_fds i k (P \<lparr> tp_pc := pc \<rparr>) = known_fds i k P" "owned (P \<lparr> tp_pc := pc \<rparr>) = owned P"
  by (simp_all add: main_owns_def known_fds_def owned_def)

text \<open>Connections are deleted and leave the list.\<close>

lemma removed:
  assumes "inactive_owned P" "live_conns P" "fds_differ P"
    and same: "owned P' = owned P" "main_fds P' = main_fds P" "tp_fresh P' = tp_fresh P"
    and conns: "distinct (conns P')" "set (conns P') \<subseteq> set (conns P)"
      "\<And>p. tp_heap P' p = (if p \<in> set (conns P') then tp_heap P p else None)"
  shows "inactive_owned P'" "live_conns P'" "fds_differ P'" "main_owns ps i k n P \<Longrightarrow> main_owns ps i k n P'"
proof -
  show "inactive_owned P'" using assms(1) by (simp add: inactive_owned_def same conns(3))
  show "live_conns P'" using assms(2) conns by (auto simp: live_conns_def same)
  show "fds_differ P'" using assms(3) by (simp add: fds_differ_def same conns(3) split: if_splits)
  show "main_owns ps i k n P \<Longrightarrow> main_owns ps i k n P'" by (auto simp: main_owns_def same conns(3) split: if_splits)
qed

lemma tp_delete_live:
  "tp_heap P p = Some c \<Longrightarrow> \<exists>w. tp_delete os p P = P \<lparr> tp_heap := (tp_heap P)(p := None), tp_world := w \<rparr>"
  by (auto simp: tp_delete_def)

lemma make_room_pool:
  fixes P :: "('a Connection_scheme, 'm, 'w) pool"
  assumes "make_room allowed last_time (tp_delete os) n ps P = (ok, ps', P')" "distinct ps" "\<forall>p \<in> set ps. tp_heap P p \<noteq> None"
  shows "distinct ps' \<and> set ps' \<subseteq> set ps \<and>
    (\<exists>w. P' = P \<lparr> tp_heap := (\<lambda>p. if p \<in> set ps - set ps' then None else tp_heap P p), tp_world := w \<rparr>)"
  using assms
proof (induction allowed last_time "tp_delete os :: nat \<Rightarrow> ('a Connection_scheme, 'm, 'w) pool \<Rightarrow> _" n ps P rule: make_room.induct)
  case (1 allowed last_time n ps P)
  have self: "P = P \<lparr> tp_heap := (\<lambda>p. if p \<in> set ps - set ps then None else tp_heap P p), tp_world := tp_world P \<rparr>" by simp
  show ?case
  proof (cases "length ps < n \<or> pick_target allowed last_time ps = None")
    case True
    with 1(2) have "ps' = ps \<and> P' = P" by (subst (asm) make_room.simps) (auto split: if_splits)
    with 1(3) self show ?thesis by blast
  next
    case False
    then obtain i where i: "\<not> length ps < n" "pick_target allowed last_time ps = Some i" by auto
    from pick_target_bound [OF i(2)] have il: "i < length ps" by simp
    let ?p = "ps ! i" and ?qs = "erase_nth i ps"
    from 1(4) il obtain c where "tp_heap P ?p = Some c" by (metis nth_mem not_Some_eq)
    from tp_delete_live [OF this] obtain w where d: "tp_delete os ?p P = P \<lparr> tp_heap := (tp_heap P)(?p := None), tp_world := w \<rparr>" by blast
    have split: "ps = take i ps @ ?p # drop (Suc i) ps" by (rule id_take_nth_drop [OF il])
    have dq: "distinct ?qs" "?p \<notin> set ?qs" "set ps = insert ?p (set ?qs)"
      using 1(3) split erase_nth_set [OF il] unfolding erase_nth_def
      by (metis distinct_append distinct.simps(2) not_distinct_conv_prefix Un_iff append_Cons disjoint_insert(1) list.simps(15) set_append)+
    from 1(2) i have "make_room allowed last_time (tp_delete os) n ?qs (tp_delete os ?p P) = (ok, ps', P')"
      by (subst (asm) make_room.simps) simp
    note IH = 1(1) [OF i this dq(1)]
    have "\<forall>p \<in> set ?qs. tp_heap (tp_delete os ?p P) p \<noteq> None"
    proof
      fix p
      assume "p \<in> set ?qs"
      with dq 1(4) show "tp_heap (tp_delete os ?p P) p \<noteq> None" by (auto simp: d)
    qed
    from IH [OF this] obtain w' where R: "distinct ps'" "set ps' \<subseteq> set ?qs"
      "P' = (tp_delete os ?p P) \<lparr> tp_heap := (\<lambda>p. if p \<in> set ?qs - set ps' then None else tp_heap (tp_delete os ?p P) p), tp_world := w' \<rparr>"
      by blast
    have h: "(\<lambda>p. if p \<in> set ?qs - set ps' then None else tp_heap (tp_delete os ?p P) p) = (\<lambda>p. if p \<in> set ps - set ps' then None else tp_heap P p)"
      using dq R(2) by (auto simp: fun_eq_iff d)
    have "P' = P \<lparr> tp_heap := (\<lambda>p. if p \<in> set ps - set ps' then None else tp_heap P p), tp_world := w' \<rparr>"
      unfolding R(3) h by (simp add: d)
    with R(1,2) dq(3) show ?thesis by blast
  qed
qed

lemma tp_conns_set: "live_conns P \<Longrightarrow> set (tp_conns P) = {c. \<exists>p. tp_heap P p = Some c}"
  by (force simp: tp_conns_def conns_def live_conns_def)

lemma select_inv:
  assumes "pool_inv P" "tp_pc P = AtSelect" "select_reports os"
  shows "pool_inv (tp_select os startTime P)"
proof -
  note I = pool_invD [OF assms(1)]
  let ?cs = "tp_conns P"
  obtain tv w1 where t: "select_wait os 100 startTime (tp_world P) = (tv, w1)" by fastforce
  obtain res w2 where s': "sys_select os (select_in (main_fds P) ?cs) (select_out ?cs) tv w1 = (res, w2)" by fastforce
  obtain n inFd outFd where "res = (n, inFd, outFd)" by (metis prod_cases3)
  with s' have s: "sys_select os (select_in (main_fds P) ?cs) (select_out ?cs) tv w1 = ((n, inFd, outFd), w2)" by simp
  let ?max = "max_fd (main_fds P) ?cs" and ?P = "P \<lparr> tp_world := w2 \<rparr>"
  have sub: "set inFd \<subseteq> set (select_in (main_fds P) ?cs)" "set outFd \<subseteq> set (select_out ?cs)"
    using assms(3) s unfolding select_reports_def by blast+
  have P: "pool_inv ?P" by (rule pool_inv_cong [OF assms(1)]) (use I(1) in \<open>auto simp: owned_def inactive_owned_def\<close>)
  have fds: "fd \<in> set (main_fds P) \<or> (\<exists>p c. tp_heap P p = Some c \<and> conn_fd c = fd \<and> c_active c)"
    if "fd \<in> set inFd \<union> set outFd" for fd
  proof -
    from that sub have "fd \<in> set (main_fds P) \<or> (\<exists>c \<in> set ?cs. conn_fd c = fd \<and> c_active c)"
      by (auto simp: select_in_def select_out_def WaitForReadability_def WaitForWritability_def)
    then show ?thesis using tp_conns_set [OF I(2)] by auto
  qed
  have "main_owns (conns P) inFd outFd ?max ?P"
    unfolding main_owns_def
  proof (intro ballI allI impI)
    fix p c
    assume "tp_heap ?P p = Some c" "reported ?max inFd outFd c"
    then have h: "tp_heap P p = Some c" "conn_fd c \<in> set inFd \<union> set outFd" by (auto simp: reported_def)
    from h(1) I(3) have no: "conn_fd c \<notin> set (main_fds P)"
      "\<And>q d. tp_heap P q = Some d \<Longrightarrow> conn_fd d = conn_fd c \<Longrightarrow> q = p" by (auto simp: fds_differ_def)
    from fds [OF h(2)] no(1) obtain q d where "tp_heap P q = Some d" "conn_fd d = conn_fd c" "c_active d" by blast
    with no(2) h(1) have "c_active c" by fastforce
    with I(1) h(1) show "p \<notin> set (owned ?P)" by (auto simp: inactive_owned_def owned_def)
  qed
  moreover have "known_fds inFd outFd ?P" using fds unfolding known_fds_def by fastforce
  ultimately have "pool_inv (?P \<lparr> tp_pc := (if n < 0 then AtSelect else AtAccept inFd outFd ?max) \<rparr>)"
    by (intro main_inv_pc [OF P]) (simp add: main_inv_def)
  then show ?thesis by (simp add: tp_select_def t s Let_def)
qed

lemma signal_inv:
  assumes "pool_inv P" "tp_pc P = AtSignal inFd outFd maxFd"
  shows "pool_inv ((if b then AcceptSignal os P else P) \<lparr> tp_pc := AtEvents (conns P) inFd outFd maxFd \<rparr>)"
proof -
  define Q where "Q = (if b then AcceptSignal os P else P)"
  have same: "owned Q = owned P" "conns Q = conns P" "main_fds Q = main_fds P" "tp_heap Q = tp_heap P"
    "tp_fresh Q = tp_fresh P" "tp_pc Q = tp_pc P"
    by (auto simp: Q_def AcceptSignal_def UdpSocket_Receive_def SetLastError_def owned_def held_def conns_def main_fds_def Let_def
        split: prod.splits if_splits)
  have "pool_inv Q"
    by (rule pool_inv_cong [OF assms(1)]) (use pool_invD(1) [OF assms(1)] in \<open>simp_all add: same inactive_owned_def\<close>)
  then have "pool_inv (Q \<lparr> tp_pc := AtEvents (conns P) inFd outFd maxFd \<rparr>)"
    by (rule main_inv_pc) (use pool_invD(2,4) [OF assms(1)] assms(2) in
      \<open>simp add: main_inv_def main_owns_def live_conns_def same\<close>)
  then show ?thesis by (simp add: Q_def)
qed

text \<open>What the main thread does to a connection that it owns.\<close>

lemma guarded_owner:
  assumes keeps: "\<And>e c m w r c' m' w'. Process os v e c m w = Some (r, c', m', w') \<Longrightarrow> same_owner c c'"
    and g: "guarded_process os v e c m w = Some (r, c1, m1, w1)"
  shows "same_owner c c1"
proof -
  obtain r0 c0 m0 w0 where p: "Process os v e c m w = Some (r0, c0, m0, w0)"
    using g by (cases "Process os v e c m w") (auto simp: guarded_process_def)
  have "c1 = c0 \<or> c1 = SetCloseState c0" using g
    by (cases r0; cases "projl r0") (auto simp: guarded_process_def p)
  with keeps [OF p] show ?thesis by (auto simp: same_owner_def SetCloseState_def conn_fd_def)
qed

lemma processed_object:
  assumes "guarded_process os (sc_virtuals cl) False c (tp_manager P) (tp_world P) = Some (Inr r, c1, m1, w1)" "same_owner c c1"
  shows "tp_process_event os cl p c P = Some P1 \<Longrightarrow> \<exists>c2 q. P1 = P \<lparr> tp_manager := m1, tp_world := w1, tp_heap := (tp_heap P)(p \<mapsto> c2), tp_workQueue := q \<rparr>
    \<and> conn_fd c2 = conn_fd c \<and> (q = tp_workQueue P \<or> q = tp_workQueue P @ [p] \<and> \<not> c_active c2)"
proof (cases "CheckExecuteState c1")
  case True
  assume "tp_process_event os cl p c P = Some P1"
  with True assms show ?thesis
    by (intro exI [of _ "SetActive False c1"] exI [of _ "tp_workQueue P @ [p]"])
      (auto simp: tp_process_event_def Let_def same_owner_def SetActive_def conn_fd_def)
next
  case False
  assume "tp_process_event os cl p c P = Some P1"
  with False assms have "P1 = P \<lparr> tp_manager := m1, tp_world := w1, tp_heap := (tp_heap P)(p \<mapsto> c1) \<rparr>"
    by (simp add: tp_process_event_def Let_def)
  also have "... = P \<lparr> tp_manager := m1, tp_world := w1, tp_heap := (tp_heap P)(p \<mapsto> c1), tp_workQueue := tp_workQueue P \<rparr>"
    by (rule pool.equality) simp_all
  finally have e: "P1 = P \<lparr> tp_manager := m1, tp_world := w1, tp_heap := (tp_heap P)(p \<mapsto> c1), tp_workQueue := tp_workQueue P \<rparr>" .
  show ?thesis by (rule exI [of _ c1], rule exI [of _ "tp_workQueue P"], rule conjI [OF e]) (use assms(2) in \<open>simp add: same_owner_def\<close>)
qed

lemma pushed_inv:
  assumes "inactive_owned P" "live_conns P" "fds_differ P" "tp_heap P p = Some c" "p \<notin> set (owned P)"
    and c2: "conn_fd c2 = conn_fd c" and q: "q = tp_workQueue P \<or> q = tp_workQueue P @ [p] \<and> \<not> c_active c2"
    and P1_def: "P1 = P \<lparr> tp_manager := m1, tp_world := w1, tp_heap := (tp_heap P)(p \<mapsto> c2), tp_workQueue := q \<rparr>"
  shows "inactive_owned P1" "live_conns P1" "fds_differ P1" "conns P1 = conns P"
    "main_owns ps i k n P \<Longrightarrow> p \<notin> set ps \<Longrightarrow> main_owns ps i k n P1"
proof -
  have heap: "tp_heap P1 = (tp_heap P)(p \<mapsto> c2)" "tp_fresh P1 = tp_fresh P" "main_fds P1 = main_fds P" "conns P1 = conns P"
    "owned P1 = q @ held P"
    by (simp_all add: P1_def owned_def)
  show "conns P1 = conns P" by (rule heap(4))
  have own: "set (owned P1) = set (owned P) \<or> set (owned P1) = insert p (set (owned P)) \<and> \<not> c_active c2"
    using q unfolding heap(5) by (auto simp: owned_def)
  have dist: "distinct (owned P1)" using q assms(1,5) unfolding heap(5)
    by (auto simp: inactive_owned_def owned_def)
  have pf: "p < tp_fresh P" using assms(2,4) by (auto simp: live_conns_def)
  have old: "r < tp_fresh P \<and> (\<forall>c. tp_heap P r = Some c \<longrightarrow> \<not> c_active c)" if "r \<in> set (owned P)" for r
    using assms(1) that by (auto simp: inactive_owned_def)
  show "inactive_owned P1" unfolding inactive_owned_def heap(1,2)
  proof (intro conjI dist ballI)
    fix r
    assume r: "r \<in> set (owned P1)"
    from r own have "r = p \<or> r \<in> set (owned P)" by blast
    with old pf show "r < tp_fresh P" by blast
    show "\<forall>c. ((tp_heap P)(p \<mapsto> c2)) r = Some c \<longrightarrow> \<not> c_active c"
    proof (cases "r = p")
      case True
      with r own assms(5) show ?thesis by auto
    next
      case False
      with r own have "r \<in> set (owned P)" by blast
      with old False show ?thesis by simp
    qed
  qed
  show "live_conns P1" using assms(2,4) by (auto simp: live_conns_def heap)
  show "fds_differ P1" unfolding fds_differ_def heap
  proof (intro allI impI conjI)
    fix r d
    assume r: "((tp_heap P)(p \<mapsto> c2)) r = Some d"
    then obtain d0 where d0: "tp_heap P r = Some d0" "conn_fd d = conn_fd d0" using assms(4) c2 by (auto split: if_splits)
    with assms(3) show "conn_fd d \<notin> set (main_fds P)" by (auto simp: fds_differ_def)
    fix r' d'
    assume r': "((tp_heap P)(p \<mapsto> c2)) r' = Some d'" "conn_fd d' = conn_fd d"
    then obtain d1 where "tp_heap P r' = Some d1" "conn_fd d' = conn_fd d1" using assms(4) c2 by (auto split: if_splits)
    with assms(3) [unfolded fds_differ_def, rule_format, OF d0(1)] d0(2) r'(2) show "r' = r" by auto
  qed
  show "main_owns ps i k n P1" if "main_owns ps i k n P" "p \<notin> set ps"
    unfolding main_owns_def heap(1)
  proof (intro ballI allI impI)
    fix r d
    assume r: "r \<in> set ps" "((tp_heap P)(p \<mapsto> c2)) r = Some d" "reported n i k d"
    with that have "r \<noteq> p" by blast
    with r that(1) have "r \<notin> set (owned P)" by (simp add: main_owns_def)
    with own \<open>r \<noteq> p\<close> show "r \<notin> set (owned P1)" by blast
  qed
qed

lemma event_core:
  assumes "pool_inv P" "tp_pc P = AtEvents (p # ps) inFd outFd maxFd" "tp_event os cl (inFd, outFd, maxFd) p P = Some P'"
    and keeps: "\<And>e c m w r c' m' w'. Process os (sc_virtuals cl) e c m w = Some (r, c', m', w') \<Longrightarrow> same_owner c c'"
  shows "pool_inv (P' \<lparr> tp_pc := AtEvents ps inFd outFd maxFd \<rparr>)"
proof -
  note I = pool_invD [OF assms(1)]
  from I(4) assms(2) have M: "main_owns (p # ps) inFd outFd maxFd P" "p \<notin> set ps" "distinct ps" "p \<in> set (conns P)"
    "set ps \<subseteq> set (conns P)" by (simp_all add: main_inv_def)
  from I(2) M(4) obtain c where c: "tp_heap P p = Some c" by (auto simp: live_conns_def)
  obtain P1 where P1: "(if reported maxFd inFd outFd c then tp_process_event os cl p c P else Some P) = Some P1"
    "P' = tp_check_close os p P1" using assms(3) by (auto simp: tp_event_def c)
  have J: "inactive_owned P1 \<and> live_conns P1 \<and> fds_differ P1 \<and> main_owns ps inFd outFd maxFd P1 \<and> conns P1 = conns P"
  proof (cases "reported maxFd inFd outFd c")
    case False
    with P1(1) I M(1) show ?thesis by (simp add: main_owns_def)
  next
    case True
    with M(1) c have po: "p \<notin> set (owned P)" by (simp add: main_owns_def)
    from True P1(1) obtain r c1 m1 w1 where g: "guarded_process os (sc_virtuals cl) False c (tp_manager P) (tp_world P) = Some (Inr r, c1, m1, w1)"
      by (auto simp: tp_process_event_def split: option.splits sum.splits)
    have so: "same_owner c c1" by (rule guarded_owner [OF keeps g])
    from processed_object [OF g so] True P1(1) have "\<exists>c2 q. P1 = P \<lparr> tp_manager := m1, tp_world := w1, tp_heap := (tp_heap P)(p \<mapsto> c2), tp_workQueue := q \<rparr>
        \<and> conn_fd c2 = conn_fd c \<and> (q = tp_workQueue P \<or> q = tp_workQueue P @ [p] \<and> \<not> c_active c2)"
      by simp
    then obtain c2 q where P1': "P1 = P \<lparr> tp_manager := m1, tp_world := w1, tp_heap := (tp_heap P)(p \<mapsto> c2), tp_workQueue := q \<rparr>"
        "conn_fd c2 = conn_fd c" "q = tp_workQueue P \<or> q = tp_workQueue P @ [p] \<and> \<not> c_active c2" by blast
    note Q = pushed_inv [OF I(1-3) c po P1'(2,3,1)]
    from M(1) have "main_owns ps inFd outFd maxFd P" by (simp add: main_owns_def)
    from Q(1-4) Q(5) [OF this M(2)] show ?thesis by blast
  qed
  obtain c1 where c1: "tp_heap P1 p = Some c1" using J M(4) by (auto simp: live_conns_def)
  have K: "inactive_owned P' \<and> live_conns P' \<and> fds_differ P' \<and> main_owns ps inFd outFd maxFd P' \<and> set ps \<subseteq> set (conns P')"
  proof (cases "CheckClose c1")
    case False
    with P1(2) c1 J M(5) show ?thesis by (simp add: tp_check_close_def)
  next
    case True
    from tp_delete_live [OF c1] obtain w where d: "tp_delete os p P1 = P1 \<lparr> tp_heap := (tp_heap P1)(p := None), tp_world := w \<rparr>" by blast
    let ?s = "tp_server P1"
    have P': "P' = P1 \<lparr> tp_heap := (tp_heap P1)(p := None), tp_world := w,
        tp_server := ?s \<lparr> sv_connections := remove1 p (sv_connections ?s) \<rparr> \<rparr>"
      using True c1 by (simp add: P1(2) tp_check_close_def d Let_def)
    have J': "inactive_owned P1" "live_conns P1" "fds_differ P1" "main_owns ps inFd outFd maxFd P1" "conns P1 = conns P"
      using J by simp_all
    have cs: "conns P' = remove1 p (conns P1)" by (simp add: P' conns_def)
    have dc: "distinct (conns P1)" "\<And>q. q \<in> set (conns P1) \<longleftrightarrow> tp_heap P1 q \<noteq> None"
      using J'(2) by (simp_all add: live_conns_def)
    have R: "owned P' = owned P1" "main_fds P' = main_fds P1" "tp_fresh P' = tp_fresh P1" "distinct (conns P')"
      "set (conns P') \<subseteq> set (conns P1)" "\<And>q. tp_heap P' q = (if q \<in> set (conns P') then tp_heap P1 q else None)"
      unfolding cs using dc by (simp_all add: P' owned_def held_def main_fds_def)
    note rem = removed [OF J'(1-3) R]
    have "set ps \<subseteq> set (conns P')" unfolding cs J'(5) using M(2,5) dc(1) [unfolded J'(5)] by auto
    with rem(1-3) rem(4) [OF J'(4)] show ?thesis by blast
  qed
  then show ?thesis using M(3)
    by (simp add: pool_inv_def main_inv_def inactive_owned_def live_conns_def fds_differ_def owned_def)
qed

lemma Accept_fd: "Accept os sock w = (fd, sock', w') \<Longrightarrow> s_fd sock' = s_fd sock"
  by (auto simp: Accept_def SetLastError_def split: prod.splits)

text \<open>A connection is added, with a descriptor that was not reported.\<close>

lemma added:
  assumes "inactive_owned P" "live_conns P" "fds_differ P" "main_owns (conns P) i k n P"
    and fresh: "conn_fd c \<notin> set (main_fds P)" "conn_fd c \<notin> set i \<union> set k"
      "\<forall>p d. tp_heap P p = Some d \<longrightarrow> conn_fd d \<noteq> conn_fd c"
    and same: "owned P' = owned P" "main_fds P' = main_fds P" "tp_fresh P' = Suc (tp_fresh P)"
      "conns P' = conns P @ [tp_fresh P]" "tp_heap P' = (tp_heap P)(tp_fresh P \<mapsto> c)"
  shows "inactive_owned P'" "live_conns P'" "fds_differ P'" "main_owns (conns P') i k n P'"
proof -
  let ?q = "tp_fresh P"
  have q: "?q \<notin> set (owned P)" "?q \<notin> set (conns P)" using assms(1,2) by (auto simp: inactive_owned_def live_conns_def)
  show "inactive_owned P'" using assms(1) q(1) unfolding inactive_owned_def same
    by (metis fun_upd_other less_SucI)
  show "live_conns P'" using assms(2) q(2) by (auto simp: live_conns_def same less_Suc_eq)
  show "fds_differ P'" unfolding fds_differ_def same
  proof (intro allI impI conjI)
    fix p d
    assume p: "((tp_heap P)(?q \<mapsto> c)) p = Some d"
    show "conn_fd d \<notin> set (main_fds P)"
      using p fresh(1) assms(3) by (cases "p = ?q") (auto simp: fds_differ_def)
    fix p' d'
    assume p': "((tp_heap P)(?q \<mapsto> c)) p' = Some d'" "conn_fd d' = conn_fd d"
    show "p' = p"
    proof (cases "p = ?q \<or> p' = ?q")
      case True
      with p p' fresh(3) show ?thesis by (auto split: if_splits)
    next
      case False
      with p p' have "tp_heap P p = Some d" "tp_heap P p' = Some d'" by simp_all
      with assms(3) p'(2) show ?thesis unfolding fds_differ_def by blast
    qed
  qed
  show "main_owns (conns P') i k n P'"
    using assms(4) fresh(2) q by (auto simp: main_owns_def same reported_def)
qed

lemma at_signal:
  assumes "inactive_owned P" "live_conns P" "fds_differ P" "main_owns (conns P) inFd outFd maxFd P"
  shows "pool_inv (P \<lparr> tp_pc := AtSignal inFd outFd maxFd \<rparr>)"
  using assms by (simp add: pool_inv_def main_inv_def inactive_owned_def live_conns_def fds_differ_def)

lemma accept_inv:
  assumes "pool_inv P" "tp_pc P = AtAccept inFd outFd maxFd" "accept_fresh os P"
    and created: "\<And>fd w c w'. sc_CreateConnection cl fd w = (c, w') \<Longrightarrow> conn_fd c = fd"
  shows "pool_inv ((tp_accept os cl P) \<lparr> tp_pc := AtSignal inFd outFd maxFd \<rparr>)"
proof -
  note I = pool_invD [OF assms(1)]
  from I(4) assms(2) have M: "main_owns (conns P) inFd outFd maxFd P" "known_fds inFd outFd P" by (simp_all add: main_inv_def)
  let ?s = "tp_server P"
  obtain fd sock w1 where a: "Accept os (sv_socket ?s) (tp_world P) = (fd, sock, w1)" by (metis prod_cases3)
  let ?P1 = "P \<lparr> tp_server := ?s \<lparr> sv_socket := sock \<rparr>, tp_world := w1 \<rparr>"
  have same1: "owned ?P1 = owned P" "conns ?P1 = conns P" "main_fds ?P1 = main_fds P"
    using Accept_fd [OF a] by (simp_all add: owned_def held_def conns_def main_fds_def)
  have P1: "inactive_owned ?P1" "live_conns ?P1" "fds_differ ?P1" "main_owns (conns ?P1) inFd outFd maxFd ?P1"
    using I(1-3) M(1) same1 by (simp_all add: inactive_owned_def live_conns_def fds_differ_def main_owns_def)
  show ?thesis
  proof (cases "fd < 0")
    case True
    then have acc: "tp_accept os cl P = ?P1" by (simp add: tp_accept_def a)
    show ?thesis unfolding acc by (rule at_signal [OF P1])
  next
    case False
    obtain room ps P2 where r: "make_room (tp_allowed cl ?P1) (tp_last ?P1) (tp_delete os) (unat (sv_maxConnections ?s))
        (sv_connections ?s) ?P1 = (room, ps, P2)" by (metis prod_cases3)
    have live: "distinct (sv_connections ?s)" "\<forall>p \<in> set (sv_connections ?s). tp_heap ?P1 p \<noteq> None"
      "\<And>p. p \<in> set (sv_connections ?s) \<longleftrightarrow> tp_heap P p \<noteq> None"
      using I(2) by (simp_all add: live_conns_def conns_def)
    from make_room_pool [OF r live(1,2)] obtain w2 where R: "distinct ps" "set ps \<subseteq> set (sv_connections ?s)"
      "P2 = ?P1 \<lparr> tp_heap := (\<lambda>p. if p \<in> set (sv_connections ?s) - set ps then None else tp_heap ?P1 p), tp_world := w2 \<rparr>" by blast
    define P3 where "P3 w = P2 \<lparr> tp_server := (tp_server P2) \<lparr> sv_connections := ps \<rparr>, tp_world := w \<rparr>" for w
    have same3: "owned (P3 w) = owned ?P1" "main_fds (P3 w) = main_fds ?P1" "tp_fresh (P3 w) = tp_fresh ?P1" "conns (P3 w) = ps" for w
      by (simp_all add: P3_def R(3) owned_def held_def main_fds_def conns_def)
    have heap3: "tp_heap (P3 w) p = (if p \<in> set ps then tp_heap P p else None)" for w p
      using live(3) [of p] R(2) by (auto simp: P3_def R(3))
    have C: "distinct (conns (P3 w))" "set (conns (P3 w)) \<subseteq> set (conns ?P1)"
      "\<And>p. tp_heap (P3 w) p = (if p \<in> set (conns (P3 w)) then tp_heap ?P1 p else None)" for w
      unfolding same3(4) heap3 same1(2) using R(1,2) by (auto simp: conns_def)
    have mo: "main_owns (conns (P3 w)) inFd outFd maxFd ?P1" for w
      using P1(4) C(2) [of w] unfolding main_owns_def by blast
    have P3: "inactive_owned (P3 w)" "live_conns (P3 w)" "fds_differ (P3 w)" "main_owns (conns (P3 w)) inFd outFd maxFd (P3 w)" for w
      using removed(1-3) [OF P1(1-3) same3(1-3) C] removed(4) [OF P1(1-3) same3(1-3) C mo] by blast+
    show ?thesis
    proof (cases room)
      case False
      with \<open>\<not> fd < 0\<close> have acc: "tp_accept os cl P = P3 (sys_close os fd (tp_world P2))"
        by (simp add: tp_accept_def a r Let_def P3_def)
      show ?thesis unfolding acc by (rule at_signal [OF P3])
    next
      case True
      obtain c w3 where c: "sc_CreateConnection cl fd (tp_world P2) = (c, w3)" by fastforce
      let ?P4 = "(P3 w3) \<lparr> tp_server := (tp_server P2) \<lparr> sv_connections := ps @ [tp_fresh P2] \<rparr>,
        tp_heap := (tp_heap P2)(tp_fresh P2 \<mapsto> c), tp_fresh := Suc (tp_fresh P2) \<rparr>"
      have acc: "tp_accept os cl P = ?P4"
        using \<open>\<not> fd < 0\<close> True by (simp add: tp_accept_def a r c Let_def P3_def)
      have fr: "fd \<notin> set (main_fds P)" "\<And>p d. tp_heap P p = Some d \<Longrightarrow> conn_fd d \<noteq> fd"
        using assms(3) tp_conns_set [OF I(2)] by (auto simp: accept_fresh_def a)
      have fd: "conn_fd c = fd" by (rule created [OF c])
      have new: "conn_fd c \<notin> set (main_fds (P3 w3))" "conn_fd c \<notin> set inFd \<union> set outFd"
        "\<forall>p d. tp_heap (P3 w3) p = Some d \<longrightarrow> conn_fd d \<noteq> conn_fd c"
      proof -
        show "conn_fd c \<notin> set (main_fds (P3 w3))" unfolding same3(2) same1(3) fd by (rule fr(1))
        show "conn_fd c \<notin> set inFd \<union> set outFd"
        proof
          assume "conn_fd c \<in> set inFd \<union> set outFd"
          with M(2) fd fr(1) obtain p d where "tp_heap P p = Some d" "conn_fd d = fd" unfolding known_fds_def by blast
          with fr(2) show False by blast
        qed
        show "\<forall>p d. tp_heap (P3 w3) p = Some d \<longrightarrow> conn_fd d \<noteq> conn_fd c"
          using fr(2) unfolding heap3 fd by (auto split: if_splits)
      qed
      have S: "owned ?P4 = owned (P3 w3)" "main_fds ?P4 = main_fds (P3 w3)" "tp_fresh ?P4 = Suc (tp_fresh (P3 w3))"
        "conns ?P4 = conns (P3 w3) @ [tp_fresh (P3 w3)]" "tp_heap ?P4 = (tp_heap (P3 w3))(tp_fresh (P3 w3) \<mapsto> c)"
        by (simp_all add: P3_def owned_def held_def main_fds_def conns_def)
      note A = added [where P = "P3 w3" and c = c and P' = ?P4 and i = inFd and k = outFd and n = maxFd, OF P3 new S]
      show ?thesis unfolding acc by (rule at_signal [OF A])
    qed
  qed
qed

lemma fold_delete:
  assumes "distinct ps" "\<forall>p \<in> set ps. tp_heap P p \<noteq> None"
  shows "\<exists>w. fold (tp_delete os) ps P = P \<lparr> tp_heap := (\<lambda>p. if p \<in> set ps then None else tp_heap P p), tp_world := w \<rparr>"
  using assms
proof (induction ps arbitrary: P)
  case Nil
  have "P = P \<lparr> tp_heap := (\<lambda>p. if p \<in> set [] then None else tp_heap P p), tp_world := tp_world P \<rparr>" by simp
  then show ?case unfolding fold.simps id_apply by blast
next
  case (Cons p ps)
  then obtain c where "tp_heap P p = Some c" by auto
  from tp_delete_live [OF this] obtain w where
    d: "tp_delete os p P = P \<lparr> tp_heap := (tp_heap P)(p := None), tp_world := w \<rparr>" by blast
  have "\<forall>q \<in> set ps. tp_heap (tp_delete os p P) q \<noteq> None" using Cons.prems by (auto simp: d)
  with Cons obtain w' where f: "fold (tp_delete os) ps (tp_delete os p P) =
    (tp_delete os p P) \<lparr> tp_heap := (\<lambda>q. if q \<in> set ps then None else tp_heap (tp_delete os p P) q), tp_world := w' \<rparr>"
    by fastforce
  have h: "(\<lambda>q. if q \<in> set ps then None else tp_heap (tp_delete os p P) q) = (\<lambda>q. if q \<in> set (p # ps) then None else tp_heap P q)"
    by (auto simp: d fun_eq_iff)
  have "fold (tp_delete os) (p # ps) P = P \<lparr> tp_heap := (\<lambda>q. if q \<in> set (p # ps) then None else tp_heap P q), tp_world := w' \<rparr>"
    using f unfolding h by (simp add: d)
  then show ?case by blast
qed

text \<open>No connections are left.\<close>

lemma no_conns:
  assumes "distinct (owned P)" "\<forall>p \<in> set (owned P). p < tp_fresh P" "conns P = []" "\<forall>p. tp_heap P p = None" "tp_pc P = AtEnd"
  shows "pool_inv P"
  using assms by (simp add: pool_inv_def inactive_owned_def live_conns_def fds_differ_def main_inv_def)

lemma shutdown_inv:
  assumes "pool_inv P"
  shows "pool_inv (tp_shutdown os P)"
proof -
  note I = pool_invD [OF assms]
  have live: "distinct (conns P)" "\<forall>p \<in> set (conns P). tp_heap P p \<noteq> None" "\<And>p. p \<in> set (conns P) \<longleftrightarrow> tp_heap P p \<noteq> None"
    using I(2) by (simp_all add: live_conns_def)
  from fold_delete [OF live(1,2), of os] obtain w where
    f: "fold (tp_delete os) (conns P) P = P \<lparr> tp_heap := (\<lambda>p. if p \<in> set (conns P) then None else tp_heap P p), tp_world := w \<rparr>" by blast
  obtain sock w' where c: "Socket_Close os (sv_socket (tp_server P)) w = (sock, w')" by fastforce
  let ?s = "tp_server P"
  have S: "tp_shutdown os P = P \<lparr> tp_heap := (\<lambda>p. if p \<in> set (conns P) then None else tp_heap P p), tp_world := w', tp_workers := [],
      tp_server := ?s \<lparr> sv_connections := [], sv_socket := sock, sv_threadRunning := False \<rparr>, tp_pc := AtEnd \<rparr>"
    using f c by (simp add: tp_shutdown_def conns_def Let_def)
  show ?thesis
  proof (rule no_conns)
    have o: "owned (tp_shutdown os P) = tp_workQueue P" by (simp add: S owned_def held_def)
    show "distinct (owned (tp_shutdown os P))" "\<forall>p \<in> set (owned (tp_shutdown os P)). p < tp_fresh (tp_shutdown os P)"
      using I(1) unfolding o by (auto simp: S inactive_owned_def owned_def)
    show "\<forall>p. tp_heap (tp_shutdown os P) p = None" using live(3) by (auto simp: S)
  qed (simp_all add: S conns_def)
qed

lemma start_inv:
  assumes "pool_inv P"
  shows "pool_inv (tp_start P)"
proof -
  let ?P = "P \<lparr> tp_workers := replicate (tp_numThreads P) Waiting, tp_workerExit := False \<rparr>"
  have o: "owned ?P = tp_workQueue P" by (simp add: owned_def held_def)
  have "distinct (owned ?P)" "set (owned ?P) \<subseteq> set (owned P)"
    using pool_invD(1) [OF assms] unfolding o by (auto simp: owned_def inactive_owned_def)
  then have "pool_inv ?P" by (intro pool_inv_cong [OF assms]) simp_all
  then have "pool_inv (?P \<lparr> tp_pc := AtSelect \<rparr>)" by (rule main_inv_pc) (simp add: main_inv_def)
  then show ?thesis by (simp add: tp_start_def)
qed

section \<open>The workers keep the invariant\<close>

lemma mset_held: "mset (held P) = (\<Sum>x\<leftarrow>tp_workers P. mset (held_by x))"
proof -
  have "mset (concat (map held_by ws)) = (\<Sum>x\<leftarrow>ws. mset (held_by x))" for ws by (induction ws) simp_all
  then show ?thesis by (simp add: held_def)
qed

lemma mset_owned: "mset (owned P) = mset (tp_workQueue P) + mset (held P)"
  by (simp add: owned_def)

lemma held_update:
  assumes "i < length (tp_workers P)" "tp_workers P' = (tp_workers P)[i := x]"
  shows "mset (held P') + mset (held_by (tp_workers P ! i)) = mset (held P) + mset (held_by x)"
proof -
  let ?ws = "tp_workers P"
  have "(\<Sum>y\<leftarrow>?ws. mset (held_by y)) = (\<Sum>y\<leftarrow>take i ?ws. mset (held_by y)) + mset (held_by (?ws ! i)) +
      (\<Sum>y\<leftarrow>drop (Suc i) ?ws. mset (held_by y))"
    by (subst id_take_nth_drop [OF assms(1)]) simp
  moreover have "(\<Sum>y\<leftarrow>?ws[i := x]. mset (held_by y)) = (\<Sum>y\<leftarrow>take i ?ws. mset (held_by y)) + mset (held_by x) +
      (\<Sum>y\<leftarrow>drop (Suc i) ?ws. mset (held_by y))"
    by (subst upd_conv_take_nth_drop [OF assms(1)]) simp
  ultimately show ?thesis by (simp add: mset_held assms(2))
qed

lemma owned_le:
  assumes "mset (owned P') \<subseteq># mset (owned P)" "pool_inv P"
  shows "distinct (owned P')" "set (owned P') \<subseteq> set (owned P)"
proof -
  have d: "distinct (owned P)" using assms(2) unfolding pool_inv_def inactive_owned_def by blast
  obtain xs where "mset (owned P) = mset (owned P') + mset xs"
    using assms(1) by (metis subset_mset.add_diff_inverse ex_mset)
  then have "mset (owned P) = mset (owned P' @ xs)" by simp
  from mset_eq_imp_distinct_iff [OF this] d show "distinct (owned P')" by simp
  show "set (owned P') \<subseteq> set (owned P)" using set_mset_mono [OF assms(1)] by simp
qed

lemma pool_world:
  assumes "pool_inv P" "owned P' = owned P" "conns P' = conns P" "main_fds P' = main_fds P" "tp_fresh P' = tp_fresh P"
    "tp_pc P' = tp_pc P" "tp_heap P' = tp_heap P"
  shows "pool_inv P'"
  by (rule pool_inv_cong [OF assms(1)]) (use assms pool_invD(1) [OF assms(1)] in \<open>simp_all add: inactive_owned_def\<close>)

lemma pop_inv:
  assumes "pool_inv P" "i < length (tp_workers P)" "tp_workers P ! i = Waiting" "tp_workQueue P = p # ps"
  shows "pool_inv (worker_pop i p ps P)"
proof -
  let ?P = "worker_pop i p ps P"
  have m: "mset (owned ?P) = mset (owned P)"
    using held_update [OF assms(2), of ?P "Processing p"] assms(3,4) by (simp add: mset_owned worker_pop_def)
  show ?thesis
    by (rule pool_inv_cong [OF assms(1) _ _ _ _ owned_le [OF _ assms(1)]]) (simp_all add: m, auto simp: worker_pop_def)
qed

lemma exit_inv:
  assumes "pool_inv P" "i < length (tp_workers P)" "tp_workers P ! i = Waiting"
  shows "pool_inv (P \<lparr> tp_workers := (tp_workers P)[i := Ended] \<rparr>)"
proof -
  let ?P = "P \<lparr> tp_workers := (tp_workers P)[i := Ended] \<rparr>"
  have m: "mset (owned ?P) = mset (owned P)"
    using held_update [OF assms(2), of ?P Ended] assms(3) by (simp add: mset_owned)
  show ?thesis
    by (rule pool_inv_cong [OF assms(1) _ _ _ _ owned_le [OF _ assms(1)]]) (simp_all add: m)
qed

lemma process_inv:
  assumes "pool_inv P" "i < length (tp_workers P)" "tp_workers P ! i = Processing p" "worker_process os cl i p P = Some P'"
    and keeps: "\<And>e c m w r c' m' w'. Process os (sc_virtuals cl) e c m w = Some (r, c', m', w') \<Longrightarrow> same_owner c c'"
  shows "pool_inv P'"
proof (cases "tp_heap P p")
  case None
  with assms(4) have "P' = P \<lparr> tp_bad := True \<rparr>" by (simp add: worker_process_def)
  then show ?thesis by (simp add: pool_world [OF assms(1)] owned_def)
next
  case (Some c)
  with assms(4) obtain r c1 m1 w1 where g: "guarded_process os (sc_virtuals cl) True c (tp_manager P) (tp_world P) = Some (Inr r, c1, m1, w1)"
    by (auto simp: worker_process_def split: option.splits sum.splits)
  have so: "same_owner c c1" by (rule guarded_owner [OF keeps g])
  have P': "P' = P \<lparr> tp_heap := (tp_heap P)(p \<mapsto> c1), tp_manager := m1, tp_world := w1, tp_workers := (tp_workers P)[i := Returning p] \<rparr>"
    using assms(4) by (simp add: worker_process_def Some g)
  have m: "mset (owned P') = mset (owned P)"
    using held_update [OF assms(2), of P' "Returning p"] assms(3) by (simp add: mset_owned P')
  have h: "tp_heap P' = (tp_heap P)(p \<mapsto> c1)" by (simp add: P')
  show ?thesis
  proof (rule pool_inv_cong [OF assms(1) _ _ _ _ owned_le [OF _ assms(1)]])
    show "\<exists>c. tp_heap P q = Some c \<and> conn_fd c' = conn_fd c \<and> (q \<in> set (owned P') \<longrightarrow> c_active c' = c_active c)"
      if "tp_heap P' q = Some c'" for q c'
      using that so Some by (cases "q = p") (auto simp: h same_owner_def)
    show "tp_heap P' q \<noteq> None" if "tp_heap P q \<noteq> None" for q using that by (simp add: h)
  qed (simp_all add: m, simp_all add: P')
qed

lemma return_inv:
  assumes "pool_inv P" "i < length (tp_workers P)" "tp_workers P ! i = Returning p"
  shows "pool_inv (worker_return os i p P)"
proof (cases "tp_heap P p")
  case None
  then show ?thesis by (simp add: worker_return_def pool_world [OF assms(1)] owned_def)
next
  case (Some c)
  obtain x y w where send: "UdpSocket_Send os [0] (lit ''127.0.0.1'') (sv_port (tp_server P)) Socket_new (tp_world P) = (x, y, w)"
    by (rule prod_cases3)
  define P' where "P' = P \<lparr> tp_heap := (tp_heap P)(p \<mapsto> SetActive True c), tp_world := w, tp_workers := (tp_workers P)[i := Waiting] \<rparr>"
  have ret: "worker_return os i p P = P'"
    unfolding worker_return_def Some option.case send P'_def prod.case Let_def by (rule refl)
  note P' = P'_def
  have m: "add_mset p (mset (owned P')) = mset (owned P)"
    using held_update [OF assms(2), of P' Waiting] assms(3) by (simp add: mset_owned P')
  have le: "mset (owned P') \<subseteq># mset (owned P)" unfolding m [symmetric] by simp
  have d: "distinct (owned P)" using assms(1) unfolding pool_inv_def inactive_owned_def by blast
  have po: "p \<notin> set (owned P')" using mset_eq_imp_distinct_iff [of "p # owned P'" "owned P"] m d by simp
  have h: "tp_heap P' = (tp_heap P)(p \<mapsto> SetActive True c)" by (simp add: P')
  have "pool_inv P'"
  proof (rule pool_inv_cong [OF assms(1) _ _ _ _ owned_le [OF le assms(1)]])
    show "\<exists>c. tp_heap P q = Some c \<and> conn_fd c' = conn_fd c \<and> (q \<in> set (owned P') \<longrightarrow> c_active c' = c_active c)"
      if "tp_heap P' q = Some c'" for q c'
      using that po Some by (cases "q = p") (auto simp: h SetActive_def conn_fd_def)
    show "tp_heap P' q \<noteq> None" if "tp_heap P q \<noteq> None" for q using that by (simp add: h)
  qed (simp_all add: P')
  then show ?thesis unfolding ret .
qed

end
