(* ===== verification/AnyRpc_PoolSafety.thy ===== *)
theory AnyRpc_PoolSafety
  imports AnyRpc_ThreadPool
begin

text \<open>
  The contract between \<^verbatim>\<open>ServerTP\<close> and the classes of connections (server.h, connection.h): a connection
  keeps its descriptor, and it leaves to the server whether it is active. The contract is given by the
  HTTP and the netstring connections. Under it the invariant holds in every state of the server.
\<close>

section \<open>The contract\<close>

lemma same_owner_refl [simp]: "same_owner c c"
  by (simp add: same_owner_def)

lemma same_owner_trans: "same_owner a b \<Longrightarrow> same_owner b c \<Longrightarrow> same_owner a c"
  by (simp add: same_owner_def)

lemma same_ownerI: "s_fd (c_socket c') = s_fd (c_socket c) \<Longrightarrow> c_active c' = c_active c \<Longrightarrow> same_owner c c'"
  by (simp add: same_owner_def conn_fd_def)

lemma SetCloseState_owner [simp]: "same_owner c (SetCloseState c)"
  by (simp add: same_owner_def conn_fd_def SetCloseState_def)

subsection \<open>The socket keeps its descriptor\<close>

lemma send_loop_fd: "send_loop os buffer timeout t n s w = Some r \<Longrightarrow> s_fd (fst (snd r)) = s_fd s"
proof (induction rule: send_loop.raw_induct [rotated 1, consumes 1, case_names 1])
  case (1 loop os buffer timeout t n s w r)
  obtain k w1 where k: "sys_send os (s_fd s) (drop n buffer) w = (k, w1)" by fastforce
  let ?n = "n + (case k of None \<Rightarrow> 0 | Some k \<Rightarrow> k)"
  obtain u w2 where u: "sys_gettimeofday os w1 = (u, w2)" by fastforce
  obtain b w3 where b: "WaitWritable os (timeout - MilliTimeDiff u t) (SetLastError os w1 s) w2 = (b, w3)" by fastforce
  show ?case using 1(2) 1(1) [of os buffer timeout t ?n "SetLastError os w1 s" w3 r]
    by (auto simp: k u b Let_def split: if_splits)
qed

lemma receive_loop_fd: "receive_loop os n timeout t buf s w = Some r \<Longrightarrow> s_fd (fst (snd r)) = s_fd s"
proof (induction rule: receive_loop.raw_induct [rotated 1, consumes 1, case_names 1])
  case (1 loop os n timeout t buf s w r)
  obtain k w1 where k: "sys_recv os (s_fd s) (n - length buf) w = (k, w1)" by fastforce
  let ?buf = "buf @ (case k of None \<Rightarrow> [] | Some xs \<Rightarrow> xs)"
  obtain u w2 where u: "sys_gettimeofday os w1 = (u, w2)" by fastforce
  obtain b w3 where b: "WaitReadable os (timeout - MilliTimeDiff u t) (SetLastError os w1 s) w2 = (b, w3)" by fastforce
  show ?case using 1(2) 1(1) [of os n timeout t ?buf "SetLastError os w1 s" w3 r]
    by (auto simp: k u b Let_def split: if_splits)
qed

lemma Send_fd: "Send os buffer timeout s w = Some (x, s', w') \<Longrightarrow> s_fd s' = s_fd s"
  by (auto simp: Send_def dest: send_loop_fd split: prod.splits)

lemma Receive_fd: "Receive os n timeout s w = Some (x, s', w') \<Longrightarrow> s_fd s' = s_fd s"
  by (auto simp: Receive_def dest: receive_loop_fd split: prod.splits)

subsection \<open>The shared operations\<close>

lemma store_request_owner: "store_request i xs c = Some c' \<Longrightarrow> same_owner c c'"
  by (auto simp: store_request_def same_owner_def conn_fd_def split: request_ptr.splits option.splits)

lemma keep_buffer_owner: "same_owner c (keep_buffer b c)"
  by (simp add: keep_buffer_def same_owner_def conn_fd_def Let_def)

lemma Connection_Initialize_owner: "same_owner c (Connection_Initialize b c)"
  using keep_buffer_owner [of c b] by (simp add: Connection_Initialize_def same_owner_def conn_fd_def Let_def)

lemma place_request_owner: "place_request os z n c w = (Some c', w') \<Longrightarrow> same_owner c c'"
  by (auto simp: place_request_def same_owner_def conn_fd_def Let_def split: if_splits option.splits prod.splits)

lemma receive_buffer_owner:
  assumes "receive_buffer os ini c w = Some (r, c', w')" "\<And>b c. same_owner c (ini b c)"
  shows "same_owner c c'"
proof -
  obtain ok data eof s w1 where rcv: "Receive os (MaxBufferLength - c_bufferLength c) (- 1) (c_socket c) w = Some ((ok, data, eof), s, w1)"
    using assms(1) by (auto simp: receive_buffer_def split: option.splits)
  have c1: "same_owner c (c \<lparr> c_socket := s, c_buffer := mem \<rparr>)"
    "same_owner c (c \<lparr> c_socket := s, c_buffer := mem, c_bufferLength := n \<rparr>)" for mem n
    using Receive_fd [OF rcv] by (simp_all add: same_owner_def conn_fd_def)
  then show ?thesis using assms
    by (auto simp: receive_buffer_def rcv Let_def split: option.splits if_splits intro: same_owner_trans)
qed

lemma write_header_owner: "write_header os c w = Some r \<Longrightarrow> same_owner c (fst (snd r))"
proof (induction rule: write_header.raw_induct [rotated 1, consumes 1, case_names 1])
  case (1 loop os c w r)
  show ?case
  proof (cases "c_headerBytesWritten c < wss_length (c_header c)")
    case False
    with 1(2) show ?thesis by auto
  next
    case True
    let ?b = "segment_at (c_header c) (c_resultBytesWritten c)"
    obtain ok n s w1 where snd: "Send os ?b (- 1) (c_socket c) w = Some ((ok, n), s, w1)"
      using 1(2) True by (auto simp: Let_def split: option.splits)
    let ?c2 = "c \<lparr> c_socket := s, c_headerBytesWritten := c_headerBytesWritten c + n \<rparr>"
    have o: "same_owner c (c \<lparr> c_socket := s \<rparr>)" "same_owner c ?c2"
      using Send_fd [OF snd] by (simp_all add: same_owner_def conn_fd_def)
    show ?thesis using 1(2) 1(1) [of os ?c2 w1 r] o True same_owner_trans [OF o(2)]
      by (auto simp: Let_def snd split: if_splits)
  qed
qed

lemma write_body_owner: "write_body os c w = Some r \<Longrightarrow> same_owner c (fst (snd r))"
proof (induction rule: write_body.raw_induct [rotated 1, consumes 1, case_names 1])
  case (1 loop os c w r)
  show ?case
  proof (cases "c_resultBytesWritten c < wss_length (c_response c)")
    case False
    with 1(2) show ?thesis by auto
  next
    case True
    let ?b = "segment_at (c_response c) (c_resultBytesWritten c)"
    obtain ok n s w1 where snd: "Send os ?b (- 1) (c_socket c) w = Some ((ok, n), s, w1)"
      using 1(2) True by (auto simp: Let_def split: option.splits)
    let ?c2 = "c \<lparr> c_socket := s, c_resultBytesWritten := c_resultBytesWritten c + n \<rparr>"
    have o: "same_owner c (c \<lparr> c_socket := s \<rparr>)" "same_owner c ?c2"
      using Send_fd [OF snd] by (simp_all add: same_owner_def conn_fd_def)
    show ?thesis using 1(2) 1(1) [of os ?c2 w1 r] o True same_owner_trans [OF o(2)]
      by (auto simp: Let_def snd split: if_splits)
  qed
qed

section \<open>Process\<close>

text \<open>The virtual functions of a connection leave the owner alone; so does \<^verbatim>\<open>Process\<close>.\<close>

locale owned_virtuals =
  fixes os :: "'w os" and v :: "('a Connection_scheme, 'm, 'w) connection_virtuals"
  assumes Initialize_keeps: "same_owner c (v_Initialize v b c)"
    and ReadHeader_keeps: "v_ReadHeader v c w = Some (r, c', w') \<Longrightarrow> same_owner c c'"
    and Execute_keeps: "v_ExecuteRequest v c m w = Some (x, c', m', w') \<Longrightarrow> same_owner c c'"
begin

lemma ReadRequest_keeps:
  assumes "ReadRequest os v c w = Some (r, c', w')"
  shows "same_owner c c'"
proof -
  have complete: "same_owner d d'" if "request_complete d w = Some (r, d', w')" for d d' w r w'
    using that store_request_owner [of "c_contentAvail d" "[0]" d]
    by (auto simp: request_complete_def same_owner_def conn_fd_def split: option.splits)
  show ?thesis
  proof (cases "c_contentAvail c < c_contentLength c")
    case False
    with assms complete show ?thesis by (simp add: ReadRequest_def)
  next
    case True
    then obtain ok data eof s w1 where rcv: "Receive os (c_contentLength c - c_contentAvail c) (- 1) (c_socket c) w = Some ((ok, data, eof), s, w1)"
      using assms by (auto simp: ReadRequest_def split: option.splits)
    show ?thesis
    proof (cases "store_request (c_contentAvail c) (stored data) (c \<lparr> c_socket := s \<rparr>)")
      case None
      with assms True rcv show ?thesis by (simp add: ReadRequest_def)
    next
      case (Some c1)
      have o1: "same_owner c c1" using store_request_owner [OF Some] Receive_fd [OF rcv] by (simp add: same_owner_def conn_fd_def)
      let ?c2 = "c1 \<lparr> c_contentAvail := c_contentAvail c1 + length data \<rparr>"
      have o2: "same_owner c ?c2" using o1 by (simp add: same_owner_def conn_fd_def)
      show ?thesis using assms True o2 same_owner_trans [OF o1 Initialize_keeps] same_owner_trans [OF o2 Initialize_keeps]
          same_owner_trans [OF o2 complete [of ?c2 w1 r c' w']]
        by (auto simp: ReadRequest_def rcv Some Let_def split: if_splits)
    qed
  qed
qed

lemma WriteResponse_keeps:
  assumes "WriteResponse os v c w = Some (r, c', w')"
  shows "same_owner c c'"
proof -
  obtain now w0 where t: "sys_time os w = (now, w0)" by fastforce
  let ?c0 = "c \<lparr> c_lastTransactionTime := now \<rparr>"
  obtain x1 c1 w1 where h: "write_header os ?c0 w0 = Some (x1, c1, w1)"
    using assms by (auto simp: WriteResponse_def t split: option.splits)
  have o1: "same_owner c c1" using write_header_owner [OF h] by (simp add: same_owner_def conn_fd_def)
  show ?thesis
  proof (cases x1)
    case WriteDone
    with assms obtain x2 c2 w2 where b: "write_body os c1 w1 = Some (x2, c2, w2)"
      by (auto simp: WriteResponse_def t h split: option.splits)
    have o2: "same_owner c c2" using same_owner_trans [OF o1] write_body_owner [OF b] by simp
    then have "same_owner c (c2 \<lparr> c_state := READ_HEADER \<rparr>)" by (simp add: same_owner_def conn_fd_def)
    from same_owner_trans [OF this Initialize_keeps] o2 same_owner_trans [OF o2 Initialize_keeps] assms WriteDone show ?thesis
      by (cases x2) (auto simp: WriteResponse_def t h b Let_def)
  next
    case WriteWait
    with assms o1 show ?thesis by (simp add: WriteResponse_def t h)
  next
    case WriteFailed
    with assms same_owner_trans [OF o1 Initialize_keeps] show ?thesis by (auto simp: WriteResponse_def t h)
  qed
qed

lemma read_phases_keeps:
  assumes "read_phases os v c w = Some (r, c', w')"
  shows "same_owner c c'"
proof -
  obtain r1 c1 w1 where h: "(if c_state c = READ_HEADER then v_ReadHeader v c w else Some (Inr True, c, w)) = Some (r1, c1, w1)"
    using assms unfolding read_phases_def by (auto split: option.splits)
  have o1: "same_owner c c1" using h ReadHeader_keeps by (auto split: if_splits)
  show ?thesis
  proof (cases "r1 = Inr True")
    case False
    with assms o1 same_owner_trans [OF o1 SetCloseState_owner] show ?thesis unfolding read_phases_def h
      by (auto split: sum.splits bool.splits)
  next
    case True
    then obtain r2 c2 w2 where q: "(if c_state c1 = READ_REQUEST then ReadRequest os v c1 w1 else Some (Inr True, c1, w1)) = Some (r2, c2, w2)"
      using assms unfolding read_phases_def h by (auto split: option.splits)
    have o2: "same_owner c c2" using q o1 same_owner_trans [OF o1 ReadRequest_keeps] by (auto split: if_splits)
    from assms True o2 same_owner_trans [OF o2 SetCloseState_owner] show ?thesis unfolding read_phases_def h
      by (auto simp: q split: sum.splits bool.splits)
  qed
qed

lemma write_phase_keeps:
  assumes "write_phase os v b c m w = Some (r, c', m', w')"
  shows "same_owner c c'"
  using assms same_owner_trans [OF WriteResponse_keeps SetCloseState_owner] WriteResponse_keeps
  by (auto simp: write_phase_def split: if_splits option.splits bool.splits)

lemma pass_keeps:
  assumes "Process_pass os v e c m w = Some (r, c', m', w')"
  shows "same_owner c c'"
proof -
  obtain r1 c1 w1 where h: "read_phases os v c w = Some (r1, c1, w1)"
    using assms unfolding Process_pass_def by (auto split: option.splits)
  note o1 = read_phases_keeps [OF h]
  show ?thesis
  proof (cases "r1 = Inr True \<and> e \<and> c_state c1 = EXECUTE_REQUEST")
    case False
    with assms o1 same_owner_trans [OF o1 write_phase_keeps] show ?thesis unfolding Process_pass_def h
      by (auto split: sum.splits bool.splits)
  next
    case True
    then obtain r2 c2 m2 w2 where x: "v_ExecuteRequest v c1 m w1 = Some (r2, c2, m2, w2)"
      using assms unfolding Process_pass_def h by (auto split: option.splits)
    note o2 = same_owner_trans [OF o1 Execute_keeps [OF x]]
    from assms True o2 same_owner_trans [OF o2 SetCloseState_owner] same_owner_trans [OF o2 write_phase_keeps] show ?thesis
      unfolding Process_pass_def h by (auto simp: x split: sum.splits bool.splits)
  qed
qed

lemma Process_keeps_result:
  assumes "Process os v e c m w = Some r"
  shows "same_owner c (fst (snd r))"
proof -
  have "same_owner c (fst (snd r))" if "Process os' v' e c m w = Some r" "os' = os" "v' = v" for os' v' e c m w r
    using that
  proof (induction rule: Process.raw_induct [rotated 1, consumes 1, case_names 1])
    case (1 loop os' v' e c m w r)
    from 1(2) obtain x c1 m1 w1 where p: "Process_pass os v e c m w = Some (x, c1, m1, w1)"
      by (auto simp: 1(3,4) split: option.splits)
    note o1 = pass_keeps [OF p]
    show ?case using 1(2) o1 same_owner_trans [OF o1 1(1) [of os' v' e c1 m1 w1 r]] 1(3,4)
      by (auto simp: p split: sum.splits if_splits)
  qed
  then show ?thesis using assms by blast
qed

lemma Process_keeps: "Process os v e c m w = Some (r, c', m', w') \<Longrightarrow> same_owner c c'"
  using Process_keeps_result by fastforce

end

section \<open>The server\<close>

locale connection_class = owned_virtuals os "sc_virtuals cl"
  for os :: "'w os" and cl :: "('a Connection_scheme, 'm, 'w) server_class" +
  assumes created: "sc_CreateConnection cl fd w = (c, w') \<Longrightarrow> conn_fd c = fd"
begin

lemma step_keeps:
  assumes "tp_step os cl P P'" "pool_inv P" "select_reports os"
  shows "pool_inv P'"
  using assms(1)
proof (cases rule: tp_step.cases)
  case step_start
  with assms(2) show ?thesis by (simp add: start_inv)
next
  case (step_select startTime)
  with assms(2,3) show ?thesis by (simp add: select_inv)
next
  case step_stop
  have Q: "pool_inv (P \<lparr> tp_workerExit := True \<rparr>)" by (rule pool_world [OF assms(2)]) (simp_all add: owned_def)
  show ?thesis unfolding step_stop(1) by (rule main_inv_pc [OF Q]) (simp add: main_inv_def)
next
  case (step_accept inFd outFd maxFd)
  show ?thesis unfolding step_accept(1) by (rule accept_inv [OF assms(2) step_accept(2,3) created])
next
  case (step_no_accept inFd outFd maxFd)
  note I = pool_invD [OF assms(2)]
  from I(4) step_no_accept(2) have "main_owns (conns P) inFd outFd maxFd P" by (simp add: main_inv_def)
  from at_signal [OF I(1-3) this] show ?thesis by (simp add: step_no_accept(1))
next
  case (step_signal inFd outFd maxFd)
  show ?thesis unfolding step_signal(1) using signal_inv [OF assms(2) step_signal(2)] by (simp add: conns_def)
next
  case (step_event p ps inFd outFd maxFd Q)
  show ?thesis unfolding step_event(1) by (rule event_core [OF assms(2) step_event(2,3) Process_keeps])
next
  case (step_round inFd outFd maxFd)
  show ?thesis unfolding step_round(1) by (rule main_inv_pc [OF assms(2)]) (simp add: main_inv_def)
next
  case step_shutdown
  with assms(2) show ?thesis by (simp add: shutdown_inv)
next
  case (step_pop i p ps)
  show ?thesis unfolding step_pop(1) by (rule pop_inv [OF assms(2) step_pop(2,3,5)])
next
  case (step_exit i)
  show ?thesis unfolding step_exit(1) by (rule exit_inv [OF assms(2) step_exit(2,3)])
next
  case (step_process i p)
  show ?thesis by (rule process_inv [OF assms(2) step_process Process_keeps])
next
  case (step_return i p)
  show ?thesis unfolding step_return(1) by (rule return_inv [OF assms(2) step_return(2,3)])
next
  case (step_world m w)
  show ?thesis unfolding step_world by (rule pool_world [OF assms(2)]) (simp_all add: owned_def)
qed

lemma reach_inv:
  assumes "tp_reach os cl n P" "select_reports os"
  shows "pool_inv P"
  using assms(1)
proof (induction rule: tp_reach.induct)
  case (pool_init port backlog m w ok P)
  have "tp_workQueue P = [] \<and> tp_workers P = [] \<and> conns P = [] \<and> tp_heap P = (\<lambda>_. None) \<and> tp_pc P = AtEnd"
    using pool_init by (auto simp: TP_BindAndListen_def ServerTP_new_def Server_new_def BindAndListen_def conns_def Let_def
      split: prod.splits if_splits)
  then show ?case by (intro no_conns) (simp_all add: owned_def held_def)
next
  case (pool_step P P')
  show ?case by (rule step_keeps [OF pool_step(2,3) assms(2)])
qed

end

section \<open>The classes of connections\<close>

text \<open>\<^verbatim>\<open>CreateConnection\<close> of the JSON and the MessagePack servers; the handler is theirs.\<close>

definition TcpServer_class :: "'w os \<Rightarrow> ('m, 'w) rpc_handler \<Rightarrow> bytes \<Rightarrow> (TcpConnection, 'm, 'w) server_class" where
  "TcpServer_class os handler memory =
     \<lparr> sc_CreateConnection = TcpConnection_new os memory, sc_virtuals = tcp_connection os handler,
       sc_ForcedDisconnectAllowed = Tcp_ForcedDisconnectAllowed \<rparr>"

lemma Connection_new_fd: "Connection_new os memory fd w = (c, w') \<Longrightarrow> s_fd (c_socket c) = fd"
  by (auto simp: Connection_new_def SetFileDescriptor_def split: prod.splits)

lemma HttpConnection_Initialize_owner: "same_owner c (HttpConnection_Initialize b c)"
  using Connection_Initialize_owner [of c b] by (simp add: HttpConnection_Initialize_def same_owner_def conn_fd_def Let_def)

lemma Http_ReadHeader_owner:
  assumes "Http_ReadHeader os c w = Some (r, c', w')"
  shows "same_owner c c'"
proof -
  obtain r1 c1 w1 where rb: "receive_buffer os HttpConnection_Initialize c w = Some (r1, c1, w1)"
    using assms by (auto simp: Http_ReadHeader_def split: option.splits)
  note o1 = receive_buffer_owner [OF rb HttpConnection_Initialize_owner]
  show ?thesis
  proof (cases "\<exists>eof. r1 = Inr (True, eof)")
    case False
    with assms o1 show ?thesis unfolding Http_ReadHeader_def rb by (auto split: sum.splits bool.splits)
  next
    case True
    then obtain eof where r1: "r1 = Inr (True, eof)" by blast
    obtain x h where p: "ProcessHeaderData HttpRequest_virtuals (take (c_bufferLength c1) (c_buffer c1)) eof (c_httpRequestState c1) = (x, h)"
      by fastforce
    let ?c2 = "c1 \<lparr> c_httpRequestState := h, c_contentLength := size_of_int (GetContentLength h),
                             c_contentAvail := c_bufferLength c1 - GetBodyStartPos h, c_keepAlive := GetKeepAlive h \<rparr>"
    have o2: "same_owner c (c1 \<lparr> c_httpRequestState := h \<rparr>)" "same_owner c ?c2"
      using o1 by (simp_all add: same_owner_def conn_fd_def)
    note t = same_owner_trans [OF o2(1) HttpConnection_Initialize_owner] same_owner_trans [OF o2(2) HttpConnection_Initialize_owner]
    show ?thesis
    proof (cases "x = HEADER_COMPLETE \<and> \<not> c_contentLength ?c2 > MaxContentLength")
      case False
      with assms o2 t show ?thesis by (cases x) (auto simp: Http_ReadHeader_def rb r1 p Let_def)
    next
      case True
      obtain c3 w2 where pl: "place_request os True (GetBodyStartPos h) ?c2 w1 = (c3, w2)" by fastforce
      show ?thesis
      proof (cases c3)
        case None
        with True assms t show ?thesis by (auto simp: Http_ReadHeader_def rb r1 p pl Let_def)
      next
        case (Some c4)
        with pl have "place_request os True (GetBodyStartPos h) ?c2 w1 = (Some c4, w2)" by simp
        from same_owner_trans [OF o2(2) place_request_owner [OF this]] have "same_owner c (c4 \<lparr> c_state := READ_REQUEST \<rparr>)"
          by (simp add: same_owner_def conn_fd_def)
        with True Some assms show ?thesis by (auto simp: Http_ReadHeader_def rb r1 p pl Let_def)
      qed
    qed
  qed
qed

lemma Http_Execute_owner:
  assumes "Http_ExecuteRequest version c mh w = Some (r, c', mh', w')"
  shows "same_owner c c'"
proof -
  have "conn_fd (HttpConnection_Initialize b c) = conn_fd c" "c_active (HttpConnection_Initialize b c) = c_active c" for b
    using HttpConnection_Initialize_owner [of c b] by (simp_all add: same_owner_def)
  with assms show ?thesis unfolding same_owner_def
    by (auto simp: Http_ExecuteRequest_def Let_def GeneratePOSTResponseHeader_def GenerateOPTIONSResponseHeader_def
        GenerateErrorResponseHeader_def conn_fd_def split: prod.splits if_splits option.splits sum.splits)
qed

interpretation http_class: connection_class os "AnyHttpServer_class os version memory"
proof unfold_locales
  fix c :: HttpConnection and b
  show "same_owner c (v_Initialize (sc_virtuals (AnyHttpServer_class os version memory)) b c)"
    by (simp add: AnyHttpServer_class_def http_connection_def HttpConnection_Initialize_owner)
next
  fix c :: HttpConnection and w r c' w'
  assume "v_ReadHeader (sc_virtuals (AnyHttpServer_class os version memory)) c w = Some (r, c', w')"
  then show "same_owner c c'" by (simp add: AnyHttpServer_class_def http_connection_def Http_ReadHeader_owner)
next
  fix c :: HttpConnection and m w x c' m' w'
  assume "v_ExecuteRequest (sc_virtuals (AnyHttpServer_class os version memory)) c m w = Some (x, c', m', w')"
  then show "same_owner c c'" by (simp add: AnyHttpServer_class_def http_connection_def Http_Execute_owner)
next
  fix fd w and c :: HttpConnection and w'
  assume "sc_CreateConnection (AnyHttpServer_class os version memory) fd w = (c, w')"
  then show "conn_fd c = fd"
    by (auto simp: AnyHttpServer_class_def HttpConnection_new_def conn_fd_def Connection.defs dest: Connection_new_fd split: prod.splits)
qed

lemma Tcp_ReadHeader_owner:
  assumes "Tcp_ReadHeader os c w = Some (r, c', w')"
  shows "same_owner c c'"
proof -
  obtain r1 c1 w1 where rb: "receive_buffer os Connection_Initialize c w = Some (r1, c1, w1)"
    using assms by (auto simp: Tcp_ReadHeader_def split: option.splits)
  note o1 = receive_buffer_owner [OF rb Connection_Initialize_owner]
  note t1 = same_owner_trans [OF o1 Connection_Initialize_owner]
  show ?thesis
  proof (cases "\<exists>eof i. r1 = Inr (True, eof) \<and> FindChar (take (c_bufferLength c1) (c_buffer c1)) 0x3A = Some i")
    case False
    with assms o1 t1 show ?thesis unfolding Tcp_ReadHeader_def rb
      by (auto split: sum.splits bool.splits option.splits if_splits)
  next
    case True
    then obtain eof i where r1: "r1 = Inr (True, eof)" and i: "FindChar (take (c_bufferLength c1) (c_buffer c1)) 0x3A = Some i" by blast
    have o2: "same_owner c (c1 \<lparr> c_contentLength := a, c_contentAvail := b \<rparr>)" for a b
      using o1 by (simp add: same_owner_def conn_fd_def)
    note t2 = same_owner_trans [OF o2 Connection_Initialize_owner] and o3 = same_owner_trans [OF o2 place_request_owner]
    have o4: "same_owner c (c5 \<lparr> c_commaExpected := True, c_keepAlive := True, c_state := READ_REQUEST \<rparr>)"
      if "same_owner c c4" "store_request (c_contentAvail c4) [0] c4 = Some c5" for c4 c5
      using same_owner_trans [OF that(1) store_request_owner [OF that(2)]] by (simp add: same_owner_def conn_fd_def)
    show ?thesis using assms t1 t2
      by (auto simp: Tcp_ReadHeader_def rb r1 i Let_def split: if_splits option.splits prod.splits dest: o3 intro: o4)
  qed
qed

lemma Tcp_Execute_owner: "Tcp_ExecuteRequest handler c m w = Some (r, c', m', w') \<Longrightarrow> same_owner c c'"
  using Connection_Initialize_owner [of "c \<lparr> c_response := s, c_state := READ_HEADER \<rparr>" True for s]
  by (auto simp: Tcp_ExecuteRequest_def Let_def same_owner_def conn_fd_def split: prod.splits if_splits option.splits sum.splits)

interpretation tcp_class: connection_class os "TcpServer_class os handler memory"
proof unfold_locales
  fix c :: TcpConnection and b
  show "same_owner c (v_Initialize (sc_virtuals (TcpServer_class os handler memory)) b c)"
    by (simp add: TcpServer_class_def tcp_connection_def Connection_Initialize_owner)
next
  fix c :: TcpConnection and w r c' w'
  assume "v_ReadHeader (sc_virtuals (TcpServer_class os handler memory)) c w = Some (r, c', w')"
  then show "same_owner c c'" by (simp add: TcpServer_class_def tcp_connection_def Tcp_ReadHeader_owner)
next
  fix c :: TcpConnection and m w x c' m' w'
  assume "v_ExecuteRequest (sc_virtuals (TcpServer_class os handler memory)) c m w = Some (x, c', m', w')"
  then show "same_owner c c'" by (simp add: TcpServer_class_def tcp_connection_def Tcp_Execute_owner)
next
  fix fd w and c :: TcpConnection and w'
  assume "sc_CreateConnection (TcpServer_class os handler memory) fd w = (c, w')"
  then show "conn_fd c = fd"
    by (auto simp: TcpServer_class_def TcpConnection_new_def conn_fd_def Connection.defs dest: Connection_new_fd split: prod.splits)
qed

section \<open>Who processes a connection\<close>

text \<open>
  A connection is in the queue of the workers or held by a worker at most once; when the main thread
  gets to a connection that \<^verbatim>\<open>select\<close> has reported, no worker has it. So no connection is processed
  by two threads.
\<close>

definition processed_alone :: "('a Connection_scheme, 'm, 'w) pool \<Rightarrow> bool" where
  "processed_alone P \<longleftrightarrow> distinct (tp_workQueue P @ held P) \<and>
     (\<forall>p ps inFd outFd maxFd c. tp_pc P = AtEvents (p # ps) inFd outFd maxFd \<longrightarrow> tp_heap P p = Some c
        \<longrightarrow> reported maxFd inFd outFd c \<longrightarrow> p \<notin> set (tp_workQueue P @ held P))"

lemma pool_exclusive:
  assumes "pool_inv P"
  shows "processed_alone P"
proof -
  note I = pool_invD [OF assms]
  have "distinct (tp_workQueue P @ held P)" using I(1) unfolding inactive_owned_def owned_def by blast
  moreover have "p \<notin> set (tp_workQueue P @ held P)"
    if "tp_pc P = AtEvents (p # ps) inFd outFd maxFd" "tp_heap P p = Some c" "reported maxFd inFd outFd c" for p ps inFd outFd maxFd c
    using I(4) that by (simp add: main_inv_def main_owns_def owned_def)
  ultimately show ?thesis by (simp add: processed_alone_def)
qed

end
