(* ===== verification/AnyRpc_PoolRun.thy ===== *)
theory AnyRpc_PoolRun
  imports AnyRpc_PoolSafety
begin

text \<open>
  A run of \<^verbatim>\<open>ServerTP\<close> with netstring connections: a client connects and sends "1:x"; when the answer is
  sent, it is gone. It shows a connection in the hands of a worker, and the use of a deleted connection:
  the main thread deletes every closed connection of its list (server.cpp:713), also one that a worker
  has closed and still holds. The worker then sets its flag (server.cpp:786).
\<close>

section \<open>The system and the connection\<close>

text \<open>
  The state of the system is what has still to arrive; \<open>select\<close> reports a connection as soon as there is
  one to wait for.
\<close>

definition run_os :: "bytes list os" where
  "run_os = \<lparr>
     sys_errno = (\<lambda>w. 32),
     sys_gettimeofday = (\<lambda>w. (\<lparr> tv_sec = 0, tv_usec = 0 \<rparr>, w)),
     sys_time = (\<lambda>w. (0, w)),
     sys_send = (\<lambda>fd xs w. (None, w)),
     sys_recv = (\<lambda>fd n w. case w of [] \<Rightarrow> (None, []) | x # xs \<Rightarrow> (Some (take n x), xs)),
     sys_sendto = (\<lambda>fd xs ip port w. (None, w)),
     sys_recvfrom = (\<lambda>fd n w. ((None, [], 0), w)),
     sys_select = (\<lambda>rs ws tv w. ((1, if 4 \<in> set rs then [4] else rs, ws), w)),
     sys_socket = (\<lambda>t w. (3, w)),
     sys_close = (\<lambda>fd w. w),
     sys_setsockopt = (\<lambda>fd opt x w. (0, w)),
     sys_nonblock = (\<lambda>fd w. (0, w)),
     sys_bind = (\<lambda>fd port addr w. (0, w)),
     sys_listen = (\<lambda>fd n w. (0, w)),
     sys_accept = (\<lambda>fd w. (if w = [] then - 1 else 4, w)),
     sys_connect = (\<lambda>fd ip port w. (0, w)),
     sys_so_error = (\<lambda>fd w. ((0, 0), w)),
     sys_sockname = (\<lambda>fd w. None),
     sys_peername = (\<lambda>fd w. None),
     sys_malloc = (\<lambda>n w. (Some (replicate n 0), w)) \<rparr>"

abbreviation run_class :: "(TcpConnection, unit, bytes list) server_class" where
  "run_class \<equiv> TcpServer_class run_os echo_handler example_memory"

lemmas run_simps = run_os_def timeout_of_def SetLastError_def TcpSocket_new_def Socket_new_def Socket.defs Connection.defs
  SetFileDescriptor_def Socket_Close_def SetNonBlocking_def SetTcpNoDelay_def

lemma run_clock [simp]: "sys_gettimeofday run_os w = (\<lparr> tv_sec = 0, tv_usec = 0 \<rparr>, w)" "sys_time run_os w = (0, w)"
  by (simp_all add: run_os_def)

definition run_connection :: TcpConnection where
  "run_connection = \<lparr> c_socket = \<lparr> s_fd = 4, s_err = 0, s_timeout = 0, s_connected = False \<rparr>,
     c_state = READ_HEADER, c_lastTransactionTime = 0, c_active = True, c_buffer = example_memory,
     c_bufferLength = 0, c_contentLength = 0, c_keepAlive = False, c_request = NoRequest, c_contentAvail = 0,
     c_requestAllocated = False, c_header = wss_new MaxBufferSize, c_headerBytesWritten = 0,
     c_response = wss_new MaxBufferSize, c_resultBytesWritten = 0, c_threadRunning = False, c_commaExpected = False \<rparr>"

lemma run_created: "TcpConnection_new run_os example_memory 4 w = (run_connection, w)"
  by (simp add: TcpConnection_new_def Connection_new_def run_connection_def run_simps)

lemma run_receive: "s_timeout s = 0 \<Longrightarrow> length x < n \<Longrightarrow> x \<noteq> [] \<Longrightarrow>
  Receive run_os n (- 1) s [x] = Some ((True, x, False), s \<lparr> s_err := EAGAIN \<rparr>, [])"
  by (simp add: Receive_def) (subst receive_loop.simps, auto simp: run_simps MilliTimeDiff_def to_int32_def)

lemma run_send: "x \<noteq> [] \<Longrightarrow> Send run_os x (- 1) s w = Some ((False, 0), s \<lparr> s_err := 32 \<rparr>, w)"
  by (simp add: Send_def) (subst send_loop.simps, auto simp: run_simps FatalError_def errno_defs)

definition run_read :: TcpConnection where
  "run_read = run_connection \<lparr> c_socket := \<lparr> s_fd = 4, s_err = EAGAIN, s_timeout = 0, s_connected = False \<rparr>,
     c_state := EXECUTE_REQUEST, c_buffer := [0x31, 0x3A, 0x78, 0] @ drop (Suc (Suc (Suc (Suc 0)))) example_memory, c_bufferLength := 3,
     c_contentLength := 1, c_keepAlive := True, c_request := InBuffer 2, c_contentAvail := 1, c_commaExpected := True \<rparr>"

lemma run_process1:
  "Process run_os (tcp_connection run_os echo_handler) False run_connection () [[0x31, 0x3A, 0x78]] =
     Some (Inr (), run_read, (), [])"
proof -
  have len: "length example_memory = 2049" by (simp add: example_memory_def)
  show ?thesis
    apply (subst Process.simps)
    apply (simp add: run_connection_def Process_pass_def read_phases_def Tcp_ReadHeader_def receive_buffer_def
        run_receive MaxBufferLength_def store_def stored_def len)
    apply (simp add: atoi_def Let_def atoi_sign_def is_space_def is_digit_def digit_val_def saturate64_def size_of_int_def
        MaxContentLength_def place_request_def MaxBufferLength_def store_request_def store_def len)
    apply (simp add: ReadRequest_def request_complete_def store_request_def store_def len)
    apply (simp add: write_phase_def run_read_def run_connection_def)
    done
qed

lemma run_process2:
  "\<exists>c. Process run_os (tcp_connection run_os echo_handler) True (SetActive False run_read) () [] = Some (Inr (), c, (), [])
    \<and> CheckClose c \<and> conn_fd c = 4"
proof -
  have len: "length example_memory = 2049" by (simp add: example_memory_def)
  show ?thesis
    apply (subst Process.simps)
    apply (simp add: run_read_def run_connection_def SetActive_def Process_pass_def read_phases_def)
    apply (simp add: Tcp_ExecuteRequest_def echo_handler_def request_memory_def)
    apply (simp add: put_lines_def wss_put_char_def wss_append_def wss_Clear_def wss_new_def BufferSegment_def
        StaticBufferSize_def MaxBufferSize_def size_pred_def wss_put.simps dec_nat.simps digit_def)
    apply (simp add: write_phase_def WriteResponse_def write_header.simps segment_at_def wss_GetBuffer_def run_send
        Let_def SetCloseState_def CheckClose_def wss_content_def conn_fd_def
        Connection_Initialize_def keep_buffer_def)
    done
qed


lemma run_guarded:
  "guarded_process run_os (sc_virtuals run_class) False run_connection () [[0x31, 0x3A, 0x78]] = Some (Inr (), run_read, (), [])"
  "\<exists>c. guarded_process run_os (sc_virtuals run_class) True (SetActive False run_read) () [] = Some (Inr (), c, (), [])
    \<and> CheckClose c \<and> conn_fd c = 4"
  using run_process2 by (auto simp: guarded_process_def TcpServer_class_def run_process1)

section \<open>The states and the steps\<close>

definition run_state ::
    "main_pc \<Rightarrow> nat list \<Rightarrow> (nat \<Rightarrow> TcpConnection option) \<Rightarrow> nat \<Rightarrow> nat list \<Rightarrow> worker list \<Rightarrow> bytes list \<Rightarrow>
      (TcpConnection, unit, bytes list) pool" where
  "run_state pc cs h n q ws w =
     \<lparr> tp_server = Server_new \<lparr> sv_port := 80, sv_connections := cs,
         sv_socket := \<lparr> s_fd = 3, s_err = 32, s_timeout = 0, s_connected = False \<rparr> \<rparr>,
       tp_signal = \<lparr> s_fd = 3, s_err = 32, s_timeout = 0 \<rparr>, tp_numThreads = 1, tp_workers = ws, tp_workQueue = q,
       tp_workerExit = False, tp_pc = pc, tp_heap = h, tp_fresh = n, tp_manager = (), tp_world = w, tp_bad = False \<rparr>"

abbreviation run_reach :: "(TcpConnection, unit, bytes list) pool \<Rightarrow> bool" where
  "run_reach \<equiv> tp_reach run_os run_class 1"

lemma run_state_simps [simp]:
  "tp_pc (run_state pc cs h n q ws w) = pc" "tp_heap (run_state pc cs h n q ws w) = h" "tp_fresh (run_state pc cs h n q ws w) = n"
  "tp_workQueue (run_state pc cs h n q ws w) = q" "tp_workers (run_state pc cs h n q ws w) = ws"
  "tp_world (run_state pc cs h n q ws w) = w" "tp_workerExit (run_state pc cs h n q ws w) = False"
  "tp_bad (run_state pc cs h n q ws w) = False" "s_fd (tp_signal (run_state pc cs h n q ws w)) = 3"
  "sv_connections (tp_server (run_state pc cs h n q ws w)) = cs" "s_fd (sv_socket (tp_server (run_state pc cs h n q ws w))) = 3"
  "main_fds (run_state pc cs h n q ws w) = [3, 3]" "tp_conns (run_state pc cs h n q ws w) = map (\<lambda>p. the (h p)) cs"
  "sv_maxConnections (tp_server (run_state pc cs h n q ws w)) = 8"
  by (simp_all add: run_state_def main_fds_def tp_conns_def Server_new_def)

lemma run_state_updates [simp]:
  "(run_state pc cs h n q ws w) \<lparr> tp_pc := pc' \<rparr> = run_state pc' cs h n q ws w"
  "(run_state pc cs h n q ws w) \<lparr> tp_world := w' \<rparr> = run_state pc cs h n q ws w'"
  "(run_state pc cs h n q ws w) \<lparr> tp_heap := h' \<rparr> = run_state pc cs h' n q ws w"
  "(run_state pc cs h n q ws w) \<lparr> tp_fresh := n' \<rparr> = run_state pc cs h n' q ws w"
  "(run_state pc cs h n q ws w) \<lparr> tp_workQueue := q' \<rparr> = run_state pc cs h n q' ws w"
  "(run_state pc cs h n q ws w) \<lparr> tp_workers := ws' \<rparr> = run_state pc cs h n q ws' w"
  "(run_state pc cs h n q ws w) \<lparr> tp_workerExit := False \<rparr> = run_state pc cs h n q ws w"
  "(run_state pc cs h n q ws w) \<lparr> tp_manager := m \<rparr> = run_state pc cs h n q ws w"
  "(run_state pc cs h n q ws w) \<lparr> tp_server := (tp_server (run_state pc' cs' h' n' q' ws' w')) \<lparr> sv_connections := ds \<rparr> \<rparr> = run_state pc ds h n q ws w"
  "(run_state pc cs h n q ws w) \<lparr> tp_server := tp_server (run_state pc' cs' h' n' q' ws' w') \<rparr> = run_state pc cs' h n q ws w"
  "tp_server ((run_state pc cs h n q ws w) \<lparr> tp_server := s \<rparr>) = s"
  by (simp_all add: run_state_def)

lemma run_accept [simp]: "Accept run_os (sv_socket (tp_server (run_state pc cs h n q ws w))) w' =
    (if w' = [] then - 1 else 4, sv_socket (tp_server (run_state pc cs h n q ws w)), w')"
  by (simp add: Accept_def run_simps run_state_def Server_new_def)

lemma run_server [simp]: "(tp_server (run_state pc cs h n q ws w)) \<lparr> sv_socket := sv_socket (tp_server (run_state pc cs h n q ws w)) \<rparr>
   = tp_server (run_state pc cs h n q ws w)"
  by (simp add: run_state_def)

lemma run_start: "run_reach (run_state AtEnd [] (\<lambda>_. None) 0 [] [] w)"
proof -
  have "TP_BindAndListen run_os 80 2 (ServerTP_new 1 () w) = (True, run_state AtEnd [] (\<lambda>_. None) 0 [] [] w)"
    by (simp add: TP_BindAndListen_def BindAndListen_def ServerTP_new_def Server_new_def run_state_def run_simps UdpSocket_Create_def
        TcpSocket_Create_def no_change_def Socket_Bind_def SetReuseAddress_def Listen_def)
  then show ?thesis by (rule pool_init)
qed

text \<open>The steps of the run.\<close>

lemma run_by: "run_reach P \<Longrightarrow> tp_step run_os run_class P P' \<Longrightarrow> P' = Q \<Longrightarrow> run_reach Q"
  using pool_step by metis

lemma run_started: "run_reach (run_state AtEnd cs h n q [] w) \<Longrightarrow> run_reach (run_state AtSelect cs h n q [Waiting] w)"
  by (erule run_by [OF _ step_start]) (simp_all add: tp_start_def, simp add: run_state_def)

lemma run_select:
  assumes "run_reach (run_state AtSelect cs h n q ws w)"
    "select_in [3, 3] (map (\<lambda>p. the (h p)) cs) = rs" "select_out (map (\<lambda>p. the (h p)) cs) = []"
    "max_fd [3, 3] (map (\<lambda>p. the (h p)) cs) = k" "fds = (if 4 \<in> set rs then [4] else rs)"
  shows "run_reach (run_state (AtAccept fds [] k) cs h n q ws w)"
  by (rule run_by [OF assms(1) step_select [where startTime = "\<lparr> tv_sec = 0, tv_usec = 0 \<rparr>"]])
    (simp_all add: tp_select_def select_wait_def assms(2,3,5), simp add: run_os_def assms(4))

lemma run_accepted:
  assumes "run_reach (run_state (AtAccept fds [] k) [] h n q ws w)" "3 \<in> set fds" "w \<noteq> []"
  shows "run_reach (run_state (AtSignal fds [] k) [n] (h(n \<mapsto> run_connection)) (Suc n) q ws w)"
  by (rule run_by [OF assms(1) step_accept])
    (simp_all add: assms(2,3) accept_fresh_def tp_accept_def make_room.simps TcpServer_class_def run_created Let_def)

lemma run_not_accepted:
  assumes "run_reach (run_state (AtAccept fds [] k) cs h n q ws w)"
    "3 \<notin> set fds \<or> w = [] \<and> (\<forall>p \<in> set cs. conn_fd (the (h p)) = 4)"
  shows "run_reach (run_state (AtSignal fds [] k) cs h n q ws w)"
proof (cases "3 \<in> set fds")
  case True
  with assms(2) have w: "w = []" "\<forall>p \<in> set cs. conn_fd (the (h p)) = 4" by auto
  show ?thesis by (rule run_by [OF assms(1) step_accept]) (use w True in \<open>simp_all add: accept_fresh_def tp_accept_def Let_def image_iff\<close>)
next
  case False
  show ?thesis by (rule run_by [OF assms(1) step_no_accept]) (simp_all add: False)
qed

lemma run_signal:
  assumes "run_reach (run_state (AtSignal fds [] k) cs h n q ws w)"
  shows "run_reach (run_state (AtEvents cs fds [] k) cs h n q ws w)"
  by (rule run_by [OF assms step_signal]) (simp_all add: AcceptSignal_def, simp add: run_state_def UdpSocket_Receive_def run_simps FatalError_def errno_defs)

lemma run_event:
  assumes "run_reach (run_state (AtEvents (p # ps) fds [] k) cs h n q ws w)" "h p = Some c" "conn_fd c = 4"
    "k < 4 \<or> 4 \<notin> set fds" "h' = (if CheckClose c then h(p := None) else h)" "cs' = (if CheckClose c then remove1 p cs else cs)"
  shows "run_reach (run_state (AtEvents ps fds [] k) cs' h' n q ws w)"
  by (rule run_by [OF assms(1) step_event])
    (use assms(4) in \<open>auto simp: assms(2,3,5,6) tp_event_def reported_def tp_check_close_def tp_delete_def Let_def Connection_delete_def Socket_Close_def run_os_def\<close>)

section \<open>The run\<close>

text \<open>The run up to the point where the worker has processed the connection and the main thread is in \<^verbatim>\<open>select\<close>.\<close>

lemma run_connection_simps [simp]:
  "conn_fd run_connection = 4" "c_state run_connection = READ_HEADER" "c_active run_connection = True"
  by (simp_all add: run_connection_def conn_fd_def)

lemma run_queued: "run_reach (run_state AtSelect [0] [0 \<mapsto> SetActive False run_read] 1 [0] [Waiting] [])"
proof -
  let ?m = "[0x31, 0x3A, 0x78] :: bytes"
  have "run_reach (run_state AtSelect [] (\<lambda>_. None) 0 [] [Waiting] [?m])" by (rule run_started [OF run_start])
  then have "run_reach (run_state (AtAccept [3, 3] [] 3) [] (\<lambda>_. None) 0 [] [Waiting] [?m])"
    by (rule run_select [where rs = "[3, 3]"]) (simp_all add: select_in_def select_out_def max_fd_def)
  then have "run_reach (run_state (AtSignal [3, 3] [] 3) [0] [0 \<mapsto> run_connection] (Suc 0) [] [Waiting] [?m])"
    by (rule run_accepted) simp_all
  from run_signal [OF this] have "run_reach (run_state (AtEvents [] [3, 3] [] 3) [0] [0 \<mapsto> run_connection] (Suc 0) [] [Waiting] [?m])"
    by (rule run_event [where c = run_connection]) (simp_all add: CheckClose_def)
  from run_by [OF this step_round] have "run_reach (run_state AtSelect [0] [0 \<mapsto> run_connection] (Suc 0) [] [Waiting] [?m])" by simp
  then have "run_reach (run_state (AtAccept [4] [] 4) [0] [0 \<mapsto> run_connection] (Suc 0) [] [Waiting] [?m])"
    by (rule run_select [where rs = "[3, 3, 4]"]) (simp_all add: select_in_def select_out_def max_fd_def WaitForReadability_def WaitForWritability_def)
  then have "run_reach (run_state (AtSignal [4] [] 4) [0] [0 \<mapsto> run_connection] (Suc 0) [] [Waiting] [?m])"
    by (rule run_not_accepted) simp
  then have "run_reach (run_state (AtEvents [0] [4] [] 4) [0] [0 \<mapsto> run_connection] (Suc 0) [] [Waiting] [?m])"
    by (rule run_by [OF _ step_signal [where inFd = "[4]" and outFd = "[]" and maxFd = 4]]) simp_all
  then have "run_reach (run_state (AtEvents [] [4] [] 4) [0] [0 \<mapsto> SetActive False run_read] (Suc 0) [0] [Waiting] [])"
    by (rule run_by [OF _ step_event [where p = 0 and ps = "[]" and inFd = "[4]" and outFd = "[]" and maxFd = 4
        and P' = "run_state (AtEvents [0] [4] [] 4) [0] [0 \<mapsto> SetActive False run_read] (Suc 0) [0] [Waiting] []"]])
      (simp_all add: tp_event_def reported_def tp_process_event_def run_guarded tp_check_close_def Let_def,
        simp_all add: CheckClose_def CheckExecuteState_def run_read_def SetActive_def)
  from run_by [OF this step_round] show ?thesis by simp
qed

lemma run_held:
  "\<exists>c. run_reach (run_state AtSelect [0] [0 \<mapsto> c] 1 [] [Returning 0] []) \<and> CheckClose c \<and> conn_fd c = 4"
proof -
  obtain c where c: "guarded_process run_os (sc_virtuals run_class) True (SetActive False run_read) () [] = Some (Inr (), c, (), [])"
    "CheckClose c" "conn_fd c = 4" using run_guarded(2) by blast
  have "run_reach (run_state AtSelect [0] [0 \<mapsto> SetActive False run_read] 1 [] [Processing 0] [])"
    by (rule run_by [OF run_queued step_pop [where i = 0 and p = 0 and ps = "[]"]]) (simp_all add: worker_pop_def)
  then have "run_reach (run_state AtSelect [0] [0 \<mapsto> c] 1 [] [Returning 0] [])"
    by (rule run_by [OF _ step_process [where i = 0 and p = 0
        and P' = "run_state AtSelect [0] [0 \<mapsto> c] 1 [] [Returning 0] []"]]) (simp_all add: worker_process_def c(1))
  with c(2,3) show ?thesis by blast
qed

text \<open>The main thread deletes the connection; the worker then sets its flag.\<close>

lemma pool_use_after_free: "\<exists>P. run_reach P \<and> tp_bad P"
proof -
  obtain c where c: "run_reach (run_state AtSelect [0] [0 \<mapsto> c] 1 [] [Returning 0] [])" "CheckClose c" "conn_fd c = 4"
    using run_held by blast
  from c(1) have "run_reach (run_state (AtAccept [3, 3] [] 3) [0] [0 \<mapsto> c] 1 [] [Returning 0] [])"
    by (rule run_select [where rs = "[3, 3]"]) (use c(2) in \<open>simp_all add: select_in_def select_out_def max_fd_def WaitForReadability_def
        WaitForWritability_def CheckClose_def\<close>)
  then have "run_reach (run_state (AtSignal [3, 3] [] 3) [0] [0 \<mapsto> c] 1 [] [Returning 0] [])"
    by (rule run_not_accepted) (simp add: c(3))
  from run_signal [OF this] have "run_reach (run_state (AtEvents [] [3, 3] [] 3) [] (\<lambda>_. None) 1 [] [Returning 0] [])"
    by (rule run_event [where c = c]) (simp_all add: c(2,3) fun_eq_iff)
  from pool_step [OF this step_return [where i = 0 and p = 0]]
  have "run_reach (worker_return run_os 0 0 (run_state (AtEvents [] [3, 3] [] 3) [] (\<lambda>_. None) 1 [] [Returning 0] []))" by simp
  then show ?thesis by (intro exI conjI) (assumption, simp add: worker_return_def)
qed


lemma run_selects: "select_reports run_os"
  by (auto simp: select_reports_def run_os_def split: if_splits)

end
