(* ===== verification/Spec2Isabelle.thy ===== *)
theory Spec2Isabelle
  imports AnyRpc_Base64 AnyRpc_Unicode AnyRpc_Stream AnyRpc_Value AnyRpc_Float AnyRpc_Handler AnyRpc_Text
    AnyRpc_Document AnyRpc_Reader AnyRpc_MessagePack AnyRpc_MessagePackReader AnyRpc_MessagePackRoundTrip
    AnyRpc_Strtod AnyRpc_JsonWriter AnyRpc_JsonReader AnyRpc_JsonRoundTrip AnyRpc_JsonText AnyRpc_JsonTotal
    AnyRpc_Http AnyRpc_Method AnyRpc_Build AnyRpc_JsonServer AnyRpc_MessagePackServer
    AnyRpc_Socket AnyRpc_Connection AnyRpc_Protocol AnyRpc_TcpConnection AnyRpc_HttpConnection
    AnyRpc_Server AnyRpc_ThreadPool AnyRpc_PoolSafety AnyRpc_PoolRun
begin

text \<open>
  AnyRPC is a C++ library for remote procedure calls over JSON, MessagePack and XML. This development
  models its data, its JSON and MessagePack encodings, its calls and its servers, from the sources under
  \<^verbatim>\<open>src/\<close> and \<^verbatim>\<open>include/anyrpc/\<close>, and proves what makes them correct. This theory holds the properties,
  C1 to C40, each with a witness if it has hypotheses; they rest on the lemmas of the other theories.

  \<^bold>\<open>The program.\<close> A \<^verbatim>\<open>Value\<close> is the variant type that calls are made of. A reader parses text from a stream
  and calls a \<^verbatim>\<open>Handler\<close>, event by event; a \<^verbatim>\<open>Document\<close> is the handler that builds a value, a writer is one
  that puts text to a stream, and \<^verbatim>\<open>Value::Traverse\<close> calls a handler with the events of a value. A server
  accepts connections; a \<^verbatim>\<open>Connection\<close> reads requests (HTTP or netstrings) and calls the handler of a
  protocol, which parses the request, has the \<^verbatim>\<open>MethodManager\<close> execute the method, and writes the response.

  \<^bold>\<open>The theories\<close>, in the order of the layers.
  \<^item> \<open>AnyRpc_Prelude\<close>: bytes, string literals, the errors of error.h, the result type of code that may throw
    (\<open>Inl\<close>: the code of the exception), lemmas on lists and words.
  \<^item> \<open>AnyRpc_Stream\<close> (stream.cpp): the input and output streams. The locale of the output streams has one
    interpretation for each of them: whatever is put, their content is what was put, within their bounds.
  \<^item> \<open>AnyRpc_Base64\<close>, \<open>AnyRpc_Unicode\<close> (internal/base64.cpp, internal/unicode.cpp): the codecs and their
    round trips; C4 to C8.
  \<^item> \<open>AnyRpc_Value\<close> (value.cpp, value.h): one constructor for each member of the union, which carries the
    flag word; the operations as functions on values, errors included. \<open>abs_value\<close> says what a value stands for.
    \<open>AnyRpc_Float\<close>, \<open>AnyRpc_Strtod\<close> and \<open>AnyRpc_Text\<close>: the arithmetic on the bits of floats and doubles, and the
    formatting functions that are used. \<open>AnyRpc_Build\<close>: assignments through \<^verbatim>\<open>operator[]\<close>.
  \<^item> \<open>AnyRpc_Handler\<close>, \<open>AnyRpc_Document\<close>, \<open>AnyRpc_Reader\<close> (handler.h, document.cpp, reader.cpp): events, the
    producers and consumers of events, the document with its stack of pointers as paths into the value.
  \<^item> \<open>AnyRpc_MessagePack\<close>, \<open>AnyRpc_MessagePackReader\<close>, \<open>AnyRpc_MessagePackRoundTrip\<close>: writer, reader, and the
    reader on the output of the writer.
  \<^item> \<open>AnyRpc_JsonWriter\<close>, \<open>AnyRpc_JsonReader\<close>, \<open>AnyRpc_JsonRoundTrip\<close>, \<open>AnyRpc_JsonText\<close> (a grammar of the texts
    of a value, all of which the reader accepts) and \<open>AnyRpc_JsonTotal\<close> (the reader on any input at all).
  \<^item> \<open>AnyRpc_Http\<close> (internal/http.cpp): the header as an automaton that is fed a growing buffer.
  \<^item> \<open>AnyRpc_Method\<close> (method.cpp): the manager as a state, one step for each hold of its mutex, and a step
    relation for threads that execute, add and remove methods, with the invariant of C31 and C32.
  \<^item> \<open>AnyRpc_JsonServer\<close>, \<open>AnyRpc_MessagePackServer\<close>: the protocol handlers, refined against the abstract calls
    and replies; C33 to C35.
  \<^item> \<open>AnyRpc_Socket\<close> (socket.cpp): the wrapper of the system calls. The operating system is a parameter, a
    record of functions on a world; \<open>stream_log\<close>, \<open>alloc_ok\<close>, \<open>clock_runs\<close>, \<open>select_reports\<close> state what is relied on.
  \<^item> \<open>AnyRpc_Connection\<close> (connection.cpp): the state machine of a connection, its memory as blocks with
    checked stores. \<open>AnyRpc_Protocol\<close>: the locale of what \<^verbatim>\<open>Process\<close> relies on of its virtual functions,
    interpreted in \<open>AnyRpc_TcpConnection\<close> and \<open>AnyRpc_HttpConnection\<close>; C36 to C38.
  \<^item> \<open>AnyRpc_Server\<close> (server.cpp): set-up, \<^verbatim>\<open>ServerST\<close> and \<^verbatim>\<open>ServerMT\<close>, with whom a full server disconnects (C39).
    \<open>AnyRpc_ThreadPool\<close>: \<^verbatim>\<open>ServerTP\<close> as a step relation over the main thread, the workers and a heap of
    connections; \<open>AnyRpc_PoolSafety\<close>: the locale of the classes of connections, its interpretations for HTTP
    and netstrings, the invariant in all reachable states (C40); \<open>AnyRpc_PoolRun\<close>: a run in which a worker
    uses a connection that the main thread has deleted.

  \<^bold>\<open>Conventions.\<close> The build is the default one: asserts throw, 64-bit little endian, not Windows, threads on,
  logging off. Integers are words of their width. A pointer into a buffer or a value is an index or a path,
  a pointer to a method or a connection is an address in a heap; a read or a store outside gives the error
  \<open>Undefined\<close>, and the properties show where this cannot happen. A loop that may not end is a partial
  function whose value \<open>None\<close> says so: those of sockets, connections and servers, which end by the clock or
  by the bytes that arrive; C37 shows that \<^verbatim>\<open>Process\<close> returns, unless bytes arrive for ever. The readers have
  counters for their loops and their recursion that are linear in what is left to read (\<open>mpr_fuel\<close>, and those
  of \<open>AnyRpc_JsonReader\<close>); C20 and C28 show that they are enough on any input.

  \<^bold>\<open>Not modelled\<close>: the XML reader, writer and handler, which mirror the JSON ones (in the servers the XML
  handler is a parameter); the clients; log output; the printers of values to \<^verbatim>\<open>std::ostream\<close>; the opening
  of files; Windows code. Message texts of exceptions are kept only where they reach a response. Local
  time conversions, the code of the application's methods and the generated version string are parameters.
  Data races within a step, weak memory and exhausted memory (except in the connections, where \<^verbatim>\<open>malloc\<close>
  may fail) are outside of the model.
\<close>

section \<open>Streams\<close>

text \<open>C1: whatever sequence of characters and strings is put to a new segmented stream, every put
  returns, the segments stay within their capacity, and the callers' loop over \<^verbatim>\<open>GetBuffer\<close> reads
  back exactly what was put, in order.\<close>

theorem segmented_stream_content:
  assumes "2 \<le> maxBufferSize"
  shows "\<exists>s. run_puts wss_put_char wss_put (\<lambda>s. s) ps (wss_new maxBufferSize) = Some s \<and> wss_ok s
    \<and> wss_read_all s 0 = Some (concat (map put_bytes ps))"
  using wss.run_puts_content [of "wss_new maxBufferSize" ps] wss_new_ok [OF assms]
  by (auto simp: wss_read_all_content)

lemma segmented_stream_content_witness:
  "\<exists>s. run_puts wss_put_char wss_put (\<lambda>s. s) [PutStr (replicate 1500 7), PutChar 1] (wss_new 2) = Some s \<and> wss_ok s
    \<and> wss_read_all s 0 = Some (replicate 1500 7 @ [1])"
  using segmented_stream_content [of 2 "[PutStr (replicate 1500 7), PutChar 1]"] by simp

text \<open>C2: through the buffered file stream of any buffer size, the bytes of the file arrive one
  by one with \<^verbatim>\<open>Get\<close> until \<^verbatim>\<open>Eof\<close>, none lost at a refill, and \<^verbatim>\<open>Read\<close> of any length returns the
  next bytes up to the end of the file.\<close>

theorem file_stream_delivers:
  assumes "0 < bufferSize"
  shows "(\<exists>s. drain rfs_Eof rfs_Get (rfs_new (Some f) bufferSize) = Some (f, s))
    \<and> (\<exists>s. rfs_Read (rfs_new (Some f) bufferSize) n = Some (take n f, s) \<and> rfs_left s = drop n f)"
  using rfs.drain_left [of "rfs_new (Some f) bufferSize"] rfs_Read_left [of "rfs_new (Some f) bufferSize" n]
    rfs_new_ok [OF assms, of f] by auto

lemma file_stream_delivers_witness:
  "(\<exists>s. drain rfs_Eof rfs_Get (rfs_new (Some [1, 2, 3, 4]) 2) = Some ([1, 2, 3, 4], s))
    \<and> (\<exists>s. rfs_Read (rfs_new (Some [1, 2, 3, 4]) 2) 3 = Some ([1, 2, 3], s) \<and> rfs_left s = [4])"
  using file_stream_delivers [of 2 "[1, 2, 3, 4]" 3] by simp



section \<open>Base64\<close>

text \<open>C4: on any in-place stream positioned at encoded data with a terminating character behind
  it, the stream decoder succeeds, puts the original bytes and leaves the stream at the terminator.\<close>

theorem base64_stream_roundtrip:
  assumes "iss_ok s" "iss_left s = Base64Encode xs @ t # rest" "b64_terminator t"
  shows "\<exists>s'. Base64DecodeOn iss_Eof iss_Peek iss_Get t [] [] s = Some (True, xs, s')
    \<and> iss_left s' = t # rest"
  by (rule decode_on_encode_iss [OF assms])

lemma base64_stream_roundtrip_witness:
  "\<exists>s'. Base64DecodeOn iss_Eof iss_Peek iss_Get 0x22 [] [] (iss_new (Base64Encode [0, 255] @ [0x22]) 5 True True)
      = Some (True, [0, 255], s') \<and> iss_left s' = [0x22]"
  by (rule base64_stream_roundtrip) code_simp+

text \<open>C5: the decoder from one buffer to another inverts the encoder, line breaks included.\<close>

theorem base64_buffer_roundtrip: "Base64DecodeBuffer [] (Base64Encode xs) = Some xs"
  by (rule decode_buffer_encode)

text \<open>C6: the encoder writes a line break exactly when there are more than 48 bytes to encode.\<close>

theorem base64_line_breaks: "0x0A \<in> set (Base64Encode xs) \<longleftrightarrow> length xs > 48"
  by (rule encode_newline)

section \<open>Unicode\<close>

text \<open>C7: converting a wide string to UTF-8 and back gives the wide string, for all characters from
  0 to 0x1FFFF.\<close>

theorem unicode_roundtrip:
  assumes "\<forall>wc \<in> set ws. utf8_encodable wc"
  shows "then_r (ConvertToUtf8 ws) ConvertFromUtf8 = Inr ws"
  by (rule utf8_roundtrip [OF assms])

lemma unicode_roundtrip_witness:
  "then_r (ConvertToUtf8 [0x41, 0xE9, 0x20AC, 0x1F600]) ConvertFromUtf8 = Inr [0x41, 0xE9, 0x20AC, 0x1F600]"
  by (rule unicode_roundtrip) code_simp

text \<open>C8: the conversion to UTF-8 throws for exactly the characters above 0x1FFFF.\<close>

theorem unicode_total: "(\<exists>s. ConvertToUtf8 ws = Inr s) \<longleftrightarrow> (\<forall>wc \<in> set ws. sint wc \<le> 0x1FFFF)"
  by (rule ConvertToUtf8_total)

lemma unicode_total_witness: "\<not> (\<exists>s. ConvertToUtf8 [0x41, 0x20000] = Inr s)"
  by (subst unicode_total) code_simp


section \<open>Values\<close>

text \<open>C9: an integer gives the same value whichever of the four integer types it is constructed
  from; each of the four type tests succeeds exactly when the integer is in the range of that
  type, and then the getter returns the integer, and otherwise throws.\<close>

theorem value_integers:
  assumes "v = Value_int i \<and> z = sint i \<or> v = Value_uint u \<and> z = uint u
    \<or> v = Value_int64 i64 \<and> z = sint i64 \<or> v = Value_uint64 u64 \<and> z = uint u64"
  shows "(IsInt v \<longleftrightarrow> - (2 ^ 31) \<le> z \<and> z < 2 ^ 31) \<and> (IsUint v \<longleftrightarrow> 0 \<le> z \<and> z < 2 ^ 32)
    \<and> (IsInt64 v \<longleftrightarrow> - (2 ^ 63) \<le> z \<and> z < 2 ^ 63) \<and> (IsUint64 v \<longleftrightarrow> 0 \<le> z \<and> z < 2 ^ 64)
    \<and> (if IsInt v then \<exists>r. GetInt v = Inr r \<and> sint r = z else GetInt v = Inl AnyRpcErrorValueAccess)
    \<and> (if IsUint v then \<exists>r. GetUint v = Inr r \<and> uint r = z else GetUint v = Inl AnyRpcErrorValueAccess)
    \<and> (if IsInt64 v then \<exists>r. GetInt64 v = Inr r \<and> sint r = z else GetInt64 v = Inl AnyRpcErrorValueAccess)
    \<and> (if IsUint64 v then \<exists>r. GetUint64 v = Inr r \<and> uint r = z else GetUint64 v = Inl AnyRpcErrorValueAccess)"
proof -
  have v: "v = mk_int z"
    using assms by (auto simp: Value_int_canonical Value_uint_canonical Value_int64_canonical Value_uint64_canonical)
  have throws: "\<not> IsInt v \<Longrightarrow> GetInt v = Inl AnyRpcErrorValueAccess"
    "\<not> IsUint v \<Longrightarrow> GetUint v = Inl AnyRpcErrorValueAccess"
    "\<not> IsInt64 v \<Longrightarrow> GetInt64 v = Inl AnyRpcErrorValueAccess"
    "\<not> IsUint64 v \<Longrightarrow> GetUint64 v = Inl AnyRpcErrorValueAccess"
    by (simp_all add: GetInt_def GetUint_def GetInt64_def GetUint64_def)
  show ?thesis using throws mk_int_get [of z] unfolding v mk_int_tests by simp
qed

lemma value_integers_witness:
  "IsUint (Value_int64 3000000000) \<and> \<not> IsInt (Value_int64 3000000000)
    \<and> GetInt (Value_int64 3000000000) = Inl AnyRpcErrorValueAccess"
  using value_integers [of "Value_int64 3000000000" 0 "3000000000" 0 3000000000 0] by simp

text \<open>C10: a copied string or binary of any length is read back as it was; up to 15 bytes it is
  kept inside the value, together with its length.\<close>

theorem value_strings:
  "GetString (CopyString s) = Inr s \<and> GetStringLength (CopyString s) = Inr (length s)
    \<and> GetBinary (CopyBinary s) = Inr s \<and> GetBinaryLength (CopyBinary s) = Inr (length s)
    \<and> (has_flag (CopyString s) InlineStrFlag \<longleftrightarrow> length s \<le> 15)
    \<and> (has_flag (CopyBinary s) InlineStrFlag \<longleftrightarrow> length s \<le> 15)"
proof -
  have "GetString (CopyString s) = Inr s" "GetBinary (CopyBinary s) = Inr s"
    using CopyString_spec [of s] CopyBinary_spec [of s] value_ok_bytes(1) [of "CopyString s"]
      value_ok_bytes(2) [of "CopyBinary s"] by auto
  moreover have "has_flag (CopyString s) InlineStrFlag \<longleftrightarrow> length s \<le> 15"
    "has_flag (CopyBinary s) InlineStrFlag \<longleftrightarrow> length s \<le> 15"
    by (simp_all add: CopyString_def CopyBinary_def ss_Usable_def MaxSize_def MaxChars_def has_flag_def)
  ultimately show ?thesis by (simp add: GetStringLength_def GetBinaryLength_def)
qed







text \<open>C14: the deep copy of a well-formed value succeeds, is well-formed and stands for the same
  value, except that every map key is cut at its first null; without such keys it is equal.\<close>

theorem value_deep_copy:
  assumes "value_ok v"
  shows "\<exists>w. Copy this v = Inr w \<and> value_ok w \<and> abs_value w = cut_keys (abs_value v)
    \<and> (keys_terminated (abs_value v) \<longrightarrow> abs_value w = abs_value v)"
  using CopyInternal_spec [OF assms, of this] by (auto simp: Copy_def copies_to_def cut_keys_id)

lemma value_deep_copy_witness:
  "\<exists>w. Copy Value_new (MapValue MapFlag 16 [(CopyString [0x61, 0, 0x62], Value_int 7)]) = Inr w \<and> value_ok w
    \<and> abs_value w = AMap [([0x61], AInt 7)]"
proof -
  have "value_ok (MapValue MapFlag 16 [(CopyString [0x61, 0, 0x62], Value_int 7)])"
    using CopyString_spec [of "[0x61, 0, 0x62]"] mk_int_spec [of 7]
    by (simp add: Value_int_canonical MaxMapCapacity_def)
  from value_deep_copy [OF this, of Value_new] show ?thesis
    using CopyString_spec [of "[0x61, 0, 0x62]"] mk_int_spec [of 7]
    by (auto simp: Value_int_canonical c_str_def)
qed



section \<open>Documents\<close>





section \<open>MessagePack\<close>

text \<open>C18: whichever of the four integer functions of the handler interface is called, the
  MessagePack writer produces the same bytes for the same number, the shortest encoding of it.\<close>

theorem messagepack_integers:
  "written (mpw_Int i) = mp_int (sint i) \<and> written (mpw_Uint u) = mp_int (uint u)
    \<and> written (mpw_Int64 i64) = mp_int (sint i64) \<and> written (mpw_Uint64 u64) = mp_int (uint u64)"
  using written_Int written_WriteUint written_Int64 written_WriteUint64 by (simp_all add: mpw_Uint_def mpw_Uint64_def)



text \<open>C20: on any bytes, from any stream, in place or not, the MessagePack reader ends: it throws one
  of the exceptions of the library, or returns having taken at least one byte. It never runs out of
  the model's fuel and never reaches undefined behaviour.\<close>

theorem messagepack_reader_total:
  assumes "st_ok s"
  shows "case snd (mpr_ParseStream (mpr_fuel (ResetToken (mpr_new s))) (ResetToken (mpr_new s))) of
      Inl e \<Rightarrow> \<exists>c. e = AnyRpcException c
    | Inr r' \<Rightarrow> length (st_left (mpr_is r')) < length (st_left s)"
proof -
  let ?r = "ResetToken (mpr_new s)"
  have w: "mpr_weight ?r = 3 * length (st_left s)" by (simp add: mpr_weight_def ResetToken_def mpr_new_def)
  have "length (st_left (mpr_is r')) < length (st_left s)" if "mpr_weight r' < 3 * length (st_left s)" for r'
    using that unfolding mpr_weight_def by linarith
  note shorter = this
  have "safe (\<lambda>r'. length (st_left (mpr_is r')) < length (st_left s)) (snd (mpr_ParseStream (mpr_fuel ?r) ?r))"
    by (rule safe_mono [OF mpr_parse_safe(1) [OF mpr_new_start(1) [OF assms]]])
       (auto simp: mpr_fuel_def mpr_down_def w intro: shorter)
  then show ?thesis by (simp add: safe_def split: sum.splits)
qed

lemma messagepack_reader_total_witness:
  "case snd (mpr_ParseStream (mpr_fuel (ResetToken (mpr_new (FileStream (rfs_new (Some [0x92, 0xa5, 0]) 2)))))
      (ResetToken (mpr_new (FileStream (rfs_new (Some [0x92, 0xa5, 0]) 2))))) of
      Inl e \<Rightarrow> \<exists>c. e = AnyRpcException c
    | Inr r' \<Rightarrow> length (st_left (mpr_is r')) < length (st_left (FileStream (rfs_new (Some [0x92, 0xa5, 0]) 2)))"
  by (rule messagepack_reader_total) (simp add: rfs_new_ok)





section \<open>JSON\<close>

text \<open>C23: from an opening quotation mark on, the reader's string parser computes the decoding function
  \<^verbatim>\<open>json_decode\<close> of the text, its errors included, whether it decodes into a buffer of its own or,
  in place, over the text it reads; the event carries the decoded string.\<close>

theorem json_string_decoding:
  assumes "jr_ok r" "jr_left r = 0x22 # xs"
  shows "case json_decode xs of
      Inl e \<Rightarrow> json_ParseString r = ([], Inl e)
    | Inr (s, rest) \<Rightarrow> \<exists>mem copy r'. json_ParseString r = ([EvString mem (length s) copy], Inr r')
        \<and> string_event s mem (length s) copy \<and> jr_left r' = rest \<and> jr_same r r'"
  unfolding json_ParseString_def by (rule json_string_decode [OF assms])

lemma json_string_decoding_witness:
  "let s = InSituStream (iss_new [0x22, 0x61, 0x5C, 0x75, 0x30, 0x30, 0x65, 0x39, 0x22, 0x2C, 0] 10 True False)
   in \<exists>mem copy r'. json_ParseString (jr_new s) = ([EvString mem 3 copy], Inr r')
     \<and> string_event [0x61, 0xC3, 0xA9] mem 3 copy \<and> jr_left r' = [0x2C]"
proof -
  let ?s = "InSituStream (iss_new [0x22, 0x61, 0x5C, 0x75, 0x30, 0x30, 0x65, 0x39, 0x22, 0x2C, 0] 10 True False)"
  have "json_decode [0x61, 0x5C, 0x75, 0x30, 0x30, 0x65, 0x39, 0x22, 0x2C] = Inr ([0x61, 0xC3, 0xA9], [0x2C])" by code_simp
  moreover have "jr_ok (jr_new ?s)" "jr_left (jr_new ?s) = 0x22 # [0x61, 0x5C, 0x75, 0x30, 0x30, 0x65, 0x39, 0x22, 0x2C]"
    by (simp_all add: jr_ok_def jr_new_def jr_left_def iss_new_def iss_ok_def iss_left_def)
  ultimately show ?thesis
    using json_string_decoding [of "jr_new ?s" "[0x61, 0x5C, 0x75, 0x30, 0x30, 0x65, 0x39, 0x22, 0x2C]"]
    unfolding Let_def by (auto simp: numeral_3_eq_3)
qed

text \<open>C24: a string written in either encoding, escapes and surrogate pairs included, is read back as
  the same string, and the reader stops behind the closing quotation mark.\<close>

theorem json_string_roundtrip:
  assumes "jr_ok r" "jw_String enc s = Inr ps" "jr_left r = concat (map put_bytes ps) @ rest"
  shows "\<exists>mem copy r'. json_ParseString r = ([EvString mem (length s) copy], Inr r')
    \<and> string_event s mem (length s) copy \<and> jr_left r' = rest"
proof -
  have "string_form s (concat (map put_bytes ps))"
    using string_text_form [of enc s] assms(2) by (simp add: writable_def)
  from string_reads [OF this assms(1,3), of EvString] show ?thesis unfolding json_ParseString_def by metis
qed

lemma json_string_roundtrip_witness:
  "let s = [0x41, 0x0A, 0x01, 0xF0, 0x9F, 0x98, 0x80];
       text = lit [CHR 0x22, CHR ''A'', CHR 0x5C, CHR ''n''] @ [0x5C] @ lit ''u0001'' @ [0x5C] @ lit ''uD83D'' @ [0x5C] @ lit ''uDE00'' @ [0x22]
   in \<exists>mem copy r'. json_ParseString (jr_new (StringStream (rstr_new (text @ [0])))) = ([EvString mem 7 copy], Inr r')
     \<and> string_event s mem 7 copy"
proof -
  let ?s = "[0x41, 0x0A, 0x01, 0xF0, 0x9F, 0x98, 0x80] :: bytes"
  let ?text = "lit [CHR 0x22, CHR ''A'', CHR 0x5C, CHR ''n''] @ [0x5C] @ lit ''u0001'' @ [0x5C] @ lit ''uD83D'' @ [0x5C] @ lit ''uDE00'' @ [0x22]"
  have "(case jw_String ASCII ?s of Inr ps \<Rightarrow> concat (map put_bytes ps) = ?text | Inl _ \<Rightarrow> False)" by code_simp
  then obtain ps where ps: "jw_String ASCII ?s = Inr ps" "concat (map put_bytes ps) = ?text" by (cases "jw_String ASCII ?s") auto
  let ?r = "jr_new (StringStream (rstr_new (?text @ [0])))"
  have "jr_ok ?r" "jr_left ?r = concat (map put_bytes ps) @ []" unfolding ps(2)
    by (simp_all add: jr_ok_def jr_new_def jr_left_def rstr_new_def rstr_ok_def rstr_left_def reader_inSitu_def)
  note r = json_string_roundtrip [OF this(1) ps(1) this(2)]
  have "length ?s = 7" by simp
  with r show ?thesis unfolding Let_def by (metis (no_types, lifting))
qed

text \<open>C25: the reader accepts every text of the grammar \<^verbatim>\<open>json_form\<close> (literals, integers, strings, arrays
  and maps with white space in every place), behind leading white space and from a stream of any
  kind, and calls the handler with events that represent the value, leaving the rest unread.\<close>

theorem json_reader_accepts:
  assumes "st_ok s" "st_left s = w @ t @ rest" "white w" "json_form a t" "value_end rest"
  shows "\<exists>es r'. json_ParseStream (jr_new s) = (es, Inr r') \<and> represents a es \<and> jr_left r' = rest"
  using json_stream_reads [OF assms] by metis

lemma json_reader_accepts_witness:
  "\<exists>es r'. json_ParseStream (jr_new (StringStream (rstr_new [0x20, 0x5B, 0x0A, 0x2D, 0x37, 0x20, 0x2C, 0x74, 0x72, 0x75, 0x65, 0x5D, 0x7D, 0])))
      = (es, Inr r') \<and> represents (AArr [AInt (-7), ABool True]) es \<and> jr_left r' = [0x7D]"
proof -
  have "json_form (AInt (-7)) [0x2D, 0x37]" using form_int [of "-7"] by (simp add: json_int_def dec_int_def dec_nat.simps digit_def)
  moreover have w: "white [0x0A]" "white [0x20]" by (simp_all add: white_def IsWhiteSpace_def is_space_def)
  moreover have "elements_form [ABool True] ([0x74, 0x72, 0x75, 0x65] @ [])"
    using form_element [OF form_true white_Nil] by simp
  ultimately have "elements_form [AInt (-7), ABool True] [0x2D, 0x37, 0x20, 0x2C, 0x74, 0x72, 0x75, 0x65]"
    using form_elements [of "AInt (-7)" "[0x2D, 0x37]" "[0x20]" "[]"] by simp
  from form_arr [OF w(1) this] have f: "json_form (AArr [AInt (-7), ABool True]) [0x5B, 0x0A, 0x2D, 0x37, 0x20, 0x2C, 0x74, 0x72, 0x75, 0x65, 0x5D]"
    by simp
  show ?thesis
    by (rule json_reader_accepts [OF _ _ w(2) f])
      (simp_all add: rstr_new_def rstr_ok_def rstr_left_def value_end_def digit_end_def is_digit_def)
qed







section \<open>HTTP headers\<close>

text \<open>C29: a header that arrives in pieces, cut anywhere, also inside a line or between carriage return
  and line feed, is processed to the same result and the same fields as the header at once.\<close>

theorem http_header_in_pieces:
  "feed_header HttpRequest_virtuals [] cs eof (HttpRequest_Initialize h)
     = ProcessHeaderData HttpRequest_virtuals (concat cs) eof (HttpRequest_Initialize h)
   \<and> feed_header HttpResponse_virtuals [] cs eof (HttpResponse_Initialize h')
     = ProcessHeaderData HttpResponse_virtuals (concat cs) eof (HttpResponse_Initialize h')"
  by (simp add: feed_header_whole HttpRequest_Initialize_def HttpResponse_Initialize_def HttpHeader_Initialize_def)

text \<open>C30: a request header reported complete, however it arrived, ends inside the buffer; a POST has a
  content length that is not negative, and a request of HTTP/1.1 names a host.\<close>

theorem http_request_complete:
  assumes "feed_header HttpRequest_virtuals [] cs eof (HttpRequest_Initialize h) = (HEADER_COMPLETE, h')"
  shows "GetBodyStartPos h' \<le> length (concat cs) \<and> - 1 \<le> sint (GetContentLength h')
    \<and> (req_method h' = lit ''POST'' \<longrightarrow> 0 \<le> sint (GetContentLength h'))
    \<and> (GetHttpVersion h' = lit ''1.1'' \<longrightarrow> req_host h' \<noteq> [])"
proof -
  let ?h = "HttpRequest_Initialize h"
  have p: "ProcessHeaderData HttpRequest_virtuals (concat cs) eof ?h = (HEADER_COMPLETE, h')"
    using assms by (simp add: feed_header_whole HttpRequest_Initialize_def HttpHeader_Initialize_def)
  have "request.good ?h" by (simp add: request.good_def request_inv_def HttpRequest_Initialize_def HttpHeader_Initialize_def)
  from request.process_good [OF this p] have "request_done h'" by (simp add: request.good_def)
  moreover have "startIndex h' \<le> length (concat cs)"
    using p header_loop_bound [of ?h "concat cs" HttpRequest_virtuals eof]
    by (auto simp: ProcessHeaderData_def Let_def HttpRequest_Initialize_def HttpHeader_Initialize_def)
  ultimately show ?thesis
    by (simp add: request_done_def GetBodyStartPos_def GetContentLength_def GetHttpVersion_def)
qed

lemma http_request_complete_witness:
  "\<exists>h'. feed_header HttpRequest_virtuals [] [lit ''POST / HT'', lit ''TP/1.0'' @ [0x0D, 0x0A], lit ''content-length: 2'' @ [0x0D],
       [0x0A, 0x0D, 0x0A], lit ''{}''] False (HttpRequest_Initialize HttpRequest_new) = (HEADER_COMPLETE, h')
     \<and> GetBodyStartPos h' \<le> 40 \<and> 0 \<le> sint (GetContentLength h')"
proof -
  let ?cs = "[lit ''POST / HT'', lit ''TP/1.0'' @ [0x0D, 0x0A], lit ''content-length: 2'' @ [0x0D], [0x0A, 0x0D, 0x0A], lit ''{}'']"
  have "(let (r, h') = feed_header HttpRequest_virtuals [] ?cs False (HttpRequest_Initialize HttpRequest_new)
      in r = HEADER_COMPLETE \<and> req_method h' = lit ''POST'')" by code_simp
  then obtain h' where h: "feed_header HttpRequest_virtuals [] ?cs False (HttpRequest_Initialize HttpRequest_new) = (HEADER_COMPLETE, h')"
    "req_method h' = lit ''POST''" by (auto split: prod.splits)
  have "length (concat ?cs) = 40" by simp
  with http_request_complete [OF h(1)] h show ?thesis by auto
qed

section \<open>Methods\<close>

text \<open>C31: in every state that threads can reach by adding, removing and executing methods, recursively
  as well, the counter of a method is the number of its executions in progress, the method of every
  such execution is still there, and no operation meets a deleted method or the internal error.\<close>

theorem method_executions_counted:
  assumes "sys_reach s"
  shows "(\<forall>p m. mm_heap (sys_mm s) p = Some m \<longrightarrow> m_activeThreads m = int (executing p (sys_threads s)))
    \<and> (\<forall>t < length (sys_threads s). \<forall>p. Executing p \<in> set (sys_threads s ! t) \<longrightarrow> registered (sys_mm s) p \<and> mm_heap (sys_mm s) p \<noteq> None)
    \<and> (\<forall>t < length (sys_threads s). \<forall>p st. sys_threads s ! t = Executing p # st \<longrightarrow> fst (FollowUpOperations p (sys_mm s)) = None)
    \<and> (\<forall>name. isl (fst (ExecuteMethod_begin name (sys_mm s))) = False \<and> isl (fst (RemoveMethod name (sys_mm s))) = False)"
proof -
  note inv = sys_reach_inv [OF assms]
  have 2: "registered (sys_mm s) p \<and> mm_heap (sys_mm s) p \<noteq> None" if "t < length (sys_threads s)" "Executing p \<in> set (sys_threads s ! t)" for t p
  proof -
    have "0 < executing p (sys_threads s)" using that by (rule executing_positive)
    then have "registered (sys_mm s) p" using inv by (simp add: mm_inv_def)
    with inv show ?thesis by (auto simp: mm_inv_def mm_wf_def registered_def)
  qed
  have 3: "fst (FollowUpOperations p (sys_mm s)) = None" if "t < length (sys_threads s)" "sys_threads s ! t = Executing p # st" for t p st
    using FollowUp_inv [OF inv that, of "fst (FollowUpOperations p (sys_mm s))"] by (metis prod.collapse)
  have 4: "isl (fst (ExecuteMethod_begin name (sys_mm s))) = False" for name
    using begin_inv [OF inv, of name] by (cases "ExecuteMethod_begin name (sys_mm s)") auto
  have 5: "isl (fst (RemoveMethod name (sys_mm s))) = False" for name
    using RemoveMethod_inv [OF inv, of name] by (cases "RemoveMethod name (sys_mm s)") auto
  show ?thesis using inv 2 3 4 5 by (simp add: mm_inv_def)
qed

lemma method_executions_counted_witness:
  "\<exists>mm. sys_reach \<lparr> sys_mm = mm, sys_threads = [[Executing 0]] \<rparr>
     \<and> (\<forall>m. mm_heap mm 0 = Some m \<longrightarrow> m_activeThreads m = 1) \<and> fst (FollowUpOperations 0 mm) = None"
proof -
  let ?s = "\<lparr> sys_mm = MethodManager_new, sys_threads = replicate 1 [] \<rparr>"
  obtain mm where b: "ExecuteMethod_begin LIST_METHODS MethodManager_new = (Inr (Some 0), mm)"
  proof -
    have "fst (ExecuteMethod_begin LIST_METHODS MethodManager_new) = Inr (Some 0)" by code_simp
    then show ?thesis by (metis that prod.collapse)
  qed
  have "sys_reach ?s" by (rule reach_start)
  then have "sys_reach (?s \<lparr> sys_mm := mm, sys_threads := push 0 (Executing 0) (sys_threads ?s) \<rparr>)"
    by (rule reach_step) (use step_begin [of ?s 0 LIST_METHODS "Inr (Some 0)" mm] b in \<open>simp add: ready_def\<close>)
  then have r: "sys_reach \<lparr> sys_mm = mm, sys_threads = [[Executing 0]] \<rparr>" by (simp add: push_def)
  from method_executions_counted [OF r] r show ?thesis
    by (intro exI [of _ mm]) (auto simp: executing_def)
qed

text \<open>C32: a method whose removal was delayed because it was being executed is removed: on every run on
  which the threads that were executing it come out of it, there is a moment at which it is no longer
  registered, since no thread enters it in the meantime and the last one to leave removes it.\<close>

theorem method_delayed_removal:
  assumes "run_of ss" "registered (sys_mm (ss ! 0)) p" "mm_heap (sys_mm (ss ! 0)) p = Some m"
    and "m_delayedRemove m" "0 < m_activeThreads m"
    and "\<forall>t < length (sys_threads (ss ! 0)). \<exists>i < length ss. Executing p \<notin> set (sys_threads (ss ! i) ! t)"
  shows "\<exists>i < length ss. \<not> registered (sys_mm (ss ! i)) p"
proof (rule delayed_removal_done [OF assms(1)])
  have "mm_inv (sys_mm (ss ! 0)) (sys_threads (ss ! 0))" using assms(1) by (simp add: run_of_def sys_reach_inv)
  with assms(2-5) show "leaving p (ss ! 0)" by (auto simp: leaving_def mm_inv_def)
  show "\<forall>t < length (sys_threads (ss ! 0)). \<exists>i < length ss. inside p (ss ! i) t = 0"
    using assms(6) by (auto simp: inside_def count_list_0_iff)
qed

lemma method_delayed_removal_witness:
  "\<exists>mm1 mm2 mm3. ExecuteMethod_begin LIST_METHODS MethodManager_new = (Inr (Some 0), mm1)
     \<and> RemoveMethod LIST_METHODS mm1 = (Inr Delayed, mm2) \<and> FollowUpOperations 0 mm2 = (None, mm3)
     \<and> registered mm2 0 \<and> \<not> registered mm3 0"
proof -
  let ?mm1 = "snd (ExecuteMethod_begin LIST_METHODS MethodManager_new)"
  let ?mm2 = "snd (RemoveMethod LIST_METHODS ?mm1)" and ?mm3 = "snd (FollowUpOperations 0 (snd (RemoveMethod LIST_METHODS ?mm1)))"
  have "fst (ExecuteMethod_begin LIST_METHODS MethodManager_new) = Inr (Some 0)" by code_simp
  then have b: "ExecuteMethod_begin LIST_METHODS MethodManager_new = (Inr (Some 0), ?mm1)" by (metis prod.collapse)
  have "fst (RemoveMethod LIST_METHODS ?mm1) = Inr Delayed" by code_simp
  then have d: "RemoveMethod LIST_METHODS ?mm1 = (Inr Delayed, ?mm2)" by (metis prod.collapse)
  have "fst (FollowUpOperations 0 ?mm2) = None" by code_simp
  then have f: "FollowUpOperations 0 ?mm2 = (None, ?mm3)" by (metis prod.collapse)
  have m: "(case mm_heap ?mm2 0 of None \<Rightarrow> False | Some m \<Rightarrow> m_delayedRemove m \<and> 0 < m_activeThreads m)" by code_simp
  have g: "mm_methods ?mm2 = [(LIST_METHODS, 0), (METHOD_HELP, 1)]" by code_simp
  let ?s = "\<lparr> sys_mm = MethodManager_new, sys_threads = replicate 2 [] \<rparr>"
  let ?a = "\<lparr> sys_mm = ?mm1, sys_threads = [[Executing 0], []] \<rparr>"
  let ?b = "\<lparr> sys_mm = ?mm2, sys_threads = [[Executing 0], [WaitingFor LIST_METHODS]] \<rparr>"
  let ?c = "\<lparr> sys_mm = ?mm3, sys_threads = [[], [WaitingFor LIST_METHODS]] \<rparr>"
  have "sys_step ?s ?a" using step_begin [of ?s 0 LIST_METHODS "Inr (Some 0)" ?mm1] b
    by (simp add: ready_def push_def numeral_2_eq_2)
  with reach_start [of 2] have ra: "sys_reach ?a" by (rule reach_step)
  have "sys_step ?a ?b" using step_Remove [of ?a 1 LIST_METHODS "Inr Delayed" ?mm2 _ True] d
    by (simp add: ready_def push_def)
  with ra have rb: "sys_reach ?b" by (rule reach_step)
  have bc: "sys_step ?b ?c" using step_end [of 0 ?b 0 "[]" None ?mm3] f by (simp add: pop_def)
  have "\<exists>i < length [?b, ?c]. \<not> registered (sys_mm ([?b, ?c] ! i)) 0"
    by (rule method_delayed_removal [of "[?b, ?c]" 0 "the (mm_heap ?mm2 0)"])
      (use rb bc m g in \<open>auto simp: run_of_def registered_def less_Suc_eq split: option.splits\<close>)
  moreover have "registered ?mm2 0" using g by (simp add: registered_def)
  ultimately have "\<not> registered ?mm3 0" by (auto simp: less_Suc_eq)
  with b d f \<open>registered ?mm2 0\<close> show ?thesis by blast
qed

section \<open>Remote procedure calls\<close>








section \<open>Connections\<close>

text \<open>C36: whatever happens to a netstring connection, in whatever pieces its bytes arrive and whatever
  fails, the handler has been called with exactly the bodies of the messages at the front of the received
  bytes, once each and in order, and what has been sent is the beginning of their replies, each framed as
  a netstring; while the connection is open all replies have been sent completely.\<close>

theorem tcp_messages_in_order:
  assumes "tcp_reach os handler net fd c w"
    and "stream_log os fd net" "alloc_ok os" "handler_logged handler net"
  shows "\<exists>ms. messages_ok False ms \<and> executed (net w) = map snd ms
    \<and> (\<exists>rest. received (net w) = messages_text ms @ rest) \<and> (\<exists>rest. answers_text ms = sent (net w) @ rest)
    \<and> (c_state c \<noteq> CLOSE_CONNECTION \<longrightarrow> sent (net w) = answers_text ms)"
proof -
  from tcp_reach_state [OF assms] obtain ms where ms: "tcp_state (net w) ms c" "c_state c \<noteq> WRITE_RESPONSE" by blast
  then show ?thesis
    by (cases "c_state c") (auto simp: tcp_state_def tcp_idle_def tcp_request_def tcp_closed_def)
qed

lemma tcp_messages_in_order_witness:
  "\<exists>c ms. tcp_reach script_os example_handler snd 3 c ([], example_log) \<and> messages_ok False ms
    \<and> map snd ms = [([0x61, 0x63], Some [0x61])] \<and> answers_text ms = lit ''1:a,''"
proof -
  obtain c where c: "tcp_reach script_os example_handler snd 3 c ([], example_log)" "c_state c = READ_HEADER"
    using example_reached by blast
  from tcp_messages_in_order [OF c(1) script_os_laws(1,2) log_handler_logged [OF echo_handler_writes]] c(2) obtain ms where
    "messages_ok False ms" "executed example_log = map snd ms" "sent example_log = answers_text ms" by auto
  with c(1) show ?thesis by (intro exI [of _ c] exI [of _ ms]) (simp add: example_log_def)
qed

text \<open>C37: \<^verbatim>\<open>Process\<close> of a netstring connection returns, unless complete messages keep arriving without end.
  When it returns normally, no complete message is left unexecuted in the buffer; when it throws, the
  exception comes from the handler, so no access to the buffer or to the allocated request is out of
  bounds, which would be the exception \<open>Undefined\<close>.\<close>

theorem tcp_process_returns:
  assumes "tcp_reach os handler net fd c w"
    and "stream_log os fd net" "alloc_ok os" "handler_logged handler net" "clock_runs os"
  shows "(\<exists>r c' m' w'. Process os (tcp_connection os handler) e c m w = Some (r, c', m', w')
      \<and> (case r of Inr _ \<Rightarrow> \<not> e \<or> tcp_waiting c' | Inl x \<Rightarrow> handler_raises handler x))
    \<or> (\<forall>n. \<exists>c' m' w'. Process_passes n os (tcp_connection os handler) e c m w = Some (Inr True, c', m', w')
        \<and> length (executed (net w)) + n \<le> length (received (net w')))"
proof -
  have more: "\<exists>c' m' w'. Process_passes n os (tcp_connection os handler) e c m w = Some (Inr True, c', m', w')
      \<and> length (executed (net w)) + n \<le> length (received (net w'))"
    if "tcp_state (net w) ms c" "Process_passes n os (tcp_connection os handler) e c m w = Some (Inr True, c', m', w')"
      "tcp_state (net w') (ms @ es) c'" "n \<le> length es" for n ms c' m' w' es
    using that(2,4) tcp_state_executed(1) [OF that(1)] tcp_state_executed [OF that(3)] by fastforce
  from tcp_process [OF assms, of e m] more show ?thesis by blast
qed

lemma tcp_process_returns_witness:
  "\<exists>c. tcp_reach script_os example_handler snd 3 c ([], example_log) \<and>
    (\<exists>r c' m' w'. Process script_os (tcp_connection script_os example_handler) True c () ([], example_log)
        = Some (r, c', m', w') \<and> (case r of Inr _ \<Rightarrow> tcp_waiting c' | Inl x \<Rightarrow> handler_raises example_handler x)
     \<or> (\<forall>n. \<exists>c' m' w'. Process_passes n script_os (tcp_connection script_os example_handler) True c () ([], example_log)
          = Some (Inr True, c', m', w') \<and> 1 + n \<le> length (received (snd w'))))"
proof -
  obtain c where c: "tcp_reach script_os example_handler snd 3 c ([], example_log)" "c_state c = READ_HEADER"
    using example_reached by blast
  from tcp_process_returns [OF c(1) script_os_laws(1,2) log_handler_logged [OF echo_handler_writes] script_os_laws(3), of True "()"] c(1)
  show ?thesis by (intro exI [of _ c]) (simp only: snd_conv, simp add: example_log_def cong: sum.case_cong)
qed



section \<open>The servers\<close>

text \<open>C39: when a connection arrives, the single-threaded server first disconnects, if it has reached its
  limit, as few connections as needed: only ones that allow it, and none that has been used more recently
  than another one that allows it and stays. The new connection is added behind those that stay when
  there is room, and then the limit holds; it is refused only if no connection that stays allows to be
  disconnected; if there is no new connection after all, nobody is disconnected.\<close>

theorem server_accepts:
  assumes "\<forall>c \<in> set (sv_connections s). 0 < GetLastTransactionTime c"
  shows "\<exists>kept. subseq kept (sv_connections s)
    \<and> (\<forall>c \<in> set (sv_connections s) - set kept. disconnectable cl s c
        \<and> (\<forall>d \<in> set kept. disconnectable cl s d \<longrightarrow> GetLastTransactionTime c \<le> GetLastTransactionTime d))
    \<and> (if fst (Accept os (sv_socket s) w) < 0 then kept = sv_connections s \<and> sv_connections (fst (ST_AcceptConnection os cl s w)) = kept
       else if length kept < unat (sv_maxConnections s) then
         (length (sv_connections s) < unat (sv_maxConnections s) \<longrightarrow> kept = sv_connections s)
         \<and> (kept \<noteq> sv_connections s \<longrightarrow> unat (sv_maxConnections s) = Suc (length kept))
         \<and> (\<exists>w' c. c = fst (sc_CreateConnection cl (fst (Accept os (sv_socket s) w)) w')
               \<and> sv_connections (fst (ST_AcceptConnection os cl s w)) = kept @ [c])
       else (\<forall>c \<in> set kept. \<not> disconnectable cl s c) \<and> sv_connections (fst (ST_AcceptConnection os cl s w)) = kept)"
proof -
  let ?cs = "sv_connections s" and ?max = "unat (sv_maxConnections s)"
  obtain fd sock w1 where a: "Accept os (sv_socket s) w = (fd, sock, w1)" by (metis prod_cases3)
  have dis: "disconnectable cl (s \<lparr> sv_socket := sock \<rparr>) = disconnectable cl s" by (simp add: disconnectable_def fun_eq_iff)
  obtain room kept w2 where r: "make_room (disconnectable cl s) GetLastTransactionTime (Connection_delete os) ?max ?cs w1 = (room, kept, w2)"
    by (metis prod_cases3)
  note K = make_room_spec [OF r assms]
  show ?thesis
  proof (cases "fd < 0")
    case True
    then show ?thesis by (intro exI [of _ ?cs]) (simp add: ST_AcceptConnection_def a)
  next
    case False
    have sub: "subseq kept ?cs" "length kept \<le> length ?cs" using K by (auto simp: list_emb_length)
    have less: "length kept < length ?cs" if "kept \<noteq> ?cs" using sub that subseq_same_length by (metis le_neq_implies_less)
    show ?thesis
    proof (rule exI [of _ kept], intro conjI sub(1))
      show "\<forall>c \<in> set ?cs - set kept. disconnectable cl s c
        \<and> (\<forall>d \<in> set kept. disconnectable cl s d \<longrightarrow> GetLastTransactionTime c \<le> GetLastTransactionTime d)" using K by blast
    next
      obtain c w3 where c: "sc_CreateConnection cl fd w2 = (c, w3)" by fastforce
      then have new: "\<exists>w'. c = fst (sc_CreateConnection cl fd w')" by (metis fst_conv)
      have acc: "sv_connections (fst (ST_AcceptConnection os cl s w)) = (if room then kept @ [c] else kept)"
        using False by (simp add: ST_AcceptConnection_def a dis r c Let_def)
      show "if fst (Accept os (sv_socket s) w) < 0 then kept = ?cs \<and> sv_connections (fst (ST_AcceptConnection os cl s w)) = kept
       else if length kept < ?max then
         (length ?cs < ?max \<longrightarrow> kept = ?cs) \<and> (kept \<noteq> ?cs \<longrightarrow> ?max = Suc (length kept))
         \<and> (\<exists>w' c. c = fst (sc_CreateConnection cl (fst (Accept os (sv_socket s) w)) w')
               \<and> sv_connections (fst (ST_AcceptConnection os cl s w)) = kept @ [c])
       else (\<forall>c \<in> set kept. \<not> disconnectable cl s c) \<and> sv_connections (fst (ST_AcceptConnection os cl s w)) = kept"
        using K False less new unfolding acc a by (cases room) auto
    qed
  qed
qed

lemma server_accepts_witness:
  "\<exists>c s. sv_connections s = [c] \<and> sv_maxConnections s = 1 \<and> (\<exists>w' d. d = fst (TcpConnection_new script_os [] 4 w')
     \<and> sv_connections (fst (ST_AcceptConnection script_os
       (TcpServer_class script_os echo_handler [] :: (TcpConnection, unit, script) server_class) s ([], example_log))) = [d])"
proof -
  define c where "c = (fst (TcpConnection_new script_os [] 3 ([], example_log))) \<lparr> c_lastTransactionTime := 5 \<rparr>"
  define s where "s = Server_new \<lparr> sv_maxConnections := 1, sv_connections := [c] \<rparr>"
  define cl where "cl = (TcpServer_class script_os echo_handler [] :: (TcpConnection, unit, script) server_class)"
  have d: "disconnectable cl s c"
    by (simp add: disconnectable_def cl_def s_def c_def TcpServer_class_def Server_new_def Tcp_ForcedDisconnectAllowed_def
        TcpConnection_new_def Connection_new_def script_simps)
  have s: "sv_connections s = [c]" "sv_maxConnections s = 1" by (simp_all add: s_def)
  have t: "\<forall>c \<in> set (sv_connections s). 0 < GetLastTransactionTime c" by (simp add: s_def c_def GetLastTransactionTime_def)
  have a: "fst (Accept script_os (sv_socket s) ([], example_log)) = 4" by (simp add: Accept_def script_os_def)
  have "\<exists>w' d. d = fst (sc_CreateConnection cl 4 w')
      \<and> sv_connections (fst (ST_AcceptConnection script_os cl s ([], example_log))) = [d]"
    apply (rule exE [OF server_accepts [OF t, of cl script_os "([], example_log)", unfolded a s]])
    subgoal premises p for kept
    proof -
      have "kept \<in> set (subseqs [c])" using p by (simp only: in_set_subseqs)
      then consider "kept = []" | "kept = [c]" by auto
      then show ?thesis
      proof cases
        case 1
        show ?thesis using p by (simp add: 1 del: split_paired_Ex)
      next
        case 2
        show ?thesis using p d by (simp add: 2 del: split_paired_Ex)
      qed
    qed
    done
  with s show ?thesis unfolding cl_def by (intro exI [of _ c] exI [of _ s]) (simp add: TcpServer_class_def del: split_paired_Ex)
qed



end
